(* ===== verification/KPrelude.thy ===== *)
theory KPrelude
  imports
    Main
    "HOL-Library.Monad_Syntax"
    "HOL-Library.Word"
    "HOL-Library.Signed_Division"
begin

section \<open>Prelude: C values, definedness, shared automation\<close>

text \<open>
  What every component of the model shares.

  \<^item> Addresses are natural numbers; \<open>NULL\<close> is 0.  A C \<open>int\<close> is an \<^typ>\<open>int\<close>; where the
    code converts a wider value to \<open>int\<close>, \<open>wrap32\<close> is written out.  A \<open>uint64_t\<close> whose
    wrap-around matters is a \<^typ>\<open>64 word\<close>.
  \<^item> An operation that dereferences a pointer, indexes an array or loops returns an
    \<open>option\<close>: \<open>None\<close> means that the C execution has no defined result, because it
    dereferences \<open>NULL\<close>, leaves an array or never returns.  Errors that the code itself
    detects (a \<open>NULL\<close> result, a returned flag) are values under \<open>Some\<close>.
  \<^item> The structures that the kernel links through pointers live in typed stores, functions
    from addresses to records.  The allocator never clears a page, so a field that the code
    does not initialise keeps what the store held at that address.
\<close>

named_theorems store_simps \<open>unfolding the small accessors of the stores\<close>
named_theorems frame_simps \<open>what an operation leaves unchanged\<close>
named_theorems inv_intros \<open>preservation of the components' invariants\<close>

type_synonym addr = nat
type_synonym byte = "8 word"

abbreviation (input) NULL :: addr where "NULL \<equiv> 0"

subsection \<open>Dereferencing\<close>

definition chk :: "addr \<Rightarrow> unit option" where
  \<comment> \<open>the pointer is about to be dereferenced\<close>
  "chk p = (if p = NULL then None else Some ())"

lemma chk_Some [simp]: "p \<noteq> NULL \<Longrightarrow> chk p = Some ()"
  and chk_NULL [simp]: "chk NULL = None"
  by (simp_all add: chk_def)

lemma chk_pos [simp]: "0 < p \<Longrightarrow> chk p = Some ()"
  by (simp add: chk_def)

lemma chk_eq_Some_iff [simp]: "chk p = Some u \<longleftrightarrow> p \<noteq> NULL"
  by (simp add: chk_def)

subsection \<open>C integer conversions\<close>

definition wrap32 :: "int \<Rightarrow> int" where
  \<comment> \<open>conversion of a wider value to \<open>int\<close> (two's complement)\<close>
  "wrap32 x = signed_take_bit 31 x"

definition u64 :: "int \<Rightarrow> 64 word" where
  \<comment> \<open>conversion of an \<open>int\<close> to \<open>uint64_t\<close>\<close>
  "u64 x = word_of_int x"

definition int_range :: "int \<Rightarrow> bool" where
  \<comment> \<open>a result of signed arithmetic that does not overflow\<close>
  "int_range v \<longleftrightarrow> - (2 ^ 31) \<le> v \<and> v < 2 ^ 31"

definition c_int :: "int \<Rightarrow> int option" where
  \<comment> \<open>the value of a signed operation; an overflow is undefined and has no result\<close>
  "c_int v = (if int_range v then Some v else None)"

lemma c_int_nat [simp]: "n < 2147483648 \<Longrightarrow> c_int (int n) = Some (int n)"
  by (simp add: c_int_def int_range_def)

lemma wrap32_id: "- (2 ^ 31) \<le> x \<Longrightarrow> x < 2 ^ 31 \<Longrightarrow> wrap32 x = x"
  unfolding wrap32_def by (simp add: signed_take_bit_int_eq_self)

lemma wrap32_nat: "n < 2147483648 \<Longrightarrow> wrap32 (int n) = int n"
  by (rule wrap32_id) simp_all

lemma wrap32_range: "- (2 ^ 31) \<le> wrap32 x \<and> wrap32 x < 2 ^ 31"
  unfolding wrap32_def
  using signed_take_bit_int_greater_eq_minus_exp [of 31 x]
    signed_take_bit_int_less_exp [of 31 x] by simp

lemma unat_u64: "0 \<le> x \<Longrightarrow> x < 2 ^ 64 \<Longrightarrow> unat (u64 x) = nat x"
  unfolding u64_def by (simp add: unat_eq_nat_uint uint_word_of_int take_bit_int_eq_self)

lemma unat_of_nat64: "n < 2 ^ 64 \<Longrightarrow> unat (of_nat n :: 64 word) = n"
  by (simp add: unat_of_nat take_bit_nat_eq_self)

lemma uint_u64: "0 \<le> x \<Longrightarrow> x < 2 ^ 64 \<Longrightarrow> uint (u64 x) = x"
  unfolding u64_def by (simp add: uint_word_of_int take_bit_int_eq_self)

subsection \<open>Lists and injective fields\<close>

lemma inj_on_fresh: "inj_on f A \<Longrightarrow> (\<And>x. x \<in> A \<Longrightarrow> f x \<noteq> f a) \<Longrightarrow> inj_on f (insert a A)"
  unfolding inj_on_insert by (metis Diff_iff imageE)

lemma inj_on_eq: "inj_on f A \<Longrightarrow> (\<And>x. x \<in> A \<Longrightarrow> g x = f x) \<Longrightarrow> inj_on g A"
  by (auto simp: inj_on_def)

lemma find_None_all: "List.find P xs = None \<longleftrightarrow> (\<forall>x \<in> set xs. \<not> P x)"
  by (induction xs) auto

lemma find_Some_mem: "List.find P xs = Some x \<Longrightarrow> x \<in> set xs \<and> P x"
  by (induction xs) (auto split: if_splits)

lemma find_append:
  "List.find P (xs @ ys) = (case List.find P xs of None \<Rightarrow> List.find P ys | Some x \<Rightarrow> Some x)"
  by (induction xs) auto

lemma find_cong_set: "(\<And>x. x \<in> set xs \<Longrightarrow> P x = Q x) \<Longrightarrow> List.find P xs = List.find Q xs"
  by (induction xs) auto

end
