(* ===== verification/BitMap.thy ===== *)
theory BitMap
  imports KPrelude
begin

unbundle bit_operations_syntax

section \<open>Bit maps and rounded-up division\<close>

text \<open>
  \<open>myMath.h\<close>, \<open>bitmap.h\<close> and \<open>bitmap.c\<close>.  A map is the array of \<open>int\<close> it points to; a
  position selects the bit \<open>position % 32\<close> of the word \<open>position / 32\<close>, both computed in
  \<open>unsigned long\<close> because \<open>INT_BITS\<close> is a \<open>sizeof\<close>.  Leaving the array is \<open>None\<close>.
  \<open>occupied\<close> is the abstraction: the set of positions whose bit is set.
\<close>

subsection \<open>\<open>DIV_CEIL\<close>\<close>

text \<open>The macro on \<open>int\<close> operands (\<open>/\<close> and \<open>%\<close> truncate towards zero).\<close>

definition POSITIVE_DIV_CEIL :: "int \<Rightarrow> int \<Rightarrow> int" where
  "POSITIVE_DIV_CEIL x y = (x + (y - x smod y) smod y) sdiv y"

definition NEGATIVE_DIV_CEIL :: "int \<Rightarrow> int \<Rightarrow> int" where
  "NEGATIVE_DIV_CEIL x y = x sdiv y"

definition DIV_CEIL_FIXED :: "int \<Rightarrow> int \<Rightarrow> int" where
  "DIV_CEIL_FIXED x y = (if x > 0 then POSITIVE_DIV_CEIL x y else NEGATIVE_DIV_CEIL x y)"

definition DIV_CEIL :: "int \<Rightarrow> int \<Rightarrow> int" where
  "DIV_CEIL x y = (if y > 0 then DIV_CEIL_FIXED x y else DIV_CEIL_FIXED (- x) (- y))"

text \<open>The same macro when the arithmetic is in \<open>uint64_t\<close>.\<close>

definition DIV_CEIL_u64 :: "64 word \<Rightarrow> 64 word \<Rightarrow> 64 word" where
  "DIV_CEIL_u64 x y = (if x > 0 then (x + (y - x mod y) mod y) div y else x div y)"

lemma sdiv_nonneg: "0 \<le> x \<Longrightarrow> 0 < y \<Longrightarrow> x sdiv y = x div (y::int)"
  by (cases "x = 0") (simp_all add: signed_divide_int_def sgn_if)

lemma smod_nonneg: "0 \<le> x \<Longrightarrow> 0 < y \<Longrightarrow> x smod y = x mod (y::int)"
  by (cases "x = 0") (simp_all add: signed_modulo_int_def sdiv_nonneg minus_div_mult_eq_mod)

lemma round_up_div:
  fixes x y :: nat
  assumes "0 < y"
  shows "(x + (y - x mod y) mod y) div y = (x + y - 1) div y"
proof (cases "x mod y = 0")
  case True
  then obtain k where "x = k * y" by (metis mod_0_imp_dvd dvd_div_mult_self)
  then have "(x + y - 1) div y = (k * y + (y - 1)) div y" using assms by simp
  also have "\<dots> = k" using assms by (simp only: div_mult_self3) simp
  finally have r: "(x + y - 1) div y = k" .
  have "(x + (y - x mod y) mod y) div y = k" using True \<open>x = k * y\<close> assms by simp
  with r show ?thesis by (simp only:)
next
  case False
  have lt: "x mod y < y" using assms by simp
  have x: "x = x div y * y + x mod y" by simp
  from False lt have "(y - x mod y) mod y = y - x mod y" by simp
  then have "x + (y - x mod y) mod y = (x div y + 1) * y"
    using x lt by (metis add.commute add.left_commute le_add_diff_inverse less_imp_le mult_Suc
        Suc_eq_plus1 mult.commute)
  then have l: "(x + (y - x mod y) mod y) div y = x div y + 1"
    by (metis assms nonzero_mult_div_cancel_right less_not_refl)
  have "x + y - 1 = (x div y * y + x mod y) + y - 1" by simp
  then have "x + y - 1 = (x div y + 1) * y + (x mod y - 1)"
    using False by (simp only: add_mult_distrib)
  moreover have "x mod y - 1 < y" using lt by simp
  ultimately have "(x + y - 1) div y = x div y + 1"
    by (metis add.right_neutral assms div_less div_mult_self3 less_not_refl2)
  with l show ?thesis by simp
qed

text \<open>Rounding up on the naturals, the reference for the sizes below.\<close>

definition ceil_div :: "nat \<Rightarrow> nat \<Rightarrow> nat" where
  "ceil_div x y = (x + y - 1) div y"

lemma DIV_CEIL_u64_ceil:
  assumes "unat x < 2 ^ 63" and "0 < unat y" and "unat y < 2 ^ 63"
  shows "unat (DIV_CEIL_u64 x y) = ceil_div (unat x) (unat y)"
proof -
  have r: "unat ((y - x mod y) mod y) = (unat y - unat x mod unat y) mod unat y"
  proof -
    have "x mod y \<le> y"
      using assms(2) by (simp add: word_le_nat_alt unat_mod mod_le_divisor)
    then have "unat (y - x mod y) = unat y - unat x mod unat y"
      by (simp add: unat_sub unat_mod)
    then show ?thesis by (simp add: unat_mod)
  qed
  have "(unat y - unat x mod unat y) mod unat y < 2 ^ 63"
    using assms(2,3) by (meson less_trans mod_less_divisor)
  then have "unat (x + (y - x mod y) mod y) =
      unat x + (unat y - unat x mod unat y) mod unat y"
    using assms(1) r by (subst unat_add_lem [THEN iffD1]) auto
  then have "unat ((x + (y - x mod y) mod y) div y) = ceil_div (unat x) (unat y)"
    using assms(2) by (simp add: unat_div round_up_div ceil_div_def)
  moreover have "unat (x div y) = ceil_div (unat x) (unat y)" if "\<not> x > 0"
    using that assms(2) by (simp add: ceil_div_def word_gt_0 unat_div)
  ultimately show ?thesis by (auto simp: DIV_CEIL_u64_def)
qed

subsection \<open>Positions\<close>

definition SECTOR_INDEX :: "int \<Rightarrow> nat" where
  "SECTOR_INDEX position = unat (u64 position div 32)"

definition SECTOR_POSITION :: "int \<Rightarrow> nat" where
  "SECTOR_POSITION position = unat (u64 position mod 32)"

definition MAP_SIZE :: "int \<Rightarrow> 64 word" where
  "MAP_SIZE bits = (if bits > 0 then (u64 bits + (32 - u64 bits mod 32) mod 32) div 32
     else u64 bits div 32)"

definition SET_MASK :: "int \<Rightarrow> 32 word" where
  "SET_MASK position = push_bit (SECTOR_POSITION position) 1"

definition RESET_MASK :: "int \<Rightarrow> 32 word" where
  "RESET_MASK position = NOT (SET_MASK position)"

definition GET_BIT :: "32 word \<Rightarrow> nat \<Rightarrow> 32 word" where
  "GET_BIT sector position = signed_drop_bit position sector AND 1"

definition IS_AVAILABLE :: "32 word list \<Rightarrow> int \<Rightarrow> bool option" where
  "IS_AVAILABLE bitMap position =
     (if SECTOR_INDEX position < length bitMap
      then Some (GET_BIT (bitMap ! SECTOR_INDEX position) (SECTOR_POSITION position) = 0)
      else None)"

definition setBit :: "32 word list \<Rightarrow> int \<Rightarrow> 32 word list option" where
  "setBit bitMap position =
     (let sector = SECTOR_INDEX position in
      if sector < length bitMap
      then Some (bitMap[sector := bitMap ! sector OR SET_MASK position]) else None)"

definition resetBit :: "32 word list \<Rightarrow> int \<Rightarrow> 32 word list option" where
  "resetBit bitMap position =
     (let sector = SECTOR_INDEX position in
      if sector < length bitMap
      then Some (bitMap[sector := bitMap ! sector AND RESET_MASK position]) else None)"

subsection \<open>The abstract map\<close>

definition occupied :: "32 word list \<Rightarrow> nat \<Rightarrow> bool" where
  "occupied bitMap p \<longleftrightarrow> p div 32 < length bitMap \<and> bit (bitMap ! (p div 32)) (p mod 32)"

lemma SECTOR_nat:
  assumes "p < 2 ^ 63"
  shows "SECTOR_INDEX (int p) = p div 32" and "SECTOR_POSITION (int p) = p mod 32"
proof -
  have "unat (u64 (int p)) = p" using assms by (simp add: unat_u64)
  then show "SECTOR_INDEX (int p) = p div 32" and "SECTOR_POSITION (int p) = p mod 32"
    by (simp_all add: SECTOR_INDEX_def SECTOR_POSITION_def unat_div unat_mod)
qed

lemma GET_BIT_zero: "q < 32 \<Longrightarrow> GET_BIT w q = 0 \<longleftrightarrow> \<not> bit w q"
proof -
  assume q: "q < 32"
  have "GET_BIT w q = 0 \<longleftrightarrow> \<not> bit (signed_drop_bit q w) 0"
    by (simp add: GET_BIT_def and_one_eq odd_iff_mod_2_eq_one bit_0 even_iff_mod_2_eq_zero)
  also have "bit (signed_drop_bit q w) 0 = bit w q"
    using q by (auto simp: bit_signed_drop_bit_iff)
  finally show ?thesis .
qed

lemma IS_AVAILABLE_nat:
  assumes "p < 2 ^ 63" and "p div 32 < length m"
  shows "IS_AVAILABLE m (int p) = Some (\<not> occupied m p)"
  using assms by (simp add: IS_AVAILABLE_def SECTOR_nat GET_BIT_zero occupied_def)

lemma bit_SET_MASK: "p < 2 ^ 63 \<Longrightarrow> q < 32 \<Longrightarrow> bit (SET_MASK (int p)) q \<longleftrightarrow> q = p mod 32"
  by (auto simp: SET_MASK_def SECTOR_nat bit_exp_iff)

lemma bit_RESET_MASK: "p < 2 ^ 63 \<Longrightarrow> q < 32 \<Longrightarrow> bit (RESET_MASK (int p)) q \<longleftrightarrow> q \<noteq> p mod 32"
  by (simp add: RESET_MASK_def bit_not_iff bit_SET_MASK)

lemma div_mod_32_eq: "p div 32 = q div 32 \<Longrightarrow> p mod 32 = q mod 32 \<Longrightarrow> p = (q::nat)"
  by (metis div_mult_mod_eq)

lemma setBit_nat:
  assumes "p < 2 ^ 63" and "p div 32 < length m"
  shows "\<exists>m'. setBit m (int p) = Some m' \<and> length m' = length m
    \<and> (\<forall>q. occupied m' q \<longleftrightarrow> occupied m q \<or> q = p)"
proof -
  let ?m = "m[p div 32 := m ! (p div 32) OR SET_MASK (int p)]"
  have "occupied ?m q \<longleftrightarrow> occupied m q \<or> q = p" for q
  proof (cases "q div 32 = p div 32")
    case True
    with assms show ?thesis
      by (auto simp: occupied_def bit_or_iff bit_SET_MASK dest: div_mod_32_eq)
  next
    case False
    then show ?thesis by (auto simp: occupied_def)
  qed
  with assms show ?thesis by (auto simp: setBit_def SECTOR_nat Let_def)
qed

lemma resetBit_nat:
  assumes "p < 2 ^ 63" and "p div 32 < length m"
  shows "\<exists>m'. resetBit m (int p) = Some m' \<and> length m' = length m
    \<and> (\<forall>q. occupied m' q \<longleftrightarrow> occupied m q \<and> q \<noteq> p)"
proof -
  let ?m = "m[p div 32 := m ! (p div 32) AND RESET_MASK (int p)]"
  have "occupied ?m q \<longleftrightarrow> occupied m q \<and> q \<noteq> p" for q
  proof (cases "q div 32 = p div 32")
    case True
    with assms show ?thesis
      by (auto simp: occupied_def bit_and_iff bit_RESET_MASK dest: div_mod_32_eq)
  next
    case False
    then show ?thesis by (auto simp: occupied_def)
  qed
  with assms show ?thesis by (auto simp: resetBit_def SECTOR_nat Let_def)
qed

lemma MAP_SIZE_nat: "b < 2 ^ 63 \<Longrightarrow> unat (MAP_SIZE (int b)) = ceil_div b 32"
proof -
  assume b: "b < 2 ^ 63"
  have u: "unat (u64 (int b)) = b" using b by (simp add: unat_u64)
  have "MAP_SIZE (int b) = DIV_CEIL_u64 (u64 (int b)) 32"
    using u by (auto simp: MAP_SIZE_def DIV_CEIL_u64_def word_gt_0 u64_def)
  then show ?thesis using DIV_CEIL_u64_ceil [of "u64 (int b)" 32] u b by simp
qed

lemma ceil_div_bound: "p < b \<Longrightarrow> p div 32 < ceil_div b 32"
  by (simp add: ceil_div_def less_eq_div_iff_mult_less_eq Suc_le_eq [symmetric])

lemma DIV_CEIL_ceiling:
  assumes "y \<noteq> 0"
  shows "DIV_CEIL x y = (if 0 < x * y then int (ceil_div (nat \<bar>x\<bar>) (nat \<bar>y\<bar>)) else x sdiv y)"
proof -
  have pos: "DIV_CEIL_FIXED a b = (if 0 < a then int (ceil_div (nat a) (nat b)) else a sdiv b)"
    if "0 < b" for a b
  proof (cases "0 < a")
    case True
    define m n where "m = nat a" and "n = nat b"
    have ab: "a = int m" "b = int n" "0 < n" using True that by (simp_all add: m_def n_def)
    have "m mod n \<le> n" using ab(3) by (simp add: mod_le_divisor)
    then have r: "int n - int (m mod n) = int (n - m mod n)" by (simp add: of_nat_diff)
    have "a smod b = int (m mod n)" using ab by (simp add: smod_nonneg of_nat_mod)
    moreover have "int (n - m mod n) smod int n = int ((n - m mod n) mod n)"
      using ab(3) by (simp only: smod_nonneg of_nat_0_le_iff of_nat_0_less_iff of_nat_mod)
    ultimately have "(b - a smod b) smod b = int ((n - m mod n) mod n)"
      using ab(2) r by (simp only:)
    then have "a + (b - a smod b) smod b = int (m + (n - m mod n) mod n)" using ab(1) by simp
    then have "(a + (b - a smod b) smod b) sdiv b = int ((m + (n - m mod n) mod n) div n)"
      using ab(2,3) by (simp only: sdiv_nonneg of_nat_0_le_iff of_nat_0_less_iff of_nat_div)
    then show ?thesis
      using True ab round_up_div [OF ab(3), of m]
      by (simp add: DIV_CEIL_FIXED_def POSITIVE_DIV_CEIL_def ceil_div_def)
  qed (simp add: DIV_CEIL_FIXED_def NEGATIVE_DIV_CEIL_def)
  show ?thesis
  proof (cases "0 < y")
    case True
    then show ?thesis by (simp add: DIV_CEIL_def pos zero_less_mult_iff)
  next
    case False
    then have y: "y < 0" using assms by simp
    have "- x sdiv - y = x sdiv y" by (simp add: signed_divide_int_def)
    with y show ?thesis by (simp add: DIV_CEIL_def pos zero_less_mult_iff)
  qed
qed

end
