(* ===== verification/MemoryManager.thy ===== *)
theory MemoryManager
  imports BitMap
begin

section \<open>The page allocator (\<open>memoryManager.c\<close>)\<close>

text \<open>
  The allocator hands out runs of 4 KiB pages of one region and keeps a bit per page in a
  map that it places behind the pages.  The state is the three globals of the file and the
  address of the map; \<open>usedMap\<close> is the array behind the pointer of that name.

  The loops are transcribed as recursions: the two loops of \<open>getBlocksAmount\<close> are
  \<open>countPages\<close> and \<open>fitMap\<close>, the two of \<open>allocate\<close> are \<open>findRun\<close> and \<open>scanRun\<close>, those of
  \<open>reserve\<close> and \<open>deallocate\<close> are \<open>setBits\<close> and \<open>resetBits\<close>.
\<close>

abbreviation (input) PAGE_SIZE :: int where "PAGE_SIZE \<equiv> 4096"

record mm_state =
  initMem :: addr
  usedMap :: "32 word list"
  usedMapAddr :: addr
  blocksAmount :: int

subsection \<open>Initialisation\<close>

text \<open>\<open>do { auxMem += PAGE_SIZE; blocksAmount++; } while (auxMem <= totalMem);\<close>\<close>

partial_function (option) countPages :: "64 word \<Rightarrow> 64 word \<Rightarrow> int \<Rightarrow> (64 word \<times> int) option" where
  "countPages totalMem auxMem blocks =
     (let auxMem' = auxMem + 4096; blocks' = blocks + 1 in
      if auxMem' \<le> totalMem then countPages totalMem auxMem' blocks'
      else Some (auxMem', blocks'))"

definition enoughSpace :: "int \<Rightarrow> int \<Rightarrow> bool" where
  "enoughSpace blocks remainingMem =
     (let spaceForMap = 8;
          spaceForMap = wrap32 (uint (u64 spaceForMap + MAP_SIZE blocks))
      in spaceForMap \<le> remainingMem)"

text \<open>\<open>while (!enoughSpace(remainingMem)) { blocksAmount--; remainingMem += PAGE_SIZE; }\<close>\<close>

partial_function (option) fitMap :: "int \<Rightarrow> int \<Rightarrow> int option" where
  "fitMap blocks remainingMem =
     (if \<not> enoughSpace blocks remainingMem then fitMap (blocks - 1) (remainingMem + PAGE_SIZE)
      else Some blocks)"

definition getBlocksAmount :: "64 word \<Rightarrow> 'z mm_state_scheme \<Rightarrow> 'z mm_state_scheme option" where
  "getBlocksAmount totalMem s = do {
     (auxMem, blocks) \<leftarrow> countPages totalMem 0 (-1);
     let auxMem = auxMem - 4096;
     let remainingMem = wrap32 (uint (totalMem - auxMem));
     blocks \<leftarrow> fitMap blocks remainingMem;
     Some (s\<lparr>blocksAmount := blocks\<rparr>) }"

definition mapInit :: "'z mm_state_scheme \<Rightarrow> 'z mm_state_scheme" where
  "mapInit s =
     (let size = wrap32 (uint (MAP_SIZE (blocksAmount s))) in
      s\<lparr>usedMapAddr := nat (int (initMem s) + wrap32 (blocksAmount s * PAGE_SIZE)),
        usedMap := replicate (nat size) 0\<rparr>)"

definition memAllocatorInit ::
  "addr \<Rightarrow> addr \<Rightarrow> 'z mm_state_scheme \<Rightarrow> (int \<times> 'z mm_state_scheme) option" where
  "memAllocatorInit initPosition endPosition s =
     (let totalMem = u64 (int endPosition - int initPosition) in
      if totalMem < 4096 then Some (0, s)
      else do {
        s \<leftarrow> getBlocksAmount totalMem s;
        let s = s\<lparr>initMem := initPosition\<rparr>;
        Some (1, mapInit s) })"

subsection \<open>Allocation\<close>

text \<open>\<open>for (j = 0; j < blocksRequest && allocFound; j++) allocFound = IS_AVAILABLE(usedMap, i+j);\<close>\<close>

function scanRun :: "32 word list \<Rightarrow> int \<Rightarrow> int \<Rightarrow> int \<Rightarrow> (int \<times> bool) option" where
  "scanRun m blocksRequest i j =
     (if j < blocksRequest then do {
        allocFound \<leftarrow> IS_AVAILABLE m (i + j);
        if allocFound then scanRun m blocksRequest i (j + 1) else Some (j + 1, False) }
      else Some (j, True))"
  by pat_completeness auto
termination
  by (relation "measure (\<lambda>(m, r, i, j). nat (r - j))") auto

text \<open>\<open>for (i = 0; i <= lastIndex && !allocFound;) { \<dots> i += j; }\<close>\<close>

partial_function (option) findRun ::
  "32 word list \<Rightarrow> int \<Rightarrow> int \<Rightarrow> int \<Rightarrow> int \<Rightarrow> bool \<Rightarrow> (int \<times> int \<times> bool) option" where
  "findRun m blocksRequest lastIndex i j allocFound =
     (if i \<le> lastIndex \<and> \<not> allocFound then do {
        (j', allocFound') \<leftarrow> scanRun m blocksRequest i 0;
        findRun m blocksRequest lastIndex (i + j') j' allocFound' }
      else Some (i, j, allocFound))"

function setBits :: "32 word list \<Rightarrow> int \<Rightarrow> int \<Rightarrow> 32 word list option" where
  "setBits m i limit = (if i < limit then do { m' \<leftarrow> setBit m i; setBits m' (i + 1) limit } else Some m)"
  by pat_completeness auto
termination
  by (relation "measure (\<lambda>(m, i, l). nat (l - i))") auto

definition reserve :: "32 word list \<Rightarrow> int \<Rightarrow> int \<Rightarrow> 32 word list option" where
  "reserve m blocksRequest startingBlock = setBits m startingBlock (startingBlock + blocksRequest)"

definition blocks_of :: "64 word \<Rightarrow> int" where
  \<comment> \<open>\<open>int blocksRequest = DIV_CEIL(request, PAGE_SIZE)\<close>\<close>
  "blocks_of request = wrap32 (uint (DIV_CEIL_u64 request 4096))"

definition allocate :: "64 word \<Rightarrow> 'z mm_state_scheme \<Rightarrow> (addr \<times> 'z mm_state_scheme) option" where
  "allocate request s = do {
     let blocksRequest = blocks_of request;
     let lastIndex = wrap32 (blocksAmount s - blocksRequest);
     (i, j, allocFound) \<leftarrow> findRun (usedMap s) blocksRequest lastIndex 0 0 False;
     if \<not> allocFound then Some (NULL, s)
     else do {
       let i = i - j;
       m \<leftarrow> reserve (usedMap s) blocksRequest i;
       Some (nat (int (initMem s) + wrap32 (i * PAGE_SIZE)), s\<lparr>usedMap := m\<rparr>) } }"

subsection \<open>Deallocation\<close>

function resetBits :: "32 word list \<Rightarrow> int \<Rightarrow> int \<Rightarrow> 32 word list option" where
  "resetBits m i limit = (if i < limit then do { m' \<leftarrow> resetBit m i; resetBits m' (i + 1) limit } else Some m)"
  by pat_completeness auto
termination
  by (relation "measure (\<lambda>(m, i, l). nat (l - i))") auto

definition deallocate ::
  "addr \<Rightarrow> 64 word \<Rightarrow> 'z mm_state_scheme \<Rightarrow> (int \<times> 'z mm_state_scheme) option" where
  "deallocate startingPosition sz s =
     (let blocks = blocks_of sz;
          startingBlock = wrap32 ((int startingPosition - int (initMem s)) sdiv PAGE_SIZE);
          limit = wrap32 (startingBlock + blocks)
      in if limit > blocksAmount s then Some (0, s)
         else do {
           m \<leftarrow> resetBits (usedMap s) startingBlock limit;
           Some (1, s\<lparr>usedMap := m\<rparr>) })"

declare scanRun.simps [simp del] setBits.simps [simp del] resetBits.simps [simp del]

subsection \<open>The abstract view: first fit over a set of pages\<close>

definition mm_inv :: "'z mm_state_scheme \<Rightarrow> bool" where
  "mm_inv s \<longleftrightarrow> 0 \<le> blocksAmount s \<and> blocksAmount s < 2 ^ 19 \<and> 0 < initMem s
     \<and> length (usedMap s) = ceil_div (nat (blocksAmount s)) 32"

definition npages :: "64 word \<Rightarrow> nat" where
  "npages request = ceil_div (unat request) 4096"

definition page_addr :: "'z mm_state_scheme \<Rightarrow> nat \<Rightarrow> addr" where
  "page_addr s i = initMem s + i * 4096"

definition used_pages :: "'z mm_state_scheme \<Rightarrow> nat set" where
  "used_pages s = {p. p < nat (blocksAmount s) \<and> occupied (usedMap s) p}"

fun run_free :: "32 word list \<Rightarrow> nat \<Rightarrow> nat \<Rightarrow> bool" where
  "run_free m n i = (\<forall>k \<in> set [0..<n]. \<not> occupied m (i + k))"

definition first_fit :: "'z mm_state_scheme \<Rightarrow> nat \<Rightarrow> nat option" where
  "first_fit s n = List.find (run_free (usedMap s) n) [0..<Suc (nat (blocksAmount s)) - n]"

lemma run_free_iff: "run_free m n i \<longleftrightarrow> (\<forall>k<n. \<not> occupied m (i + k))"
  by auto

declare run_free.simps [simp del]

lemma blocks_of_npages:
  assumes "unat request \<le> 2 ^ 42"
  shows "blocks_of request = int (npages request)"
proof -
  have "unat (DIV_CEIL_u64 request 4096) = npages request"
    using assms by (subst DIV_CEIL_u64_ceil) (simp_all add: npages_def)
  moreover have "npages request \<le> (2 ^ 42 + 4095) div 4096"
    unfolding npages_def ceil_div_def using assms by (intro div_le_mono) simp
  ultimately show ?thesis
    unfolding blocks_of_def by (subst wrap32_id) (simp_all add: uint_nat)
qed

lemma npages_pos: "request \<noteq> 0 \<Longrightarrow> 0 < npages request"
  unfolding npages_def ceil_div_def
  by (simp add: div_greater_zero_iff) (metis Suc_leI unat_gt_0 le_add_same_cancel2 le_diff_conv
      add.commute add_le_mono1 diff_Suc_1' diff_le_mono plus_1_eq_Suc)

subsection \<open>The loops\<close>

lemma scanRun_find:
  assumes "j \<le> n" and "\<And>k. k < n \<Longrightarrow> (i + k) div 32 < length m" and "i + n < 2 ^ 63"
  shows "scanRun m (int n) (int i) (int j) =
    Some (case List.find (\<lambda>k. occupied m (i + k)) [j..<n] of
      None \<Rightarrow> (int n, True) | Some k \<Rightarrow> (int (Suc k), False))"
  using assms
proof (induction "n - j" arbitrary: j)
  case 0
  then show ?case by (simp add: scanRun.simps)
next
  case (Suc d)
  then have j: "j < n" by simp
  have av: "IS_AVAILABLE m (int i + int j) = Some (\<not> occupied m (i + j))"
    using IS_AVAILABLE_nat [of "i + j" m] Suc.prems j by simp
  have step: "scanRun m (int n) (int i) (int (Suc j)) =
    Some (case List.find (\<lambda>k. occupied m (i + k)) [Suc j..<n] of
      None \<Rightarrow> (int n, True) | Some k \<Rightarrow> (int (Suc k), False))"
    using Suc j by (intro Suc.hyps(1)) auto
  show ?case
    using j step by (subst scanRun.simps) (simp add: av upt_conv_Cons add.commute)
qed

lemma find_upt_least:
  "List.find P [a..<b] = Some k \<Longrightarrow> a \<le> k \<and> k < b \<and> P k \<and> (\<forall>x. a \<le> x \<and> x < k \<longrightarrow> \<not> P x)"
proof (induction "b - a" arbitrary: a)
  case 0
  then show ?case by simp
next
  case (Suc d)
  then have ab: "a < b" by simp
  show ?case
  proof (cases "P a")
    case True
    with Suc.prems ab have "k = a" by (simp add: upt_conv_Cons)
    with True ab show ?thesis using leD by blast
  next
    case False
    with Suc.prems ab have "List.find P [Suc a..<b] = Some k" by (simp add: upt_conv_Cons)
    then have "Suc a \<le> k \<and> k < b \<and> P k \<and> (\<forall>x. Suc a \<le> x \<and> x < k \<longrightarrow> \<not> P x)"
      using Suc by (intro Suc.hyps(1)) auto
    with False show ?thesis by (metis Suc_leD le_antisym not_less_eq_eq)
  qed
qed

lemma find_upt_skip:
  assumes "a \<le> c" and "\<And>x. a \<le> x \<Longrightarrow> x < c \<Longrightarrow> \<not> P x"
  shows "List.find P [a..<b] = List.find P [c..<b]"
  using assms
proof (induction "c - a" arbitrary: a)
  case 0
  then show ?case by simp
next
  case (Suc d)
  have "List.find P [Suc a..<b] = List.find P [c..<b]"
    using Suc by (intro Suc.hyps(1)) auto
  moreover have "\<not> P a" using Suc by auto
  ultimately show ?case
    by (cases "a < b") (auto simp: upt_conv_Cons)
qed

lemma findRun_first_fit:
  assumes "\<And>p. p < b \<Longrightarrow> p div 32 < length m" and "b < 2 ^ 62" and "n \<le> b" and "i \<le> b"
  shows "\<exists>i' j'. findRun m (int n) (int b - int n) (int i) j False =
    Some (case List.find (run_free m n) [i..<Suc b - n] of
      None \<Rightarrow> (i', j', False) | Some a \<Rightarrow> (int (a + n), int n, True))"
  using assms(4)
proof (induction "Suc b - i" arbitrary: i j rule: less_induct)
  case less
  show ?case
  proof (cases "i + n \<le> b")
    case False
    then have "[i..<Suc b - n] = []" by simp
    with False show ?thesis by (subst findRun.simps) simp
  next
    case True
    have scan: "scanRun m (int n) (int i) 0 =
      Some (case List.find (\<lambda>k. occupied m (i + k)) [0..<n] of
        None \<Rightarrow> (int n, True) | Some k \<Rightarrow> (int (Suc k), False))"
      using scanRun_find [of 0 n i m] True assms by simp
    have ne: "[i..<Suc b - n] = i # [Suc i..<Suc b - n]" using True by (simp add: upt_conv_Cons)
    show ?thesis
    proof (cases "List.find (\<lambda>k. occupied m (i + k)) [0..<n]")
      case None
      then have "run_free m n i" by (auto simp: find_None_all run_free_iff)
      with True scan None ne show ?thesis
        by (subst findRun.simps) (simp add: findRun.simps)
    next
      case (Some k)
      then have k: "k < n" "occupied m (i + k)" using find_upt_least by fastforce+
      have skip: "List.find (run_free m n) [i..<Suc b - n] =
          List.find (run_free m n) [i + Suc k..<Suc b - n]"
      proof (rule find_upt_skip)
        fix x assume "i \<le> x" "x < i + Suc k"
        then have "x + (i + k - x) = i + k" "i + k - x < n" using k by auto
        with k show "\<not> run_free m n x" by (metis run_free_iff)
      qed simp
      have "i + Suc k \<le> b" using True k by simp
      then have "Suc b - (i + Suc k) < Suc b - i" by linarith
      then obtain i' j' where
        "findRun m (int n) (int b - int n) (int (i + Suc k)) (int (Suc k)) False =
          Some (case List.find (run_free m n) [i + Suc k..<Suc b - n] of
            None \<Rightarrow> (i', j', False) | Some a \<Rightarrow> (int (a + n), int n, True))"
        using less.hyps [of "i + Suc k" "int (Suc k)"] \<open>i + Suc k \<le> b\<close> by blast
      with True scan Some skip show ?thesis
        by (subst findRun.simps) (auto simp: algebra_simps)
    qed
  qed
qed

lemma setBits_run:
  assumes "\<And>p. p < i + n \<Longrightarrow> p div 32 < length m" and "i + n < 2 ^ 63"
  shows "\<exists>m'. setBits m (int i) (int (i + n)) = Some m' \<and> length m' = length m
    \<and> (\<forall>q. occupied m' q \<longleftrightarrow> occupied m q \<or> (i \<le> q \<and> q < i + n))"
  using assms
proof (induction n arbitrary: i m)
  case 0
  then show ?case by (auto simp: setBits.simps)
next
  case (Suc n)
  obtain m1 where m1: "setBit m (int i) = Some m1" "length m1 = length m"
      "\<forall>q. occupied m1 q \<longleftrightarrow> occupied m q \<or> q = i"
    using setBit_nat [of i m] Suc.prems by auto
  obtain m2 where m2: "setBits m1 (int (Suc i)) (int (Suc i + n)) = Some m2"
      "length m2 = length m1" "\<forall>q. occupied m2 q \<longleftrightarrow> occupied m1 q \<or> (Suc i \<le> q \<and> q < Suc i + n)"
    using Suc.IH [of "Suc i" m1] Suc.prems m1 by auto
  have "setBits m (int i) (int (i + Suc n)) = Some m2"
    using m1(1) m2(1) by (subst setBits.simps) (simp add: add.commute)
  moreover have "occupied m2 q \<longleftrightarrow> occupied m q \<or> (i \<le> q \<and> q < i + Suc n)" for q
    using m1(3) [rule_format, of q] m2(3) [rule_format, of q] by (cases "q = i") auto
  ultimately show ?case using m1(2) m2(2) by auto
qed

lemma resetBits_run:
  assumes "\<And>p. p < i + n \<Longrightarrow> p div 32 < length m" and "i + n < 2 ^ 63"
  shows "\<exists>m'. resetBits m (int i) (int (i + n)) = Some m' \<and> length m' = length m
    \<and> (\<forall>q. occupied m' q \<longleftrightarrow> occupied m q \<and> \<not> (i \<le> q \<and> q < i + n))"
  using assms
proof (induction n arbitrary: i m)
  case 0
  then show ?case by (auto simp: resetBits.simps)
next
  case (Suc n)
  obtain m1 where m1: "resetBit m (int i) = Some m1" "length m1 = length m"
      "\<forall>q. occupied m1 q \<longleftrightarrow> occupied m q \<and> q \<noteq> i"
    using resetBit_nat [of i m] Suc.prems by auto
  obtain m2 where m2: "resetBits m1 (int (Suc i)) (int (Suc i + n)) = Some m2"
      "length m2 = length m1" "\<forall>q. occupied m2 q \<longleftrightarrow> occupied m1 q \<and> \<not> (Suc i \<le> q \<and> q < Suc i + n)"
    using Suc.IH [of "Suc i" m1] Suc.prems m1 by auto
  have "resetBits m (int i) (int (i + Suc n)) = Some m2"
    using m1(1) m2(1) by (subst resetBits.simps) (simp add: add.commute)
  moreover have "occupied m2 q \<longleftrightarrow> occupied m q \<and> \<not> (i \<le> q \<and> q < i + Suc n)" for q
    using m1(3) [rule_format, of q] m2(3) [rule_format, of q] by (cases "q = i") auto
  ultimately show ?case using m1(2) m2(2) by auto
qed

subsection \<open>What an operation can change\<close>

lemma allocate_frame: "allocate r s = Some (p, t) \<Longrightarrow> \<exists>m. t = s\<lparr>usedMap := m\<rparr>"
  unfolding allocate_def Let_def
  by (auto split: bind_splits if_splits prod.splits intro: exI [of _ "usedMap s"])

lemma deallocate_frame: "deallocate p r s = Some (u, t) \<Longrightarrow> \<exists>m. t = s\<lparr>usedMap := m\<rparr>"
  unfolding deallocate_def Let_def
  by (auto split: bind_splits if_splits prod.splits intro: exI [of _ "usedMap s"])

lemma usedMap_inject [simp]: "s\<lparr>usedMap := m\<rparr> = s\<lparr>usedMap := m'\<rparr> \<longleftrightarrow> m = m'"
  by (metis mm_state.select_convs(2) mm_state.surjective mm_state.update_convs(2))

text \<open>An operation reads nothing but the map, its origin and the number of pages.\<close>

lemma allocate_other:
  assumes "allocate r s = Some (p, t)"
    and "initMem s' = initMem s" and "usedMap s' = usedMap s" and "blocksAmount s' = blocksAmount s"
  shows "allocate r s' = Some (p, s'\<lparr>usedMap := usedMap t\<rparr>)"
  using assms unfolding allocate_def Let_def
  by (auto split: bind_splits if_splits prod.splits)

lemma deallocate_other:
  assumes "deallocate p r s = Some (v, t)"
    and "initMem s' = initMem s" and "usedMap s' = usedMap s" and "blocksAmount s' = blocksAmount s"
  shows "deallocate p r s' = Some (v, s'\<lparr>usedMap := usedMap t\<rparr>)"
  using assms unfolding deallocate_def Let_def
  by (auto split: bind_splits if_splits prod.splits)

subsection \<open>Allocation is first fit\<close>

lemma mm_inv_index:
  assumes "mm_inv s" and "p < nat (blocksAmount s)"
  shows "p div 32 < length (usedMap s)"
  using assms by (simp add: mm_inv_def ceil_div_bound)

lemma first_fit_Some:
  assumes "first_fit s n = Some i"
  shows "i + n \<le> nat (blocksAmount s)" and "run_free (usedMap s) n i"
    and "j < i \<Longrightarrow> \<not> run_free (usedMap s) n j"
  using find_upt_least [OF assms [unfolded first_fit_def]] by auto

lemma first_fit_None:
  "first_fit s n = None \<Longrightarrow> i + n \<le> nat (blocksAmount s) \<Longrightarrow> \<not> run_free (usedMap s) n i"
  unfolding first_fit_def find_None_all by auto

lemma allocate_first_fit:
  assumes inv: "mm_inv s" and req: "unat request \<le> 2 ^ 42"
  defines "n \<equiv> npages request"
  shows "\<exists>m. allocate request s =
      Some (case first_fit s n of None \<Rightarrow> (NULL, s)
        | Some i \<Rightarrow> (page_addr s i, s\<lparr>usedMap := m\<rparr>))
    \<and> (\<forall>i. first_fit s n = Some i \<longrightarrow> length m = length (usedMap s)
        \<and> (\<forall>q. occupied m q \<longleftrightarrow> occupied (usedMap s) q \<or> (i \<le> q \<and> q < i + n)))"
proof -
  define b where "b = nat (blocksAmount s)"
  have b: "blocksAmount s = int b" "b < 2 ^ 19" using inv by (auto simp: mm_inv_def b_def)
  have n: "blocks_of request = int n" using req by (simp add: n_def blocks_of_npages)
  have "n \<le> (2 ^ 42 + 4095) div 4096"
    unfolding n_def npages_def ceil_div_def using req by (intro div_le_mono) simp
  then have last: "wrap32 (blocksAmount s - int n) = int b - int n"
    using b by (intro trans [OF wrap32_id]) auto
  have idx: "p div 32 < length (usedMap s)" if "p < b" for p
    using mm_inv_index [OF inv] that by (simp add: b_def)
  show ?thesis
  proof (cases "n \<le> b")
    case False
    then have "first_fit s n = None" by (simp add: first_fit_def b_def)
    moreover have "findRun (usedMap s) (int n) (int b - int n) 0 0 False = Some (0, 0, False)"
      using False by (subst findRun.simps) simp
    ultimately show ?thesis by (simp add: allocate_def Let_def n last)
  next
    case True
    have b62: "b < 2 ^ 62" using b by simp
    have ff: "first_fit s n = List.find (run_free (usedMap s) n) [0..<Suc b - n]"
      by (simp add: first_fit_def b_def)
    obtain i' j' where
      run: "findRun (usedMap s) (int n) (int b - int n) 0 0 False =
        Some (case first_fit s n of None \<Rightarrow> (i', j', False) | Some a \<Rightarrow> (int (a + n), int n, True))"
      using findRun_first_fit [OF idx b62 True, of 0 0] unfolding ff by auto
    show ?thesis
    proof (cases "first_fit s n")
      case None
      with run show ?thesis by (simp add: allocate_def Let_def n last)
    next
      case (Some i)
      then have "i + n \<le> b" using first_fit_Some(1) by (simp add: b_def)
      then have "\<And>p. p < i + n \<Longrightarrow> p div 32 < length (usedMap s)" and "i + n < 2 ^ 63"
        using idx b by auto
      then obtain m where "setBits (usedMap s) (int i) (int (i + n)) = Some m"
          "length m = length (usedMap s)"
          "\<forall>q. occupied m q \<longleftrightarrow> occupied (usedMap s) q \<or> (i \<le> q \<and> q < i + n)"
        using setBits_run by blast
      moreover have "wrap32 (int i * 4096) = int (i * 4096)"
        using wrap32_nat [of "i * 4096"] \<open>i + n \<le> b\<close> b(2) by simp
      then have "nat (int (initMem s) + wrap32 (int i * 4096)) = page_addr s i"
        by (simp add: page_addr_def nat_add_distrib)
      ultimately show ?thesis
        using Some run by (intro exI [of _ m]) (simp add: allocate_def Let_def n last reserve_def)
    qed
  qed
qed

lemma deallocate_run:
  assumes inv: "mm_inv s" and req: "unat sz \<le> 2 ^ 42"
    and fits: "i + npages sz \<le> nat (blocksAmount s)"
  shows "\<exists>m. deallocate (page_addr s i) sz s = Some (1, s\<lparr>usedMap := m\<rparr>)
    \<and> length m = length (usedMap s)
    \<and> (\<forall>q. occupied m q \<longleftrightarrow> occupied (usedMap s) q \<and> \<not> (i \<le> q \<and> q < i + npages sz))"
proof -
  define b n where "b = nat (blocksAmount s)" and "n = npages sz"
  have b: "blocksAmount s = int b" "b < 2 ^ 19" and ib: "i + n \<le> b"
    using inv fits by (auto simp: mm_inv_def b_def n_def)
  have "(int (page_addr s i) - int (initMem s)) sdiv 4096 = int i"
    by (simp add: page_addr_def sdiv_nonneg)
  then have st: "wrap32 ((int (page_addr s i) - int (initMem s)) sdiv 4096) = int i"
    using b ib by (simp add: wrap32_id)
  have lim: "wrap32 (int i + blocks_of sz) = int (i + n)"
    using b ib by (simp add: blocks_of_npages [OF req] n_def [symmetric] wrap32_id)
  have "p div 32 < length (usedMap s)" if "p < b" for p
    using mm_inv_index [OF inv] that by (simp add: b_def)
  then have "\<And>p. p < i + n \<Longrightarrow> p div 32 < length (usedMap s)" and "i + n < 2 ^ 63"
    using ib b(2) by auto
  then obtain m where "resetBits (usedMap s) (int i) (int (i + n)) = Some m"
      "length m = length (usedMap s)"
      "\<forall>q. occupied m q \<longleftrightarrow> occupied (usedMap s) q \<and> \<not> (i \<le> q \<and> q < i + n)"
    using resetBits_run by blast
  with st lim ib b show ?thesis
    by (intro exI [of _ m]) (simp add: deallocate_def Let_def n_def)
qed

lemma mm_inv_usedMap:
  "mm_inv s \<Longrightarrow> length m = length (usedMap s) \<Longrightarrow> mm_inv (s\<lparr>usedMap := m\<rparr>)"
  by (simp add: mm_inv_def)

subsection \<open>The allocator's contract\<close>

text \<open>
  What the rest of the kernel relies on: a successful allocation returns pages that nobody
  owns, freeing gives exactly those pages back.  \<open>span p r\<close> are the pages of a block of
  \<open>r\<close> bytes at \<open>p\<close>; request sizes of up to 4 TiB are in its scope, which all structures
  of the kernel are.
\<close>

definition span :: "addr \<Rightarrow> 64 word \<Rightarrow> addr set" where
  "span p request = (\<lambda>k. p + k * 4096) ` {..<npages request}"

definition sane_request :: "64 word \<Rightarrow> bool" where
  "sane_request request \<longleftrightarrow> request \<noteq> 0 \<and> unat request \<le> 2 ^ 42"

definition live_blocks :: "addr set \<Rightarrow> (addr \<times> 64 word) list \<Rightarrow> bool" where
  \<comment> \<open>the blocks of a client: owned, of sane size, and pairwise disjoint\<close>
  "live_blocks own bs \<longleftrightarrow>
     (\<forall>(p, r) \<in> set bs. p \<noteq> NULL \<and> sane_request r \<and> span p r \<subseteq> own)
     \<and> sorted_wrt (\<lambda>(p, r) (q, r'). span p r \<inter> span q r' = {}) bs"

lemma live_blocks_mem:
  "live_blocks own bs \<Longrightarrow> (p, r) \<in> set bs \<Longrightarrow> p \<noteq> NULL \<and> sane_request r \<and> span p r \<subseteq> own"
  unfolding live_blocks_def by blast

lemma live_blocksI:
  assumes "\<And>p r. (p, r) \<in> set bs \<Longrightarrow> p \<noteq> NULL \<and> sane_request r \<and> span p r \<subseteq> own"
    and "sorted_wrt (\<lambda>(p, r) (q, r'). span p r \<inter> span q r' = {}) bs"
  shows "live_blocks own bs"
  using assms unfolding live_blocks_def by blast

lemma live_blocks_Cons:
  assumes "live_blocks own bs" and "p \<noteq> NULL" and "sane_request r" and "span p r \<inter> own = {}"
  shows "live_blocks (own \<union> span p r) ((p, r) # bs)"
proof (rule live_blocksI)
  fix q r' assume "(q, r') \<in> set ((p, r) # bs)"
  then show "q \<noteq> NULL \<and> sane_request r' \<and> span q r' \<subseteq> own \<union> span p r"
    using live_blocks_mem [OF assms(1)] assms(2,3) by auto
next
  have "span p r \<inter> span q r' = {}" if "(q, r') \<in> set bs" for q r'
    using live_blocks_mem [OF assms(1) that] assms(4) by blast
  then show "sorted_wrt (\<lambda>(p, r) (q, r'). span p r \<inter> span q r' = {}) ((p, r) # bs)"
    using assms(1) by (auto simp: live_blocks_def)
qed

lemma live_blocks_drop:
  assumes "live_blocks own (bs @ (p, r) # cs)"
  shows "live_blocks (own - span p r) (bs @ cs)"
proof (rule live_blocksI)
  from assms have d: "sorted_wrt (\<lambda>(p, r) (q, r'). span p r \<inter> span q r' = {}) (bs @ (p, r) # cs)"
    by (simp add: live_blocks_def)
  then show "sorted_wrt (\<lambda>(p, r) (q, r'). span p r \<inter> span q r' = {}) (bs @ cs)"
    by (simp add: sorted_wrt_append)
  fix q r' assume m: "(q, r') \<in> set (bs @ cs)"
  then have "span q r' \<inter> span p r = {}"
    using d by (simp add: sorted_wrt_append) blast
  moreover have "q \<noteq> NULL \<and> sane_request r' \<and> span q r' \<subseteq> own"
    using m by (intro live_blocks_mem [OF assms]) auto
  ultimately show "q \<noteq> NULL \<and> sane_request r' \<and> span q r' \<subseteq> own - span p r" by blast
qed

locale page_allocator =
  fixes alloc :: "64 word \<Rightarrow> 's \<Rightarrow> (addr \<times> 's) option"
    and dealloc :: "addr \<Rightarrow> 64 word \<Rightarrow> 's \<Rightarrow> (int \<times> 's) option"
    and owned :: "'s \<Rightarrow> addr set"
    and ok :: "'s \<Rightarrow> bool"
  assumes alloc_spec: "ok s \<Longrightarrow> sane_request r \<Longrightarrow> \<exists>p t. alloc r s = Some (p, t) \<and> ok t
      \<and> (p = NULL \<and> t = s \<or> p \<noteq> NULL \<and> span p r \<inter> owned s = {} \<and> owned t = owned s \<union> span p r)"
    and dealloc_spec: "ok s \<Longrightarrow> sane_request r \<Longrightarrow> span p r \<subseteq> owned s \<Longrightarrow>
      \<exists>t. dealloc p r s = Some (1, t) \<and> ok t \<and> owned t = owned s - span p r"
begin

lemma alloc_fresh:
  assumes "ok s" and "sane_request r" and "alloc r s = Some (p, t)" and "p \<noteq> NULL"
  shows "span p r \<inter> owned s = {}" and "owned t = owned s \<union> span p r" and "ok t"
  using alloc_spec [OF assms(1,2)] assms(3,4) by auto

lemma alloc_failed:
  assumes "ok s" and "sane_request r" and "alloc r s = Some (NULL, t)"
  shows "t = s"
  using alloc_spec [OF assms(1,2)] assms(3) by auto

lemma alloc_dealloc:
  assumes "ok s" and "sane_request r" and "alloc r s = Some (p, t)" and "p \<noteq> NULL"
  shows "\<exists>u. dealloc p r t = Some (1, u) \<and> ok u \<and> owned u = owned s"
proof -
  note f = alloc_fresh [OF assms]
  then obtain u where "dealloc p r t = Some (1, u)" "ok u" "owned u = owned t - span p r"
    using dealloc_spec [of t r p] assms(2) by auto
  with f show ?thesis by auto
qed

text \<open>
  A client that allocates and frees its own blocks, in any order: its live blocks never
  overlap.
\<close>

lemma live_alloc:
  assumes "ok s" and "live_blocks (owned s) bs" and "sane_request r" and "alloc r s = Some (p, t)"
  shows "ok t \<and> live_blocks (owned t) (if p = NULL then bs else (p, r) # bs)"
proof (cases "p = NULL")
  case True
  with assms show ?thesis using alloc_failed alloc_spec by fastforce
next
  case False
  note f = alloc_fresh [OF assms(1,3,4) False]
  have "live_blocks (owned t) ((p, r) # bs)"
    using live_blocks_Cons [OF assms(2) False assms(3) f(1)] f(2) by simp
  with f(3) False show ?thesis by simp
qed

lemma live_dealloc:
  assumes "ok s" and "live_blocks (owned s) (bs @ (p, r) # cs)"
  shows "\<exists>t. dealloc p r s = Some (1, t) \<and> ok t \<and> live_blocks (owned t) (bs @ cs)"
proof -
  obtain t where t: "dealloc p r s = Some (1, t)" "ok t" "owned t = owned s - span p r"
    using dealloc_spec [OF assms(1), of r p] assms(2) by (auto simp: live_blocks_def)
  with live_blocks_drop [OF assms(2)] show ?thesis by auto
qed

end

text \<open>The pages the model's map marks as used, as addresses.\<close>

definition owned_pages :: "'z mm_state_scheme \<Rightarrow> addr set" where
  "owned_pages s = page_addr s ` used_pages s"

lemma page_addr_inj: "page_addr s i = page_addr s j \<longleftrightarrow> i = j"
  by (simp add: page_addr_def)

lemma span_page: "span (page_addr s i) r = page_addr s ` {i..<i + npages r}"
proof -
  have "(+) i ` {..<npages r} = {i..<i + npages r}"
    by (metis add.commute add_0 image_add_atLeastLessThan lessThan_atLeast0)
  then have "page_addr s ` {i..<i + npages r} = (\<lambda>k. page_addr s (i + k)) ` {..<npages r}"
    by (metis image_image)
  then show ?thesis by (simp add: span_def page_addr_def algebra_simps)
qed

lemma page_addr_usedMap [simp]: "page_addr (s\<lparr>usedMap := m\<rparr>) = page_addr s"
  by (simp add: page_addr_def fun_eq_iff)

lemma page_image_disjoint: "page_addr s ` A \<inter> page_addr s ` B = page_addr s ` (A \<inter> B)"
  by (auto simp: page_addr_inj)

lemma owned_after_mark:
  assumes "\<forall>q. occupied m q \<longleftrightarrow> occupied (usedMap s) q \<or> (i \<le> q \<and> q < i + n)"
    and "i + n \<le> nat (blocksAmount s)"
  shows "used_pages (s\<lparr>usedMap := m\<rparr>) = used_pages s \<union> {i..<i + n}"
proof (rule set_eqI)
  fix p show "p \<in> used_pages (s\<lparr>usedMap := m\<rparr>) \<longleftrightarrow> p \<in> used_pages s \<union> {i..<i + n}"
    using assms(1) [rule_format, of p] assms(2) by (auto simp: used_pages_def)
qed

lemma owned_after_clear:
  assumes "\<forall>q. occupied m q \<longleftrightarrow> occupied (usedMap s) q \<and> \<not> (i \<le> q \<and> q < i + n)"
  shows "used_pages (s\<lparr>usedMap := m\<rparr>) = used_pages s - {i..<i + n}"
proof (rule set_eqI)
  fix p show "p \<in> used_pages (s\<lparr>usedMap := m\<rparr>) \<longleftrightarrow> p \<in> used_pages s - {i..<i + n}"
    using assms [rule_format, of p] by (auto simp: used_pages_def)
qed

lemma run_free_unused: "run_free (usedMap s) n i \<Longrightarrow> {i..<i + n} \<inter> used_pages s = {}"
proof -
  assume f: "run_free (usedMap s) n i"
  have "\<not> occupied (usedMap s) q" if "i \<le> q" "q < i + n" for q
  proof -
    have "q = i + (q - i)" "q - i < n" using that by auto
    with f show ?thesis by (metis run_free_iff)
  qed
  then show ?thesis by (auto simp: used_pages_def)
qed

lemma allocate_contract:
  assumes "mm_inv s" and "sane_request r"
  shows "\<exists>p t. allocate r s = Some (p, t) \<and> mm_inv t
    \<and> (p = NULL \<and> t = s \<or> p \<noteq> NULL \<and> span p r \<inter> owned_pages s = {}
        \<and> owned_pages t = owned_pages s \<union> span p r)"
proof -
  define n where "n = npages r"
  obtain m where al: "allocate r s =
      Some (case first_fit s n of None \<Rightarrow> (NULL, s) | Some i \<Rightarrow> (page_addr s i, s\<lparr>usedMap := m\<rparr>))"
    and m: "\<And>i. first_fit s n = Some i \<Longrightarrow> length m = length (usedMap s)
        \<and> (\<forall>q. occupied m q \<longleftrightarrow> occupied (usedMap s) q \<or> (i \<le> q \<and> q < i + n))"
    using allocate_first_fit [OF assms(1), of r] assms(2) unfolding n_def sane_request_def by blast
  show ?thesis
  proof (cases "first_fit s n")
    case None
    with al assms(1) show ?thesis by simp
  next
    case (Some i)
    note ff = first_fit_Some [OF Some]
    have sp: "span (page_addr s i) r = page_addr s ` {i..<i + n}" by (simp add: span_page n_def)
    have "page_addr s i \<noteq> NULL" using assms(1) by (simp add: page_addr_def mm_inv_def)
    moreover have "span (page_addr s i) r \<inter> owned_pages s = {}"
      using run_free_unused [OF ff(2)] by (simp add: sp owned_pages_def page_image_disjoint)
    moreover have "owned_pages (s\<lparr>usedMap := m\<rparr>) = owned_pages s \<union> span (page_addr s i) r"
      using owned_after_mark [of m s i n] m [OF Some] ff(1)
      by (simp add: sp owned_pages_def image_Un)
    moreover have "mm_inv (s\<lparr>usedMap := m\<rparr>)"
      using m [OF Some] by (intro mm_inv_usedMap assms(1)) simp
    ultimately show ?thesis using al Some by simp
  qed
qed

lemma deallocate_contract:
  assumes "mm_inv s" and "sane_request r" and "span p r \<subseteq> owned_pages s"
  shows "\<exists>t. deallocate p r s = Some (1, t) \<and> mm_inv t \<and> owned_pages t = owned_pages s - span p r"
proof -
  define n where "n = npages r"
  have "0 < n" using assms(2) npages_pos by (simp add: n_def sane_request_def)
  then have "p \<in> span p r" by (auto simp: span_def n_def intro!: image_eqI [of _ _ 0])
  then obtain i where p: "p = page_addr s i" using assms(3) by (auto simp: owned_pages_def)
  have sp: "span p r = page_addr s ` {i..<i + n}" by (simp add: p span_page n_def)
  have inj: "inj (page_addr s)" by (simp add: inj_def page_addr_inj)
  have "{i..<i + n} \<subseteq> used_pages s"
    using assms(3) unfolding sp owned_pages_def by (simp only: inj_image_subset_iff [OF inj])
  then have "i + n - 1 \<in> used_pages s" using \<open>0 < n\<close> by auto
  then have "i + n - 1 < nat (blocksAmount s)" by (simp add: used_pages_def)
  then have fits: "i + npages r \<le> nat (blocksAmount s)"
    using \<open>0 < n\<close> unfolding n_def by linarith
  have req: "unat r \<le> 2 ^ 42" using assms(2) by (simp add: sane_request_def)
  obtain m where m: "deallocate p r s = Some (1, s\<lparr>usedMap := m\<rparr>)" "length m = length (usedMap s)"
    "\<forall>q. occupied m q \<longleftrightarrow> occupied (usedMap s) q \<and> \<not> (i \<le> q \<and> q < i + n)"
    using deallocate_run [OF assms(1) req fits] unfolding p [symmetric] n_def [symmetric] by blast
  have "owned_pages (s\<lparr>usedMap := m\<rparr>) = owned_pages s - span p r"
    unfolding sp owned_pages_def page_addr_usedMap owned_after_clear [OF m(3)]
    by (rule image_set_diff [OF inj])
  with m mm_inv_usedMap [OF assms(1) m(2)] show ?thesis by auto
qed

interpretation pages: page_allocator allocate deallocate owned_pages mm_inv
  by unfold_locales (use allocate_contract deallocate_contract in blast)+

text \<open>A block that does not fill a page still owns it.\<close>

lemma span_one: "npages r = 1 \<Longrightarrow> span p r = {p}"
  by (auto simp: span_def)

lemma occupied_ext:
  assumes "length m = length m'" and "\<And>q. q < 32 * length m \<Longrightarrow> occupied m q = occupied m' q"
  shows "m = m'"
proof (rule nth_equalityI [OF assms(1)])
  fix i assume i: "i < length m"
  show "m ! i = m' ! i"
  proof (rule bit_word_eqI)
    fix k assume "k < LENGTH(32)"
    then have "k < 32" by simp
    then have "(32 * i + k) div 32 = i" "(32 * i + k) mod 32 = k" "32 * i + k < 32 * length m"
      using i by auto
    then show "bit (m ! i) k = bit (m' ! i) k"
      using assms(2) [of "32 * i + k"] assms(1) i by (simp add: occupied_def)
  qed
qed

subsection \<open>How many pages the region holds\<close>

definition fits_region :: "nat \<Rightarrow> nat \<Rightarrow> bool" where
  \<comment> \<open>the size test of \<open>enoughSpace\<close>: one byte per word of the map, and 8 for its pointer\<close>
  "fits_region tmem b \<longleftrightarrow> b * 4096 + 8 + ceil_div b 32 \<le> tmem"

lemma countPages_total:
  assumes T: "unat tmem < 2 ^ 62" and "k \<le> unat tmem div 4096"
  shows "countPages tmem (of_nat (k * 4096)) (int k - 1) =
    Some (of_nat (Suc (unat tmem div 4096) * 4096), int (unat tmem div 4096))"
  using assms(2)
proof (induction "unat tmem div 4096 - k" arbitrary: k)
  case 0
  then have k: "k = unat tmem div 4096" by simp
  have "unat tmem < Suc k * 4096" unfolding k by (metis dividend_less_div_times mult.commute
      mult_Suc zero_less_numeral add.commute)
  moreover have "Suc k * 4096 < 2 ^ 64" using T unfolding k by simp
  ultimately have "\<not> (of_nat (Suc k * 4096) :: 64 word) \<le> tmem"
    by (simp only: word_le_nat_alt unat_of_nat64)
  with k show ?case by (subst countPages.simps) (simp add: algebra_simps)
next
  case (Suc d)
  then have k: "Suc k \<le> unat tmem div 4096" by simp
  then have le: "Suc k * 4096 \<le> unat tmem" by (metis div_times_less_eq_dividend le_trans mult_le_mono1)
  then have "Suc k * 4096 < 2 ^ 64" using T by simp
  with le have "(of_nat (Suc k * 4096) :: 64 word) \<le> tmem"
    by (simp only: word_le_nat_alt unat_of_nat64)
  moreover have "countPages tmem (of_nat (Suc k * 4096)) (int (Suc k) - 1) =
      Some (of_nat (Suc (unat tmem div 4096) * 4096), int (unat tmem div 4096))"
    using Suc k by (intro Suc.hyps(1)) auto
  ultimately show ?case by (subst countPages.simps) (simp add: algebra_simps)
qed

lemma ceil_div_mono: "a \<le> b \<Longrightarrow> ceil_div a n \<le> ceil_div b n"
  by (simp add: ceil_div_def div_le_mono)

lemma enoughSpace_nat:
  assumes "b < 2 ^ 31"
  shows "enoughSpace (int b) r \<longleftrightarrow> 8 + int (ceil_div b 32) \<le> r"
proof -
  have c: "unat (MAP_SIZE (int b)) = ceil_div b 32" using assms by (simp add: MAP_SIZE_nat)
  have lt: "ceil_div b 32 \<le> 2 ^ 26" using assms unfolding ceil_div_def by simp
  have "unat (u64 8 + MAP_SIZE (int b)) = 8 + ceil_div b 32"
    using lt by (subst unat_add_lem [THEN iffD1]) (simp_all add: c u64_def)
  then have "uint (u64 8 + MAP_SIZE (int b)) = 8 + int (ceil_div b 32)"
    by (metis of_nat_add of_nat_numeral uint_nat)
  with lt show ?thesis by (simp add: enoughSpace_def Let_def wrap32_id)
qed

lemma fitMap_greatest:
  assumes "b < 2 ^ 31" and "4096 \<le> tmem"
  shows "\<exists>c \<le> b. fitMap (int b) (int tmem - int b * 4096) = Some (int c)
    \<and> fits_region tmem c \<and> (\<forall>d. c < d \<and> d \<le> b \<longrightarrow> \<not> fits_region tmem d)"
  using assms(1)
proof (induction b)
  case 0
  have "fits_region tmem 0" using assms(2) by (simp add: fits_region_def ceil_div_def)
  moreover have "enoughSpace 0 (int tmem)"
    using enoughSpace_nat [of 0 "int tmem"] assms(2) by (simp add: ceil_div_def)
  ultimately show ?case by (subst fitMap.simps) simp
next
  case (Suc b)
  have eq: "enoughSpace (int (Suc b)) (int tmem - int (Suc b) * 4096) \<longleftrightarrow> fits_region tmem (Suc b)"
    unfolding enoughSpace_nat [OF Suc.prems] fits_region_def by linarith
  show ?case
  proof (cases "fits_region tmem (Suc b)")
    case True
    then have "fitMap (int (Suc b)) (int tmem - int (Suc b) * 4096) = Some (int (Suc b))"
      using eq by (subst fitMap.simps) simp
    with True show ?thesis by (intro exI [of _ "Suc b"]) auto
  next
    case False
    have "int tmem - int (Suc b) * 4096 + 4096 = int tmem - int b * 4096" by simp
    then have step: "fitMap (int (Suc b)) (int tmem - int (Suc b) * 4096) =
        fitMap (int b) (int tmem - int b * 4096)"
      using False eq by (subst fitMap.simps) simp
    have "b < 2 ^ 31" using Suc.prems by simp
    from Suc.IH [OF this] obtain c where c: "c \<le> b"
        "fitMap (int b) (int tmem - int b * 4096) = Some (int c)" "fits_region tmem c"
        "\<forall>d. c < d \<and> d \<le> b \<longrightarrow> \<not> fits_region tmem d" by blast
    with False step show ?thesis
      by (intro exI [of _ c]) (auto simp: le_Suc_eq)
  qed
qed

lemma fits_region_antimono: "fits_region tmem b \<Longrightarrow> c \<le> b \<Longrightarrow> fits_region tmem c"
  using ceil_div_mono [of c b 32] by (auto simp: fits_region_def)

lemma getBlocksAmount_greatest:
  assumes "4096 \<le> unat tmem" and "unat tmem < 2 ^ 42"
  shows "\<exists>b. getBlocksAmount tmem s = Some (s\<lparr>blocksAmount := int b\<rparr>)
    \<and> fits_region (unat tmem) b \<and> (\<forall>c > b. \<not> fits_region (unat tmem) c)"
proof -
  define q where "q = unat tmem div 4096"
  have q: "q < 2 ^ 31" unfolding q_def using assms(2) by simp
  have "q * 4096 \<le> unat tmem" by (simp add: q_def)
  then have u: "unat (of_nat (q * 4096) :: 64 word) = q * 4096"
    using assms(2) by (intro unat_of_nat64) simp
  then have "(of_nat (q * 4096) :: 64 word) \<le> tmem"
    using \<open>q * 4096 \<le> unat tmem\<close> by (simp only: word_le_nat_alt)
  then have rem: "unat (tmem - of_nat (q * 4096)) = unat tmem - q * 4096"
    by (simp only: unat_sub u)
  have "countPages tmem (of_nat (0 * 4096)) (int 0 - 1) = Some (of_nat (Suc q * 4096), int q)"
    using assms(2) unfolding q_def by (intro countPages_total) simp_all
  then have cnt: "countPages tmem 0 (- 1) = Some (of_nat (Suc q * 4096), int q)" by simp
  have aux: "(of_nat (Suc q * 4096) :: 64 word) - 4096 = of_nat (q * 4096)" by simp
  have lt: "unat tmem - q * 4096 < 4096" unfolding q_def
    by (metis minus_div_mult_eq_mod mod_less_divisor zero_less_numeral)
  have ui: "uint (tmem - of_nat (q * 4096)) = int (unat tmem - q * 4096)"
    by (simp only: uint_nat rem)
  have "wrap32 (int (unat tmem - q * 4096)) = int (unat tmem - q * 4096)"
    by (rule wrap32_nat) (use lt in linarith)
  moreover have "int (unat tmem - q * 4096) = int (unat tmem) - int q * 4096"
    using \<open>q * 4096 \<le> unat tmem\<close> by linarith
  ultimately have w: "wrap32 (uint (tmem - of_nat (q * 4096))) = int (unat tmem) - int q * 4096"
    by (simp only: ui)
  obtain b where b: "b \<le> q" "fitMap (int q) (int (unat tmem) - int q * 4096) = Some (int b)"
      "fits_region (unat tmem) b" "\<forall>d. b < d \<and> d \<le> q \<longrightarrow> \<not> fits_region (unat tmem) d"
    using fitMap_greatest [OF q assms(1)] by blast
  have "\<not> fits_region (unat tmem) c" if "b < c" for c
  proof (cases "c \<le> q")
    case False
    then have "unat tmem < c * 4096" unfolding q_def
      by (simp add: not_le div_less_iff_less_mult)
    then show ?thesis by (simp add: fits_region_def)
  qed (use b(4) that in blast)
  moreover have "getBlocksAmount tmem s = Some (s\<lparr>blocksAmount := int b\<rparr>)"
    unfolding getBlocksAmount_def Let_def cnt using b(2) w aux by simp
  ultimately show ?thesis using b(3) by blast
qed

lemma getBlocksAmount_eq:
  assumes "4096 \<le> unat tmem" and "unat tmem < 2 ^ 42"
    and "fits_region (unat tmem) b" and "\<not> fits_region (unat tmem) (Suc b)"
  shows "getBlocksAmount tmem s = Some (s\<lparr>blocksAmount := int b\<rparr>)"
proof -
  obtain c where c: "getBlocksAmount tmem s = Some (s\<lparr>blocksAmount := int c\<rparr>)"
      "fits_region (unat tmem) c" "\<forall>d > c. \<not> fits_region (unat tmem) d"
    using getBlocksAmount_greatest [OF assms(1,2)] by blast
  have "b \<le> c" using c(3) assms(3) not_le_imp_less by blast
  moreover have "c \<le> b" using fits_region_antimono [OF c(2), of "Suc b"] assms(4) not_less_eq_eq by blast
  ultimately show ?thesis using c(1) by simp
qed

lemma memAllocatorInit_eq:
  assumes "int endP - int initP = int tmem" and "4096 \<le> tmem" and "tmem < 2 ^ 31"
    and "fits_region tmem b" and "\<not> fits_region tmem (Suc b)"
  shows "memAllocatorInit initP endP s = Some (1, s\<lparr>blocksAmount := int b, initMem := initP,
    usedMapAddr := initP + b * 4096, usedMap := replicate (ceil_div b 32) 0\<rparr>)"
proof -
  have u: "unat (u64 (int tmem)) = tmem" using assms(3) by (simp add: unat_u64)
  have "b < 2 ^ 31" using assms(3,4) by (simp add: fits_region_def)
  then have m: "wrap32 (uint (MAP_SIZE (int b))) = int (ceil_div b 32)"
    by (simp add: uint_nat MAP_SIZE_nat) (rule wrap32_nat, simp add: ceil_div_def)
  have g: "getBlocksAmount (u64 (int tmem)) s = Some (s\<lparr>blocksAmount := int b\<rparr>)"
    using assms by (intro getBlocksAmount_eq) (simp_all only: u, simp_all)
  have ge: "\<not> u64 (int tmem) < 4096" using assms(2) u by (simp add: word_less_nat_alt)
  have "wrap32 (int b * 4096) = int (b * 4096)"
    using wrap32_nat [of "b * 4096"] assms(3,4) by (simp add: fits_region_def)
  then have "nat (int initP + wrap32 (int b * 4096)) = initP + b * 4096" by linarith
  with ge m show ?thesis
    unfolding memAllocatorInit_def assms(1) by (simp add: g mapInit_def Let_def)
qed

subsection \<open>Allocating from a region whose used pages are a prefix\<close>

text \<open>Until the first page is freed, each block lies right behind the one before.\<close>

definition prefix_used :: "'z mm_state_scheme \<Rightarrow> nat \<Rightarrow> bool" where
  "prefix_used s k \<longleftrightarrow> mm_inv s \<and> k \<le> nat (blocksAmount s) \<and> (\<forall>q. occupied (usedMap s) q \<longleftrightarrow> q < k)"

lemma first_fit_prefix:
  assumes "prefix_used s k" and "0 < n" and "k + n \<le> nat (blocksAmount s)"
  shows "first_fit s n = Some k"
proof -
  have occ: "occupied (usedMap s) q \<longleftrightarrow> q < k" for q using assms(1) by (simp add: prefix_used_def)
  have free: "run_free (usedMap s) n k" by (simp add: run_free_iff occ)
  show ?thesis
  proof (cases "first_fit s n")
    case None
    then show ?thesis using first_fit_None [OF None assms(3)] free by simp
  next
    case (Some i)
    have "\<not> i < k"
      using first_fit_Some(2) [OF Some] assms(2) by (auto simp: run_free_iff occ dest!: spec [of _ 0])
    moreover have "\<not> k < i" using first_fit_Some(3) [OF Some] free by blast
    ultimately show ?thesis using Some by simp
  qed
qed

lemma allocate_prefix:
  assumes "prefix_used s k" and "sane_request r" and "k + npages r \<le> nat (blocksAmount s)"
  shows "\<exists>m. allocate r s = Some (page_addr s k, s\<lparr>usedMap := m\<rparr>)
    \<and> prefix_used (s\<lparr>usedMap := m\<rparr>) (k + npages r)"
proof -
  have inv: "mm_inv s" and occ: "\<And>q. occupied (usedMap s) q \<longleftrightarrow> q < k"
    using assms(1) by (simp_all add: prefix_used_def)
  have req: "unat r \<le> 2 ^ 42" and "0 < npages r"
    using assms(2) npages_pos by (simp_all add: sane_request_def)
  then have ff: "first_fit s (npages r) = Some k" using first_fit_prefix assms(1,3) by blast
  obtain m where m: "allocate r s = Some (page_addr s k, s\<lparr>usedMap := m\<rparr>)"
      "length m = length (usedMap s)"
      "\<forall>q. occupied m q \<longleftrightarrow> occupied (usedMap s) q \<or> (k \<le> q \<and> q < k + npages r)"
    using allocate_first_fit [OF inv req] ff by auto
  have "occupied m q \<longleftrightarrow> q < k + npages r" for q
    using m(3) [rule_format, of q] occ [of q] by auto
  with m assms(3) mm_inv_usedMap [OF inv m(2)] show ?thesis
    by (auto simp: prefix_used_def)
qed

lemma prefix_used_fresh:
  assumes "mm_inv s" and "usedMap s = replicate n 0"
  shows "prefix_used s 0"
proof -
  have "\<not> occupied (replicate n 0) q" for q by (simp add: occupied_def)
  with assms show ?thesis by (simp add: prefix_used_def mm_inv_def)
qed

subsection \<open>Properties\<close>

text \<open>A client that allocates blocks and frees its own.\<close>

datatype mm_op = MAlloc "64 word" | MFree nat

fun mm_client :: "mm_op list \<Rightarrow> mm_state \<Rightarrow> (addr \<times> 64 word) list \<Rightarrow>
    (mm_state \<times> (addr \<times> 64 word) list) option" where
  "mm_client [] s bs = Some (s, bs)"
| "mm_client (MAlloc r # ops) s bs = do {
     (p, t) \<leftarrow> allocate r s;
     mm_client ops t (if p = NULL then bs else (p, r) # bs) }"
| "mm_client (MFree k # ops) s bs =
     (if k < length bs then do {
        (_, t) \<leftarrow> deallocate (fst (bs ! k)) (snd (bs ! k)) s;
        mm_client ops t (take k bs @ drop (Suc k) bs) }
      else mm_client ops s bs)"

lemma mm_client_live:
  assumes "mm_inv s" and "live_blocks (owned_pages s) bs"
    and "\<And>r. MAlloc r \<in> set ops \<Longrightarrow> sane_request r"
  shows "\<exists>t cs. mm_client ops s bs = Some (t, cs) \<and> mm_inv t \<and> live_blocks (owned_pages t) cs"
  using assms
proof (induction ops s bs rule: mm_client.induct)
  case (1 s bs)
  then show ?case by simp
next
  case (2 r ops s bs)
  have r: "sane_request r" using "2.prems"(3) by simp
  obtain p t where a: "allocate r s = Some (p, t)"
    using allocate_contract [OF "2.prems"(1) r] by blast
  have l: "mm_inv t \<and> live_blocks (owned_pages t) (if p = NULL then bs else (p, r) # bs)"
    using pages.live_alloc [OF "2.prems"(1,2) r a] by simp
  have "\<exists>t' cs. mm_client ops t (if p = NULL then bs else (p, r) # bs) = Some (t', cs)
      \<and> mm_inv t' \<and> live_blocks (owned_pages t') cs"
    by (rule "2.IH" [OF a refl]) (use l "2.prems"(3) in simp_all)
  then show ?case by (simp add: a)
next
  case (3 k ops s bs)
  show ?case
  proof (cases "k < length bs")
    case False
    then show ?thesis using "3.IH"(2) "3.prems" by simp
  next
    case True
    obtain p r where k: "bs ! k = (p, r)" by (cases "bs ! k")
    have "bs = take k bs @ (p, r) # drop (Suc k) bs"
      using True k by (metis id_take_nth_drop)
    then obtain t where d: "deallocate p r s = Some (1, t)" "mm_inv t"
        "live_blocks (owned_pages t) (take k bs @ drop (Suc k) bs)"
      using pages.live_dealloc [OF "3.prems"(1), of "take k bs" p r "drop (Suc k) bs"] "3.prems"(2)
      by metis
    have "\<exists>t' cs. mm_client ops t (take k bs @ drop (Suc k) bs) = Some (t', cs)
        \<and> mm_inv t' \<and> live_blocks (owned_pages t') cs"
      by (rule "3.IH"(1) [OF True, of "(1, t)"]) (use d k "3.prems"(3) in simp_all)
    then show ?thesis using True k d(1) by simp
  qed
qed

definition mm_small :: mm_state where
  \<comment> \<open>the state after initialising a region of six pages: five pages and their map\<close>
  "mm_small = \<lparr>initMem = 4096, usedMap = [0], usedMapAddr = 24576, blocksAmount = 5\<rparr>"

lemma mm_small_inv: "mm_inv mm_small"
  by (simp add: mm_inv_def mm_small_def ceil_div_def)

lemma mm_small_owned: "owned_pages mm_small = {}"
proof -
  have "\<not> occupied [0] p" if "p < 5" for p using that by (simp add: occupied_def)
  then have "used_pages mm_small = {}" by (auto simp: used_pages_def mm_small_def)
  then show ?thesis by (simp add: owned_pages_def)
qed

lemma mm_small_first_fit: "first_fit mm_small 2 = Some 0"
  by (simp add: first_fit_def mm_small_def run_free_iff upt_conv_Cons occupied_def)

lemma mm_small_allocate: "\<exists>m. allocate 5000 mm_small = Some (4096, mm_small\<lparr>usedMap := m\<rparr>)"
proof -
  have "npages 5000 = 2" by (simp add: npages_def ceil_div_def)
  moreover have "page_addr mm_small 0 = 4096" by (simp add: page_addr_def mm_small_def)
  ultimately show ?thesis
    using allocate_first_fit [OF mm_small_inv, of 5000] mm_small_first_fit by auto
qed

text \<open>C1. The allocator is first fit: on an initialised region a request of one byte up to 4 TiB
  returns the lowest run of free pages that is long enough, marks exactly the pages of that
  run, and changes nothing else; when no run is long enough it returns \<open>NULL\<close> and the state is
  unchanged.\<close>

theorem allocate_is_first_fit:
  assumes "mm_inv s" and "sane_request request"
  shows "(case first_fit s (npages request) of
      None \<Rightarrow> allocate request s = Some (NULL, s)
        \<and> (\<forall>i. i + npages request \<le> nat (blocksAmount s) \<longrightarrow>
             (\<exists>k < npages request. occupied (usedMap s) (i + k)))
    | Some i \<Rightarrow> (\<exists>m. allocate request s = Some (page_addr s i, s\<lparr>usedMap := m\<rparr>)
        \<and> mm_inv (s\<lparr>usedMap := m\<rparr>)
        \<and> i + npages request \<le> nat (blocksAmount s)
        \<and> (\<forall>k < npages request. \<not> occupied (usedMap s) (i + k))
        \<and> (\<forall>q. occupied m q \<longleftrightarrow> occupied (usedMap s) q \<or> (i \<le> q \<and> q < i + npages request))))"
proof -
  have "unat request \<le> 2 ^ 42" using assms(2) by (simp add: sane_request_def)
  from allocate_first_fit [OF assms(1) this] show ?thesis
    using first_fit_None [of s "npages request"] first_fit_Some [of s "npages request"]
      mm_inv_usedMap [OF assms(1)]
    by (cases "first_fit s (npages request)") (auto simp: run_free_iff)
qed

theorem allocate_is_first_fit_witness:
  "mm_inv mm_small \<and> sane_request 5000
    \<and> first_fit mm_small 2 = Some 0
    \<and> (\<exists>m. allocate 5000 mm_small = Some (4096, mm_small\<lparr>usedMap := m\<rparr>))"
proof -
  have r: "sane_request 5000" "npages 5000 = 2" by (simp_all add: sane_request_def npages_def ceil_div_def)
  note f = mm_small_first_fit
  have "page_addr mm_small 0 = 4096" by (simp add: page_addr_def mm_small_def)
  with allocate_is_first_fit [OF mm_small_inv r(1)] r f mm_small_inv show ?thesis by auto
qed

text \<open>C2. Whatever blocks of 1 byte to 4 TiB a client allocates and frees, in any order, every call
  returns, the allocator's state stays well formed, and the client's live blocks are non-null,
  owned and pairwise disjoint. Longer requests are outside the claim: the number of blocks of a
  request near \<open>2 ^ 64\<close>, such as \<open>malloc(-1)\<close>, wraps to 0, and the code hands out the first page,
  which others may own (\<open>huge_request_reserves_nothing\<close>).\<close>

theorem live_blocks_never_overlap:
  assumes "mm_inv s" and "\<And>r. MAlloc r \<in> set ops \<Longrightarrow> sane_request r"
  shows "\<exists>t bs. mm_client ops s [] = Some (t, bs) \<and> mm_inv t \<and> live_blocks (owned_pages t) bs"
  using mm_client_live [OF assms(1) _ assms(2), where bs = "[]" and ops = ops]
  by (simp add: live_blocks_def)

theorem live_blocks_never_overlap_witness:
  "\<exists>t bs. mm_client [MAlloc 100, MAlloc 5000, MFree 1, MAlloc 4096] mm_small [] = Some (t, bs)
    \<and> mm_inv t \<and> live_blocks (owned_pages t) bs"
  by (rule live_blocks_never_overlap [OF mm_small_inv]) (auto simp: sane_request_def)

text \<open>C12. Freeing what was just allocated restores the allocator's state bit for bit.\<close>

theorem deallocate_undoes_allocate:
  assumes "mm_inv s" and "sane_request r" and "allocate r s = Some (p, t)" and "p \<noteq> NULL"
  shows "deallocate p r t = Some (1, s)"
proof -
  have req: "unat r \<le> 2 ^ 42" using assms(2) by (simp add: sane_request_def)
  obtain m where al: "allocate r s = Some (case first_fit s (npages r) of None \<Rightarrow> (NULL, s)
        | Some i \<Rightarrow> (page_addr s i, s\<lparr>usedMap := m\<rparr>))"
    and m: "\<And>i. first_fit s (npages r) = Some i \<Longrightarrow> length m = length (usedMap s)
      \<and> (\<forall>q. occupied m q \<longleftrightarrow> occupied (usedMap s) q \<or> (i \<le> q \<and> q < i + npages r))"
    using allocate_first_fit [OF assms(1) req] by blast
  then obtain i where ff: "first_fit s (npages r) = Some i"
    using assms(3,4) by (cases "first_fit s (npages r)") auto
  have p: "p = page_addr s i" and t: "t = s\<lparr>usedMap := m\<rparr>" using al ff assms(3) by simp_all
  note mi = m [OF ff]
  have pt: "p = page_addr t i" by (simp add: p t)
  have fits: "i + npages r \<le> nat (blocksAmount t)" using first_fit_Some(1) [OF ff] by (simp add: t)
  have inv: "mm_inv t" unfolding t using mi by (intro mm_inv_usedMap [OF assms(1)]) simp
  obtain m' where d: "deallocate p r t = Some (1, t\<lparr>usedMap := m'\<rparr>)" "length m' = length m"
      "\<forall>q. occupied m' q \<longleftrightarrow> occupied m q \<and> \<not> (i \<le> q \<and> q < i + npages r)"
    using deallocate_run [OF inv req fits] unfolding pt t by auto
  have free: "\<not> occupied (usedMap s) q" if "i \<le> q" "q < i + npages r" for q
    using first_fit_Some(2) [OF ff] that by (metis le_add_diff_inverse nat_add_left_cancel_less run_free_iff)
  have "m' = usedMap s"
  proof (rule occupied_ext)
    show "length m' = length (usedMap s)" using d(2) mi by simp
    fix q show "occupied m' q = occupied (usedMap s) q"
      using d(3) [rule_format, of q] mi free [of q] by blast
  qed
  with d(1) t show ?thesis by simp
qed

theorem deallocate_undoes_allocate_witness:
  "\<exists>t. allocate 5000 mm_small = Some (4096, t) \<and> deallocate 4096 5000 t = Some (1, mm_small)"
proof -
  obtain m where a: "allocate 5000 mm_small = Some (4096, mm_small\<lparr>usedMap := m\<rparr>)"
    using mm_small_allocate by blast
  have "sane_request 5000" by (simp add: sane_request_def)
  from deallocate_undoes_allocate [OF mm_small_inv this a] a show ?thesis by simp
qed

text \<open>The initialiser picks the greatest number of pages that its size test accepts, whatever
  the size of the region from one page up to 2 GiB, and terminates doing so; the pages, the map
  and its origin are set up for exactly that number. (From 2 GiB on \<open>blocksAmount * PAGE_SIZE\<close> leaves
  the range of \<open>int\<close>.)\<close>

theorem memAllocatorInit_greatest:
  assumes "4096 \<le> tmem" and "tmem < 2 ^ 31"
  shows "\<exists>b. memAllocatorInit initP (initP + tmem) s = Some (1, s\<lparr>blocksAmount := int b,
      initMem := initP, usedMapAddr := initP + b * 4096, usedMap := replicate (ceil_div b 32) 0\<rparr>)
    \<and> fits_region tmem b \<and> (\<forall>c > b. \<not> fits_region tmem c)"
proof -
  have u: "unat (u64 (int tmem)) = tmem" using assms(2) by (simp add: unat_u64)
  obtain b where b: "fits_region tmem b" "\<forall>c > b. \<not> fits_region tmem c"
    using getBlocksAmount_greatest [of "u64 (int tmem)"] assms unfolding u by auto
  then have "memAllocatorInit initP (initP + tmem) s = Some (1, s\<lparr>blocksAmount := int b,
      initMem := initP, usedMapAddr := initP + b * 4096, usedMap := replicate (ceil_div b 32) 0\<rparr>)"
    by (intro memAllocatorInit_eq [OF _ assms]) auto
  with b show ?thesis by blast
qed

theorem memAllocatorInit_greatest_witness:
  "\<exists>b. memAllocatorInit 4096 (4096 + 5 * 4096) mm_small = Some (1, mm_small\<lparr>blocksAmount := int b,
      initMem := 4096, usedMapAddr := 4096 + b * 4096, usedMap := replicate (ceil_div b 32) 0\<rparr>)
    \<and> fits_region (5 * 4096) b \<and> (\<forall>c > b. \<not> fits_region (5 * 4096) c)"
  by (rule memAllocatorInit_greatest) simp_all

lemma kernel_region:
  "memAllocatorInit 0x1000000 0x8000000 s = Some (1, s\<lparr>blocksAmount := 28671, initMem := 0x1000000,
    usedMapAddr := 0x1000000 + 28671 * 4096, usedMap := replicate 896 0\<rparr>)"
proof -
  have "memAllocatorInit 0x1000000 0x8000000 s = Some (1, s\<lparr>blocksAmount := int 28671,
      initMem := 0x1000000, usedMapAddr := 0x1000000 + 28671 * 4096,
      usedMap := replicate (ceil_div 28671 32) 0\<rparr>)"
    by (rule memAllocatorInit_eq [of _ _ "0x7000000"]) (simp_all add: fits_region_def ceil_div_def)
  then show ?thesis by (simp add: ceil_div_def)
qed

text \<open>The kernel's own call, for the region from 16 MiB to 128 MiB: 28671 pages are managed, the
  map of 896 words ends inside the region, and the state is well formed with every page free.\<close>

theorem kernel_region_initialised:
  "\<exists>t. memAllocatorInit 0x1000000 0x8000000 s = Some (1, t) \<and> mm_inv t \<and> prefix_used t 0
    \<and> blocksAmount t = 28671 \<and> initMem t = 0x1000000 \<and> owned_pages t = {}
    \<and> usedMapAddr t = page_addr t 28671 \<and> usedMapAddr t + 4 * length (usedMap t) \<le> 0x8000000"
proof -
  define t where "t = s\<lparr>blocksAmount := 28671, initMem := 0x1000000,
    usedMapAddr := 0x1000000 + 28671 * 4096, usedMap := replicate 896 0\<rparr>"
  have inv: "mm_inv t" by (simp add: t_def mm_inv_def ceil_div_def)
  then have p: "prefix_used t 0" by (rule prefix_used_fresh [of _ 896]) (simp add: t_def)
  then have "used_pages t = {}" by (simp add: prefix_used_def used_pages_def)
  then have "owned_pages t = {}" by (simp add: owned_pages_def)
  moreover have "usedMapAddr t + 4 * length (usedMap t) \<le> 0x8000000" by (simp add: t_def)
  ultimately show ?thesis
    using inv p kernel_region [of s] unfolding t_def [symmetric]
    by (intro exI [of _ t]) (simp add: t_def page_addr_def)
qed

text \<open>C13. The size test of the initialiser counts words where it means bytes: for a region of 96
  pages and 11 bytes the map of 96 pages is accepted although its last word ends outside the
  region.\<close>

theorem usage_map_overruns_region:
  "\<exists>t. memAllocatorInit initP (initP + (96 * 4096 + 11)) s = Some (1, t)
    \<and> usedMapAddr t + 4 * length (usedMap t) = initP + (96 * 4096 + 11) + 1"
proof -
  have "memAllocatorInit initP (initP + (96 * 4096 + 11)) s = Some (1, s\<lparr>blocksAmount := int 96,
      initMem := initP, usedMapAddr := initP + 96 * 4096, usedMap := replicate (ceil_div 96 32) 0\<rparr>)"
    by (rule memAllocatorInit_eq [of _ _ "96 * 4096 + 11"]) (simp_all add: fits_region_def ceil_div_def)
  then show ?thesis by (simp add: ceil_div_def)
qed

text \<open>C39. The number of pages of a request is computed in 64 bits, where it wraps: whatever is
  allocated, a request of all ones (\<open>malloc(-1)\<close>) is answered with the first page of the region, and
  nothing is reserved for it.\<close>

theorem huge_request_reserves_nothing:
  assumes "mm_inv s"
  shows "allocate (u64 (-1)) s = Some (initMem s, s)"
proof -
  have b: "0 \<le> blocksAmount s" "blocksAmount s < 2 ^ 19" using assms by (simp_all add: mm_inv_def)
  have z: "blocks_of (u64 (-1)) = 0" unfolding blocks_of_def by code_simp
  have "wrap32 (blocksAmount s) = blocksAmount s" by (rule wrap32_id) (use b in auto)
  moreover have "findRun (usedMap s) 0 (blocksAmount s) 0 0 False = Some (0, 0, True)"
    using b by (simp add: findRun.simps [of _ 0 _ 0 0 False] findRun.simps [of _ 0 _ 0 0 True] scanRun.simps)
  moreover have "reserve (usedMap s) 0 0 = Some (usedMap s)"
    by (simp add: reserve_def setBits.simps)
  moreover have "wrap32 0 = 0" by (rule wrap32_id) simp_all
  ultimately show ?thesis by (simp add: allocate_def Let_def z)
qed

theorem huge_request_reserves_nothing_witness:
  "\<exists>t. allocate 5000 mm_small = Some (4096, t) \<and> allocate (u64 (-1)) t = Some (4096, t)"
proof -
  obtain m where a: "allocate 5000 mm_small = Some (4096, mm_small\<lparr>usedMap := m\<rparr>)"
    using mm_small_allocate by blast
  then have "mm_inv (mm_small\<lparr>usedMap := m\<rparr>)"
    using allocate_first_fit [OF mm_small_inv, of 5000] mm_inv_usedMap [OF mm_small_inv]
    by (auto split: option.splits)
  from huge_request_reserves_nothing [OF this] a show ?thesis by (simp add: mm_small_def)
qed

end
