(* ===== verification/LinkedNodes.thy ===== *)
theory LinkedNodes
  imports KPrelude
begin

section \<open>Linked structures in a store\<close>

text \<open>
  The kernel keeps its mutexes, semaphores, pipes, screens and heap blocks in singly linked
  lists, and its processes and threads in rings.  \<open>chain nx p as q\<close> says that following the
  links \<open>nx\<close> from \<open>p\<close> visits the nodes \<open>as\<close> and ends at \<open>q\<close>: a list ends at \<open>NULL\<close>, a
  ring at its own first node.

  The locales below are the three loops that the components share: search along a chain,
  append by recursion, removal by recursion, and the walk of the schedulers to the next
  ready node of a ring.  Each component interprets them on its own definitions.
\<close>

subsection \<open>Chains\<close>

fun chain :: "(addr \<Rightarrow> addr) \<Rightarrow> addr \<Rightarrow> addr list \<Rightarrow> addr \<Rightarrow> bool" where
  "chain nx p [] q = (p = q)"
| "chain nx p (a # as) q = (p = a \<and> a \<noteq> NULL \<and> chain nx (nx a) as q)"

lemma chain_append:
  "chain nx p (xs @ ys) q \<longleftrightarrow> (\<exists>m. chain nx p xs m \<and> chain nx m ys q)"
  by (induction xs arbitrary: p) auto

lemma chain_nonnull: "chain nx p as q \<Longrightarrow> NULL \<notin> set as"
  by (induction as arbitrary: p) auto

lemma chain_upd: "a \<notin> set as \<Longrightarrow> chain (nx(a := v)) p as q = chain nx p as q"
  by (induction as arbitrary: p) auto

lemma chain_cong:
  "(\<And>a. a \<in> set as \<Longrightarrow> nx a = nx' a) \<Longrightarrow> chain nx p as q = chain nx' p as q"
  by (induction as arbitrary: p) auto

lemma chain_head: "chain nx p (a # as) q \<Longrightarrow> p = a"
  by simp

lemma chain_Nil_iff: "chain nx NULL as NULL \<longleftrightarrow> as = []"
  by (cases as) auto

lemma chain_unique: "chain nx p as NULL \<Longrightarrow> chain nx p bs NULL \<Longrightarrow> as = bs"
proof (induction as arbitrary: p bs)
  case Nil
  then show ?case by (simp add: chain_Nil_iff)
next
  case (Cons a as)
  then show ?case by (cases bs) auto
qed

lemma chain_null_distinct: "chain nx p as NULL \<Longrightarrow> distinct as"
proof (induction as arbitrary: p)
  case Nil
  then show ?case by simp
next
  case (Cons a as)
  have "a \<notin> set as"
  proof
    assume "a \<in> set as"
    then obtain xs ys where as: "as = xs @ a # ys" by (auto simp: in_set_conv_decomp)
    with Cons.prems have "chain nx a (a # ys) NULL" "chain nx a (a # xs @ a # ys) NULL"
      by (auto simp: chain_append)
    then have "a # ys = a # xs @ a # ys" by (rule chain_unique)
    then show False by simp
  qed
  with Cons show ?case by auto
qed

text \<open>Linking a fresh last node, and unlinking a node in the middle.\<close>

lemma chain_snoc_upd:
  assumes "chain nx p (as @ [l]) q" and "l \<notin> set as" and "n \<noteq> NULL"
  shows "chain (nx(l := n)) p (as @ [l]) n"
  using assms by (auto simp: chain_append chain_upd)

lemma chain_extend:
  assumes "chain nx p as NULL" and "as \<noteq> []" and "n \<notin> set as" and "n \<noteq> NULL" and "nx n = NULL"
  shows "chain (nx(last as := n)) p (as @ [n]) NULL"
proof -
  from assms(2) obtain xs l where as: "as = xs @ [l]" by (metis append_butlast_last_id)
  have "distinct as" using assms(1) by (rule chain_null_distinct)
  with assms as have "chain (nx(l := n)) p as n" by (auto intro!: chain_snoc_upd)
  with as assms show ?thesis by (auto simp: chain_append)
qed

lemma chain_unlink:
  assumes "chain nx p (xs @ a # ys) NULL"
  shows "chain (if xs = [] then nx else nx(last xs := nx a))
    (if xs = [] then nx a else p) (xs @ ys) NULL"
proof (cases "xs = []")
  case True
  with assms show ?thesis by simp
next
  case False
  then obtain zs l where xs: "xs = zs @ [l]" by (metis append_butlast_last_id)
  from assms have "distinct (xs @ a # ys)" by (rule chain_null_distinct)
  with assms xs show ?thesis by (auto simp: chain_append chain_upd)
qed

subsection \<open>Search\<close>

text \<open>
  A loop that follows the links until a node matches or the terminator is reached: \<open>NULL\<close>
  for the lists, the first node for the rings.  \<open>live\<close> says that the loop may dereference
  the node.
\<close>

locale chain_search =
  fixes nx :: "'s \<Rightarrow> addr \<Rightarrow> addr"
    and live :: "'s \<Rightarrow> addr \<Rightarrow> bool"
    and hit :: "'s \<Rightarrow> 'k \<Rightarrow> addr \<Rightarrow> bool"
    and search :: "'s \<Rightarrow> 'k \<Rightarrow> addr \<Rightarrow> addr \<Rightarrow> addr option"
  assumes search_end: "search s k e e = Some e"
    and search_hit: "p \<noteq> e \<Longrightarrow> p \<noteq> NULL \<Longrightarrow> live s p \<Longrightarrow> hit s k p \<Longrightarrow> search s k e p = Some p"
    and search_miss: "p \<noteq> e \<Longrightarrow> p \<noteq> NULL \<Longrightarrow> live s p \<Longrightarrow> \<not> hit s k p \<Longrightarrow>
      search s k e p = search s k e (nx s p)"
begin

lemma search_chain:
  "chain (nx s) p as e \<Longrightarrow> e \<notin> set as \<Longrightarrow> (\<And>a. a \<in> set as \<Longrightarrow> live s a) \<Longrightarrow>
    search s k e p = Some (case List.find (hit s k) as of None \<Rightarrow> e | Some a \<Rightarrow> a)"
proof (induction as arbitrary: p)
  case Nil
  then show ?case by (simp add: search_end)
next
  case (Cons a as)
  then have "p = a" "a \<noteq> e" "a \<noteq> NULL" "live s a" and ch: "chain (nx s) (nx s a) as e" by auto
  moreover have "search s k e (nx s a) =
      Some (case List.find (hit s k) as of None \<Rightarrow> e | Some a \<Rightarrow> a)"
    using Cons.IH [OF ch] Cons.prems by simp
  ultimately show ?case by (cases "hit s k a") (simp_all add: search_hit search_miss)
qed

lemma search_list:
  assumes "chain (nx s) p as NULL" and "\<And>a. a \<in> set as \<Longrightarrow> live s a"
  shows "search s k NULL p = Some (case List.find (hit s k) as of None \<Rightarrow> NULL | Some a \<Rightarrow> a)"
  using assms chain_nonnull by (intro search_chain) auto

end

text \<open>The same loop over a list, whose terminator \<open>NULL\<close> is not an argument.\<close>

locale list_search =
  fixes nx :: "'s \<Rightarrow> addr \<Rightarrow> addr"
    and hit :: "'s \<Rightarrow> 'k \<Rightarrow> addr \<Rightarrow> bool"
    and search :: "'s \<Rightarrow> 'k \<Rightarrow> addr \<Rightarrow> addr option"
  assumes search_null: "search s k NULL = Some NULL"
    and search_hit: "p \<noteq> NULL \<Longrightarrow> hit s k p \<Longrightarrow> search s k p = Some p"
    and search_miss: "p \<noteq> NULL \<Longrightarrow> \<not> hit s k p \<Longrightarrow> search s k p = search s k (nx s p)"
begin

lemma search_list:
  "chain (nx s) p as NULL \<Longrightarrow>
    search s k p = Some (case List.find (hit s k) as of None \<Rightarrow> NULL | Some a \<Rightarrow> a)"
proof (induction as arbitrary: p)
  case Nil
  then show ?case by (simp add: search_null)
next
  case (Cons a as)
  then have "p = a" "a \<noteq> NULL" "chain (nx s) (nx s a) as NULL" by auto
  then show ?case using Cons.IH [of "nx s a"]
    by (cases "hit s k a") (simp_all add: search_hit search_miss)
qed

lemma search_list_miss:
  assumes "chain (nx s) p as NULL" and "\<And>a. a \<in> set as \<Longrightarrow> \<not> hit s k a"
  shows "search s k p = Some NULL"
proof -
  have "List.find (hit s k) as = None" using assms(2) by (auto simp: find_None_all)
  with search_list [OF assms(1), of k] show ?thesis by simp
qed

lemma search_list_hit:
  assumes "chain (nx s) p as NULL" and "a \<in> set as" and "hit s k a"
    and "\<And>b. b \<in> set as \<Longrightarrow> hit s k b \<Longrightarrow> b = a"
  shows "search s k p = Some a"
proof (cases "List.find (hit s k) as")
  case None
  then show ?thesis using assms(2,3) by (auto simp: find_None_all)
next
  case (Some b)
  then have "b = a" using find_Some_mem [OF Some] assms(4) by auto
  with Some search_list [OF assms(1), of k] show ?thesis by simp
qed

end

subsection \<open>Append by recursion\<close>

text \<open>
  \<open>node->next = add(node->next, \<dots>); return node;\<close> with the new node made (or just returned)
  at the end of the list.
\<close>

locale chain_append_op =
  fixes nx :: "'s \<Rightarrow> addr \<Rightarrow> addr"
    and set_nx :: "'s \<Rightarrow> addr \<Rightarrow> addr \<Rightarrow> 's"
    and make :: "'s \<Rightarrow> addr \<Rightarrow> (addr \<times> 's) option"
    and add :: "'s \<Rightarrow> addr \<Rightarrow> addr \<Rightarrow> (addr \<times> 's) option"
  assumes nx_set: "nx (set_nx s a v) = (nx s)(a := v)"
    and set_same: "set_nx s a (nx s a) = s"
    and add_end: "add s prev NULL = make s prev"
    and add_step: "p \<noteq> NULL \<Longrightarrow> add s prev p =
      do { (r, t) \<leftarrow> add s p (nx s p); Some (p, set_nx t p r) }"
begin

lemma set_same_eq: "nx s a = v \<Longrightarrow> set_nx s a v = s"
  using set_same by blast

lemma add_chain:
  assumes "chain (nx s) p as NULL"
    and "make s (if as = [] then prev else last as) = Some (r, t)"
    and "\<And>a. a \<in> set as \<Longrightarrow> nx t a = nx s a"
  shows "add s prev p =
    Some (if as = [] then r else p, if as = [] then t else set_nx t (last as) r)"
  using assms
proof (induction as arbitrary: p prev)
  case Nil
  then show ?case by (simp add: add_end)
next
  case (Cons a as)
  from Cons.prems(1) have p: "p = a" "a \<noteq> NULL" and ch: "chain (nx s) (nx s a) as NULL" by auto
  have sub: "add s a (nx s a) =
      Some (if as = [] then r else nx s a, if as = [] then t else set_nx t (last as) r)"
    using Cons.prems(2,3) by (intro Cons.IH [OF ch]) (auto split: if_splits)
  show ?case
  proof (cases "as = []")
    case True
    with p sub show ?thesis by (simp add: add_step)
  next
    case False
    have "distinct (a # as)" using Cons.prems(1) by (rule chain_null_distinct)
    with False have "last as \<noteq> a" by auto
    then have "nx (set_nx t (last as) r) a = nx s a" using Cons.prems(3) by (simp add: nx_set)
    with False p sub show ?thesis by (simp add: add_step set_same_eq)
  qed
qed

end

subsection \<open>Removal by recursion\<close>

text \<open>
  The first node that matches is freed and its successor is linked in its place; the
  successor is read before the node is freed, and freeing never changes a link.
\<close>

locale chain_remove_op =
  fixes nx :: "'s \<Rightarrow> addr \<Rightarrow> addr"
    and set_nx :: "'s \<Rightarrow> addr \<Rightarrow> addr \<Rightarrow> 's"
    and hit :: "'s \<Rightarrow> 'k \<Rightarrow> addr \<Rightarrow> bool"
    and free :: "'s \<Rightarrow> addr \<Rightarrow> 's option"
    and remove :: "'s \<Rightarrow> 'k \<Rightarrow> addr \<Rightarrow> (addr \<times> 's) option"
  assumes nx_set: "nx (set_nx s a v) = (nx s)(a := v)"
    and set_same: "set_nx s a (nx s a) = s"
    and nx_free: "free s a = Some t \<Longrightarrow> nx t = nx s"
    and remove_end: "remove s k NULL = Some (NULL, s)"
    and remove_hit: "p \<noteq> NULL \<Longrightarrow> hit s k p \<Longrightarrow>
      remove s k p = do { t \<leftarrow> free s p; Some (nx s p, t) }"
    and remove_miss: "p \<noteq> NULL \<Longrightarrow> \<not> hit s k p \<Longrightarrow>
      remove s k p = do { (r, t) \<leftarrow> remove s k (nx s p); Some (p, set_nx t p r) }"
begin

lemma remove_absent:
  "chain (nx s) p as NULL \<Longrightarrow> (\<And>a. a \<in> set as \<Longrightarrow> \<not> hit s k a) \<Longrightarrow>
    remove s k p = Some (p, s)"
proof (induction as arbitrary: p)
  case Nil
  then show ?case by (simp add: remove_end)
next
  case (Cons a as)
  then have "p = a" "a \<noteq> NULL" and ch: "chain (nx s) (nx s a) as NULL" by auto
  moreover have "remove s k (nx s a) = Some (nx s a, s)"
    using Cons.prems(2) by (intro Cons.IH [OF ch]) auto
  ultimately show ?case using Cons.prems(2) by (simp add: remove_miss set_same)
qed

lemma remove_present:
  assumes "chain (nx s) p (xs @ a # ys) NULL"
    and "\<And>x. x \<in> set xs \<Longrightarrow> \<not> hit s k x" and "hit s k a" and "free s a = Some t"
  shows "remove s k p =
    Some (if xs = [] then nx s a else p, if xs = [] then t else set_nx t (last xs) (nx s a))"
  using assms
proof (induction xs arbitrary: p)
  case Nil
  then show ?case by (auto simp: remove_hit)
next
  case (Cons x xs)
  then have p: "p = x" "x \<noteq> NULL" "\<not> hit s k x"
    and ch: "chain (nx s) (nx s x) (xs @ a # ys) NULL" by auto
  have sub: "remove s k (nx s x) = Some (if xs = [] then nx s a else nx s x,
      if xs = [] then t else set_nx t (last xs) (nx s a))"
    using Cons.prems by (intro Cons.IH [OF ch]) auto
  have nt: "nx t = nx s" using Cons.prems(4) by (rule nx_free)
  show ?case
  proof (cases "xs = []")
    case True
    with p sub show ?thesis by (simp add: remove_miss)
  next
    case False
    have "distinct ((x # xs) @ a # ys)" using Cons.prems(1) by (rule chain_null_distinct)
    with False have "last xs \<noteq> x" by auto
    then have "nx (set_nx t (last xs) (nx s a)) x = nx s x" by (simp add: nx_set nt)
    then have "set_nx (set_nx t (last xs) (nx s a)) x (nx s x) = set_nx t (last xs) (nx s a)"
      using set_same by metis
    with False p sub show ?thesis by (simp add: remove_miss)
  qed
qed

end

subsection \<open>Walking a ring to the next good node\<close>

text \<open>
  \<open>while (cur->next is not good) cur = cur->next;\<close> where the cursor \<open>cur\<close> is part of the
  state.  From a ring with a good node the walk stops just before the first good one.
\<close>

locale ring_walk =
  fixes nx :: "'s \<Rightarrow> addr \<Rightarrow> addr"
    and cur :: "'s \<Rightarrow> addr"
    and set_cur :: "'s \<Rightarrow> addr \<Rightarrow> 's"
    and good :: "'s \<Rightarrow> addr \<Rightarrow> bool"
    and live :: "'s \<Rightarrow> addr \<Rightarrow> bool"
    and walk :: "'s \<Rightarrow> 's option"
  assumes cur_set: "cur (set_cur s a) = a"
    and set_set: "set_cur (set_cur s a) b = set_cur s b"
    and set_cur_same: "set_cur s (cur s) = s"
    and nx_set_cur: "nx (set_cur s a) = nx s"
    and good_set_cur: "good (set_cur s a) = good s"
    and live_set_cur: "live (set_cur s a) = live s"
    and walk_stop: "cur s \<noteq> NULL \<Longrightarrow> live s (nx s (cur s)) \<Longrightarrow> good s (nx s (cur s)) \<Longrightarrow>
      walk s = Some s"
    and walk_go: "cur s \<noteq> NULL \<Longrightarrow> live s (nx s (cur s)) \<Longrightarrow> \<not> good s (nx s (cur s)) \<Longrightarrow>
      walk s = walk (set_cur s (nx s (cur s)))"
begin

lemma walk_chain:
  assumes "chain (nx s) (nx s (cur s)) (xs @ [a]) q" and "cur s \<noteq> NULL"
    and "\<And>x. x \<in> set (xs @ [a]) \<Longrightarrow> live s x"
    and "\<And>x. x \<in> set xs \<Longrightarrow> \<not> good s x" and "good s a"
  shows "walk s = Some (set_cur s (if xs = [] then cur s else last xs))
    \<and> nx s (if xs = [] then cur s else last xs) = a"
  using assms
proof (induction xs arbitrary: s)
  case Nil
  then show ?case by (auto simp: walk_stop set_cur_same)
next
  case (Cons x xs)
  let ?t = "set_cur s x"
  from Cons.prems(1) have x: "nx s (cur s) = x" "x \<noteq> NULL" by auto
  have "walk s = walk ?t" using x Cons.prems(2,3,4) by (simp add: walk_go)
  moreover have "walk ?t = Some (set_cur ?t (if xs = [] then cur ?t else last xs))
      \<and> nx ?t (if xs = [] then cur ?t else last xs) = a"
    using Cons.prems x
    by (intro Cons.IH) (auto simp: cur_set nx_set_cur good_set_cur live_set_cur)
  ultimately show ?case by (auto simp: set_set cur_set nx_set_cur)
qed

end

text \<open>
  The nodes of a ring in the order in which they follow the node \<open>a\<close>; \<open>a\<close> itself is last.
\<close>

definition ring_after :: "addr \<Rightarrow> addr list \<Rightarrow> addr list" where
  "ring_after a qs = tl (dropWhile (\<lambda>x. x \<noteq> a) qs) @ takeWhile (\<lambda>x. x \<noteq> a) qs @ [a]"

definition ring :: "(addr \<Rightarrow> addr) \<Rightarrow> addr list \<Rightarrow> bool" where
  "ring nx qs \<longleftrightarrow> qs \<noteq> [] \<and> distinct qs \<and> chain nx (hd qs) qs (hd qs)"

lemma split_at_member:
  assumes "a \<notin> set xs"
  shows "takeWhile (\<lambda>x. x \<noteq> a) (xs @ a # ys) = xs"
    and "dropWhile (\<lambda>x. x \<noteq> a) (xs @ a # ys) = a # ys"
  using assms by (induction xs) auto

lemma ring_after_split: "distinct (xs @ a # ys) \<Longrightarrow> ring_after a (xs @ a # ys) = ys @ xs @ [a]"
  by (simp add: ring_after_def split_at_member)

lemma ring_splitE:
  assumes "ring nx qs" and "a \<in> set qs"
  obtains xs ys where "qs = xs @ a # ys" and "distinct (xs @ a # ys)"
    and "ring_after a qs = ys @ xs @ [a]"
proof -
  obtain xs ys where qs: "qs = xs @ a # ys" using assms(2) by (metis split_list)
  moreover have "distinct qs" using assms(1) by (simp add: ring_def)
  ultimately show thesis using that ring_after_split by metis
qed

lemma set_ring_after: "ring nx qs \<Longrightarrow> a \<in> set qs \<Longrightarrow> set (ring_after a qs) = set qs"
  by (erule ring_splitE, assumption) auto

lemma length_ring_after: "ring nx qs \<Longrightarrow> a \<in> set qs \<Longrightarrow> length (ring_after a qs) = length qs"
  by (erule ring_splitE, assumption) simp

lemma distinct_ring_after: "ring nx qs \<Longrightarrow> a \<in> set qs \<Longrightarrow> distinct (ring_after a qs)"
  by (erule ring_splitE, assumption) auto

lemma ring_nonnull: "ring nx qs \<Longrightarrow> NULL \<notin> set qs"
  unfolding ring_def using chain_nonnull by blast

lemma ring_chain_after:
  assumes "ring nx qs" and "a \<in> set qs"
  shows "chain nx (nx a) (ring_after a qs) (nx a)"
proof -
  obtain xs ys where qs: "qs = xs @ a # ys" and ra: "ring_after a qs = ys @ xs @ [a]"
    using assms by (rule ring_splitE)
  from assms(1) qs have c: "chain nx (hd qs) (xs @ a # ys) (hd qs)" by (simp add: ring_def)
  from c have "chain nx (hd qs) xs a" "a \<noteq> NULL" "chain nx (nx a) ys (hd qs)"
    by (auto simp: chain_append)
  with ra show ?thesis by (auto simp: chain_append)
qed

lemma ring_next_mem:
  assumes "ring nx qs" and "a \<in> set qs"
  shows "nx a \<in> set qs"
proof -
  have "chain nx (nx a) (ring_after a qs) (nx a)" "ring_after a qs \<noteq> []"
    using ring_chain_after [OF assms] by (simp_all add: ring_after_def)
  then have "nx a \<in> set (ring_after a qs)" by (cases "ring_after a qs") auto
  then show ?thesis using set_ring_after [OF assms] by simp
qed

lemma ring_head_chain:
  assumes "ring nx (h # qs)"
  shows "chain nx (nx h) qs h" and "h \<notin> set qs"
  using assms by (auto simp: ring_def)

text \<open>
  A search that starts at the second node of a ring and stops at the first returns the only
  node that matches, or the first node when none does.
\<close>

context chain_search
begin

lemma search_ring_hit:
  assumes "ring (nx s) qs" and "n \<in> set qs" and "hit s k n"
    and "\<And>m. m \<in> set qs \<Longrightarrow> hit s k m \<Longrightarrow> m = n" and "\<And>m. m \<in> set qs \<Longrightarrow> live s m"
  shows "search s k (hd qs) (nx s (hd qs)) = Some n"
proof -
  obtain h ts where qs: "qs = h # ts" using assms(2) by (cases qs) auto
  have ch: "chain (nx s) (nx s h) ts h" "h \<notin> set ts" using ring_head_chain assms(1) qs by blast+
  have f: "search s k h (nx s h) =
      Some (case List.find (hit s k) ts of None \<Rightarrow> h | Some a \<Rightarrow> a)"
    using assms(5) qs by (intro search_chain [OF ch]) simp
  show ?thesis
  proof (cases "List.find (hit s k) ts")
    case None
    then have "n \<notin> set ts" using assms(3) by (auto simp: find_None_all)
    then have "n = h" using assms(2) qs by simp
    with None f qs show ?thesis by simp
  next
    case (Some a)
    then have "a = n" using find_Some_mem [OF Some] assms(4) qs by auto
    with Some f qs show ?thesis by simp
  qed
qed

lemma search_ring_miss:
  assumes "ring (nx s) qs" and "\<And>m. m \<in> set qs \<Longrightarrow> \<not> hit s k m" and "\<And>m. m \<in> set qs \<Longrightarrow> live s m"
  shows "search s k (hd qs) (nx s (hd qs)) = Some (hd qs)"
proof -
  obtain h ts where qs: "qs = h # ts" using assms(1) by (cases qs) (auto simp: ring_def)
  have ch: "chain (nx s) (nx s h) ts h" "h \<notin> set ts" using ring_head_chain assms(1) qs by blast+
  have f: "search s k h (nx s h) =
      Some (case List.find (hit s k) ts of None \<Rightarrow> h | Some a \<Rightarrow> a)"
    using assms(3) qs by (intro search_chain [OF ch]) simp
  have "List.find (hit s k) ts = None" using assms(2) qs by (auto simp: find_None_all)
  with f qs show ?thesis by simp
qed

end

text \<open>A node is linked in right after the first one, as \<open>addProcessToQueue\<close> does.\<close>

lemma ring_insert:
  assumes "ring nx (h # qs)" and "n \<notin> set (h # qs)" and "n \<noteq> NULL"
  shows "ring (nx(n := nx h, h := n)) (h # n # qs)"
  using assms by (auto simp: ring_def chain_upd)

lemma ring_single: "n \<noteq> NULL \<Longrightarrow> nx n = n \<Longrightarrow> ring nx [n]"
  by (simp add: ring_def)

end
