(* ===== verification/ProcTypes.thy ===== *)
theory ProcTypes
  imports MemoryManager LinkedNodes
begin

section \<open>Processes, threads and the scheduler's state\<close>

text \<open>
  The structures of \<open>process.h\<close>, \<open>threads.h\<close>, \<open>stackFrame.h\<close> and \<open>scheduler.h\<close> as records,
  and the state they live in: one store per structure, the globals of \<open>scheduler.c\<close> and
  \<open>process.c\<close>, and the allocator's state, which the record extends.  Every field whose name
  is used by two structures carries a prefix.

  \<open>uninit\<close> holds the indeterminate values of the local variables that the code reads before
  it writes them.  They are arguments of the operations that read them, so that a theorem
  about such an operation holds for every value or says which it needs.
\<close>

datatype processState = READY | RUNNING | BLOCKED_IO | BLOCKED_MUTEX | BLOCKED_PIPE | DEAD

datatype threadState =
  T_READY | T_RUNNING | T_BLOCKED_IO | T_BLOCKED_MUTEX | T_BLOCKED_PIPE | T_DEAD

record heapNode =
  hp_address :: addr
  hp_size :: int
  hp_next :: addr

record processNode =
  ppid :: int
  pid :: int
  p_state :: processState
  p_name :: addr
  threadLibrary :: addr
  currentThread :: addr
  threadSize :: int
  threadTick :: int
  currentPThread :: int
  p_heap :: addr

record threadNode =
  userStack :: addr
  entryPoint :: addr
  baseStack :: addr
  pthread :: int
  t_state :: threadState

record libNode =
  l_thread :: addr
  l_next :: addr

record schedulerNode =
  sn_process :: addr
  sn_next :: addr

record StackFrame =
  sf_gs :: "64 word"
  sf_fs :: "64 word"
  sf_r15 :: "64 word"
  sf_r14 :: "64 word"
  sf_r13 :: "64 word"
  sf_r12 :: "64 word"
  sf_r11 :: "64 word"
  sf_r10 :: "64 word"
  sf_r9 :: "64 word"
  sf_r8 :: "64 word"
  sf_rsi :: "64 word"
  sf_rdi :: "64 word"
  sf_rbp :: "64 word"
  sf_rdx :: "64 word"
  sf_rcx :: "64 word"
  sf_rbx :: "64 word"
  sf_rax :: "64 word"
  sf_rip :: "64 word"
  sf_cs :: "64 word"
  sf_eflags :: "64 word"
  sf_rsp :: "64 word"
  sf_ss :: "64 word"
  sf_base :: "64 word"

record sched = mm_state +
  procs :: "addr \<Rightarrow> processNode"
  threads :: "addr \<Rightarrow> threadNode"
  libs :: "addr \<Rightarrow> libNode"
  snodes :: "addr \<Rightarrow> schedulerNode"
  heaps :: "addr \<Rightarrow> heapNode"
  names :: "addr \<Rightarrow> byte list"
  frames :: "addr \<Rightarrow> StackFrame"
  kernelStack :: addr
  processQueue :: addr
  currentProcess :: addr
  queueSize :: int
  numberOfTicks :: int
  pidCount :: int

record uninit =
  prev_lib :: addr \<comment> \<open>\<open>prev\<close> of \<open>freeThreadLibrary\<close>\<close>
  prev_node :: addr \<comment> \<open>\<open>prev\<close> of \<open>removeDeadProcess\<close>\<close>
  prev_dead :: addr \<comment> \<open>\<open>prev\<close> of \<open>removeDeadThreads\<close>\<close>
  i_all :: int \<comment> \<open>\<open>i\<close> of \<open>printAllProcess\<close>\<close>
  i_header :: int \<comment> \<open>\<open>i\<close> of \<open>printPsHeader\<close>\<close>

abbreviation (input) QUANTUM :: int where "QUANTUM \<equiv> 5"
abbreviation (input) THREAD_QUANTUM :: int where "THREAD_QUANTUM \<equiv> 1"
abbreviation (input) NAME_LENGTH :: nat where "NAME_LENGTH \<equiv> 50"
abbreviation (input) PAGE :: "64 word" where "PAGE \<equiv> 4096"
abbreviation (input) STACK :: "64 word" where "STACK \<equiv> 1048576" \<comment> \<open>\<open>PAGE_SIZE * NUMBER_OF_PAGES\<close>\<close>
abbreviation (input) SIZEOF_heapNode :: "64 word" where "SIZEOF_heapNode \<equiv> 24"
abbreviation (input) SIZEOF_StackFrame :: nat where "SIZEOF_StackFrame \<equiv> 184"

text \<open>The enumerators are ordered by their values.\<close>

definition code_of_ps :: "processState \<Rightarrow> nat" where
  "code_of_ps st = (case st of READY \<Rightarrow> 0 | RUNNING \<Rightarrow> 1 | BLOCKED_IO \<Rightarrow> 2 | BLOCKED_MUTEX \<Rightarrow> 3
     | BLOCKED_PIPE \<Rightarrow> 4 | DEAD \<Rightarrow> 5)"

instantiation processState :: linorder
begin

definition less_eq_processState :: "processState \<Rightarrow> processState \<Rightarrow> bool" where
  "less_eq_processState a b \<longleftrightarrow> code_of_ps a \<le> code_of_ps b"

definition less_processState :: "processState \<Rightarrow> processState \<Rightarrow> bool" where
  "less_processState a b \<longleftrightarrow> code_of_ps a < code_of_ps b"

instance
  by intro_classes
    (auto simp: less_eq_processState_def less_processState_def code_of_ps_def
      split: processState.splits)

end

text \<open>Assigning every field makes a whole record.\<close>

lemma libNode_all [simp]: "(x::libNode)\<lparr>l_thread := t, l_next := n\<rparr> = \<lparr>l_thread = t, l_next = n\<rparr>"
  by (cases x) simp

lemma schedulerNode_all [simp]:
  "(x::schedulerNode)\<lparr>sn_process := p, sn_next := n\<rparr> = \<lparr>sn_process = p, sn_next = n\<rparr>"
  by (cases x) simp

lemma heapNode_all [simp]: "(x::heapNode)\<lparr>hp_address := a, hp_size := k, hp_next := n\<rparr> =
    \<lparr>hp_address = a, hp_size = k, hp_next = n\<rparr>"
  by (cases x) simp

subsection \<open>Access to the stores\<close>

definition set_proc ::
  "addr \<Rightarrow> (processNode \<Rightarrow> processNode) \<Rightarrow> 'z sched_scheme \<Rightarrow> 'z sched_scheme option" where
  "set_proc p f s = do { chk p; Some (s\<lparr>procs := (procs s)(p := f (procs s p))\<rparr>) }"

definition set_thread ::
  "addr \<Rightarrow> (threadNode \<Rightarrow> threadNode) \<Rightarrow> 'z sched_scheme \<Rightarrow> 'z sched_scheme option" where
  "set_thread t f s = do { chk t; Some (s\<lparr>threads := (threads s)(t := f (threads s t))\<rparr>) }"

definition set_lib ::
  "addr \<Rightarrow> (libNode \<Rightarrow> libNode) \<Rightarrow> 'z sched_scheme \<Rightarrow> 'z sched_scheme option" where
  "set_lib l f s = do { chk l; Some (s\<lparr>libs := (libs s)(l := f (libs s l))\<rparr>) }"

definition set_snode ::
  "addr \<Rightarrow> (schedulerNode \<Rightarrow> schedulerNode) \<Rightarrow> 'z sched_scheme \<Rightarrow> 'z sched_scheme option" where
  "set_snode n f s = do { chk n; Some (s\<lparr>snodes := (snodes s)(n := f (snodes s n))\<rparr>) }"

definition set_heap ::
  "addr \<Rightarrow> (heapNode \<Rightarrow> heapNode) \<Rightarrow> 'z sched_scheme \<Rightarrow> 'z sched_scheme option" where
  "set_heap h f s = do { chk h; Some (s\<lparr>heaps := (heaps s)(h := f (heaps s h))\<rparr>) }"

definition get_proc :: "'z sched_scheme \<Rightarrow> addr \<Rightarrow> processNode option" where
  "get_proc s p = do { chk p; Some (procs s p) }"

definition get_thread :: "'z sched_scheme \<Rightarrow> addr \<Rightarrow> threadNode option" where
  "get_thread s t = do { chk t; Some (threads s t) }"

definition get_lib :: "'z sched_scheme \<Rightarrow> addr \<Rightarrow> libNode option" where
  "get_lib s l = do { chk l; Some (libs s l) }"

definition get_snode :: "'z sched_scheme \<Rightarrow> addr \<Rightarrow> schedulerNode option" where
  "get_snode s n = do { chk n; Some (snodes s n) }"

lemma set_proc_Some [simp]:
  "p \<noteq> NULL \<Longrightarrow> set_proc p f s = Some (s\<lparr>procs := (procs s)(p := f (procs s p))\<rparr>)"
  and set_proc_NULL [simp]: "set_proc NULL f s = None"
  by (simp_all add: set_proc_def)

lemma set_thread_Some [simp]:
  "t \<noteq> NULL \<Longrightarrow> set_thread t f s = Some (s\<lparr>threads := (threads s)(t := f (threads s t))\<rparr>)"
  and set_thread_NULL [simp]: "set_thread NULL f s = None"
  by (simp_all add: set_thread_def)

lemma set_lib_Some [simp]:
  "l \<noteq> NULL \<Longrightarrow> set_lib l f s = Some (s\<lparr>libs := (libs s)(l := f (libs s l))\<rparr>)"
  and set_lib_NULL [simp]: "set_lib NULL f s = None"
  by (simp_all add: set_lib_def)

lemma set_snode_Some [simp]:
  "n \<noteq> NULL \<Longrightarrow> set_snode n f s = Some (s\<lparr>snodes := (snodes s)(n := f (snodes s n))\<rparr>)"
  and set_snode_NULL [simp]: "set_snode NULL f s = None"
  by (simp_all add: set_snode_def)

lemma set_heap_Some [simp]:
  "h \<noteq> NULL \<Longrightarrow> set_heap h f s = Some (s\<lparr>heaps := (heaps s)(h := f (heaps s h))\<rparr>)"
  and set_heap_NULL [simp]: "set_heap NULL f s = None"
  by (simp_all add: set_heap_def)

lemma get_proc_Some [simp]: "p \<noteq> NULL \<Longrightarrow> get_proc s p = Some (procs s p)"
  and get_proc_NULL [simp]: "get_proc s NULL = None"
  by (simp_all add: get_proc_def)

lemma get_thread_Some [simp]: "t \<noteq> NULL \<Longrightarrow> get_thread s t = Some (threads s t)"
  and get_thread_NULL [simp]: "get_thread s NULL = None"
  by (simp_all add: get_thread_def)

lemma get_lib_Some [simp]: "l \<noteq> NULL \<Longrightarrow> get_lib s l = Some (libs s l)"
  and get_lib_NULL [simp]: "get_lib s NULL = None"
  by (simp_all add: get_lib_def)

lemma get_snode_Some [simp]: "n \<noteq> NULL \<Longrightarrow> get_snode s n = Some (snodes s n)"
  and get_snode_NULL [simp]: "get_snode s NULL = None"
  by (simp_all add: get_snode_def)

subsection \<open>Well-formed queues\<close>

text \<open>
  The processes form a ring of scheduler nodes that starts at \<open>processQueue\<close>; the threads of
  a process form a ring of library nodes that starts at its \<open>threadLibrary\<close>.
\<close>

abbreviation snx :: "'z sched_scheme \<Rightarrow> addr \<Rightarrow> addr" where
  "snx s \<equiv> \<lambda>n. sn_next (snodes s n)"

abbreviation lnx :: "'z sched_scheme \<Rightarrow> addr \<Rightarrow> addr" where
  "lnx s \<equiv> \<lambda>l. l_next (libs s l)"

abbreviation proc_at :: "'z sched_scheme \<Rightarrow> addr \<Rightarrow> addr" where
  "proc_at s n \<equiv> sn_process (snodes s n)"

abbreviation thread_at :: "'z sched_scheme \<Rightarrow> addr \<Rightarrow> addr" where
  "thread_at s l \<equiv> l_thread (libs s l)"

definition proc_ring :: "'z sched_scheme \<Rightarrow> addr list \<Rightarrow> bool" where
  "proc_ring s qs \<longleftrightarrow> ring (snx s) qs \<and> hd qs = processQueue s \<and> currentProcess s \<in> set qs
     \<and> NULL \<notin> proc_at s ` set qs \<and> inj_on (proc_at s) (set qs)
     \<and> inj_on (\<lambda>n. pid (procs s (proc_at s n))) (set qs)"

definition thread_ring :: "'z sched_scheme \<Rightarrow> addr \<Rightarrow> addr list \<Rightarrow> bool" where
  "thread_ring s p ls \<longleftrightarrow> ring (lnx s) ls \<and> hd ls = threadLibrary (procs s p)
     \<and> currentThread (procs s p) \<in> set ls
     \<and> NULL \<notin> thread_at s ` set ls \<and> inj_on (thread_at s) (set ls)
     \<and> inj_on (\<lambda>l. pthread (threads s (thread_at s l))) (set ls)"

lemma proc_ringD:
  assumes "proc_ring s qs"
  shows "ring (snx s) qs" and "qs \<noteq> []" and "hd qs = processQueue s"
    and "currentProcess s \<in> set qs" and "processQueue s \<in> set qs"
    and "n \<in> set qs \<Longrightarrow> n \<noteq> NULL" and "n \<in> set qs \<Longrightarrow> proc_at s n \<noteq> NULL"
    and "n \<in> set qs \<Longrightarrow> m \<in> set qs \<Longrightarrow> proc_at s n = proc_at s m \<longleftrightarrow> n = m"
    and "n \<in> set qs \<Longrightarrow> m \<in> set qs \<Longrightarrow>
      pid (procs s (proc_at s n)) = pid (procs s (proc_at s m)) \<longleftrightarrow> n = m"
proof -
  show r: "ring (snx s) qs" and h: "hd qs = processQueue s" and "currentProcess s \<in> set qs"
    using assms by (simp_all add: proc_ring_def)
  show ne: "qs \<noteq> []" using r by (simp add: ring_def)
  then show "processQueue s \<in> set qs" using h by (metis list.set_sel(1))
  show "n \<in> set qs \<Longrightarrow> n \<noteq> NULL" using ring_nonnull [OF r] by metis
  show "n \<in> set qs \<Longrightarrow> proc_at s n \<noteq> NULL" using assms by (force simp: proc_ring_def)
  show "n \<in> set qs \<Longrightarrow> m \<in> set qs \<Longrightarrow> proc_at s n = proc_at s m \<longleftrightarrow> n = m"
    and "n \<in> set qs \<Longrightarrow> m \<in> set qs \<Longrightarrow>
      pid (procs s (proc_at s n)) = pid (procs s (proc_at s m)) \<longleftrightarrow> n = m"
    using assms unfolding proc_ring_def by (meson inj_on_eq_iff)+
qed

lemma thread_ringD:
  assumes "thread_ring s p ls"
  shows "ring (lnx s) ls" and "ls \<noteq> []" and "hd ls = threadLibrary (procs s p)"
    and "currentThread (procs s p) \<in> set ls" and "threadLibrary (procs s p) \<in> set ls"
    and "l \<in> set ls \<Longrightarrow> l \<noteq> NULL" and "l \<in> set ls \<Longrightarrow> thread_at s l \<noteq> NULL"
    and "l \<in> set ls \<Longrightarrow> m \<in> set ls \<Longrightarrow> thread_at s l = thread_at s m \<longleftrightarrow> l = m"
    and "l \<in> set ls \<Longrightarrow> m \<in> set ls \<Longrightarrow>
      pthread (threads s (thread_at s l)) = pthread (threads s (thread_at s m)) \<longleftrightarrow> l = m"
proof -
  show r: "ring (lnx s) ls" and h: "hd ls = threadLibrary (procs s p)"
    and "currentThread (procs s p) \<in> set ls"
    using assms by (simp_all add: thread_ring_def)
  show ne: "ls \<noteq> []" using r by (simp add: ring_def)
  then show "threadLibrary (procs s p) \<in> set ls" using h by (metis list.set_sel(1))
  show "l \<in> set ls \<Longrightarrow> l \<noteq> NULL" using ring_nonnull [OF r] by metis
  show "l \<in> set ls \<Longrightarrow> thread_at s l \<noteq> NULL" using assms by (force simp: thread_ring_def)
  show "l \<in> set ls \<Longrightarrow> m \<in> set ls \<Longrightarrow> thread_at s l = thread_at s m \<longleftrightarrow> l = m"
    and "l \<in> set ls \<Longrightarrow> m \<in> set ls \<Longrightarrow>
      pthread (threads s (thread_at s l)) = pthread (threads s (thread_at s m)) \<longleftrightarrow> l = m"
    using assms unfolding thread_ring_def by (meson inj_on_eq_iff)+
qed

text \<open>What the rings depend on.\<close>

lemma proc_ring_cong:
  assumes "proc_ring s qs" and "\<And>n. n \<in> set qs \<Longrightarrow> snodes s' n = snodes s n"
    and "processQueue s' = processQueue s" and "currentProcess s' \<in> set qs"
    and "\<And>n. n \<in> set qs \<Longrightarrow> pid (procs s' (proc_at s n)) = pid (procs s (proc_at s n))"
  shows "proc_ring s' qs"
proof -
  have "ring (snx s) qs" using assms(1) by (simp add: proc_ring_def)
  moreover have "chain (snx s') p qs e = chain (snx s) p qs e" for p e
    using assms(2) by (intro chain_cong) simp
  ultimately have "ring (snx s') qs" by (simp add: ring_def)
  moreover have "inj_on (proc_at s') (set qs)"
    by (rule inj_on_eq [of "proc_at s"]) (use assms(1,2) in \<open>simp_all add: proc_ring_def\<close>)
  moreover have "inj_on (\<lambda>n. pid (procs s' (proc_at s' n))) (set qs)"
    by (rule inj_on_eq [of "\<lambda>n. pid (procs s (proc_at s n))"]) (use assms(1,2,5) in \<open>simp_all add: proc_ring_def\<close>)
  moreover have "proc_at s' ` set qs = proc_at s ` set qs" using assms(2) by (auto simp: image_iff)
  ultimately show ?thesis using assms(1,3,4) by (simp add: proc_ring_def)
qed

lemma thread_ring_cong:
  assumes "thread_ring s p ls" and "\<And>l. l \<in> set ls \<Longrightarrow> libs s' l = libs s l"
    and "threadLibrary (procs s' p) = threadLibrary (procs s p)"
    and "currentThread (procs s' p) \<in> set ls"
    and "\<And>l. l \<in> set ls \<Longrightarrow> pthread (threads s' (thread_at s l)) = pthread (threads s (thread_at s l))"
  shows "thread_ring s' p ls"
proof -
  have "ring (lnx s) ls" using assms(1) by (simp add: thread_ring_def)
  moreover have "chain (lnx s') h ls e = chain (lnx s) h ls e" for h e
    using assms(2) by (intro chain_cong) simp
  ultimately have "ring (lnx s') ls" by (simp add: ring_def)
  moreover have "inj_on (thread_at s') (set ls)"
    by (rule inj_on_eq [of "thread_at s"]) (use assms(1,2) in \<open>simp_all add: thread_ring_def\<close>)
  moreover have "inj_on (\<lambda>l. pthread (threads s' (thread_at s' l))) (set ls)"
    by (rule inj_on_eq [of "\<lambda>l. pthread (threads s (thread_at s l))"]) (use assms(1,2,5) in \<open>simp_all add: thread_ring_def\<close>)
  moreover have "thread_at s' ` set ls = thread_at s ` set ls" using assms(2) by (auto simp: image_iff)
  ultimately show ?thesis using assms(1,3,4) by (simp add: thread_ring_def)
qed

subsection \<open>A blank machine\<close>

text \<open>
  The state after \<open>memAllocatorInit\<close> on cleared memory, before any process exists, and the
  first process of \<open>main\<close> without its thread: node and process lie on the first two pages.
\<close>

definition zero_proc :: processNode where
  "zero_proc = \<lparr>ppid = 0, pid = 0, p_state = READY, p_name = NULL, threadLibrary = NULL,
     currentThread = NULL, threadSize = 0, threadTick = 0, currentPThread = 0, p_heap = NULL\<rparr>"

definition zero_thread :: threadNode where
  "zero_thread = \<lparr>userStack = NULL, entryPoint = NULL, baseStack = NULL, pthread = 0, t_state = T_READY\<rparr>"

definition zero_frame :: StackFrame where
  "zero_frame = \<lparr>sf_gs = 0, sf_fs = 0, sf_r15 = 0, sf_r14 = 0, sf_r13 = 0, sf_r12 = 0, sf_r11 = 0,
     sf_r10 = 0, sf_r9 = 0, sf_r8 = 0, sf_rsi = 0, sf_rdi = 0, sf_rbp = 0, sf_rdx = 0, sf_rcx = 0,
     sf_rbx = 0, sf_rax = 0, sf_rip = 0, sf_cs = 0, sf_eflags = 0, sf_rsp = 0, sf_ss = 0,
     sf_base = 0\<rparr>"

definition blank_sched :: sched where
  "blank_sched = \<lparr>initMem = 0x1000000, usedMap = replicate 896 0,
     usedMapAddr = 0x1000000 + 28671 * 4096, blocksAmount = 28671,
     procs = (\<lambda>_. zero_proc), threads = (\<lambda>_. zero_thread),
     libs = (\<lambda>_. \<lparr>l_thread = NULL, l_next = NULL\<rparr>),
     snodes = (\<lambda>_. \<lparr>sn_process = NULL, sn_next = NULL\<rparr>),
     heaps = (\<lambda>_. \<lparr>hp_address = NULL, hp_size = 0, hp_next = NULL\<rparr>),
     names = (\<lambda>_. []), frames = (\<lambda>_. zero_frame), kernelStack = NULL, processQueue = NULL,
     currentProcess = NULL, queueSize = 0, numberOfTicks = 0, pidCount = 0\<rparr>"

lemma blank_sched_prefix: "prefix_used blank_sched 0"
  by (rule prefix_used_fresh [of _ 896]) (simp_all add: blank_sched_def mm_inv_def ceil_div_def)

definition one_process :: sched where
  "one_process = blank_sched\<lparr>usedMap := mask 2 # replicate 895 0,
     snodes := (snodes blank_sched)(0x1000000 := \<lparr>sn_process = 0x1001000, sn_next = 0x1000000\<rparr>),
     procs := (procs blank_sched)(0x1001000 := zero_proc), pidCount := 1,
     processQueue := 0x1000000, currentProcess := 0x1000000, queueSize := 1\<rparr>"

lemma occupied_mask:
  assumes "k \<le> 32"
  shows "occupied (mask k # replicate n 0) q \<longleftrightarrow> q < k"
proof (cases "q div 32")
  case 0
  then have "q < 32" by simp
  with assms show ?thesis by (simp add: occupied_def bit_mask_iff)
next
  case (Suc i)
  then have "32 \<le> q" by (metis div_less not_le_imp_less nat.distinct(1))
  with assms Suc show ?thesis by (auto simp: occupied_def)
qed

lemma one_process_prefix: "prefix_used one_process 2"
  using occupied_mask [of 2 895]
  by (simp add: prefix_used_def one_process_def blank_sched_def mm_inv_def ceil_div_def)

lemma one_process_ring: "proc_ring one_process [0x1000000]"
  by (simp add: proc_ring_def one_process_def ring_single)

end
