(* ===== verification/SchedQuery.thy ===== *)
theory SchedQuery
  imports ProcTypes
begin

section \<open>Looking up processes and threads (\<open>scheduler.c\<close>)\<close>

text \<open>
  The functions of \<open>scheduler.c\<close> that only read the queues; \<open>process.c\<close> and \<open>threads.c\<close> call
  them too.  \<open>findSNode\<close> and \<open>findLib\<close> are the \<open>while\<close> loops of \<open>getProcessWithPid\<close> and
  \<open>getThreadWithPthread\<close>: both start at the second node of a ring and stop at the first.
  An empty queue (\<open>processQueue == NULL\<close>) is dereferenced by the code, hence \<open>None\<close>.
\<close>

subsection \<open>Definitions\<close>

text \<open>\<open>while (aux != processQueue && aux->process->pid != pid) aux = aux->next;\<close>\<close>

partial_function (option) findSNode :: "'z sched_scheme \<Rightarrow> int \<Rightarrow> addr \<Rightarrow> addr \<Rightarrow> addr option" where
  "findSNode s k queue aux =
     (if aux = queue then Some aux
      else do {
        node \<leftarrow> get_snode s aux;
        proc \<leftarrow> get_proc s (sn_process node);
        if pid proc = k then Some aux else findSNode s k queue (sn_next node) })"

definition getProcessWithPid :: "int \<Rightarrow> 'z sched_scheme \<Rightarrow> addr option" where
  "getProcessWithPid k s = do {
     queue \<leftarrow> get_snode s (processQueue s);
     aux \<leftarrow> findSNode s k (processQueue s) (sn_next queue);
     node \<leftarrow> get_snode s aux;
     proc \<leftarrow> get_proc s (sn_process node);
     Some (if pid proc = k then sn_process node else NULL) }"

text \<open>\<open>while (aux != process->threadLibrary && aux->thread->pthread != pthread) aux = aux->next;\<close>\<close>

partial_function (option) findLib :: "'z sched_scheme \<Rightarrow> int \<Rightarrow> addr \<Rightarrow> addr \<Rightarrow> addr option" where
  "findLib s k library aux =
     (if aux = library then Some aux
      else do {
        node \<leftarrow> get_lib s aux;
        thread \<leftarrow> get_thread s (l_thread node);
        if pthread thread = k then Some aux else findLib s k library (l_next node) })"

definition getThreadWithPthread :: "int \<Rightarrow> addr \<Rightarrow> 'z sched_scheme \<Rightarrow> addr option" where
  "getThreadWithPthread k process s = do {
     proc \<leftarrow> get_proc s process;
     library \<leftarrow> get_lib s (threadLibrary proc);
     aux \<leftarrow> findLib s k (threadLibrary proc) (l_next library);
     node \<leftarrow> get_lib s aux;
     thread \<leftarrow> get_thread s (l_thread node);
     Some (if pthread thread = k then l_thread node else NULL) }"

definition getCurrentPid :: "'z sched_scheme \<Rightarrow> int option" where
  "getCurrentPid s =
     (if currentProcess s = NULL then Some (-1)
      else do {
        node \<leftarrow> get_snode s (currentProcess s);
        proc \<leftarrow> get_proc s (sn_process node);
        Some (pid proc) })"

definition currentThreadNode :: "'z sched_scheme \<Rightarrow> addr option" where
  \<comment> \<open>\<open>currentProcess->process->currentThread->thread\<close>\<close>
  "currentThreadNode s = do {
     node \<leftarrow> get_snode s (currentProcess s);
     proc \<leftarrow> get_proc s (sn_process node);
     lib \<leftarrow> get_lib s (currentThread proc);
     Some (l_thread lib) }"

definition getCurrentPthread :: "'z sched_scheme \<Rightarrow> int option" where
  "getCurrentPthread s = do {
     t \<leftarrow> currentThreadNode s;
     thread \<leftarrow> get_thread s t;
     Some (pthread thread) }"

definition getParentPid :: "int \<Rightarrow> 'z sched_scheme \<Rightarrow> int option" where
  "getParentPid k s = do {
     process \<leftarrow> getProcessWithPid k s;
     proc \<leftarrow> get_proc s process;
     Some (ppid proc) }"

definition getCurrentThreadOfProcess :: "int \<Rightarrow> 'z sched_scheme \<Rightarrow> int option" where
  "getCurrentThreadOfProcess k s = do {
     process \<leftarrow> getProcessWithPid k s;
     proc \<leftarrow> get_proc s process;
     lib \<leftarrow> get_lib s (currentThread proc);
     thread \<leftarrow> get_thread s (l_thread lib);
     Some (pthread thread) }"

definition currentProcessEntryPoint :: "'z sched_scheme \<Rightarrow> addr option" where
  "currentProcessEntryPoint s = do {
     t \<leftarrow> currentThreadNode s;
     thread \<leftarrow> get_thread s t;
     Some (entryPoint thread) }"

fun getBlockProcessType :: "threadState \<Rightarrow> processState" where
  "getBlockProcessType T_BLOCKED_IO = BLOCKED_IO"
| "getBlockProcessType T_BLOCKED_MUTEX = BLOCKED_MUTEX"
| "getBlockProcessType T_BLOCKED_PIPE = BLOCKED_PIPE"
| "getBlockProcessType T_READY = READY"
| "getBlockProcessType T_RUNNING = RUNNING"
| "getBlockProcessType T_DEAD = DEAD"

definition isProcessBlocked :: "processState \<Rightarrow> bool" where
  "isProcessBlocked st \<longleftrightarrow> st = BLOCKED_IO \<or> st = BLOCKED_PIPE \<or> st = BLOCKED_MUTEX"

definition isThreadBlocked :: "threadState \<Rightarrow> bool" where
  "isThreadBlocked st \<longleftrightarrow> st = T_BLOCKED_IO \<or> st = T_BLOCKED_PIPE \<or> st = T_BLOCKED_MUTEX"

subsection \<open>The searches find by identifier\<close>

interpretation proc_search: chain_search "snx" "\<lambda>s n. proc_at s n \<noteq> NULL"
  "\<lambda>s k n. pid (procs s (proc_at s n)) = k" "findSNode"
  by unfold_locales (subst findSNode.simps, simp)+

interpretation lib_search: chain_search "lnx" "\<lambda>s l. thread_at s l \<noteq> NULL"
  "\<lambda>s k l. pthread (threads s (thread_at s l)) = k" "findLib"
  by unfold_locales (subst findLib.simps, simp)+

lemma getProcessWithPid_hit:
  assumes "proc_ring s qs" and "n \<in> set qs"
  shows "getProcessWithPid (pid (procs s (proc_at s n))) s = Some (proc_at s n)"
proof -
  note r = proc_ringD [OF assms(1)]
  have f: "findSNode s (pid (procs s (proc_at s n))) (hd qs) (snx s (hd qs)) = Some n"
    using assms(2) r(7,9) by (intro proc_search.search_ring_hit [OF r(1)]) auto
  have "n \<noteq> NULL" "proc_at s n \<noteq> NULL" "hd qs \<noteq> NULL" using r(2,6,7) assms(2) by auto
  with f show ?thesis by (simp add: getProcessWithPid_def r(3) [symmetric])
qed

lemma getProcessWithPid_miss:
  assumes "proc_ring s qs" and "\<And>n. n \<in> set qs \<Longrightarrow> pid (procs s (proc_at s n)) \<noteq> k"
  shows "getProcessWithPid k s = Some NULL"
proof -
  note r = proc_ringD [OF assms(1)]
  have f: "findSNode s k (hd qs) (snx s (hd qs)) = Some (hd qs)"
    using assms(2) r(7) by (intro proc_search.search_ring_miss [OF r(1)]) auto
  have "hd qs \<in> set qs" using r(2) by simp
  then have "hd qs \<noteq> NULL" "proc_at s (hd qs) \<noteq> NULL" "pid (procs s (proc_at s (hd qs))) \<noteq> k"
    using r(6,7) assms(2) by auto
  with f show ?thesis by (simp add: getProcessWithPid_def r(3) [symmetric])
qed

lemma getThreadWithPthread_hit:
  assumes "thread_ring s p ls" and "p \<noteq> NULL" and "l \<in> set ls"
  shows "getThreadWithPthread (pthread (threads s (thread_at s l))) p s = Some (thread_at s l)"
proof -
  note r = thread_ringD [OF assms(1)]
  have f: "findLib s (pthread (threads s (thread_at s l))) (hd ls) (lnx s (hd ls)) = Some l"
    using assms(3) r(7,9) by (intro lib_search.search_ring_hit [OF r(1)]) auto
  have "l \<noteq> NULL" "thread_at s l \<noteq> NULL" "hd ls \<noteq> NULL" using r(2,6,7) assms(3) by auto
  with f assms(2) show ?thesis by (simp add: getThreadWithPthread_def r(3) [symmetric])
qed

lemma getThreadWithPthread_miss:
  assumes "thread_ring s p ls" and "p \<noteq> NULL"
    and "\<And>l. l \<in> set ls \<Longrightarrow> pthread (threads s (thread_at s l)) \<noteq> k"
  shows "getThreadWithPthread k p s = Some NULL"
proof -
  note r = thread_ringD [OF assms(1)]
  have f: "findLib s k (hd ls) (lnx s (hd ls)) = Some (hd ls)"
    using assms(3) r(7) by (intro lib_search.search_ring_miss [OF r(1)]) auto
  have "hd ls \<in> set ls" using r(2) by simp
  then have "hd ls \<noteq> NULL" "thread_at s (hd ls) \<noteq> NULL" "pthread (threads s (thread_at s (hd ls))) \<noteq> k"
    using r(6,7) assms(3) by auto
  with f assms(2) show ?thesis by (simp add: getThreadWithPthread_def r(3) [symmetric])
qed

lemma getCurrentPid_ring:
  assumes "proc_ring s qs"
  shows "getCurrentPid s = Some (pid (procs s (proc_at s (currentProcess s))))"
proof -
  have "currentProcess s \<noteq> NULL" "proc_at s (currentProcess s) \<noteq> NULL"
    using proc_ringD(4,6,7) [OF assms] by auto
  then show ?thesis by (simp add: getCurrentPid_def)
qed

lemma currentThreadNode_ring:
  assumes "proc_ring s qs" and "thread_ring s (proc_at s (currentProcess s)) ls"
  shows "currentThreadNode s =
    Some (thread_at s (currentThread (procs s (proc_at s (currentProcess s)))))"
  using proc_ringD(4,6,7) [OF assms(1)] thread_ringD(4,6) [OF assms(2)]
  by (simp add: currentThreadNode_def)

lemma getCurrentPthread_ring:
  assumes "proc_ring s qs" and "thread_ring s (proc_at s (currentProcess s)) ls"
  shows "getCurrentPthread s = Some (pthread (threads s (thread_at s
    (currentThread (procs s (proc_at s (currentProcess s)))))))"
  using currentThreadNode_ring [OF assms] thread_ringD(4,7) [OF assms(2)]
  by (simp add: getCurrentPthread_def)

text \<open>A blocked thread type always names a blocked process type, with the same value.\<close>

lemma getBlockProcessType_blocked [simp]:
  "isProcessBlocked (getBlockProcessType st) = isThreadBlocked st"
  by (cases st) (simp_all add: isProcessBlocked_def isThreadBlocked_def)

end
