(* ===== verification/Threads.thy ===== *)
theory Threads
  imports SchedQuery
begin

section \<open>Threads (\<open>threads.c\<close>)\<close>

text \<open>
  Creating a thread with its stack and its initial frame, linking it into the ring of its
  process, and freeing all threads of a process.  \<open>freeLibLoop\<close> is the \<open>for\<close> loop of
  \<open>freeThreadLibrary\<close>; its \<open>prev\<close> is not initialised in the code, so its first value is the
  component \<open>prev_lib\<close> of the indeterminate values.
\<close>

subsection \<open>Definitions\<close>

definition initialFrame :: "addr \<Rightarrow> addr \<Rightarrow> addr \<Rightarrow> StackFrame" where
  \<comment> \<open>the fields that \<open>fillStackFrame\<close> assigns; \<open>base\<close> is the last one, at offset 176\<close>
  "initialFrame exec entry frame =
     \<lparr> sf_gs = 0x001, sf_fs = 0x002, sf_r15 = 0x003, sf_r14 = 0x004, sf_r13 = 0x005,
       sf_r12 = 0x006, sf_r11 = 0x007, sf_r10 = 0x008, sf_r9 = 0x009, sf_r8 = 0x00A,
       sf_rsi = 0x00B, sf_rdi = of_nat entry, sf_rbp = 0x00D, sf_rdx = 0x00E,
       sf_rcx = 0x00F, sf_rbx = 0x010, sf_rax = 0x011, sf_rip = of_nat exec,
       sf_cs = 0x008, sf_eflags = 0x202, sf_rsp = of_nat (frame + 176), sf_ss = 0x000,
       sf_base = 0x000 \<rparr>"

definition fillStackFrame ::
  "addr \<Rightarrow> addr \<Rightarrow> addr \<Rightarrow> 'z sched_scheme \<Rightarrow> (addr \<times> 'z sched_scheme) option" where
  "fillStackFrame exec entry base s = do {
     let frame = nat ((int base - int SIZEOF_StackFrame) mod 2 ^ 64);
     chk frame;
     Some (frame, s\<lparr>frames := (frames s)(frame := initialFrame exec entry frame)\<rparr>) }"

definition createThread ::
  "addr \<Rightarrow> addr \<Rightarrow> int \<Rightarrow> 'z sched_scheme \<Rightarrow> (addr \<times> 'z sched_scheme) option" where
  "createThread exec entry currentPthread s = do {
     (thread, s) \<leftarrow> allocate PAGE s;
     s \<leftarrow> set_thread thread (\<lambda>t. t\<lparr>entryPoint := entry\<rparr>) s;
     (base, s) \<leftarrow> allocate STACK s;
     s \<leftarrow> set_thread thread (\<lambda>t. t\<lparr>baseStack := base\<rparr>) s;
     (frame, s) \<leftarrow> fillStackFrame exec entry base s;
     s \<leftarrow> set_thread thread (\<lambda>t. t\<lparr>userStack := frame\<rparr>) s;
     s \<leftarrow> set_thread thread (\<lambda>t. t\<lparr>pthread := currentPthread\<rparr>) s;
     s \<leftarrow> set_thread thread (\<lambda>t. t\<lparr>t_state := T_READY\<rparr>) s;
     Some (thread, s) }"

definition linkThread :: "addr \<Rightarrow> addr \<Rightarrow> 'z sched_scheme \<Rightarrow> 'z sched_scheme option" where
  \<comment> \<open>the \<open>if\<close> of \<open>addThreadToProcess\<close>\<close>
  "linkThread process node s = do {
     proc \<leftarrow> get_proc s process;
     if currentThread proc = NULL then do {
       s \<leftarrow> set_proc process (\<lambda>p. p\<lparr>threadLibrary := node\<rparr>) s;
       s \<leftarrow> set_proc process (\<lambda>p. p\<lparr>currentThread := node\<rparr>) s;
       set_lib node (\<lambda>l. l\<lparr>l_next := node\<rparr>) s }
     else do {
       head \<leftarrow> get_lib s (threadLibrary proc);
       s \<leftarrow> set_lib node (\<lambda>l. l\<lparr>l_next := l_next head\<rparr>) s;
       set_lib (threadLibrary proc) (\<lambda>l. l\<lparr>l_next := node\<rparr>) s } }"

definition addThreadToProcess ::
  "int \<Rightarrow> addr \<Rightarrow> addr \<Rightarrow> 'z sched_scheme \<Rightarrow> (int \<times> 'z sched_scheme) option" where
  "addThreadToProcess k exec entry s = do {
     process \<leftarrow> getProcessWithPid k s;
     if process = NULL then Some (-1, s)
     else do {
       proc \<leftarrow> get_proc s process;
       (thread, s) \<leftarrow> createThread exec entry (currentPThread proc) s;
       (node, s) \<leftarrow> allocate PAGE s;
       s \<leftarrow> set_lib node (\<lambda>l. l\<lparr>l_thread := thread\<rparr>) s;
       s \<leftarrow> linkThread process node s;
       s \<leftarrow> set_proc process (\<lambda>p. p\<lparr>currentPThread := currentPThread p + 1\<rparr>) s;
       s \<leftarrow> set_proc process (\<lambda>p. p\<lparr>threadSize := threadSize p + 1\<rparr>) s;
       t \<leftarrow> get_thread s thread;
       Some (pthread t, s) } }"

function freeLibLoop ::
  "int \<Rightarrow> int \<Rightarrow> addr \<Rightarrow> addr \<Rightarrow> 'z sched_scheme \<Rightarrow> 'z sched_scheme option" where
  "freeLibLoop n i current prev s =
     (if i < n then do {
        cur \<leftarrow> get_lib s current;
        s \<leftarrow> set_lib prev (\<lambda>l. l\<lparr>l_next := l_next cur\<rparr>) s;
        cur \<leftarrow> get_lib s current;
        t \<leftarrow> get_thread s (l_thread cur);
        (_, s) \<leftarrow> deallocate (baseStack t) STACK s;
        (_, s) \<leftarrow> deallocate (l_thread cur) PAGE s;
        (_, s) \<leftarrow> deallocate current PAGE s;
        freeLibLoop n (i + 1) (l_next cur) current s }
      else Some s)"
  by pat_completeness auto
termination
  by (relation "measure (\<lambda>(n, i, c, p, s). nat (n - i))") auto

declare freeLibLoop.simps [simp del]

definition freeThreadLibrary ::
  "uninit \<Rightarrow> addr \<Rightarrow> int \<Rightarrow> 'z sched_scheme \<Rightarrow> 'z sched_scheme option" where
  "freeThreadLibrary u library n s = freeLibLoop n 0 library (prev_lib u) s"

subsection \<open>The initial frame\<close>

lemma fillStackFrame_eq:
  assumes "SIZEOF_StackFrame < base" and "base < 2 ^ 64"
  shows "fillStackFrame exec entry base s = Some (base - 184,
    s\<lparr>frames := (frames s)(base - 184 := initialFrame exec entry (base - 184))\<rparr>)"
proof -
  have "0 \<le> int base - int SIZEOF_StackFrame" using assms(1) by linarith
  moreover have "int base < 2 ^ 64" using assms(2) by (metis of_nat_less_iff of_nat_numeral of_nat_power)
  then have "int base - int SIZEOF_StackFrame < 2 ^ 64" by linarith
  ultimately have "(int base - int SIZEOF_StackFrame) mod 2 ^ 64 = int base - 184"
    by (simp only: mod_pos_pos_trivial of_nat_numeral)
  moreover have "nat (int base - 184) = base - 184" by simp
  ultimately have "nat ((int base - int SIZEOF_StackFrame) mod 2 ^ 64) = base - 184" by (simp only:)
  moreover have "base - 184 \<noteq> NULL" using assms(1) by auto
  ultimately show ?thesis by (simp only: fillStackFrame_def Let_def) simp
qed

lemma createThread_eq:
  assumes "allocate PAGE s = Some (t, s\<lparr>usedMap := m1\<rparr>)" and "t \<noteq> NULL"
    and "allocate STACK (s\<lparr>usedMap := m1\<rparr>) = Some (b, s\<lparr>usedMap := m2\<rparr>)"
    and "SIZEOF_StackFrame < b" and "b < 2 ^ 64"
  shows "createThread exec entry k s = Some (t, s\<lparr>usedMap := m2,
      frames := (frames s)(b - 184 := initialFrame exec entry (b - 184)),
      threads := (threads s)(t := (threads s t)\<lparr>entryPoint := entry, baseStack := b,
        userStack := b - 184, pthread := k, t_state := T_READY\<rparr>)\<rparr>)"
proof -
  have "allocate STACK (s\<lparr>usedMap := m1, threads := x\<rparr>) = Some (b, s\<lparr>usedMap := m2, threads := x\<rparr>)" for x
    using allocate_other [OF assms(3), of "s\<lparr>usedMap := m1, threads := x\<rparr>"] by simp
  with assms show ?thesis
    by (simp add: createThread_def fillStackFrame_eq)
qed

subsection \<open>Linking a thread into its process\<close>

definition threads_ok :: "'z sched_scheme \<Rightarrow> addr \<Rightarrow> addr list \<Rightarrow> bool" where
  \<comment> \<open>the threads of \<open>p\<close>: a ring of allocated nodes, numbered below \<open>currentPThread\<close> and counted\<close>
  "threads_ok s p ls \<longleftrightarrow> thread_ring s p ls
     \<and> (\<forall>l \<in> set ls. pthread (threads s (thread_at s l)) < currentPThread (procs s p))
     \<and> threadSize (procs s p) = int (length ls)
     \<and> set ls \<subseteq> owned_pages s \<and> thread_at s ` set ls \<subseteq> owned_pages s"

definition no_threads :: "'z sched_scheme \<Rightarrow> addr \<Rightarrow> bool" where
  "no_threads s p \<longleftrightarrow> currentThread (procs s p) = NULL \<and> threadSize (procs s p) = 0"

lemma linkThread_first:
  assumes "p \<noteq> NULL" and "node \<noteq> NULL" and "currentThread (procs s p) = NULL"
  shows "linkThread p node s = Some (s\<lparr>
    procs := (procs s)(p := (procs s p)\<lparr>threadLibrary := node, currentThread := node\<rparr>),
    libs := (libs s)(node := (libs s node)\<lparr>l_next := node\<rparr>)\<rparr>)"
  using assms by (simp add: linkThread_def)

lemma linkThread_more:
  assumes "p \<noteq> NULL" and "node \<noteq> NULL" and "currentThread (procs s p) \<noteq> NULL"
    and "threadLibrary (procs s p) = h" and "h \<noteq> NULL"
  shows "linkThread p node s = Some (s\<lparr>
    libs := (libs s)(node := (libs s node)\<lparr>l_next := l_next (libs s h)\<rparr>,
      h := (if h = node then (libs s h)\<lparr>l_next := node\<rparr> else (libs s h)\<lparr>l_next := node\<rparr>))\<rparr>)"
  using assms by (simp add: linkThread_def)

lemma thread_ring_first:
  assumes "l_next (libs s node) = node" and "threadLibrary (procs s p) = node"
    and "currentThread (procs s p) = node" and "node \<noteq> NULL" and "thread_at s node \<noteq> NULL"
  shows "thread_ring s p [node]"
  using assms by (simp add: thread_ring_def ring_single)

lemma thread_ring_insert:
  assumes r: "thread_ring s p (h # ls)"
    and fresh: "node \<notin> set (h # ls)" "node \<noteq> NULL" "t \<notin> thread_at s ` set (h # ls)" "t \<noteq> NULL"
    and num: "\<And>l. l \<in> set (h # ls) \<Longrightarrow> pthread (threads s (thread_at s l)) \<noteq> k"
    and nxt: "lnx s' = (lnx s)(node := lnx s h, h := node)"
    and thr: "\<And>l. l \<in> set (h # ls) \<Longrightarrow> thread_at s' l = thread_at s l" "thread_at s' node = t"
    and num': "\<And>a. a \<noteq> t \<Longrightarrow> threads s' a = threads s a" "pthread (threads s' t) = k"
    and proc: "threadLibrary (procs s' p) = threadLibrary (procs s p)"
      "currentThread (procs s' p) = currentThread (procs s p)"
  shows "thread_ring s' p (h # node # ls)"
proof -
  have ring: "ring (lnx s') (h # node # ls)"
    unfolding nxt using ring_insert [of "lnx s" h ls node] thread_ringD(1) [OF r] fresh by blast
  have pt: "pthread (threads s' (thread_at s' l)) = pthread (threads s (thread_at s l))"
    if "l \<in> set (h # ls)" for l
    using that thr num' fresh(3) by (metis image_eqI)
  note i = thread_ring_def [of s p "h # ls", THEN iffD1, OF r]
  have inj1: "inj_on (thread_at s') (insert node (set (h # ls)))"
  proof (rule inj_on_fresh)
    show "inj_on (thread_at s') (set (h # ls))" using i thr(1) by (blast intro: inj_on_eq)
    show "thread_at s' l \<noteq> thread_at s' node" if "l \<in> set (h # ls)" for l
      using that thr fresh(3) by (metis image_eqI)
  qed
  have inj2: "inj_on (\<lambda>l. pthread (threads s' (thread_at s' l))) (insert node (set (h # ls)))"
  proof (rule inj_on_fresh)
    show "inj_on (\<lambda>l. pthread (threads s' (thread_at s' l))) (set (h # ls))"
      using i pt by (blast intro: inj_on_eq)
    show "pthread (threads s' (thread_at s' l)) \<noteq> pthread (threads s' (thread_at s' node))"
      if "l \<in> set (h # ls)" for l using that pt num thr(2) num'(2) by simp
  qed
  have ins: "set (h # node # ls) = insert node (set (h # ls))" by auto
  have "thread_at s' l \<noteq> NULL" if "l \<in> insert node (set (h # ls))" for l
    using that thr fresh(4) thread_ringD(7) [OF r] by (cases "l = node") auto
  then have "NULL \<notin> thread_at s' ` insert node (set (h # ls))" by (metis imageE)
  then show ?thesis
    using ring inj1 inj2 proc i unfolding thread_ring_def ins by (metis list.sel(1) insertI2)
qed

definition with_thread :: "addr \<Rightarrow> addr \<Rightarrow> addr \<Rightarrow> addr \<Rightarrow> addr \<Rightarrow> addr \<Rightarrow> 32 word list \<Rightarrow>
    'z sched_scheme \<Rightarrow> 'z sched_scheme" where
  \<comment> \<open>the state after a thread \<open>t\<close> with stack \<open>b\<close> and library node \<open>n\<close> was added to \<open>p\<close>\<close>
  "with_thread p t b n exec entry m s =
     (let proc = procs s p; first = (currentThread proc = NULL); h = threadLibrary proc in
      s\<lparr>usedMap := m,
        frames := (frames s)(b - 184 := initialFrame exec entry (b - 184)),
        threads := (threads s)(t := (threads s t)\<lparr>entryPoint := entry, baseStack := b,
          userStack := b - 184, pthread := currentPThread proc, t_state := T_READY\<rparr>),
        libs := (if first then (libs s)(n := \<lparr>l_thread = t, l_next = n\<rparr>)
          else (libs s)(n := \<lparr>l_thread = t, l_next = l_next (libs s h)\<rparr>,
            h := (libs s h)\<lparr>l_next := n\<rparr>)),
        procs := (procs s)(p := proc\<lparr>
          threadLibrary := if first then n else h,
          currentThread := if first then n else currentThread proc,
          currentPThread := currentPThread proc + 1,
          threadSize := threadSize proc + 1\<rparr>)\<rparr>)"

lemma addThreadToProcess_eq:
  assumes "getProcessWithPid k s = Some p" and "p \<noteq> NULL"
    and "allocate PAGE s = Some (t, s\<lparr>usedMap := m1\<rparr>)" and "t \<noteq> NULL"
    and "allocate STACK (s\<lparr>usedMap := m1\<rparr>) = Some (b, s\<lparr>usedMap := m2\<rparr>)"
    and "SIZEOF_StackFrame < b" and "b < 2 ^ 64"
    and "allocate PAGE (s\<lparr>usedMap := m2\<rparr>) = Some (n, s\<lparr>usedMap := m3\<rparr>)" and "n \<noteq> NULL"
    and "currentThread (procs s p) \<noteq> NULL \<Longrightarrow> threadLibrary (procs s p) \<noteq> NULL
      \<and> threadLibrary (procs s p) \<noteq> n"
  shows "addThreadToProcess k exec entry s =
    Some (currentPThread (procs s p), with_thread p t b n exec entry m3 s)"
proof -
  let ?f = "(frames s)(b - 184 := initialFrame exec entry (b - 184))"
  let ?t = "(threads s)(t := (threads s t)\<lparr>entryPoint := entry, baseStack := b,
        userStack := b - 184, pthread := currentPThread (procs s p), t_state := T_READY\<rparr>)"
  have al: "allocate PAGE (s\<lparr>usedMap := m2, frames := ?f, threads := ?t\<rparr>) =
      Some (n, s\<lparr>usedMap := m3, frames := ?f, threads := ?t\<rparr>)"
    using allocate_other [OF assms(8), of "s\<lparr>usedMap := m2, frames := ?f, threads := ?t\<rparr>"] by simp
  note c = createThread_eq [OF assms(3,4,5,6,7)]
  show ?thesis
  proof (cases "currentThread (procs s p) = NULL")
    case True
    then show ?thesis using assms(1,2,4,9)
      by (simp add: addThreadToProcess_def c al linkThread_first with_thread_def Let_def)
  next
    case False
    then show ?thesis using assms(1,2,4,9,10)
      by (simp add: addThreadToProcess_def c al linkThread_def with_thread_def Let_def)
  qed
qed

lemma threads_okD:
  assumes "threads_ok s p ls"
  shows "thread_ring s p ls" and "threadSize (procs s p) = int (length ls)"
    and "l \<in> set ls \<Longrightarrow> pthread (threads s (thread_at s l)) < currentPThread (procs s p)"
    and "l \<in> set ls \<Longrightarrow> l \<in> owned_pages s" and "l \<in> set ls \<Longrightarrow> thread_at s l \<in> owned_pages s"
    and "currentThread (procs s p) \<noteq> NULL"
  using assms thread_ringD(4,6) [of s p ls] by (auto simp: threads_ok_def)

lemma npages_page [simp]: "npages PAGE = 1" "npages STACK = 256"
  by (simp_all add: npages_def ceil_div_def)

lemma sane_page [simp]: "sane_request PAGE" "sane_request STACK"
  by (simp_all add: sane_request_def)

lemma owned_pages_other:
  "initMem s' = initMem s \<Longrightarrow> usedMap s' = usedMap s \<Longrightarrow> blocksAmount s' = blocksAmount s \<Longrightarrow>
    owned_pages s' = owned_pages s"
  by (simp add: owned_pages_def used_pages_def page_addr_def)

lemma allocate_page_fresh:
  assumes "mm_inv s" and "allocate PAGE s = Some (p, t)" and "p \<noteq> NULL"
  shows "p \<notin> owned_pages s" and "owned_pages t = insert p (owned_pages s)" and "mm_inv t"
  using pages.alloc_fresh [OF assms(1) sane_page(1) assms(2,3)] span_one [OF npages_page(1)]
  by auto

lemma allocate_stack_fresh:
  assumes "mm_inv s" and "allocate STACK s = Some (p, t)" and "p \<noteq> NULL"
  shows "span p STACK \<inter> owned_pages s = {}" and "owned_pages t = owned_pages s \<union> span p STACK"
    and "mm_inv t"
  using pages.alloc_fresh [OF assms(1) sane_page(2) assms(2,3)] by auto

text \<open>The pages that a new thread takes, one after the other.\<close>

lemma thread_pages_fresh:
  assumes "mm_inv s"
    and "allocate PAGE s = Some (t, s\<lparr>usedMap := m1\<rparr>)" and "t \<noteq> NULL"
    and "allocate STACK (s\<lparr>usedMap := m1\<rparr>) = Some (b, s\<lparr>usedMap := m2\<rparr>)" and "b \<noteq> NULL"
    and "allocate PAGE (s\<lparr>usedMap := m2\<rparr>) = Some (n, s\<lparr>usedMap := m3\<rparr>)" and "n \<noteq> NULL"
  shows "t \<notin> owned_pages s" and "n \<notin> owned_pages s" and "mm_inv (s\<lparr>usedMap := m3\<rparr>)"
    and "owned_pages (s\<lparr>usedMap := m3\<rparr>) = owned_pages s \<union> {t, n} \<union> span b STACK"
    and "span b STACK \<inter> owned_pages s = {}"
proof -
  note f1 = allocate_page_fresh [OF assms(1,2,3)]
  note f2 = allocate_stack_fresh [OF f1(3) assms(4,5)]
  note f3 = allocate_page_fresh [OF f2(3) assms(6,7)]
  show "t \<notin> owned_pages s" "n \<notin> owned_pages s" "mm_inv (s\<lparr>usedMap := m3\<rparr>)"
    "span b STACK \<inter> owned_pages s = {}"
    "owned_pages (s\<lparr>usedMap := m3\<rparr>) = owned_pages s \<union> {t, n} \<union> span b STACK"
    using f1 f2 f3 by auto
qed

lemma with_thread_select [store_simps]:
  shows "initMem (with_thread p t b n exec entry m s) = initMem s"
    and "blocksAmount (with_thread p t b n exec entry m s) = blocksAmount s"
    and "usedMap (with_thread p t b n exec entry m s) = m"
    and "snodes (with_thread p t b n exec entry m s) = snodes s"
    and "currentProcess (with_thread p t b n exec entry m s) = currentProcess s"
    and "processQueue (with_thread p t b n exec entry m s) = processQueue s"
    and "queueSize (with_thread p t b n exec entry m s) = queueSize s"
    and "numberOfTicks (with_thread p t b n exec entry m s) = numberOfTicks s"
    and "pidCount (with_thread p t b n exec entry m s) = pidCount s"
    and "heaps (with_thread p t b n exec entry m s) = heaps s"
    and "names (with_thread p t b n exec entry m s) = names s"
    and "a \<noteq> p \<Longrightarrow> procs (with_thread p t b n exec entry m s) a = procs s a"
    and "a \<noteq> t \<Longrightarrow> threads (with_thread p t b n exec entry m s) a = threads s a"
    and "pid (procs (with_thread p t b n exec entry m s) a) = pid (procs s a)"
    and "p_state (procs (with_thread p t b n exec entry m s) a) = p_state (procs s a)"
    and "currentPThread (procs (with_thread p t b n exec entry m s) p) = currentPThread (procs s p) + 1"
    and "threadSize (procs (with_thread p t b n exec entry m s) p) = threadSize (procs s p) + 1"
    and "pthread (threads (with_thread p t b n exec entry m s) t) = currentPThread (procs s p)"
    and "t_state (threads (with_thread p t b n exec entry m s) t) = T_READY"
  by (simp_all add: with_thread_def Let_def)

lemma with_thread_ok:
  fixes b exec entry :: addr
  assumes "threads_ok s p ls \<or> no_threads s p \<and> ls = []"
    and own: "t \<notin> owned_pages s" "n \<notin> owned_pages s" "t \<noteq> NULL" "n \<noteq> NULL"
    and own': "owned_pages (s\<lparr>usedMap := m\<rparr>) = owned_pages s \<union> {t, n} \<union> S"
  defines "s' \<equiv> with_thread p t b n exec entry m s"
  shows "threads_ok s' p (if ls = [] then [n] else hd ls # n # tl ls)" and "thread_at s' n = t"
proof -
  have o: "owned_pages s' = owned_pages s \<union> {t, n} \<union> S"
    unfolding own' [symmetric] s'_def by (rule owned_pages_other) (simp_all add: store_simps)
  have "threadLibrary (procs s p) \<noteq> n" if "currentThread (procs s p) \<noteq> NULL"
    using assms(1)
  proof
    assume ok: "threads_ok s p ls"
    show ?thesis
      using thread_ringD(5) [OF threads_okD(1) [OF ok]] threads_okD(4) [OF ok] own(2) by metis
  qed (use that in \<open>simp add: no_threads_def\<close>)
  then show tn: "thread_at s' n = t"
    by (auto simp: s'_def with_thread_def Let_def)
  show "threads_ok s' p (if ls = [] then [n] else hd ls # n # tl ls)"
  proof (cases "ls = []")
    case True
    then have c: "currentThread (procs s p) = NULL" "threadSize (procs s p) = 0"
      using assms(1) by (auto simp: threads_ok_def thread_ring_def ring_def no_threads_def)
    then have "thread_ring s' p [n]"
      using own by (intro thread_ring_first) (simp_all add: s'_def with_thread_def Let_def)
    then show ?thesis
      using True c o tn by (simp add: threads_ok_def) (simp add: s'_def store_simps)
  next
    case False
    then have ok: "threads_ok s p ls" using assms(1) by auto
    then obtain h xs where ls: "ls = h # xs" using False by (cases ls) auto
    note d = threads_okD [OF ok] and r = thread_ringD [OF threads_okD(1) [OF ok]]
    have h: "threadLibrary (procs s p) = h" using r(3) ls by simp
    have nh: "n \<noteq> h" using own(2) d(4) ls by auto
    have lib: "libs s' = (libs s)(n := \<lparr>l_thread = t, l_next = l_next (libs s h)\<rparr>,
        h := (libs s h)\<lparr>l_next := n\<rparr>)"
      using d(6) h by (simp add: s'_def with_thread_def Let_def)
    have same: "thread_at s' l = thread_at s l" if "l \<in> set (h # xs)" for l
      using that lib own(2) d(4) ls by auto
    have "thread_ring s' p (h # n # xs)"
    proof (rule thread_ring_insert)
      show "thread_ring s p (h # xs)" using d(1) ls by simp
      show "n \<notin> set (h # xs)" "t \<notin> thread_at s ` set (h # xs)"
        using own(1,2) d(4,5) ls by (auto simp: image_iff)
      show "pthread (threads s (thread_at s l)) \<noteq> currentPThread (procs s p)" if "l \<in> set (h # xs)" for l
        using d(3) [of l] that ls by simp
      show "lnx s' = (lnx s)(n := lnx s h, h := n)" using lib nh by auto
      show "threadLibrary (procs s' p) = threadLibrary (procs s p)"
        "currentThread (procs s' p) = currentThread (procs s p)"
        using d(6) h by (simp_all add: s'_def with_thread_def Let_def)
      show "pthread (threads s' t) = currentPThread (procs s p)" by (simp add: s'_def store_simps)
      show "threads s' a = threads s a" if "a \<noteq> t" for a using that by (simp add: s'_def store_simps)
    qed (use own same tn in auto)
    moreover have "pthread (threads s' (thread_at s' l)) < currentPThread (procs s' p)"
      if "l \<in> set (h # n # xs)" for l
    proof (cases "l = n")
      case False
      then have "l \<in> set ls" using that ls by simp
      then have "thread_at s l \<noteq> t" using own(1) d(5) by auto
      with \<open>l \<in> set ls\<close> same ls d(3) [of l] show ?thesis by (simp add: s'_def store_simps)
    qed (simp add: tn, simp add: s'_def store_simps)
    ultimately show ?thesis
      using False ls d(2,4,5) o same tn unfolding threads_ok_def
      by (simp add: s'_def store_simps) (auto simp: image_iff)
  qed
qed

subsection \<open>Properties\<close>

text \<open>C11. Adding a thread to a process of the queue: while pages are left, the call returns the next
  thread number, the new ready thread becomes the only node of the process' ring or is linked
  right after its first node, its saved stack pointer points at the initial frame, the counters
  grow by one, and no other process changes.\<close>

theorem addThreadToProcess_links:
  assumes "proc_ring s qs" and "q \<in> set qs" and "mm_inv s"
    and "threads_ok s (proc_at s q) ls \<or> no_threads s (proc_at s q) \<and> ls = []"
    and "allocate PAGE s = Some (t, s1)" and "t \<noteq> NULL"
    and "allocate STACK s1 = Some (b, s2)" and "SIZEOF_StackFrame < b" and "b < 2 ^ 64"
    and "allocate PAGE s2 = Some (n, s3)" and "n \<noteq> NULL"
  shows "\<exists>s'. addThreadToProcess (pid (procs s (proc_at s q))) exec entry s =
      Some (currentPThread (procs s (proc_at s q)), s')
    \<and> threads_ok s' (proc_at s q) (if ls = [] then [n] else hd ls # n # tl ls)
    \<and> thread_at s' n = t \<and> t_state (threads s' t) = T_READY
    \<and> pthread (threads s' t) = currentPThread (procs s (proc_at s q))
    \<and> frames s' (userStack (threads s' t)) = initialFrame exec entry (userStack (threads s' t))
    \<and> proc_ring s' qs \<and> mm_inv s' \<and> (\<forall>a. a \<noteq> proc_at s q \<longrightarrow> procs s' a = procs s a)"
proof -
  let ?p = "proc_at s q"
  obtain m1 m2 m3 where m: "s1 = s\<lparr>usedMap := m1\<rparr>" "s2 = s\<lparr>usedMap := m2\<rparr>" "s3 = s\<lparr>usedMap := m3\<rparr>"
    using allocate_frame [OF assms(5)] allocate_frame [OF assms(7)] allocate_frame [OF assms(10)]
    by auto
  have b: "b \<noteq> NULL" using assms(8) by auto
  note al = assms(5,7,10) [unfolded m]
  note f = thread_pages_fresh [OF assms(3) al(1) assms(6) al(2) b al(3) assms(11)]
  let ?s' = "with_thread ?p t b n exec entry m3 s"
  have lib: "threadLibrary (procs s ?p) \<noteq> NULL \<and> threadLibrary (procs s ?p) \<noteq> n"
    if "currentThread (procs s ?p) \<noteq> NULL"
  proof -
    have ok: "threads_ok s ?p ls" using assms(4) that by (auto simp: no_threads_def)
    show ?thesis
      using thread_ringD(5,6) [OF threads_okD(1) [OF ok]] threads_okD(4) [OF ok] f(2) by metis
  qed
  have "getProcessWithPid (pid (procs s ?p)) s = Some ?p"
    using assms(1,2) by (rule getProcessWithPid_hit)
  then have run: "addThreadToProcess (pid (procs s ?p)) exec entry s =
      Some (currentPThread (procs s ?p), ?s')"
    using proc_ringD(7) [OF assms(1,2)] lib
    by (intro addThreadToProcess_eq [OF _ _ al(1) assms(6) al(2) assms(8,9) al(3) assms(11)])
  note ok = with_thread_ok [OF assms(4) f(1,2) assms(6,11) f(4)]
  have "proc_ring ?s' qs"
    using proc_ringD(4) [OF assms(1)]
    by (intro proc_ring_cong [OF assms(1)]) (simp_all add: store_simps)
  moreover have "mm_inv ?s'" using f(3) by (simp add: mm_inv_def store_simps)
  moreover have "frames ?s' (userStack (threads ?s' t)) = initialFrame exec entry (userStack (threads ?s' t))"
    by (simp add: with_thread_def Let_def)
  ultimately show ?thesis
    using run ok by (intro exI [of _ ?s']) (simp add: store_simps)
qed

lemma one_process_pages:
  "\<exists>m1 m2 m3. allocate PAGE one_process = Some (0x1002000, one_process\<lparr>usedMap := m1\<rparr>)
    \<and> allocate STACK (one_process\<lparr>usedMap := m1\<rparr>) = Some (0x1003000, one_process\<lparr>usedMap := m2\<rparr>)
    \<and> allocate PAGE (one_process\<lparr>usedMap := m2\<rparr>) = Some (0x1103000, one_process\<lparr>usedMap := m3\<rparr>)"
proof -
  have b: "nat (blocksAmount one_process) = 28671" "initMem one_process = 0x1000000"
    by (simp_all add: one_process_def blank_sched_def)
  obtain m1 where m1: "allocate PAGE one_process = Some (page_addr one_process 2, one_process\<lparr>usedMap := m1\<rparr>)"
      "prefix_used (one_process\<lparr>usedMap := m1\<rparr>) 3"
    using allocate_prefix [OF one_process_prefix sane_page(1)] b by auto
  obtain m2 where m2: "allocate STACK (one_process\<lparr>usedMap := m1\<rparr>) =
        Some (page_addr one_process 3, one_process\<lparr>usedMap := m2\<rparr>)"
      "prefix_used (one_process\<lparr>usedMap := m2\<rparr>) 259"
    using allocate_prefix [OF m1(2) sane_page(2)] b by auto
  obtain m3 where m3: "allocate PAGE (one_process\<lparr>usedMap := m2\<rparr>) =
        Some (page_addr one_process 259, one_process\<lparr>usedMap := m3\<rparr>)"
    using allocate_prefix [OF m2(2) sane_page(1)] b by auto
  have "page_addr one_process 2 = 0x1002000" "page_addr one_process 3 = 0x1003000"
    "page_addr one_process 259 = 0x1103000"
    by (simp_all add: page_addr_def b)
  with m1 m2 m3 show ?thesis by metis
qed

theorem addThreadToProcess_links_witness:
  "\<exists>s'. addThreadToProcess 0 0x400000 0x500000 one_process = Some (0, s')
    \<and> threads_ok s' 0x1001000 [0x1103000] \<and> thread_at s' 0x1103000 = 0x1002000
    \<and> proc_ring s' [0x1000000]"
proof -
  obtain m1 m2 m3 where m: "allocate PAGE one_process = Some (0x1002000, one_process\<lparr>usedMap := m1\<rparr>)"
    "allocate STACK (one_process\<lparr>usedMap := m1\<rparr>) = Some (0x1003000, one_process\<lparr>usedMap := m2\<rparr>)"
    "allocate PAGE (one_process\<lparr>usedMap := m2\<rparr>) = Some (0x1103000, one_process\<lparr>usedMap := m3\<rparr>)"
    using one_process_pages by blast
  have p: "proc_at one_process 0x1000000 = 0x1001000" "procs one_process 0x1001000 = zero_proc"
    by (simp_all add: one_process_def)
  have n: "no_threads one_process 0x1001000" by (simp add: no_threads_def p zero_proc_def)
  have inv: "mm_inv one_process" using one_process_prefix by (simp add: prefix_used_def)
  show ?thesis
    using addThreadToProcess_links [OF one_process_ring _ inv _ m(1) _ m(2) _ _ m(3),
        of "0x1000000" "[]" "0x400000" "0x500000"] n
    by (auto simp: p zero_proc_def)
qed

text \<open>C14. The stack of a new thread starts below the block allocated for it: on a region whose used
  pages are a prefix, the initial stack pointer lies in the page of the thread's own structure,
  the last bytes of which the initial frame overwrites; none of the 256 pages of the block is
  ever pushed to.\<close>

theorem new_stack_overlaps_thread_page:
  assumes "prefix_used s k" and "k + 257 \<le> nat (blocksAmount s)"
    and "page_addr s (k + 257) < 2 ^ 64"
  shows "\<exists>t s'. createThread exec entry i s = Some (t, s') \<and> t = page_addr s k
    \<and> baseStack (threads s' t) = page_addr s (k + 1)
    \<and> t < userStack (threads s' t) \<and> userStack (threads s' t) + SIZEOF_StackFrame = t + 4096
    \<and> userStack (threads s' t) + SIZEOF_StackFrame = baseStack (threads s' t)"
proof -
  obtain m1 where m1: "allocate PAGE s = Some (page_addr s k, s\<lparr>usedMap := m1\<rparr>)"
      "prefix_used (s\<lparr>usedMap := m1\<rparr>) (k + 1)"
    using allocate_prefix [OF assms(1) sane_page(1)] assms(2) by auto
  obtain m2 where m2: "allocate STACK (s\<lparr>usedMap := m1\<rparr>) = Some (page_addr s (k + 1), s\<lparr>usedMap := m2\<rparr>)"
    using allocate_prefix [OF m1(2) sane_page(2)] assms(2) by auto
  have "0 < initMem s" using assms(1) by (simp add: prefix_used_def mm_inv_def)
  then have a: "page_addr s k \<noteq> NULL" "SIZEOF_StackFrame < page_addr s (k + 1)"
      "page_addr s (k + 1) = page_addr s k + 4096" by (simp_all add: page_addr_def)
  have "page_addr s (k + 1) < 2 ^ 64" using assms(3) by (simp add: page_addr_def)
  note c = createThread_eq [OF m1(1) a(1) m2 a(2) this, of exec entry i]
  show ?thesis unfolding c using a(3) by simp
qed

theorem new_stack_overlaps_thread_page_witness:
  "\<exists>t s'. createThread 0x400000 0x500000 0 one_process = Some (t, s') \<and> t = 0x1002000
    \<and> baseStack (threads s' t) = 0x1003000 \<and> userStack (threads s' t) = 0x1002F48"
  using new_stack_overlaps_thread_page [OF one_process_prefix, of "0x400000" "0x500000" 0]
  by (auto simp: page_addr_def one_process_def blank_sched_def)

end
