(* ===== verification/Process.thy ===== *)
theory Process
  imports Threads
begin

section \<open>Processes and their heaps (\<open>process.c\<close>)\<close>

text \<open>
  Creating and freeing process structures, and the list of heap blocks that \<open>pmalloc\<close> and
  \<open>pfree\<close> keep for the current process.  \<open>copyName\<close> is the copying loop of
  \<open>createProcessName\<close>; a name is the contents of the buffer it is read from, and reading past
  that buffer is \<open>None\<close>.  \<open>printProcessInfo\<close> is in the theory of the process listing.
\<close>

subsection \<open>Definitions\<close>

text \<open>\<open>for (i = 0; name[i] != 0 && i < NAME_LENGTH-1; i++) \<dots>; (process->name)[i] = 0;\<close>\<close>

function copyName :: "byte list \<Rightarrow> nat \<Rightarrow> byte list option" where
  "copyName name i =
     (if i < length name then
        if name ! i \<noteq> 0 \<and> i < NAME_LENGTH - 1
        then do { rest \<leftarrow> copyName name (i + 1); Some (name ! i # rest) }
        else Some [0]
      else None)"
  by pat_completeness auto
termination
  by (relation "measure (\<lambda>(name, i). length name - i)") auto

declare copyName.simps [simp del]

definition createProcessName :: "addr \<Rightarrow> byte list \<Rightarrow> 'z sched_scheme \<Rightarrow> 'z sched_scheme option" where
  "createProcessName process name s = do {
     (buf, s) \<leftarrow> allocate (of_nat NAME_LENGTH) s;
     s \<leftarrow> set_proc process (\<lambda>p. p\<lparr>p_name := buf\<rparr>) s;
     bytes \<leftarrow> copyName name 0;
     chk buf;
     Some (s\<lparr>names := (names s)(buf := bytes)\<rparr>) }"

definition createProcess ::
  "byte list \<Rightarrow> int \<Rightarrow> 'z sched_scheme \<Rightarrow> (addr \<times> 'z sched_scheme) option" where
  "createProcess name parent s = do {
     (process, s) \<leftarrow> allocate PAGE s;
     s \<leftarrow> set_proc process (\<lambda>p. p\<lparr>pid := pidCount s\<rparr>) s;
     let s = s\<lparr>pidCount := pidCount s + 1\<rparr>;
     s \<leftarrow> set_proc process (\<lambda>p. p\<lparr>ppid := parent\<rparr>) s;
     s \<leftarrow> set_proc process (\<lambda>p. p\<lparr>currentPThread := 0\<rparr>) s;
     s \<leftarrow> set_proc process (\<lambda>p. p\<lparr>threadSize := 0\<rparr>) s;
     s \<leftarrow> set_proc process (\<lambda>p. p\<lparr>p_state := READY\<rparr>) s;
     s \<leftarrow> createProcessName process name s;
     s \<leftarrow> set_proc process (\<lambda>p. p\<lparr>p_heap := NULL\<rparr>) s;
     Some (process, s) }"

definition newHeapNode :: "addr \<Rightarrow> int \<Rightarrow> 'z sched_scheme \<Rightarrow> (addr \<times> 'z sched_scheme) option" where
  \<comment> \<open>the first branch of \<open>addHeap\<close>; \<open>next\<close> is not set\<close>
  "newHeapNode mem nBytes s = do {
     (node, s) \<leftarrow> allocate SIZEOF_heapNode s;
     s \<leftarrow> set_heap node (\<lambda>h. h\<lparr>hp_address := mem\<rparr>) s;
     s \<leftarrow> set_heap node (\<lambda>h. h\<lparr>hp_size := nBytes\<rparr>) s;
     Some (node, s) }"

definition set_heap_next :: "'z sched_scheme \<Rightarrow> addr \<Rightarrow> addr \<Rightarrow> 'z sched_scheme" where
  "set_heap_next s a v = s\<lparr>heaps := (heaps s)(a := (heaps s a)\<lparr>hp_next := v\<rparr>)\<rparr>"

partial_function (option) addHeap ::
  "addr \<Rightarrow> int \<Rightarrow> addr \<Rightarrow> 'z sched_scheme \<Rightarrow> (addr \<times> 'z sched_scheme) option" where
  "addHeap mem nBytes node s =
     (if node = NULL then newHeapNode mem nBytes s
      else do {
        (r, s) \<leftarrow> addHeap mem nBytes (hp_next (heaps s node)) s;
        Some (node, set_heap_next s node r) })"

definition pmalloc :: "int \<Rightarrow> 'z sched_scheme \<Rightarrow> (addr \<times> 'z sched_scheme) option" where
  "pmalloc nBytes s = do {
     (mem, s) \<leftarrow> allocate (u64 nBytes) s;
     k \<leftarrow> getCurrentPid s;
     current \<leftarrow> getProcessWithPid k s;
     proc \<leftarrow> get_proc s current;
     (h, s) \<leftarrow> addHeap mem nBytes (p_heap proc) s;
     s \<leftarrow> set_proc current (\<lambda>p. p\<lparr>p_heap := h\<rparr>) s;
     Some (mem, s) }"

definition freeBlock :: "'z sched_scheme \<Rightarrow> addr \<Rightarrow> 'z sched_scheme option" where
  \<comment> \<open>\<open>deallocate(node->address, node->size); deallocate(node, sizeof(heapNode));\<close>\<close>
  "freeBlock s node = do {
     (_, s) \<leftarrow> deallocate (hp_address (heaps s node)) (u64 (hp_size (heaps s node))) s;
     (_, s) \<leftarrow> deallocate node SIZEOF_heapNode s;
     Some s }"

partial_function (option) pfreeR ::
  "addr \<Rightarrow> addr \<Rightarrow> 'z sched_scheme \<Rightarrow> (addr \<times> 'z sched_scheme) option" where
  "pfreeR mem node s =
     (if node = NULL then Some (NULL, s)
      else if hp_address (heaps s node) = mem then do {
        t \<leftarrow> freeBlock s node;
        Some (hp_next (heaps s node), t) }
      else do {
        (r, s) \<leftarrow> pfreeR mem (hp_next (heaps s node)) s;
        Some (node, set_heap_next s node r) })"

definition pfree :: "addr \<Rightarrow> 'z sched_scheme \<Rightarrow> 'z sched_scheme option" where
  "pfree mem s = do {
     k \<leftarrow> getCurrentPid s;
     current \<leftarrow> getProcessWithPid k s;
     proc \<leftarrow> get_proc s current;
     (h, s) \<leftarrow> pfreeR mem (p_heap proc) s;
     set_proc current (\<lambda>p. p\<lparr>p_heap := h\<rparr>) s }"

partial_function (option) freeHeap :: "addr \<Rightarrow> 'z sched_scheme \<Rightarrow> 'z sched_scheme option" where
  "freeHeap node s =
     (if node = NULL then Some s
      else do {
        t \<leftarrow> freeBlock s node;
        freeHeap (hp_next (heaps s node)) t })"

definition freeProcess :: "uninit \<Rightarrow> addr \<Rightarrow> 'z sched_scheme \<Rightarrow> 'z sched_scheme option" where
  "freeProcess u process s = do {
     proc \<leftarrow> get_proc s process;
     s \<leftarrow> freeThreadLibrary u (threadLibrary proc) (threadSize proc) s;
     proc \<leftarrow> get_proc s process;
     s \<leftarrow> freeHeap (p_heap proc) s;
     (_, s) \<leftarrow> deallocate process PAGE s;
     Some s }"

subsection \<open>Names\<close>

lemma copyName_cstr:
  assumes "0 \<notin> set cs" and "i \<le> length cs"
  shows "copyName (cs @ 0 # rest) i = Some (take (NAME_LENGTH - 1 - i) (drop i cs) @ [0])"
  using assms
proof (induction "length cs - i" arbitrary: i)
  case 0
  then have "i = length cs" by simp
  then show ?case by (subst copyName.simps) simp
next
  case (Suc d)
  then have i: "i < length cs" by simp
  have nz: "cs ! i \<noteq> 0" using Suc.prems(1) i by (metis nth_mem)
  have at: "(cs @ 0 # rest) ! i = cs ! i" using i by (simp add: nth_append)
  show ?case
  proof (cases "i < NAME_LENGTH - 1")
    case True
    then have k: "NAME_LENGTH - 1 - i = Suc (NAME_LENGTH - 1 - Suc i)" by simp
    have "copyName (cs @ 0 # rest) (Suc i) = Some (take (NAME_LENGTH - 1 - Suc i) (drop (Suc i) cs) @ [0])"
      using Suc i by (intro Suc.hyps(1)) auto
    then have step: "copyName (cs @ 0 # rest) i =
        Some (cs ! i # take (NAME_LENGTH - 1 - Suc i) (drop (Suc i) cs) @ [0])"
      using i at nz True by (subst copyName.simps) simp
    have "cs ! i # take (NAME_LENGTH - 1 - Suc i) (drop (Suc i) cs) =
        take (NAME_LENGTH - 1 - i) (drop i cs)"
      unfolding k using i by (metis Cons_nth_drop_Suc take_Suc_Cons)
    with step show ?thesis by (simp only: append_Cons [symmetric])
  next
    case False
    then show ?thesis using i at by (subst copyName.simps) simp
  qed
qed

lemma copyName_eq: "0 \<notin> set cs \<Longrightarrow> copyName (cs @ 0 # rest) 0 = Some (take 49 cs @ [0])"
  using copyName_cstr [of cs 0 rest] by simp

subsection \<open>The heap list\<close>

abbreviation hnx :: "'z sched_scheme \<Rightarrow> addr \<Rightarrow> addr" where
  "hnx s \<equiv> \<lambda>a. hp_next (heaps s a)"

definition heap_blocks :: "'z sched_scheme \<Rightarrow> addr list \<Rightarrow> (addr \<times> int) list" where
  "heap_blocks s hs = map (\<lambda>h. (hp_address (heaps s h), hp_size (heaps s h))) hs"

definition heap_list :: "'z sched_scheme \<Rightarrow> addr \<Rightarrow> addr list \<Rightarrow> bool" where
  "heap_list s p hs \<longleftrightarrow> chain (hnx s) (p_heap (procs s p)) hs NULL"

lemma hnx_set: "hnx (set_heap_next s a v) = (hnx s)(a := v)"
  by (auto simp: set_heap_next_def)

lemma set_heap_next_same: "set_heap_next s a (hnx s a) = s"
proof -
  have "(heaps s)(a := (heaps s a)\<lparr>hp_next := hp_next (heaps s a)\<rparr>) = heaps s" by auto
  then show ?thesis by (simp add: set_heap_next_def)
qed

lemma freeBlock_frame: "freeBlock s a = Some t \<Longrightarrow> \<exists>m. t = s\<lparr>usedMap := m\<rparr>"
  unfolding freeBlock_def by (auto split: bind_splits dest!: deallocate_frame)

interpretation heap_append: chain_append_op hnx set_heap_next "\<lambda>s prev. newHeapNode mem n s"
  "\<lambda>s prev p. addHeap mem n p s" for mem :: addr and n :: int
  by unfold_locales
    (simp_all add: hnx_set set_heap_next_same addHeap.simps [of mem n 0] addHeap.simps [of mem n p for p])

interpretation heap_remove: chain_remove_op hnx set_heap_next
  "\<lambda>s k p. hp_address (heaps s p) = k" freeBlock "\<lambda>s k p. pfreeR k p s"
proof
  show "hnx (set_heap_next s a v) = (hnx s)(a := v)" for s :: "'z sched_scheme" and a v
    by (rule hnx_set)
  show "set_heap_next s a (hnx s a) = s" for s :: "'z sched_scheme" and a
    by (rule set_heap_next_same)
  show "hnx t = hnx s" if "freeBlock s a = Some t" for s t :: "'z sched_scheme" and a
    using freeBlock_frame [OF that] by auto
qed (simp_all add: pfreeR.simps [of k 0 for k] pfreeR.simps [of k p for k p])

lemma newHeapNode_eq:
  assumes "allocate SIZEOF_heapNode s = Some (h, s\<lparr>usedMap := m\<rparr>)" and "h \<noteq> NULL"
  shows "newHeapNode mem n s = Some (h, s\<lparr>usedMap := m,
    heaps := (heaps s)(h := (heaps s h)\<lparr>hp_address := mem, hp_size := n\<rparr>)\<rparr>)"
  using assms by (simp add: newHeapNode_def)

lemma addHeap_eq:
  fixes mem :: addr and n :: int
  assumes "chain (hnx s) p hs NULL" and "h \<notin> set hs"
    and "allocate SIZEOF_heapNode s = Some (h, s\<lparr>usedMap := m\<rparr>)" and "h \<noteq> NULL"
  defines "t \<equiv> s\<lparr>usedMap := m,
    heaps := (heaps s)(h := (heaps s h)\<lparr>hp_address := mem, hp_size := n\<rparr>)\<rparr>"
  shows "addHeap mem n p s =
    Some (if hs = [] then h else p, if hs = [] then t else set_heap_next t (last hs) h)"
proof (rule heap_append.add_chain [OF assms(1)])
  show "newHeapNode mem n s = Some (h, t)" unfolding t_def using assms(3,4) by (rule newHeapNode_eq)
  show "hnx t a = hnx s a" if "a \<in> set hs" for a using that assms(2) by (auto simp: t_def)
qed

lemma npages_heapNode [simp]: "npages SIZEOF_heapNode = 1"
  and sane_heapNode [simp]: "sane_request SIZEOF_heapNode"
  by (simp_all add: npages_def ceil_div_def sane_request_def)

lemma allocate_one_fresh:
  assumes "mm_inv s" and "npages r = 1" and "sane_request r" and "allocate r s = Some (p, t)" and "p \<noteq> NULL"
  shows "p \<notin> owned_pages s" and "owned_pages t = insert p (owned_pages s)" and "mm_inv t"
  using pages.alloc_fresh [OF assms(1,3,4,5)] span_one [OF assms(2)] by auto

lemma current_lookup:
  assumes "proc_ring s qs"
  shows "getCurrentPid s = Some (pid (procs s (proc_at s (currentProcess s))))"
    and "getProcessWithPid (pid (procs s (proc_at s (currentProcess s)))) s =
      Some (proc_at s (currentProcess s))"
  using getCurrentPid_ring [OF assms] getProcessWithPid_hit [OF assms proc_ringD(4) [OF assms]]
  by simp_all

lemma freeBlock_eq:
  assumes "mm_inv s" and "sane_request (u64 (hp_size (heaps s a)))"
    and "span (hp_address (heaps s a)) (u64 (hp_size (heaps s a))) \<subseteq> owned_pages s"
    and "a \<in> owned_pages s" and "a \<notin> span (hp_address (heaps s a)) (u64 (hp_size (heaps s a)))"
  shows "\<exists>m. freeBlock s a = Some (s\<lparr>usedMap := m\<rparr>) \<and> mm_inv (s\<lparr>usedMap := m\<rparr>)
    \<and> owned_pages (s\<lparr>usedMap := m\<rparr>) =
      owned_pages s - span (hp_address (heaps s a)) (u64 (hp_size (heaps s a))) - {a}"
proof -
  let ?b = "hp_address (heaps s a)" and ?z = "u64 (hp_size (heaps s a))"
  obtain t where t: "deallocate ?b ?z s = Some (1, t)" "mm_inv t" "owned_pages t = owned_pages s - span ?b ?z"
    using deallocate_contract [OF assms(1,2,3)] by blast
  have "span a SIZEOF_heapNode \<subseteq> owned_pages t" using t(3) assms(4,5) by (simp add: span_one)
  then obtain v where v: "deallocate a SIZEOF_heapNode t = Some (1, v)" "mm_inv v"
      "owned_pages v = owned_pages t - {a}"
    using deallocate_contract [OF t(2) sane_heapNode] by (auto simp: span_one)
  obtain m m' where m: "t = s\<lparr>usedMap := m\<rparr>" "v = t\<lparr>usedMap := m'\<rparr>"
    using deallocate_frame [OF t(1)] deallocate_frame [OF v(1)] by blast
  then show ?thesis using t v by (intro exI [of _ m']) (simp add: freeBlock_def)
qed

lemma pmalloc_appends:
  assumes "proc_ring s qs" and "mm_inv s" and "heap_list s (proc_at s (currentProcess s)) hs"
    and "set hs \<subseteq> owned_pages s" and "sane_request (u64 n)"
    and "allocate (u64 n) s = Some (mem, s1)"
    and "allocate SIZEOF_heapNode s1 = Some (h, s2)" and "h \<noteq> NULL" and "hp_next (heaps s h) = NULL"
  shows "\<exists>s'. pmalloc n s = Some (mem, s')
    \<and> heap_list s' (proc_at s' (currentProcess s')) (hs @ [h])
    \<and> heap_blocks s' (hs @ [h]) = heap_blocks s hs @ [(mem, n)]
    \<and> (\<exists>m. s2 = s\<lparr>usedMap := m\<rparr> \<and> usedMap s' = m \<and> initMem s' = initMem s
      \<and> blocksAmount s' = blocksAmount s)
    \<and> proc_ring s' qs \<and> currentProcess s' = currentProcess s \<and> snodes s' = snodes s
    \<and> (\<forall>a \<in> set hs. hp_address (heaps s' a) = hp_address (heaps s a))
    \<and> hp_address (heaps s' h) = mem \<and> hp_size (heaps s' h) = n
    \<and> (\<forall>a. a \<noteq> proc_at s (currentProcess s) \<longrightarrow> procs s' a = procs s a)"
proof -
  let ?p = "proc_at s (currentProcess s)"
  obtain m1 m2 where m: "s1 = s\<lparr>usedMap := m1\<rparr>" "s2 = s\<lparr>usedMap := m2\<rparr>"
    using allocate_frame [OF assms(6)] allocate_frame [OF assms(7)] by auto
  have "mm_inv s1 \<and> owned_pages s \<subseteq> owned_pages s1"
    using allocate_contract [OF assms(2,5)] assms(6) by auto
  then have "h \<notin> set hs"
    using allocate_one_fresh [OF _ npages_heapNode sane_heapNode assms(7,8)] assms(4) by auto
  define t where "t = s\<lparr>usedMap := m2,
    heaps := (heaps s)(h := (heaps s h)\<lparr>hp_address := mem, hp_size := n\<rparr>)\<rparr>"
  define p' where "p' = (if hs = [] then h else p_heap (procs s ?p))"
  define t' where "t' = (if hs = [] then t else set_heap_next t (last hs) h)"
  define s' where "s' = t'\<lparr>procs := (procs s)(?p := (procs s ?p)\<lparr>p_heap := p'\<rparr>)\<rparr>"
  have ch: "chain (hnx s) (p_heap (procs s ?p)) hs NULL" using assms(3) by (simp add: heap_list_def)
  have add: "addHeap mem n (p_heap (procs s ?p)) (s\<lparr>usedMap := m1\<rparr>) = Some (p', t')"
    using addHeap_eq [of "s\<lparr>usedMap := m1\<rparr>" _ hs h m2 mem n] ch \<open>h \<notin> set hs\<close> assms(7,8)
    by (simp add: m p'_def t'_def t_def)
  have r1: "proc_ring (s\<lparr>usedMap := m1\<rparr>) qs"
    using proc_ringD(4) [OF assms(1)] by (intro proc_ring_cong [OF assms(1)]) simp_all
  have p0: "?p \<noteq> NULL" using proc_ringD(4,7) [OF assms(1)] by blast
  have pr: "procs t' = procs s" by (simp add: t'_def t_def set_heap_next_def)
  have run: "pmalloc n s = Some (mem, s')"
    using assms(6) m current_lookup [OF r1] p0 add pr by (simp add: pmalloc_def s'_def)
  have c: "chain (hnx t) (p_heap (procs s ?p)) hs NULL"
    using ch \<open>h \<notin> set hs\<close> by (subst chain_cong [of hs "hnx t" "hnx s"]) (auto simp: t_def)
  have nh: "hnx t h = NULL" using assms(9) by (simp add: t_def)
  have cur: "currentProcess s' = currentProcess s" "snodes s' = snodes s"
    "processQueue s' = processQueue s"
    by (simp_all add: s'_def t'_def t_def set_heap_next_def)
  have "chain (hnx s') p' (hs @ [h]) NULL"
  proof (cases "hs = []")
    case True
    then show ?thesis using nh assms(8) by (simp add: s'_def p'_def t'_def)
  next
    case False
    have "hnx s' = (hnx t)(last hs := h)" using False by (auto simp: s'_def t'_def set_heap_next_def)
    with False chain_extend [OF c False \<open>h \<notin> set hs\<close> assms(8) nh] show ?thesis by (simp add: p'_def)
  qed
  moreover have "p_heap (procs s' ?p) = p'" by (simp add: s'_def)
  ultimately have hl: "heap_list s' (proc_at s' (currentProcess s')) (hs @ [h])"
    by (simp add: heap_list_def cur)
  have blocks: "heap_blocks s' (hs @ [h]) = heap_blocks s hs @ [(mem, n)]"
    using \<open>h \<notin> set hs\<close> by (auto simp: heap_blocks_def s'_def t'_def t_def set_heap_next_def)
  have ring: "proc_ring s' qs"
    using proc_ringD(4) [OF assms(1)] cur
    by (intro proc_ring_cong [OF assms(1)]) (simp_all add: s'_def)
  have addr: "\<forall>a \<in> set hs. hp_address (heaps s' a) = hp_address (heaps s a)"
    using \<open>h \<notin> set hs\<close> by (auto simp: s'_def t'_def t_def set_heap_next_def)
  have new: "hp_address (heaps s' h) = mem" "hp_size (heaps s' h) = n"
    by (simp_all add: s'_def t'_def t_def set_heap_next_def)
  have map: "\<exists>m. s2 = s\<lparr>usedMap := m\<rparr> \<and> usedMap s' = m \<and> initMem s' = initMem s
      \<and> blocksAmount s' = blocksAmount s"
    unfolding m by (intro exI [of _ m2]) (simp add: s'_def t'_def t_def set_heap_next_def)
  have others: "\<forall>a. a \<noteq> ?p \<longrightarrow> procs s' a = procs s a" by (simp add: s'_def)
  show ?thesis
    by (intro exI [of _ s'] conjI) (fact run hl blocks map ring cur(1,2) addr new others)+
qed

lemma pfree_removes:
  assumes "proc_ring s qs" and "heap_list s (proc_at s (currentProcess s)) (xs @ a # ys)"
    and "\<And>x. x \<in> set xs \<Longrightarrow> hp_address (heaps s x) \<noteq> mem" and "hp_address (heaps s a) = mem"
    and "freeBlock s a = Some (s\<lparr>usedMap := m\<rparr>)"
  shows "\<exists>s'. pfree mem s = Some s' \<and> heap_list s' (proc_at s' (currentProcess s')) (xs @ ys)
    \<and> heap_blocks s' (xs @ ys) = heap_blocks s (xs @ ys)
    \<and> usedMap s' = m \<and> initMem s' = initMem s \<and> blocksAmount s' = blocksAmount s \<and> proc_ring s' qs
    \<and> (\<forall>b. b \<noteq> proc_at s (currentProcess s) \<longrightarrow> procs s' b = procs s b)"
proof -
  let ?p = "proc_at s (currentProcess s)"
  have ch: "chain (hnx s) (p_heap (procs s ?p)) (xs @ a # ys) NULL" using assms(2) by (simp add: heap_list_def)
  let ?t = "s\<lparr>usedMap := m\<rparr>"
  define h where "h = (if xs = [] then hnx s a else p_heap (procs s ?p))"
  define t where "t = (if xs = [] then ?t else set_heap_next ?t (last xs) (hnx s a))"
  have rem: "pfreeR mem (p_heap (procs s ?p)) s = Some (h, t)"
    using heap_remove.remove_present [OF ch, of mem ?t] assms(3,4,5) by (simp add: h_def t_def)
  define s' where "s' = t\<lparr>procs := (procs s)(?p := (procs s ?p)\<lparr>p_heap := h\<rparr>)\<rparr>"
  have p0: "?p \<noteq> NULL" using proc_ringD(4,7) [OF assms(1)] by blast
  have pr: "procs t = procs s" by (simp add: t_def set_heap_next_def)
  have run: "pfree mem s = Some s'"
    using current_lookup [OF assms(1)] p0 rem pr by (simp add: pfree_def s'_def)
  have cur: "currentProcess s' = currentProcess s" "snodes s' = snodes s" "processQueue s' = processQueue s"
    by (simp_all add: s'_def t_def set_heap_next_def)
  have "hnx s' = (if xs = [] then hnx s else (hnx s)(last xs := hnx s a))"
    by (auto simp: s'_def t_def set_heap_next_def)
  then have "heap_list s' ?p (xs @ ys)"
    using chain_unlink [OF ch] by (simp add: heap_list_def s'_def h_def)
  moreover have "heap_blocks s' (xs @ ys) = heap_blocks s (xs @ ys)"
    by (auto simp: heap_blocks_def s'_def t_def set_heap_next_def)
  moreover have "proc_ring s' qs"
    using proc_ringD(4) [OF assms(1)] cur by (intro proc_ring_cong [OF assms(1)]) (simp_all add: s'_def)
  ultimately show ?thesis
    using run cur by (intro exI [of _ s']) (simp, simp add: s'_def t_def set_heap_next_def)
qed

lemma pfree_unknown:
  assumes "proc_ring s qs" and "heap_list s (proc_at s (currentProcess s)) hs"
    and "\<And>x. x \<in> set hs \<Longrightarrow> hp_address (heaps s x) \<noteq> mem"
  shows "pfree mem s = Some s"
proof -
  let ?p = "proc_at s (currentProcess s)"
  have "pfreeR mem (p_heap (procs s ?p)) s = Some (p_heap (procs s ?p), s)"
    using assms(2,3) by (intro heap_remove.remove_absent) (simp_all add: heap_list_def)
  moreover have "?p \<noteq> NULL" using proc_ringD(4,7) [OF assms(1)] by blast
  ultimately show ?thesis
    using current_lookup [OF assms(1)] by (simp add: pfree_def)
qed

subsection \<open>Properties\<close>

text \<open>C10. \<open>pmalloc\<close> records the new block at the end of the heap list of the current process, and
  \<open>pfree\<close> of that block takes exactly it out again and gives its pages and the page of its list
  node back: the list, its blocks and the allocated pages are what they were.  This holds for a
  request of 1 byte to 4 TiB for which there are pages, and only if the page of the new list node
  happens to hold a \<open>NULL\<close> link, which \<open>addHeap\<close> does not write: in a recycled page the list would
  go on with the link that was left there.\<close>

theorem pmalloc_pfree_roundtrip:
  assumes "proc_ring s qs" and "mm_inv s" and "heap_list s (proc_at s (currentProcess s)) hs"
    and "set hs \<subseteq> owned_pages s" and "\<And>a. a \<in> set hs \<Longrightarrow> hp_address (heaps s a) \<in> owned_pages s"
    and "sane_request (u64 n)" and "allocate (u64 n) s = Some (mem, s1)" and "mem \<noteq> NULL"
    and "allocate SIZEOF_heapNode s1 = Some (h, s2)" and "h \<noteq> NULL" and "hp_next (heaps s h) = NULL"
  shows "\<exists>t u. pmalloc n s = Some (mem, t)
    \<and> heap_list t (proc_at t (currentProcess t)) (hs @ [h])
    \<and> heap_blocks t (hs @ [h]) = heap_blocks s hs @ [(mem, n)]
    \<and> pfree mem t = Some u
    \<and> heap_list u (proc_at u (currentProcess u)) hs \<and> heap_blocks u hs = heap_blocks s hs
    \<and> owned_pages u = owned_pages s"
proof -
  obtain t m where t: "pmalloc n s = Some (mem, t)"
      "heap_list t (proc_at t (currentProcess t)) (hs @ [h])"
      "heap_blocks t (hs @ [h]) = heap_blocks s hs @ [(mem, n)]" "proc_ring t qs"
      "s2 = s\<lparr>usedMap := m\<rparr>" "usedMap t = m" "initMem t = initMem s" "blocksAmount t = blocksAmount s"
      "\<forall>a \<in> set hs. hp_address (heaps t a) = hp_address (heaps s a)"
      "hp_address (heaps t h) = mem" "hp_size (heaps t h) = n"
    using pmalloc_appends [OF assms(1-4,6,7,9-11)] by blast
  note f1 = pages.alloc_fresh [OF assms(2,6,7,8)]
  note f2 = allocate_one_fresh [OF f1(3) npages_heapNode sane_heapNode assms(9,10)]
  have own: "owned_pages t = insert h (owned_pages s \<union> span mem (u64 n))" "mm_inv t"
    using f1 f2 t(5-8) owned_pages_other [of t s2] by (auto simp: mm_inv_def)
  have "mem \<in> span mem (u64 n)"
    using npages_pos assms(6) by (force simp: span_def sane_request_def intro!: image_eqI [of _ _ 0])
  then have hit: "hp_address (heaps t a) \<noteq> mem" if "a \<in> set hs" for a
    using that assms(5) t(9) f1(1) by auto
  have hspan: "h \<notin> span mem (u64 n)" "h \<notin> owned_pages s" using f1(2) f2(1) by auto
  then obtain m' where free: "freeBlock t h = Some (t\<lparr>usedMap := m'\<rparr>)"
      "owned_pages (t\<lparr>usedMap := m'\<rparr>) = owned_pages t - span mem (u64 n) - {h}"
    using freeBlock_eq [OF own(2), of h] assms(6) own(1) t(10,11) by auto
  obtain u where u: "pfree mem t = Some u" "heap_list u (proc_at u (currentProcess u)) hs"
      "heap_blocks u hs = heap_blocks t hs" "usedMap u = m'" "initMem u = initMem t"
      "blocksAmount u = blocksAmount t"
    using pfree_removes [OF t(4), of hs h "[]" mem m'] t(2,10) hit free(1) by auto
  have "owned_pages u = owned_pages s"
    using owned_pages_other [of u "t\<lparr>usedMap := m'\<rparr>"] u(4-6) free(2) own(1) f1(1) hspan by auto
  moreover have "heap_blocks t hs = heap_blocks s hs" using t(3) by (simp add: heap_blocks_def)
  ultimately show ?thesis using t u by auto
qed

theorem pmalloc_pfree_roundtrip_witness:
  "\<exists>t u. pmalloc 5000 one_process = Some (0x1002000, t)
    \<and> heap_blocks t [0x1004000] = [(0x1002000, 5000)]
    \<and> heap_list t (proc_at t (currentProcess t)) [0x1004000]
    \<and> pfree 0x1002000 t = Some u \<and> owned_pages u = owned_pages one_process"
proof -
  have b: "nat (blocksAmount one_process) = 28671" "initMem one_process = 0x1000000"
    by (simp_all add: one_process_def blank_sched_def)
  have u: "u64 5000 = 5000" by (simp add: u64_def)
  have r: "sane_request 5000" "npages 5000 = 2" by (simp_all add: sane_request_def npages_def ceil_div_def)
  obtain m1 where m1: "allocate 5000 one_process = Some (0x1002000, one_process\<lparr>usedMap := m1\<rparr>)"
      "prefix_used (one_process\<lparr>usedMap := m1\<rparr>) 4"
    using allocate_prefix [OF one_process_prefix r(1)] b r(2) by (auto simp: page_addr_def)
  obtain m2 where m2: "allocate SIZEOF_heapNode (one_process\<lparr>usedMap := m1\<rparr>) =
      Some (0x1004000, one_process\<lparr>usedMap := m2\<rparr>)"
    using allocate_prefix [OF m1(2) sane_heapNode] b by (auto simp: page_addr_def)
  have p: "proc_at one_process (currentProcess one_process) = 0x1001000"
    by (simp add: one_process_def)
  have hl: "heap_list one_process (proc_at one_process (currentProcess one_process)) []"
    by (simp add: heap_list_def one_process_def zero_proc_def)
  have inv: "mm_inv one_process" using one_process_prefix by (simp add: prefix_used_def)
  have hn: "hp_next (heaps one_process 0x1004000) = NULL" by (simp add: one_process_def blank_sched_def)
  have "\<exists>t u. pmalloc 5000 one_process = Some (0x1002000, t)
    \<and> heap_list t (proc_at t (currentProcess t)) ([] @ [0x1004000])
    \<and> heap_blocks t ([] @ [0x1004000]) = heap_blocks one_process [] @ [(0x1002000, 5000)]
    \<and> pfree 0x1002000 t = Some u
    \<and> heap_list u (proc_at u (currentProcess u)) [] \<and> heap_blocks u [] = heap_blocks one_process []
    \<and> owned_pages u = owned_pages one_process"
    by (rule pmalloc_pfree_roundtrip [OF one_process_ring inv hl _ _ _ _ _ m2 _ hn])
      (simp_all add: u r m1)
  moreover have "heap_blocks one_process [] = []" by (simp add: heap_blocks_def)
  ultimately show ?thesis by (metis append_Nil)
qed

end
