(* ===== verification/Scheduler.thy ===== *)
theory Scheduler
  imports Process
begin

section \<open>The scheduler (\<open>scheduler.c\<close>)\<close>

text \<open>
  The queue of processes, the round robin over it and over the threads of the current process,
  blocking, unblocking and removal.  The loops are transcribed as follows: \<open>walkProcess\<close> and
  \<open>walkThread\<close> are the \<open>while\<close> loops of \<open>runScheduler\<close> and \<open>nextThread\<close> that look for the next
  ready node, \<open>deadProcessLoop\<close>, \<open>deadThreadLoop\<close>, \<open>blockedLoop\<close> and \<open>unblockLoop\<close> are the
  counting loops of \<open>removeDeadProcess\<close>, \<open>removeDeadThreads\<close>, \<open>allThreadsAreBlocked\<close> and
  \<open>unblockAllThreads\<close>.  The walks do not return when no node is ready, which is \<open>None\<close>.
\<close>

subsection \<open>Switching stacks\<close>

definition switchUserToKernel :: "addr \<Rightarrow> 'z sched_scheme \<Rightarrow> (addr \<times> 'z sched_scheme) option" where
  "switchUserToKernel esp s = do {
     t \<leftarrow> currentThreadNode s;
     s \<leftarrow> set_thread t (\<lambda>t. t\<lparr>userStack := esp\<rparr>) s;
     Some (kernelStack s, s) }"

definition switchKernelToUser :: "'z sched_scheme \<Rightarrow> addr option" where
  "switchKernelToUser s = do {
     t \<leftarrow> currentThreadNode s;
     thread \<leftarrow> get_thread s t;
     Some (userStack thread) }"

definition setKernelStack :: "'z sched_scheme \<Rightarrow> 'z sched_scheme option" where
  "setKernelStack s = do {
     (p, s) \<leftarrow> allocate PAGE s;
     Some (s\<lparr>kernelStack := p\<rparr>) }"

definition currentProc :: "'z sched_scheme \<Rightarrow> addr option" where
  \<comment> \<open>\<open>currentProcess->process\<close>\<close>
  "currentProc s = do { node \<leftarrow> get_snode s (currentProcess s); Some (sn_process node) }"

subsection \<open>Adding and removing processes\<close>

definition addProcessToQueue :: "addr \<Rightarrow> 'z sched_scheme \<Rightarrow> 'z sched_scheme option" where
  "addProcessToQueue p s = do {
     (node, s) \<leftarrow> allocate PAGE s;
     s \<leftarrow> set_snode node (\<lambda>n. n\<lparr>sn_process := p\<rparr>) s;
     s \<leftarrow> set_proc p (\<lambda>p. p\<lparr>threadTick := 0\<rparr>) s;
     s \<leftarrow> (if currentProcess s = NULL then do {
         let s = s\<lparr>processQueue := node\<rparr>;
         let s = s\<lparr>currentProcess := node\<rparr>;
         set_snode node (\<lambda>n. n\<lparr>sn_next := node\<rparr>) s }
       else do {
         head \<leftarrow> get_snode s (processQueue s);
         s \<leftarrow> set_snode node (\<lambda>n. n\<lparr>sn_next := sn_next head\<rparr>) s;
         set_snode (processQueue s) (\<lambda>n. n\<lparr>sn_next := node\<rparr>) s });
     Some (s\<lparr>queueSize := queueSize s + 1\<rparr>) }"

definition addProcess ::
  "addr \<Rightarrow> addr \<Rightarrow> byte list \<Rightarrow> 'z sched_scheme \<Rightarrow> (int \<times> 'z sched_scheme) option" where
  "addProcess exec entry name s = do {
     parent \<leftarrow> getCurrentPid s;
     (process, s) \<leftarrow> createProcess name parent s;
     s \<leftarrow> addProcessToQueue process s;
     proc \<leftarrow> get_proc s process;
     (_, s) \<leftarrow> addThreadToProcess (pid proc) exec entry s;
     proc \<leftarrow> get_proc s process;
     Some (pid proc, s) }"

definition removeProcess :: "int \<Rightarrow> 'z sched_scheme \<Rightarrow> 'z sched_scheme option" where
  "removeProcess k s =
     (if k = 0 \<or> k = 1 then Some s
      else do {
        process \<leftarrow> getProcessWithPid k s;
        s \<leftarrow> set_proc process (\<lambda>p. p\<lparr>p_state := DEAD\<rparr>) s;
        Some (s\<lparr>queueSize := queueSize s - 1\<rparr>) })"

function deadProcessLoop ::
  "uninit \<Rightarrow> int \<Rightarrow> int \<Rightarrow> addr \<Rightarrow> addr \<Rightarrow> 'z sched_scheme \<Rightarrow> 'z sched_scheme option" where
  "deadProcessLoop u n i current prev s =
     (if i < n then do {
        node \<leftarrow> get_snode s current;
        proc \<leftarrow> get_proc s (sn_process node);
        s \<leftarrow> (if p_state proc = DEAD then do {
            s \<leftarrow> set_snode prev (\<lambda>x. x\<lparr>sn_next := sn_next node\<rparr>) s;
            node \<leftarrow> get_snode s current;
            s \<leftarrow> freeProcess u (sn_process node) s;
            (_, s) \<leftarrow> deallocate current PAGE s;
            Some s }
          else Some s);
        deadProcessLoop u n (i + 1) (sn_next (snodes s current)) current s }
      else Some s)"
  by pat_completeness auto
termination
  by (relation "measure (\<lambda>(u, n, i, c, p, s). nat (n - i))") auto

declare deadProcessLoop.simps [simp del]

definition removeDeadProcess :: "uninit \<Rightarrow> 'z sched_scheme \<Rightarrow> 'z sched_scheme option" where
  "removeDeadProcess u s = deadProcessLoop u (queueSize s) 0 (processQueue s) (prev_node u) s"

subsection \<open>Blocking\<close>

definition blockProcess :: "int \<Rightarrow> processState \<Rightarrow> 'z sched_scheme \<Rightarrow> 'z sched_scheme option" where
  "blockProcess k blockType s = do {
     process \<leftarrow> getProcessWithPid k s;
     s \<leftarrow> set_proc process (\<lambda>p. p\<lparr>p_state := blockType\<rparr>) s;
     Some (s\<lparr>numberOfTicks := QUANTUM\<rparr>) }"

definition unblockProcess :: "int \<Rightarrow> processState \<Rightarrow> 'z sched_scheme \<Rightarrow> 'z sched_scheme option" where
  "unblockProcess k blockType s = do {
     process \<leftarrow> getProcessWithPid k s;
     proc \<leftarrow> get_proc s process;
     if p_state proc = blockType then set_proc process (\<lambda>p. p\<lparr>p_state := READY\<rparr>) s else Some s }"

function blockedLoop :: "int \<Rightarrow> int \<Rightarrow> addr \<Rightarrow> 'z sched_scheme \<Rightarrow> bool option" where
  "blockedLoop n i current s =
     (if i < n then do {
        node \<leftarrow> get_lib s current;
        thread \<leftarrow> get_thread s (l_thread node);
        if t_state thread = T_READY then Some False else blockedLoop n (i + 1) (l_next node) s }
      else Some True)"
  by pat_completeness auto
termination
  by (relation "measure (\<lambda>(n, i, c, s). nat (n - i))") auto

declare blockedLoop.simps [simp del]

definition allThreadsAreBlocked :: "addr \<Rightarrow> 'z sched_scheme \<Rightarrow> bool option" where
  "allThreadsAreBlocked process s = do {
     proc \<leftarrow> get_proc s process;
     blockedLoop (threadSize proc) 0 (threadLibrary proc) s }"

definition blockThread :: "int \<Rightarrow> int \<Rightarrow> threadState \<Rightarrow> 'z sched_scheme \<Rightarrow> 'z sched_scheme option" where
  "blockThread k pt blockType s = do {
     process \<leftarrow> getProcessWithPid k s;
     thread \<leftarrow> getThreadWithPthread pt process s;
     s \<leftarrow> set_thread thread (\<lambda>t. t\<lparr>t_state := blockType\<rparr>) s;
     s \<leftarrow> set_proc process (\<lambda>p. p\<lparr>threadTick := THREAD_QUANTUM\<rparr>) s;
     blocked \<leftarrow> allThreadsAreBlocked process s;
     if blocked then blockProcess k (getBlockProcessType blockType) s else Some s }"

definition unblockThread :: "int \<Rightarrow> int \<Rightarrow> threadState \<Rightarrow> 'z sched_scheme \<Rightarrow> 'z sched_scheme option" where
  "unblockThread k pt blockType s = do {
     process \<leftarrow> getProcessWithPid k s;
     t \<leftarrow> getThreadWithPthread pt process s;
     thread \<leftarrow> get_thread s t;
     s \<leftarrow> (if t_state thread = blockType then set_thread t (\<lambda>t. t\<lparr>t_state := T_READY\<rparr>) s else Some s);
     unblockProcess k (getBlockProcessType blockType) s }"

function unblockLoop ::
  "int \<Rightarrow> threadState \<Rightarrow> int \<Rightarrow> int \<Rightarrow> addr \<Rightarrow> 'z sched_scheme \<Rightarrow> 'z sched_scheme option" where
  "unblockLoop k blockType n threadsCount lib s =
     (if threadsCount < n then do {
        node \<leftarrow> get_lib s lib;
        thread \<leftarrow> get_thread s (l_thread node);
        s \<leftarrow> (if t_state thread = blockType then do {
            s \<leftarrow> set_thread (l_thread node) (\<lambda>t. t\<lparr>t_state := T_READY\<rparr>) s;
            unblockProcess k (getBlockProcessType blockType) s }
          else Some s);
        unblockLoop k blockType n (threadsCount + 1) (l_next (libs s lib)) s }
      else Some s)"
  by pat_completeness auto
termination
  by (relation "measure (\<lambda>(k, b, n, i, l, s). nat (n - i))") auto

declare unblockLoop.simps [simp del]

definition unblockAllThreads :: "int \<Rightarrow> threadState \<Rightarrow> 'z sched_scheme \<Rightarrow> 'z sched_scheme option" where
  "unblockAllThreads k blockType s = do {
     process \<leftarrow> getProcessWithPid k s;
     proc \<leftarrow> get_proc s process;
     unblockLoop k blockType (threadSize proc) 0 (threadLibrary proc) s }"

subsection \<open>Threads of the current process\<close>

function deadThreadLoop ::
  "int \<Rightarrow> int \<Rightarrow> addr \<Rightarrow> addr \<Rightarrow> 'z sched_scheme \<Rightarrow> 'z sched_scheme option" where
  "deadThreadLoop n i current prev s =
     (if i < n then do {
        node \<leftarrow> get_lib s current;
        thread \<leftarrow> get_thread s (l_thread node);
        if t_state thread = T_DEAD then do {
          s \<leftarrow> set_lib prev (\<lambda>x. x\<lparr>l_next := l_next node\<rparr>) s;
          node \<leftarrow> get_lib s current;
          thread \<leftarrow> get_thread s (l_thread node);
          (_, s) \<leftarrow> deallocate (baseStack thread) STACK s;
          (_, s) \<leftarrow> deallocate (l_thread node) PAGE s;
          (_, s) \<leftarrow> deallocate current PAGE s;
          deadThreadLoop n (i + 1) (l_next node) current s }
        else deadThreadLoop n (i + 1) current prev s }
      else Some s)"
  by pat_completeness auto
termination
  by (relation "measure (\<lambda>(n, i, c, p, s). nat (n - i))") auto

declare deadThreadLoop.simps [simp del]

definition removeDeadThreads :: "uninit \<Rightarrow> addr \<Rightarrow> 'z sched_scheme \<Rightarrow> 'z sched_scheme option" where
  "removeDeadThreads u process s = do {
     proc \<leftarrow> get_proc s process;
     deadThreadLoop (threadSize proc) 0 (threadLibrary proc) (prev_dead u) s }"

definition set_current_thread :: "addr \<Rightarrow> 'z sched_scheme \<Rightarrow> addr \<Rightarrow> 'z sched_scheme" where
  "set_current_thread p s l = s\<lparr>procs := (procs s)(p := (procs s p)\<lparr>currentThread := l\<rparr>)\<rparr>"

text \<open>\<open>while (process->currentThread->next->thread->state != T_READY)
    process->currentThread = process->currentThread->next;\<close>\<close>

partial_function (option) walkThread :: "addr \<Rightarrow> 'z sched_scheme \<Rightarrow> 'z sched_scheme option" where
  "walkThread p s = do {
     cur \<leftarrow> get_lib s (currentThread (procs s p));
     nxt \<leftarrow> get_lib s (l_next cur);
     thread \<leftarrow> get_thread s (l_thread nxt);
     if t_state thread = T_READY then Some s
     else walkThread p (set_current_thread p s (l_next cur)) }"

definition nextThread :: "uninit \<Rightarrow> 'z sched_scheme \<Rightarrow> 'z sched_scheme option" where
  "nextThread u s = do {
     p \<leftarrow> currentProc s;
     s \<leftarrow> removeDeadThreads u p s;
     t \<leftarrow> currentThreadNode s;
     thread \<leftarrow> get_thread s t;
     s \<leftarrow> (if t_state thread = T_RUNNING then set_thread t (\<lambda>t. t\<lparr>t_state := T_READY\<rparr>) s else Some s);
     s \<leftarrow> walkThread p s;
     cur \<leftarrow> get_lib s (currentThread (procs s p));
     let s = set_current_thread p s (l_next cur);
     t \<leftarrow> currentThreadNode s;
     set_thread t (\<lambda>t. t\<lparr>t_state := T_RUNNING\<rparr>) s }"

definition threadCheck :: "uninit \<Rightarrow> 'z sched_scheme \<Rightarrow> 'z sched_scheme option" where
  "threadCheck u s = do {
     p \<leftarrow> currentProc s;
     proc \<leftarrow> get_proc s p;
     if threadTick proc < THREAD_QUANTUM
     then set_proc p (\<lambda>p. p\<lparr>threadTick := threadTick p + 1\<rparr>) s
     else do {
       s \<leftarrow> set_proc p (\<lambda>p. p\<lparr>threadTick := 0\<rparr>) s;
       nextThread u s } }"

definition removeThread :: "int \<Rightarrow> int \<Rightarrow> 'z sched_scheme \<Rightarrow> 'z sched_scheme option" where
  "removeThread k pt s =
     (if k = 0 \<or> k = 1 then Some s
      else if pt = 0 then Some s
      else do {
        process \<leftarrow> getProcessWithPid k s;
        proc \<leftarrow> get_proc s process;
        s \<leftarrow> (if threadSize proc = 1 then removeProcess k s else Some s);
        thread \<leftarrow> getThreadWithPthread pt process s;
        s \<leftarrow> set_thread thread (\<lambda>t. t\<lparr>t_state := T_DEAD\<rparr>) s;
        set_proc process (\<lambda>p. p\<lparr>threadSize := threadSize p - 1\<rparr>) s })"

subsection \<open>Running\<close>

definition set_current :: "'z sched_scheme \<Rightarrow> addr \<Rightarrow> 'z sched_scheme" where
  "set_current s n = s\<lparr>currentProcess := n\<rparr>"

text \<open>\<open>while (currentProcess->next->process->state != READY) currentProcess = currentProcess->next;\<close>\<close>

partial_function (option) walkProcess :: "'z sched_scheme \<Rightarrow> 'z sched_scheme option" where
  "walkProcess s = do {
     cur \<leftarrow> get_snode s (currentProcess s);
     nxt \<leftarrow> get_snode s (sn_next cur);
     proc \<leftarrow> get_proc s (sn_process nxt);
     if p_state proc = READY then Some s
     else walkProcess (set_current s (sn_next cur)) }"

definition runScheduler :: "uninit \<Rightarrow> 'z sched_scheme \<Rightarrow> 'z sched_scheme option" where
  "runScheduler u s =
     (if currentProcess s = NULL then Some s
      else if numberOfTicks s < QUANTUM then
        threadCheck u (s\<lparr>numberOfTicks := numberOfTicks s + 1\<rparr>)
      else do {
        s \<leftarrow> removeDeadProcess u s;
        let s = s\<lparr>numberOfTicks := 0\<rparr>;
        p \<leftarrow> currentProc s;
        proc \<leftarrow> get_proc s p;
        s \<leftarrow> (if p_state proc = RUNNING then set_proc p (\<lambda>p. p\<lparr>p_state := READY\<rparr>) s else Some s);
        s \<leftarrow> walkProcess s;
        cur \<leftarrow> get_snode s (currentProcess s);
        let s = set_current s (sn_next cur);
        p \<leftarrow> currentProc s;
        set_proc p (\<lambda>p. p\<lparr>p_state := RUNNING\<rparr>) s })"

definition yieldSwitch :: "uninit \<Rightarrow> 'z sched_scheme \<Rightarrow> 'z sched_scheme option" where
  "yieldSwitch u s =
     (if currentProcess s = NULL then Some s
      else do {
        p \<leftarrow> currentProc s;
        proc \<leftarrow> get_proc s p;
        if isProcessBlocked (p_state proc) \<or> p_state proc = DEAD
        then runScheduler u (s\<lparr>numberOfTicks := QUANTUM\<rparr>)
        else do {
          t \<leftarrow> currentThreadNode s;
          thread \<leftarrow> get_thread s t;
          if isThreadBlocked (t_state thread) \<or> t_state thread = T_DEAD then do {
            s \<leftarrow> set_proc p (\<lambda>p. p\<lparr>threadTick := THREAD_QUANTUM\<rparr>) s;
            runScheduler u s }
          else Some s } })"

text \<open>
  The timer interrupt (\<open>processSwitch\<close>) and the yield interrupt (\<open>yieldHandler\<close>): save the
  stack pointer, choose, and continue on the stack of the chosen thread.
\<close>

definition processSwitch :: "uninit \<Rightarrow> addr \<Rightarrow> 'z sched_scheme \<Rightarrow> (addr \<times> 'z sched_scheme) option" where
  "processSwitch u rsp s = do {
     (_, s) \<leftarrow> switchUserToKernel rsp s;
     s \<leftarrow> runScheduler u s;
     sp \<leftarrow> switchKernelToUser s;
     Some (sp, s) }"

definition yieldHandler :: "uninit \<Rightarrow> addr \<Rightarrow> 'z sched_scheme \<Rightarrow> (addr \<times> 'z sched_scheme) option" where
  "yieldHandler u rsp s = do {
     (_, s) \<leftarrow> switchUserToKernel rsp s;
     s \<leftarrow> yieldSwitch u s;
     sp \<leftarrow> switchKernelToUser s;
     Some (sp, s) }"

subsection \<open>The round robin\<close>

abbreviation st :: "'z sched_scheme \<Rightarrow> addr \<Rightarrow> processState" where
  "st s n \<equiv> p_state (procs s (proc_at s n))"

abbreviation tst :: "'z sched_scheme \<Rightarrow> addr \<Rightarrow> threadState" where
  "tst s l \<equiv> t_state (threads s (thread_at s l))"

lemma set_current_thread_same: "set_current_thread p s (currentThread (procs s p)) = s"
proof -
  have "(procs s)(p := (procs s p)\<lparr>currentThread := currentThread (procs s p)\<rparr>) = procs s" by auto
  then show ?thesis by (simp add: set_current_thread_def)
qed

interpretation proc_walk: ring_walk snx currentProcess set_current "\<lambda>s n. st s n = READY"
  "\<lambda>s n. n \<noteq> NULL \<and> proc_at s n \<noteq> NULL" walkProcess
proof
  fix s :: "'z sched_scheme"
  assume a: "currentProcess s \<noteq> NULL" "snx s (currentProcess s) \<noteq> NULL \<and> proc_at s (snx s (currentProcess s)) \<noteq> NULL"
  show "st s (snx s (currentProcess s)) = READY \<Longrightarrow> walkProcess s = Some s"
    using a by (subst walkProcess.simps) simp
  show "st s (snx s (currentProcess s)) \<noteq> READY \<Longrightarrow>
      walkProcess s = walkProcess (set_current s (snx s (currentProcess s)))"
    using a by (subst walkProcess.simps) simp
qed (simp_all add: set_current_def fun_eq_iff)

interpretation thread_walk: ring_walk lnx "\<lambda>s. currentThread (procs s p)" "set_current_thread p"
  "\<lambda>s l. tst s l = T_READY" "\<lambda>s l. l \<noteq> NULL \<and> thread_at s l \<noteq> NULL" "walkThread p" for p :: addr
proof
  fix s :: "'z sched_scheme"
  let ?c = "currentThread (procs s p)"
  assume a: "?c \<noteq> NULL" "lnx s ?c \<noteq> NULL \<and> thread_at s (lnx s ?c) \<noteq> NULL"
  show "tst s (lnx s ?c) = T_READY \<Longrightarrow> walkThread p s = Some s"
    using a by (subst walkThread.simps) simp
  show "tst s (lnx s ?c) \<noteq> T_READY \<Longrightarrow>
      walkThread p s = walkThread p (set_current_thread p s (lnx s ?c))"
    using a by (subst walkThread.simps) simp
qed (simp_all add: set_current_thread_same, simp_all add: set_current_thread_def fun_eq_iff)

text \<open>The ring after the current node, split at the first node with a property.\<close>

lemma ring_find_split:
  assumes "ring nx qs" and "c \<in> set qs" and "List.find P (ring_after c qs) = Some a"
  obtains xs where "chain nx (nx c) (xs @ [a]) (nx a)" and "\<And>x. x \<in> set xs \<Longrightarrow> \<not> P x"
    and "P a" and "a \<in> set qs" and "set xs \<subseteq> set qs"
proof -
  obtain i where i: "i < length (ring_after c qs)" "P (ring_after c qs ! i)" "a = ring_after c qs ! i"
      "\<forall>j<i. \<not> P (ring_after c qs ! j)"
    using assms(3) by (auto simp: find_Some_iff)
  define xs where "xs = take i (ring_after c qs)"
  have ra: "ring_after c qs = (xs @ [a]) @ drop (Suc i) (ring_after c qs)"
    using i(1,3) by (simp add: xs_def id_take_nth_drop [symmetric])
  have sub: "set (xs @ [a]) \<subseteq> set qs"
    using set_ring_after [OF assms(1,2)] ra by (metis Un_upper1 set_append)
  have "chain nx (nx c) (ring_after c qs) (nx c)" by (rule ring_chain_after [OF assms(1,2)])
  then obtain m where "chain nx (nx c) (xs @ [a]) m" unfolding ra [symmetric] by (subst (asm) ra) (auto simp: chain_append)
  moreover from this have "m = nx a" by (auto simp: chain_append)
  moreover have "\<not> P x" if "x \<in> set xs" for x
    using that i(1,4) by (auto simp: xs_def in_set_conv_nth)
  ultimately show thesis using that [of xs] i(2,3) sub by auto
qed

lemma deadProcessLoop_alive:
  assumes "proc_ring s qs" and "\<And>n. n \<in> set qs \<Longrightarrow> st s n \<noteq> DEAD" and "current \<in> set qs"
  shows "deadProcessLoop u k i current prev s = Some s"
  using assms(3)
proof (induction "nat (k - i)" arbitrary: i current prev)
  case 0
  then show ?case by (subst deadProcessLoop.simps) simp
next
  case (Suc d)
  then have i: "i < k" by simp
  have mem: "snx s current \<in> set qs" using ring_next_mem proc_ringD(1) [OF assms(1)] Suc.prems by blast
  have "deadProcessLoop u k (i + 1) (snx s current) current s = Some s"
    using Suc.hyps mem by (intro Suc.hyps(1)) auto
  with i Suc.prems assms(2) proc_ringD(6,7) [OF assms(1)] show ?case
    by (subst deadProcessLoop.simps) simp
qed

lemma removeDeadProcess_alive:
  assumes "proc_ring s qs" and "\<And>n. n \<in> set qs \<Longrightarrow> st s n \<noteq> DEAD"
  shows "removeDeadProcess u s = Some s"
  unfolding removeDeadProcess_def
  using assms proc_ringD(5) [OF assms(1)] by (intro deadProcessLoop_alive)

definition release_current :: "'z sched_scheme \<Rightarrow> 'z sched_scheme" where
  \<comment> \<open>the running process goes back to \<open>READY\<close>\<close>
  "release_current s = (let p = proc_at s (currentProcess s) in
     if p_state (procs s p) = RUNNING then s\<lparr>procs := (procs s)(p := (procs s p)\<lparr>p_state := READY\<rparr>)\<rparr> else s)"

definition next_ready :: "'z sched_scheme \<Rightarrow> addr list \<Rightarrow> addr option" where
  "next_ready s qs = List.find (\<lambda>n. st (release_current s) n = READY) (ring_after (currentProcess s) qs)"

definition dispatch :: "addr \<Rightarrow> 'z sched_scheme \<Rightarrow> 'z sched_scheme" where
  \<comment> \<open>\<open>a\<close> becomes the running process\<close>
  "dispatch a s = s\<lparr>numberOfTicks := 0, currentProcess := a,
     procs := (procs s)(proc_at s a := (procs s (proc_at s a))\<lparr>p_state := RUNNING\<rparr>)\<rparr>"

lemma release_current_select [store_simps]:
  shows "snodes (release_current s) = snodes s" and "processQueue (release_current s) = processQueue s"
    and "currentProcess (release_current s) = currentProcess s"
    and "pid (procs (release_current s) a) = pid (procs s a)"
    and "libs (release_current s) = libs s" and "threads (release_current s) = threads s"
    and "currentThread (procs (release_current s) a) = currentThread (procs s a)"
    and "threadLibrary (procs (release_current s) a) = threadLibrary (procs s a)"
    and "threadSize (procs (release_current s) a) = threadSize (procs s a)"
  by (simp_all add: release_current_def Let_def)

lemma dispatch_select [store_simps]:
  shows "snodes (dispatch a s) = snodes s" and "processQueue (dispatch a s) = processQueue s"
    and "currentProcess (dispatch a s) = a" and "numberOfTicks (dispatch a s) = 0"
    and "pid (procs (dispatch a s) b) = pid (procs s b)"
    and "libs (dispatch a s) = libs s" and "threads (dispatch a s) = threads s"
    and "currentThread (procs (dispatch a s) b) = currentThread (procs s b)"
    and "threadLibrary (procs (dispatch a s) b) = threadLibrary (procs s b)"
    and "threadSize (procs (dispatch a s) b) = threadSize (procs s b)"
    and "p_state (procs (dispatch a s) b) = (if b = proc_at s a then RUNNING else p_state (procs s b))"
  by (simp_all add: dispatch_def)

lemma runScheduler_switch:
  assumes ring: "proc_ring s qs" and "QUANTUM \<le> numberOfTicks s"
    and dead: "removeDeadProcess u s = Some s" and nxt: "next_ready s qs = Some a"
  shows "runScheduler u s = Some (dispatch a (release_current s))" and "a \<in> set qs"
proof -
  note r = proc_ringD [OF ring]
  let ?t = "release_current (s\<lparr>numberOfTicks := 0\<rparr>)"
  have stt: "st ?t n = st (release_current s) n" for n
    by (simp add: release_current_def Let_def)
  obtain xs where xs: "chain (snx s) (snx s (currentProcess s)) (xs @ [a]) (snx s a)"
      "\<And>x. x \<in> set xs \<Longrightarrow> st (release_current s) x \<noteq> READY" "st (release_current s) a = READY"
      "a \<in> set qs" "set xs \<subseteq> set qs"
    using ring_find_split [OF r(1,4) nxt [unfolded next_ready_def]] by blast
  show "a \<in> set qs" by (rule xs(4))
  define l where "l = (if xs = [] then currentProcess s else last xs)"
  have w: "walkProcess ?t = Some (set_current ?t (if xs = [] then currentProcess ?t else last xs))
      \<and> snx ?t (if xs = [] then currentProcess ?t else last xs) = a"
    using xs r stt by (intro proc_walk.walk_chain [where q = "snx s a"]) (auto simp: store_simps)
  have "currentProcess ?t = currentProcess s" "snodes ?t = snodes s" by (simp_all add: store_simps)
  then have w1: "walkProcess ?t = Some (set_current ?t l)" and w2: "snx s l = a"
    using w unfolding l_def by (simp_all only:)
  have l: "l \<in> set qs" using xs(5) r(4) by (auto simp: l_def)
  have c: "currentProcess s \<noteq> NULL" "proc_at s (currentProcess s) \<noteq> NULL" using r(4,6,7) by auto
  have ln: "l \<noteq> NULL" "a \<noteq> NULL" "proc_at s a \<noteq> NULL" using l xs(4) r(6,7) by auto
  have d: "removeDeadProcess u s = Some s" by (rule dead)
  have nt: "\<not> numberOfTicks s < QUANTUM" using assms(2) by simp
  show "runScheduler u s = Some (dispatch a (release_current s))"
  proof (cases "st s (currentProcess s) = RUNNING")
    case True
    with c ln w2 w1 show ?thesis
      by (simp add: runScheduler_def currentProc_def nt d Let_def release_current_def
          set_current_def dispatch_def)
  next
    case False
    with c ln w2 w1 show ?thesis
      by (simp add: runScheduler_def currentProc_def nt d Let_def release_current_def
          set_current_def dispatch_def)
  qed
qed

subsection \<open>Operations that keep the shape of the queues\<close>

definition same_shape :: "'z sched_scheme \<Rightarrow> 'z sched_scheme \<Rightarrow> bool" where
  \<comment> \<open>only the states, the tick counters and the cursors differ\<close>
  "same_shape s t \<longleftrightarrow> snodes t = snodes s \<and> libs t = libs s \<and> processQueue t = processQueue s
     \<and> initMem t = initMem s \<and> usedMap t = usedMap s \<and> blocksAmount t = blocksAmount s
     \<and> (\<forall>a. pid (procs t a) = pid (procs s a) \<and> threadLibrary (procs t a) = threadLibrary (procs s a)
          \<and> threadSize (procs t a) = threadSize (procs s a)
          \<and> currentPThread (procs t a) = currentPThread (procs s a))
     \<and> (\<forall>a. pthread (threads t a) = pthread (threads s a))"

lemma same_shape_refl [simp, intro]: "same_shape s s"
  by (simp add: same_shape_def)

lemma same_shape_trans: "same_shape s t \<Longrightarrow> same_shape t r \<Longrightarrow> same_shape s r"
  by (simp add: same_shape_def)

lemma same_shapeD [frame_simps]:
  assumes "same_shape s t"
  shows "snodes t = snodes s" and "libs t = libs s" and "processQueue t = processQueue s"
    and "pid (procs t a) = pid (procs s a)" and "threadLibrary (procs t a) = threadLibrary (procs s a)"
    and "threadSize (procs t a) = threadSize (procs s a)"
    and "currentPThread (procs t a) = currentPThread (procs s a)"
    and "pthread (threads t a) = pthread (threads s a)" and "owned_pages t = owned_pages s"
  using assms owned_pages_other [of t s] by (simp_all add: same_shape_def)

lemma proc_ring_shape:
  "same_shape s t \<Longrightarrow> proc_ring s qs \<Longrightarrow> currentProcess t \<in> set qs \<Longrightarrow> proc_ring t qs"
  by (rule proc_ring_cong) (simp_all add: same_shape_def)

lemma threads_ok_shape:
  assumes "same_shape s t" and "threads_ok s p ls" and "currentThread (procs t p) \<in> set ls"
  shows "threads_ok t p ls"
proof -
  have "thread_ring t p ls"
    using assms(1,3)
    by (intro thread_ring_cong [OF threads_okD(1) [OF assms(2)]]) (simp_all add: same_shape_def)
  then show ?thesis
    using assms(2) same_shapeD [OF assms(1)] by (simp add: threads_ok_def)
qed

definition sched_wf :: "'z sched_scheme \<Rightarrow> addr list \<Rightarrow> (addr \<Rightarrow> addr list) \<Rightarrow> bool" where
  \<comment> \<open>the queue \<open>qs\<close> of processes, each with the ring \<open>ths n\<close> of its threads; no thread is shared\<close>
  "sched_wf s qs ths \<longleftrightarrow> proc_ring s qs \<and> (\<forall>n \<in> set qs. threads_ok s (proc_at s n) (ths n))
     \<and> (\<forall>n \<in> set qs. \<forall>m \<in> set qs. n \<noteq> m \<longrightarrow>
          thread_at s ` set (ths n) \<inter> thread_at s ` set (ths m) = {})"

lemma sched_wfD:
  assumes "sched_wf s qs ths"
  shows "proc_ring s qs" and "n \<in> set qs \<Longrightarrow> threads_ok s (proc_at s n) (ths n)"
    and "n \<in> set qs \<Longrightarrow> thread_ring s (proc_at s n) (ths n)"
    and "n \<in> set qs \<Longrightarrow> m \<in> set qs \<Longrightarrow> n \<noteq> m \<Longrightarrow>
      l \<in> set (ths n) \<Longrightarrow> l' \<in> set (ths m) \<Longrightarrow> thread_at s l \<noteq> thread_at s l'"
  using assms threads_okD(1) by (auto simp: sched_wf_def) blast

lemma sched_wf_shape:
  assumes "same_shape s t" and "sched_wf s qs ths" and "currentProcess t \<in> set qs"
    and "\<And>n. n \<in> set qs \<Longrightarrow> currentThread (procs t (proc_at s n)) \<in> set (ths n)"
  shows "sched_wf t qs ths"
  using assms proc_ring_shape [OF assms(1)] threads_ok_shape [OF assms(1)]
  unfolding sched_wf_def by (simp add: same_shapeD [OF assms(1)])

lemma sched_wf_shape':
  assumes "same_shape s t" and "sched_wf s qs ths" and "currentProcess t \<in> set qs"
    and "\<And>a. currentThread (procs t a) = currentThread (procs s a)"
  shows "sched_wf t qs ths"
  using assms(1-3) by (rule sched_wf_shape)
    (use assms(4) threads_okD(1) thread_ringD(4) sched_wfD(3) [OF assms(2)] in fastforce)

subsection \<open>Blocking and waking\<close>

lemma blockedLoop_chain:
  assumes "chain (lnx s) c xs e" and "\<And>x. x \<in> set xs \<Longrightarrow> thread_at s x \<noteq> NULL"
    and "n - i = int (length xs)"
  shows "blockedLoop n i c s = Some (\<forall>x \<in> set xs. tst s x \<noteq> T_READY)"
  using assms
proof (induction xs arbitrary: c i)
  case Nil
  then show ?case by (subst blockedLoop.simps) simp
next
  case (Cons x xs)
  then have "blockedLoop n (i + 1) (lnx s x) s = Some (\<forall>x \<in> set xs. tst s x \<noteq> T_READY)"
    by (intro Cons.IH) auto
  with Cons.prems show ?case by (subst blockedLoop.simps) auto
qed

lemma allThreadsAreBlocked_eq:
  assumes "threads_ok s p ls" and "p \<noteq> NULL"
  shows "allThreadsAreBlocked p s = Some (\<forall>l \<in> set ls. tst s l \<noteq> T_READY)"
proof -
  note r = thread_ringD [OF threads_okD(1) [OF assms(1)]]
  have "chain (lnx s) (threadLibrary (procs s p)) ls (threadLibrary (procs s p))"
    using r(1,3) by (simp add: ring_def)
  then have "blockedLoop (threadSize (procs s p)) 0 (threadLibrary (procs s p)) s =
      Some (\<forall>l \<in> set ls. tst s l \<noteq> T_READY)"
    using r(7) threads_okD(2) [OF assms(1)] by (intro blockedLoop_chain) simp_all
  with assms(2) show ?thesis by (simp add: allThreadsAreBlocked_def)
qed

definition set_pstate :: "addr \<Rightarrow> processState \<Rightarrow> 'z sched_scheme \<Rightarrow> 'z sched_scheme" where
  "set_pstate p v s = s\<lparr>procs := (procs s)(p := (procs s p)\<lparr>p_state := v\<rparr>)\<rparr>"

definition set_tstate :: "addr \<Rightarrow> threadState \<Rightarrow> 'z sched_scheme \<Rightarrow> 'z sched_scheme" where
  "set_tstate t v s = s\<lparr>threads := (threads s)(t := (threads s t)\<lparr>t_state := v\<rparr>)\<rparr>"

definition set_ttick :: "addr \<Rightarrow> int \<Rightarrow> 'z sched_scheme \<Rightarrow> 'z sched_scheme" where
  "set_ttick p v s = s\<lparr>procs := (procs s)(p := (procs s p)\<lparr>threadTick := v\<rparr>)\<rparr>"

lemma shape_set [simp]:
  shows "same_shape s (set_pstate p v s)" and "same_shape s (set_tstate t w s)"
    and "same_shape s (set_ttick p i s)" and "same_shape s (s\<lparr>numberOfTicks := i\<rparr>)"
    and "same_shape s (set_current_thread p s l)" and "same_shape s (set_current s n)"
  by (simp_all add: same_shape_def set_pstate_def set_tstate_def set_ttick_def
      set_current_thread_def set_current_def)

lemma set_select [store_simps]:
  shows "p_state (procs (set_pstate p v s) a) = (if a = p then v else p_state (procs s a))"
    and "currentThread (procs (set_pstate p v s) a) = currentThread (procs s a)"
    and "threads (set_pstate p v s) = threads s" and "libs (set_pstate p v s) = libs s"
    and "snodes (set_pstate p v s) = snodes s" and "currentProcess (set_pstate p v s) = currentProcess s"
    and "numberOfTicks (set_pstate p v s) = numberOfTicks s"
    and "procs (set_tstate t w s) = procs s" and "libs (set_tstate t w s) = libs s"
    and "snodes (set_tstate t w s) = snodes s" and "currentProcess (set_tstate t w s) = currentProcess s"
    and "numberOfTicks (set_tstate t w s) = numberOfTicks s"
    and "t_state (threads (set_tstate t w s) b) = (if b = t then w else t_state (threads s b))"
    and "p_state (procs (set_ttick p i s) a) = p_state (procs s a)"
    and "currentThread (procs (set_ttick p i s) a) = currentThread (procs s a)"
    and "threads (set_ttick p i s) = threads s" and "libs (set_ttick p i s) = libs s"
    and "snodes (set_ttick p i s) = snodes s" and "currentProcess (set_ttick p i s) = currentProcess s"
    and "numberOfTicks (set_ttick p i s) = numberOfTicks s"
  by (simp_all add: set_pstate_def set_tstate_def set_ttick_def)

lemma sched_wf_set [inv_intros]:
  assumes "sched_wf s qs ths"
  shows "sched_wf (set_pstate p v s) qs ths" and "sched_wf (set_tstate t w s) qs ths"
    and "sched_wf (set_ttick p i s) qs ths" and "sched_wf (s\<lparr>numberOfTicks := i\<rparr>) qs ths"
  using proc_ringD(4) [OF sched_wfD(1) [OF assms]]
  by (auto intro!: sched_wf_shape' [OF _ assms] simp: store_simps)

lemma blockProcess_eq:
  assumes "proc_ring s qs" and "n \<in> set qs"
  shows "blockProcess (pid (procs s (proc_at s n))) v s =
    Some ((set_pstate (proc_at s n) v s)\<lparr>numberOfTicks := QUANTUM\<rparr>)"
  using getProcessWithPid_hit [OF assms] proc_ringD(7) [OF assms]
  by (simp add: blockProcess_def set_pstate_def)

lemma unblockProcess_eq:
  assumes "proc_ring s qs" and "n \<in> set qs"
  shows "unblockProcess (pid (procs s (proc_at s n))) v s =
    Some (if st s n = v then set_pstate (proc_at s n) READY s else s)"
  using getProcessWithPid_hit [OF assms] proc_ringD(7) [OF assms]
  by (simp add: unblockProcess_def set_pstate_def)

lemma blockThread_eq:
  fixes bt :: threadState
  assumes wf: "sched_wf s qs ths" and n: "n \<in> set qs" and l: "l \<in> set (ths n)"
  defines "s1 \<equiv> set_ttick (proc_at s n) THREAD_QUANTUM (set_tstate (thread_at s l) bt s)"
  shows "blockThread (pid (procs s (proc_at s n))) (pthread (threads s (thread_at s l))) bt s =
    Some (if \<forall>m \<in> set (ths n). tst s1 m \<noteq> T_READY
      then (set_pstate (proc_at s n) (getBlockProcessType bt) s1)\<lparr>numberOfTicks := QUANTUM\<rparr> else s1)"
proof -
  let ?p = "proc_at s n" and ?t = "thread_at s l"
  note r = proc_ringD [OF sched_wfD(1) [OF wf]] and tr = thread_ringD [OF sched_wfD(3) [OF wf n]]
  have p: "?p \<noteq> NULL" "?t \<noteq> NULL" using r(7) n tr(7) l by auto
  have wf1: "sched_wf s1 qs ths" unfolding s1_def by (intro sched_wf_set wf)
  have g: "getProcessWithPid (pid (procs s ?p)) s = Some ?p"
    using getProcessWithPid_hit [OF sched_wfD(1) [OF wf] n] .
  have gt: "getThreadWithPthread (pthread (threads s ?t)) ?p s = Some ?t"
    using getThreadWithPthread_hit [OF sched_wfD(3) [OF wf n] p(1) l] .
  have same: "proc_at s1 n = ?p" "pid (procs s1 ?p) = pid (procs s ?p)"
    by (simp_all add: s1_def store_simps) (simp add: set_ttick_def set_tstate_def)
  have all: "allThreadsAreBlocked ?p s1 = Some (\<forall>m \<in> set (ths n). tst s1 m \<noteq> T_READY)"
    using allThreadsAreBlocked_eq [OF sched_wfD(2) [OF wf1 n]] same p(1) by simp
  have bp: "blockProcess (pid (procs s ?p)) v s1 =
      Some ((set_pstate ?p v s1)\<lparr>numberOfTicks := QUANTUM\<rparr>)" for v
    using blockProcess_eq [OF sched_wfD(1) [OF wf1] n, of v] same by simp
  have s1: "s1 = s\<lparr>threads := (threads s)(?t := (threads s ?t)\<lparr>t_state := bt\<rparr>),
      procs := (procs s)(?p := (procs s ?p)\<lparr>threadTick := THREAD_QUANTUM\<rparr>)\<rparr>"
    by (simp add: s1_def set_ttick_def set_tstate_def)
  show ?thesis
    using p all bp by (simp add: blockThread_def g gt s1 [symmetric])
qed

lemma unblockThread_eq:
  fixes bt :: threadState
  assumes wf: "sched_wf s qs ths" and n: "n \<in> set qs" and l: "l \<in> set (ths n)"
  defines "s1 \<equiv> (if tst s l = bt then set_tstate (thread_at s l) T_READY s else s)"
  shows "unblockThread (pid (procs s (proc_at s n))) (pthread (threads s (thread_at s l))) bt s =
    Some (if st s n = getBlockProcessType bt then set_pstate (proc_at s n) READY s1 else s1)"
proof -
  let ?p = "proc_at s n" and ?t = "thread_at s l"
  note r = proc_ringD [OF sched_wfD(1) [OF wf]] and tr = thread_ringD [OF sched_wfD(3) [OF wf n]]
  have p: "?p \<noteq> NULL" "?t \<noteq> NULL" using r(7) n tr(7) l by auto
  have wf1: "sched_wf s1 qs ths" using wf by (simp add: s1_def sched_wf_set)
  have g: "getProcessWithPid (pid (procs s ?p)) s = Some ?p"
    using getProcessWithPid_hit [OF sched_wfD(1) [OF wf] n] .
  have gt: "getThreadWithPthread (pthread (threads s ?t)) ?p s = Some ?t"
    using getThreadWithPthread_hit [OF sched_wfD(3) [OF wf n] p(1) l] .
  have "snodes s1 = snodes s" "procs s1 = procs s" by (simp_all add: s1_def store_simps)
  then have "unblockProcess (pid (procs s ?p)) v s1 = Some (if st s n = v then set_pstate ?p READY s1 else s1)" for v
    using unblockProcess_eq [OF sched_wfD(1) [OF wf1] n, of v] by simp
  moreover have "(if tst s l = bt then set_thread ?t (\<lambda>t. t\<lparr>t_state := T_READY\<rparr>) s else Some s) = Some s1"
    using p by (simp add: s1_def set_tstate_def)
  ultimately show ?thesis using p by (simp add: unblockThread_def g gt)
qed

end
