(* ===== verification/SchedSteps.thy ===== *)
theory SchedSteps
  imports Scheduler
begin

section \<open>What the scheduler's operations do, and their invariant\<close>

text \<open>
  Waking all threads of a process, switching threads, the tick and yield handlers as a step
  relation, and the properties of the scheduler: who runs next, that at most the current
  process runs, that blocking stops a process exactly when it has no ready thread, that every
  ready process gets its turn, and what removing dead processes does.
\<close>

subsection \<open>Waking all threads of a process\<close>

definition wake1 :: "threadState \<Rightarrow> addr \<Rightarrow> addr \<Rightarrow> 'z sched_scheme \<Rightarrow> 'z sched_scheme" where
  \<comment> \<open>one iteration of the loop of \<open>unblockAllThreads\<close> on a well-formed queue\<close>
  "wake1 bt p l s =
     (if tst s l = bt then
        (let s = set_tstate (thread_at s l) T_READY s in
         if p_state (procs s p) = getBlockProcessType bt then set_pstate p READY s else s)
      else s)"

lemma wake1_shape [simp]: "same_shape s (wake1 bt p l s)"
  unfolding wake1_def Let_def by (auto intro: same_shape_trans [OF shape_set(2) shape_set(1)])

lemma wake1_select [store_simps]:
  shows "snodes (wake1 bt p l s) = snodes s" and "libs (wake1 bt p l s) = libs s"
    and "currentProcess (wake1 bt p l s) = currentProcess s"
    and "numberOfTicks (wake1 bt p l s) = numberOfTicks s"
    and "currentThread (procs (wake1 bt p l s) a) = currentThread (procs s a)"
  by (simp_all add: wake1_def Let_def store_simps)

lemma wake1_wf [inv_intros]: "sched_wf s qs ths \<Longrightarrow> sched_wf (wake1 bt p l s) qs ths"
  using proc_ringD(4) [OF sched_wfD(1)]
  by (intro sched_wf_shape' [OF wake1_shape]) (auto simp: store_simps)

lemma unblockLoop_fold:
  assumes "sched_wf s qs ths" and "n \<in> set qs" and "k = pid (procs s (proc_at s n))"
    and "chain (lnx s) c xs e" and "\<And>x. x \<in> set xs \<Longrightarrow> thread_at s x \<noteq> NULL"
    and "m - i = int (length xs)"
  shows "unblockLoop k bt m i c s = Some (fold (wake1 bt (proc_at s n)) xs s)"
  using assms
proof (induction xs arbitrary: c i s)
  case Nil
  then show ?case by (subst unblockLoop.simps) simp
next
  case (Cons x xs)
  let ?p = "proc_at s n"
  let ?s1 = "wake1 bt ?p x s"
  have x: "c = x" "x \<noteq> NULL" "thread_at s x \<noteq> NULL" and i: "i < m" using Cons.prems by auto
  have ch: "chain (lnx s) (lnx s x) xs e" using Cons.prems(4) by simp
  have wf1: "sched_wf (set_tstate (thread_at s x) T_READY s) qs ths" by (intro inv_intros Cons.prems)
  have "unblockProcess k (getBlockProcessType bt) (set_tstate (thread_at s x) T_READY s) =
      Some (if p_state (procs s ?p) = getBlockProcessType bt
        then set_pstate ?p READY (set_tstate (thread_at s x) T_READY s)
        else set_tstate (thread_at s x) T_READY s)"
    using unblockProcess_eq [OF sched_wfD(1) [OF wf1] Cons.prems(2)] Cons.prems(3)
    by (simp add: store_simps)
  then have body: "(if tst s x = bt then do {
            s \<leftarrow> set_thread (thread_at s x) (\<lambda>t. t\<lparr>t_state := T_READY\<rparr>) s;
            unblockProcess k (getBlockProcessType bt) s }
          else Some s) = Some ?s1"
    using x by (simp add: wake1_def Let_def store_simps) (simp add: set_tstate_def)
  have "unblockLoop k bt m (i + 1) (lnx s x) ?s1 = Some (fold (wake1 bt (proc_at ?s1 n)) xs ?s1)"
    using Cons.prems ch x(1)
    by (intro Cons.IH) (auto intro: inv_intros simp: store_simps same_shapeD(4) [OF wake1_shape])
  then show ?case using i x body
    by (subst unblockLoop.simps) (simp add: store_simps)
qed

lemma wake_fold:
  fixes bt :: threadState and p :: addr
  assumes "inj_on (thread_at s) (set xs)" and "distinct xs"
  defines "t \<equiv> fold (wake1 bt p) xs s"
  shows "same_shape s t" and "currentProcess t = currentProcess s"
    and "numberOfTicks t = numberOfTicks s" and "currentThread (procs t a) = currentThread (procs s a)"
    and "t_state (threads t b) = (if \<exists>x \<in> set xs. b = thread_at s x \<and> tst s x = bt then T_READY
      else t_state (threads s b))"
    and "p_state (procs t a) = (if a = p \<and> (\<exists>x \<in> set xs. tst s x = bt)
        \<and> p_state (procs s p) = getBlockProcessType bt then READY else p_state (procs s a))"
proof -
  have "same_shape s t \<and> currentProcess t = currentProcess s \<and> numberOfTicks t = numberOfTicks s
    \<and> (\<forall>a. currentThread (procs t a) = currentThread (procs s a))
    \<and> (\<forall>b. t_state (threads t b) = (if \<exists>x \<in> set xs. b = thread_at s x \<and> tst s x = bt then T_READY
        else t_state (threads s b)))
    \<and> (\<forall>a. p_state (procs t a) = (if a = p \<and> (\<exists>x \<in> set xs. tst s x = bt)
        \<and> p_state (procs s p) = getBlockProcessType bt then READY else p_state (procs s a)))"
    using assms(1,2) unfolding t_def
  proof (induction xs arbitrary: s)
    case Nil
    then show ?case by simp
  next
    case (Cons x xs)
    let ?s1 = "wake1 bt p x s"
    have at: "thread_at ?s1 y = thread_at s y" for y by (simp add: store_simps)
    have ne: "thread_at s y \<noteq> thread_at s x" if "y \<in> set xs" for y
      using Cons.prems that by (auto simp: inj_on_def)
    have tst1: "t_state (threads ?s1 (thread_at s y)) = tst s y" if "y \<in> set xs" for y
      using ne [OF that] by (simp add: wake1_def Let_def store_simps)
    have ih: "same_shape ?s1 (fold (wake1 bt p) xs ?s1)
      \<and> currentProcess (fold (wake1 bt p) xs ?s1) = currentProcess ?s1
      \<and> numberOfTicks (fold (wake1 bt p) xs ?s1) = numberOfTicks ?s1
      \<and> (\<forall>a. currentThread (procs (fold (wake1 bt p) xs ?s1) a) = currentThread (procs ?s1 a))
      \<and> (\<forall>b. t_state (threads (fold (wake1 bt p) xs ?s1) b) =
          (if \<exists>y \<in> set xs. b = thread_at ?s1 y \<and> tst ?s1 y = bt then T_READY
           else t_state (threads ?s1 b)))
      \<and> (\<forall>a. p_state (procs (fold (wake1 bt p) xs ?s1) a) =
          (if a = p \<and> (\<exists>y \<in> set xs. tst ?s1 y = bt)
            \<and> p_state (procs ?s1 p) = getBlockProcessType bt then READY else p_state (procs ?s1 a)))"
      using Cons.prems by (intro Cons.IH) (auto simp: at inj_on_def)
    have th: "t_state (threads ?s1 b) =
        (if b = thread_at s x \<and> tst s x = bt then T_READY else t_state (threads s b))" for b
      by (simp add: wake1_def Let_def store_simps)
    have pr: "p_state (procs ?s1 a) = (if a = p \<and> tst s x = bt
        \<and> p_state (procs s p) = getBlockProcessType bt then READY else p_state (procs s a))" for a
      by (simp add: wake1_def Let_def store_simps)
    have ex: "(\<exists>y \<in> set xs. Q y \<and> t_state (threads ?s1 (thread_at s y)) = bt) \<longleftrightarrow>
        (\<exists>y \<in> set xs. Q y \<and> tst s y = bt)" for Q
      using tst1 by auto
    let ?t = "fold (wake1 bt p) xs ?s1"
    have "t_state (threads ?t b) = (if \<exists>y \<in> set (x # xs). b = thread_at s y \<and> tst s y = bt
        then T_READY else t_state (threads s b))" for b
    proof -
      have "t_state (threads ?t b) = (if \<exists>y \<in> set xs. b = thread_at s y \<and> tst s y = bt
          then T_READY else t_state (threads ?s1 b))"
        using ih unfolding at ex by blast
      then show ?thesis unfolding th by auto
    qed
    moreover have "p_state (procs ?t a) = (if a = p \<and> (\<exists>y \<in> set (x # xs). tst s y = bt)
        \<and> p_state (procs s p) = getBlockProcessType bt then READY else p_state (procs s a))" for a
    proof -
      have "p_state (procs ?t a) = (if a = p \<and> (\<exists>y \<in> set xs. tst s y = bt)
          \<and> p_state (procs ?s1 p) = getBlockProcessType bt then READY else p_state (procs ?s1 a))"
        using ih ex [of "\<lambda>_. True"] unfolding at by (simp only: simp_thms)
      then show ?thesis unfolding pr by (auto split: if_splits)
    qed
    moreover have "same_shape s ?t" using ih same_shape_trans wake1_shape by blast
    moreover have "currentProcess ?t = currentProcess s \<and> numberOfTicks ?t = numberOfTicks s
        \<and> (\<forall>a. currentThread (procs ?t a) = currentThread (procs s a))"
      using ih by (simp add: store_simps)
    ultimately show ?case by (simp only: fold_simps) blast
  qed
  then show "same_shape s t" and "currentProcess t = currentProcess s"
    and "numberOfTicks t = numberOfTicks s" and "currentThread (procs t a) = currentThread (procs s a)"
    and "t_state (threads t b) = (if \<exists>x \<in> set xs. b = thread_at s x \<and> tst s x = bt then T_READY
      else t_state (threads s b))"
    and "p_state (procs t a) = (if a = p \<and> (\<exists>x \<in> set xs. tst s x = bt)
        \<and> p_state (procs s p) = getBlockProcessType bt then READY else p_state (procs s a))"
    by blast+
qed

lemma unblockAllThreads_eq:
  assumes wf: "sched_wf s qs ths" and n: "n \<in> set qs"
  shows "unblockAllThreads (pid (procs s (proc_at s n))) bt s =
    Some (fold (wake1 bt (proc_at s n)) (ths n) s)"
proof -
  note tr = thread_ringD [OF sched_wfD(3) [OF wf n]]
  have p: "proc_at s n \<noteq> NULL" using proc_ringD(7) [OF sched_wfD(1) [OF wf] n] .
  have ch: "chain (lnx s) (threadLibrary (procs s (proc_at s n))) (ths n)
      (threadLibrary (procs s (proc_at s n)))"
    using tr(1,3) by (simp add: ring_def)
  have "unblockLoop (pid (procs s (proc_at s n))) bt (threadSize (procs s (proc_at s n))) 0
      (threadLibrary (procs s (proc_at s n))) s = Some (fold (wake1 bt (proc_at s n)) (ths n) s)"
    using tr(7) threads_okD(2) [OF sched_wfD(2) [OF wf n]]
    by (intro unblockLoop_fold [OF wf n refl ch]) simp_all
  with p show ?thesis
    using getProcessWithPid_hit [OF sched_wfD(1) [OF wf] n] by (simp add: unblockAllThreads_def)
qed

lemma wake_all:
  fixes bt :: threadState
  assumes wf: "sched_wf s qs ths" and n: "n \<in> set qs"
  defines "t \<equiv> fold (wake1 bt (proc_at s n)) (ths n) s"
  shows "same_shape s t" and "currentProcess t = currentProcess s"
    and "numberOfTicks t = numberOfTicks s" and "currentThread (procs t a) = currentThread (procs s a)"
    and "t_state (threads t b) = (if \<exists>x \<in> set (ths n). b = thread_at s x \<and> tst s x = bt then T_READY
      else t_state (threads s b))"
    and "p_state (procs t a) = (if a = proc_at s n \<and> (\<exists>x \<in> set (ths n). tst s x = bt)
        \<and> st s n = getBlockProcessType bt then READY else p_state (procs s a))"
    and "sched_wf t qs ths"
proof -
  have "inj_on (thread_at s) (set (ths n))" "distinct (ths n)"
    using sched_wfD(3) [OF wf n] by (simp_all add: thread_ring_def ring_def)
  note f = wake_fold [OF this, of bt "proc_at s n", folded t_def]
  show "same_shape s t" and "currentProcess t = currentProcess s"
    and "numberOfTicks t = numberOfTicks s" and "currentThread (procs t a) = currentThread (procs s a)"
    and "t_state (threads t b) = (if \<exists>x \<in> set (ths n). b = thread_at s x \<and> tst s x = bt then T_READY
      else t_state (threads s b))"
    and "p_state (procs t a) = (if a = proc_at s n \<and> (\<exists>x \<in> set (ths n). tst s x = bt)
        \<and> st s n = getBlockProcessType bt then READY else p_state (procs s a))"
    using f by blast+
  show "sched_wf t qs ths"
    using proc_ringD(4) [OF sched_wfD(1) [OF wf]] f(2,4)
    by (intro sched_wf_shape' [OF f(1) wf]) simp_all
qed

subsection \<open>Switching threads\<close>

lemma deadThreadLoop_live_head:
  assumes "current \<noteq> NULL" and "thread_at s current \<noteq> NULL" and "tst s current \<noteq> T_DEAD"
  shows "deadThreadLoop n i current prev s = Some s"
proof (induction "nat (n - i)" arbitrary: i)
  case 0
  then show ?case by (subst deadThreadLoop.simps) simp
next
  case (Suc d)
  then have "deadThreadLoop n (i + 1) current prev s = Some s" by (intro Suc.hyps(1)) simp
  with Suc assms show ?case by (subst deadThreadLoop.simps) simp
qed

lemma removeDeadThreads_live_head:
  assumes "thread_ring s p ls" and "p \<noteq> NULL" and "tst s (threadLibrary (procs s p)) \<noteq> T_DEAD"
  shows "removeDeadThreads u p s = Some s"
proof -
  note r = thread_ringD [OF assms(1)]
  have "threadLibrary (procs s p) \<noteq> NULL" "thread_at s (threadLibrary (procs s p)) \<noteq> NULL"
    using r(5,6,7) by auto
  then have "deadThreadLoop (threadSize (procs s p)) 0 (threadLibrary (procs s p)) (prev_dead u) s = Some s"
    using assms(3) by (rule deadThreadLoop_live_head)
  with assms(2) show ?thesis by (simp add: removeDeadThreads_def)
qed

definition release_thread :: "addr \<Rightarrow> 'z sched_scheme \<Rightarrow> 'z sched_scheme" where
  "release_thread p s = (let t = thread_at s (currentThread (procs s p)) in
     if t_state (threads s t) = T_RUNNING then set_tstate t T_READY s else s)"

definition next_ready_thread :: "'z sched_scheme \<Rightarrow> addr \<Rightarrow> addr list \<Rightarrow> addr option" where
  "next_ready_thread s p ls =
     List.find (\<lambda>l. tst (release_thread p s) l = T_READY) (ring_after (currentThread (procs s p)) ls)"

definition dispatch_thread :: "addr \<Rightarrow> addr \<Rightarrow> 'z sched_scheme \<Rightarrow> 'z sched_scheme" where
  "dispatch_thread p l s = set_tstate (thread_at s l) T_RUNNING (set_current_thread p s l)"

lemma release_thread_shape [simp]: "same_shape s (release_thread p s)"
  by (simp add: release_thread_def Let_def)

lemma release_thread_select [store_simps]:
  shows "procs (release_thread p s) = procs s" and "libs (release_thread p s) = libs s"
    and "snodes (release_thread p s) = snodes s" and "currentProcess (release_thread p s) = currentProcess s"
    and "numberOfTicks (release_thread p s) = numberOfTicks s"
  by (simp_all add: release_thread_def Let_def store_simps)

lemma dispatch_thread_shape [simp]: "same_shape s (dispatch_thread p l s)"
  unfolding dispatch_thread_def by (rule same_shape_trans [OF shape_set(5) shape_set(2)])

lemma dispatch_thread_select [store_simps]:
  shows "currentThread (procs (dispatch_thread p l s) a) = (if a = p then l else currentThread (procs s a))"
    and "p_state (procs (dispatch_thread p l s) a) = p_state (procs s a)"
    and "currentProcess (dispatch_thread p l s) = currentProcess s"
    and "t_state (threads (dispatch_thread p l s) b) =
      (if b = thread_at s l then T_RUNNING else t_state (threads s b))"
    and "snodes (dispatch_thread p l s) = snodes s" and "libs (dispatch_thread p l s) = libs s"
  by (simp_all add: dispatch_thread_def set_current_thread_def store_simps)

lemma nextThread_eq:
  assumes ring: "proc_ring s qs" and "thread_ring s (proc_at s (currentProcess s)) ls"
    and dead: "tst s (hd ls) \<noteq> T_DEAD"
    and nxt: "next_ready_thread s (proc_at s (currentProcess s)) ls = Some l"
  shows "nextThread u s = Some (dispatch_thread (proc_at s (currentProcess s)) l
      (release_thread (proc_at s (currentProcess s)) s))" and "l \<in> set ls"
proof -
  let ?p = "proc_at s (currentProcess s)"
  let ?t = "release_thread ?p s"
  note q = proc_ringD [OF ring] and r = thread_ringD [OF assms(2)]
  have c: "currentProcess s \<noteq> NULL" "?p \<noteq> NULL" using q(4,6,7) by auto
  have ct: "currentThread (procs s ?p) \<noteq> NULL" "thread_at s (currentThread (procs s ?p)) \<noteq> NULL"
    using r(4,6,7) by auto
  have rd: "removeDeadThreads u ?p s = Some s"
    using removeDeadThreads_live_head [OF assms(2) c(2)] dead r(3) by simp
  obtain xs where xs: "chain (lnx s) (lnx s (currentThread (procs s ?p))) (xs @ [l]) (lnx s l)"
      "\<And>x. x \<in> set xs \<Longrightarrow> tst ?t x \<noteq> T_READY" "tst ?t l = T_READY" "l \<in> set ls" "set xs \<subseteq> set ls"
    using ring_find_split [OF r(1,4) nxt [unfolded next_ready_thread_def]] by blast
  show "l \<in> set ls" by (rule xs(4))
  define m where "m = (if xs = [] then currentThread (procs s ?p) else last xs)"
  have "walkThread ?p ?t = Some (set_current_thread ?p ?t
        (if xs = [] then currentThread (procs ?t ?p) else last xs))
      \<and> lnx ?t (if xs = [] then currentThread (procs ?t ?p) else last xs) = l"
    using xs r ct by (intro thread_walk.walk_chain [where q = "lnx s l"]) (auto simp: store_simps)
  then have w1: "walkThread ?p ?t = Some (set_current_thread ?p ?t m)" and w2: "lnx s m = l"
    unfolding m_def by (simp_all only: store_simps)
  have m: "m \<noteq> NULL" "l \<noteq> NULL" "thread_at s l \<noteq> NULL"
    using xs(4) r(6,7) ct(1) subsetD [OF xs(5) last_in_set] by (auto simp: m_def)
  have rel: "(if t_state (threads s (thread_at s (currentThread (procs s ?p)))) = T_RUNNING
      then set_thread (thread_at s (currentThread (procs s ?p))) (\<lambda>t. t\<lparr>t_state := T_READY\<rparr>) s
      else Some s) = Some ?t"
    using ct by (simp add: release_thread_def Let_def set_tstate_def)
  show "nextThread u s = Some (dispatch_thread ?p l ?t)"
    using c ct m w2
    by (simp add: nextThread_def currentProc_def rd currentThreadNode_def rel w1)
      (simp add: set_current_thread_def store_simps dispatch_thread_def set_tstate_def)
qed

lemma threadCheck_eq:
  assumes "proc_ring s qs"
  shows "threadCheck u s = (let p = proc_at s (currentProcess s) in
    if threadTick (procs s p) < THREAD_QUANTUM then Some (set_ttick p (threadTick (procs s p) + 1) s)
    else nextThread u (set_ttick p 0 s))"
proof -
  have "currentProcess s \<noteq> NULL" "proc_at s (currentProcess s) \<noteq> NULL"
    using proc_ringD(4,6,7) [OF assms] by auto
  then show ?thesis by (simp add: threadCheck_def currentProc_def set_ttick_def Let_def)
qed

text \<open>A walk that returns has found a ready node.\<close>

lemma walkThread_ready':
  "walkThread p s = Some t \<Longrightarrow> ring (lnx s) ls \<and> currentThread (procs s p) \<in> set ls \<longrightarrow>
    (\<exists>l \<in> set ls. tst s l = T_READY)"
proof (erule walkThread.raw_induct [rotated], intro impI)
  fix walk :: "addr \<Rightarrow> 'a sched_scheme \<Rightarrow> 'a sched_scheme option" and p s t
  assume ih: "\<And>p s t. walk p s = Some t \<Longrightarrow> ring (lnx s) ls \<and> currentThread (procs s p) \<in> set ls \<longrightarrow>
      (\<exists>l \<in> set ls. tst s l = T_READY)"
    and run: "do { cur \<leftarrow> get_lib s (currentThread (procs s p)); nxt \<leftarrow> get_lib s (l_next cur);
      thread \<leftarrow> get_thread s (l_thread nxt);
      if t_state thread = T_READY then Some s
      else walk p (set_current_thread p s (l_next cur)) } = Some t"
    and r: "ring (lnx s) ls \<and> currentThread (procs s p) \<in> set ls"
  let ?n = "lnx s (currentThread (procs s p))"
  have mem: "?n \<in> set ls" using ring_next_mem r by blast
  show "\<exists>l \<in> set ls. tst s l = T_READY"
  proof (cases "tst s ?n = T_READY")
    case True
    with mem show ?thesis by blast
  next
    case False
    from run False have "walk p (set_current_thread p s ?n) = Some t"
      by (auto split: bind_splits if_splits simp: get_lib_def get_thread_def)
    from ih [OF this] r mem show ?thesis by (simp add: set_current_thread_def)
  qed
qed

lemma walkProcess_ready':
  "walkProcess s = Some t \<Longrightarrow> ring (snx s) qs \<and> currentProcess s \<in> set qs \<longrightarrow>
    (\<exists>n \<in> set qs. st s n = READY)"
proof (erule walkProcess.raw_induct [rotated], intro impI)
  fix walk :: "'a sched_scheme \<Rightarrow> 'a sched_scheme option" and s t
  assume ih: "\<And>s t. walk s = Some t \<Longrightarrow> ring (snx s) qs \<and> currentProcess s \<in> set qs \<longrightarrow>
      (\<exists>n \<in> set qs. st s n = READY)"
    and run: "do { cur \<leftarrow> get_snode s (currentProcess s); nxt \<leftarrow> get_snode s (sn_next cur);
      proc \<leftarrow> get_proc s (sn_process nxt);
      if p_state proc = READY then Some s else walk (set_current s (sn_next cur)) } = Some t"
    and r: "ring (snx s) qs \<and> currentProcess s \<in> set qs"
  let ?n = "snx s (currentProcess s)"
  have mem: "?n \<in> set qs" using ring_next_mem r by blast
  show "\<exists>n \<in> set qs. st s n = READY"
  proof (cases "st s ?n = READY")
    case True
    with mem show ?thesis by blast
  next
    case False
    from run False have "walk (set_current s ?n) = Some t"
      by (auto split: bind_splits if_splits simp: get_snode_def get_proc_def)
    from ih [OF this] r mem show ?thesis by (simp add: set_current_def)
  qed
qed

lemmas walkThread_ready = walkThread_ready' [THEN mp, OF _ conjI]
lemmas walkProcess_ready = walkProcess_ready' [THEN mp, OF _ conjI]

lemma next_ready_None:
  assumes "ring (snx s) qs" and "currentProcess s \<in> set qs"
  shows "next_ready s qs = None \<longleftrightarrow> (\<forall>n \<in> set qs. st (release_current s) n \<noteq> READY)"
  unfolding next_ready_def find_None_all set_ring_after [OF assms] by simp

lemma next_ready_thread_None:
  assumes "ring (lnx s) ls" and "currentThread (procs s p) \<in> set ls"
  shows "next_ready_thread s p ls = None \<longleftrightarrow> (\<forall>l \<in> set ls. tst (release_thread p s) l \<noteq> T_READY)"
  unfolding next_ready_thread_def find_None_all set_ring_after [OF assms] by simp

lemma runScheduler_returns:
  assumes ring: "proc_ring s qs" and "QUANTUM \<le> numberOfTicks s"
    and dead: "\<And>n. n \<in> set qs \<Longrightarrow> st s n \<noteq> DEAD" and run: "runScheduler u s = Some t"
  shows "\<exists>a \<in> set qs. next_ready s qs = Some a \<and> t = dispatch a (release_current s)"
proof -
  note r = proc_ringD [OF ring]
  have d: "removeDeadProcess u s = Some s" using removeDeadProcess_alive [OF ring dead] .
  have c: "currentProcess s \<noteq> NULL" "proc_at s (currentProcess s) \<noteq> NULL" using r(4,6,7) by auto
  let ?t = "release_current (s\<lparr>numberOfTicks := 0\<rparr>)"
  have nt: "\<not> numberOfTicks s < QUANTUM" using assms(2) by simp
  have rel: "(if st s (currentProcess s) = RUNNING
      then set_proc (proc_at s (currentProcess s)) (\<lambda>p. p\<lparr>p_state := READY\<rparr>) (s\<lparr>numberOfTicks := 0\<rparr>)
      else Some (s\<lparr>numberOfTicks := 0\<rparr>)) = Some ?t"
    using c by (simp add: release_current_def Let_def)
  have "\<exists>v. walkProcess ?t = Some v"
  proof (cases "st s (currentProcess s) = RUNNING")
    case True
    then show ?thesis
      using run c rel by (simp add: runScheduler_def currentProc_def nt d Let_def split: bind_splits)
  next
    case False
    then show ?thesis
      using run c rel by (simp add: runScheduler_def currentProc_def nt d Let_def split: bind_splits)
  qed
  then obtain v where "walkProcess ?t = Some v" by blast
  then have "\<exists>n \<in> set qs. st ?t n = READY"
    using r(1,4) by (intro walkProcess_ready) (simp_all add: store_simps)
  moreover have "st ?t n = st (release_current s) n" for n by (simp add: release_current_def Let_def)
  ultimately have "next_ready s qs \<noteq> None" using next_ready_None [OF r(1,4)] by auto
  then obtain a where a: "next_ready s qs = Some a" by blast
  with runScheduler_switch [OF ring assms(2) d a] run show ?thesis by auto
qed

lemma nextThread_returns:
  assumes ring: "proc_ring s qs" and tr: "thread_ring s (proc_at s (currentProcess s)) ls"
    and dead: "tst s (hd ls) \<noteq> T_DEAD" and run: "nextThread u s = Some t"
  shows "\<exists>l \<in> set ls. next_ready_thread s (proc_at s (currentProcess s)) ls = Some l
    \<and> t = dispatch_thread (proc_at s (currentProcess s)) l (release_thread (proc_at s (currentProcess s)) s)"
proof -
  let ?p = "proc_at s (currentProcess s)"
  let ?t = "release_thread ?p s"
  note q = proc_ringD [OF ring] and r = thread_ringD [OF tr]
  have c: "currentProcess s \<noteq> NULL" "?p \<noteq> NULL" using q(4,6,7) by auto
  have ct: "currentThread (procs s ?p) \<noteq> NULL" "thread_at s (currentThread (procs s ?p)) \<noteq> NULL"
    using r(4,6,7) by auto
  have rd: "removeDeadThreads u ?p s = Some s"
    using removeDeadThreads_live_head [OF tr c(2)] dead r(3) by simp
  have rel: "(if t_state (threads s (thread_at s (currentThread (procs s ?p)))) = T_RUNNING
      then set_thread (thread_at s (currentThread (procs s ?p))) (\<lambda>t. t\<lparr>t_state := T_READY\<rparr>) s
      else Some s) = Some ?t"
    using ct by (simp add: release_thread_def Let_def set_tstate_def)
  have "\<exists>v. walkThread ?p ?t = Some v"
    using run c ct by (simp add: nextThread_def currentProc_def rd currentThreadNode_def rel
        split: bind_splits)
  then obtain v where "walkThread ?p ?t = Some v" by blast
  then have "\<exists>l \<in> set ls. tst ?t l = T_READY"
    using r(1,4) by (intro walkThread_ready) (simp_all add: store_simps)
  then have "next_ready_thread s ?p ls \<noteq> None" using next_ready_thread_None [OF r(1,4)] by auto
  then obtain l where l: "next_ready_thread s ?p ls = Some l" by blast
  with nextThread_eq [OF ring tr dead l] run show ?thesis by auto
qed

subsection \<open>The invariant\<close>

definition running_inv :: "'z sched_scheme \<Rightarrow> addr list \<Rightarrow> (addr \<Rightarrow> addr list) \<Rightarrow> bool" where
  \<comment> \<open>only the current process runs, in each process only the current thread, and nothing is dead\<close>
  "running_inv s qs ths \<longleftrightarrow>
     (\<forall>n \<in> set qs. (st s n = RUNNING \<longrightarrow> n = currentProcess s) \<and> st s n \<noteq> DEAD
       \<and> (\<forall>l \<in> set (ths n). (tst s l = T_RUNNING \<longrightarrow> l = currentThread (procs s (proc_at s n)))
            \<and> tst s l \<noteq> T_DEAD))"

definition sched_inv :: "'z sched_scheme \<Rightarrow> addr list \<Rightarrow> (addr \<Rightarrow> addr list) \<Rightarrow> bool" where
  "sched_inv s qs ths \<longleftrightarrow> sched_wf s qs ths \<and> running_inv s qs ths"

lemma sched_invD:
  assumes "sched_inv s qs ths"
  shows "sched_wf s qs ths" and "proc_ring s qs"
    and "n \<in> set qs \<Longrightarrow> thread_ring s (proc_at s n) (ths n)"
    and "n \<in> set qs \<Longrightarrow> st s n = RUNNING \<Longrightarrow> n = currentProcess s"
    and "n \<in> set qs \<Longrightarrow> st s n \<noteq> DEAD"
    and "n \<in> set qs \<Longrightarrow> l \<in> set (ths n) \<Longrightarrow> tst s l = T_RUNNING \<Longrightarrow>
      l = currentThread (procs s (proc_at s n))"
    and "n \<in> set qs \<Longrightarrow> l \<in> set (ths n) \<Longrightarrow> tst s l \<noteq> T_DEAD"
  using assms sched_wfD(1,3) [of s qs ths] by (simp_all add: sched_inv_def running_inv_def)

text \<open>Changing states without starting or killing anything.\<close>

lemma sched_inv_tame:
  assumes inv: "sched_inv s qs ths" and sh: "same_shape s t"
    and "currentProcess t = currentProcess s"
    and "\<And>a. currentThread (procs t a) = currentThread (procs s a)"
    and p: "\<And>a. p_state (procs t a) = p_state (procs s a) \<or> p_state (procs t a) \<notin> {RUNNING, DEAD}"
    and t: "\<And>a. t_state (threads t a) = t_state (threads s a) \<or> t_state (threads t a) \<notin> {T_RUNNING, T_DEAD}"
  shows "sched_inv t qs ths"
proof -
  note i = sched_invD [OF inv]
  have "sched_wf t qs ths"
    using assms(3,4) proc_ringD(4) [OF i(2)] by (intro sched_wf_shape' [OF sh i(1)]) simp_all
  moreover have "st t n \<noteq> DEAD \<and> (st t n = RUNNING \<longrightarrow> n = currentProcess t)" if "n \<in> set qs" for n
    using p [of "proc_at s n"] i(4,5) [OF that] assms(3) same_shapeD(1) [OF sh] by auto
  moreover have "tst t l \<noteq> T_DEAD \<and> (tst t l = T_RUNNING \<longrightarrow> l = currentThread (procs t (proc_at t n)))"
    if "n \<in> set qs" "l \<in> set (ths n)" for n l
    using t [of "thread_at s l"] i(6,7) [OF that] assms(4) same_shapeD(1,2) [OF sh] by auto
  ultimately show ?thesis by (simp add: sched_inv_def running_inv_def)
qed

lemma blocked_not_running:
  "isThreadBlocked bt \<Longrightarrow> bt \<notin> {T_RUNNING, T_DEAD} \<and> getBlockProcessType bt \<notin> {RUNNING, DEAD}"
  by (cases bt) (auto simp: isThreadBlocked_def)

lemma process_known:
  assumes "proc_ring s qs" and "getProcessWithPid k s = Some p" and "p \<noteq> NULL"
  shows "\<exists>n \<in> set qs. k = pid (procs s (proc_at s n)) \<and> p = proc_at s n"
proof (cases "\<exists>n \<in> set qs. pid (procs s (proc_at s n)) = k")
  case True
  then show ?thesis using getProcessWithPid_hit [OF assms(1)] assms(2) by force
next
  case False
  then have "getProcessWithPid k s = Some NULL" by (intro getProcessWithPid_miss [OF assms(1)]) blast
  with assms(2,3) show ?thesis by simp
qed

lemma thread_known:
  assumes wf: "sched_wf s qs ths" and "getProcessWithPid k s = Some p"
    and "getThreadWithPthread pt p s = Some t" and "t \<noteq> NULL"
  shows "\<exists>n \<in> set qs. \<exists>l \<in> set (ths n). k = pid (procs s (proc_at s n))
    \<and> pt = pthread (threads s (thread_at s l))"
proof -
  have p: "p \<noteq> NULL"
  proof
    assume "p = NULL"
    with assms(3) show False by (simp add: getThreadWithPthread_def)
  qed
  then obtain n where n: "n \<in> set qs" "k = pid (procs s (proc_at s n))" "p = proc_at s n"
    using process_known [OF sched_wfD(1) [OF wf] assms(2)] by blast
  have "\<exists>l \<in> set (ths n). pthread (threads s (thread_at s l)) = pt"
  proof (rule ccontr)
    assume "\<not> ?thesis"
    then have "getThreadWithPthread pt p s = Some NULL" unfolding n(3)
      using p n(3) by (intro getThreadWithPthread_miss [OF sched_wfD(3) [OF wf n(1)]]) blast+
    with assms(3,4) show False by simp
  qed
  with n show ?thesis by blast
qed

lemma blockThread_known:
  assumes "sched_wf s qs ths" and "blockThread k pt bt s = Some t"
  shows "\<exists>n \<in> set qs. \<exists>l \<in> set (ths n). k = pid (procs s (proc_at s n))
    \<and> pt = pthread (threads s (thread_at s l))"
proof -
  obtain p x where "getProcessWithPid k s = Some p" "getThreadWithPthread pt p s = Some x" "x \<noteq> NULL"
    using assms(2) by (auto simp: blockThread_def set_thread_def split: bind_splits)
  then show ?thesis using thread_known [OF assms(1)] by blast
qed

lemma unblockThread_known:
  assumes "sched_wf s qs ths" and "unblockThread k pt bt s = Some t"
  shows "\<exists>n \<in> set qs. \<exists>l \<in> set (ths n). k = pid (procs s (proc_at s n))
    \<and> pt = pthread (threads s (thread_at s l))"
proof -
  obtain p x where "getProcessWithPid k s = Some p" "getThreadWithPthread pt p s = Some x" "x \<noteq> NULL"
    using assms(2) by (auto simp: unblockThread_def get_thread_def split: bind_splits)
  then show ?thesis using thread_known [OF assms(1)] by blast
qed

lemma unblockAllThreads_known:
  assumes "sched_wf s qs ths" and "unblockAllThreads k bt s = Some t"
  shows "\<exists>n \<in> set qs. k = pid (procs s (proc_at s n))"
proof -
  obtain p where "getProcessWithPid k s = Some p" "p \<noteq> NULL"
    using assms(2) by (auto simp: unblockAllThreads_def get_proc_def split: bind_splits)
  then show ?thesis using process_known [OF sched_wfD(1) [OF assms(1)]] by blast
qed

lemma blockThread_inv [inv_intros]:
  assumes inv: "sched_inv s qs ths" and bt: "isThreadBlocked bt" and run: "blockThread k pt bt s = Some t"
  shows "sched_inv t qs ths"
proof -
  note wf = sched_invD(1) [OF inv]
  obtain n l where n: "n \<in> set qs" "l \<in> set (ths n)" "k = pid (procs s (proc_at s n))"
      "pt = pthread (threads s (thread_at s l))"
    using blockThread_known [OF wf run] by blast
  define s1 where "s1 = set_ttick (proc_at s n) THREAD_QUANTUM (set_tstate (thread_at s l) bt s)"
  have sh1: "same_shape s s1" unfolding s1_def by (rule same_shape_trans [OF shape_set(2) shape_set(3)])
  define s2 where "s2 = (set_pstate (proc_at s n) (getBlockProcessType bt) s1)\<lparr>numberOfTicks := QUANTUM\<rparr>"
  have sh2: "same_shape s s2" unfolding s2_def
    by (intro same_shape_trans [OF sh1] same_shape_trans [OF shape_set(1) shape_set(4)])
  have "t = s1 \<or> t = s2"
    using run blockThread_eq [OF wf n(1,2), of bt] n(3,4) unfolding s1_def s2_def by (auto split: if_splits)
  moreover have "sched_inv s1 qs ths"
    using blocked_not_running [OF bt]
    by (intro sched_inv_tame [OF inv sh1]) (auto simp: s1_def store_simps)
  moreover have "sched_inv s2 qs ths"
    using blocked_not_running [OF bt]
    by (intro sched_inv_tame [OF inv sh2]) (auto simp: s2_def s1_def store_simps)
  ultimately show ?thesis by blast
qed

lemma unblockThread_inv [inv_intros]:
  assumes inv: "sched_inv s qs ths" and run: "unblockThread k pt bt s = Some t"
  shows "sched_inv t qs ths"
proof -
  note wf = sched_invD(1) [OF inv]
  obtain n l where n: "n \<in> set qs" "l \<in> set (ths n)" "k = pid (procs s (proc_at s n))"
      "pt = pthread (threads s (thread_at s l))"
    using unblockThread_known [OF wf run] by blast
  define s1 where "s1 = (if tst s l = bt then set_tstate (thread_at s l) T_READY s else s)"
  have t: "t = (if st s n = getBlockProcessType bt then set_pstate (proc_at s n) READY s1 else s1)"
    using run unblockThread_eq [OF wf n(1,2), of bt] n(3,4) unfolding s1_def by simp
  have "same_shape s s1" by (simp add: s1_def)
  then have "same_shape s t" unfolding t by (auto intro: same_shape_trans [OF _ shape_set(1)])
  then show ?thesis
    by (rule sched_inv_tame [OF inv]) (auto simp: t s1_def store_simps)
qed

lemma unblockAllThreads_inv [inv_intros]:
  assumes inv: "sched_inv s qs ths" and run: "unblockAllThreads k bt s = Some t"
  shows "sched_inv t qs ths"
proof -
  note wf = sched_invD(1) [OF inv]
  obtain n where n: "n \<in> set qs" "k = pid (procs s (proc_at s n))"
    using unblockAllThreads_known [OF wf run] by blast
  have t: "t = fold (wake1 bt (proc_at s n)) (ths n) s"
    using run unblockAllThreads_eq [OF wf n(1), of bt] n(2) by simp
  note w = wake_all [OF wf n(1), of bt, folded t]
  show ?thesis by (rule sched_inv_tame [OF inv w(1,2,4)]) (simp_all add: w(5,6))
qed

lemma release_state:
  "p_state (procs (release_current s) a) =
    (if a = proc_at s (currentProcess s) \<and> p_state (procs s a) = RUNNING then READY
     else p_state (procs s a))"
  by (auto simp: release_current_def Let_def)

lemma release_thread_state:
  "t_state (threads (release_thread p s) a) =
    (if a = thread_at s (currentThread (procs s p)) \<and> t_state (threads s a) = T_RUNNING
     then T_READY else t_state (threads s a))"
  by (auto simp: release_thread_def Let_def store_simps)

lemma dispatch_inv [inv_intros]:
  assumes inv: "sched_inv s qs ths" and a: "a \<in> set qs"
  shows "sched_inv (dispatch a (release_current s)) qs ths"
proof -
  let ?t = "dispatch a (release_current s)"
  note i = sched_invD [OF inv] and r = proc_ringD [OF sched_invD(2) [OF inv]]
  have "same_shape s ?t"
    by (simp add: same_shape_def dispatch_def release_current_def Let_def)
  then have "sched_wf ?t qs ths"
    using a by (intro sched_wf_shape' [OF _ i(1)]) (simp_all add: store_simps)
  moreover have "st ?t n \<noteq> DEAD \<and> (st ?t n = RUNNING \<longrightarrow> n = currentProcess ?t)" if n: "n \<in> set qs" for n
    using i(4,5) [OF n] r(8) [OF n a] r(8) [OF n r(4)]
    by (auto simp: store_simps release_state)
  moreover have "tst ?t l = tst s l" "currentThread (procs ?t b) = currentThread (procs s b)" for l b
    by (simp_all add: store_simps)
  ultimately show ?thesis
    using i(6,7) by (simp add: sched_inv_def running_inv_def store_simps)
qed

lemma dispatch_thread_inv [inv_intros]:
  assumes inv: "sched_inv s qs ths" and n: "n \<in> set qs" and l: "l \<in> set (ths n)"
  shows "sched_inv (dispatch_thread (proc_at s n) l (release_thread (proc_at s n) s)) qs ths"
proof -
  let ?p = "proc_at s n"
  let ?t = "dispatch_thread ?p l (release_thread ?p s)"
  note i = sched_invD [OF inv] and r = proc_ringD [OF sched_invD(2) [OF inv]]
  have sh: "same_shape s ?t" by (rule same_shape_trans [OF release_thread_shape dispatch_thread_shape])
  have "sched_wf ?t qs ths"
    using r(4) r(8) n l thread_ringD(4) [OF i(3)]
    by (intro sched_wf_shape [OF sh i(1)]) (auto simp: store_simps)
  moreover have "st ?t m = st s m" "currentProcess ?t = currentProcess s" for m
    by (simp_all add: store_simps)
  moreover have "tst ?t k \<noteq> T_DEAD \<and> (tst ?t k = T_RUNNING \<longrightarrow> k = currentThread (procs ?t (proc_at ?t m)))"
    if m: "m \<in> set qs" and k: "k \<in> set (ths m)" for m k
  proof (cases "m = n")
    case True
    have "thread_at s k = thread_at s l \<longleftrightarrow> k = l"
      using thread_ringD(8) [OF i(3) [OF n]] k l True by blast
    then show ?thesis using i(6,7) [OF m k] True
      by (auto simp: store_simps release_thread_state)
  next
    case False
    have "thread_at s k \<noteq> thread_at s l"
      using sched_wfD(4) [OF i(1) m n False k l] .
    moreover have "thread_at s k \<noteq> thread_at s (currentThread (procs s ?p))"
      using sched_wfD(4) [OF i(1) m n False k thread_ringD(4) [OF i(3) [OF n]]] .
    moreover have "proc_at s m \<noteq> ?p" using r(8) [OF m n] False by simp
    ultimately show ?thesis using i(6,7) [OF m k]
      by (simp add: store_simps release_thread_state)
  qed
  ultimately show ?thesis
    using i(4,5) by (simp add: sched_inv_def running_inv_def)
qed

lemma ticks_inv [inv_intros]:
  "sched_inv s qs ths \<Longrightarrow> sched_inv (s\<lparr>numberOfTicks := i\<rparr>) qs ths"
  by (rule sched_inv_tame [OF _ shape_set(4)]) simp_all

lemma ttick_inv [inv_intros]: "sched_inv s qs ths \<Longrightarrow> sched_inv (set_ttick p i s) qs ths"
  by (rule sched_inv_tame [OF _ shape_set(3)]) (simp_all add: store_simps)

lemma threadCheck_inv [inv_intros]:
  assumes inv: "sched_inv s qs ths" and run: "threadCheck u s = Some t"
  shows "sched_inv t qs ths"
proof -
  let ?p = "proc_at s (currentProcess s)"
  note i = sched_invD [OF inv]
  have c: "currentProcess s \<in> set qs" using proc_ringD(4) [OF i(2)] .
  show ?thesis
  proof (cases "threadTick (procs s ?p) < THREAD_QUANTUM")
    case True
    then have "t = set_ttick ?p (threadTick (procs s ?p) + 1) s"
      using run threadCheck_eq [OF i(2)] by (simp add: Let_def)
    then show ?thesis using inv by (simp add: ttick_inv)
  next
    case False
    let ?s = "set_ttick ?p 0 s"
    have inv': "sched_inv ?s qs ths" using inv by (rule ttick_inv)
    note i' = sched_invD [OF inv']
    have p: "proc_at ?s (currentProcess ?s) = ?p" "currentProcess ?s = currentProcess s"
      by (simp_all add: store_simps)
    have tr: "thread_ring ?s (proc_at ?s (currentProcess ?s)) (ths (currentProcess s))"
      using i'(3) [OF c] p by simp
    have run': "nextThread u ?s = Some t" using run False threadCheck_eq [OF i(2)] by (simp add: Let_def)
    have "tst ?s (hd (ths (currentProcess s))) \<noteq> T_DEAD"
      using i'(7) [OF c] thread_ringD(2) [OF tr] by simp
    from nextThread_returns [OF i'(2) tr this run', unfolded p(2)] obtain l where
      l: "l \<in> set (ths (currentProcess s))" "t = dispatch_thread (proc_at ?s (currentProcess s)) l
        (release_thread (proc_at ?s (currentProcess s)) ?s)"
      by (elim bexE conjE)
    show ?thesis unfolding l(2) by (rule dispatch_thread_inv [OF inv' c l(1)])
  qed
qed

lemma runScheduler_inv [inv_intros]:
  assumes inv: "sched_inv s qs ths" and run: "runScheduler u s = Some t"
  shows "sched_inv t qs ths"
proof (cases "numberOfTicks s < QUANTUM")
  case True
  have "currentProcess s \<noteq> NULL" using proc_ringD(4,6) [OF sched_invD(2) [OF inv]] by blast
  then have "threadCheck u (s\<lparr>numberOfTicks := numberOfTicks s + 1\<rparr>) = Some t"
    using run True by (simp add: runScheduler_def)
  then show ?thesis using inv by (blast intro: inv_intros)
next
  case False
  then obtain a where "a \<in> set qs" "t = dispatch a (release_current s)"
    using runScheduler_returns [OF sched_invD(2) [OF inv] _ sched_invD(5) [OF inv] run] by auto
  then show ?thesis using inv by (simp add: dispatch_inv)
qed

lemma yieldSwitch_inv [inv_intros]:
  assumes inv: "sched_inv s qs ths" and run: "yieldSwitch u s = Some t"
  shows "sched_inv t qs ths"
proof -
  let ?p = "proc_at s (currentProcess s)"
  note i = sched_invD [OF inv]
  have c: "currentProcess s \<in> set qs" using proc_ringD(4) [OF i(2)] .
  then have n: "currentProcess s \<noteq> NULL" "?p \<noteq> NULL" using proc_ringD(6,7) [OF i(2)] by auto
  have "currentThread (procs s ?p) \<noteq> NULL" "thread_at s (currentThread (procs s ?p)) \<noteq> NULL"
    using thread_ringD(4,6,7) [OF i(3) [OF c]] by auto
  then have "t = s \<or> runScheduler u (s\<lparr>numberOfTicks := QUANTUM\<rparr>) = Some t
      \<or> runScheduler u (set_ttick ?p THREAD_QUANTUM s) = Some t"
    using run n by (auto simp: yieldSwitch_def currentProc_def currentThreadNode_def set_ttick_def
        split: if_splits)
  then show ?thesis using inv by (blast intro: inv_intros)
qed

text \<open>
  What happens to the queue between two changes of its membership: ticks, yields, and threads
  that are blocked and woken.
\<close>

inductive sched_step :: "uninit \<Rightarrow> 'z sched_scheme \<Rightarrow> 'z sched_scheme \<Rightarrow> bool" for u where
  tick: "runScheduler u s = Some t \<Longrightarrow> sched_step u s t"
| yield: "yieldSwitch u s = Some t \<Longrightarrow> sched_step u s t"
| block: "isThreadBlocked bt \<Longrightarrow> blockThread k pt bt s = Some t \<Longrightarrow> sched_step u s t"
| unblock: "unblockThread k pt bt s = Some t \<Longrightarrow> sched_step u s t"
| wake: "unblockAllThreads k bt s = Some t \<Longrightarrow> sched_step u s t"

inductive sched_reach :: "uninit \<Rightarrow> 'z sched_scheme \<Rightarrow> 'z sched_scheme \<Rightarrow> bool" for u s where
  start: "sched_reach u s s"
| step: "sched_reach u s t \<Longrightarrow> sched_step u t r \<Longrightarrow> sched_reach u s r"

inductive_cases sched_stepE: "sched_step u s t"

lemma sched_step_inv: "sched_step u s t \<Longrightarrow> sched_inv s qs ths \<Longrightarrow> sched_inv t qs ths"
  by (erule sched_stepE) (blast intro: inv_intros)+

lemma sched_reach_inv: "sched_reach u s t \<Longrightarrow> sched_inv s qs ths \<Longrightarrow> sched_inv t qs ths"
  by (induction rule: sched_reach.induct) (auto intro: sched_step_inv)

subsection \<open>A queue of three processes\<close>

text \<open>
  Three processes with one thread each, on the first twelve pages; the first one runs, the
  second waits for input, the third is ready.
\<close>

definition demo_locals :: uninit where
  "demo_locals = \<lparr>prev_lib = 0x1006000, prev_node = 0x1000000, prev_dead = 0x1006000,
     i_all = 0, i_header = 0\<rparr>"

definition demo_queue :: "addr list" where
  "demo_queue = [0x1000000, 0x1001000, 0x1002000]"

definition demo_threads :: "addr \<Rightarrow> addr list" where
  "demo_threads n = [n + 0x6000]"

definition demo_proc :: "int \<Rightarrow> processState \<Rightarrow> addr \<Rightarrow> processNode" where
  "demo_proc k v l = zero_proc\<lparr>pid := k, p_state := v, threadLibrary := l, currentThread := l,
     threadSize := 1, currentPThread := 1\<rparr>"

definition demo :: sched where
  "demo = blank_sched\<lparr>usedMap := mask 12 # replicate 895 0,
     snodes := (snodes blank_sched)(
       0x1000000 := \<lparr>sn_process = 0x1003000, sn_next = 0x1001000\<rparr>,
       0x1001000 := \<lparr>sn_process = 0x1004000, sn_next = 0x1002000\<rparr>,
       0x1002000 := \<lparr>sn_process = 0x1005000, sn_next = 0x1000000\<rparr>),
     procs := (procs blank_sched)(
       0x1003000 := demo_proc 0 RUNNING 0x1006000,
       0x1004000 := demo_proc 2 BLOCKED_IO 0x1007000,
       0x1005000 := demo_proc 1 READY 0x1008000),
     libs := (libs blank_sched)(
       0x1006000 := \<lparr>l_thread = 0x1009000, l_next = 0x1006000\<rparr>,
       0x1007000 := \<lparr>l_thread = 0x100A000, l_next = 0x1007000\<rparr>,
       0x1008000 := \<lparr>l_thread = 0x100B000, l_next = 0x1008000\<rparr>),
     threads := (threads blank_sched)(0x1009000 := zero_thread\<lparr>t_state := T_RUNNING\<rparr>,
       0x100A000 := zero_thread\<lparr>t_state := T_BLOCKED_IO\<rparr>),
     pidCount := 3, processQueue := 0x1000000, currentProcess := 0x1000000, queueSize := 3\<rparr>"

lemma demo_nodes: "n \<in> set demo_queue \<longleftrightarrow> n = 0x1000000 \<or> n = 0x1001000 \<or> n = 0x1002000"
  by (auto simp: demo_queue_def)

lemma demo_owned: "owned_pages demo = (\<lambda>k. 0x1000000 + k * 0x1000) ` {..<12}"
proof -
  have "usedMap demo = mask 12 # replicate 895 0" "blocksAmount demo = 28671"
    by (simp_all add: demo_def blank_sched_def)
  then have "used_pages demo = {p. p < 28671 \<and> p < 12}"
    by (simp add: used_pages_def occupied_mask)
  also have "\<dots> = {..<12}" by auto
  finally have "used_pages demo = {..<12}" .
  moreover have "page_addr demo = (\<lambda>k. 0x1000000 + k * 0x1000)"
    by (simp add: fun_eq_iff page_addr_def demo_def blank_sched_def)
  ultimately show ?thesis by (simp add: owned_pages_def)
qed

lemma demo_select:
  shows "snodes demo 0x1000000 = \<lparr>sn_process = 0x1003000, sn_next = 0x1001000\<rparr>"
    and "snodes demo 0x1001000 = \<lparr>sn_process = 0x1004000, sn_next = 0x1002000\<rparr>"
    and "snodes demo 0x1002000 = \<lparr>sn_process = 0x1005000, sn_next = 0x1000000\<rparr>"
    and "procs demo 0x1003000 = demo_proc 0 RUNNING 0x1006000"
    and "procs demo 0x1004000 = demo_proc 2 BLOCKED_IO 0x1007000"
    and "procs demo 0x1005000 = demo_proc 1 READY 0x1008000"
    and "libs demo 0x1006000 = \<lparr>l_thread = 0x1009000, l_next = 0x1006000\<rparr>"
    and "libs demo 0x1007000 = \<lparr>l_thread = 0x100A000, l_next = 0x1007000\<rparr>"
    and "libs demo 0x1008000 = \<lparr>l_thread = 0x100B000, l_next = 0x1008000\<rparr>"
    and "threads demo 0x1009000 = zero_thread\<lparr>t_state := T_RUNNING\<rparr>"
    and "threads demo 0x100A000 = zero_thread\<lparr>t_state := T_BLOCKED_IO\<rparr>"
    and "threads demo 0x100B000 = zero_thread"
    and "processQueue demo = 0x1000000" and "currentProcess demo = 0x1000000"
    and "numberOfTicks demo = 0" and "queueSize demo = 3"
  by (simp_all add: demo_def blank_sched_def)

lemma demo_page: "k < 12 \<Longrightarrow> 0x1000000 + k * 0x1000 \<in> owned_pages demo"
  by (simp add: demo_owned)

lemma demo_ring: "proc_ring demo demo_queue"
  by (simp add: proc_ring_def ring_def demo_queue_def demo_select demo_proc_def zero_proc_def)

lemma demo_threads_ok: "n \<in> set demo_queue \<Longrightarrow> threads_ok demo (proc_at demo n) (demo_threads n)"
  using demo_page [of 6] demo_page [of 7] demo_page [of 8] demo_page [of 9] demo_page [of 10]
    demo_page [of 11]
  by (auto simp: demo_nodes threads_ok_def thread_ring_def ring_def demo_threads_def demo_select
      demo_proc_def zero_proc_def zero_thread_def)

lemma demo_inv: "sched_inv demo demo_queue demo_threads"
proof -
  have "sched_wf demo demo_queue demo_threads"
    using demo_ring demo_threads_ok unfolding sched_wf_def
    by (auto simp: demo_nodes demo_threads_def demo_select)
  moreover have "running_inv demo demo_queue demo_threads"
    by (auto simp: running_inv_def demo_nodes demo_threads_def demo_select demo_proc_def
        zero_proc_def zero_thread_def)
  ultimately show ?thesis by (simp add: sched_inv_def)
qed

end
