(* ===== verification/SchedProps.thy ===== *)
theory SchedProps
  imports SchedSteps
begin

section \<open>Properties of the scheduler\<close>

text \<open>
  Who runs next, when the switch returns at all, that every process gets its turn, that at most
  one process runs, when a process stops and starts with its threads, and what happens to dead
  threads and processes.
\<close>

subsection \<open>The order of the turns\<close>

lemma chain_nth: "chain nx p xs q \<Longrightarrow> i < length xs \<Longrightarrow> xs ! i = (nx ^^ i) p"
proof (induction xs arbitrary: p i)
  case Nil
  then show ?case by simp
next
  case (Cons a xs)
  then show ?case by (cases i) (simp_all add: funpow_swap1)
qed

lemma ring_after_nth:
  assumes "ring nx qs" and "c \<in> set qs" and "j < length qs"
  shows "ring_after c qs ! j = (nx ^^ Suc j) c"
  using chain_nth [OF ring_chain_after [OF assms(1,2)], of j] assms(3)
    length_ring_after [OF assms(1,2)] by (simp add: funpow_swap1)

lemma ring_after_hd:
  assumes "ring nx qs" and "c \<in> set qs"
  shows "ring_after c qs = nx c # List.tl (ring_after c qs)"
proof -
  have "chain nx (nx c) (ring_after c qs) (nx c)" by (rule ring_chain_after [OF assms])
  moreover have "ring_after c qs \<noteq> []" by (simp add: ring_after_def)
  ultimately show ?thesis by (cases "ring_after c qs") auto
qed

primrec ticks :: "uninit \<Rightarrow> nat \<Rightarrow> 'z sched_scheme \<Rightarrow> 'z sched_scheme option" where
  \<comment> \<open>\<open>j\<close> timer interrupts in a row\<close>
  "ticks u 0 s = Some s"
| "ticks u (Suc j) s = do { t \<leftarrow> runScheduler u s; ticks u j t }"

lemma ticks_add: "ticks u (i + j) s = do { t \<leftarrow> ticks u i s; ticks u j t }"
  by (induction i arbitrary: s) (simp_all split: bind_splits)

definition all_runnable :: "'z sched_scheme \<Rightarrow> addr list \<Rightarrow> (addr \<Rightarrow> addr list) \<Rightarrow> bool" where
  \<comment> \<open>every process is ready or the running one, and has a thread that is ready or running\<close>
  "all_runnable s qs ths \<longleftrightarrow> (\<forall>n \<in> set qs.
     (st s n = READY \<or> st s n = RUNNING \<and> n = currentProcess s)
     \<and> (\<exists>l \<in> set (ths n). tst s l \<in> {T_READY, T_RUNNING}))"

lemma all_runnable_next:
  assumes "proc_ring s qs" and "all_runnable s qs ths"
  shows "next_ready s qs = Some (snx s (currentProcess s))"
proof -
  note r = proc_ringD [OF assms(1)]
  have "snx s (currentProcess s) \<in> set qs" using ring_next_mem [OF r(1,4)] .
  then have "st (release_current s) (snx s (currentProcess s)) = READY"
    using assms(2) by (auto simp: all_runnable_def release_state store_simps)
  moreover obtain ys where "ring_after (currentProcess s) qs = snx s (currentProcess s) # ys"
    using ring_after_hd [OF r(1,4)] by blast
  ultimately show ?thesis by (simp add: next_ready_def)
qed

text \<open>A tick within the quantum: the process stays, its next thread may come.\<close>

lemma runnable_thread:
  assumes inv: "sched_inv s qs ths" and n: "n \<in> set qs"
    and run: "\<exists>l \<in> set (ths n). tst s l \<in> {T_READY, T_RUNNING}"
  shows "next_ready_thread s (proc_at s n) (ths n) \<noteq> None"
proof -
  note i = sched_invD [OF inv] and tr = thread_ringD [OF sched_invD(3) [OF inv n]]
  obtain l where l: "l \<in> set (ths n)" "tst s l \<in> {T_READY, T_RUNNING}" using run by blast
  then have "tst (release_thread (proc_at s n) s) l = T_READY"
    using i(6) [OF n l(1)] by (auto simp: store_simps release_thread_state)
  then show ?thesis using next_ready_thread_None [OF tr(1,4)] l(1) by blast
qed

lemma threadCheck_runnable:
  assumes inv: "sched_inv s qs ths"
    and run: "\<exists>l \<in> set (ths (currentProcess s)). tst s l \<in> {T_READY, T_RUNNING}"
  shows "\<exists>t. threadCheck u s = Some t \<and> snodes t = snodes s \<and> libs t = libs s
    \<and> currentProcess t = currentProcess s \<and> numberOfTicks t = numberOfTicks s
    \<and> (\<forall>a. p_state (procs t a) = p_state (procs s a))
    \<and> (\<forall>a. t_state (threads s a) \<in> {T_READY, T_RUNNING} \<longrightarrow> t_state (threads t a) \<in> {T_READY, T_RUNNING})"
proof -
  let ?c = "currentProcess s" and ?p = "proc_at s (currentProcess s)"
  note i = sched_invD [OF inv] and c = proc_ringD(4) [OF sched_invD(2) [OF inv]]
  show ?thesis
  proof (cases "threadTick (procs s ?p) < THREAD_QUANTUM")
    case True
    then show ?thesis using threadCheck_eq [OF i(2)]
      by (intro exI [of _ "set_ttick ?p (threadTick (procs s ?p) + 1) s"]) (simp add: store_simps Let_def)
  next
    case False
    let ?s = "set_ttick ?p 0 s"
    have inv': "sched_inv ?s qs ths" using inv by (rule ttick_inv)
    note i' = sched_invD [OF inv']
    have p: "currentProcess ?s = ?c" "proc_at ?s ?c = ?p" by (simp_all add: store_simps)
    have tr: "thread_ring ?s (proc_at ?s (currentProcess ?s)) (ths ?c)" using i'(3) [OF c] p by simp
    have "\<exists>l \<in> set (ths ?c). tst ?s l \<in> {T_READY, T_RUNNING}" using run by (simp add: store_simps)
    then obtain l where l: "next_ready_thread ?s (proc_at ?s (currentProcess ?s)) (ths ?c) = Some l"
      using runnable_thread [OF inv' c] p by (auto simp only:)
    have "tst ?s (hd (ths ?c)) \<noteq> T_DEAD" using i'(7) [OF c] thread_ringD(2) [OF tr] by simp
    from nextThread_eq(1) [OF i'(2) tr this l, of u]
    have "threadCheck u s = Some (dispatch_thread ?p l (release_thread ?p ?s))"
      using False threadCheck_eq [OF i(2)] p by (simp add: Let_def)
    moreover have "numberOfTicks (dispatch_thread ?p l (release_thread ?p ?s)) = numberOfTicks s"
      by (simp add: dispatch_thread_def set_current_thread_def store_simps)
    ultimately show ?thesis by (simp add: store_simps release_thread_state)
  qed
qed

definition follows :: "'z sched_scheme \<Rightarrow> 'z sched_scheme \<Rightarrow> addr list \<Rightarrow> (addr \<Rightarrow> addr list) \<Rightarrow> bool" where
  \<comment> \<open>\<open>t\<close> comes after \<open>s\<close>: the same queue, the invariant, and everything runnable as before\<close>
  "follows s t qs ths \<longleftrightarrow> sched_inv t qs ths \<and> all_runnable t qs ths \<and> snodes t = snodes s"

lemma tick_within:
  assumes inv: "sched_inv s qs ths" and run: "all_runnable s qs ths" and q: "numberOfTicks s < QUANTUM"
  shows "\<exists>t. runScheduler u s = Some t \<and> follows s t qs ths
    \<and> currentProcess t = currentProcess s \<and> numberOfTicks t = numberOfTicks s + 1"
proof -
  let ?s = "s\<lparr>numberOfTicks := numberOfTicks s + 1\<rparr>"
  have c: "currentProcess s \<in> set qs" using proc_ringD(4) [OF sched_invD(2) [OF inv]] .
  then have nz: "currentProcess s \<noteq> NULL" using proc_ringD(6) [OF sched_invD(2) [OF inv]] by blast
  have inv': "sched_inv ?s qs ths" using inv by (rule ticks_inv)
  have "\<exists>l \<in> set (ths (currentProcess ?s)). tst ?s l \<in> {T_READY, T_RUNNING}"
    using run c by (simp add: all_runnable_def)
  then obtain t where t: "threadCheck u ?s = Some t" "snodes t = snodes s" "libs t = libs s"
      "currentProcess t = currentProcess s" "numberOfTicks t = numberOfTicks s + 1"
      "\<forall>a. p_state (procs t a) = p_state (procs s a)"
      "\<forall>a. t_state (threads s a) \<in> {T_READY, T_RUNNING} \<longrightarrow> t_state (threads t a) \<in> {T_READY, T_RUNNING}"
    using threadCheck_runnable [OF inv', of u] by auto
  have "runScheduler u s = Some t" using t(1) nz q by (simp add: runScheduler_def)
  moreover have "sched_inv t qs ths" using inv' t(1) by (rule threadCheck_inv)
  moreover have "all_runnable t qs ths"
    using run t(7) unfolding all_runnable_def t(2,3,4) t(6) [rule_format] by blast
  ultimately show ?thesis using t(2,4,5) by (auto simp: follows_def)
qed

lemma tick_switch:
  assumes inv: "sched_inv s qs ths" and run: "all_runnable s qs ths" and q: "\<not> numberOfTicks s < QUANTUM"
  shows "\<exists>t. runScheduler u s = Some t \<and> follows s t qs ths
    \<and> currentProcess t = snx s (currentProcess s) \<and> numberOfTicks t = 0 \<and> st t (currentProcess t) = RUNNING"
proof -
  let ?a = "snx s (currentProcess s)"
  note i = sched_invD [OF inv] and r = proc_ringD [OF sched_invD(2) [OF inv]]
  let ?t = "dispatch ?a (release_current s)"
  have sw: "runScheduler u s = Some ?t" "?a \<in> set qs"
    using runScheduler_switch [OF i(2) _ removeDeadProcess_alive [OF i(2,5)]
        all_runnable_next [OF i(2) run]] q by simp_all
  have "st ?t n = READY \<or> st ?t n = RUNNING \<and> n = currentProcess ?t" if n: "n \<in> set qs" for n
    using run n r(8) [OF n sw(2)] r(8) [OF n r(4)]
    by (auto simp: all_runnable_def store_simps release_state)
  moreover have "\<exists>l \<in> set (ths n). tst ?t l \<in> {T_READY, T_RUNNING}" if n: "n \<in> set qs" for n
    using run n by (simp add: all_runnable_def store_simps)
  ultimately have "all_runnable ?t qs ths" by (simp only: all_runnable_def) blast
  moreover have "sched_inv ?t qs ths" using inv sw(2) by (rule dispatch_inv)
  ultimately show ?thesis using sw(1) by (intro exI [of _ ?t]) (simp add: store_simps follows_def)
qed

text \<open>The ticks that are left of a quantum, and the switch behind them.\<close>

lemma one_turn:
  assumes "sched_inv s qs ths" and "all_runnable s qs ths"
  shows "\<exists>t. ticks u (Suc (nat (QUANTUM - numberOfTicks s))) s = Some t \<and> follows s t qs ths
    \<and> currentProcess t = snx s (currentProcess s) \<and> numberOfTicks t = 0 \<and> st t (currentProcess t) = RUNNING"
  using assms
proof (induction "nat (QUANTUM - numberOfTicks s)" arbitrary: s)
  case 0
  then have q: "\<not> numberOfTicks s < QUANTUM" by simp
  obtain t where "runScheduler u s = Some t" "follows s t qs ths"
      "currentProcess t = snx s (currentProcess s)" "numberOfTicks t = 0" "st t (currentProcess t) = RUNNING"
    using tick_switch [OF 0(2,3) q] by blast
  with 0(1) show ?case by simp
next
  case (Suc d)
  then have q: "numberOfTicks s < QUANTUM" by simp
  obtain r where r: "runScheduler u s = Some r" "follows s r qs ths"
      "currentProcess r = currentProcess s" "numberOfTicks r = numberOfTicks s + 1"
    using tick_within [OF Suc.prems q] by blast
  have d: "d = nat (QUANTUM - numberOfTicks r)" using Suc.hyps(2) r(4) by simp
  then obtain t where "ticks u (Suc d) r = Some t" "follows r t qs ths"
      "currentProcess t = snx r (currentProcess r)" "numberOfTicks t = 0" "st t (currentProcess t) = RUNNING"
    using Suc.hyps(1) [OF d] r(2) by (auto simp: follows_def)
  then show ?case using r Suc.hyps(2) [symmetric] by (auto simp: follows_def)
qed

lemma turns:
  assumes "sched_inv s qs ths" and "all_runnable s qs ths"
  shows "\<exists>t. ticks u (Suc (nat (QUANTUM - numberOfTicks s)) + nat (QUANTUM + 1) * j) s = Some t
    \<and> follows s t qs ths \<and> currentProcess t = (snx s ^^ Suc j) (currentProcess s)
    \<and> numberOfTicks t = 0 \<and> st t (currentProcess t) = RUNNING"
proof (induction j)
  case 0
  then show ?case using one_turn [OF assms] by simp
next
  case (Suc j)
  let ?i = "Suc (nat (QUANTUM - numberOfTicks s)) + nat (QUANTUM + 1) * j"
  obtain t where t: "ticks u ?i s = Some t" "follows s t qs ths"
      "currentProcess t = (snx s ^^ Suc j) (currentProcess s)" "numberOfTicks t = 0"
    using Suc.IH by blast
  obtain r where r: "ticks u (nat (QUANTUM + 1)) t = Some r" "follows t r qs ths"
      "currentProcess r = snx t (currentProcess t)" "numberOfTicks r = 0" "st r (currentProcess r) = RUNNING"
    using one_turn [of t qs ths u] t(2,4) by (auto simp: follows_def)
  have "ticks u (?i + nat (QUANTUM + 1)) s = Some r" using t(1) r(1) by (simp only: ticks_add bind.bind_lunit)
  moreover have "?i + nat (QUANTUM + 1) = Suc (nat (QUANTUM - numberOfTicks s)) + nat (QUANTUM + 1) * Suc j"
    by simp
  moreover have "follows s r qs ths" "currentProcess r = (snx s ^^ Suc (Suc j)) (currentProcess s)"
    using t(2,3) r(2,3) by (auto simp: follows_def)
  ultimately show ?case using r(4,5) by auto
qed

lemma dispatch_procs:
  "procs (dispatch a (release_current s)) p =
    (if p = proc_at s a then (procs s p)\<lparr>p_state := RUNNING\<rparr>
     else if p = proc_at s (currentProcess s) \<and> p_state (procs s p) = RUNNING
     then (procs s p)\<lparr>p_state := READY\<rparr> else procs s p)"
proof -
  let ?c = "proc_at s (currentProcess s)"
  have rel: "procs (release_current s) p =
      (if p = ?c \<and> p_state (procs s p) = RUNNING then (procs s p)\<lparr>p_state := READY\<rparr> else procs s p)" for p
    by (cases "p_state (procs s ?c) = RUNNING"; cases "p = ?c") (simp_all add: release_current_def Let_def)
  have "proc_at (release_current s) a = proc_at s a" by (simp only: release_current_select(1))
  then have "procs (dispatch a (release_current s)) p =
      (if p = proc_at s a then (procs (release_current s) p)\<lparr>p_state := RUNNING\<rparr>
       else procs (release_current s) p)"
    by (simp add: dispatch_def)
  then show ?thesis unfolding rel by (cases "p = ?c"; cases "p = proc_at s a") simp_all
qed


lemma demo_at_quantum: "sched_inv (demo\<lparr>numberOfTicks := 5\<rparr>) demo_queue demo_threads"
  by (rule ticks_inv [OF demo_inv])

lemma demo_after: "ring_after 0x1000000 demo_queue = [0x1001000, 0x1002000, 0x1000000]"
  by (simp add: ring_after_def demo_queue_def)




text \<open>C7. Round robin is fair. While no process blocks and each has a thread that can run, the
  timer interrupts alone carry the processor through the queue: every interrupt returns, and the
  process at place \<open>j\<close> behind the current one (the current one comes last) is the current and
  running one after what is left of the quantum, one more tick for the switch, and \<open>j\<close> quanta
  of \<open>QUANTUM + 1\<close> ticks.\<close>

theorem every_process_gets_its_turn:
  assumes "sched_inv s qs ths" and "all_runnable s qs ths" and "n \<in> set qs"
  shows "\<exists>j < length qs. ring_after (currentProcess s) qs ! j = n
    \<and> (\<exists>t. ticks u (nat (QUANTUM - numberOfTicks s) + 1 + j * nat (QUANTUM + 1)) s = Some t
        \<and> currentProcess t = n \<and> st t n = RUNNING \<and> numberOfTicks t = 0 \<and> sched_inv t qs ths)"
proof -
  note r = proc_ringD [OF sched_invD(2) [OF assms(1)]]
  have "n \<in> set (ring_after (currentProcess s) qs)" using assms(3) set_ring_after [OF r(1,4)] by simp
  then obtain j where j: "j < length qs" "ring_after (currentProcess s) qs ! j = n"
    using length_ring_after [OF r(1,4)] by (metis in_set_conv_nth)
  then have n: "(snx s ^^ Suc j) (currentProcess s) = n" using ring_after_nth [OF r(1,4)] by metis
  have k: "Suc (nat (QUANTUM - numberOfTicks s)) + nat (QUANTUM + 1) * j
      = nat (QUANTUM - numberOfTicks s) + 1 + j * nat (QUANTUM + 1)" by simp
  obtain t where "ticks u (nat (QUANTUM - numberOfTicks s) + 1 + j * nat (QUANTUM + 1)) s = Some t"
      "currentProcess t = n" "st t (currentProcess t) = RUNNING" "numberOfTicks t = 0" "sched_inv t qs ths"
    using turns [OF assms(1,2), of u j] unfolding n k follows_def by blast
  then show ?thesis using j by blast
qed

theorem every_process_gets_its_turn_witness:
  "\<exists>j < 3. \<exists>t. ticks demo_locals (6 + j * 6)
      (set_tstate 0x100A000 T_READY (set_pstate 0x1004000 READY demo)) = Some t
    \<and> currentProcess t = 0x1002000"
proof -
  let ?s = "set_tstate 0x100A000 T_READY (set_pstate 0x1004000 READY demo)"
  have "sched_inv ?s demo_queue demo_threads"
    by (rule sched_inv_tame [OF demo_inv same_shape_trans [OF shape_set(1) shape_set(2)]])
      (simp_all add: store_simps)
  moreover have "all_runnable ?s demo_queue demo_threads"
    by (auto simp: all_runnable_def demo_nodes demo_threads_def demo_select demo_proc_def
        zero_thread_def store_simps)
  moreover have "length demo_queue = 3" by (simp add: demo_queue_def)
  moreover have "numberOfTicks ?s = 0" by (simp add: store_simps demo_select)
  ultimately show ?thesis
    using every_process_gets_its_turn [of ?s demo_queue demo_threads "0x1002000" demo_locals]
    by (auto simp: demo_nodes)
qed

text \<open>C4. At most one process runs, and it is the current one; within every process at most the
  current thread runs: whatever sequence of ticks, yields, blocking and waking the kernel goes
  through, this stays true and the rings of processes and threads stay intact.\<close>

theorem only_current_runs:
  assumes "sched_inv s qs ths" and "sched_reach u s t"
  shows "sched_wf t qs ths
    \<and> (\<forall>n \<in> set qs. (st t n = RUNNING \<longrightarrow> n = currentProcess t)
         \<and> (\<forall>l \<in> set (ths n). tst t l = T_RUNNING \<longrightarrow> l = currentThread (procs t (proc_at t n))))"
  using sched_reach_inv [OF assms(2,1)] by (auto simp: sched_inv_def running_inv_def)

theorem only_current_runs_witness:
  "\<exists>t. sched_reach demo_locals demo t \<and> currentProcess t = 0x1000000 \<and> tst t 0x1007000 = T_READY
    \<and> sched_wf t demo_queue demo_threads"
proof -
  note wf = sched_invD(1) [OF demo_inv]
  let ?t = "fold (wake1 T_BLOCKED_IO 0x1004000) [0x1007000] demo"
  have n: "0x1001000 \<in> set demo_queue" by (simp add: demo_nodes)
  have run: "unblockAllThreads 2 T_BLOCKED_IO demo = Some ?t"
    using unblockAllThreads_eq [OF wf n, of T_BLOCKED_IO]
    by (simp add: demo_select demo_proc_def demo_threads_def)
  then have r: "sched_reach demo_locals demo ?t" by (blast intro: sched_reach.intros sched_step.intros)
  from only_current_runs [OF demo_inv r] r show ?thesis
    by (intro exI [of _ ?t]) (simp add: store_simps wake1_def Let_def demo_select)
qed

end
