(* ===== verification/Waiters.thy ===== *)
theory Waiters
  imports SchedSteps
begin

section \<open>Lists of blocked threads\<close>

text \<open>
  Mutexes and semaphores both keep, per object, a list of the threads that wait for it, push
  the current thread in front when it has to wait, and wake all of them by one loop.  The
  locale \<open>wait_list\<close> is that loop over an abstract store of objects: what it does is proved
  once, here, and both components interpret it.
\<close>

record blockedThreadNode =
  w_pid :: int
  w_pthread :: int
  w_next :: addr

abbreviation (input) SIZEOF_blocked :: "64 word" where "SIZEOF_blocked \<equiv> 16"

lemma npages_blocked [simp]: "npages SIZEOF_blocked = 1"
  and sane_blocked [simp]: "sane_request SIZEOF_blocked"
  by (simp_all add: npages_def ceil_div_def sane_request_def)

fun wake_seq :: "(addr \<times> int \<times> int) list \<Rightarrow> 'z sched_scheme \<Rightarrow> 'z sched_scheme option" where
  \<comment> \<open>wake the threads one after the other and free the nodes that recorded them\<close>
  "wake_seq [] s = Some s"
| "wake_seq ((w, k, pt) # ws) s = do {
     s \<leftarrow> unblockThread k pt T_BLOCKED_MUTEX s;
     (_, s) \<leftarrow> deallocate w SIZEOF_blocked s;
     wake_seq ws s }"

locale wait_list =
  fixes head :: "'m \<Rightarrow> addr \<Rightarrow> addr"
    and set_head :: "'m \<Rightarrow> addr \<Rightarrow> addr \<Rightarrow> 'm"
    and waiter :: "'m \<Rightarrow> addr \<Rightarrow> blockedThreadNode"
    and drain :: "addr \<Rightarrow> 'm \<Rightarrow> 'z sched_scheme \<Rightarrow> ('m \<times> 'z sched_scheme) option"
  assumes head_set: "head (set_head m a v) = (head m)(a := v)"
    and set_set: "set_head (set_head m a v) a v' = set_head m a v'"
    and set_same: "set_head m a (head m a) = m"
    and waiter_set: "waiter (set_head m a v) = waiter m"
    and drain_empty: "a \<noteq> NULL \<Longrightarrow> head m a = NULL \<Longrightarrow> drain a m s = Some (m, s)"
    and drain_step: "a \<noteq> NULL \<Longrightarrow> head m a \<noteq> NULL \<Longrightarrow> drain a m s = do {
        s \<leftarrow> unblockThread (w_pid (waiter m (head m a))) (w_pthread (waiter m (head m a))) T_BLOCKED_MUTEX s;
        (_, s) \<leftarrow> deallocate (head m a) SIZEOF_blocked s;
        drain a (set_head m a (w_next (waiter m (head m a)))) s }"
begin

definition waiting :: "'m \<Rightarrow> addr list \<Rightarrow> (addr \<times> int \<times> int) list" where
  "waiting m ws = map (\<lambda>w. (w, w_pid (waiter m w), w_pthread (waiter m w))) ws"

lemma drain_chain:
  assumes "a \<noteq> NULL" and "chain (\<lambda>w. w_next (waiter m w)) (head m a) ws NULL"
  shows "drain a m s = map_option (\<lambda>t. (set_head m a NULL, t)) (wake_seq (waiting m ws) s)"
  using assms(2)
proof (induction ws arbitrary: m s)
  case Nil
  then have "head m a = NULL" by simp
  with assms(1) set_same [of m a] show ?case by (simp add: drain_empty waiting_def)
next
  case (Cons w ws)
  then have h: "head m a = w" "w \<noteq> NULL" by auto
  let ?m = "set_head m a (w_next (waiter m w))"
  have "chain (\<lambda>w. w_next (waiter ?m w)) (head ?m a) ws NULL"
    using Cons.prems by (simp add: waiter_set head_set)
  then have "drain a ?m s = map_option (\<lambda>t. (set_head ?m a NULL, t)) (wake_seq (waiting ?m ws) s)" for s
    by (rule Cons.IH)
  then have ih: "drain a ?m s = map_option (\<lambda>t. (set_head m a NULL, t)) (wake_seq (waiting m ws) s)" for s
    by (simp add: set_set waiting_def waiter_set)
  show ?case
    using assms(1) h
    by (simp add: drain_step ih waiting_def map_option_bind split: prod.splits cong: Option.bind_cong)
      (auto split: bind_splits prod.splits simp: map_option_case)
qed

end

subsection \<open>What waking a list of threads does\<close>

definition thread_pages :: "'z sched_scheme \<Rightarrow> addr list \<Rightarrow> (addr \<Rightarrow> addr list) \<Rightarrow> addr set" where
  "thread_pages s qs ths = (\<Union>n \<in> set qs. set (ths n) \<union> thread_at s ` set (ths n))"

definition known_thread :: "'z sched_scheme \<Rightarrow> addr list \<Rightarrow> (addr \<Rightarrow> addr list) \<Rightarrow> int \<Rightarrow> int \<Rightarrow> addr \<Rightarrow> addr \<Rightarrow> bool" where
  \<comment> \<open>\<open>(k, pt)\<close> names the thread of the library node \<open>l\<close> of the queue node \<open>n\<close>\<close>
  "known_thread s qs ths k pt n l \<longleftrightarrow> n \<in> set qs \<and> l \<in> set (ths n) \<and> pid (procs s (proc_at s n)) = k
     \<and> pthread (threads s (thread_at s l)) = pt"

lemma known_thread_shape:
  "same_shape s t \<Longrightarrow> known_thread t qs ths k pt n l = known_thread s qs ths k pt n l"
  by (simp add: known_thread_def same_shape_def)

lemma thread_pages_shape: "same_shape s t \<Longrightarrow> thread_pages t qs ths = thread_pages s qs ths"
  by (simp add: thread_pages_def same_shape_def)

lemma sched_inv_map:
  assumes "sched_inv s qs ths" and "t = s\<lparr>usedMap := m\<rparr>" and "thread_pages s qs ths \<subseteq> owned_pages t"
  shows "sched_inv t qs ths"
proof -
  note i = sched_invD [OF assms(1)]
  have "proc_ring t qs"
    using proc_ringD(4) [OF i(2)] by (intro proc_ring_cong [OF i(2)]) (simp_all add: assms(2))
  moreover have "threads_ok t (proc_at t n) (ths n)" if n: "n \<in> set qs" for n
  proof -
    have "thread_ring t (proc_at s n) (ths n)"
      using thread_ringD(4) [OF i(3) [OF n]]
      by (intro thread_ring_cong [OF i(3) [OF n]]) (simp_all add: assms(2))
    moreover have "set (ths n) \<union> thread_at s ` set (ths n) \<subseteq> owned_pages t"
      using assms(3) n by (auto simp: thread_pages_def)
    ultimately show ?thesis
      using sched_wfD(2) [OF i(1) n] unfolding threads_ok_def by (simp add: assms(2))
  qed
  ultimately have "sched_wf t qs ths"
    using i(1) by (simp add: sched_wf_def assms(2))
  then show ?thesis using assms(1) by (simp add: sched_inv_def running_inv_def assms(2))
qed

text \<open>
  The nodes that record the waiters are allocated, distinct from each other and from the
  pages of the threads.
\<close>

definition waiters_ok :: "'z sched_scheme \<Rightarrow> addr list \<Rightarrow> (addr \<Rightarrow> addr list) \<Rightarrow>
    (addr \<times> int \<times> int) list \<Rightarrow> bool" where
  "waiters_ok s qs ths ws \<longleftrightarrow> distinct (map fst ws)
     \<and> (\<forall>(w, k, pt) \<in> set ws. w \<in> owned_pages s \<and> w \<notin> thread_pages s qs ths
          \<and> (\<exists>n l. known_thread s qs ths k pt n l))"

definition woken :: "'z sched_scheme \<Rightarrow> addr list \<Rightarrow> (addr \<Rightarrow> addr list) \<Rightarrow>
    (addr \<times> int \<times> int) list \<Rightarrow> addr \<Rightarrow> addr \<Rightarrow> bool" where
  "woken s qs ths ws n l \<longleftrightarrow> (\<exists>w k pt. (w, k, pt) \<in> set ws \<and> known_thread s qs ths k pt n l)"

lemma wake_seq_spec:
  assumes "sched_inv s qs ths" and "mm_inv s" and "waiters_ok s qs ths ws"
  shows "\<exists>t. wake_seq ws s = Some t \<and> sched_inv t qs ths \<and> mm_inv t
    \<and> owned_pages t = owned_pages s - fst ` set ws
    \<and> snodes t = snodes s \<and> libs t = libs s \<and> currentProcess t = currentProcess s
    \<and> (\<forall>a. pid (procs t a) = pid (procs s a)) \<and> (\<forall>a. pthread (threads t a) = pthread (threads s a))
    \<and> (\<forall>n \<in> set qs. \<forall>l \<in> set (ths n). tst t l =
        (if woken s qs ths ws n l \<and> tst s l = T_BLOCKED_MUTEX then T_READY else tst s l))
    \<and> (\<forall>n \<in> set qs. st t n =
        (if (\<exists>l. woken s qs ths ws n l) \<and> st s n = BLOCKED_MUTEX then READY else st s n))"
  using assms
proof (induction ws arbitrary: s)
  case Nil
  then show ?case by (simp add: woken_def)
next
  case (Cons a ws)
  obtain w k pt where a: "a = (w, k, pt)" by (cases a)
  obtain n0 l0 where kt: "known_thread s qs ths k pt n0 l0"
    and w: "w \<in> owned_pages s" "w \<notin> thread_pages s qs ths"
    using Cons.prems(3) a by (auto simp: waiters_ok_def)
  then have nl: "n0 \<in> set qs" "l0 \<in> set (ths n0)" "pid (procs s (proc_at s n0)) = k"
    "pthread (threads s (thread_at s l0)) = pt" by (simp_all add: known_thread_def)
  note i = sched_invD [OF Cons.prems(1)]
  define s1 where "s1 = (if tst s l0 = T_BLOCKED_MUTEX then set_tstate (thread_at s l0) T_READY s else s)"
  define s2 where "s2 = (if st s n0 = BLOCKED_MUTEX then set_pstate (proc_at s n0) READY s1 else s1)"
  have ub: "unblockThread k pt T_BLOCKED_MUTEX s = Some s2"
    using unblockThread_eq [OF i(1) nl(1,2), of T_BLOCKED_MUTEX] nl(3,4) unfolding s1_def s2_def by simp
  have inv2: "sched_inv s2 qs ths" using Cons.prems(1) ub by (rule unblockThread_inv)
  have "same_shape s s1" by (simp add: s1_def)
  then have sh: "same_shape s s2" unfolding s2_def by (auto intro: same_shape_trans [OF _ shape_set(1)])
  have mm2: "mm_inv s2" using Cons.prems(2) sh by (simp add: mm_inv_def same_shape_def)
  have own2: "owned_pages s2 = owned_pages s" using same_shapeD(9) [OF sh] .
  obtain s3 where s3: "deallocate w SIZEOF_blocked s2 = Some (1, s3)" "mm_inv s3"
      "owned_pages s3 = owned_pages s2 - {w}"
    using deallocate_contract [OF mm2 sane_blocked, of w] w(1) own2 by (auto simp: span_one)
  obtain m where m: "s3 = s2\<lparr>usedMap := m\<rparr>" using deallocate_frame [OF s3(1)] by blast
  have tp: "thread_pages s2 qs ths = thread_pages s qs ths" using thread_pages_shape [OF sh] .
  have "thread_pages s2 qs ths \<subseteq> owned_pages s2"
    using sched_wfD(2) [OF sched_invD(1) [OF inv2]] by (auto simp: thread_pages_def threads_ok_def)
  then have "thread_pages s2 qs ths \<subseteq> owned_pages s3" using s3(3) w(2) tp by auto
  with inv2 m have inv3: "sched_inv s3 qs ths" by (rule sched_inv_map)
  have kt3: "known_thread s3 qs ths k' pt' n l = known_thread s qs ths k' pt' n l" for k' pt' n l
    using known_thread_shape [OF sh] by (simp add: m known_thread_def)
  have tp3: "thread_pages s3 qs ths = thread_pages s qs ths" using tp by (simp add: m thread_pages_def)
  have w3: "waiters_ok s3 qs ths ws"
    using Cons.prems(3) a s3(3) own2 by (auto simp: waiters_ok_def kt3 tp3) force+
  have wk3: "woken s3 qs ths ws n l = woken s qs ths ws n l" for n l by (simp add: woken_def kt3)
  obtain t where t: "wake_seq ws s3 = Some t" "sched_inv t qs ths" "mm_inv t"
      "owned_pages t = owned_pages s3 - fst ` set ws"
      "snodes t = snodes s3" "libs t = libs s3" "currentProcess t = currentProcess s3"
      "\<forall>a. pid (procs t a) = pid (procs s3 a)" "\<forall>a. pthread (threads t a) = pthread (threads s3 a)"
      "\<forall>n \<in> set qs. \<forall>l \<in> set (ths n). tst t l =
        (if woken s3 qs ths ws n l \<and> tst s3 l = T_BLOCKED_MUTEX then T_READY else tst s3 l)"
      "\<forall>n \<in> set qs. st t n =
        (if (\<exists>l. woken s3 qs ths ws n l) \<and> st s3 n = BLOCKED_MUTEX then READY else st s3 n)"
    using Cons.IH [OF inv3 s3(2) w3] by blast
  have only: "known_thread s qs ths k pt n l \<longleftrightarrow> n = n0 \<and> l = l0" if "n \<in> set qs" "l \<in> set (ths n)" for n l
  proof
    assume kn: "known_thread s qs ths k pt n l"
    have "n = n0" using kn nl proc_ringD(9) [OF i(2)] by (auto simp: known_thread_def)
    moreover from this have "l = l0"
      using kn nl thread_ringD(9) [OF i(3) [OF nl(1)]] by (auto simp: known_thread_def)
    ultimately show "n = n0 \<and> l = l0" by simp
  qed (use kt in simp)
  have woken1: "woken s qs ths (a # ws) n l \<longleftrightarrow> n = n0 \<and> l = l0 \<or> woken s qs ths ws n l"
    if "n \<in> set qs" "l \<in> set (ths n)" for n l
    using only [OF that] by (auto simp: woken_def a)
  have tst2: "tst s3 l = (if l = l0 \<and> n = n0 \<and> tst s l = T_BLOCKED_MUTEX then T_READY else tst s l)"
    if n: "n \<in> set qs" and l: "l \<in> set (ths n)" for n l
  proof (cases "n = n0")
    case True
    then have "thread_at s l = thread_at s l0 \<longleftrightarrow> l = l0"
      using thread_ringD(8) [OF i(3) [OF nl(1)]] l nl(2) by simp
    then show ?thesis using True by (auto simp: m s2_def s1_def store_simps)
  next
    case False
    then have "thread_at s l \<noteq> thread_at s l0" using sched_wfD(4) [OF i(1) n nl(1) _ l nl(2)] by simp
    then show ?thesis using False by (auto simp: m s2_def s1_def store_simps)
  qed
  have st2: "st s3 n = (if n = n0 \<and> st s n = BLOCKED_MUTEX then READY else st s n)" if n: "n \<in> set qs" for n
    using proc_ringD(8) [OF i(2) n nl(1)] by (auto simp: m s2_def s1_def store_simps)
  have run: "wake_seq (a # ws) s = Some t" using ub s3(1) t(1) by (simp add: a)
  have "tst t l = (if woken s qs ths (a # ws) n l \<and> tst s l = T_BLOCKED_MUTEX then T_READY else tst s l)"
    if "n \<in> set qs" "l \<in> set (ths n)" for n l
    using t(10) [rule_format, OF that] tst2 [OF that] woken1 [OF that] by (auto simp: wk3)
  moreover have "(\<exists>l. woken s qs ths (a # ws) n l) \<longleftrightarrow> n = n0 \<or> (\<exists>l. woken s qs ths ws n l)"
    if "n \<in> set qs" for n
    using woken1 [OF that] nl(2) by (metis known_thread_def woken_def)
  then have "st t n = (if (\<exists>l. woken s qs ths (a # ws) n l) \<and> st s n = BLOCKED_MUTEX then READY else st s n)"
    if "n \<in> set qs" for n
    using t(11) [rule_format, OF that] st2 [OF that] that by (auto simp: wk3)
  moreover have "snodes s3 = snodes s" "libs s3 = libs s" "currentProcess s3 = currentProcess s"
    "\<And>a. pid (procs s3 a) = pid (procs s a)" "\<And>a. pthread (threads s3 a) = pthread (threads s a)"
    using same_shapeD(1,2,4,8) [OF sh] by (simp_all add: m) (simp add: s2_def s1_def store_simps)
  moreover have "owned_pages t = owned_pages s - fst ` set (a # ws)"
    using t(4) s3(3) own2 by (auto simp: a)
  ultimately show ?case
    using run t(2,3,5-9) by (intro exI [of _ t]) simp
qed

end
