(* ===== verification/WaitObjs.thy ===== *)
theory WaitObjs
  imports Waiters
begin

section \<open>What mutexes and semaphores have in common\<close>

text \<open>
  Both components are a list of objects with an identifier and a list of waiting threads.
  \<open>wait_view\<close> is what a state of either shows of that; \<open>view_ok\<close> is the invariant and the
  lemmas below are the four ways in which the operations change it: an object is appended or
  unlinked, a waiter is pushed, all the waiters of an object are woken.
\<close>

record wait_view =
  v_list :: addr
  v_counter :: int
  v_next :: "addr \<Rightarrow> addr"
  v_id :: "addr \<Rightarrow> int"
  v_head :: "addr \<Rightarrow> addr"
  v_waiter :: "addr \<Rightarrow> blockedThreadNode"

definition waits :: "wait_view \<Rightarrow> addr list \<Rightarrow> (addr \<times> int \<times> int) list" where
  "waits v ws = map (\<lambda>w. (w, w_pid (v_waiter v w), w_pthread (v_waiter v w))) ws"

definition waiter_chain :: "wait_view \<Rightarrow> addr \<Rightarrow> addr list \<Rightarrow> bool" where
  "waiter_chain v a ws \<longleftrightarrow> chain (\<lambda>w. w_next (v_waiter v w)) (v_head v a) ws NULL"

definition objects_ok :: "wait_view \<Rightarrow> addr list \<Rightarrow> bool" where
  "objects_ok v as \<longleftrightarrow> chain (v_next v) (v_list v) as NULL \<and> inj_on (v_id v) (set as)
     \<and> (\<forall>a \<in> set as. 0 \<le> v_id v a \<and> v_id v a < v_counter v)"

definition view_ok :: "wait_view \<Rightarrow> 'z sched_scheme \<Rightarrow> addr list \<Rightarrow> (addr \<Rightarrow> addr list) \<Rightarrow>
    addr list \<Rightarrow> (addr \<Rightarrow> addr list) \<Rightarrow> bool" where
  "view_ok v s qs ths as ws \<longleftrightarrow> objects_ok v as
     \<and> set as \<subseteq> owned_pages s \<and> set as \<inter> thread_pages s qs ths = {}
     \<and> (\<forall>a \<in> set as. waiter_chain v a (ws a) \<and> waiters_ok s qs ths (waits v (ws a))
          \<and> set (ws a) \<inter> set as = {})
     \<and> (\<forall>a \<in> set as. \<forall>b \<in> set as. a \<noteq> b \<longrightarrow> set (ws a) \<inter> set (ws b) = {})"

definition same_threads :: "'z sched_scheme \<Rightarrow> 'z sched_scheme \<Rightarrow> addr list \<Rightarrow> (addr \<Rightarrow> addr list) \<Rightarrow> bool" where
  "same_threads s t qs ths \<longleftrightarrow> thread_pages t qs ths = thread_pages s qs ths
     \<and> (\<forall>k pt n l. known_thread t qs ths k pt n l = known_thread s qs ths k pt n l)"

lemma same_threads_eqs:
  assumes "snodes t = snodes s" and "libs t = libs s"
    and "\<And>a. pid (procs t a) = pid (procs s a)" and "\<And>a. pthread (threads t a) = pthread (threads s a)"
  shows "same_threads s t qs ths"
  using assms by (simp add: same_threads_def thread_pages_def known_thread_def)

lemma same_threads_map [simp]: "same_threads s (s\<lparr>usedMap := m\<rparr>) qs ths"
  by (rule same_threads_eqs) simp_all

lemma map_fst_waits [simp]: "map fst (waits v ws) = ws"
  by (simp add: waits_def comp_def)

lemma fst_set_waits [simp]: "fst ` set (waits v ws) = set ws"
  by (force simp: waits_def)

lemma waits_Cons: "waits v (w # ws) = (w, w_pid (v_waiter v w), w_pthread (v_waiter v w)) # waits v ws"
  by (simp add: waits_def)

lemma waiters_ok_Cons: "waiters_ok s qs ths ((w, k, pt) # ws) \<longleftrightarrow> w \<notin> fst ` set ws
    \<and> w \<in> owned_pages s \<and> w \<notin> thread_pages s qs ths \<and> (\<exists>n l. known_thread s qs ths k pt n l)
    \<and> waiters_ok s qs ths ws"
  by (auto simp: waiters_ok_def)

lemma waiters_okD:
  assumes "waiters_ok s qs ths (waits v ws)" and "w \<in> set ws"
  shows "w \<in> owned_pages s" and "w \<notin> thread_pages s qs ths"
    and "\<exists>n l. known_thread s qs ths (w_pid (v_waiter v w)) (w_pthread (v_waiter v w)) n l"
  using assms by (auto simp: waiters_ok_def waits_def)

lemma waiters_ok_move:
  assumes "waiters_ok s qs ths (waits v ws)" and "same_threads s t qs ths" and "set ws \<subseteq> owned_pages t"
    and "\<And>w. w \<in> set ws \<Longrightarrow> v_waiter v' w = v_waiter v w"
  shows "waiters_ok t qs ths (waits v' ws)"
  using assms by (auto simp: waiters_ok_def waits_def same_threads_def comp_def)

lemma waiter_chain_cong:
  assumes "waiter_chain v a ws" and "v_head v' a = v_head v a"
    and "\<And>w. w \<in> set ws \<Longrightarrow> v_waiter v' w = v_waiter v w"
  shows "waiter_chain v' a ws"
  using assms chain_cong [of ws "\<lambda>w. w_next (v_waiter v w)" "\<lambda>w. w_next (v_waiter v' w)"]
  by (simp add: waiter_chain_def)

lemma view_okD:
  assumes "view_ok v s qs ths as ws"
  shows "objects_ok v as" and "set as \<subseteq> owned_pages s" and "set as \<inter> thread_pages s qs ths = {}"
    and "a \<in> set as \<Longrightarrow> waiter_chain v a (ws a)"
    and "a \<in> set as \<Longrightarrow> waiters_ok s qs ths (waits v (ws a))"
    and "a \<in> set as \<Longrightarrow> set (ws a) \<inter> set as = {}"
    and "a \<in> set as \<Longrightarrow> b \<in> set as \<Longrightarrow> a \<noteq> b \<Longrightarrow> set (ws a) \<inter> set (ws b) = {}"
    and "a \<in> set as \<Longrightarrow> set (ws a) \<subseteq> owned_pages s"
  using assms waiters_okD(1) [of s qs ths v "ws a"] by (auto simp: view_ok_def)

lemma objects_okD:
  assumes "objects_ok v as"
  shows "chain (v_next v) (v_list v) as NULL" and "NULL \<notin> set as" and "distinct as"
    and "a \<in> set as \<Longrightarrow> b \<in> set as \<Longrightarrow> v_id v a = v_id v b \<longleftrightarrow> a = b"
    and "a \<in> set as \<Longrightarrow> 0 \<le> v_id v a" and "a \<in> set as \<Longrightarrow> v_id v a < v_counter v"
    and "a \<in> set as \<Longrightarrow> 0 < a"
proof -
  have "NULL \<notin> set as" "distinct as"
    using assms chain_nonnull chain_null_distinct by (auto simp: objects_ok_def)
  then show "NULL \<notin> set as" "distinct as" "a \<in> set as \<Longrightarrow> 0 < a" by (metis gr0I)+
qed (use assms in \<open>auto simp: objects_ok_def inj_on_def\<close>)

subsection \<open>A waiter is pushed\<close>

lemma view_ok_push:
  assumes ok: "view_ok v s qs ths as ws" and a: "a \<in> set as" and st: "same_threads s t qs ths"
    and own: "owned_pages t = insert w (owned_pages s)" and w: "w \<notin> owned_pages s" "w \<noteq> NULL"
    and tp: "thread_pages s qs ths \<subseteq> owned_pages s" and kn: "known_thread s qs ths k pt n l"
  shows "view_ok (v\<lparr>v_head := (v_head v)(a := w),
      v_waiter := (v_waiter v)(w := \<lparr>w_pid = k, w_pthread = pt, w_next = v_head v a\<rparr>)\<rparr>)
      t qs ths as (ws(a := w # ws a))"
proof -
  let ?v = "v\<lparr>v_head := (v_head v)(a := w),
      v_waiter := (v_waiter v)(w := \<lparr>w_pid = k, w_pthread = pt, w_next = v_head v a\<rparr>)\<rparr>"
  let ?ws = "ws(a := w # ws a)"
  note ok' = view_okD [OF ok]
  have wn: "w \<notin> set (ws b)" if "b \<in> set as" for b using ok'(8) [OF that] w(1) by blast
  have old: "waiters_ok t qs ths (waits ?v (ws b))" if b: "b \<in> set as" for b
    using ok'(8) [OF b] wn [OF b] own by (intro waiters_ok_move [OF ok'(5) [OF b] st]) auto
  have new: "waiters_ok t qs ths (waits ?v (w # ws a))"
    using old [OF a] wn [OF a] w(1) tp own kn st
    by (auto simp: waiters_ok_Cons waits_Cons same_threads_def)
  have ch: "waiter_chain ?v b (?ws b)" if b: "b \<in> set as" for b
  proof (cases "b = a")
    case True
    have "chain (\<lambda>u. w_next (v_waiter ?v u)) (v_head v a) (ws a) NULL"
    proof -
      have "chain (\<lambda>u. w_next (v_waiter v u)) (v_head v a) (ws a) NULL"
        using ok'(4) [OF a] by (simp add: waiter_chain_def)
      moreover have "chain (\<lambda>u. w_next (v_waiter v u)) p (ws a) q
          = chain (\<lambda>u. w_next (v_waiter ?v u)) p (ws a) q" for p q
        using wn [OF a] by (intro chain_cong) auto
      ultimately show ?thesis by simp
    qed
    then show ?thesis using True w(2) by (simp add: waiter_chain_def)
  next
    case False
    then show ?thesis using wn [OF b] by (auto intro: waiter_chain_cong [OF ok'(4) [OF b]])
  qed
  have "objects_ok ?v as" using ok'(1) by (simp add: objects_ok_def)
  moreover have "set as \<subseteq> owned_pages t" "set as \<inter> thread_pages t qs ths = {}"
    using ok'(2,3) own st by (auto simp: same_threads_def)
  moreover have "waiters_ok t qs ths (waits ?v (?ws b))" if "b \<in> set as" for b
    using old [OF that] new by simp
  moreover have "set (?ws b) \<inter> set as = {}" if "b \<in> set as" for b
    using ok'(6) [OF that] ok'(2) w(1) by auto
  moreover have "set (?ws b) \<inter> set (?ws c) = {}" if "b \<in> set as" "c \<in> set as" "b \<noteq> c" for b c
    using that(3) ok'(7) [OF that] wn [OF that(1)] wn [OF that(2)] by auto
  ultimately show ?thesis using ch by (simp add: view_ok_def)
qed

subsection \<open>All the waiters of an object are woken\<close>

lemma view_ok_drain:
  assumes ok: "view_ok v s qs ths as ws" and a: "a \<in> set as" and st: "same_threads s t qs ths"
    and own: "owned_pages t = owned_pages s - set (ws a)"
  shows "view_ok (v\<lparr>v_head := (v_head v)(a := NULL)\<rparr>) t qs ths as (ws(a := []))"
proof -
  let ?v = "v\<lparr>v_head := (v_head v)(a := NULL)\<rparr>"
  let ?ws = "ws(a := [])"
  note ok' = view_okD [OF ok]
  have "objects_ok ?v as" using ok'(1) by (simp add: objects_ok_def)
  moreover have "set as \<subseteq> owned_pages t" "set as \<inter> thread_pages t qs ths = {}"
    using ok'(2,3) ok'(6) [OF a] own st by (auto simp: same_threads_def)
  moreover have "waiters_ok t qs ths (waits ?v (?ws b))" if b: "b \<in> set as" for b
  proof (cases "b = a")
    case True
    then show ?thesis by (simp add: waiters_ok_def waits_def)
  next
    case False
    then have "set (ws b) \<subseteq> owned_pages t" using ok'(8) [OF b] ok'(7) [OF b a] own by auto
    then show ?thesis using False by (auto intro: waiters_ok_move [OF ok'(5) [OF b] st])
  qed
  moreover have "waiter_chain ?v b (?ws b)" if b: "b \<in> set as" for b
    using waiter_chain_cong [OF ok'(4) [OF b], of ?v] by (simp add: waiter_chain_def)
  moreover have "set (?ws b) \<inter> set as = {}" if "b \<in> set as" for b
    using ok'(6) [OF that] by auto
  moreover have "set (?ws b) \<inter> set (?ws c) = {}" if "b \<in> set as" "c \<in> set as" "b \<noteq> c" for b c
    using that(3) ok'(7) [OF that] by auto
  ultimately show ?thesis by (simp add: view_ok_def)
qed

subsection \<open>Objects are appended and unlinked\<close>

lemma view_ok_cong:
  assumes ok: "view_ok v s qs ths as ws" and st: "same_threads s t qs ths"
    and obj: "objects_ok v' bs" and sub: "set bs \<subseteq> insert a (set as)" and own: "set bs \<subseteq> owned_pages t"
    and tp: "set bs \<inter> thread_pages s qs ths = {}"
    and head: "\<And>b. b \<in> set bs \<Longrightarrow> b \<noteq> a \<Longrightarrow> v_head v' b = v_head v b" and wt: "v_waiter v' = v_waiter v"
    and keep: "\<And>b. b \<in> set bs \<Longrightarrow> b \<noteq> a \<Longrightarrow> set (ws b) \<subseteq> owned_pages t"
    and fresh: "\<And>b. b \<in> set as \<Longrightarrow> b \<noteq> a \<Longrightarrow> a \<notin> set (ws b)" and new: "a \<in> set bs \<Longrightarrow> v_head v' a = NULL"
  shows "view_ok v' t qs ths bs (ws(a := []))"
proof -
  note ok' = view_okD [OF ok]
  have old: "b \<in> set as" if "b \<in> set bs" "b \<noteq> a" for b using sub that by blast
  have "waiters_ok t qs ths (waits v' ((ws(a := [])) b))" if b: "b \<in> set bs" for b
  proof (cases "b = a")
    case True
    then show ?thesis by (simp add: waiters_ok_def waits_def)
  next
    case False
    then show ?thesis
      using keep [OF b] wt by (auto intro: waiters_ok_move [OF ok'(5) [OF old [OF b False]] st])
  qed
  moreover have "waiter_chain v' b ((ws(a := [])) b)" if b: "b \<in> set bs" for b
  proof (cases "b = a")
    case True
    then show ?thesis using new b by (simp add: waiter_chain_def)
  next
    case False
    then show ?thesis
      using head [OF b] wt by (auto intro: waiter_chain_cong [OF ok'(4) [OF old [OF b False]]])
  qed
  moreover have "set ((ws(a := [])) b) \<inter> set bs = {}" if b: "b \<in> set bs" for b
    using ok'(6) [of b] old [OF b] fresh [of b] sub by auto
  moreover have "set ((ws(a := [])) b) \<inter> set ((ws(a := [])) c) = {}"
    if "b \<in> set bs" "c \<in> set bs" "b \<noteq> c" for b c
    using ok'(7) [OF old [OF that(1)] old [OF that(2)] that(3)] by auto
  ultimately show ?thesis using obj own tp st by (simp add: view_ok_def same_threads_def)
qed

text \<open>The new object is the page \<open>a\<close>; its identifier is the counter, its links must be null.\<close>

lemma objects_ok_append:
  assumes ok: "objects_ok v as" and a: "a \<notin> set as" "a \<noteq> NULL" and nx: "v_next v a = NULL"
    and c: "0 \<le> v_counter v"
    and v': "v_counter v' = v_counter v + 1" "v_id v' = (v_id v)(a := v_counter v)"
      "v_list v' = (if as = [] then a else v_list v)"
      "v_next v' = (if as = [] then v_next v else (v_next v)(last as := a))"
  shows "objects_ok v' (as @ [a])"
proof -
  note o = objects_okD [OF ok]
  have "chain (v_next v') (v_list v') (as @ [a]) NULL"
    using chain_extend [OF o(1) _ a nx] a(2) nx v' by (cases "as = []") simp_all
  moreover have "inj_on (v_id v') (set as)"
  proof (rule inj_onI)
    fix b c assume bc: "b \<in> set as" "c \<in> set as" and e: "v_id v' b = v_id v' c"
    have "b \<noteq> a" "c \<noteq> a" using bc a(1) by blast+
    with e have "v_id v b = v_id v c" by (simp add: v'(2))
    then show "b = c" using o(4) [OF bc] by simp
  qed
  then have "inj_on (v_id v') (set (as @ [a]))"
    using a(1) o(6) by (force simp: inj_on_insert v'(2))
  moreover have "0 \<le> v_id v' b \<and> v_id v' b < v_counter v'" if "b \<in> set (as @ [a])" for b
    using that o(5,6) [of b] c v'(1,2) by (auto split: if_splits)
  ultimately show ?thesis by (simp add: objects_ok_def)
qed

lemma objects_ok_unlink:
  assumes ok: "objects_ok v (xs @ a # ys)"
    and v': "v_counter v' = v_counter v" "v_id v' = v_id v"
      "v_list v' = (if xs = [] then v_next v a else v_list v)"
      "v_next v' = (if xs = [] then v_next v else (v_next v)(last xs := v_next v a))"
  shows "objects_ok v' (xs @ ys)"
proof -
  have "chain (v_next v') (v_list v') (xs @ ys) NULL"
    using chain_unlink [OF objects_okD(1) [OF ok]] v'(3,4) by simp
  then show ?thesis using ok v'(1,2) by (auto simp: objects_ok_def inj_on_def)
qed

subsection \<open>The current thread is recorded and blocked\<close>

lemma current_thread_known:
  assumes "sched_inv s qs ths"
  defines "n \<equiv> currentProcess s"
  defines "l \<equiv> currentThread (procs s (proc_at s n))"
  shows "n \<in> set qs" and "l \<in> set (ths n)"
    and "getCurrentPid s = Some (pid (procs s (proc_at s n)))"
    and "getCurrentPthread s = Some (pthread (threads s (thread_at s l)))"
    and "known_thread s qs ths (pid (procs s (proc_at s n))) (pthread (threads s (thread_at s l))) n l"
proof -
  note i = sched_invD [OF assms(1)]
  show n: "n \<in> set qs" using proc_ringD(4) [OF i(2)] by (simp add: n_def)
  show l: "l \<in> set (ths n)" using thread_ringD(4) [OF i(3) [OF n]] by (simp add: l_def)
  show "getCurrentPid s = Some (pid (procs s (proc_at s n)))"
    unfolding n_def by (rule getCurrentPid_ring [OF i(2)])
  show "getCurrentPthread s = Some (pthread (threads s (thread_at s l)))"
    using getCurrentPthread_ring [OF i(2), of "ths n"] i(3) [OF n] by (simp add: l_def n_def)
  show "known_thread s qs ths (pid (procs s (proc_at s n))) (pthread (threads s (thread_at s l))) n l"
    using n l by (simp add: known_thread_def)
qed

lemma thread_pages_owned:
  assumes "sched_inv s qs ths"
  shows "thread_pages s qs ths \<subseteq> owned_pages s"
  using sched_wfD(2) [OF sched_invD(1) [OF assms]] by (auto simp: thread_pages_def threads_ok_def)

lemma allocate_sched_inv:
  assumes "sched_inv s qs ths" and "mm_inv s" and "sane_request r" and "allocate r s = Some (a, t)"
  shows "sched_inv t qs ths" and "mm_inv t" and "same_threads s t qs ths"
    and "a \<noteq> NULL \<Longrightarrow> owned_pages t = owned_pages s \<union> span a r \<and> span a r \<inter> owned_pages s = {}"
proof -
  obtain m where m: "t = s\<lparr>usedMap := m\<rparr>" using allocate_frame [OF assms(4)] by blast
  have c: "mm_inv t \<and> (a = NULL \<and> t = s \<or> a \<noteq> NULL \<and> span a r \<inter> owned_pages s = {}
      \<and> owned_pages t = owned_pages s \<union> span a r)"
    using allocate_contract [OF assms(2,3)] assms(4) by auto
  then show "mm_inv t" by simp
  have "thread_pages s qs ths \<subseteq> owned_pages t" using thread_pages_owned [OF assms(1)] c by auto
  then show "sched_inv t qs ths" using sched_inv_map [OF assms(1) m] by simp
  show "same_threads s t qs ths" by (simp add: m)
  show "a \<noteq> NULL \<Longrightarrow> owned_pages t = owned_pages s \<union> span a r \<and> span a r \<inter> owned_pages s = {}"
    using c by auto
qed

lemma deallocate_sched_inv:
  assumes "sched_inv s qs ths" and "mm_inv s" and "sane_request r" and "span a r \<subseteq> owned_pages s"
    and "span a r \<inter> thread_pages s qs ths = {}"
  shows "\<exists>m t. t = s\<lparr>usedMap := m\<rparr> \<and> deallocate a r s = Some (1, t) \<and> sched_inv t qs ths
    \<and> mm_inv t \<and> owned_pages t = owned_pages s - span a r"
proof -
  obtain t where t: "deallocate a r s = Some (1, t)" "mm_inv t" "owned_pages t = owned_pages s - span a r"
    using deallocate_contract [OF assms(2-4)] by blast
  obtain m where m: "t = s\<lparr>usedMap := m\<rparr>" using deallocate_frame [OF t(1)] by blast
  have "thread_pages s qs ths \<subseteq> owned_pages t"
    using thread_pages_owned [OF assms(1)] t(3) assms(5) by auto
  then have "sched_inv t qs ths" using sched_inv_map [OF assms(1) m] by simp
  with t m show ?thesis by blast
qed

definition other_ready :: "'z sched_scheme \<Rightarrow> (addr \<Rightarrow> addr list) \<Rightarrow> addr \<Rightarrow> addr \<Rightarrow> bool" where
  "other_ready s ths n l \<longleftrightarrow> (\<exists>m \<in> set (ths n). m \<noteq> l \<and> tst s m = T_READY)"

lemma block_current:
  assumes inv: "sched_inv s qs ths" and mm: "mm_inv s"
  defines "n \<equiv> currentProcess s"
  defines "l \<equiv> currentThread (procs s (proc_at s n))"
  shows "\<exists>t. blockThread (pid (procs s (proc_at s n))) (pthread (threads s (thread_at s l))) T_BLOCKED_MUTEX s = Some t
    \<and> sched_inv t qs ths \<and> mm_inv t \<and> same_shape s t
    \<and> tst t l = T_BLOCKED_MUTEX
    \<and> st t n = (if other_ready s ths n l then st s n else BLOCKED_MUTEX)"
proof -
  note i = sched_invD [OF inv]
  have n: "n \<in> set qs" and l: "l \<in> set (ths n)"
    using current_thread_known(1,2) [OF inv] by (simp_all add: n_def l_def)
  define s1 where "s1 = set_ttick (proc_at s n) THREAD_QUANTUM (set_tstate (thread_at s l) T_BLOCKED_MUTEX s)"
  define t where "t = (if \<forall>m \<in> set (ths n). tst s1 m \<noteq> T_READY
      then (set_pstate (proc_at s n) BLOCKED_MUTEX s1)\<lparr>numberOfTicks := QUANTUM\<rparr> else s1)"
  have run: "blockThread (pid (procs s (proc_at s n))) (pthread (threads s (thread_at s l))) T_BLOCKED_MUTEX s = Some t"
    using blockThread_eq [OF i(1) n l, of T_BLOCKED_MUTEX] by (simp add: t_def s1_def)
  have "same_shape s s1" unfolding s1_def by (rule same_shape_trans [OF shape_set(2) shape_set(3)])
  then have sh: "same_shape s t" unfolding t_def
    by (auto intro: same_shape_trans [OF _ same_shape_trans [OF shape_set(1) shape_set(4)]])
  have "tst s1 m = (if m = l then T_BLOCKED_MUTEX else tst s m)" if "m \<in> set (ths n)" for m
    using thread_ringD(8) [OF i(3) [OF n] that l] by (simp add: s1_def store_simps)
  then have "(\<forall>m \<in> set (ths n). tst s1 m \<noteq> T_READY) \<longleftrightarrow> \<not> other_ready s ths n l"
    by (auto simp: other_ready_def)
  then have "st t n = (if other_ready s ths n l then st s n else BLOCKED_MUTEX)"
    by (simp add: t_def s1_def store_simps)
  moreover have "tst t l = T_BLOCKED_MUTEX" by (simp add: t_def s1_def store_simps)
  moreover have "sched_inv t qs ths"
    using blockThread_inv [OF inv _ run] by (simp add: isThreadBlocked_def)
  moreover have "mm_inv t" using mm sh by (simp add: mm_inv_def same_shape_def)
  ultimately show ?thesis using run sh by blast
qed

lemma same_threads_shape: "same_shape s t \<Longrightarrow> same_threads s t qs ths"
  by (simp add: same_threads_def known_thread_shape thread_pages_shape)

lemma same_threads_trans:
  "same_threads s t qs ths \<Longrightarrow> same_threads t r qs ths \<Longrightarrow> same_threads s r qs ths"
  by (simp add: same_threads_def)

lemma record_current:
  assumes inv: "sched_inv s qs ths" and mm: "mm_inv s"
    and al: "allocate SIZEOF_blocked s = Some (w, s1)" "w \<noteq> NULL"
  defines "n \<equiv> currentProcess s"
  defines "l \<equiv> currentThread (procs s (proc_at s n))"
  shows "\<exists>t. blockThread (pid (procs s (proc_at s n))) (pthread (threads s (thread_at s l))) T_BLOCKED_MUTEX s1 = Some t
    \<and> sched_inv t qs ths \<and> mm_inv t \<and> same_threads s t qs ths
    \<and> owned_pages t = insert w (owned_pages s) \<and> w \<notin> owned_pages s
    \<and> tst t l = T_BLOCKED_MUTEX
    \<and> st t n = (if other_ready s ths n l then st s n else BLOCKED_MUTEX)"
proof -
  note f = allocate_sched_inv [OF inv mm sane_blocked al(1)]
  have own1: "owned_pages s1 = insert w (owned_pages s)" "w \<notin> owned_pages s"
    using f(4) al(2) by (auto simp: span_one)
  obtain mp where mp: "s1 = s\<lparr>usedMap := mp\<rparr>" using allocate_frame [OF al(1)] by blast
  have same: "currentProcess s1 = n" "currentThread (procs s1 (proc_at s1 n)) = l"
    "other_ready s1 ths n l = other_ready s ths n l" "st s1 n = st s n"
    "pid (procs s1 (proc_at s1 n)) = pid (procs s (proc_at s n))"
    "pthread (threads s1 (thread_at s1 l)) = pthread (threads s (thread_at s l))"
    by (simp_all add: mp n_def l_def other_ready_def)
  obtain t where t: "blockThread (pid (procs s (proc_at s n))) (pthread (threads s (thread_at s l))) T_BLOCKED_MUTEX s1 = Some t"
      "sched_inv t qs ths" "mm_inv t" "same_shape s1 t" "tst t l = T_BLOCKED_MUTEX"
      "st t n = (if other_ready s ths n l then st s n else BLOCKED_MUTEX)"
    using block_current [OF f(1,2)] unfolding same by blast
  have "same_threads s t qs ths" using same_threads_trans [OF f(3) same_threads_shape [OF t(4)]] .
  moreover have "owned_pages t = insert w (owned_pages s)" using own1(1) same_shapeD(9) [OF t(4)] by simp
  ultimately show ?thesis using t own1(2) by blast
qed

subsection \<open>Concrete states: the demonstration queue with the first \<open>k\<close> pages used\<close>

definition demo_pages :: "nat \<Rightarrow> sched" where
  "demo_pages k = demo\<lparr>usedMap := mask k # replicate 895 0\<rparr>"

lemma demo_mm:
  shows "blocksAmount demo = 28671" and "initMem demo = 0x1000000" and "usedMap demo = mask 12 # replicate 895 0"
  by (simp_all add: demo_def blank_sched_def)

lemma demo_pages_prefix: "k \<le> 32 \<Longrightarrow> prefix_used (demo_pages k) k"
  by (simp add: prefix_used_def demo_pages_def demo_mm occupied_mask mm_inv_def ceil_div_def)

lemma demo_pages_mm: "mm_inv (demo_pages k)"
  by (simp add: demo_pages_def demo_mm mm_inv_def ceil_div_def)

lemma demo_pages_inv:
  assumes "12 \<le> k" and "k \<le> 32"
  shows "sched_inv (demo_pages k) demo_queue demo_threads"
proof (rule sched_inv_map [OF demo_inv])
  show "demo_pages k = demo\<lparr>usedMap := mask k # replicate 895 0\<rparr>" by (simp add: demo_pages_def)
  have "used_pages demo \<subseteq> used_pages (demo_pages k)"
    using assms demo_pages_prefix [OF assms(2)]
    by (auto simp: used_pages_def prefix_used_def demo_mm occupied_mask demo_pages_def)
  then have "owned_pages demo \<subseteq> owned_pages (demo_pages k)"
    by (auto simp: owned_pages_def demo_pages_def page_addr_def)
  then show "thread_pages demo demo_queue demo_threads \<subseteq> owned_pages (demo_pages k)"
    using thread_pages_owned [OF demo_inv] by blast
qed

lemma demo_allocate:
  assumes "k < 32" and "sane_request r" and "npages r = 1"
  shows "allocate r (demo_pages k) = Some (0x1000000 + k * 0x1000, demo_pages (k + 1))"
proof -
  have b: "k + npages r \<le> nat (blocksAmount (demo_pages k))"
    using assms by (simp add: demo_pages_def demo_mm)
  obtain m where m: "allocate r (demo_pages k) = Some (page_addr (demo_pages k) k, (demo_pages k)\<lparr>usedMap := m\<rparr>)"
      "prefix_used ((demo_pages k)\<lparr>usedMap := m\<rparr>) (k + 1)"
    using allocate_prefix [OF demo_pages_prefix assms(2) b] assms by auto
  have "m = mask (k + 1) # replicate 895 0"
  proof (rule occupied_ext)
    show "length m = length (mask (k + 1) # replicate 895 (0 :: 32 word))"
      using m(2) by (simp add: prefix_used_def mm_inv_def demo_pages_def demo_mm ceil_div_def)
    show "occupied m q = occupied (mask (k + 1) # replicate 895 0) q" for q
      using m(2) occupied_mask [of "k + 1" 895 q] assms(1) by (simp add: prefix_used_def)
  qed
  then show ?thesis using m(1) by (simp add: demo_pages_def page_addr_def demo_mm)
qed

text \<open>A freed page below every free one is the next to be allocated.\<close>

lemma allocate_lowest:
  assumes inv: "mm_inv t" and req: "sane_request r" "npages r = 1" and i: "i < nat (blocksAmount t)"
    and free: "page_addr t i \<notin> owned_pages t" and low: "\<And>j. j < i \<Longrightarrow> page_addr t j \<in> owned_pages t"
  shows "\<exists>u. allocate r t = Some (page_addr t i, u)"
proof -
  have used: "page_addr t j \<in> owned_pages t \<longleftrightarrow> j \<in> used_pages t" for j
    by (auto simp: owned_pages_def page_addr_inj)
  have fi: "run_free (usedMap t) 1 i" using free i by (simp add: used used_pages_def run_free_iff)
  have nj: "\<not> run_free (usedMap t) 1 j" if "j < i" for j
    using low [OF that] by (simp add: used used_pages_def run_free_iff)
  have "first_fit t 1 = Some i"
  proof (cases "first_fit t 1")
    case None
    then show ?thesis using first_fit_None [OF None, of i] i fi by simp
  next
    case (Some j)
    then show ?thesis using first_fit_Some(2,3) [OF Some] fi nj by (metis linorder_neqE_nat)
  qed
  then show ?thesis
    using allocate_first_fit [OF inv, of r] req by (auto simp: sane_request_def)
qed

lemma demo_owned_pages: "k \<le> 32 \<Longrightarrow> owned_pages (demo_pages k) = (\<lambda>i. 0x1000000 + i * 0x1000) ` {..<k}"
proof -
  assume k: "k \<le> 32"
  have "used_pages (demo_pages k) = {..<k}"
    using k by (auto simp: used_pages_def demo_pages_def demo_mm occupied_mask)
  moreover have "page_addr (demo_pages k) = (\<lambda>i. 0x1000000 + i * 0x1000)"
    by (simp add: fun_eq_iff page_addr_def demo_pages_def demo_mm)
  ultimately show ?thesis by (simp add: owned_pages_def)
qed

lemma demo_current:
  shows "currentProcess (demo_pages k) = 0x1000000" and "proc_at (demo_pages k) 0x1000000 = 0x1003000"
    and "currentThread (procs (demo_pages k) 0x1003000) = 0x1006000"
  by (simp_all add: demo_pages_def demo_select demo_proc_def zero_proc_def)

end
