(* ===== verification/Mutex.thy ===== *)
theory Mutex
  imports WaitObjs
begin

section \<open>Mutexes (\<open>mutex.c\<close>)\<close>

text \<open>
  The list of mutexes, each with the list of the threads blocked on it.  The component's state
  is the two globals of the file and the stores of its two structures; its operations also
  take and return the scheduler's state, because they allocate, block and wake.
\<close>

subsection \<open>Definitions\<close>

abbreviation (input) MUTEX_LOCKED :: int where "MUTEX_LOCKED \<equiv> 1"
abbreviation (input) MUTEX_UNLOCKED :: int where "MUTEX_UNLOCKED \<equiv> 2"
abbreviation (input) SIZEOF_mutexNode :: "64 word" where "SIZEOF_mutexNode \<equiv> 24"

record mutexNode =
  mx_id :: int
  mx_status :: int
  mx_next :: addr
  mx_blocked :: addr

record mutexes =
  mx_counter :: int
  mx_list :: addr
  mx_nodes :: "addr \<Rightarrow> mutexNode"
  mx_waiters :: "addr \<Rightarrow> blockedThreadNode"

definition set_mx_next :: "mutexes \<Rightarrow> addr \<Rightarrow> addr \<Rightarrow> mutexes" where
  "set_mx_next m a v = m\<lparr>mx_nodes := (mx_nodes m)(a := (mx_nodes m a)\<lparr>mx_next := v\<rparr>)\<rparr>"

definition set_mx_status :: "mutexes \<Rightarrow> addr \<Rightarrow> int \<Rightarrow> mutexes" where
  "set_mx_status m a v = m\<lparr>mx_nodes := (mx_nodes m)(a := (mx_nodes m a)\<lparr>mx_status := v\<rparr>)\<rparr>"

definition set_mx_blocked :: "mutexes \<Rightarrow> addr \<Rightarrow> addr \<Rightarrow> mutexes" where
  "set_mx_blocked m a v = m\<lparr>mx_nodes := (mx_nodes m)(a := (mx_nodes m a)\<lparr>mx_blocked := v\<rparr>)\<rparr>"

partial_function (option) addMutex :: "addr \<Rightarrow> addr \<Rightarrow> mutexes \<Rightarrow> (addr \<times> mutexes) option" where
  "addMutex mutex currentNode m =
     (if currentNode = NULL then Some (mutex, m)
      else do {
        (r, m) \<leftarrow> addMutex mutex (mx_next (mx_nodes m currentNode)) m;
        Some (currentNode, set_mx_next m currentNode r) })"

definition createMutex :: "mutexes \<Rightarrow> 'z sched_scheme \<Rightarrow> (int \<times> mutexes \<times> 'z sched_scheme) option" where
  "createMutex m s = do {
     (mutex, s) \<leftarrow> allocate SIZEOF_mutexNode s;
     chk mutex;
     let m = m\<lparr>mx_nodes := (mx_nodes m)(mutex := (mx_nodes m mutex)\<lparr>mx_id := mx_counter m\<rparr>),
               mx_counter := mx_counter m + 1\<rparr>;
     let m = set_mx_status m mutex MUTEX_UNLOCKED;
     (list, m) \<leftarrow> addMutex mutex (mx_list m) m;
     let m = m\<lparr>mx_list := list\<rparr>;
     Some (mx_id (mx_nodes m mutex), m, s) }"

text \<open>\<open>while (aux != NULL && aux->id != id) aux = aux->next;\<close>\<close>

partial_function (option) findMutex :: "mutexes \<Rightarrow> int \<Rightarrow> addr \<Rightarrow> addr option" where
  "findMutex m k aux =
     (if aux = NULL then Some aux
      else if mx_id (mx_nodes m aux) = k then Some aux
      else findMutex m k (mx_next (mx_nodes m aux)))"

definition findID :: "int \<Rightarrow> mutexes \<Rightarrow> addr option" where
  "findID k m = findMutex m k (mx_list m)"

definition updateStatus :: "int \<Rightarrow> int \<Rightarrow> mutexes \<Rightarrow> mutexes option" where
  "updateStatus k mutexStatus m = do {
     mutex \<leftarrow> findID k m;
     Some (if mutex \<noteq> NULL then set_mx_status m mutex mutexStatus else m) }"

definition isLocked :: "int \<Rightarrow> mutexes \<Rightarrow> int option" where
  "isLocked k m = do {
     mutex \<leftarrow> findID k m;
     Some (if mutex = NULL then -1
       else if mx_status (mx_nodes m mutex) = MUTEX_LOCKED then 1 else 0) }"

definition addThreadToMutexList :: "addr \<Rightarrow> int \<Rightarrow> int \<Rightarrow> mutexes \<Rightarrow> 'z sched_scheme \<Rightarrow>
    (mutexes \<times> 'z sched_scheme) option" where
  "addThreadToMutexList mutex k pt m s = do {
     (node, s) \<leftarrow> allocate SIZEOF_blocked s;
     chk node;
     chk mutex;
     let m = m\<lparr>mx_waiters := (mx_waiters m)(node :=
       \<lparr>w_pid = k, w_pthread = pt, w_next = mx_blocked (mx_nodes m mutex)\<rparr>)\<rparr>;
     Some (set_mx_blocked m mutex node, s) }"

definition mutexRequestAccess :: "int \<Rightarrow> mutexes \<Rightarrow> 'z sched_scheme \<Rightarrow>
    (int \<times> mutexes \<times> 'z sched_scheme) option" where
  "mutexRequestAccess k m s = do {
     mutex \<leftarrow> findID k m;
     locked \<leftarrow> isLocked k m;
     if locked \<noteq> 0 then do {
       currentPid \<leftarrow> getCurrentPid s;
       currentPthread \<leftarrow> getCurrentPthread s;
       (m, s) \<leftarrow> addThreadToMutexList mutex currentPid currentPthread m s;
       s \<leftarrow> blockThread currentPid currentPthread T_BLOCKED_MUTEX s;
       Some (0, m, s) }
     else Some (1, m, s) }"

definition mutexDown :: "int \<Rightarrow> mutexes \<Rightarrow> 'z sched_scheme \<Rightarrow> (mutexes \<times> 'z sched_scheme) option" where
  "mutexDown k m s = do {
     (locked, m, s) \<leftarrow> mutexRequestAccess k m s;
     if locked \<noteq> 0 then do { m \<leftarrow> updateStatus k MUTEX_LOCKED m; Some (m, s) } else Some (m, s) }"

partial_function (option) drainMutex :: "addr \<Rightarrow> mutexes \<Rightarrow> 'z sched_scheme \<Rightarrow>
    (mutexes \<times> 'z sched_scheme) option" where
  "drainMutex mutex m s =
     (let w = mx_blocked (mx_nodes m mutex) in
      if w \<noteq> NULL then do {
        s \<leftarrow> unblockThread (w_pid (mx_waiters m w)) (w_pthread (mx_waiters m w)) T_BLOCKED_MUTEX s;
        (_, s) \<leftarrow> deallocate w SIZEOF_blocked s;
        drainMutex mutex (set_mx_blocked m mutex (w_next (mx_waiters m w))) s }
      else Some (m, s))"

definition unlockProcesses :: "int \<Rightarrow> mutexes \<Rightarrow> 'z sched_scheme \<Rightarrow> (mutexes \<times> 'z sched_scheme) option" where
  "unlockProcesses k m s = do {
     mutex \<leftarrow> findID k m;
     chk mutex;
     drainMutex mutex m s }"

definition mutexUp :: "int \<Rightarrow> mutexes \<Rightarrow> 'z sched_scheme \<Rightarrow> (mutexes \<times> 'z sched_scheme) option" where
  "mutexUp k m s = do {
     m \<leftarrow> updateStatus k MUTEX_UNLOCKED m;
     unlockProcesses k m s }"

definition freeMutex :: "mutexes \<times> 'z sched_scheme \<Rightarrow> addr \<Rightarrow> (mutexes \<times> 'z sched_scheme) option" where
  "freeMutex ms a = do { (_, s) \<leftarrow> deallocate a SIZEOF_mutexNode (snd ms); Some (fst ms, s) }"

partial_function (option) destroyMutex :: "int \<Rightarrow> addr \<Rightarrow> mutexes \<times> 'z sched_scheme \<Rightarrow>
    (addr \<times> mutexes \<times> 'z sched_scheme) option" where
  "destroyMutex mutexId currentNode ms =
     (if currentNode = NULL then Some (NULL, ms)
      else if mx_id (mx_nodes (fst ms) currentNode) = mutexId then do {
        t \<leftarrow> freeMutex ms currentNode;
        Some (mx_next (mx_nodes (fst ms) currentNode), t) }
      else do {
        (r, m, s) \<leftarrow> destroyMutex mutexId (mx_next (mx_nodes (fst ms) currentNode)) ms;
        Some (currentNode, set_mx_next m currentNode r, s) })"

definition mutexDestroy :: "int \<Rightarrow> mutexes \<Rightarrow> 'z sched_scheme \<Rightarrow> (mutexes \<times> 'z sched_scheme) option" where
  "mutexDestroy k m s = do {
     (list, m, s) \<leftarrow> destroyMutex k (mx_list m) (m, s);
     Some (m\<lparr>mx_list := list\<rparr>, s) }"

subsection \<open>The loops are the shared ones\<close>

abbreviation mnx :: "mutexes \<Rightarrow> addr \<Rightarrow> addr" where
  "mnx m \<equiv> \<lambda>a. mx_next (mx_nodes m a)"

abbreviation mid :: "mutexes \<Rightarrow> addr \<Rightarrow> int" where
  "mid m a \<equiv> mx_id (mx_nodes m a)"

lemma mnx_set: "mnx (set_mx_next m a v) = (mnx m)(a := v)"
  by (auto simp: set_mx_next_def)

lemma set_mx_next_same: "set_mx_next m a (mnx m a) = m"
proof -
  have "(mx_nodes m)(a := (mx_nodes m a)\<lparr>mx_next := mx_next (mx_nodes m a)\<rparr>) = mx_nodes m" by auto
  then show ?thesis by (simp add: set_mx_next_def)
qed

lemma set_mx_blocked_same: "set_mx_blocked m a (mx_blocked (mx_nodes m a)) = m"
proof -
  have "(mx_nodes m)(a := (mx_nodes m a)\<lparr>mx_blocked := mx_blocked (mx_nodes m a)\<rparr>) = mx_nodes m" by auto
  then show ?thesis by (simp add: set_mx_blocked_def)
qed

interpretation mutex_search: list_search mnx "\<lambda>m k a. mid m a = k" findMutex
  by unfold_locales (subst findMutex.simps, simp)+

interpretation mutex_append: chain_append_op mnx set_mx_next "\<lambda>m prev. Some (mutex, m)"
    "\<lambda>m prev a. addMutex mutex a m" for mutex
  by unfold_locales (simp_all add: mnx_set set_mx_next_same, (subst addMutex.simps, simp)+)

lemma destroyMutex_null: "destroyMutex k NULL ms = Some (NULL, ms)"
  by (subst destroyMutex.simps) simp

lemma destroyMutex_hit: "a \<noteq> NULL \<Longrightarrow> mid (fst ms) a = k \<Longrightarrow>
    destroyMutex k a ms = do { t \<leftarrow> freeMutex ms a; Some (mnx (fst ms) a, t) }"
  by (subst destroyMutex.simps) simp

lemma destroyMutex_miss: "a \<noteq> NULL \<Longrightarrow> mid (fst ms) a \<noteq> k \<Longrightarrow>
    destroyMutex k a ms = do {
      (r, t) \<leftarrow> destroyMutex k (mnx (fst ms) a) ms; Some (a, set_mx_next (fst t) a r, snd t) }"
  by (subst destroyMutex.simps) (simp add: case_prod_unfold)

lemma freeMutex_fst: "freeMutex ms a = Some t \<Longrightarrow> fst t = fst ms"
  by (auto simp: freeMutex_def split: bind_splits prod.splits)

interpretation mutex_remove: chain_remove_op "\<lambda>ms. mnx (fst ms)" "\<lambda>ms a v. (set_mx_next (fst ms) a v, snd ms)"
    "\<lambda>ms k a. mid (fst ms) a = k" freeMutex "\<lambda>ms k a. destroyMutex k a ms"
  by unfold_locales
    (simp_all add: mnx_set set_mx_next_same freeMutex_fst destroyMutex_null destroyMutex_hit destroyMutex_miss)

interpretation mutex_waiters: wait_list "\<lambda>m a. mx_blocked (mx_nodes m a)" set_mx_blocked mx_waiters drainMutex
proof unfold_locales
  show "drainMutex a m s = Some (m, s)" if "mx_blocked (mx_nodes m a) = NULL" for a m and s :: "'z sched_scheme"
    using that by (subst drainMutex.simps) simp
  show "drainMutex a m s = do {
        s \<leftarrow> unblockThread (w_pid (mx_waiters m (mx_blocked (mx_nodes m a))))
          (w_pthread (mx_waiters m (mx_blocked (mx_nodes m a)))) T_BLOCKED_MUTEX s;
        (_, s) \<leftarrow> deallocate (mx_blocked (mx_nodes m a)) SIZEOF_blocked s;
        drainMutex a (set_mx_blocked m a (w_next (mx_waiters m (mx_blocked (mx_nodes m a))))) s }"
    if "mx_blocked (mx_nodes m a) \<noteq> NULL" for a m and s :: "'z sched_scheme"
    using that by (subst drainMutex.simps) (simp add: Let_def)
qed (auto simp: set_mx_blocked_same set_mx_blocked_def)

subsection \<open>The invariant\<close>

definition mutex_view :: "mutexes \<Rightarrow> wait_view" where
  "mutex_view m = \<lparr>v_list = mx_list m, v_counter = mx_counter m, v_next = mnx m, v_id = mid m,
     v_head = (\<lambda>a. mx_blocked (mx_nodes m a)), v_waiter = mx_waiters m\<rparr>"

abbreviation mstatus :: "mutexes \<Rightarrow> addr \<Rightarrow> int" where
  "mstatus m a \<equiv> mx_status (mx_nodes m a)"

definition mutex_inv :: "mutexes \<Rightarrow> 'z sched_scheme \<Rightarrow> addr list \<Rightarrow> (addr \<Rightarrow> addr list) \<Rightarrow>
    addr list \<Rightarrow> (addr \<Rightarrow> addr list) \<Rightarrow> bool" where
  \<comment> \<open>\<open>as\<close> are the mutexes, \<open>ws a\<close> the waiters of \<open>a\<close>; nobody waits for an unlocked mutex\<close>
  "mutex_inv m s qs ths as ws \<longleftrightarrow> sched_inv s qs ths \<and> mm_inv s \<and> 0 \<le> mx_counter m
     \<and> view_ok (mutex_view m) s qs ths as ws
     \<and> (\<forall>a \<in> set as. mstatus m a = MUTEX_LOCKED \<or> mstatus m a = MUTEX_UNLOCKED \<and> ws a = [])"

lemma mutex_view_select [simp]:
  shows "v_list (mutex_view m) = mx_list m" and "v_counter (mutex_view m) = mx_counter m"
    and "v_next (mutex_view m) = mnx m" and "v_id (mutex_view m) = mid m"
    and "v_head (mutex_view m) = (\<lambda>a. mx_blocked (mx_nodes m a))" and "v_waiter (mutex_view m) = mx_waiters m"
  by (simp_all add: mutex_view_def)

lemma mutex_invD:
  assumes "mutex_inv m s qs ths as ws"
  shows "sched_inv s qs ths" and "mm_inv s" and "0 \<le> mx_counter m" and "view_ok (mutex_view m) s qs ths as ws"
    and "objects_ok (mutex_view m) as"
    and "a \<in> set as \<Longrightarrow> mstatus m a = MUTEX_LOCKED \<or> mstatus m a = MUTEX_UNLOCKED"
    and "a \<in> set as \<Longrightarrow> mstatus m a = MUTEX_UNLOCKED \<Longrightarrow> ws a = []"
  using assms view_okD(1) by (auto simp: mutex_inv_def)

lemma findID_hit:
  assumes "objects_ok (mutex_view m) as" and "a \<in> set as"
  shows "findID (mid m a) m = Some a"
proof -
  note o = objects_okD [OF assms(1)]
  show ?thesis unfolding findID_def
    using o(1,4) assms(2) by (intro mutex_search.search_list_hit [of m _ as]) auto
qed

lemma findID_miss:
  assumes "objects_ok (mutex_view m) as" and "k \<notin> mid m ` set as"
  shows "findID k m = Some NULL"
  unfolding findID_def
  using objects_okD(1) [OF assms(1)] assms(2) by (intro mutex_search.search_list_miss [of m _ as]) auto

lemma mutex_view_status [simp]: "mutex_view (set_mx_status m a v) = mutex_view m"
  by (simp add: mutex_view_def set_mx_status_def fun_eq_iff)

lemma mutex_view_blocked: "mutex_view (set_mx_blocked m a w) = (mutex_view m)\<lparr>v_head := (v_head (mutex_view m))(a := w)\<rparr>"
  by (simp add: mutex_view_def set_mx_blocked_def fun_eq_iff)

lemma mstatus_set [simp]:
  shows "mstatus (set_mx_status m a v) b = (if b = a then v else mstatus m b)"
    and "mstatus (set_mx_blocked m a w) b = mstatus m b"
    and "mid (set_mx_status m a v) b = mid m b"
    and "mx_counter (set_mx_status m a v) = mx_counter m" and "mx_counter (set_mx_blocked m a w) = mx_counter m"
    and "mx_waiters (set_mx_status m a v) = mx_waiters m"
    and "mx_blocked (mx_nodes (set_mx_status m a v) b) = mx_blocked (mx_nodes m b)"
    and "mx_list (set_mx_status m a v) = mx_list m"
  by (simp_all add: set_mx_status_def set_mx_blocked_def)

lemma isLocked_eq:
  assumes "objects_ok (mutex_view m) as" and "a \<in> set as"
  shows "isLocked (mid m a) m = Some (if mstatus m a = MUTEX_LOCKED then 1 else 0)"
  using findID_hit [OF assms] objects_okD(7) [OF assms] by (simp add: isLocked_def)

lemma updateStatus_eq:
  assumes "objects_ok (mutex_view m) as" and "a \<in> set as"
  shows "updateStatus (mid m a) v m = Some (set_mx_status m a v)"
  using findID_hit [OF assms] objects_okD(7) [OF assms] by (simp add: updateStatus_def)

subsection \<open>Down on a free mutex\<close>

lemma mutexDown_free:
  assumes inv: "mutex_inv m s qs ths as ws" and a: "a \<in> set as" and st: "mstatus m a = MUTEX_UNLOCKED"
  shows "mutexDown (mid m a) m s = Some (set_mx_status m a MUTEX_LOCKED, s)"
    and "mutex_inv (set_mx_status m a MUTEX_LOCKED) s qs ths as ws"
proof -
  note i = mutex_invD [OF inv]
  show "mutexDown (mid m a) m s = Some (set_mx_status m a MUTEX_LOCKED, s)"
    using findID_hit [OF i(5) a] isLocked_eq [OF i(5) a] updateStatus_eq [OF i(5) a] st
    by (simp add: mutexDown_def mutexRequestAccess_def)
  show "mutex_inv (set_mx_status m a MUTEX_LOCKED) s qs ths as ws"
    using inv by (auto simp: mutex_inv_def)
qed

subsection \<open>Down on a locked mutex\<close>

lemma mutexDown_locked:
  assumes inv: "mutex_inv m s qs ths as ws" and a: "a \<in> set as" and lk: "mstatus m a = MUTEX_LOCKED"
    and al: "allocate SIZEOF_blocked s = Some (w, s1)" "w \<noteq> NULL"
  defines "n \<equiv> currentProcess s"
  defines "l \<equiv> currentThread (procs s (proc_at s n))"
  shows "\<exists>m' t. mutexDown (mid m a) m s = Some (m', t) \<and> mutex_inv m' t qs ths as (ws(a := w # ws a))
    \<and> mstatus m' a = MUTEX_LOCKED
    \<and> known_thread t qs ths (w_pid (mx_waiters m' w)) (w_pthread (mx_waiters m' w)) n l
    \<and> tst t l = T_BLOCKED_MUTEX
    \<and> st t n = (if other_ready s ths n l then st s n else BLOCKED_MUTEX)"
proof -
  note i = mutex_invD [OF inv] and c = current_thread_known [OF mutex_invD(1) [OF inv], folded n_def, folded l_def]
  let ?k = "pid (procs s (proc_at s n))" and ?pt = "pthread (threads s (thread_at s l))"
  have ane: "a \<noteq> NULL" using objects_okD(7) [OF i(5) a] by simp
  obtain t where t: "blockThread ?k ?pt T_BLOCKED_MUTEX s1 = Some t" "sched_inv t qs ths" "mm_inv t"
      "same_threads s t qs ths" "owned_pages t = insert w (owned_pages s)" "w \<notin> owned_pages s"
      "tst t l = T_BLOCKED_MUTEX" "st t n = (if other_ready s ths n l then st s n else BLOCKED_MUTEX)"
    using record_current [OF i(1,2) al, folded n_def, folded l_def] by blast
  define m1 where "m1 = m\<lparr>mx_waiters := (mx_waiters m)(w :=
       \<lparr>w_pid = ?k, w_pthread = ?pt, w_next = mx_blocked (mx_nodes m a)\<rparr>)\<rparr>"
  define m' where "m' = set_mx_blocked m1 a w"
  have run: "mutexDown (mid m a) m s = Some (m', t)"
    using findID_hit [OF i(5) a] isLocked_eq [OF i(5) a] lk c(3,4) al ane t(1)
    by (simp add: mutexDown_def mutexRequestAccess_def addThreadToMutexList_def m'_def m1_def)
  have view: "mutex_view m' = (mutex_view m)\<lparr>v_head := (v_head (mutex_view m))(a := w),
      v_waiter := (v_waiter (mutex_view m))(w := \<lparr>w_pid = ?k, w_pthread = ?pt, w_next = v_head (mutex_view m) a\<rparr>)\<rparr>"
    by (simp add: m'_def m1_def mutex_view_def set_mx_blocked_def fun_eq_iff)
  have "view_ok (mutex_view m') t qs ths as (ws(a := w # ws a))" unfolding view
    by (rule view_ok_push [OF i(4) a t(4-6) al(2) thread_pages_owned [OF i(1)] c(5)])
  moreover have ms: "mstatus m' b = mstatus m b" for b by (simp add: m'_def m1_def)
  ultimately have "mutex_inv m' t qs ths as (ws(a := w # ws a))"
    using t(2,3) i(3,6,7) lk by (auto simp: mutex_inv_def) (simp add: m'_def m1_def)
  moreover have "known_thread t qs ths (w_pid (mx_waiters m' w)) (w_pthread (mx_waiters m' w)) n l"
    using c(5) t(4) by (simp add: m'_def m1_def set_mx_blocked_def same_threads_def)
  ultimately show ?thesis using run ms lk t(7,8) by auto
qed

subsection \<open>Up wakes everybody\<close>

lemma waiting_waits: "mutex_waiters.waiting m ws = waits (mutex_view m) ws"
  by (simp add: mutex_waiters.waiting_def waits_def)

lemma mutexUp_drain:
  assumes inv: "mutex_inv m s qs ths as ws" and a: "a \<in> set as"
  shows "mutexUp (mid m a) m s = map_option (\<lambda>t. (set_mx_blocked (set_mx_status m a MUTEX_UNLOCKED) a NULL, t))
    (wake_seq (waits (mutex_view m) (ws a)) s)"
proof -
  note i = mutex_invD [OF inv]
  let ?m = "set_mx_status m a MUTEX_UNLOCKED"
  have ane: "a \<noteq> NULL" using objects_okD(7) [OF i(5) a] by simp
  have ch: "chain (\<lambda>w. w_next (mx_waiters ?m w)) (mx_blocked (mx_nodes ?m a)) (ws a) NULL"
    using view_okD(4) [OF i(4) a] by (simp add: waiter_chain_def)
  have "objects_ok (mutex_view ?m) as" using i(5) by simp
  then have "findID (mid m a) ?m = Some a" using findID_hit [of ?m as a] a by simp
  then show ?thesis
    using updateStatus_eq [OF i(5) a] mutex_waiters.drain_chain [OF ane ch, of s] ane
    by (simp add: mutexUp_def unlockProcesses_def waiting_waits)
qed

definition waits_for :: "mutexes \<Rightarrow> 'z sched_scheme \<Rightarrow> addr list \<Rightarrow> (addr \<Rightarrow> addr list) \<Rightarrow> addr list \<Rightarrow>
    addr \<Rightarrow> addr \<Rightarrow> bool" where
  \<comment> \<open>one of the nodes \<open>ws\<close> records the thread \<open>l\<close> of the process at \<open>n\<close>\<close>
  "waits_for m s qs ths ws n l \<longleftrightarrow>
     (\<exists>w \<in> set ws. known_thread s qs ths (w_pid (mx_waiters m w)) (w_pthread (mx_waiters m w)) n l)"

lemma woken_waits: "woken s qs ths (waits (mutex_view m) ws) n l = waits_for m s qs ths ws n l"
  by (force simp: woken_def waits_for_def waits_def)

lemma mutexUp_spec:
  assumes inv: "mutex_inv m s qs ths as ws" and a: "a \<in> set as"
  shows "\<exists>m' t. mutexUp (mid m a) m s = Some (m', t) \<and> mutex_inv m' t qs ths as (ws(a := []))
    \<and> mstatus m' a = MUTEX_UNLOCKED
    \<and> owned_pages t = owned_pages s - set (ws a) \<and> currentProcess t = currentProcess s
    \<and> (\<forall>n \<in> set qs. \<forall>l \<in> set (ths n). tst t l =
        (if waits_for m s qs ths (ws a) n l \<and> tst s l = T_BLOCKED_MUTEX then T_READY else tst s l))
    \<and> (\<forall>n \<in> set qs. st t n =
        (if (\<exists>l. waits_for m s qs ths (ws a) n l) \<and> st s n = BLOCKED_MUTEX then READY else st s n))"
proof -
  note i = mutex_invD [OF inv]
  define m' where "m' = set_mx_blocked (set_mx_status m a MUTEX_UNLOCKED) a NULL"
  obtain t where t: "wake_seq (waits (mutex_view m) (ws a)) s = Some t" "sched_inv t qs ths" "mm_inv t"
      "owned_pages t = owned_pages s - set (ws a)"
      "snodes t = snodes s" "libs t = libs s" "currentProcess t = currentProcess s"
      "\<forall>a. pid (procs t a) = pid (procs s a)" "\<forall>a. pthread (threads t a) = pthread (threads s a)"
      "\<forall>n \<in> set qs. \<forall>l \<in> set (ths n). tst t l =
        (if waits_for m s qs ths (ws a) n l \<and> tst s l = T_BLOCKED_MUTEX then T_READY else tst s l)"
      "\<forall>n \<in> set qs. st t n =
        (if (\<exists>l. waits_for m s qs ths (ws a) n l) \<and> st s n = BLOCKED_MUTEX then READY else st s n)"
    using wake_seq_spec [OF i(1,2) view_okD(5) [OF i(4) a]] unfolding fst_set_waits woken_waits by blast
  have run: "mutexUp (mid m a) m s = Some (m', t)"
    using mutexUp_drain [OF inv a] t(1) by (simp add: m'_def)
  have stt: "same_threads s t qs ths" using t(5,6,8,9) by (intro same_threads_eqs) auto
  have "mutex_view m' = (mutex_view m)\<lparr>v_head := (v_head (mutex_view m))(a := NULL)\<rparr>"
    by (simp add: m'_def mutex_view_blocked)
  then have "view_ok (mutex_view m') t qs ths as (ws(a := []))"
    using view_ok_drain [OF i(4) a stt t(4)] by simp
  then have "mutex_inv m' t qs ths as (ws(a := []))"
    using inv t(2,3) by (auto simp: mutex_inv_def m'_def)
  moreover have "mstatus m' a = MUTEX_UNLOCKED" by (simp add: m'_def)
  ultimately show ?thesis using run t(4,7,10,11) by (intro exI conjI) assumption+
qed

subsection \<open>Unknown identifiers\<close>

lemma mutex_unknown:
  assumes "objects_ok (mutex_view m) as" and "k \<notin> mid m ` set as"
  shows "mutexUp k m s = None" and "isLocked k m = Some (-1)" and "mutexDown k m s = None"
proof -
  note f = findID_miss [OF assms]
  show l: "isLocked k m = Some (-1)" using f by (simp add: isLocked_def)
  show "mutexUp k m s = None" using f by (simp add: mutexUp_def updateStatus_def unlockProcesses_def)
  show "mutexDown k m s = None"
    using f l by (simp add: mutexDown_def mutexRequestAccess_def addThreadToMutexList_def split: bind_splits)
qed

subsection \<open>Creation and destruction\<close>

lemma npages_mutexNode [simp]: "npages SIZEOF_mutexNode = 1" and sane_mutexNode [simp]: "sane_request SIZEOF_mutexNode"
  by (simp_all add: npages_def ceil_div_def sane_request_def)

definition fresh_mutex :: "mutexes \<Rightarrow> addr \<Rightarrow> mutexes" where
  \<comment> \<open>what \<open>createMutex\<close> writes into the new page; \<open>next\<close> and \<open>blockedThreadList\<close> keep what was there\<close>
  "fresh_mutex m a = set_mx_status (m\<lparr>mx_nodes := (mx_nodes m)(a := (mx_nodes m a)\<lparr>mx_id := mx_counter m\<rparr>),
     mx_counter := mx_counter m + 1\<rparr>) a MUTEX_UNLOCKED"

lemma fresh_mutex_select [simp]:
  shows "mnx (fresh_mutex m a) b = mnx m b" and "mstatus (fresh_mutex m a) b = (if b = a then MUTEX_UNLOCKED else mstatus m b)"
    and "mid (fresh_mutex m a) b = (if b = a then mx_counter m else mid m b)"
    and "mx_blocked (mx_nodes (fresh_mutex m a) b) = mx_blocked (mx_nodes m b)"
    and "mx_counter (fresh_mutex m a) = mx_counter m + 1" and "mx_list (fresh_mutex m a) = mx_list m"
    and "mx_waiters (fresh_mutex m a) = mx_waiters m"
  by (simp_all add: fresh_mutex_def set_mx_status_def)

lemma set_mx_next_select [simp]:
  shows "mstatus (set_mx_next m a v) b = mstatus m b" and "mid (set_mx_next m a v) b = mid m b"
    and "mx_blocked (mx_nodes (set_mx_next m a v) b) = mx_blocked (mx_nodes m b)"
    and "mx_counter (set_mx_next m a v) = mx_counter m" and "mx_waiters (set_mx_next m a v) = mx_waiters m"
    and "mx_list (set_mx_next m a v) = mx_list m"
    and "mnx (set_mx_next m a v) b = (if b = a then v else mnx m b)"
  by (simp_all add: set_mx_next_def)

lemma createMutex_run:
  assumes "objects_ok (mutex_view m) as" and "a \<notin> set as"
    and "allocate SIZEOF_mutexNode s = Some (a, t)" and "a \<noteq> NULL"
  shows "createMutex m s = Some (mx_counter m,
    (if as = [] then fresh_mutex m a else set_mx_next (fresh_mutex m a) (last as) a)
      \<lparr>mx_list := if as = [] then a else mx_list m\<rparr>, t)"
proof -
  have "chain (mnx (fresh_mutex m a)) (mx_list m) as NULL"
    using objects_okD(1) [OF assms(1)] by simp
  then have "addMutex a (mx_list m) (fresh_mutex m a) = Some (if as = [] then a else mx_list m,
      if as = [] then fresh_mutex m a else set_mx_next (fresh_mutex m a) (last as) a)"
    using mutex_append.add_chain [of "fresh_mutex m a" "mx_list m" as a a "fresh_mutex m a"] by simp
  then show ?thesis
    using assms(3,4) by (simp add: createMutex_def fresh_mutex_def [symmetric] Let_def)
qed

lemma createMutex_spec:
  assumes inv: "mutex_inv m s qs ths as ws" and al: "allocate SIZEOF_mutexNode s = Some (a, t)" "a \<noteq> NULL"
    and stale: "mnx m a = NULL" "mx_blocked (mx_nodes m a) = NULL"
  shows "\<exists>m'. createMutex m s = Some (mx_counter m, m', t) \<and> mutex_inv m' t qs ths (as @ [a]) (ws(a := []))
    \<and> mid m' a = mx_counter m \<and> mstatus m' a = MUTEX_UNLOCKED"
proof -
  note i = mutex_invD [OF inv] and v = view_okD [OF mutex_invD(4) [OF inv]]
  note f = allocate_sched_inv [OF i(1,2) sane_mutexNode al(1)]
  have own: "owned_pages t = insert a (owned_pages s)" "a \<notin> owned_pages s"
    using f(4) al(2) by (auto simp: span_one)
  have anew: "a \<notin> set as" using v(2) own(2) by blast
  define m1 where "m1 = (if as = [] then fresh_mutex m a else set_mx_next (fresh_mutex m a) (last as) a)"
  define m' where "m' = m1\<lparr>mx_list := if as = [] then a else mx_list m\<rparr>"
  have run: "createMutex m s = Some (mx_counter m, m', t)"
    using createMutex_run [OF i(5) anew al] by (simp add: m'_def m1_def)
  have sel: "mx_nodes m' = mx_nodes m1" "mid m1 b = (if b = a then mx_counter m else mid m b)"
    "mstatus m1 b = (if b = a then MUTEX_UNLOCKED else mstatus m b)"
    "mx_blocked (mx_nodes m1 b) = mx_blocked (mx_nodes m b)" "mx_counter m' = mx_counter m + 1"
    "mx_waiters m' = mx_waiters m" "mnx m1 = (if as = [] then mnx m else (mnx m)(last as := a))" for b
    by (simp_all add: m1_def m'_def fun_eq_iff)
  have wown: "b \<in> set as \<Longrightarrow> x \<in> set (ws b) \<Longrightarrow> x \<in> owned_pages s \<and> x \<noteq> a" for b x
    using v(8) own(2) by blast
  have "objects_ok (mutex_view m') (as @ [a])"
    by (rule objects_ok_append [OF i(5) anew al(2)]) (simp_all add: stale(1) i(3) sel fun_eq_iff, simp add: m'_def)
  then have "view_ok (mutex_view m') t qs ths (as @ [a]) (ws(a := []))"
    using anew own v(2,3) wown thread_pages_owned [OF i(1)] stale(2)
    by (intro view_ok_cong [OF i(4) f(3), of _ "as @ [a]" a]) (auto simp: sel)
  then have "mutex_inv m' t qs ths (as @ [a]) (ws(a := []))"
    using f(1,2) i(3,6,7) by (auto simp: mutex_inv_def sel)
  then show ?thesis using run by (auto simp: sel)
qed

lemma mutexDestroy_spec:
  assumes inv: "mutex_inv m s qs ths (xs @ a # ys) ws"
  shows "\<exists>m' t. mutexDestroy (mid m a) m s = Some (m', t) \<and> mutex_inv m' t qs ths (xs @ ys) (ws(a := []))
    \<and> owned_pages t = owned_pages s - {a} \<and> mx_nodes m' a = mx_nodes m a
    \<and> deallocate a SIZEOF_mutexNode s = Some (1, t)"
proof -
  note i = mutex_invD [OF inv] and v = view_okD [OF mutex_invD(4) [OF inv]]
  note o = objects_okD [OF i(5)]
  have sp: "span a SIZEOF_mutexNode = {a}" by (simp add: span_one)
  have "span a SIZEOF_mutexNode \<subseteq> owned_pages s" "span a SIZEOF_mutexNode \<inter> thread_pages s qs ths = {}"
    unfolding sp using v(2,3) by auto
  from deallocate_sched_inv [OF i(1,2) sane_mutexNode this] obtain mp t where t: "t = s\<lparr>usedMap := mp\<rparr>"
      "deallocate a SIZEOF_mutexNode s = Some (1, t)" "sched_inv t qs ths" "mm_inv t"
      "owned_pages t = owned_pages s - {a}" unfolding sp by blast
  have fr: "freeMutex (m, s) a = Some (m, t)" using t(2) by (simp add: freeMutex_def)
  define m1 where "m1 = (if xs = [] then m else set_mx_next m (last xs) (mnx m a))"
  define m' where "m' = m1\<lparr>mx_list := if xs = [] then mnx m a else mx_list m\<rparr>"
  have miss: "mid m x \<noteq> mid m a" if "x \<in> set xs" for x
    using o(4) [of x a] o(3) that by auto
  have "destroyMutex (mid m a) (mx_list m) (m, s) = Some (if xs = [] then mnx m a else mx_list m, m1, t)"
    using mutex_remove.remove_present [of "(m, s)" "mx_list m" xs a ys "mid m a" "(m, t)"] o(1) miss fr
    by (auto simp: m1_def)
  then have run: "mutexDestroy (mid m a) m s = Some (m', t)" by (simp add: mutexDestroy_def m'_def)
  have ax: "xs \<noteq> [] \<Longrightarrow> last xs \<noteq> a" using o(3) by auto
  have sel: "mx_nodes m' = mx_nodes m1" "mid m1 b = mid m b" "mstatus m1 b = mstatus m b"
    "mx_blocked (mx_nodes m1 b) = mx_blocked (mx_nodes m b)" "mx_counter m' = mx_counter m"
    "mx_waiters m' = mx_waiters m" "mnx m1 = (if xs = [] then mnx m else (mnx m)(last xs := mnx m a))" for b
    by (simp_all add: m1_def m'_def fun_eq_iff)
  have wown: "b \<in> set (xs @ a # ys) \<Longrightarrow> x \<in> set (ws b) \<Longrightarrow> x \<in> owned_pages s \<and> x \<noteq> a" for b x
    using v(8) v(6) by fastforce
  have "objects_ok (mutex_view m') (xs @ ys)"
    by (rule objects_ok_unlink [OF i(5)]) (simp_all add: sel, simp add: m'_def)
  then have "view_ok (mutex_view m') t qs ths (xs @ ys) (ws(a := []))"
    using o(3) v(2,3) wown t(5)
    by (intro view_ok_cong [OF i(4) same_threads_map [of s mp], folded t(1), of _ "xs @ ys" a]) (auto simp: sel)
  then have "mutex_inv m' t qs ths (xs @ ys) (ws(a := []))"
    using t(3,4) i(3,6,7) by (auto simp: mutex_inv_def sel)
  moreover have "mx_nodes m' a = mx_nodes m a"
    using ax by (simp add: sel(1)) (simp add: m1_def set_mx_next_def)
  ultimately show ?thesis using run t(2,5) by blast
qed

subsection \<open>A concrete mutex: free, locked, and with a waiter\<close>

definition no_mutexes :: mutexes where
  "no_mutexes = \<lparr>mx_counter = 0, mx_list = NULL,
     mx_nodes = (\<lambda>_. \<lparr>mx_id = 0, mx_status = 0, mx_next = NULL, mx_blocked = NULL\<rparr>),
     mx_waiters = (\<lambda>_. \<lparr>w_pid = 0, w_pthread = 0, w_next = NULL\<rparr>)\<rparr>"

definition demo_mutex :: mutexes where
  "demo_mutex = (fresh_mutex no_mutexes 0x100C000)\<lparr>mx_list := 0x100C000\<rparr>"

lemma no_mutexes_inv: "12 \<le> k \<Longrightarrow> k \<le> 32 \<Longrightarrow> mutex_inv no_mutexes (demo_pages k) demo_queue demo_threads [] (\<lambda>_. [])"
  by (simp add: mutex_inv_def demo_pages_inv demo_pages_mm view_ok_def objects_ok_def no_mutexes_def)

lemma demo_mutex_created: "createMutex no_mutexes (demo_pages 12) = Some (0, demo_mutex, demo_pages 13)"
  and demo_mutex_inv: "mutex_inv demo_mutex (demo_pages 13) demo_queue demo_threads [0x100C000] (\<lambda>_. [])"
proof -
  note i = no_mutexes_inv [of 12]
  have al: "allocate SIZEOF_mutexNode (demo_pages 12) = Some (0x100C000, demo_pages 13)"
    using demo_allocate [of 12 SIZEOF_mutexNode] by simp
  show r: "createMutex no_mutexes (demo_pages 12) = Some (0, demo_mutex, demo_pages 13)"
    using createMutex_run [OF mutex_invD(5) [OF i] _ al] by (simp add: demo_mutex_def) (simp add: no_mutexes_def)
  show "mutex_inv demo_mutex (demo_pages 13) demo_queue demo_threads [0x100C000] (\<lambda>_. [])"
    using createMutex_spec [OF i al] r by (simp add: no_mutexes_def fun_upd_def)
qed

lemma demo_mutex_select:
  shows "mid demo_mutex 0x100C000 = 0" and "mstatus demo_mutex 0x100C000 = MUTEX_UNLOCKED"
  by (simp_all add: demo_mutex_def) (simp add: no_mutexes_def)

definition demo_locked :: mutexes where
  "demo_locked = set_mx_status demo_mutex 0x100C000 MUTEX_LOCKED"

lemma demo_locked_inv: "mutex_inv demo_locked (demo_pages 13) demo_queue demo_threads [0x100C000] (\<lambda>_. [])"
  unfolding demo_locked_def by (rule mutexDown_free(2) [OF demo_mutex_inv]) (simp_all add: demo_mutex_select)

lemma demo_locked_select:
  shows "mid demo_locked 0x100C000 = 0" and "mstatus demo_locked 0x100C000 = MUTEX_LOCKED"
  by (simp_all add: demo_locked_def demo_mutex_select)

definition demo_contended :: "mutexes \<times> sched" where
  "demo_contended = the (mutexDown 0 demo_locked (demo_pages 13))"

lemma demo_block_allocate: "allocate SIZEOF_blocked (demo_pages 13) = Some (0x100D000, demo_pages 14)"
  using demo_allocate [of 13 SIZEOF_blocked] by simp

lemma demo_contended:
  shows "mutex_inv (fst demo_contended) (snd demo_contended) demo_queue demo_threads [0x100C000]
      ((\<lambda>_. [])(0x100C000 := [0x100D000]))"
    and "mid (fst demo_contended) 0x100C000 = 0"
    and "waits_for (fst demo_contended) (snd demo_contended) demo_queue demo_threads [0x100D000] 0x1000000 0x1006000"
    and "tst (snd demo_contended) 0x1006000 = T_BLOCKED_MUTEX"
proof -
  have lk: "mstatus demo_locked 0x100C000 = MUTEX_LOCKED" and k: "mid demo_locked 0x100C000 = 0"
    by (rule demo_locked_select)+
  obtain m t where r: "mutexDown 0 demo_locked (demo_pages 13) = Some (m, t)"
      "mutex_inv m t demo_queue demo_threads [0x100C000] ((\<lambda>_. [])(0x100C000 := [0x100D000]))"
      "known_thread t demo_queue demo_threads (w_pid (mx_waiters m 0x100D000)) (w_pthread (mx_waiters m 0x100D000)) 0x1000000 0x1006000"
      "tst t 0x1006000 = T_BLOCKED_MUTEX"
    using mutexDown_locked [OF demo_locked_inv _ lk demo_block_allocate] by (auto simp: k demo_current)
  then have e: "demo_contended = (m, t)" by (simp add: demo_contended_def)
  obtain a where "findID 0 demo_locked = Some a" "isLocked 0 demo_locked = Some 1"
    using findID_hit [OF mutex_invD(5) [OF demo_locked_inv], of "0x100C000"]
      isLocked_eq [OF mutex_invD(5) [OF demo_locked_inv], of "0x100C000"] by (simp add: k lk)
  then have "mid m b = mid demo_locked b" for b
    using r(1) by (auto simp: mutexDown_def mutexRequestAccess_def addThreadToMutexList_def
        set_mx_blocked_def split: bind_splits prod.splits)
  then show "mid (fst demo_contended) 0x100C000 = 0" by (simp add: e k)
  show "mutex_inv (fst demo_contended) (snd demo_contended) demo_queue demo_threads [0x100C000]
      ((\<lambda>_. [])(0x100C000 := [0x100D000]))" using r(2) by (simp add: e)
  show "waits_for (fst demo_contended) (snd demo_contended) demo_queue demo_threads [0x100D000] 0x1000000 0x1006000"
    using r(3) by (simp add: e waits_for_def)
  show "tst (snd demo_contended) 0x1006000 = T_BLOCKED_MUTEX" using r(4) by (simp add: e)
qed

subsection \<open>Properties\<close>

inductive mutex_step :: "mutexes \<times> 'z sched_scheme \<Rightarrow> mutexes \<times> 'z sched_scheme \<Rightarrow> bool" where
  create: "allocate SIZEOF_mutexNode s = Some (a, s') \<Longrightarrow> mnx m a = NULL \<Longrightarrow> mx_blocked (mx_nodes m a) = NULL \<Longrightarrow>
    createMutex m s = Some (k, m', t) \<Longrightarrow> mutex_step (m, s) (m', t)"
| down: "mutexDown k m s = Some (m', t) \<Longrightarrow> mutex_step (m, s) (m', t)"
| up: "mutexUp k m s = Some (m', t) \<Longrightarrow> mutex_step (m, s) (m', t)"
| destroy: "mutexDestroy k m s = Some (m', t) \<Longrightarrow> mutex_step (m, s) (m', t)"

lemma mutexDestroy_unknown:
  assumes "objects_ok (mutex_view m) as" and "k \<notin> mid m ` set as"
  shows "mutexDestroy k m s = Some (m, s)"
proof -
  have "destroyMutex k (mx_list m) (m, s) = Some (mx_list m, m, s)"
    using objects_okD(1) [OF assms(1)] assms(2)
    by (intro mutex_remove.remove_absent [of "(m, s)" _ as]) auto
  then show ?thesis by (simp add: mutexDestroy_def)
qed

lemma mutexDown_inv:
  assumes inv: "mutex_inv m s qs ths as ws" and run: "mutexDown k m s = Some (m', t)"
  shows "\<exists>ws'. mutex_inv m' t qs ths as ws'"
proof -
  note i = mutex_invD [OF inv]
  have "k \<in> mid m ` set as" using mutex_unknown(3) [OF i(5), of k s] run by (auto intro: ccontr)
  then obtain a where a: "a \<in> set as" "k = mid m a" by blast
  show ?thesis
  proof (cases "mstatus m a = MUTEX_LOCKED")
    case True
    have "\<exists>w s1. allocate SIZEOF_blocked s = Some (w, s1) \<and> w \<noteq> NULL"
      using run a isLocked_eq [OF i(5) a(1)] True
      by (auto simp: mutexDown_def mutexRequestAccess_def addThreadToMutexList_def split: bind_splits prod.splits)
    then show ?thesis using mutexDown_locked [OF inv a(1) True] run a(2) by fastforce
  next
    case False
    then have "mstatus m a = MUTEX_UNLOCKED" using i(6) [OF a(1)] by simp
    from mutexDown_free [OF inv a(1) this] run a(2) show ?thesis by auto
  qed
qed

lemma mutex_step_inv:
  assumes "mutex_step (m, s) (m', t)" and inv: "mutex_inv m s qs ths as ws"
  shows "\<exists>as' ws'. mutex_inv m' t qs ths as' ws'"
  using assms(1)
proof (cases rule: mutex_step.cases)
  case (create a s' k)
  then have "a \<noteq> NULL" by (cases "a = NULL") (auto simp: createMutex_def)
  then show ?thesis using createMutex_spec [OF inv create(1) _ create(2,3)] create(4) by force
next
  case (down k)
  then show ?thesis using mutexDown_inv [OF inv] by blast
next
  case (up k)
  then have "k \<in> mid m ` set as"
    using mutex_unknown(1) [OF mutex_invD(5) [OF inv], of k s] by (auto intro: ccontr)
  then obtain a where "a \<in> set as" "k = mid m a" by blast
  then show ?thesis using mutexUp_spec [OF inv] up by fastforce
next
  case (destroy k)
  show ?thesis
  proof (cases "k \<in> mid m ` set as")
    case True
    then obtain a where "a \<in> set as" and k: "k = mid m a" by blast
    then obtain xs ys where "as = xs @ a # ys" by (metis split_list)
    with inv have "mutex_inv m s qs ths (xs @ a # ys) ws" by simp
    from mutexDestroy_spec [OF this] destroy k show ?thesis by fastforce
  next
    case False
    then have "mutexDestroy k m s = Some (m, s)" by (rule mutexDestroy_unknown [OF mutex_invD(5) [OF inv]])
    then show ?thesis using destroy inv by auto
  qed
qed

text \<open>A free mutex is taken by the first \<open>mutexDown\<close>, which returns without touching the scheduler;
  from then on the thread that is current when \<open>mutexDown\<close> is called again is recorded at the head of
  the waiters and blocked, and its process with it unless another of its threads is ready.\<close>

theorem mutexDown_admits_one:
  assumes inv: "mutex_inv m s qs ths as ws" and a: "a \<in> set as" and free: "mstatus m a = MUTEX_UNLOCKED"
    and later: "mutex_inv (set_mx_status m a MUTEX_LOCKED) r qs ths as ws"
    and page: "allocate SIZEOF_blocked r = Some (w, r1)" "w \<noteq> NULL"
    and n: "n = currentProcess r" and l: "l = currentThread (procs r (proc_at r n))"
  shows "mutexDown (mid m a) m s = Some (set_mx_status m a MUTEX_LOCKED, s)
    \<and> (\<exists>m' t. mutexDown (mid m a) (set_mx_status m a MUTEX_LOCKED) r = Some (m', t)
        \<and> mutex_inv m' t qs ths as (ws(a := w # ws a)) \<and> mstatus m' a = MUTEX_LOCKED
        \<and> known_thread t qs ths (w_pid (mx_waiters m' w)) (w_pthread (mx_waiters m' w)) n l
        \<and> tst t l = T_BLOCKED_MUTEX
        \<and> st t n = (if other_ready r ths n l then st r n else BLOCKED_MUTEX))"
  using mutexDown_free(1) [OF inv a free] mutexDown_locked [OF later a _ page, folded n, folded l] by simp

theorem mutexDown_admits_one_witness:
  "mutexDown 0 demo_mutex (demo_pages 13) = Some (demo_locked, demo_pages 13)
    \<and> (\<exists>m' t. mutexDown 0 demo_locked (demo_pages 13) = Some (m', t) \<and> tst t 0x1006000 = T_BLOCKED_MUTEX)"
  using mutexDown_admits_one [OF demo_mutex_inv _ _ demo_locked_inv [unfolded demo_locked_def] demo_block_allocate,
      of "0x1000000" "0x1006000"]
  by (auto simp: demo_mutex_select demo_current demo_locked_def)

text \<open>C15. \<open>mutexUp\<close> returns, leaves the mutex free and without waiters, gives their nodes back to
  the allocator, makes ready every thread that was recorded and still blocked on a mutex, and every
  process of such a thread that was blocked, and changes no other state.\<close>

theorem mutexUp_wakes_all_waiters:
  assumes "mutex_inv m s qs ths as ws" and "a \<in> set as"
  shows "\<exists>m' t. mutexUp (mid m a) m s = Some (m', t) \<and> mutex_inv m' t qs ths as (ws(a := []))
    \<and> mstatus m' a = MUTEX_UNLOCKED
    \<and> owned_pages t = owned_pages s - set (ws a) \<and> currentProcess t = currentProcess s
    \<and> (\<forall>n \<in> set qs. \<forall>l \<in> set (ths n). tst t l =
        (if waits_for m s qs ths (ws a) n l \<and> tst s l = T_BLOCKED_MUTEX then T_READY else tst s l))
    \<and> (\<forall>n \<in> set qs. st t n =
        (if (\<exists>l. waits_for m s qs ths (ws a) n l) \<and> st s n = BLOCKED_MUTEX then READY else st s n))"
  using assms by (rule mutexUp_spec)

theorem mutexUp_wakes_all_waiters_witness:
  "\<exists>m' t. mutexUp 0 (fst demo_contended) (snd demo_contended) = Some (m', t)
    \<and> mstatus m' 0x100C000 = MUTEX_UNLOCKED \<and> tst t 0x1006000 = T_READY"
proof -
  have "0x1000000 \<in> set demo_queue" "0x1006000 \<in> set (demo_threads 0x1000000)"
    by (simp_all add: demo_nodes demo_threads_def)
  then show ?thesis
    using mutexUp_wakes_all_waiters [OF demo_contended(1), of "0x100C000"] demo_contended(2-4) by fastforce
qed

text \<open>C16. The invariant of the mutexes (the list is well formed, identifiers are distinct and below the
  counter, every status is one of the two, nobody waits for a free mutex, every waiter is a thread of a
  known process) is kept by every sequence of downs, ups, destructions and creations in clean pages: the page
  that \<open>createMutex\<close> gets reads null in \<open>next\<close> and \<open>blockedThreadList\<close>, which the code neither tests nor writes
  (\<open>recycled_mutex_makes_cycle\<close> is what happens otherwise). Only calls that return are steps: one with an
  identifier that is not in the list writes through a null pointer and has no result.\<close>

theorem mutex_invariant:
  assumes "rtranclp mutex_step (m, s) (m', t)" and "mutex_inv m s qs ths as ws"
  shows "\<exists>as' ws'. mutex_inv m' t qs ths as' ws'"
  using assms(1)
proof (induction rule: rtranclp_induct2)
  case refl
  then show ?case using assms(2) by blast
next
  case (step m1 s1 m2 s2)
  then show ?case using mutex_step_inv by blast
qed

theorem mutex_invariant_witness:
  "mutex_step (no_mutexes, demo_pages 12) (demo_mutex, demo_pages 13)
    \<and> (\<exists>as ws. mutex_inv demo_mutex (demo_pages 13) demo_queue demo_threads as ws)"
proof -
  have al: "allocate SIZEOF_mutexNode (demo_pages 12) = Some (0x100C000, demo_pages 13)"
    using demo_allocate [of 12 SIZEOF_mutexNode] by simp
  have "mutex_step (no_mutexes, demo_pages 12) (demo_mutex, demo_pages 13)"
    by (rule create [OF al _ _ demo_mutex_created]) (simp_all add: no_mutexes_def)
  moreover from this have "rtranclp mutex_step (no_mutexes, demo_pages 12) (demo_mutex, demo_pages 13)"
    by (rule r_into_rtranclp)
  then have "\<exists>as ws. mutex_inv demo_mutex (demo_pages 13) demo_queue demo_threads as ws"
    by (rule mutex_invariant) (rule no_mutexes_inv, simp_all)
  ultimately show ?thesis by simp
qed

text \<open>C19. A thread that \<open>mutexUp\<close> wakes does not hold the mutex: it was blocked inside its own
  \<open>mutexDown\<close>, which does not try again, and the mutex can be taken by another thread at once.
  After the wake-up both run as if they held it.\<close>

theorem woken_thread_does_not_hold:
  assumes inv: "mutex_inv m s qs ths as ws" and a: "a \<in> set as"
    and l: "n \<in> set qs" "l \<in> set (ths n)" "waits_for m s qs ths (ws a) n l" "tst s l = T_BLOCKED_MUTEX"
  shows "\<exists>m1 m2 t. mutexUp (mid m a) m s = Some (m1, t) \<and> tst t l = T_READY
    \<and> mutexDown (mid m1 a) m1 t = Some (m2, t) \<and> mstatus m2 a = MUTEX_LOCKED"
proof -
  obtain m1 t where u: "mutexUp (mid m a) m s = Some (m1, t)" "mutex_inv m1 t qs ths as (ws(a := []))"
      "mstatus m1 a = MUTEX_UNLOCKED" "tst t l = T_READY"
    using mutexUp_spec [OF inv a] l by fastforce
  from mutexDown_free(1) [OF u(2) a u(3)] u show ?thesis by force
qed

theorem woken_thread_does_not_hold_witness:
  "\<exists>m1 m2 t. mutexUp 0 (fst demo_contended) (snd demo_contended) = Some (m1, t) \<and> tst t 0x1006000 = T_READY
    \<and> mutexDown (mid m1 0x100C000) m1 t = Some (m2, t) \<and> mstatus m2 0x100C000 = MUTEX_LOCKED"
proof -
  have "0x1000000 \<in> set demo_queue" "0x1006000 \<in> set (demo_threads 0x1000000)"
    by (simp_all add: demo_nodes demo_threads_def)
  then show ?thesis
    using woken_thread_does_not_hold [OF demo_contended(1), of "0x100C000" "0x1000000" "0x1006000"] demo_contended(2-4)
    by simp
qed

text \<open>The loop of \<open>findID\<close> over nodes that lead back to each other never returns.\<close>

lemma findMutex_cycle:
  assumes "p \<in> S" and "\<And>a. a \<in> S \<Longrightarrow> a \<noteq> NULL \<and> mid m a \<noteq> k \<and> mnx m a \<in> S"
  shows "findMutex m k p = None"
proof -
  have "findMutex m' k' p' = Some r \<Longrightarrow> m' = m \<and> k' = k \<and> p' \<in> S \<longrightarrow> False" for m' k' p' r
  proof (erule findMutex.raw_induct [rotated], intro impI)
    fix f m' k' p' r
    assume ih: "\<And>m' k' p' r. f m' k' p' = Some r \<Longrightarrow> m' = m \<and> k' = k \<and> p' \<in> S \<longrightarrow> False"
      and run: "(if p' = NULL then Some p' else if mx_id (mx_nodes m' p') = k' then Some p'
        else f m' k' (mx_next (mx_nodes m' p'))) = Some r"
      and p: "m' = m \<and> k' = k \<and> p' \<in> S"
    then show False using assms(2) [of p'] ih [of m k "mnx m p'" r] by simp
  qed
  then show ?thesis using assms(1) by (cases "findMutex m k p") auto
qed

text \<open>\<open>createMutex\<close> does not clear \<open>next\<close>: after the first of two mutexes is destroyed, the next
  one is created in its page, whose stale \<open>next\<close> closes the list into a cycle, and every operation on an
  unknown identifier loops forever.\<close>

theorem recycled_mutex_makes_cycle:
  assumes inv: "mutex_inv m s qs ths [a, b] ws"
    and destroy: "mutexDestroy (mid m a) m s = Some (m1, s1)"
    and reuse: "allocate SIZEOF_mutexNode s1 = Some (a, s2)"
  shows "\<exists>m2. createMutex m1 s1 = Some (mx_counter m1, m2, s2) \<and> mx_list m2 = b \<and> mnx m2 b = a \<and> mnx m2 a = b
    \<and> (\<forall>k. k \<noteq> mx_counter m \<and> k \<noteq> mid m b \<longrightarrow>
        findID k m2 = None \<and> mutexDown k m2 s2 = None \<and> mutexUp k m2 s2 = None)"
proof -
  have inv': "mutex_inv m s qs ths ([] @ a # [b]) ws" using inv by simp
  note o = objects_okD [OF mutex_invD(5) [OF inv]]
  have ab: "a \<noteq> NULL" "b \<noteq> NULL" "a \<noteq> b" "mnx m a = b" using o(1,3) by auto
  have m1: "m1 = m\<lparr>mx_list := b\<rparr>"
    using destroy ab(1,4) by (auto simp: mutexDestroy_def destroyMutex_hit freeMutex_def o(1) split: bind_splits)
      (use o(1) in \<open>auto simp: destroyMutex_hit freeMutex_def split: bind_splits\<close>)
  obtain ws' where "mutex_inv m1 s1 qs ths [b] ws'" using mutexDestroy_spec [OF inv'] destroy by auto
  note c = createMutex_run [OF mutex_invD(5) [OF this] _ reuse ab(1)]
  define m2 where "m2 = (set_mx_next (fresh_mutex m1 a) b a)\<lparr>mx_list := b\<rparr>"
  have run: "createMutex m1 s1 = Some (mx_counter m1, m2, s2)"
    using c ab(3) by (simp add: m2_def m1)
  have sel: "mx_list m2 = b" "mnx m2 b = a" "mnx m2 a = b" "mid m2 a = mx_counter m" "mid m2 b = mid m b"
    using ab by (simp_all add: m2_def m1)
  have none: "findID k m2 = None" if "k \<noteq> mx_counter m" "k \<noteq> mid m b" for k
    unfolding findID_def using sel that ab by (intro findMutex_cycle [of _ "{a, b}"]) auto
  then have "findID k m2 = None \<and> mutexDown k m2 s2 = None \<and> mutexUp k m2 s2 = None"
    if "k \<noteq> mx_counter m" "k \<noteq> mid m b" for k
    using that by (simp add: mutexDown_def mutexRequestAccess_def mutexUp_def updateStatus_def)
  then show ?thesis using run sel by blast
qed

text \<open>Two mutexes in the pages 12 and 13; the first one is destroyed and a third one created.\<close>

definition demo_two :: mutexes where
  "demo_two = (set_mx_next (fresh_mutex demo_mutex 0x100D000) 0x100C000 0x100D000)\<lparr>mx_list := 0x100C000\<rparr>"

lemma demo_two_inv: "mutex_inv demo_two (demo_pages 14) demo_queue demo_threads [0x100C000, 0x100D000] (\<lambda>_. [])"
proof -
  have al: "allocate SIZEOF_mutexNode (demo_pages 13) = Some (0x100D000, demo_pages 14)"
    using demo_allocate [of 13 SIZEOF_mutexNode] by simp
  have l: "mx_list demo_mutex = 0x100C000" by (simp add: demo_mutex_def)
  have "createMutex demo_mutex (demo_pages 13) = Some (mx_counter demo_mutex, demo_two, demo_pages 14)"
    using createMutex_run [OF mutex_invD(5) [OF demo_mutex_inv] _ al] by (simp add: demo_two_def l)
  moreover have "mnx demo_mutex 0x100D000 = NULL" "mx_blocked (mx_nodes demo_mutex 0x100D000) = NULL"
    by (simp_all add: demo_mutex_def) (simp_all add: no_mutexes_def)
  ultimately show ?thesis using createMutex_spec [OF demo_mutex_inv al] by (simp add: fun_upd_def)
qed

lemma demo_two_select:
  shows "mid demo_two 0x100C000 = 0" and "mid demo_two 0x100D000 = 1" and "mx_counter demo_two = 2"
  by (simp_all add: demo_two_def demo_mutex_def) (simp_all add: no_mutexes_def)

theorem recycled_mutex_makes_cycle_witness:
  "\<exists>m1 s1 m2 s2. mutexDestroy 0 demo_two (demo_pages 14) = Some (m1, s1)
    \<and> createMutex m1 s1 = Some (mx_counter m1, m2, s2) \<and> findID 5 m2 = None"
proof -
  have inv: "mutex_inv demo_two (demo_pages 14) demo_queue demo_threads ([] @ 0x100C000 # [0x100D000]) (\<lambda>_. [])"
    using demo_two_inv by simp
  obtain m1 s1 where d: "mutexDestroy (mid demo_two 0x100C000) demo_two (demo_pages 14) = Some (m1, s1)"
      "mutex_inv m1 s1 demo_queue demo_threads [0x100D000] ((\<lambda>_. [])(0x100C000 := []))"
      "owned_pages s1 = owned_pages (demo_pages 14) - {0x100C000}"
      "deallocate 0x100C000 SIZEOF_mutexNode (demo_pages 14) = Some (1, s1)"
    using mutexDestroy_spec [OF inv] by auto
  obtain mp where s1: "s1 = (demo_pages 14)\<lparr>usedMap := mp\<rparr>" using deallocate_frame [OF d(4)] by blast
  have pa: "page_addr s1 i = 0x1000000 + i * 0x1000" for i
    by (simp add: s1 page_addr_def demo_pages_def demo_mm)
  have b: "(12 :: nat) < nat (blocksAmount s1)" by (simp add: s1 demo_pages_def demo_mm)
  have "page_addr s1 j \<in> owned_pages s1" if "j < 12" for j
    using that by (auto simp: pa d(3) demo_owned_pages)
  then obtain s2 where "allocate SIZEOF_mutexNode s1 = Some (0x100C000, s2)"
    using allocate_lowest [OF mutex_invD(2) [OF d(2)] sane_mutexNode npages_mutexNode b]
    by (auto simp: pa d(3))
  from recycled_mutex_makes_cycle [OF demo_two_inv d(1) this] d(1) show ?thesis
    by (auto simp: demo_two_select)
qed

end
