(* ===== verification/Semaphores.thy ===== *)
theory Semaphores
  imports WaitObjs
begin

section \<open>Semaphores (\<open>semaphores.c\<close>)\<close>

text \<open>
  Built like the mutexes, with a count instead of a flag: it is decremented before the test, so
  a negative count is the number of downs that are still to be matched.  The structure of a
  waiter has the same fields as the one of the mutexes.  The count is an \<open>int\<close>; an increment or
  a decrement that leaves its range is undefined behaviour of C and has no result.
\<close>

subsection \<open>Definitions\<close>

abbreviation (input) SIZEOF_semaphoreNode :: "64 word" where "SIZEOF_semaphoreNode \<equiv> 24"

datatype semaphoreActions = SEMAPHORE_UP | SEMAPHORE_DOWN

record semaphoreNode =
  sm_id :: int
  sm_status :: int
  sm_next :: addr
  sm_blocked :: addr

record semaphores =
  sm_counter :: int
  sm_list :: addr
  sm_nodes :: "addr \<Rightarrow> semaphoreNode"
  sm_waiters :: "addr \<Rightarrow> blockedThreadNode"

definition set_sm_next :: "semaphores \<Rightarrow> addr \<Rightarrow> addr \<Rightarrow> semaphores" where
  "set_sm_next m a v = m\<lparr>sm_nodes := (sm_nodes m)(a := (sm_nodes m a)\<lparr>sm_next := v\<rparr>)\<rparr>"

definition set_sm_status :: "semaphores \<Rightarrow> addr \<Rightarrow> int \<Rightarrow> semaphores" where
  "set_sm_status m a v = m\<lparr>sm_nodes := (sm_nodes m)(a := (sm_nodes m a)\<lparr>sm_status := v\<rparr>)\<rparr>"

definition set_sm_blocked :: "semaphores \<Rightarrow> addr \<Rightarrow> addr \<Rightarrow> semaphores" where
  "set_sm_blocked m a v = m\<lparr>sm_nodes := (sm_nodes m)(a := (sm_nodes m a)\<lparr>sm_blocked := v\<rparr>)\<rparr>"

partial_function (option) addSemaphore :: "addr \<Rightarrow> addr \<Rightarrow> semaphores \<Rightarrow> (addr \<times> semaphores) option" where
  "addSemaphore semaphore currentNode m =
     (if currentNode = NULL then Some (semaphore, m)
      else do {
        (r, m) \<leftarrow> addSemaphore semaphore (sm_next (sm_nodes m currentNode)) m;
        Some (currentNode, set_sm_next m currentNode r) })"

definition createSemaphore :: "int \<Rightarrow> semaphores \<Rightarrow> 'z sched_scheme \<Rightarrow>
    (int \<times> semaphores \<times> 'z sched_scheme) option" where
  "createSemaphore start m s = do {
     (semaphore, s) \<leftarrow> allocate SIZEOF_semaphoreNode s;
     chk semaphore;
     let m = m\<lparr>sm_nodes := (sm_nodes m)(semaphore := (sm_nodes m semaphore)\<lparr>sm_id := sm_counter m\<rparr>),
               sm_counter := sm_counter m + 1\<rparr>;
     let m = set_sm_status m semaphore start;
     (list, m) \<leftarrow> addSemaphore semaphore (sm_list m) m;
     let m = m\<lparr>sm_list := list\<rparr>;
     Some (sm_id (sm_nodes m semaphore), m, s) }"

text \<open>\<open>while (aux != NULL && aux->id != id) aux = aux->next;\<close>\<close>

partial_function (option) findSem :: "semaphores \<Rightarrow> int \<Rightarrow> addr \<Rightarrow> addr option" where
  "findSem m k aux =
     (if aux = NULL then Some aux
      else if sm_id (sm_nodes m aux) = k then Some aux
      else findSem m k (sm_next (sm_nodes m aux)))"

definition findSemaphoreId :: "int \<Rightarrow> semaphores \<Rightarrow> addr option" where
  "findSemaphoreId k m = findSem m k (sm_list m)"

definition updateSemaphoreStatus :: "int \<Rightarrow> semaphoreActions \<Rightarrow> semaphores \<Rightarrow> semaphores option" where
  "updateSemaphoreStatus k action m = do {
     semaphore \<leftarrow> findSemaphoreId k m;
     if semaphore = NULL then Some m
     else let v = (case action of SEMAPHORE_DOWN \<Rightarrow> sm_status (sm_nodes m semaphore) - 1
                     | SEMAPHORE_UP \<Rightarrow> sm_status (sm_nodes m semaphore) + 1)
       in if int_range v then Some (set_sm_status m semaphore v) else None }"

definition isSemaphoreLocked :: "int \<Rightarrow> semaphores \<Rightarrow> int option" where
  "isSemaphoreLocked k m = do {
     semaphore \<leftarrow> findSemaphoreId k m;
     Some (if semaphore = NULL then -1
       else if sm_status (sm_nodes m semaphore) < 0 then 1 else 0) }"

definition addThreadToSemaphoreList :: "addr \<Rightarrow> int \<Rightarrow> int \<Rightarrow> semaphores \<Rightarrow> 'z sched_scheme \<Rightarrow>
    (semaphores \<times> 'z sched_scheme) option" where
  "addThreadToSemaphoreList semaphore k pt m s = do {
     (node, s) \<leftarrow> allocate SIZEOF_blocked s;
     chk node;
     chk semaphore;
     let m = m\<lparr>sm_waiters := (sm_waiters m)(node :=
       \<lparr>w_pid = k, w_pthread = pt, w_next = sm_blocked (sm_nodes m semaphore)\<rparr>)\<rparr>;
     Some (set_sm_blocked m semaphore node, s) }"

definition semaphoreRequestAccess :: "int \<Rightarrow> semaphores \<Rightarrow> 'z sched_scheme \<Rightarrow>
    (int \<times> semaphores \<times> 'z sched_scheme) option" where
  "semaphoreRequestAccess k m s = do {
     semaphore \<leftarrow> findSemaphoreId k m;
     locked \<leftarrow> isSemaphoreLocked k m;
     if locked \<noteq> 0 then do {
       currentPid \<leftarrow> getCurrentPid s;
       currentPthread \<leftarrow> getCurrentPthread s;
       (m, s) \<leftarrow> addThreadToSemaphoreList semaphore currentPid currentPthread m s;
       s \<leftarrow> blockThread currentPid currentPthread T_BLOCKED_MUTEX s;
       Some (0, m, s) }
     else Some (1, m, s) }"

definition semaphoreDown :: "int \<Rightarrow> semaphores \<Rightarrow> 'z sched_scheme \<Rightarrow> (semaphores \<times> 'z sched_scheme) option" where
  "semaphoreDown k m s = do {
     m \<leftarrow> updateSemaphoreStatus k SEMAPHORE_DOWN m;
     (_, m, s) \<leftarrow> semaphoreRequestAccess k m s;
     Some (m, s) }"

partial_function (option) drainSemaphore :: "addr \<Rightarrow> semaphores \<Rightarrow> 'z sched_scheme \<Rightarrow>
    (semaphores \<times> 'z sched_scheme) option" where
  "drainSemaphore semaphore m s =
     (let w = sm_blocked (sm_nodes m semaphore) in
      if w \<noteq> NULL then do {
        s \<leftarrow> unblockThread (w_pid (sm_waiters m w)) (w_pthread (sm_waiters m w)) T_BLOCKED_MUTEX s;
        (_, s) \<leftarrow> deallocate w SIZEOF_blocked s;
        drainSemaphore semaphore (set_sm_blocked m semaphore (w_next (sm_waiters m w))) s }
      else Some (m, s))"

definition unlockSemaphoreProcess :: "int \<Rightarrow> semaphores \<Rightarrow> 'z sched_scheme \<Rightarrow>
    (semaphores \<times> 'z sched_scheme) option" where
  "unlockSemaphoreProcess k m s = do {
     semaphore \<leftarrow> findSemaphoreId k m;
     chk semaphore;
     drainSemaphore semaphore m s }"

definition semaphoreUp :: "int \<Rightarrow> semaphores \<Rightarrow> 'z sched_scheme \<Rightarrow> (semaphores \<times> 'z sched_scheme) option" where
  "semaphoreUp k m s = do {
     m \<leftarrow> updateSemaphoreStatus k SEMAPHORE_UP m;
     locked \<leftarrow> isSemaphoreLocked k m;
     if locked = 0 then unlockSemaphoreProcess k m s else Some (m, s) }"

definition freeSemaphore :: "semaphores \<times> 'z sched_scheme \<Rightarrow> addr \<Rightarrow> (semaphores \<times> 'z sched_scheme) option" where
  "freeSemaphore ms a = do { (_, s) \<leftarrow> deallocate a SIZEOF_semaphoreNode (snd ms); Some (fst ms, s) }"

partial_function (option) destroySemaphore :: "int \<Rightarrow> addr \<Rightarrow> semaphores \<times> 'z sched_scheme \<Rightarrow>
    (addr \<times> semaphores \<times> 'z sched_scheme) option" where
  "destroySemaphore semaphoreId currentNode ms =
     (if currentNode = NULL then Some (NULL, ms)
      else if sm_id (sm_nodes (fst ms) currentNode) = semaphoreId then do {
        t \<leftarrow> freeSemaphore ms currentNode;
        Some (sm_next (sm_nodes (fst ms) currentNode), t) }
      else do {
        (r, m, s) \<leftarrow> destroySemaphore semaphoreId (sm_next (sm_nodes (fst ms) currentNode)) ms;
        Some (currentNode, set_sm_next m currentNode r, s) })"

definition semaphoreDestroy :: "int \<Rightarrow> semaphores \<Rightarrow> 'z sched_scheme \<Rightarrow> (semaphores \<times> 'z sched_scheme) option" where
  "semaphoreDestroy k m s = do {
     (list, m, s) \<leftarrow> destroySemaphore k (sm_list m) (m, s);
     Some (m\<lparr>sm_list := list\<rparr>, s) }"

subsection \<open>The loops are the shared ones\<close>

abbreviation smnx :: "semaphores \<Rightarrow> addr \<Rightarrow> addr" where
  "smnx m \<equiv> \<lambda>a. sm_next (sm_nodes m a)"

abbreviation sid :: "semaphores \<Rightarrow> addr \<Rightarrow> int" where
  "sid m a \<equiv> sm_id (sm_nodes m a)"

lemma smnx_set: "smnx (set_sm_next m a v) = (smnx m)(a := v)"
  by (auto simp: set_sm_next_def)

lemma set_sm_next_same: "set_sm_next m a (smnx m a) = m"
proof -
  have "(sm_nodes m)(a := (sm_nodes m a)\<lparr>sm_next := sm_next (sm_nodes m a)\<rparr>) = sm_nodes m" by auto
  then show ?thesis by (simp add: set_sm_next_def)
qed

lemma set_sm_blocked_same: "set_sm_blocked m a (sm_blocked (sm_nodes m a)) = m"
proof -
  have "(sm_nodes m)(a := (sm_nodes m a)\<lparr>sm_blocked := sm_blocked (sm_nodes m a)\<rparr>) = sm_nodes m" by auto
  then show ?thesis by (simp add: set_sm_blocked_def)
qed

interpretation sem_search: list_search smnx "\<lambda>m k a. sid m a = k" findSem
  by unfold_locales (subst findSem.simps, simp)+

interpretation sem_append: chain_append_op smnx set_sm_next "\<lambda>m prev. Some (mutex, m)"
    "\<lambda>m prev a. addSemaphore mutex a m" for mutex
  by unfold_locales (simp_all add: smnx_set set_sm_next_same, (subst addSemaphore.simps, simp)+)

lemma destroySemaphore_null: "destroySemaphore k NULL ms = Some (NULL, ms)"
  by (subst destroySemaphore.simps) simp

lemma destroySemaphore_hit: "a \<noteq> NULL \<Longrightarrow> sid (fst ms) a = k \<Longrightarrow>
    destroySemaphore k a ms = do { t \<leftarrow> freeSemaphore ms a; Some (smnx (fst ms) a, t) }"
  by (subst destroySemaphore.simps) simp

lemma destroySemaphore_miss: "a \<noteq> NULL \<Longrightarrow> sid (fst ms) a \<noteq> k \<Longrightarrow>
    destroySemaphore k a ms = do {
      (r, t) \<leftarrow> destroySemaphore k (smnx (fst ms) a) ms; Some (a, set_sm_next (fst t) a r, snd t) }"
  by (subst destroySemaphore.simps) (simp add: case_prod_unfold)

lemma freeSemaphore_fst: "freeSemaphore ms a = Some t \<Longrightarrow> fst t = fst ms"
  by (auto simp: freeSemaphore_def split: bind_splits prod.splits)

interpretation sem_remove: chain_remove_op "\<lambda>ms. smnx (fst ms)" "\<lambda>ms a v. (set_sm_next (fst ms) a v, snd ms)"
    "\<lambda>ms k a. sid (fst ms) a = k" freeSemaphore "\<lambda>ms k a. destroySemaphore k a ms"
  by unfold_locales
    (simp_all add: smnx_set set_sm_next_same freeSemaphore_fst destroySemaphore_null destroySemaphore_hit destroySemaphore_miss)

interpretation sem_waiters: wait_list "\<lambda>m a. sm_blocked (sm_nodes m a)" set_sm_blocked sm_waiters drainSemaphore
proof unfold_locales
  show "drainSemaphore a m s = Some (m, s)" if "sm_blocked (sm_nodes m a) = NULL" for a m and s :: "'z sched_scheme"
    using that by (subst drainSemaphore.simps) simp
  show "drainSemaphore a m s = do {
        s \<leftarrow> unblockThread (w_pid (sm_waiters m (sm_blocked (sm_nodes m a))))
          (w_pthread (sm_waiters m (sm_blocked (sm_nodes m a)))) T_BLOCKED_MUTEX s;
        (_, s) \<leftarrow> deallocate (sm_blocked (sm_nodes m a)) SIZEOF_blocked s;
        drainSemaphore a (set_sm_blocked m a (w_next (sm_waiters m (sm_blocked (sm_nodes m a))))) s }"
    if "sm_blocked (sm_nodes m a) \<noteq> NULL" for a m and s :: "'z sched_scheme"
    using that by (subst drainSemaphore.simps) (simp add: Let_def)
qed (auto simp: set_sm_blocked_same set_sm_blocked_def)

subsection \<open>The invariant\<close>

definition sem_view :: "semaphores \<Rightarrow> wait_view" where
  "sem_view m = \<lparr>v_list = sm_list m, v_counter = sm_counter m, v_next = smnx m, v_id = sid m,
     v_head = (\<lambda>a. sm_blocked (sm_nodes m a)), v_waiter = sm_waiters m\<rparr>"

abbreviation sstatus :: "semaphores \<Rightarrow> addr \<Rightarrow> int" where
  "sstatus m a \<equiv> sm_status (sm_nodes m a)"

definition sem_inv :: "semaphores \<Rightarrow> 'z sched_scheme \<Rightarrow> addr list \<Rightarrow> (addr \<Rightarrow> addr list) \<Rightarrow>
    addr list \<Rightarrow> (addr \<Rightarrow> addr list) \<Rightarrow> bool" where
  \<comment> \<open>\<open>as\<close> are the semaphores, \<open>ws a\<close> the waiters of \<open>a\<close>; nobody waits unless the count is negative\<close>
  "sem_inv m s qs ths as ws \<longleftrightarrow> sched_inv s qs ths \<and> mm_inv s \<and> 0 \<le> sm_counter m
     \<and> view_ok (sem_view m) s qs ths as ws
     \<and> (\<forall>a \<in> set as. sstatus m a < 0 \<or> ws a = [])"

lemma sem_view_select [simp]:
  shows "v_list (sem_view m) = sm_list m" and "v_counter (sem_view m) = sm_counter m"
    and "v_next (sem_view m) = smnx m" and "v_id (sem_view m) = sid m"
    and "v_head (sem_view m) = (\<lambda>a. sm_blocked (sm_nodes m a))" and "v_waiter (sem_view m) = sm_waiters m"
  by (simp_all add: sem_view_def)

lemma sem_invD:
  assumes "sem_inv m s qs ths as ws"
  shows "sched_inv s qs ths" and "mm_inv s" and "0 \<le> sm_counter m" and "view_ok (sem_view m) s qs ths as ws"
    and "objects_ok (sem_view m) as"
    and "a \<in> set as \<Longrightarrow> sstatus m a < 0 \<or> ws a = []"
  using assms view_okD(1) by (auto simp: sem_inv_def)

lemma findSemaphoreId_hit:
  assumes "objects_ok (sem_view m) as" and "a \<in> set as"
  shows "findSemaphoreId (sid m a) m = Some a"
proof -
  note o = objects_okD [OF assms(1)]
  show ?thesis unfolding findSemaphoreId_def
    using o(1,4) assms(2) by (intro sem_search.search_list_hit [of m _ as]) auto
qed

lemma findSemaphoreId_miss:
  assumes "objects_ok (sem_view m) as" and "k \<notin> sid m ` set as"
  shows "findSemaphoreId k m = Some NULL"
  unfolding findSemaphoreId_def
  using objects_okD(1) [OF assms(1)] assms(2) by (intro sem_search.search_list_miss [of m _ as]) auto

lemma sem_view_status [simp]: "sem_view (set_sm_status m a v) = sem_view m"
  by (simp add: sem_view_def set_sm_status_def fun_eq_iff)

lemma sem_view_blocked: "sem_view (set_sm_blocked m a w) = (sem_view m)\<lparr>v_head := (v_head (sem_view m))(a := w)\<rparr>"
  by (simp add: sem_view_def set_sm_blocked_def fun_eq_iff)

lemma sstatus_set [simp]:
  shows "sstatus (set_sm_status m a v) b = (if b = a then v else sstatus m b)"
    and "sstatus (set_sm_blocked m a w) b = sstatus m b"
    and "sid (set_sm_status m a v) b = sid m b"
    and "sm_counter (set_sm_status m a v) = sm_counter m" and "sm_counter (set_sm_blocked m a w) = sm_counter m"
    and "sm_waiters (set_sm_status m a v) = sm_waiters m"
    and "sm_blocked (sm_nodes (set_sm_status m a v) b) = sm_blocked (sm_nodes m b)"
    and "sm_list (set_sm_status m a v) = sm_list m"
  by (simp_all add: set_sm_status_def set_sm_blocked_def)

lemma isSemaphoreLocked_eq:
  assumes "objects_ok (sem_view m) as" and "a \<in> set as"
  shows "isSemaphoreLocked (sid m a) m = Some (if sstatus m a < 0 then 1 else 0)"
  using findSemaphoreId_hit [OF assms] objects_okD(7) [OF assms] by (simp add: isSemaphoreLocked_def)

definition step_count :: "semaphoreActions \<Rightarrow> int" where
  "step_count action = (case action of SEMAPHORE_UP \<Rightarrow> 1 | SEMAPHORE_DOWN \<Rightarrow> -1)"

lemma updateSemaphoreStatus_eq:
  assumes "objects_ok (sem_view m) as" and "a \<in> set as"
  shows "updateSemaphoreStatus (sid m a) act m =
    (if int_range (sstatus m a + step_count act) then Some (set_sm_status m a (sstatus m a + step_count act)) else None)"
  using findSemaphoreId_hit [OF assms] objects_okD(7) [OF assms]
  by (cases act) (simp_all add: updateSemaphoreStatus_def step_count_def Let_def)

lemma sem_inv_status:
  assumes "sem_inv m s qs ths as ws" and "a \<in> set as" and "v < 0 \<or> ws a = []"
  shows "sem_inv (set_sm_status m a v) s qs ths as ws"
  using assms by (auto simp: sem_inv_def)

subsection \<open>Down\<close>

lemma semaphoreDown_passes:
  assumes inv: "sem_inv m s qs ths as ws" and a: "a \<in> set as" and st: "0 < sstatus m a"
    and rg: "int_range (sstatus m a)"
  shows "semaphoreDown (sid m a) m s = Some (set_sm_status m a (sstatus m a - 1), s)"
    and "sem_inv (set_sm_status m a (sstatus m a - 1)) s qs ths as ws"
proof -
  note i = sem_invD [OF inv]
  let ?m = "set_sm_status m a (sstatus m a - 1)"
  have o: "objects_ok (sem_view ?m) as" using i(5) by simp
  show "semaphoreDown (sid m a) m s = Some (?m, s)"
    using findSemaphoreId_hit [OF o a] isSemaphoreLocked_eq [OF o a] updateSemaphoreStatus_eq [OF i(5) a] st rg
    by (simp add: semaphoreDown_def semaphoreRequestAccess_def step_count_def int_range_def)
  show "sem_inv ?m s qs ths as ws"
    using i(6) [OF a] st by (intro sem_inv_status [OF inv a]) simp
qed

lemma semaphoreDown_waits:
  assumes inv: "sem_inv m s qs ths as ws" and a: "a \<in> set as" and lk: "sstatus m a \<le> 0"
    and rg: "int_range (sstatus m a - 1)"
    and al: "allocate SIZEOF_blocked s = Some (w, s1)" "w \<noteq> NULL"
  defines "n \<equiv> currentProcess s"
  defines "l \<equiv> currentThread (procs s (proc_at s n))"
  shows "\<exists>m' t. semaphoreDown (sid m a) m s = Some (m', t) \<and> sem_inv m' t qs ths as (ws(a := w # ws a))
    \<and> sstatus m' a = sstatus m a - 1
    \<and> known_thread t qs ths (w_pid (sm_waiters m' w)) (w_pthread (sm_waiters m' w)) n l
    \<and> tst t l = T_BLOCKED_MUTEX
    \<and> st t n = (if other_ready s ths n l then st s n else BLOCKED_MUTEX)"
proof -
  note i = sem_invD [OF inv] and c = current_thread_known [OF sem_invD(1) [OF inv], folded n_def, folded l_def]
  let ?k = "pid (procs s (proc_at s n))" and ?pt = "pthread (threads s (thread_at s l))"
  let ?d = "set_sm_status m a (sstatus m a - 1)"
  have o: "objects_ok (sem_view ?d) as" using i(5) by simp
  have ane: "a \<noteq> NULL" using objects_okD(7) [OF i(5) a] by simp
  obtain t where t: "blockThread ?k ?pt T_BLOCKED_MUTEX s1 = Some t" "sched_inv t qs ths" "mm_inv t"
      "same_threads s t qs ths" "owned_pages t = insert w (owned_pages s)" "w \<notin> owned_pages s"
      "tst t l = T_BLOCKED_MUTEX" "st t n = (if other_ready s ths n l then st s n else BLOCKED_MUTEX)"
    using record_current [OF i(1,2) al, folded n_def, folded l_def] by blast
  define m1 where "m1 = ?d\<lparr>sm_waiters := (sm_waiters ?d)(w :=
       \<lparr>w_pid = ?k, w_pthread = ?pt, w_next = sm_blocked (sm_nodes ?d a)\<rparr>)\<rparr>"
  define m' where "m' = set_sm_blocked m1 a w"
  have run: "semaphoreDown (sid m a) m s = Some (m', t)"
    using findSemaphoreId_hit [OF o a] isSemaphoreLocked_eq [OF o a] updateSemaphoreStatus_eq [OF i(5) a]
      lk rg c(3,4) al ane t(1)
    by (simp add: semaphoreDown_def semaphoreRequestAccess_def addThreadToSemaphoreList_def m'_def m1_def step_count_def)
  have view: "sem_view m' = (sem_view m)\<lparr>v_head := (v_head (sem_view m))(a := w),
      v_waiter := (v_waiter (sem_view m))(w := \<lparr>w_pid = ?k, w_pthread = ?pt, w_next = v_head (sem_view m) a\<rparr>)\<rparr>"
    by (simp add: m'_def m1_def sem_view_def set_sm_blocked_def set_sm_status_def fun_eq_iff)
  have "view_ok (sem_view m') t qs ths as (ws(a := w # ws a))" unfolding view
    by (rule view_ok_push [OF i(4) a t(4-6) al(2) thread_pages_owned [OF i(1)] c(5)])
  moreover have ms: "sstatus m' b = (if b = a then sstatus m a - 1 else sstatus m b)" for b
    by (simp add: m'_def m1_def)
  moreover have "sm_counter m' = sm_counter m" by (simp add: m'_def m1_def)
  ultimately have "sem_inv m' t qs ths as (ws(a := w # ws a))"
    using t(2,3) inv lk by (auto simp: sem_inv_def)
  moreover have "known_thread t qs ths (w_pid (sm_waiters m' w)) (w_pthread (sm_waiters m' w)) n l"
    using c(5) t(4) by (simp add: m'_def m1_def set_sm_blocked_def same_threads_def)
  ultimately show ?thesis using run ms t(7,8) by auto
qed

subsection \<open>Up\<close>

lemma sem_waiting_waits: "sem_waiters.waiting m ws = waits (sem_view m) ws"
  by (simp add: sem_waiters.waiting_def waits_def)

lemma semaphoreUp_counts:
  assumes inv: "sem_inv m s qs ths as ws" and a: "a \<in> set as" and st: "sstatus m a < -1"
    and rg: "int_range (sstatus m a)"
  shows "semaphoreUp (sid m a) m s = Some (set_sm_status m a (sstatus m a + 1), s)"
    and "sem_inv (set_sm_status m a (sstatus m a + 1)) s qs ths as ws"
proof -
  note i = sem_invD [OF inv]
  let ?m = "set_sm_status m a (sstatus m a + 1)"
  have o: "objects_ok (sem_view ?m) as" using i(5) by simp
  show "semaphoreUp (sid m a) m s = Some (?m, s)"
    using isSemaphoreLocked_eq [OF o a] updateSemaphoreStatus_eq [OF i(5) a] st rg
    by (simp add: semaphoreUp_def step_count_def int_range_def)
  show "sem_inv ?m s qs ths as ws" using st by (intro sem_inv_status [OF inv a]) simp
qed

definition sem_waits_for :: "semaphores \<Rightarrow> 'z sched_scheme \<Rightarrow> addr list \<Rightarrow> (addr \<Rightarrow> addr list) \<Rightarrow> addr list \<Rightarrow>
    addr \<Rightarrow> addr \<Rightarrow> bool" where
  \<comment> \<open>one of the nodes \<open>ws\<close> records the thread \<open>l\<close> of the process at \<open>n\<close>\<close>
  "sem_waits_for m s qs ths ws n l \<longleftrightarrow>
     (\<exists>w \<in> set ws. known_thread s qs ths (w_pid (sm_waiters m w)) (w_pthread (sm_waiters m w)) n l)"

lemma sem_woken_waits: "woken s qs ths (waits (sem_view m) ws) n l = sem_waits_for m s qs ths ws n l"
  by (force simp: woken_def sem_waits_for_def waits_def)

lemma semaphoreUp_wakes:
  assumes inv: "sem_inv m s qs ths as ws" and a: "a \<in> set as" and st: "-1 \<le> sstatus m a"
    and rg: "int_range (sstatus m a + 1)"
  shows "\<exists>m' t. semaphoreUp (sid m a) m s = Some (m', t) \<and> sem_inv m' t qs ths as (ws(a := []))
    \<and> sstatus m' a = sstatus m a + 1
    \<and> owned_pages t = owned_pages s - set (ws a) \<and> currentProcess t = currentProcess s
    \<and> (\<forall>n \<in> set qs. \<forall>l \<in> set (ths n). tst t l =
        (if sem_waits_for m s qs ths (ws a) n l \<and> tst s l = T_BLOCKED_MUTEX then T_READY else tst s l))
    \<and> (\<forall>n \<in> set qs. st t n =
        (if (\<exists>l. sem_waits_for m s qs ths (ws a) n l) \<and> st s n = BLOCKED_MUTEX then READY else st s n))"
proof -
  note i = sem_invD [OF inv]
  let ?m = "set_sm_status m a (sstatus m a + 1)"
  have o: "objects_ok (sem_view ?m) as" using i(5) by simp
  have ane: "a \<noteq> NULL" using objects_okD(7) [OF i(5) a] by simp
  have ch: "chain (\<lambda>w. w_next (sm_waiters ?m w)) (sm_blocked (sm_nodes ?m a)) (ws a) NULL"
    using view_okD(4) [OF i(4) a] by (simp add: waiter_chain_def)
  define m' where "m' = set_sm_blocked ?m a NULL"
  obtain t where t: "wake_seq (waits (sem_view m) (ws a)) s = Some t" "sched_inv t qs ths" "mm_inv t"
      "owned_pages t = owned_pages s - set (ws a)"
      "snodes t = snodes s" "libs t = libs s" "currentProcess t = currentProcess s"
      "\<forall>a. pid (procs t a) = pid (procs s a)" "\<forall>a. pthread (threads t a) = pthread (threads s a)"
      "\<forall>n \<in> set qs. \<forall>l \<in> set (ths n). tst t l =
        (if sem_waits_for m s qs ths (ws a) n l \<and> tst s l = T_BLOCKED_MUTEX then T_READY else tst s l)"
      "\<forall>n \<in> set qs. st t n =
        (if (\<exists>l. sem_waits_for m s qs ths (ws a) n l) \<and> st s n = BLOCKED_MUTEX then READY else st s n)"
    using wake_seq_spec [OF i(1,2) view_okD(5) [OF i(4) a]] unfolding fst_set_waits sem_woken_waits by blast
  have run: "semaphoreUp (sid m a) m s = Some (m', t)"
    using updateSemaphoreStatus_eq [OF i(5) a] isSemaphoreLocked_eq [OF o a] findSemaphoreId_hit [OF o a] st rg
      sem_waiters.drain_chain [OF ane ch, of s] ane t(1)
    by (simp add: semaphoreUp_def unlockSemaphoreProcess_def sem_waiting_waits step_count_def m'_def)
  have stt: "same_threads s t qs ths" using t(5,6,8,9) by (intro same_threads_eqs) auto
  have "sem_view m' = (sem_view m)\<lparr>v_head := (v_head (sem_view m))(a := NULL)\<rparr>"
    by (simp add: m'_def sem_view_blocked)
  then have "view_ok (sem_view m') t qs ths as (ws(a := []))"
    using view_ok_drain [OF i(4) a stt t(4)] by simp
  then have "sem_inv m' t qs ths as (ws(a := []))"
    using inv t(2,3) by (auto simp: sem_inv_def m'_def)
  moreover have "sstatus m' a = sstatus m a + 1" by (simp add: m'_def)
  ultimately show ?thesis using run t(4,7,10,11) by (intro exI conjI) assumption+
qed

subsection \<open>Unknown identifiers\<close>

lemma sem_unknown:
  assumes "objects_ok (sem_view m) as" and "k \<notin> sid m ` set as"
  shows "semaphoreUp k m s = Some (m, s)" and "isSemaphoreLocked k m = Some (-1)" and "semaphoreDown k m s = None"
proof -
  note f = findSemaphoreId_miss [OF assms]
  show l: "isSemaphoreLocked k m = Some (-1)" using f by (simp add: isSemaphoreLocked_def)
  have u: "updateSemaphoreStatus k act m = Some m" for act using f by (simp add: updateSemaphoreStatus_def)
  show "semaphoreUp k m s = Some (m, s)" using l u by (simp add: semaphoreUp_def)
  show "semaphoreDown k m s = None"
    using f l u by (simp add: semaphoreDown_def semaphoreRequestAccess_def addThreadToSemaphoreList_def split: bind_splits)
qed

subsection \<open>Creation and destruction\<close>

lemma npages_semaphoreNode [simp]: "npages SIZEOF_semaphoreNode = 1" and sane_semaphoreNode [simp]: "sane_request SIZEOF_semaphoreNode"
  by (simp_all add: npages_def ceil_div_def sane_request_def)

definition fresh_sem :: "int \<Rightarrow> semaphores \<Rightarrow> addr \<Rightarrow> semaphores" where
  \<comment> \<open>what \<open>createSemaphore\<close> writes into the new page; \<open>next\<close> and \<open>blockedThreadList\<close> keep what was there\<close>
  "fresh_sem start m a = set_sm_status (m\<lparr>sm_nodes := (sm_nodes m)(a := (sm_nodes m a)\<lparr>sm_id := sm_counter m\<rparr>),
     sm_counter := sm_counter m + 1\<rparr>) a start"

lemma fresh_sem_select [simp]:
  shows "smnx (fresh_sem start m a) b = smnx m b" and "sstatus (fresh_sem start m a) b = (if b = a then start else sstatus m b)"
    and "sid (fresh_sem start m a) b = (if b = a then sm_counter m else sid m b)"
    and "sm_blocked (sm_nodes (fresh_sem start m a) b) = sm_blocked (sm_nodes m b)"
    and "sm_counter (fresh_sem start m a) = sm_counter m + 1" and "sm_list (fresh_sem start m a) = sm_list m"
    and "sm_waiters (fresh_sem start m a) = sm_waiters m"
  by (simp_all add: fresh_sem_def set_sm_status_def)

lemma set_sm_next_select [simp]:
  shows "sstatus (set_sm_next m a v) b = sstatus m b" and "sid (set_sm_next m a v) b = sid m b"
    and "sm_blocked (sm_nodes (set_sm_next m a v) b) = sm_blocked (sm_nodes m b)"
    and "sm_counter (set_sm_next m a v) = sm_counter m" and "sm_waiters (set_sm_next m a v) = sm_waiters m"
    and "sm_list (set_sm_next m a v) = sm_list m"
    and "smnx (set_sm_next m a v) b = (if b = a then v else smnx m b)"
  by (simp_all add: set_sm_next_def)

lemma createSemaphore_run:
  assumes "objects_ok (sem_view m) as" and "a \<notin> set as"
    and "allocate SIZEOF_semaphoreNode s = Some (a, t)" and "a \<noteq> NULL"
  shows "createSemaphore start m s = Some (sm_counter m,
    (if as = [] then fresh_sem start m a else set_sm_next (fresh_sem start m a) (last as) a)
      \<lparr>sm_list := if as = [] then a else sm_list m\<rparr>, t)"
proof -
  have "chain (smnx (fresh_sem start m a)) (sm_list m) as NULL"
    using objects_okD(1) [OF assms(1)] by simp
  then have "addSemaphore a (sm_list m) (fresh_sem start m a) = Some (if as = [] then a else sm_list m,
      if as = [] then fresh_sem start m a else set_sm_next (fresh_sem start m a) (last as) a)"
    using sem_append.add_chain [of "fresh_sem start m a" "sm_list m" as a a "fresh_sem start m a"] by simp
  then show ?thesis
    using assms(3,4) by (simp add: createSemaphore_def fresh_sem_def [symmetric] Let_def)
qed

lemma createSemaphore_spec:
  assumes inv: "sem_inv m s qs ths as ws" and al: "allocate SIZEOF_semaphoreNode s = Some (a, t)" "a \<noteq> NULL"
    and stale: "smnx m a = NULL" "sm_blocked (sm_nodes m a) = NULL"
  shows "\<exists>m'. createSemaphore start m s = Some (sm_counter m, m', t) \<and> sem_inv m' t qs ths (as @ [a]) (ws(a := []))
    \<and> sid m' a = sm_counter m \<and> sstatus m' a = start"
proof -
  note i = sem_invD [OF inv] and v = view_okD [OF sem_invD(4) [OF inv]]
  note f = allocate_sched_inv [OF i(1,2) sane_semaphoreNode al(1)]
  have own: "owned_pages t = insert a (owned_pages s)" "a \<notin> owned_pages s"
    using f(4) al(2) by (auto simp: span_one)
  have anew: "a \<notin> set as" using v(2) own(2) by blast
  define m1 where "m1 = (if as = [] then fresh_sem start m a else set_sm_next (fresh_sem start m a) (last as) a)"
  define m' where "m' = m1\<lparr>sm_list := if as = [] then a else sm_list m\<rparr>"
  have run: "createSemaphore start m s = Some (sm_counter m, m', t)"
    using createSemaphore_run [OF i(5) anew al] by (simp add: m'_def m1_def)
  have sel: "sm_nodes m' = sm_nodes m1" "sid m1 b = (if b = a then sm_counter m else sid m b)"
    "sstatus m1 b = (if b = a then start else sstatus m b)"
    "sm_blocked (sm_nodes m1 b) = sm_blocked (sm_nodes m b)" "sm_counter m' = sm_counter m + 1"
    "sm_waiters m' = sm_waiters m" "smnx m1 = (if as = [] then smnx m else (smnx m)(last as := a))" for b
    by (simp_all add: m1_def m'_def fun_eq_iff)
  have wown: "b \<in> set as \<Longrightarrow> x \<in> set (ws b) \<Longrightarrow> x \<in> owned_pages s \<and> x \<noteq> a" for b x
    using v(8) own(2) by blast
  have "objects_ok (sem_view m') (as @ [a])"
    by (rule objects_ok_append [OF i(5) anew al(2)]) (simp_all add: stale(1) i(3) sel fun_eq_iff, simp add: m'_def)
  then have "view_ok (sem_view m') t qs ths (as @ [a]) (ws(a := []))"
    using anew own v(2,3) wown thread_pages_owned [OF i(1)] stale(2)
    by (intro view_ok_cong [OF i(4) f(3), of _ "as @ [a]" a]) (auto simp: sel)
  then have "sem_inv m' t qs ths (as @ [a]) (ws(a := []))"
    using f(1,2) i(3,6) by (auto simp: sem_inv_def sel)
  then show ?thesis using run by (auto simp: sel)
qed

lemma semaphoreDestroy_spec:
  assumes inv: "sem_inv m s qs ths (xs @ a # ys) ws"
  shows "\<exists>m' t. semaphoreDestroy (sid m a) m s = Some (m', t) \<and> sem_inv m' t qs ths (xs @ ys) (ws(a := []))
    \<and> owned_pages t = owned_pages s - {a} \<and> sm_nodes m' a = sm_nodes m a
    \<and> deallocate a SIZEOF_semaphoreNode s = Some (1, t)"
proof -
  note i = sem_invD [OF inv] and v = view_okD [OF sem_invD(4) [OF inv]]
  note o = objects_okD [OF i(5)]
  have sp: "span a SIZEOF_semaphoreNode = {a}" by (simp add: span_one)
  have "span a SIZEOF_semaphoreNode \<subseteq> owned_pages s" "span a SIZEOF_semaphoreNode \<inter> thread_pages s qs ths = {}"
    unfolding sp using v(2,3) by auto
  from deallocate_sched_inv [OF i(1,2) sane_semaphoreNode this] obtain mp t where t: "t = s\<lparr>usedMap := mp\<rparr>"
      "deallocate a SIZEOF_semaphoreNode s = Some (1, t)" "sched_inv t qs ths" "mm_inv t"
      "owned_pages t = owned_pages s - {a}" unfolding sp by blast
  have fr: "freeSemaphore (m, s) a = Some (m, t)" using t(2) by (simp add: freeSemaphore_def)
  define m1 where "m1 = (if xs = [] then m else set_sm_next m (last xs) (smnx m a))"
  define m' where "m' = m1\<lparr>sm_list := if xs = [] then smnx m a else sm_list m\<rparr>"
  have miss: "sid m x \<noteq> sid m a" if "x \<in> set xs" for x
    using o(4) [of x a] o(3) that by auto
  have "destroySemaphore (sid m a) (sm_list m) (m, s) = Some (if xs = [] then smnx m a else sm_list m, m1, t)"
    using sem_remove.remove_present [of "(m, s)" "sm_list m" xs a ys "sid m a" "(m, t)"] o(1) miss fr
    by (auto simp: m1_def)
  then have run: "semaphoreDestroy (sid m a) m s = Some (m', t)" by (simp add: semaphoreDestroy_def m'_def)
  have ax: "xs \<noteq> [] \<Longrightarrow> last xs \<noteq> a" using o(3) by auto
  have sel: "sm_nodes m' = sm_nodes m1" "sid m1 b = sid m b" "sstatus m1 b = sstatus m b"
    "sm_blocked (sm_nodes m1 b) = sm_blocked (sm_nodes m b)" "sm_counter m' = sm_counter m"
    "sm_waiters m' = sm_waiters m" "smnx m1 = (if xs = [] then smnx m else (smnx m)(last xs := smnx m a))" for b
    by (simp_all add: m1_def m'_def fun_eq_iff)
  have wown: "b \<in> set (xs @ a # ys) \<Longrightarrow> x \<in> set (ws b) \<Longrightarrow> x \<in> owned_pages s \<and> x \<noteq> a" for b x
    using v(8) v(6) by fastforce
  have "objects_ok (sem_view m') (xs @ ys)"
    by (rule objects_ok_unlink [OF i(5)]) (simp_all add: sel, simp add: m'_def)
  then have "view_ok (sem_view m') t qs ths (xs @ ys) (ws(a := []))"
    using o(3) v(2,3) wown t(5)
    by (intro view_ok_cong [OF i(4) same_threads_map [of s mp], folded t(1), of _ "xs @ ys" a]) (auto simp: sel)
  then have "sem_inv m' t qs ths (xs @ ys) (ws(a := []))"
    using t(3,4) i(3,6) by (auto simp: sem_inv_def sel)
  moreover have "sm_nodes m' a = sm_nodes m a"
    using ax by (simp add: sel(1)) (simp add: m1_def set_sm_next_def)
  ultimately show ?thesis using run t(2,5) by blast
qed

subsection \<open>A concrete semaphore\<close>

definition no_semaphores :: semaphores where
  "no_semaphores = \<lparr>sm_counter = 0, sm_list = NULL,
     sm_nodes = (\<lambda>_. \<lparr>sm_id = 0, sm_status = 0, sm_next = NULL, sm_blocked = NULL\<rparr>),
     sm_waiters = (\<lambda>_. \<lparr>w_pid = 0, w_pthread = 0, w_next = NULL\<rparr>)\<rparr>"

definition demo_sem :: "int \<Rightarrow> semaphores" where
  "demo_sem v = (fresh_sem v no_semaphores 0x100C000)\<lparr>sm_list := 0x100C000\<rparr>"

lemma no_semaphores_inv: "12 \<le> k \<Longrightarrow> k \<le> 32 \<Longrightarrow> sem_inv no_semaphores (demo_pages k) demo_queue demo_threads [] (\<lambda>_. [])"
  by (simp add: sem_inv_def demo_pages_inv demo_pages_mm view_ok_def objects_ok_def no_semaphores_def)

lemma demo_sem_allocate: "allocate SIZEOF_semaphoreNode (demo_pages 12) = Some (0x100C000, demo_pages 13)"
  using demo_allocate [of 12 SIZEOF_semaphoreNode] by simp

lemma demo_sem_created: "createSemaphore v no_semaphores (demo_pages 12) = Some (0, demo_sem v, demo_pages 13)"
  using createSemaphore_run [OF sem_invD(5) [OF no_semaphores_inv [of 12]] _ demo_sem_allocate, of v]
  by (simp add: demo_sem_def) (simp add: no_semaphores_def)

lemma demo_sem_inv: "sem_inv (demo_sem v) (demo_pages 13) demo_queue demo_threads [0x100C000] (\<lambda>_. [])"
  using createSemaphore_spec [OF no_semaphores_inv [of 12] demo_sem_allocate, of v] demo_sem_created [of v]
  by (simp add: no_semaphores_def fun_upd_def)

lemma demo_sem_select [simp]:
  shows "sid (demo_sem v) 0x100C000 = 0" and "sstatus (demo_sem v) 0x100C000 = v"
  by (simp_all add: demo_sem_def) (simp add: no_semaphores_def)

lemma demo_sem_block: "allocate SIZEOF_blocked (demo_pages 13) = Some (0x100D000, demo_pages 14)"
  using demo_allocate [of 13 SIZEOF_blocked] by simp

subsection \<open>Properties\<close>

fun downs :: "nat \<Rightarrow> int \<Rightarrow> semaphores \<Rightarrow> 'z sched_scheme \<Rightarrow> (semaphores \<times> 'z sched_scheme) option" where
  "downs 0 k m s = Some (m, s)"
| "downs (Suc n) k m s = do { (m, s) \<leftarrow> semaphoreDown k m s; downs n k m s }"

lemma set_sm_status_twice: "set_sm_status (set_sm_status m a v) a u = set_sm_status m a u"
  by (simp add: set_sm_status_def)

lemma set_sm_status_same: "set_sm_status m a (sstatus m a) = m"
proof -
  have "(sm_nodes m)(a := (sm_nodes m a)\<lparr>sm_status := sm_status (sm_nodes m a)\<rparr>) = sm_nodes m" by auto
  then show ?thesis by (simp add: set_sm_status_def)
qed

lemma downs_pass:
  assumes "sem_inv m s qs ths as ws" and "a \<in> set as" and "int n \<le> sstatus m a" and "int_range (sstatus m a)"
  shows "downs n (sid m a) m s = Some (set_sm_status m a (sstatus m a - int n), s)
    \<and> sem_inv (set_sm_status m a (sstatus m a - int n)) s qs ths as ws"
  using assms
proof (induction n arbitrary: m)
  case 0
  then show ?case by (simp add: set_sm_status_same)
next
  case (Suc n)
  then have pos: "0 < sstatus m a" by simp
  let ?m = "set_sm_status m a (sstatus m a - 1)"
  note d = semaphoreDown_passes [OF Suc.prems(1,2) pos Suc.prems(4)]
  have "downs n (sid ?m a) ?m s = Some (set_sm_status ?m a (sstatus ?m a - int n), s)
      \<and> sem_inv (set_sm_status ?m a (sstatus ?m a - int n)) s qs ths as ws"
    using Suc.prems(2-4) by (intro Suc.IH [OF d(2)]) (auto simp: int_range_def)
  then show ?case using d(1) by (simp add: set_sm_status_twice algebra_simps)
qed

text \<open>A semaphore whose count is \<open>n\<close> lets \<open>n\<close> downs through without touching the scheduler;
  the next one makes the count negative, records the current thread at the head of the waiters and
  blocks it, and its process with it unless another of its threads is ready.\<close>

theorem semaphore_admits_its_count:
  assumes inv: "sem_inv m s qs ths as ws" and a: "a \<in> set as" and st: "sstatus m a = int v" "int_range (int v)"
    and page: "allocate SIZEOF_blocked s = Some (w, s1)" "w \<noteq> NULL"
    and n: "n = currentProcess s" and l: "l = currentThread (procs s (proc_at s n))"
  shows "downs v (sid m a) m s = Some (set_sm_status m a 0, s)
    \<and> (\<exists>m' t. semaphoreDown (sid m a) (set_sm_status m a 0) s = Some (m', t)
        \<and> sem_inv m' t qs ths as (ws(a := w # ws a)) \<and> sstatus m' a = -1
        \<and> known_thread t qs ths (w_pid (sm_waiters m' w)) (w_pthread (sm_waiters m' w)) n l
        \<and> tst t l = T_BLOCKED_MUTEX
        \<and> st t n = (if other_ready s ths n l then st s n else BLOCKED_MUTEX))"
proof -
  have d: "downs v (sid m a) m s = Some (set_sm_status m a 0, s)" "sem_inv (set_sm_status m a 0) s qs ths as ws"
    using downs_pass [OF inv a, of v] st by auto
  from semaphoreDown_waits [OF d(2) a _ _ page, folded n, folded l] d(1) show ?thesis
    by (simp add: int_range_def)
qed

theorem semaphore_admits_its_count_witness:
  "downs 2 0 (demo_sem 2) (demo_pages 13) = Some (set_sm_status (demo_sem 2) 0x100C000 0, demo_pages 13)
    \<and> (\<exists>m' t. semaphoreDown 0 (set_sm_status (demo_sem 2) 0x100C000 0) (demo_pages 13) = Some (m', t)
        \<and> sstatus m' 0x100C000 = -1 \<and> tst t 0x1006000 = T_BLOCKED_MUTEX)"
  using semaphore_admits_its_count [OF demo_sem_inv [of 2] _ _ _ demo_sem_block, of "0x100C000" 2 "0x1000000" "0x1006000"]
  by (auto simp: demo_current int_range_def)

text \<open>C17. \<open>semaphoreUp\<close> adds one to the count.  While the count stays negative it does nothing else:
  every waiter stays blocked, although a unit was released.  When the count becomes zero or more it wakes
  all the waiters at once.\<close>

theorem semaphoreUp_wakes_at_zero:
  assumes inv: "sem_inv m s qs ths as ws" and a: "a \<in> set as" and rg: "int_range (sstatus m a + 1)" "int_range (sstatus m a)"
  shows "if sstatus m a < -1 then semaphoreUp (sid m a) m s = Some (set_sm_status m a (sstatus m a + 1), s)
    else \<exists>m' t. semaphoreUp (sid m a) m s = Some (m', t) \<and> sem_inv m' t qs ths as (ws(a := []))
      \<and> sstatus m' a = sstatus m a + 1 \<and> owned_pages t = owned_pages s - set (ws a)
      \<and> (\<forall>n \<in> set qs. \<forall>l \<in> set (ths n). tst t l =
          (if sem_waits_for m s qs ths (ws a) n l \<and> tst s l = T_BLOCKED_MUTEX then T_READY else tst s l))
      \<and> (\<forall>n \<in> set qs. st t n =
          (if (\<exists>l. sem_waits_for m s qs ths (ws a) n l) \<and> st s n = BLOCKED_MUTEX then READY else st s n))"
proof (cases "sstatus m a < -1")
  case True
  then show ?thesis using semaphoreUp_counts(1) [OF inv a True rg(2)] by simp
next
  case False
  obtain m' t where "semaphoreUp (sid m a) m s = Some (m', t)" "sem_inv m' t qs ths as (ws(a := []))"
      "sstatus m' a = sstatus m a + 1" "owned_pages t = owned_pages s - set (ws a)"
      "\<forall>n \<in> set qs. \<forall>l \<in> set (ths n). tst t l =
          (if sem_waits_for m s qs ths (ws a) n l \<and> tst s l = T_BLOCKED_MUTEX then T_READY else tst s l)"
      "\<forall>n \<in> set qs. st t n =
          (if (\<exists>l. sem_waits_for m s qs ths (ws a) n l) \<and> st s n = BLOCKED_MUTEX then READY else st s n)"
    using semaphoreUp_wakes [OF inv a _ rg(1)] False by force
  then show ?thesis unfolding if_not_P [OF False] by (intro exI conjI)
qed

theorem semaphoreUp_wakes_at_zero_witness:
  "semaphoreUp 0 (demo_sem (-2)) (demo_pages 13) = Some (set_sm_status (demo_sem (-2)) 0x100C000 (-1), demo_pages 13)
    \<and> (\<exists>m' t. semaphoreUp 0 (demo_sem (-1)) (demo_pages 13) = Some (m', t) \<and> sstatus m' 0x100C000 = 0)"
  using semaphoreUp_wakes_at_zero [OF demo_sem_inv [of "-2"], of "0x100C000"]
    semaphoreUp_wakes_at_zero [OF demo_sem_inv [of "-1"], of "0x100C000"]
  by (auto simp: int_range_def)

inductive sem_step :: "semaphores \<times> 'z sched_scheme \<Rightarrow> semaphores \<times> 'z sched_scheme \<Rightarrow> bool" where
  create: "allocate SIZEOF_semaphoreNode s = Some (a, s') \<Longrightarrow> smnx m a = NULL \<Longrightarrow> sm_blocked (sm_nodes m a) = NULL \<Longrightarrow>
    createSemaphore start m s = Some (k, m', t) \<Longrightarrow> sem_step (m, s) (m', t)"
| down: "semaphoreDown k m s = Some (m', t) \<Longrightarrow> sem_step (m, s) (m', t)"
| up: "semaphoreUp k m s = Some (m', t) \<Longrightarrow> sem_step (m, s) (m', t)"
| destroy: "semaphoreDestroy k m s = Some (m', t) \<Longrightarrow> sem_step (m, s) (m', t)"

lemma semaphoreDestroy_unknown:
  assumes "objects_ok (sem_view m) as" and "k \<notin> sid m ` set as"
  shows "semaphoreDestroy k m s = Some (m, s)"
proof -
  have "destroySemaphore k (sm_list m) (m, s) = Some (sm_list m, m, s)"
    using objects_okD(1) [OF assms(1)] assms(2)
    by (intro sem_remove.remove_absent [of "(m, s)" _ as]) auto
  then show ?thesis by (simp add: semaphoreDestroy_def)
qed

lemma semaphoreDown_inv:
  assumes inv: "sem_inv m s qs ths as ws" and run: "semaphoreDown k m s = Some (m', t)"
  shows "\<exists>ws'. sem_inv m' t qs ths as ws'"
proof -
  note i = sem_invD [OF inv]
  have "k \<in> sid m ` set as" using sem_unknown(3) [OF i(5), of k s] run by (auto intro: ccontr)
  then obtain a where a: "a \<in> set as" "k = sid m a" by blast
  let ?m = "set_sm_status m a (sstatus m a - 1)"
  have o: "objects_ok (sem_view ?m) as" using i(5) by simp
  have rg: "int_range (sstatus m a - 1)"
    using run updateSemaphoreStatus_eq [OF i(5) a(1), of SEMAPHORE_DOWN] a(2)
    by (auto simp: semaphoreDown_def step_count_def split: if_splits)
  show ?thesis
  proof (cases "sstatus m a \<le> 0")
    case True
    have "\<exists>w s1. allocate SIZEOF_blocked s = Some (w, s1) \<and> w \<noteq> NULL"
      using run a(2) rg updateSemaphoreStatus_eq [OF i(5) a(1), of SEMAPHORE_DOWN] isSemaphoreLocked_eq [OF o a(1)] True
      by (auto simp: semaphoreDown_def step_count_def semaphoreRequestAccess_def addThreadToSemaphoreList_def
          split: bind_splits prod.splits)
    then show ?thesis using semaphoreDown_waits [OF inv a(1) True rg] run a(2) by fastforce
  next
    case False
    then have st: "0 < sstatus m a" by simp
    show ?thesis
    proof (cases "int_range (sstatus m a)")
      case True
      from semaphoreDown_passes [OF inv a(1) st True] run a(2) show ?thesis by auto
    next
      case r: False
      have "semaphoreDown k m s = Some (?m, s)"
        using rg st a(2) updateSemaphoreStatus_eq [OF i(5) a(1), of SEMAPHORE_DOWN]
          findSemaphoreId_hit [OF o a(1)] isSemaphoreLocked_eq [OF o a(1)]
        by (simp add: semaphoreDown_def semaphoreRequestAccess_def step_count_def)
      then show ?thesis using run sem_inv_status [OF inv a(1)] i(6) [OF a(1)] st by auto
    qed
  qed
qed

lemma semaphoreUp_inv:
  assumes inv: "sem_inv m s qs ths as ws" and run: "semaphoreUp k m s = Some (m', t)"
  shows "\<exists>ws'. sem_inv m' t qs ths as ws'"
proof (cases "k \<in> sid m ` set as")
  case False
  then show ?thesis using sem_unknown(1) [OF sem_invD(5) [OF inv] False, of s] run inv by auto
next
  case True
  then obtain a where a: "a \<in> set as" "k = sid m a" by blast
  note i = sem_invD [OF inv]
  have rg: "int_range (sstatus m a + 1)"
    using run updateSemaphoreStatus_eq [OF i(5) a(1), of SEMAPHORE_UP] a(2)
    by (auto simp: semaphoreUp_def step_count_def split: if_splits)
  show ?thesis
  proof (cases "sstatus m a < -1")
    case neg: True
    have "objects_ok (sem_view (set_sm_status m a (sstatus m a + 1))) as" using i(5) by simp
    then have "semaphoreUp k m s = Some (set_sm_status m a (sstatus m a + 1), s)"
      using rg neg a updateSemaphoreStatus_eq [OF i(5) a(1), of SEMAPHORE_UP]
        isSemaphoreLocked_eq [of "set_sm_status m a (sstatus m a + 1)" as a]
      by (simp add: semaphoreUp_def step_count_def)
    then show ?thesis using run sem_inv_status [OF inv a(1), of "sstatus m a + 1"] neg by auto
  next
    case False
    then show ?thesis using semaphoreUp_wakes [OF inv a(1) _ rg] run a(2) by fastforce
  qed
qed

lemma sem_step_inv:
  assumes "sem_step (m, s) (m', t)" and inv: "sem_inv m s qs ths as ws"
  shows "\<exists>as' ws'. sem_inv m' t qs ths as' ws'"
  using assms(1)
proof (cases rule: sem_step.cases)
  case (create a s' start k)
  then have "a \<noteq> NULL" by (cases "a = NULL") (auto simp: createSemaphore_def)
  then show ?thesis using createSemaphore_spec [OF inv create(1) _ create(2,3), of start] create(4) by force
next
  case (down k)
  then show ?thesis using semaphoreDown_inv [OF inv] by blast
next
  case (up k)
  then show ?thesis using semaphoreUp_inv [OF inv] by blast
next
  case (destroy k)
  show ?thesis
  proof (cases "k \<in> sid m ` set as")
    case True
    then obtain a where "a \<in> set as" and k: "k = sid m a" by blast
    then obtain xs ys where "as = xs @ a # ys" by (metis split_list)
    with inv have "sem_inv m s qs ths (xs @ a # ys) ws" by simp
    from semaphoreDestroy_spec [OF this] destroy k show ?thesis by fastforce
  next
    case False
    then have "semaphoreDestroy k m s = Some (m, s)" by (rule semaphoreDestroy_unknown [OF sem_invD(5) [OF inv]])
    then show ?thesis using destroy inv by auto
  qed
qed

text \<open>C18. The invariant of the semaphores (the list is well formed, identifiers are distinct and below
  the counter, only a negative count has waiters, every waiter is a thread of a known process) is kept by
  every sequence of downs, ups, destructions and creations in clean pages: the page \<open>createSemaphore\<close> gets
  reads null in \<open>next\<close> and \<open>blockedThreadList\<close>, which the code neither tests nor writes. Only calls that
  return are steps: one with an identifier that is not in the list writes through a null pointer and has no
  result.\<close>

theorem semaphore_invariant:
  assumes "rtranclp sem_step (m, s) (m', t)" and "sem_inv m s qs ths as ws"
  shows "\<exists>as' ws'. sem_inv m' t qs ths as' ws'"
  using assms(1)
proof (induction rule: rtranclp_induct2)
  case refl
  then show ?case using assms(2) by blast
next
  case (step m1 s1 m2 s2)
  then show ?case using sem_step_inv by blast
qed

theorem semaphore_invariant_witness:
  "sem_step (no_semaphores, demo_pages 12) (demo_sem 3, demo_pages 13)
    \<and> (\<exists>as ws. sem_inv (demo_sem 3) (demo_pages 13) demo_queue demo_threads as ws)"
proof -
  have "sem_step (no_semaphores, demo_pages 12) (demo_sem 3, demo_pages 13)"
    by (rule sem_step.create [OF demo_sem_allocate _ _ demo_sem_created]) (simp_all add: no_semaphores_def)
  moreover from this have "rtranclp sem_step (no_semaphores, demo_pages 12) (demo_sem 3, demo_pages 13)"
    by (rule r_into_rtranclp)
  then have "\<exists>as ws. sem_inv (demo_sem 3) (demo_pages 13) demo_queue demo_threads as ws"
    by (rule semaphore_invariant) (rule no_semaphores_inv, simp_all)
  ultimately show ?thesis by simp
qed

text \<open>On an identifier that no semaphore has, \<open>semaphoreUp\<close> is ignored, but \<open>semaphoreDown\<close> takes the
  \<open>-1\<close> of \<open>isSemaphoreLocked\<close> for a lock and dereferences a null pointer.\<close>

theorem unknown_semaphore:
  assumes "sem_inv m s qs ths as ws" and "k \<notin> sid m ` set as"
  shows "semaphoreUp k m s = Some (m, s) \<and> isSemaphoreLocked k m = Some (-1) \<and> semaphoreDown k m s = None"
  using sem_unknown(1,3) [OF sem_invD(5) [OF assms(1)] assms(2), of s]
    sem_unknown(2) [OF sem_invD(5) [OF assms(1)] assms(2)] by simp

theorem unknown_semaphore_witness:
  "semaphoreUp 7 (demo_sem 1) (demo_pages 13) = Some (demo_sem 1, demo_pages 13)
    \<and> semaphoreDown 7 (demo_sem 1) (demo_pages 13) = None"
  using unknown_semaphore [OF demo_sem_inv [of 1], of 7] by simp

end
