(* ===== verification/CharMem.thy ===== *)
theory CharMem
  imports WaitObjs
begin

section \<open>Characters in memory\<close>

text \<open>
  Strings, screens and pipe buffers are arrays of bytes that are reached through pointers, so
  they live in one flat memory, a function from addresses to bytes.  \<open>cstate\<close> is the scheduler's
  state with that memory; the operations of the scheduler and of the page allocator do not touch
  it, and writing a byte does not touch them.
\<close>

type_synonym cmem = "addr \<Rightarrow> byte"

record cstate = sched +
  cmem :: cmem

abbreviation (input) chr :: "char \<Rightarrow> byte" where
  "chr c \<equiv> of_char c"

definition mem_list :: "cmem \<Rightarrow> addr \<Rightarrow> byte list \<Rightarrow> bool" where
  \<comment> \<open>the bytes \<open>xs\<close> are at \<open>p\<close>\<close>
  "mem_list m p xs \<longleftrightarrow> (\<forall>i < length xs. m (p + i) = xs ! i)"

definition cstring :: "cmem \<Rightarrow> addr \<Rightarrow> byte list \<Rightarrow> bool" where
  \<comment> \<open>the C string at \<open>p\<close> has the characters \<open>xs\<close>\<close>
  "cstring m p xs \<longleftrightarrow> mem_list m p xs \<and> 0 \<notin> set xs \<and> m (p + length xs) = 0"

lemma mem_list_Nil [simp]: "mem_list m p []"
  by (simp add: mem_list_def)

lemma mem_list_Cons: "mem_list m p (x # xs) \<longleftrightarrow> m p = x \<and> mem_list m (Suc p) xs"
  by (simp add: mem_list_def All_less_Suc2)

lemma mem_list_append: "mem_list m p (xs @ ys) \<longleftrightarrow> mem_list m p xs \<and> mem_list m (p + length xs) ys"
  by (induction xs arbitrary: p) (simp_all add: mem_list_Cons)

lemma mem_list_upd [simp]: "q < p \<or> p + length xs \<le> q \<Longrightarrow> mem_list (m(q := v)) p xs = mem_list m p xs"
  unfolding mem_list_def by (metis add.commute add_less_mono1 fun_upd_other le_add2 linorder_not_less)

lemma mem_list_cong:
  assumes "\<And>q. p \<le> q \<Longrightarrow> q < p + length xs \<Longrightarrow> m' q = m q"
  shows "mem_list m' p xs = mem_list m p xs"
  using assms by (simp add: mem_list_def)

lemma cstring_Nil: "cstring m p [] \<longleftrightarrow> m p = 0"
  by (simp add: cstring_def)

lemma cstring_Cons: "cstring m p (x # xs) \<longleftrightarrow> m p = x \<and> x \<noteq> 0 \<and> cstring m (Suc p) xs"
  unfolding cstring_def mem_list_Cons by auto

lemma cstring_append:
  "cstring m p (xs @ ys) \<longleftrightarrow> mem_list m p xs \<and> 0 \<notin> set xs \<and> cstring m (p + length xs) ys"
  by (auto simp: cstring_def mem_list_append ac_simps)

lemma cstring_unique: "cstring m p xs \<Longrightarrow> cstring m p ys \<Longrightarrow> xs = ys"
proof (induction xs arbitrary: p ys)
  case Nil
  then show ?case by (cases ys) (auto simp: cstring_Nil cstring_Cons)
next
  case (Cons x xs)
  then show ?case by (cases ys) (auto simp: cstring_Nil cstring_Cons)
qed

lemma cstring_cong:
  assumes "\<And>q. p \<le> q \<Longrightarrow> q \<le> p + length xs \<Longrightarrow> m' q = m q"
  shows "cstring m' p xs = cstring m p xs"
  using assms mem_list_cong [of p xs m' m] by (simp add: cstring_def)

subsection \<open>Loops over an array\<close>

text \<open>A counting loop that stores one byte per round; the stored byte may be read from the memory.\<close>

definition for_store :: "nat \<Rightarrow> addr \<Rightarrow> (nat \<Rightarrow> cmem \<Rightarrow> byte) \<Rightarrow> cmem \<Rightarrow> cmem" where
  "for_store n p g m = fold (\<lambda>i m. m(p + i := g i m)) [0..<n] m"

lemma for_store_0 [simp]: "for_store 0 p g m = m"
  and for_store_Suc: "for_store (Suc n) p g m = (for_store n p g m)(p + n := g n (for_store n p g m))"
  by (simp_all add: for_store_def)

lemma for_store_const:
  "for_store n p (\<lambda>i m. g i) m = (\<lambda>a. if p \<le> a \<and> a < p + n then g (a - p) else m a)"
  by (induction n) (auto simp: for_store_Suc fun_eq_iff)

lemma for_store_copy:
  assumes "p \<le> q \<or> q + n \<le> p"
  shows "for_store n p (\<lambda>i m. m (q + i)) m = (\<lambda>a. if p \<le> a \<and> a < p + n then m (q + (a - p)) else m a)"
  using assms
proof (induction n)
  case 0
  then show ?case by (auto simp: fun_eq_iff)
next
  case (Suc n)
  then have "for_store n p (\<lambda>i m. m (q + i)) m = (\<lambda>a. if p \<le> a \<and> a < p + n then m (q + (a - p)) else m a)"
    by auto
  then show ?case using Suc.prems by (auto simp: for_store_Suc fun_eq_iff)
qed

subsection \<open>The memory and the scheduler do not interfere\<close>

lemma cmem_frame [frame_simps, simp]:
  shows "owned_pages (s\<lparr>cmem := m\<rparr>) = owned_pages s" and "mm_inv (s\<lparr>cmem := m\<rparr>) = mm_inv s"
    and "same_shape s (s\<lparr>cmem := m\<rparr>)"
  by (simp_all add: owned_pages_def page_addr_def fun_eq_iff used_pages_def mm_inv_def same_shape_def
      cong: image_cong_simp)

lemma sched_inv_cmem [simp]: "sched_inv (s\<lparr>cmem := m\<rparr>) qs ths = sched_inv s qs ths"
proof -
  have tame: "sched_inv (t\<lparr>cmem := c\<rparr>) qs ths" if "sched_inv t qs ths" for t :: "'a cstate_scheme" and c
    using that by (rule sched_inv_tame) simp_all
  show ?thesis using tame [of s m] tame [of "s\<lparr>cmem := m\<rparr>" "cmem s"] by auto
qed

subsection \<open>Waking the threads of a process\<close>

definition wakes :: "threadState \<Rightarrow> addr \<Rightarrow> (addr \<Rightarrow> addr list) \<Rightarrow> 'z sched_scheme \<Rightarrow> 'z sched_scheme \<Rightarrow> bool" where
  \<comment> \<open>from the first state to the second the threads of \<open>n\<close> that wait for \<open>bt\<close> become ready and no others change\<close>
  "wakes bt n ths s t \<longleftrightarrow> same_shape s t \<and> currentProcess t = currentProcess s
     \<and> (\<forall>b. t_state (threads t b) =
          (if \<exists>x \<in> set (ths n). b = thread_at s x \<and> tst s x = bt then T_READY else t_state (threads s b)))"

lemma wakes_trans:
  assumes st: "wakes bt n ths s t" and tr: "wakes bt n ths t r" and bt: "bt \<noteq> T_READY"
  shows "wakes bt n ths s r"
proof -
  have at: "thread_at t x = thread_at s x" for x using same_shapeD(2) [of s t] st by (simp add: wakes_def)
  have "t_state (threads r b) =
      (if \<exists>x \<in> set (ths n). b = thread_at s x \<and> tst s x = bt then T_READY else t_state (threads s b))" for b
  proof -
    have no: "\<not> (\<exists>x \<in> set (ths n). b = thread_at t x \<and> tst t x = bt)"
      using st bt by (auto simp: wakes_def at)
    then have "t_state (threads r b) = t_state (threads t b)" using tr by (auto simp: wakes_def)
    then show ?thesis using st by (simp add: wakes_def)
  qed
  moreover have "same_shape s r" "currentProcess r = currentProcess s"
    using st tr same_shape_trans [of s t r] by (simp_all add: wakes_def)
  ultimately show ?thesis unfolding wakes_def by (intro conjI allI)
qed

lemma unblockAll_wakes:
  assumes inv: "sched_inv s qs ths" and n: "n \<in> set qs" "to = pid (procs s (proc_at s n))"
  shows "\<exists>t. unblockAllThreads to bt s = Some t \<and> sched_inv t qs ths \<and> wakes bt n ths s t"
proof -
  note wf = sched_invD(1) [OF inv]
  note w = wake_all [OF wf n(1), of bt]
  have run: "unblockAllThreads to bt s = Some (fold (wake1 bt (proc_at s n)) (ths n) s)"
    using unblockAllThreads_eq [OF wf n(1)] n(2) by simp
  with w show ?thesis
    using unblockAllThreads_inv [OF inv run] by (intro exI [of _ "fold (wake1 bt (proc_at s n)) (ths n) s"])
      (simp add: wakes_def)
qed

lemma wake1_cmem: "cmem (wake1 bt p l s) = cmem s"
  by (simp add: wake1_def Let_def set_tstate_def set_pstate_def)

lemma fold_wake1_cmem: "cmem (fold (wake1 bt p) ls s) = cmem s"
  by (induction ls arbitrary: s) (simp_all add: wake1_cmem)

lemma unblockAll_cmem:
  assumes "sched_inv s qs ths" and "n \<in> set qs" "to = pid (procs s (proc_at s n))"
    and "unblockAllThreads to bt s = Some t"
  shows "cmem t = cmem s"
proof -
  have "unblockAllThreads to bt s = Some (fold (wake1 bt (proc_at s n)) (ths n) s)"
    unfolding assms(3) by (rule unblockAllThreads_eq [OF sched_invD(1) [OF assms(1)] assms(2)])
  then have "Some t = Some (fold (wake1 bt (proc_at s n)) (ths n) s)" unfolding assms(4) .
  then show ?thesis by (simp only: option.inject fold_wake1_cmem)
qed

lemma wakes_cmem: "wakes bt n ths (s\<lparr>cmem := a\<rparr>) (t\<lparr>cmem := b\<rparr>) = wakes bt n ths s t"
  unfolding wakes_def same_shape_def by (simp cong: if_cong)

lemma wakes_cmem_left: "wakes bt n ths (s\<lparr>cmem := a\<rparr>) t = wakes bt n ths s t"
  using wakes_cmem [of bt n ths a s "cmem t" t] by simp

subsection \<open>The demonstration queue with a memory\<close>

definition with_cmem :: "cmem \<Rightarrow> sched \<Rightarrow> cstate" where
  "with_cmem m s = sched.extend s (cstate.fields m)"

lemma with_cmem_select [simp]:
  shows "cmem (with_cmem m s) = m" and "usedMap (with_cmem m s) = usedMap s"
    and "snodes (with_cmem m s) = snodes s" and "procs (with_cmem m s) = procs s"
    and "libs (with_cmem m s) = libs s" and "threads (with_cmem m s) = threads s"
    and "processQueue (with_cmem m s) = processQueue s" and "currentProcess (with_cmem m s) = currentProcess s"
    and "initMem (with_cmem m s) = initMem s" and "blocksAmount (with_cmem m s) = blocksAmount s"
    and "queueSize (with_cmem m s) = queueSize s" and "pidCount (with_cmem m s) = pidCount s"
  by (simp_all add: with_cmem_def sched.extend_def cstate.fields_def)

lemma with_cmem_owned [simp]: "owned_pages (with_cmem m s) = owned_pages s"
proof -
  have "page_addr (with_cmem m s) = page_addr s" "used_pages (with_cmem m s) = used_pages s"
    by (simp_all add: fun_eq_iff page_addr_def used_pages_def)
  then show ?thesis by (simp add: owned_pages_def)
qed

lemma with_cmem_inv [simp]: "sched_inv (with_cmem m s) qs ths = sched_inv s qs ths"
  by (simp add: sched_inv_def running_inv_def sched_wf_def proc_ring_def threads_ok_def thread_ring_def)

lemma with_cmem_mm [simp]: "mm_inv (with_cmem m s) = mm_inv s"
  by (simp add: mm_inv_def)

end
