(* ===== verification/KStdLib.thy ===== *)
theory KStdLib
  imports CharMem
begin

section \<open>Numbers as text (\<open>myStdLib.c\<close>)\<close>

text \<open>Division and remainder of C round towards zero: \<open>sdiv\<close> and \<open>smod\<close>.\<close>

lemma sdiv_ten_less: "n \<noteq> 0 \<Longrightarrow> \<bar>n sdiv 10\<bar> < \<bar>n :: int\<bar>"
proof -
  assume "n \<noteq> 0"
  moreover have "\<bar>n sdiv 10\<bar> = \<bar>n\<bar> div 10" by (simp add: signed_divide_int_def abs_mult sgn_if)
  ultimately show ?thesis by simp
qed

function intLengthLoop :: "int \<Rightarrow> nat \<Rightarrow> nat" where
  "intLengthLoop number n = (if number \<noteq> 0 then intLengthLoop (number sdiv 10) (n + 1) else n)"
  by auto
termination by (relation "measure (\<lambda>(n, _). nat \<bar>n\<bar>)") (simp_all add: sdiv_ten_less)

declare intLengthLoop.simps [simp del]

definition intLength :: "int \<Rightarrow> nat" where
  "intLength number = intLengthLoop number 0"

fun itoaLoop :: "nat \<Rightarrow> int \<Rightarrow> addr \<Rightarrow> cmem \<Rightarrow> cmem" where
  \<comment> \<open>\<open>while (aux) { str[aux-1] = (value % 10) + '0'; value /= 10; aux--; }\<close>\<close>
  "itoaLoop 0 v str m = m"
| "itoaLoop (Suc aux) v str m = itoaLoop aux (v sdiv 10) str (m(str + aux := word_of_int (v smod 10 + 48)))"

definition itoa :: "int \<Rightarrow> addr \<Rightarrow> cmem \<Rightarrow> nat \<times> cmem" where
  "itoa v str m =
     (let n = intLength v;
          m = (if n = 0 then m(str := 48, str + 1 := 0) else m);
          m = m(str + n := 0)
      in (n, itoaLoop n v str m))"

subsection \<open>The digits the loops produce\<close>

text \<open>
  Dividing by ten until nothing is left gives the digits of a number without leading zeros, and
  none of zero.  The decimal notation \<open>decimal_digits\<close>, which does not refer to the code, has one for zero.
\<close>

fun decimal_digits :: "nat \<Rightarrow> nat list" where
  "decimal_digits n = (if n < 10 then [n] else decimal_digits (n div 10) @ [n mod 10])"

declare decimal_digits.simps [simp del]

fun digits :: "nat \<Rightarrow> nat list" where
  "digits n = (if n = 0 then [] else digits (n div 10) @ [n mod 10])"

declare digits.simps [simp del]

definition digit :: "nat \<Rightarrow> byte" where
  "digit d = of_nat (d + 48)"

lemma digits_0 [simp]: "digits 0 = []"
  by (simp add: digits.simps)

lemma digits_step: "n \<noteq> 0 \<Longrightarrow> digits n = digits (n div 10) @ [n mod 10]"
  by (subst digits.simps) simp

lemma digits_decimal: "digits n = (if n = 0 then [] else decimal_digits n)"
proof (induction n rule: digits.induct)
  case (1 n)
  show ?case
  proof (cases "n < 10")
    case True
    then show ?thesis using digits_step [of n] by (cases "n = 0") (simp_all add: decimal_digits.simps [of n])
  next
    case False
    then have "n div 10 \<noteq> 0" by simp
    then show ?thesis using 1 False by (simp add: digits_step decimal_digits.simps [of n])
  qed
qed

lemma length_digits: "n < 10 ^ k \<Longrightarrow> length (digits n) \<le> k"
proof (induction k arbitrary: n)
  case (Suc k)
  then have "n div 10 < 10 ^ k" by (simp add: div_less_iff_less_mult mult.commute)
  then show ?case using Suc.IH [of "n div 10"] by (cases "n = 0") (simp_all add: digits_step)
qed simp

lemma digits_one: "0 < n \<Longrightarrow> n < 10 \<Longrightarrow> digits n = [n]"
  by (simp add: digits_step)

lemma digits_below: "d \<in> set (digits n) \<Longrightarrow> d < 10"
proof (induction n rule: digits.induct)
  case (1 n)
  then show ?case by (cases "n = 0") (auto simp: digits_step [of n])
qed

lemma sdiv_nat: "int n sdiv 10 = int (n div 10)" and smod_nat: "int n smod 10 = int (n mod 10)"
  by (auto simp: signed_divide_int_def signed_modulo_int_def zdiv_int zmod_int sgn_if)

lemma digits_Nil_iff [simp]: "digits n = [] \<longleftrightarrow> n = 0"
  by (cases "n = 0") (simp_all add: digits_step)

lemma intLengthLoop_digits: "intLengthLoop (int n) k = k + length (digits n)"
proof (induction n arbitrary: k rule: digits.induct)
  case (1 n)
  then show ?case
    by (subst intLengthLoop.simps) (cases "n = 0", simp_all add: digits_step [of n] sdiv_nat)
qed

lemma intLength_digits: "intLength (int n) = length (digits n)"
  by (simp add: intLength_def intLengthLoop_digits)

lemma intLength_0 [simp]: "intLength 0 = 0"
  using intLength_digits [of 0] by simp

lemma itoaLoop_digits:
  "itoaLoop (length (digits n)) (int n) str m = (\<lambda>q. if str \<le> q \<and> q < str + length (digits n)
     then digit (digits n ! (q - str)) else m q)"
proof (induction n arbitrary: m rule: digits.induct)
  case (1 n)
  show ?case
  proof (cases "n = 0")
    case False
    then have "itoaLoop (length (digits n)) (int n) str m =
        itoaLoop (length (digits (n div 10))) (int (n div 10)) str
          (m(str + length (digits (n div 10)) := digit (n mod 10)))"
      by (simp add: digits_step [of n] sdiv_nat smod_nat digit_def) 
    then show ?thesis
      using 1 [OF False] False by (auto simp: fun_eq_iff digits_step [of n] nth_append)
  qed (auto simp: fun_eq_iff)
qed

lemma mem_list_itoaLoop:
  "mem_list (itoaLoop (length (digits n)) (int n) str m) str (map digit (digits n))"
  by (simp add: itoaLoop_digits mem_list_def)

lemma digit_inj: "d < 10 \<Longrightarrow> digit d \<noteq> 0 \<and> uint (digit d) = int d + 48"
proof -
  assume "d < 10"
  then have u: "uint (digit d) = int d + 48"
    unfolding digit_def by (simp add: unsigned_of_nat take_bit_nat_eq_self flip: of_nat_add)
  then have "digit d \<noteq> 0" by (metis add_nonneg_pos of_nat_0_le_iff order_less_irrefl uint_0_eq zero_less_numeral)
  with u show ?thesis by simp
qed

text \<open>What \<open>itoa\<close> writes: the digits and a null character.  Of zero it is nothing but the null character,
  because \<open>str[length] = 0\<close> overwrites the \<open>'0'\<close> that the branch before has stored.\<close>

lemma itoa_string: "cstring (snd (itoa (int n) str m)) str (map digit (digits n))"
  using mem_list_itoaLoop [of n str] digit_inj digits_below
  by (auto simp: itoa_def Let_def intLength_digits cstring_def itoaLoop_digits)

lemma itoa_frame:
  assumes "q < str \<or> str + length (digits n) < q" and "n \<noteq> 0 \<or> q \<noteq> str + 1"
  shows "snd (itoa (int n) str m) q = m q"
  using assms by (cases "n = 0") (auto simp: itoa_def Let_def intLength_digits itoaLoop_digits)

lemma itoa_length: "fst (itoa (int n) str m) = length (digits n)"
  by (simp add: itoa_def Let_def intLength_digits)

text \<open>Reading the digits back, as the loop of \<open>getReceiverPid\<close> does.\<close>

lemma foldl_mono_digit: "n \<le> foldl (\<lambda>n d. 10 * n + d) n (ds :: nat list)"
proof (induction ds arbitrary: n)
  case (Cons d ds)
  show ?case using Cons.IH [of "10 * n + d"] by simp
qed simp

definition push_digit :: "nat \<Rightarrow> nat \<Rightarrow> nat" where
  "push_digit n d = 10 * n + d"

definition number_of :: "nat list \<Rightarrow> nat" where
  "number_of ds = foldl push_digit 0 ds"

lemma number_of_digits: "number_of (digits n) = n"
proof (induction n rule: digits.induct)
  case (1 n)
  then show ?case by (cases "n = 0") (simp_all add: number_of_def push_digit_def digits_step [of n])
qed

end
