(* ===== verification/RingBuffer.thy ===== *)
theory RingBuffer
  imports KPrelude
begin

section \<open>Rings in which zero marks a free place\<close>

text \<open>
  The keyboard buffer and the pipes are arrays with a position to read and a position to write;
  a place is free when it holds 0, so no count is kept.  \<open>ring_holds\<close> relates such an array to
  the queue it stands for; the locale is the interface of the two operations, and says that they
  are the operations of a bounded queue.
\<close>

definition bump :: "nat \<Rightarrow> nat \<Rightarrow> nat" where
  \<comment> \<open>the next position, back to the first one at the end\<close>
  "bump n i = (if n \<le> i + 1 then 0 else i + 1)"

definition ring_holds :: "nat \<Rightarrow> (nat \<Rightarrow> 'a :: zero) \<Rightarrow> nat \<Rightarrow> nat \<Rightarrow> 'a list \<Rightarrow> bool" where
  "ring_holds n f r w q \<longleftrightarrow> r < n \<and> length q \<le> n \<and> w = (r + length q) mod n \<and> 0 \<notin> set q
     \<and> (\<forall>i < n. f ((r + i) mod n) = (if i < length q then q ! i else 0))"

lemma bump_mod: "i < n \<Longrightarrow> bump n i = (i + 1) mod n"
  by (cases "i + 1 = n") (auto simp: bump_def)

lemma ring_holds_bounds:
  assumes "ring_holds n f r w q"
  shows "r < n" and "w < n" and "length q \<le> n" and "0 \<notin> set q"
proof -
  show r: "r < n" "length q \<le> n" "0 \<notin> set q" using assms by (simp_all add: ring_holds_def)
  then have "0 < n" by simp
  then show "w < n" using assms by (simp add: ring_holds_def)
qed

lemma ring_mod: "r < n \<Longrightarrow> i \<le> n \<Longrightarrow> (r + i) mod n = (if r + i < n then r + i else r + i - n :: nat)"
  by (auto simp: mod_if)

lemma ring_mod_inj: "r < n \<Longrightarrow> i < n \<Longrightarrow> j < n \<Longrightarrow> (r + i) mod n = (r + j) mod (n :: nat) \<Longrightarrow> i = j"
  by (auto simp: ring_mod split: if_splits)

lemma ring_holds_empty:
  assumes "r < n" and "\<And>i. i < n \<Longrightarrow> f i = 0"
  shows "ring_holds n f r r []"
  using assms by (simp add: ring_holds_def)

lemma ring_holds_slot:
  assumes "ring_holds n f r w q" and "i < n"
  shows "f ((r + i) mod n) = (if i < length q then q ! i else 0)"
  using assms by (simp add: ring_holds_def)

lemma ring_write_free: "ring_holds n f r w q \<Longrightarrow> f w = 0 \<longleftrightarrow> length q < n"
proof -
  assume h: "ring_holds n f r w q"
  note b = ring_holds_bounds [OF h]
  show ?thesis
  proof (cases "length q < n")
    case True
    then show ?thesis using h ring_holds_slot [OF h True] by (simp add: ring_holds_def)
  next
    case False
    then have l: "length q = n" using b(3) by simp
    then have "w = r" using h b(1) by (simp add: ring_holds_def)
    then have "f w = q ! 0" using ring_holds_slot [OF h, of 0] b(1) l by simp
    moreover have "q ! 0 \<noteq> 0" using b(1,4) l by (metis less_nat_zero_code nth_mem not_gr_zero)
    ultimately show ?thesis using l by simp
  qed
qed

lemma ring_read_empty: "ring_holds n f r w q \<Longrightarrow> f r = 0 \<longleftrightarrow> q = []"
proof -
  assume h: "ring_holds n f r w q"
  note b = ring_holds_bounds [OF h]
  have "f r = (if 0 < length q then q ! 0 else 0)" using ring_holds_slot [OF h, of 0] b(1) by simp
  moreover have "q \<noteq> [] \<Longrightarrow> q ! 0 \<noteq> 0" using b(4) by (metis length_greater_0_conv nth_mem)
  ultimately show ?thesis by auto
qed

lemma ring_holds_put:
  assumes h: "ring_holds n f r w q" and l: "length q < n" and x: "x \<noteq> 0"
  shows "ring_holds n (f(w := x)) r (bump n w) (q @ [x])"
proof -
  note b = ring_holds_bounds [OF h]
  have w: "w = (r + length q) mod n" using h by (simp add: ring_holds_def)
  have "bump n w = (r + length (q @ [x])) mod n"
    using b(2) by (simp add: bump_mod w mod_Suc_eq)
  moreover have "(f(w := x)) ((r + i) mod n) = (if i < length (q @ [x]) then (q @ [x]) ! i else 0)" if i: "i < n" for i
  proof (cases "i = length q")
    case True
    then show ?thesis by (simp add: w)
  next
    case False
    then have "(r + i) mod n \<noteq> w" using ring_mod_inj [OF b(1) i l] w by auto
    then show ?thesis using ring_holds_slot [OF h i] False by (simp add: nth_append)
  qed
  ultimately show ?thesis using b x l by (simp add: ring_holds_def)
qed

lemma ring_holds_get:
  assumes h: "ring_holds n f r w (x # q)"
  shows "f r = x" and "ring_holds n (f(r := 0)) (bump n r) w q"
proof -
  note b = ring_holds_bounds [OF h]
  have w: "w = (r + Suc (length q)) mod n" using h by (simp add: ring_holds_def)
  show "f r = x" using ring_holds_slot [OF h, of 0] b(1) by simp
  have r': "bump n r = (r + 1) mod n" using b(1) by (rule bump_mod)
  have shift: "(Suc r mod n + i) mod n = Suc (r + i) mod n" for i
    by (metis add_Suc mod_add_left_eq)
  have "(f(r := 0)) ((r + Suc i) mod n) = (if i < length q then q ! i else 0)" if i: "i < n" for i
  proof (cases "Suc i = n")
    case True
    then have "(r + Suc i) mod n = r" using b(1) by simp
    moreover have "\<not> i < length q" using b(3) True by simp
    ultimately show ?thesis by simp
  next
    case False
    then have s: "Suc i < n" using i by simp
    then have "(r + Suc i) mod n \<noteq> r" using ring_mod_inj [OF b(1) s, of 0] b(1) by auto
    then show ?thesis using ring_holds_slot [OF h s] by simp
  qed
  then show "ring_holds n (f(r := 0)) (bump n r) w q"
    using b(1,3,4) w unfolding ring_holds_def r' by (simp add: shift)
qed

subsection \<open>The interface\<close>

text \<open>
  \<open>put\<close> writes a character unless the place is taken, \<open>get\<close> takes one unless there is none.
\<close>

locale zero_ring =
  fixes size_of :: nat
    and ok :: "'s \<Rightarrow> bool"
    and slot :: "'s \<Rightarrow> nat \<Rightarrow> 'a :: zero"
    and rd :: "'s \<Rightarrow> nat"
    and wr :: "'s \<Rightarrow> nat"
    and put :: "'a \<Rightarrow> 's \<Rightarrow> 's"
    and get :: "'s \<Rightarrow> 'a \<times> 's"
  assumes put_free: "ok s \<Longrightarrow> slot s (wr s) = 0 \<Longrightarrow> x \<noteq> 0 \<Longrightarrow> wr s < size_of \<Longrightarrow>
      slot (put x s) = (slot s)(wr s := x) \<and> wr (put x s) = bump size_of (wr s) \<and> rd (put x s) = rd s
      \<and> ok (put x s)"
    and put_taken: "ok s \<Longrightarrow> slot s (wr s) \<noteq> 0 \<Longrightarrow> put x s = s"
    and get_some: "ok s \<Longrightarrow> slot s (rd s) \<noteq> 0 \<Longrightarrow> rd s < size_of \<Longrightarrow> fst (get s) = slot s (rd s)
      \<and> slot (snd (get s)) = (slot s)(rd s := 0) \<and> rd (snd (get s)) = bump size_of (rd s) \<and> wr (snd (get s)) = wr s
      \<and> ok (snd (get s))"
    and get_none: "ok s \<Longrightarrow> slot s (rd s) = 0 \<Longrightarrow> get s = (0, s)"
begin

definition holds :: "'s \<Rightarrow> 'a list \<Rightarrow> bool" where
  "holds s q \<longleftrightarrow> ok s \<and> ring_holds size_of (slot s) (rd s) (wr s) q"

lemma put_holds:
  assumes "holds s q" and "x \<noteq> 0"
  shows "holds (put x s) (if length q < size_of then q @ [x] else q)"
proof (cases "length q < size_of")
  case True
  then have "slot s (wr s) = 0"
    using assms(1) ring_write_free [of size_of "slot s" "rd s" "wr s" q] by (simp add: holds_def)
  then show ?thesis
    using put_free [of s x] assms True ring_holds_put [of size_of "slot s" "rd s" "wr s" q x]
      ring_holds_bounds(2) [of size_of "slot s" "rd s" "wr s" q]
    by (simp add: holds_def)
next
  case False
  then have "slot s (wr s) \<noteq> 0"
    using assms(1) ring_write_free [of size_of "slot s" "rd s" "wr s" q] by (simp add: holds_def)
  then show ?thesis using put_taken [of s x] assms(1) False by (simp add: holds_def)
qed

lemma get_holds:
  assumes "holds s q"
  shows "fst (get s) = (case q of [] \<Rightarrow> 0 | x # q' \<Rightarrow> x)" and "holds (snd (get s)) (tl q)"
proof -
  have h: "ring_holds size_of (slot s) (rd s) (wr s) q" and o: "ok s" using assms by (simp_all add: holds_def)
  note b = ring_holds_bounds [OF h]
  have "fst (get s) = (case q of [] \<Rightarrow> 0 | x # q' \<Rightarrow> x) \<and> holds (snd (get s)) (tl q)"
  proof (cases q)
    case Nil
    then have "slot s (rd s) = 0" using ring_read_empty [OF h] by simp
    then show ?thesis using get_none [OF o] Nil assms by simp
  next
    case (Cons x q')
    then have "slot s (rd s) \<noteq> 0" using ring_read_empty [OF h] by simp
    from get_some [OF o this b(1)] show ?thesis
      using ring_holds_get [of size_of "slot s" "rd s" "wr s" x q'] h Cons by (simp add: holds_def)
  qed
  then show "fst (get s) = (case q of [] \<Rightarrow> 0 | x # q' \<Rightarrow> x)" and "holds (snd (get s)) (tl q)" by simp_all
qed

end

end
