(* ===== verification/PipeFs.thy ===== *)
theory PipeFs
  imports KStdLib RingBuffer
begin

section \<open>Pipes (\<open>pipefs.c\<close>)\<close>

text \<open>
  A pipe is a ring of 4096 characters in which a null character marks a free place.  Its name is
  the text \<open>from-to\<close> of the two process identifiers; the receiver is read back out of it.
\<close>

subsection \<open>Definitions\<close>

abbreviation (input) NAME_SIZE :: nat where "NAME_SIZE \<equiv> 50"
abbreviation (input) PIPE_BUF_SIZE :: nat where "PIPE_BUF_SIZE \<equiv> 4096"
abbreviation (input) SIZEOF_pipeNode :: "64 word" where "SIZEOF_pipeNode \<equiv> 40"

record pipeNode =
  pp_name :: addr
  pp_buffer :: addr
  readPointer :: addr
  writePointer :: addr
  pp_next :: addr

record pipes =
  pipeList :: addr
  pipeNodes :: "addr \<Rightarrow> pipeNode"

definition upd_pipe :: "addr \<Rightarrow> (pipeNode \<Rightarrow> pipeNode) \<Rightarrow> pipes \<Rightarrow> pipes" where
  "upd_pipe a f ps = ps\<lparr>pipeNodes := (pipeNodes ps)(a := f (pipeNodes ps a))\<rparr>"

definition createName :: "int \<Rightarrow> int \<Rightarrow> addr \<Rightarrow> cmem \<Rightarrow> cmem" where
  "createName fromPid toPid name m =
     (let (i, m) = itoa fromPid name m;
          m = m(name + i := chr CHR ''-'');
          i = i + 1
      in snd (itoa toPid (name + i) m))"

text \<open>\<open>while(name[i++] != '-');\<close>\<close>

partial_function (option) skipSender :: "cmem \<Rightarrow> addr \<Rightarrow> nat \<Rightarrow> nat option" where
  "skipSender m name i = (if m (name + i) \<noteq> chr CHR ''-'' then skipSender m name (i + 1) else Some (i + 1))"

partial_function (option) readPid :: "cmem \<Rightarrow> addr \<Rightarrow> nat \<Rightarrow> int \<Rightarrow> int option" where
  "readPid m name i to =
     (if m (name + i) \<noteq> 0
      then do {
        to \<leftarrow> c_int (to * 10);
        to \<leftarrow> c_int (to + (sint (m (name + i)) - 48));
        readPid m name (i + 1) to }
      else Some to)"

definition getReceiverPid :: "addr \<Rightarrow> cmem \<Rightarrow> int option" where
  "getReceiverPid name m = do { i \<leftarrow> skipSender m name 0; readPid m name i 0 }"

partial_function (option) equalName :: "cmem \<Rightarrow> addr \<Rightarrow> addr \<Rightarrow> bool option" where
  "equalName m str1 str2 =
     (if m str1 \<noteq> 0 \<and> m str1 = m str2 then equalName m (str1 + 1) (str2 + 1)
      else Some (m str1 = m str2))"

partial_function (option) findPipe :: "cmem \<Rightarrow> pipes \<Rightarrow> addr \<Rightarrow> addr \<Rightarrow> addr option" where
  "findPipe m ps name current =
     (if current \<noteq> NULL then do {
        same \<leftarrow> equalName m name (pp_name (pipeNodes ps current));
        if same then Some current else findPipe m ps name (pp_next (pipeNodes ps current)) }
      else Some NULL)"

definition getPipe :: "addr \<Rightarrow> cmem \<Rightarrow> pipes \<Rightarrow> addr option" where
  "getPipe name m ps = findPipe m ps name (pipeList ps)"

fun clearBuffer :: "nat \<Rightarrow> addr \<Rightarrow> cmem \<Rightarrow> cmem" where
  "clearBuffer 0 p m = m"
| "clearBuffer (Suc n) p m = clearBuffer n (p + 1) (m(p := 0))"

definition createPipe :: "int \<Rightarrow> int \<Rightarrow> pipes \<Rightarrow> 'z cstate_scheme \<Rightarrow> (addr \<times> pipes \<times> 'z cstate_scheme) option" where
  "createPipe fromPid toPid ps s = do {
     (pipe, s) \<leftarrow> allocate SIZEOF_pipeNode s;
     chk pipe;
     (name, s) \<leftarrow> allocate (of_nat NAME_SIZE) s;
     chk name;
     let ps = upd_pipe pipe (\<lambda>p. p\<lparr>pp_name := name\<rparr>) ps;
     let s = s\<lparr>cmem := createName fromPid toPid name (cmem s)\<rparr>;
     (buffer, s) \<leftarrow> allocate (of_nat PIPE_BUF_SIZE) s;
     chk buffer;
     let ps = upd_pipe pipe (\<lambda>p. p\<lparr>pp_buffer := buffer\<rparr>) ps;
     let s = s\<lparr>cmem := clearBuffer PIPE_BUF_SIZE buffer (cmem s)\<rparr>;
     let ps = upd_pipe pipe (\<lambda>p. p\<lparr>readPointer := buffer\<rparr>) ps;
     let ps = upd_pipe pipe (\<lambda>p. p\<lparr>writePointer := buffer\<rparr>) ps;
     Some (pipe, ps, s) }"

partial_function (option) addPipeToList :: "addr \<Rightarrow> addr \<Rightarrow> pipes \<Rightarrow> (addr \<times> pipes) option" where
  "addPipeToList pipe list ps =
     (if list = NULL then Some (pipe, ps)
      else do {
        (r, ps) \<leftarrow> addPipeToList pipe (pp_next (pipeNodes ps list)) ps;
        Some (list, upd_pipe list (\<lambda>p. p\<lparr>pp_next := r\<rparr>) ps) })"

definition do_pipe :: "int \<Rightarrow> int \<Rightarrow> pipes \<Rightarrow> 'z cstate_scheme \<Rightarrow> (addr \<times> pipes \<times> 'z cstate_scheme) option" where
  "do_pipe fromPid toPid ps s = do {
     (pipe, ps, s) \<leftarrow> createPipe fromPid toPid ps s;
     (list, ps) \<leftarrow> addPipeToList pipe (pipeList ps) ps;
     let ps = ps\<lparr>pipeList := list\<rparr>;
     Some (pp_name (pipeNodes ps pipe), ps, s) }"

definition pointerPosition :: "addr \<Rightarrow> addr \<Rightarrow> addr" where
  "pointerPosition currentPointer buffer = (if currentPointer = buffer + PIPE_BUF_SIZE then buffer else currentPointer)"

partial_function (option) writeLoop :: "int \<Rightarrow> addr \<Rightarrow> addr \<Rightarrow> pipes \<Rightarrow> 'z cstate_scheme \<Rightarrow>
    (pipes \<times> 'z cstate_scheme) option" where
  "writeLoop to pipe buff ps s =
     (if cmem s buff = 0 then Some (ps, s)
      else if cmem s (writePointer (pipeNodes ps pipe)) \<noteq> 0 then Some (ps, s)
      else do {
        let s = s\<lparr>cmem := (cmem s)(writePointer (pipeNodes ps pipe) := cmem s buff)\<rparr>;
        let ps = upd_pipe pipe (\<lambda>p. p\<lparr>writePointer := writePointer p + 1\<rparr>) ps;
        s \<leftarrow> unblockAllThreads to T_BLOCKED_PIPE s;
        let ps = upd_pipe pipe (\<lambda>p. p\<lparr>writePointer := pointerPosition (writePointer p) (pp_buffer p)\<rparr>) ps;
        writeLoop to pipe (buff + 1) ps s })"

definition writeToPipe :: "addr \<Rightarrow> addr \<Rightarrow> pipes \<Rightarrow> 'z cstate_scheme \<Rightarrow> (pipes \<times> 'z cstate_scheme) option" where
  "writeToPipe name buff ps s = do {
     pipe \<leftarrow> getPipe name (cmem s) ps;
     if pipe = NULL \<or> buff = NULL then Some (ps, s)
     else do {
       to \<leftarrow> getReceiverPid name (cmem s);
       writeLoop to pipe buff ps s } }"

partial_function (option) readLoop :: "addr \<Rightarrow> addr \<Rightarrow> pipes \<Rightarrow> cmem \<Rightarrow> (pipes \<times> cmem) option" where
  "readLoop pipe buff ps m =
     (let m = m(buff := m (readPointer (pipeNodes ps pipe)));
          m = m(readPointer (pipeNodes ps pipe) := 0);
          ps = upd_pipe pipe (\<lambda>p. p\<lparr>readPointer := readPointer p + 1\<rparr>) ps;
          ps = upd_pipe pipe (\<lambda>p. p\<lparr>readPointer := pointerPosition (readPointer p) (pp_buffer p)\<rparr>) ps
      in if readPointer (pipeNodes ps pipe) \<noteq> writePointer (pipeNodes ps pipe)
         then readLoop pipe (buff + 1) ps m
         else Some (ps, m))"

definition readFromPipe :: "addr \<Rightarrow> addr \<Rightarrow> pipes \<Rightarrow> 'z cstate_scheme \<Rightarrow> (pipes \<times> 'z cstate_scheme) option" where
  "readFromPipe name buff ps s = do {
     pipe \<leftarrow> getPipe name (cmem s) ps;
     if pipe = NULL \<or> buff = NULL then Some (ps, s)
     else if cmem s (readPointer (pipeNodes ps pipe)) = 0 then do {
       to \<leftarrow> getReceiverPid name (cmem s);
       currentPthread \<leftarrow> getCurrentPthread s;
       s \<leftarrow> blockThread to currentPthread T_BLOCKED_PIPE s;
       Some (ps, s) }
     else do {
       (ps, m) \<leftarrow> readLoop pipe buff ps (cmem s);
       Some (ps, s\<lparr>cmem := m(readPointer (pipeNodes ps pipe) := 0)\<rparr>) } }"

subsection \<open>The name of a pipe names its receiver\<close>

lemma skipSender_mem:
  assumes "mem_list m (name + i) xs" and "chr CHR ''-'' \<notin> set xs" and "m (name + i + length xs) = chr CHR ''-''"
  shows "skipSender m name i = Some (i + length xs + 1)"
  using assms
proof (induction xs arbitrary: i)
  case Nil
  then show ?case by (subst skipSender.simps) simp
next
  case (Cons x xs)
  then have "skipSender m name (i + 1) = Some (i + 1 + length xs + 1)"
    by (intro Cons.IH) (simp_all add: mem_list_Cons)
  with Cons.prems show ?case by (subst skipSender.simps) (simp add: mem_list_Cons)
qed

lemma sint_digit: "d < 10 \<Longrightarrow> sint (digit d) = int d + 48"
proof -
  assume "d < 10"
  then have "d \<in> set [0..<10]" by simp
  moreover have "\<forall>d \<in> set [0..<10]. sint (digit d) = int d + 48" by (simp add: digit_def upt_rec)
  ultimately show ?thesis by blast
qed

lemma readPid_digits:
  assumes "cstring m (name + i) (map digit ds)" and "\<And>d. d \<in> set ds \<Longrightarrow> d < 10"
    and "foldl push_digit n ds < 2 ^ 31"
  shows "readPid m name i (int n) = Some (int (foldl push_digit n ds))"
  using assms
proof (induction ds arbitrary: i n)
  case Nil
  then show ?case by (subst readPid.simps) (simp add: cstring_Nil)
next
  case (Cons d ds)
  then have d: "m (name + i) = digit d" "digit d \<noteq> 0" "d < 10" by (auto simp: cstring_Cons)
  have "readPid m name (i + 1) (int (push_digit n d)) = Some (int (foldl push_digit (push_digit n d) ds))"
    using Cons.prems by (intro Cons.IH) (simp_all add: cstring_Cons)
  moreover have lt: "push_digit n d < 2147483648"
    using Cons.prems(3) foldl_mono_digit [of "push_digit n d" ds] by (simp add: push_digit_def [abs_def])
  then have "c_int (int n * 10) = Some (int n * 10)"
    using c_int_nat [of "n * 10"] by (simp add: push_digit_def)
  moreover have "c_int (int (push_digit n d)) = Some (int (push_digit n d))" using lt by (rule c_int_nat)
  moreover have "int n * 10 + (sint (m (name + i)) - 48) = int (push_digit n d)"
    by (simp add: d(1) sint_digit [OF d(3)] push_digit_def)
  ultimately show ?case using d(1,2) by (subst readPid.simps) simp
qed

lemma dash_digit: "d < 10 \<Longrightarrow> digit d \<noteq> chr CHR ''-''"
proof -
  assume "d < 10"
  then have "d \<in> set [0..<10]" by simp
  moreover have "\<forall>d \<in> set [0..<10]. digit d \<noteq> chr CHR ''-''" by (simp add: digit_def upt_rec)
  ultimately show ?thesis by blast
qed

definition pipe_name :: "nat \<Rightarrow> nat \<Rightarrow> byte list" where
  \<comment> \<open>what the code makes of two identifiers: \<open>from-to\<close>, where the digit of an identifier 0 is missing\<close>
  "pipe_name f t = map digit (digits f) @ chr CHR ''-'' # map digit (digits t)"

lemma createName_string: "cstring (createName (int f) (int t) name m) name (pipe_name f t)"
proof -
  let ?n = "length (digits f)"
  define m1 where "m1 = (snd (itoa (int f) name m))(name + ?n := chr CHR ''-'')"
  define m2 where "m2 = snd (itoa (int t) (name + ?n + 1) m1)"
  have e: "createName (int f) (int t) name m = m2"
    by (simp add: createName_def m2_def m1_def itoa_length split: prod.splits) (metis fst_conv itoa_length snd_conv)
  have old: "m2 q = m1 q" if "q < name + ?n + 1" for q
    unfolding m2_def using that by (intro itoa_frame) auto
  have "mem_list m1 name (map digit (digits f))"
    using itoa_string [of f name m] by (simp add: m1_def cstring_def)
  then have "mem_list m2 name (map digit (digits f))"
    using mem_list_cong [of name "map digit (digits f)" m2 m1] old by simp
  moreover have "m2 (name + ?n) = chr CHR ''-''" using old [of "name + ?n"] by (simp add: m1_def)
  moreover have "cstring m2 (name + ?n + 1) (map digit (digits t))"
    unfolding m2_def by (rule itoa_string)
  moreover have "0 \<notin> set (map digit (digits f))" using digit_inj digits_below by fastforce
  ultimately show ?thesis unfolding e pipe_name_def by (simp add: cstring_append cstring_Cons)
qed

lemma createName_frame:
  assumes "a < name \<or> name + length (digits f) + length (digits t) + 2 < a"
  shows "createName (int f) (int t) name m a = m a"
proof -
  let ?n = "length (digits f)"
  have "createName (int f) (int t) name m
      = snd (itoa (int t) (name + ?n + 1) ((snd (itoa (int f) name m))(name + ?n := chr CHR ''-'')))"
    by (simp add: createName_def itoa_length split: prod.splits) (metis fst_conv itoa_length snd_conv)
  moreover have "snd (itoa (int t) (name + ?n + 1) m2) a = m2 a" for m2 using assms by (intro itoa_frame) auto
  moreover have "snd (itoa (int f) name m) a = m a" using assms by (intro itoa_frame) auto
  ultimately show ?thesis using assms by auto
qed

lemma getReceiverPid_name:
  assumes "cstring m name (pipe_name f t)" and "t < 2 ^ 31"
  shows "getReceiverPid name m = Some (int t)"
proof -
  have p: "mem_list m name (map digit (digits f))" "m (name + length (digits f)) = chr CHR ''-''"
    "cstring m (Suc (name + length (digits f))) (map digit (digits t))"
    using assms(1) by (simp_all add: pipe_name_def cstring_append cstring_Cons)
  have "chr CHR ''-'' \<notin> set (map digit (digits f))" using dash_digit digits_below by fastforce
  then have "skipSender m name 0 = Some (length (digits f) + 1)"
    using skipSender_mem [of m name 0 "map digit (digits f)"] p by simp
  moreover have "readPid m name (length (digits f) + 1) (int 0) = Some (int (number_of (digits t)))"
    unfolding number_of_def using p(3) digits_below assms(2) number_of_digits [of t, unfolded number_of_def]
    by (intro readPid_digits) simp_all
  ultimately show ?thesis by (simp add: getReceiverPid_def number_of_digits)
qed

subsection \<open>The buffer is a bounded queue of characters\<close>

text \<open>One iteration of each loop, on the pair of the pipes and the memory.\<close>

definition putByte :: "addr \<Rightarrow> byte \<Rightarrow> pipes \<times> cmem \<Rightarrow> pipes \<times> cmem" where
  "putByte pipe x r =
     (if snd r (writePointer (pipeNodes (fst r) pipe)) \<noteq> 0 then r
      else (upd_pipe pipe (\<lambda>p. p\<lparr>writePointer := pointerPosition (writePointer p + 1) (pp_buffer p)\<rparr>) (fst r),
        (snd r)(writePointer (pipeNodes (fst r) pipe) := x)))"

definition getByte :: "addr \<Rightarrow> pipes \<times> cmem \<Rightarrow> byte \<times> pipes \<times> cmem" where
  "getByte pipe r =
     (if snd r (readPointer (pipeNodes (fst r) pipe)) = 0 then (0, r)
      else (snd r (readPointer (pipeNodes (fst r) pipe)),
        upd_pipe pipe (\<lambda>p. p\<lparr>readPointer := pointerPosition (readPointer p + 1) (pp_buffer p)\<rparr>) (fst r),
        (snd r)(readPointer (pipeNodes (fst r) pipe) := 0)))"

definition pipe_ok :: "addr \<Rightarrow> pipes \<times> cmem \<Rightarrow> bool" where
  "pipe_ok pipe r \<longleftrightarrow> pp_buffer (pipeNodes (fst r) pipe) \<le> readPointer (pipeNodes (fst r) pipe)
     \<and> pp_buffer (pipeNodes (fst r) pipe) \<le> writePointer (pipeNodes (fst r) pipe)"

definition pipe_slot :: "addr \<Rightarrow> pipes \<times> cmem \<Rightarrow> nat \<Rightarrow> byte" where
  "pipe_slot pipe r i = snd r (pp_buffer (pipeNodes (fst r) pipe) + i)"

definition pipe_rd :: "addr \<Rightarrow> pipes \<times> cmem \<Rightarrow> nat" where
  "pipe_rd pipe r = readPointer (pipeNodes (fst r) pipe) - pp_buffer (pipeNodes (fst r) pipe)"

definition pipe_wr :: "addr \<Rightarrow> pipes \<times> cmem \<Rightarrow> nat" where
  "pipe_wr pipe r = writePointer (pipeNodes (fst r) pipe) - pp_buffer (pipeNodes (fst r) pipe)"

lemmas pipe_defs = pipe_ok_def pipe_slot_def pipe_rd_def pipe_wr_def putByte_def getByte_def upd_pipe_def

interpretation pipe: zero_ring PIPE_BUF_SIZE "pipe_ok p" "pipe_slot p" "pipe_rd p" "pipe_wr p" "putByte p" "getByte p" for p
  by unfold_locales
    (auto simp: pipe_defs pointerPosition_def bump_def fun_eq_iff)

lemma pipe_holdsD:
  assumes "pipe.holds p (ps, m) q"
  shows "pipe_ok p (ps, m)"
    and "ring_holds PIPE_BUF_SIZE (pipe_slot p (ps, m)) (pipe_rd p (ps, m)) (pipe_wr p (ps, m)) q"
    and "pp_buffer (pipeNodes ps p) \<le> writePointer (pipeNodes ps p)"
    and "writePointer (pipeNodes ps p) < pp_buffer (pipeNodes ps p) + PIPE_BUF_SIZE"
    and "pp_buffer (pipeNodes ps p) \<le> readPointer (pipeNodes ps p)"
    and "readPointer (pipeNodes ps p) < pp_buffer (pipeNodes ps p) + PIPE_BUF_SIZE"
proof -
  show ok: "pipe_ok p (ps, m)"
    and rh: "ring_holds PIPE_BUF_SIZE (pipe_slot p (ps, m)) (pipe_rd p (ps, m)) (pipe_wr p (ps, m)) q"
    using assms by (simp_all add: pipe.holds_def)
  from ok show "pp_buffer (pipeNodes ps p) \<le> writePointer (pipeNodes ps p)"
    and "pp_buffer (pipeNodes ps p) \<le> readPointer (pipeNodes ps p)" by (simp_all add: pipe_ok_def Let_def)
  with ring_holds_bounds(1,2) [OF rh] show "writePointer (pipeNodes ps p) < pp_buffer (pipeNodes ps p) + PIPE_BUF_SIZE"
    and "readPointer (pipeNodes ps p) < pp_buffer (pipeNodes ps p) + PIPE_BUF_SIZE"
    by (simp_all add: pipe_rd_def pipe_wr_def)
qed

lemma pipe_holds_cong:
  assumes "pipe.holds p (ps, m) q"
    and "\<And>i. i < PIPE_BUF_SIZE \<Longrightarrow> m' (pp_buffer (pipeNodes ps p) + i) = m (pp_buffer (pipeNodes ps p) + i)"
  shows "pipe.holds p (ps, m') q"
proof -
  have "pipe_slot p (ps, m') i = pipe_slot p (ps, m) i" if "i < PIPE_BUF_SIZE" for i
    using assms(2) [OF that] by (simp add: pipe_slot_def)
  moreover have "(r + i) mod PIPE_BUF_SIZE < PIPE_BUF_SIZE" for r i :: nat by simp
  moreover have "pipe_ok p (ps, m')" "pipe_rd p (ps, m') = pipe_rd p (ps, m)" "pipe_wr p (ps, m') = pipe_wr p (ps, m)"
    using pipe_holdsD(1) [OF assms(1)] by (simp_all add: pipe_ok_def pipe_rd_def pipe_wr_def)
  ultimately show ?thesis
    using pipe_holdsD(2) [OF assms(1)] by (simp add: pipe.holds_def ring_holds_def)
qed

definition outside_buffer :: "pipes \<Rightarrow> addr \<Rightarrow> addr \<Rightarrow> nat \<Rightarrow> bool" where
  \<comment> \<open>the \<open>k\<close> characters at \<open>a\<close> are not in the buffer of the pipe\<close>
  "outside_buffer ps p a k \<longleftrightarrow> a + k \<le> pp_buffer (pipeNodes ps p) \<or> pp_buffer (pipeNodes ps p) + PIPE_BUF_SIZE \<le> a"

lemma putByte_mem:
  assumes "pipe.holds p (ps, m) q" and "a < pp_buffer (pipeNodes ps p) \<or> pp_buffer (pipeNodes ps p) + PIPE_BUF_SIZE \<le> a"
  shows "snd (putByte p x (ps, m)) a = m a"
  using pipe_holdsD(3,4) [OF assms(1)] assms(2) by (auto simp: putByte_def Let_def)

lemma pp_fields [simp]:
  shows "pp_buffer (pipeNodes (fst (putByte p x (ps, m))) a) = pp_buffer (pipeNodes ps a)"
    and "pp_buffer (pipeNodes (fst (snd (getByte p (ps, m)))) a) = pp_buffer (pipeNodes ps a)"
  by (auto simp: pipe_defs)

lemma writeLoop_step:
  assumes "cmem s buff \<noteq> 0" and "cmem s (writePointer (pipeNodes ps p)) = 0"
    and "unblockAllThreads to T_BLOCKED_PIPE (s\<lparr>cmem := snd (putByte p (cmem s buff) (ps, cmem s))\<rparr>) = Some t"
  shows "writeLoop to p buff ps s = writeLoop to p (buff + 1) (fst (putByte p (cmem s buff) (ps, cmem s))) t"
  using assms by (subst writeLoop.simps) (simp add: putByte_def Let_def upd_pipe_def)

text \<open>The loop appends characters until the string ends or the buffer is full.\<close>

lemma writeLoop_spec:
  assumes "pipe.holds p (ps, cmem s) q" and "cstring (cmem s) buff xs"
    and "outside_buffer ps p buff (length xs + 1)"
    and "sched_inv s qs ths" and "n \<in> set qs" and "to = pid (procs s (proc_at s n))"
  shows "\<exists>ps' t. writeLoop to p buff ps s = Some (ps', t)
    \<and> pipe.holds p (ps', cmem t) (take PIPE_BUF_SIZE (q @ xs)) \<and> sched_inv t qs ths
    \<and> (if xs \<noteq> [] \<and> length q < PIPE_BUF_SIZE then wakes T_BLOCKED_PIPE n ths s t else t = s)"
  using assms
proof (induction xs arbitrary: buff ps s q)
  case Nil
  then have "writeLoop to p buff ps s = Some (ps, s)" by (subst writeLoop.simps) (simp add: cstring_Nil)
  moreover have "length q \<le> PIPE_BUF_SIZE"
    using ring_holds_bounds(3) [OF pipe_holdsD(2) [OF Nil.prems(1)]] .
  ultimately show ?case using Nil.prems by simp
next
  case (Cons x xs)
  let ?m = "cmem s"
  have x: "?m buff = x" "x \<noteq> 0" using Cons.prems(2) by (simp_all add: cstring_Cons)
  note rh = pipe_holdsD(2) [OF Cons.prems(1)]
  have "pipe_slot p (ps, ?m) (pipe_wr p (ps, ?m)) = ?m (writePointer (pipeNodes ps p))"
    using pipe_holdsD(3) [OF Cons.prems(1)] by (simp add: pipe_slot_def pipe_wr_def)
  then have free: "?m (writePointer (pipeNodes ps p)) = 0 \<longleftrightarrow> length q < PIPE_BUF_SIZE"
    using ring_write_free [OF rh] by simp
  show ?case
  proof (cases "length q < PIPE_BUF_SIZE")
    case False
    then have "length q = PIPE_BUF_SIZE" using ring_holds_bounds(3) [OF rh] by simp
    moreover have "writeLoop to p buff ps s = Some (ps, s)"
      using x free False by (subst writeLoop.simps) simp
    ultimately show ?thesis using Cons.prems(1,4) by simp
  next
    case True
    define r where "r = putByte p x (ps, ?m)"
    let ?s1 = "s\<lparr>cmem := snd r\<rparr>"
    have hold: "pipe.holds p (fst r, snd r) (q @ [x])"
      using pipe.put_holds [OF Cons.prems(1) x(2)] True by (simp add: r_def)
    have inv1: "sched_inv ?s1 qs ths" using Cons.prems(4) by simp
    have n1: "to = pid (procs ?s1 (proc_at ?s1 n))" using Cons.prems(6) by simp
    obtain t1 where t1: "unblockAllThreads to T_BLOCKED_PIPE ?s1 = Some t1" "sched_inv t1 qs ths"
        "wakes T_BLOCKED_PIPE n ths ?s1 t1"
      using unblockAll_wakes [OF inv1 Cons.prems(5) n1] by blast
    have c1: "cmem t1 = snd r" using unblockAll_cmem [OF inv1 Cons.prems(5) n1 t1(1)] by simp
    have step: "writeLoop to p buff ps s = writeLoop to p (buff + 1) (fst r) t1"
      using writeLoop_step [where s = s and buff = buff and ps = ps and p = p and to = to and t = t1] x free True t1(1) by (simp add: r_def)
    have out: "outside_buffer (fst r) p (buff + 1) (length xs + 1)"
      using Cons.prems(3) by (auto simp: outside_buffer_def r_def)
    have "snd r a = ?m a" if "buff + 1 \<le> a" "a \<le> buff + 1 + length xs" for a
      unfolding r_def using that Cons.prems(3) by (intro putByte_mem [OF Cons.prems(1)]) (auto simp: outside_buffer_def)
    then have "cstring (cmem t1) (buff + 1) xs"
      using Cons.prems(2) cstring_cong [of "buff + 1" xs "snd r" ?m] by (simp add: c1 cstring_Cons)
    moreover have sh: "same_shape s t1" using t1(3) by (simp only: wakes_cmem_left) (simp add: wakes_def)
    then have "to = pid (procs t1 (proc_at t1 n))" using Cons.prems(6) by (simp add: same_shapeD)
    ultimately obtain ps' t where t: "writeLoop to p (buff + 1) (fst r) t1 = Some (ps', t)"
        "pipe.holds p (ps', cmem t) (take PIPE_BUF_SIZE ((q @ [x]) @ xs))" "sched_inv t qs ths"
        "if xs \<noteq> [] \<and> length (q @ [x]) < PIPE_BUF_SIZE then wakes T_BLOCKED_PIPE n ths t1 t else t = t1"
      using Cons.IH [OF _ _ out t1(2) Cons.prems(5), of "q @ [x]"] hold c1 by (auto simp: case_prod_beta)
    have w1: "wakes T_BLOCKED_PIPE n ths s t1" using t1(3) by (simp only: wakes_cmem_left)
    have "wakes T_BLOCKED_PIPE n ths s t"
    proof (cases "t = t1")
      case True
      then show ?thesis using w1 by simp
    next
      case False
      then have "wakes T_BLOCKED_PIPE n ths t1 t" using t(4) by (auto split: if_splits)
      from wakes_trans [OF w1 this] show ?thesis by simp
    qed
    then show ?thesis using step t(1-3) True by auto
  qed
qed

lemma readLoop_step:
  assumes h: "pipe.holds p (ps, m) (x # q)" and out: "outside_buffer ps p buff 1"
  shows "\<exists>ps' m'. pipe.holds p (ps', m') q
    \<and> readLoop p buff ps m = (if q = [] then Some (ps', m') else readLoop p (buff + 1) ps' m')
    \<and> m' buff = x \<and> pp_buffer (pipeNodes ps' p) = pp_buffer (pipeNodes ps p)
    \<and> (\<forall>a. a \<noteq> buff \<and> outside_buffer ps p a 1 \<longrightarrow> m' a = m a)"
proof -
  let ?m = "m(buff := x)"
  note d = pipe_holdsD [OF h]
  have h1: "pipe.holds p (ps, ?m) (x # q)"
    using out by (intro pipe_holds_cong [OF h]) (auto simp: outside_buffer_def)
  have rx: "m (readPointer (pipeNodes ps p)) = x"
    using ring_holds_get(1) [OF d(2)] d(5) by (simp add: pipe_slot_def pipe_rd_def)
  have x0: "x \<noteq> 0" using ring_holds_bounds(4) [OF d(2)] by simp
  have rb: "readPointer (pipeNodes ps p) \<noteq> buff" using d(5,6) out by (auto simp: outside_buffer_def)
  define ps1 where "ps1 = upd_pipe p (\<lambda>p. p\<lparr>readPointer := pointerPosition (readPointer p + 1) (pp_buffer p)\<rparr>) ps"
  define m1 where "m1 = ?m(readPointer (pipeNodes ps p) := 0)"
  have gb: "getByte p (ps, ?m) = (x, ps1, m1)"
    using rx x0 rb by (simp add: getByte_def ps1_def m1_def)
  have h2: "pipe.holds p (ps1, m1) q" using pipe.get_holds(2) [OF h1] gb by simp
  note e = pipe_holdsD [OF h2]
  have "length q < PIPE_BUF_SIZE" using ring_holds_bounds(3) [OF d(2)] by simp
  then have "pipe_rd p (ps1, m1) = pipe_wr p (ps1, m1) \<longleftrightarrow> q = []"
    using e(2) ring_mod_inj [of "pipe_rd p (ps1, m1)" PIPE_BUF_SIZE 0 "length q"]
    by (auto simp: ring_holds_def)
  then have "readPointer (pipeNodes ps1 p) = writePointer (pipeNodes ps1 p) \<longleftrightarrow> q = []"
    using e(3,5) by (auto simp: pipe_rd_def pipe_wr_def)
  moreover have "readLoop p buff ps m = (if readPointer (pipeNodes ps1 p) \<noteq> writePointer (pipeNodes ps1 p)
      then readLoop p (buff + 1) ps1 m1 else Some (ps1, m1))"
    using rx by (subst readLoop.simps) (simp add: upd_pipe_def ps1_def m1_def)
  ultimately have "readLoop p buff ps m = (if q = [] then Some (ps1, m1) else readLoop p (buff + 1) ps1 m1)" by simp
  moreover have "m1 buff = x" using rb by (simp add: m1_def)
  moreover have "pp_buffer (pipeNodes ps1 p) = pp_buffer (pipeNodes ps p)" by (simp add: ps1_def upd_pipe_def)
  moreover have "m1 a = m a" if "a \<noteq> buff" "outside_buffer ps p a 1" for a
    using that d(5,6) by (auto simp: m1_def outside_buffer_def)
  ultimately show ?thesis using h2 by blast
qed

text \<open>The loop takes the characters out until the pointers meet.\<close>

lemma readLoop_spec:
  assumes "pipe.holds p (ps, m) (x # xs)" and "outside_buffer ps p buff (length xs + 1)"
  shows "\<exists>ps' m'. readLoop p buff ps m = Some (ps', m') \<and> pipe.holds p (ps', m') []
    \<and> mem_list m' buff (x # xs)
    \<and> (\<forall>a. (a < buff \<or> buff + length xs + 1 \<le> a) \<and> outside_buffer ps p a 1 \<longrightarrow> m' a = m a)"
  using assms
proof (induction xs arbitrary: x buff ps m)
  case (Nil x)
  then show ?case using readLoop_step [OF Nil.prems(1), of buff] by (fastforce simp: mem_list_Cons)
next
  case (Cons y ys x)
  have ob1: "outside_buffer ps p buff 1" using Cons.prems(2) by (auto simp: outside_buffer_def)
  obtain ps1 m1 where s1: "pipe.holds p (ps1, m1) (y # ys)" "readLoop p buff ps m = readLoop p (buff + 1) ps1 m1"
      "m1 buff = x" "pp_buffer (pipeNodes ps1 p) = pp_buffer (pipeNodes ps p)"
      "\<And>a. a \<noteq> buff \<Longrightarrow> outside_buffer ps p a 1 \<Longrightarrow> m1 a = m a"
    using readLoop_step [OF Cons.prems(1) ob1] by auto
  have ob: "outside_buffer ps1 p a k = outside_buffer ps p a k" for a k
    by (simp add: outside_buffer_def s1(4))
  have out: "outside_buffer ps1 p (buff + 1) (length ys + 1)"
    using Cons.prems(2) unfolding ob by (auto simp: outside_buffer_def)
  obtain ps' m' where ih: "readLoop p (buff + 1) ps1 m1 = Some (ps', m')" "pipe.holds p (ps', m') []"
      "mem_list m' (buff + 1) (y # ys)"
      "\<And>a. (a < buff + 1 \<or> buff + 1 + length ys + 1 \<le> a) \<Longrightarrow> outside_buffer ps1 p a 1 \<Longrightarrow> m' a = m1 a"
    using Cons.IH [OF s1(1) out] by blast
  have "m' buff = x" using ih(4) [of buff] s1(3) ob1 unfolding ob by simp
  then have "mem_list m' buff (x # y # ys)" using ih(3) by (simp add: mem_list_Cons)
  moreover have "m' a = m a" if "a < buff \<or> buff + length (y # ys) + 1 \<le> a" "outside_buffer ps p a 1" for a
    using ih(4) [of a] s1(5) [of a] that unfolding ob by auto
  ultimately show ?case using ih(1,2) s1(2) by auto
qed

subsection \<open>Finding a pipe by its name\<close>

lemma equalName_strings:
  "cstring m a xs \<Longrightarrow> cstring m b ys \<Longrightarrow> equalName m a b = Some (xs = ys)"
proof (induction xs arbitrary: a b ys)
  case Nil
  then show ?case by (subst equalName.simps) (cases ys, auto simp: cstring_Nil cstring_Cons)
next
  case (Cons x xs)
  show ?case
  proof (cases ys)
    case Nil
    then show ?thesis using Cons.prems by (subst equalName.simps) (auto simp: cstring_Nil cstring_Cons)
  next
    case (Cons y ys')
    then show ?thesis using Cons.prems Cons.IH [of "a + 1" "b + 1" ys']
      by (subst equalName.simps) (auto simp: cstring_Cons)
  qed
qed

lemma findPipe_list:
  assumes "chain (\<lambda>a. pp_next (pipeNodes ps a)) c as NULL" and "cstring m name xs"
    and "\<And>a. a \<in> set as \<Longrightarrow> cstring m (pp_name (pipeNodes ps a)) (nm a)"
  shows "findPipe m ps name c = Some (case List.find (\<lambda>a. nm a = xs) as of None \<Rightarrow> NULL | Some a \<Rightarrow> a)"
  using assms
proof (induction as arbitrary: c)
  case Nil
  then show ?case by (subst findPipe.simps) simp
next
  case (Cons a as)
  have "equalName m name (pp_name (pipeNodes ps a)) = Some (xs = nm a)"
    using Cons.prems by (intro equalName_strings) auto
  then show ?case using Cons by (subst findPipe.simps) auto
qed

definition pipe_table :: "pipes \<Rightarrow> cmem \<Rightarrow> (addr \<times> byte list) list \<Rightarrow> bool" where
  \<comment> \<open>the list of pipes with their names\<close>
  "pipe_table ps m t \<longleftrightarrow> chain (\<lambda>a. pp_next (pipeNodes ps a)) (pipeList ps) (map fst t) NULL
     \<and> (\<forall>(a, nm) \<in> set t. cstring m (pp_name (pipeNodes ps a)) nm) \<and> distinct (map snd t)"

lemma find_distinct_snd:
  assumes "distinct (map snd t)" and "(p, xs) \<in> set t" and "distinct (map fst t)"
  shows "List.find (\<lambda>a. (the \<circ> map_of t) a = xs) (map fst t) = Some p"
proof -
  have mp: "map_of t a = Some b \<longleftrightarrow> (a, b) \<in> set t" for a b using assms(3) by simp
  obtain a where a: "List.find (\<lambda>a. (the \<circ> map_of t) a = xs) (map fst t) = Some a"
  proof (cases "List.find (\<lambda>a. (the \<circ> map_of t) a = xs) (map fst t)")
    case None
    then have "\<forall>a \<in> set (map fst t). the (map_of t a) \<noteq> xs" by (auto simp: find_None_all)
    then show thesis using assms(2) mp [of p xs] by force
  qed
  then have "a \<in> fst ` set t" "the (map_of t a) = xs" using find_Some_mem [OF a] by auto
  then obtain b where "(a, b) \<in> set t" by force
  then have "(a, xs) \<in> set t" using mp [of a b] \<open>the (map_of t a) = xs\<close> by simp
  then have "a = p" using assms(1,2) by (metis eq_key_imp_eq_value distinct_map inj_onD prod.inject snd_conv)
  with a show ?thesis by simp
qed

lemma getPipe_table:
  assumes "pipe_table ps m t" and "(p, xs) \<in> set t" and "cstring m name xs"
  shows "getPipe name m ps = Some p"
proof -
  have ch: "chain (\<lambda>a. pp_next (pipeNodes ps a)) (pipeList ps) (map fst t) NULL"
    using assms(1) by (simp add: pipe_table_def)
  have di: "distinct (map fst t)" using ch by (rule chain_null_distinct)
  have "cstring m (pp_name (pipeNodes ps a)) ((the \<circ> map_of t) a)" if at: "a \<in> set (map fst t)" for a
  proof -
    obtain b where "(a, b) \<in> set t" using at by force
    moreover from this have "map_of t a = Some b" using di by simp
    ultimately show ?thesis using assms(1) by (auto simp: pipe_table_def)
  qed
  from findPipe_list [OF ch assms(3) this] show ?thesis
    using find_distinct_snd [OF _ assms(2) di] assms(1) by (simp add: getPipe_def pipe_table_def comp_def)
qed

subsection \<open>Properties\<close>

definition pipe_between :: "pipes \<Rightarrow> 'z cstate_scheme \<Rightarrow> addr \<Rightarrow> addr \<Rightarrow> nat \<Rightarrow> nat \<Rightarrow> byte list \<Rightarrow> bool" where
  \<comment> \<open>\<open>name\<close> is the name of the pipe \<open>p\<close> from process \<open>f\<close> to process \<open>k\<close>, both identifiers of type \<open>int\<close>,
    and holds \<open>q\<close>\<close>
  "pipe_between ps s p name f k q \<longleftrightarrow> (\<exists>t. pipe_table ps (cmem s) t \<and> (p, pipe_name f k) \<in> set t)
     \<and> cstring (cmem s) name (pipe_name f k) \<and> f < 2 ^ 31 \<and> k < 2 ^ 31 \<and> pipe.holds p (ps, cmem s) q"

lemma pipe_betweenD:
  assumes "pipe_between ps s p name f k q"
  shows "getPipe name (cmem s) ps = Some p" and "p \<noteq> NULL" and "getReceiverPid name (cmem s) = Some (int k)"
    and "pipe.holds p (ps, cmem s) q"
proof -
  obtain t where t: "pipe_table ps (cmem s) t" "(p, pipe_name f k) \<in> set t" and
    n: "cstring (cmem s) name (pipe_name f k)" "k < 2 ^ 31"
    using assms by (auto simp: pipe_between_def)
  show "getPipe name (cmem s) ps = Some p" using getPipe_table [OF t n(1)] .
  have "chain (\<lambda>a. pp_next (pipeNodes ps a)) (pipeList ps) (map fst t) NULL"
    using t(1) by (simp add: pipe_table_def)
  then have "NULL \<notin> set (map fst t)" by (rule chain_nonnull)
  moreover have "p \<in> set (map fst t)" using t(2) by force
  ultimately show "p \<noteq> NULL" by metis
  show "getReceiverPid name (cmem s) = Some (int k)" using getReceiverPid_name [OF n] .
  show "pipe.holds p (ps, cmem s) q" using assms by (simp add: pipe_between_def)
qed

text \<open>C20. Writing to a pipe returns, appends the characters of the string to what the pipe holds, up to
  4096 characters in all (the rest is dropped), and makes the threads of the receiver that wait for the pipe
  ready as soon as one character was stored.\<close>

theorem writeToPipe_appends:
  assumes p: "pipe_between ps s p name f k q" and buff: "buff \<noteq> NULL" "cstring (cmem s) buff xs"
    and out: "outside_buffer ps p buff (length xs + 1)"
    and inv: "sched_inv s qs ths" and n: "n \<in> set qs" "pid (procs s (proc_at s n)) = int k"
  shows "\<exists>ps' t. writeToPipe name buff ps s = Some (ps', t)
    \<and> pipe.holds p (ps', cmem t) (take 4096 (q @ xs)) \<and> sched_inv t qs ths
    \<and> (if xs \<noteq> [] \<and> length q < 4096 then wakes T_BLOCKED_PIPE n ths s t else t = s)"
proof -
  note d = pipe_betweenD [OF p]
  have "writeToPipe name buff ps s = writeLoop (int k) p buff ps s"
    using d(1-3) buff(1) by (simp add: writeToPipe_def)
  then show ?thesis using writeLoop_spec [OF d(4) buff(2) out inv n(1) n(2) [symmetric]] by simp
qed

definition receiver_calls :: "'z sched_scheme \<Rightarrow> addr list \<Rightarrow> (addr \<Rightarrow> addr list) \<Rightarrow> addr \<Rightarrow> addr \<Rightarrow> nat \<Rightarrow> bool" where
  \<comment> \<open>the process of number \<open>k\<close> is that of the queue node \<open>n\<close>, and its thread \<open>l\<close> has the number of the calling thread\<close>
  "receiver_calls s qs ths n l k \<longleftrightarrow> sched_inv s qs ths \<and> n \<in> set qs \<and> pid (procs s (proc_at s n)) = int k
     \<and> l \<in> set (ths n) \<and> getCurrentPthread s = Some (pthread (threads s (thread_at s l)))"

lemma block_receiver:
  assumes "receiver_calls s qs ths n l k" and "getCurrentPthread s = Some pt"
  shows "\<exists>t. blockThread (int k) pt T_BLOCKED_PIPE (s :: 'z cstate_scheme) = Some t \<and> sched_inv t qs ths \<and> cmem t = cmem s
    \<and> tst t l = T_BLOCKED_PIPE \<and> (\<forall>a. a \<noteq> thread_at s l \<longrightarrow> threads t a = threads s a)
    \<and> st t n = (if \<forall>m \<in> set (ths n). m \<noteq> l \<longrightarrow> tst s m \<noteq> T_READY then BLOCKED_PIPE else st s n)"
proof -
  note r = assms(1) [unfolded receiver_calls_def]
  define s1 where "s1 = set_ttick (proc_at s n) THREAD_QUANTUM (set_tstate (thread_at s l) T_BLOCKED_PIPE s)"
  define t where "t = (if \<forall>m \<in> set (ths n). tst s1 m \<noteq> T_READY
    then (set_pstate (proc_at s n) BLOCKED_PIPE s1)\<lparr>numberOfTicks := QUANTUM\<rparr> else s1)"
  have inv: "sched_inv s qs ths" and n: "n \<in> set qs" "l \<in> set (ths n)" using r by blast+
  have run: "blockThread (int k) pt T_BLOCKED_PIPE s = Some t"
    using blockThread_eq [OF sched_invD(1) [OF inv] n, of T_BLOCKED_PIPE] r assms(2) by (simp add: t_def s1_def)
  have "sched_inv t qs ths" using blockThread_inv [OF inv _ run] by (simp add: isThreadBlocked_def)
  moreover have "thread_at s m = thread_at s l \<longleftrightarrow> m = l" if "m \<in> set (ths n)" for m
    using thread_ringD(8) [OF sched_invD(3) [OF inv n(1)] that n(2)] .
  then have "(\<forall>m \<in> set (ths n). tst s1 m \<noteq> T_READY) \<longleftrightarrow> (\<forall>m \<in> set (ths n). m \<noteq> l \<longrightarrow> tst s m \<noteq> T_READY)"
    by (auto simp: s1_def store_simps)
  moreover have "cmem t = cmem s" "snodes t = snodes s" "libs t = libs s"
    by (simp_all add: t_def s1_def set_pstate_def set_tstate_def set_ttick_def)
  moreover have "tst t l = T_BLOCKED_PIPE" "\<forall>a. a \<noteq> thread_at s l \<longrightarrow> threads t a = threads s a"
    by (simp_all add: t_def s1_def set_pstate_def set_tstate_def set_ttick_def)
  moreover have "st t n = (if \<forall>m \<in> set (ths n). tst s1 m \<noteq> T_READY then BLOCKED_PIPE else st s n)"
    by (simp add: t_def s1_def store_simps)
  ultimately show ?thesis using run by metis
qed

lemma holds_empty: "pipe.holds p (ps, m) q \<Longrightarrow> m (readPointer (pipeNodes ps p)) = 0 \<longleftrightarrow> q = []"
  using ring_read_empty [OF pipe_holdsD(2)] pipe_holdsD(5) by (simp add: pipe_slot_def pipe_rd_def)

lemma read_delivers:
  assumes p: "pipe_between ps s p name f k q" and "buff \<noteq> NULL" and "outside_buffer ps p buff (length q)" and "q \<noteq> []"
  shows "\<exists>ps' m. readFromPipe name buff ps s = Some (ps', s\<lparr>cmem := m\<rparr>) \<and> pipe.holds p (ps', m) [] \<and> mem_list m buff q
    \<and> (\<forall>a. (a < buff \<or> buff + length q \<le> a) \<and> outside_buffer ps p a 1 \<longrightarrow> m a = cmem s a)"
proof -
  note d = pipe_betweenD [OF p]
  obtain x xs where q: "q = x # xs" using assms(4) by (cases q) auto
  obtain ps' m where r: "readLoop p buff ps (cmem s) = Some (ps', m)" "pipe.holds p (ps', m) []" "mem_list m buff q"
      "\<forall>a. (a < buff \<or> buff + length q \<le> a) \<and> outside_buffer ps p a 1 \<longrightarrow> m a = cmem s a"
    using readLoop_spec [of p ps "cmem s" x xs buff] d(4) assms(3) by (auto simp: q)
  have "m(readPointer (pipeNodes ps' p) := 0) = m" using holds_empty [OF r(2)] by auto
  then have "readFromPipe name buff ps s = Some (ps', s\<lparr>cmem := m\<rparr>)"
    using d(1,2) assms(2,4) holds_empty [OF d(4)] r(1) by (simp add: readFromPipe_def)
  then show ?thesis using r(2-4) by auto
qed


text \<open>C22. The name that \<open>createName\<close> writes for two process identifiers is \<open>from-to\<close> in decimal notation, it stays
  in the 50 characters of the name, and \<open>getReceiverPid\<close> reads the receiver back out of it.  The identifier 0,
  that of \<open>init\<close>, is the exception: \<open>itoa\<close> loses its only digit, and the name is \<open>-to\<close> or \<open>from-\<close>; the receiver is
  read back all the same.\<close>

theorem pipe_name_names_receiver:
  assumes "f < 2 ^ 31" and "k < 2 ^ 31"
  shows "\<exists>m'. createName (int f) (int k) name m = m'
    \<and> cstring m' name (map digit (if f = 0 then [] else decimal_digits f) @ chr CHR ''-'' # map digit (if k = 0 then [] else decimal_digits k))
    \<and> getReceiverPid name m' = Some (int k) \<and> (\<forall>a. a < name \<or> name + NAME_SIZE \<le> a \<longrightarrow> m' a = m a)"
proof -
  let ?m = "createName (int f) (int k) name m"
  have str: "cstring ?m name (pipe_name f k)" by (rule createName_string)
  moreover have "getReceiverPid name ?m = Some (int k)" using str assms(2) by (rule getReceiverPid_name)
  moreover have "?m a = m a" if "a < name \<or> name + NAME_SIZE \<le> a" for a
    using that length_digits [of f 10] length_digits [of k 10] assms(1,2) by (intro createName_frame) auto
  ultimately show ?thesis by (simp only: pipe_name_def digits_decimal) blast
qed

theorem pipe_name_names_receiver_witness:
  "cstring (createName 12 7 0x1000 (\<lambda>_. 65)) 0x1000 [49, 50, 45, 55]
    \<and> getReceiverPid 0x1000 (createName 12 7 0x1000 (\<lambda>_. 65)) = Some 7
    \<and> cstring (createName 0 7 0x1000 (\<lambda>_. 65)) 0x1000 [45, 55]"
proof -
  have "decimal_digits 12 = [1, 2]" "decimal_digits 7 = [7]" by (simp_all add: decimal_digits.simps)
  moreover have "digit 1 = 49" "digit 2 = 50" "digit 7 = 55" "chr CHR ''-'' = 45" by (simp_all add: digit_def)
  ultimately show ?thesis
    using pipe_name_names_receiver [of 12 7 "0x1000" "\<lambda>_. 65"] pipe_name_names_receiver [of 0 7 "0x1000" "\<lambda>_. 65"] by simp
qed

text \<open>A pipe from process 1 to process 2 of the demonstration queue, and a string to send.\<close>

definition demo_pipes :: pipes where
  "demo_pipes = \<lparr>pipeList = 0x100C000, pipeNodes = (\<lambda>_. \<lparr>pp_name = 0x100D000, pp_buffer = 0x100E000,
     readPointer = 0x100E000, writePointer = 0x100E000, pp_next = NULL\<rparr>)\<rparr>"

definition demo_chars :: cmem where
  "demo_chars = (\<lambda>_. 0)(0x100D000 := 49, 0x100D001 := 45, 0x100D002 := 50, 0x400000 := 104, 0x400001 := 105)"

lemma demo_name: "pipe_name 1 2 = [49, 45, 50]"
proof -
  have "digits 1 = [1]" "digits 2 = [2]" by (rule digits_one, simp_all)+
  moreover have "digit 1 = 49" "digit 2 = 50" by (simp_all add: digit_def)
  ultimately show ?thesis by (simp add: pipe_name_def del: One_nat_def)
qed

lemma demo_strings: "cstring demo_chars 0x100D000 [49, 45, 50]" "cstring demo_chars 0x400000 [104, 105]"
  by (simp_all add: demo_chars_def cstring_Cons cstring_Nil)

lemma demo_pipe: "pipe_between demo_pipes (with_cmem demo_chars demo) 0x100C000 0x100D000 1 2 []"
proof -
  have "pipe_table demo_pipes demo_chars [(0x100C000, [49, 45, 50])]"
    using demo_strings by (simp add: pipe_table_def demo_pipes_def)
  moreover have "pipe.holds 0x100C000 (demo_pipes, demo_chars) []"
    by (auto simp: pipe.holds_def pipe_ok_def pipe_slot_def pipe_rd_def pipe_wr_def demo_pipes_def demo_chars_def
        intro!: ring_holds_empty)
  moreover have "(0x100C000, pipe_name 1 2) \<in> set [(0x100C000, [49, 45, 50])]" unfolding demo_name by simp
  ultimately show ?thesis using demo_strings(1)
    unfolding pipe_between_def demo_name by (auto simp del: fun_upd_apply)
qed

theorem writeToPipe_appends_witness:
  "\<exists>ps' t. writeToPipe 0x100D000 0x400000 demo_pipes (with_cmem demo_chars demo) = Some (ps', t)
    \<and> pipe.holds 0x100C000 (ps', cmem t) [104, 105]"
proof -
  have "outside_buffer demo_pipes 0x100C000 0x400000 (length [104 :: byte, 105] + 1)" by (simp add: outside_buffer_def demo_pipes_def)
  moreover have "pid (procs (with_cmem demo_chars demo) (proc_at (with_cmem demo_chars demo) 0x1001000)) = int 2"
    by (simp add: demo_select demo_proc_def)
  ultimately show ?thesis
    using writeToPipe_appends [OF demo_pipe, of "0x400000" "[104, 105]" demo_queue demo_threads "0x1001000"]
      demo_strings(2) demo_inv by (auto simp: demo_nodes)
qed

definition full_pipes :: pipes where
  "full_pipes = upd_pipe 0x100C000 (\<lambda>p. p\<lparr>writePointer := 0x100E002\<rparr>) demo_pipes"

definition full_chars :: cmem where
  "full_chars = demo_chars(0x100E000 := 104, 0x100E001 := 105)"

lemma full_pipe: "pipe_between full_pipes (with_cmem full_chars demo) 0x100C000 0x100D000 1 2 [104, 105]"
proof -
  have s: "cstring full_chars 0x100D000 [49, 45, 50]"
    by (simp add: full_chars_def demo_chars_def cstring_Cons cstring_Nil)
  then have "pipe_table full_pipes full_chars [(0x100C000, [49, 45, 50])]"
    by (simp add: pipe_table_def full_pipes_def upd_pipe_def demo_pipes_def)
  moreover have "pipe_slot 0x100C000 (full_pipes, full_chars) i = (if i < 2 then [104, 105] ! i else 0)" if "i < 4096" for i
    using that by (auto simp: pipe_slot_def full_pipes_def full_chars_def upd_pipe_def demo_pipes_def demo_chars_def
        nth_Cons split: nat.splits)
  moreover have "pipe_rd 0x100C000 (full_pipes, full_chars) = 0" "pipe_wr 0x100C000 (full_pipes, full_chars) = 2"
    "pipe_ok 0x100C000 (full_pipes, full_chars)"
    by (simp_all add: pipe_ok_def pipe_rd_def pipe_wr_def full_pipes_def upd_pipe_def demo_pipes_def)
  ultimately have "pipe_table full_pipes full_chars [(0x100C000, [49, 45, 50])]"
    "pipe.holds 0x100C000 (full_pipes, full_chars) [104, 105]"
    by (simp_all add: pipe.holds_def ring_holds_def)
  moreover have "(0x100C000, pipe_name 1 2) \<in> set [(0x100C000, [49, 45, 50])]" unfolding demo_name by simp
  ultimately show ?thesis using s unfolding pipe_between_def demo_name by (auto simp del: fun_upd_apply)
qed

lemma demo_reader: "receiver_calls (with_cmem demo_chars demo) demo_queue demo_threads 0x1001000 0x1007000 2"
  using demo_inv
  by (simp add: receiver_calls_def demo_nodes demo_threads_def demo_select demo_proc_def getCurrentPthread_def currentThreadNode_def
      currentProc_def get_snode_def get_proc_def get_lib_def get_thread_def zero_thread_def)


end
