(* ===== verification/VideoDriver.thy ===== *)
theory VideoDriver
  imports KStdLib
begin

section \<open>The text screen (\<open>videoDriver.c\<close>)\<close>

text \<open>
  A screen is 80 by 25 cells of two bytes, a character and its colour; the video memory is the one
  at \<open>0xB8000\<close>, the others are the backups of the processes that are not on focus.  The functions
  that take a screen also take the address of a cursor: it is \<open>&currentPosition\<close>, the driver's
  own, or the address of a variable of the caller, whose value is then passed and returned.
\<close>

abbreviation (input) WINDOW_WIDTH :: nat where "WINDOW_WIDTH \<equiv> 80"
abbreviation (input) WINDOW_HEIGHT :: nat where "WINDOW_HEIGHT \<equiv> 25"
abbreviation (input) WINDOW_SIZE :: nat where "WINDOW_SIZE \<equiv> 4000"
abbreviation (input) DEFAULT_COLOR :: byte where "DEFAULT_COLOR \<equiv> 0x0F"
abbreviation (input) END_OF_SCREEN :: nat where "END_OF_SCREEN \<equiv> 4000"
abbreviation (input) TABSIZE :: int where "TABSIZE \<equiv> 12"
abbreviation (input) SPACE :: byte where "SPACE \<equiv> 32"

record vstate = cstate +
  currentPosition :: addr

abbreviation (input) screen :: addr where "screen \<equiv> 0xB8000"

datatype cursor = Current | Local addr

definition cursor_get :: "cursor \<Rightarrow> 'z vstate_scheme \<Rightarrow> addr" where
  "cursor_get c v = (case c of Current \<Rightarrow> currentPosition v | Local p \<Rightarrow> p)"

definition cursor_set :: "cursor \<Rightarrow> addr \<Rightarrow> 'z vstate_scheme \<Rightarrow> cursor \<times> 'z vstate_scheme" where
  "cursor_set c p v = (case c of Current \<Rightarrow> (Current, v\<lparr>currentPosition := p\<rparr>) | Local _ \<Rightarrow> (Local p, v))"

definition store :: "addr \<Rightarrow> byte \<Rightarrow> 'z vstate_scheme \<Rightarrow> 'z vstate_scheme" where
  "store a x v = v\<lparr>cmem := (cmem v)(a := x)\<rparr>"

definition clear :: "addr \<Rightarrow> cmem \<Rightarrow> cmem" where
  "clear screenToClear m =
     for_store WINDOW_SIZE screenToClear (\<lambda>i m. if i mod 2 = 1 then DEFAULT_COLOR else SPACE) m"

definition clearScreen :: "'z vstate_scheme \<Rightarrow> 'z vstate_scheme" where
  "clearScreen v = v\<lparr>cmem := clear screen (cmem v), currentPosition := screen\<rparr>"

definition setScreen :: "addr \<Rightarrow> addr \<Rightarrow> 'z vstate_scheme \<Rightarrow> 'z vstate_scheme" where
  "setScreen myScreen myCurrentPos v =
     (let cursorDistance = wrap32 (int myCurrentPos - int myScreen)
      in v\<lparr>cmem := for_store WINDOW_SIZE screen (\<lambda>i m. m (myScreen + i)) (cmem v),
           currentPosition := nat (int screen + cursorDistance)\<rparr>)"

definition backupContent :: "addr \<Rightarrow> 'z vstate_scheme \<Rightarrow> addr \<times> 'z vstate_scheme" where
  "backupContent backup v =
     (let cursorDistance = wrap32 (int (currentPosition v) - int screen)
      in (nat (int backup + cursorDistance),
          v\<lparr>cmem := for_store WINDOW_SIZE backup (\<lambda>i m. m (screen + i)) (cmem v)\<rparr>))"

fun blankRow :: "nat \<Rightarrow> addr \<Rightarrow> cmem \<Rightarrow> cmem" where
  \<comment> \<open>the loop that blanks \<open>n\<close> cells\<close>
  "blankRow 0 p m = m"
| "blankRow (Suc n) p m = blankRow n (p + 2) (m(p := SPACE, p + 1 := DEFAULT_COLOR))"

definition moveScreenUp :: "addr \<Rightarrow> cursor \<Rightarrow> 'z vstate_scheme \<Rightarrow> cursor \<times> 'z vstate_scheme" where
  "moveScreenUp myScreen myCurrentPos v =
     (let m = for_store (WINDOW_WIDTH * 2 * (WINDOW_HEIGHT - 1)) myScreen
                (\<lambda>i m. m (myScreen + i + WINDOW_WIDTH * 2)) (cmem v);
          base = myScreen + END_OF_SCREEN - WINDOW_WIDTH * 2;
          m = blankRow WINDOW_WIDTH base m
      in cursor_set myCurrentPos base (v\<lparr>cmem := m\<rparr>))"

definition checkEndOfScreen :: "addr \<Rightarrow> cursor \<Rightarrow> 'z vstate_scheme \<Rightarrow> cursor \<times> 'z vstate_scheme" where
  "checkEndOfScreen myScreen myCurrentPos v =
     (if myScreen + END_OF_SCREEN \<le> cursor_get myCurrentPos v then moveScreenUp myScreen myCurrentPos v
      else (myCurrentPos, v))"

text \<open>A string that is printed is the list of its characters.\<close>

fun print :: "byte list \<Rightarrow> 'z vstate_scheme \<Rightarrow> 'z vstate_scheme" where
  "print [] v = v"
| "print (x # xs) v =
     (let v = store (currentPosition v) x v;
          v = v\<lparr>currentPosition := currentPosition v + 1\<rparr>;
          v = store (currentPosition v) DEFAULT_COLOR v;
          v = v\<lparr>currentPosition := currentPosition v + 1\<rparr>
      in print xs (snd (checkEndOfScreen screen Current v)))"

definition myNewLine :: "addr \<Rightarrow> cursor \<Rightarrow> 'z vstate_scheme \<Rightarrow> cursor \<times> 'z vstate_scheme" where
  "myNewLine myScreen myCurrentPos v =
     (let p = cursor_get myCurrentPos v;
          p = nat (int p + ((int myScreen - int p) smod 160 + 160));
          (c, v) = cursor_set myCurrentPos p v
      in checkEndOfScreen myScreen c v)"

definition newLine :: "'z vstate_scheme \<Rightarrow> 'z vstate_scheme" where
  "newLine v = snd (myNewLine screen Current v)"

definition backSpace :: "addr \<Rightarrow> cursor \<Rightarrow> 'z vstate_scheme \<Rightarrow> cursor \<times> 'z vstate_scheme" where
  "backSpace myScreen myCurrentPos v =
     (if cursor_get myCurrentPos v = myScreen then (myCurrentPos, v)
      else let (c, v) = cursor_set myCurrentPos (cursor_get myCurrentPos v - 2) v
           in (c, store (cursor_get c v) SPACE v))"

definition myPrintTab :: "cursor \<Rightarrow> 'z vstate_scheme \<Rightarrow> cursor \<times> 'z vstate_scheme" where
  "myPrintTab myCurrentPos v =
     (let p = cursor_get myCurrentPos v;
          relativePos = wrap32 (int p - int screen) sdiv 2;
          column = relativePos smod int WINDOW_WIDTH
      in cursor_set myCurrentPos (nat (int p + (TABSIZE - column smod TABSIZE) * 2)) v)"

definition printTab :: "'z vstate_scheme \<Rightarrow> 'z vstate_scheme" where
  "printTab v = snd (myPrintTab Current v)"

definition printCharactersInner :: "byte \<Rightarrow> addr \<Rightarrow> cursor \<Rightarrow> 'z vstate_scheme \<Rightarrow> cursor \<times> 'z vstate_scheme" where
  "printCharactersInner character myScreen myCurrentPos v =
     (let (c, v) =
        (if character = 10 then myNewLine myScreen myCurrentPos v
         else if character = 8 then backSpace myScreen myCurrentPos v
         else if character = 9 then (myCurrentPos, printTab v)
         else let p = cursor_get myCurrentPos v;
                  v = store p character v;
                  v = store (p + 1) DEFAULT_COLOR v
              in cursor_set myCurrentPos (p + 2) v)
      in checkEndOfScreen myScreen c v)"

definition printCharacters :: "byte \<Rightarrow> 'z vstate_scheme \<Rightarrow> 'z vstate_scheme" where
  "printCharacters character v = snd (printCharactersInner character screen Current v)"

text \<open>\<open>while (length - 1 > 0) divisor *= 10;\<close> does not change its own condition.\<close>

partial_function (option) divisorLoop :: "int \<Rightarrow> int \<Rightarrow> int option" where
  "divisorLoop k divisor = (if k - 1 > 0 then divisorLoop k (divisor * 10) else Some divisor)"

function printDigits :: "int \<Rightarrow> int \<Rightarrow> 'z vstate_scheme \<Rightarrow> 'z vstate_scheme" where
  "printDigits number divisor v =
     (if divisor \<noteq> 0 then printDigits (number sdiv 10) (divisor sdiv 10)
        (printCharacters (word_of_int (number smod 10 + 48)) v)
      else v)"
  by auto
termination by (relation "measure (\<lambda>(_, d, _). nat \<bar>d\<bar>)") (simp_all add: sdiv_ten_less)

declare printDigits.simps [simp del]

definition printDec :: "int \<Rightarrow> 'z vstate_scheme \<Rightarrow> 'z vstate_scheme option" where
  "printDec number v = do {
     divisor \<leftarrow> divisorLoop (int (intLength number)) 1;
     Some (printDigits number divisor v) }"

subsection \<open>The abstract terminal\<close>

text \<open>
  2000 cells, each a character and a colour, and the index of the cell where the next character
  goes; when it leaves the screen the lines move up by one and the last one is blank.
\<close>

type_synonym terminal = "(byte \<times> byte) list \<times> nat"

definition t_scroll :: "terminal \<Rightarrow> terminal" where
  "t_scroll t = (if snd t < 2000 then t else (drop 80 (fst t) @ replicate 80 (SPACE, DEFAULT_COLOR), 1920))"

definition t_char :: "byte \<Rightarrow> terminal \<Rightarrow> terminal" where
  "t_char c t = t_scroll (case t of (cs, k) \<Rightarrow>
     if c = 10 then (cs, k + 80 - k mod 80)
     else if c = 8 then (if k = 0 then (cs, 0) else (cs[k - 1 := (SPACE, snd (cs ! (k - 1)))], k - 1))
     else if c = 9 then (cs, k + 12 - k mod 80 mod 12)
     else (cs[k := (c, DEFAULT_COLOR)], k + 1))"

definition cells :: "cmem \<Rightarrow> addr \<Rightarrow> (byte \<times> byte) list" where
  "cells m p = map (\<lambda>i. (m (p + 2 * i), m (p + 2 * i + 1))) [0..<2000]"

definition shows_at :: "addr \<Rightarrow> cursor \<Rightarrow> 'z vstate_scheme \<Rightarrow> terminal \<Rightarrow> bool" where
  \<comment> \<open>the screen at \<open>p\<close> with that cursor is the terminal\<close>
  "shows_at p c v t \<longleftrightarrow> fst t = cells (cmem v) p \<and> cursor_get c v = p + 2 * snd t"

lemma length_cells [simp]: "length (cells m p) = 2000"
  by (simp add: cells_def)

lemma nth_cells: "i < 2000 \<Longrightarrow> cells m p ! i = (m (p + 2 * i), m (p + 2 * i + 1))"
  by (simp add: cells_def)

lemma cells_eqI:
  assumes "length cs = 2000" and "\<And>i. i < 2000 \<Longrightarrow> cs ! i = (m (p + 2 * i), m (p + 2 * i + 1))"
  shows "cells m p = cs"
  using assms by (intro nth_equalityI) (simp_all add: nth_cells)

lemma cells_cong: "(\<And>a. p \<le> a \<Longrightarrow> a < p + 4000 \<Longrightarrow> m' a = m a) \<Longrightarrow> cells m' p = cells m p"
  by (rule cells_eqI) (simp_all add: nth_cells)

lemma cells_put:
  assumes "k < 2000"
  shows "cells (m(p + 2 * k := x, p + 2 * k + 1 := y)) p = (cells m p)[k := (x, y)]"
proof (rule cells_eqI)
  fix i :: nat assume "i < 2000"
  moreover have "p + 2 * i \<noteq> p + 2 * k + 1" "p + 2 * i + 1 \<noteq> p + 2 * k" by presburger+
  ultimately show "(cells m p)[k := (x, y)] ! i = ((m(p + 2 * k := x, p + 2 * k + 1 := y)) (p + 2 * i),
      (m(p + 2 * k := x, p + 2 * k + 1 := y)) (p + 2 * i + 1))"
    by (auto simp: nth_list_update nth_cells)
qed simp

lemma cells_put_char:
  assumes "k < 2000"
  shows "cells (m(p + 2 * k := x)) p = (cells m p)[k := (x, snd (cells m p ! k))]"
proof -
  have "m(p + 2 * k := x) = m(p + 2 * k := x, p + 2 * k + 1 := m (p + 2 * k + 1))" by auto
  then have "cells (m(p + 2 * k := x)) p = cells (m(p + 2 * k := x, p + 2 * k + 1 := m (p + 2 * k + 1))) p" by simp
  also have "\<dots> = (cells m p)[k := (x, m (p + 2 * k + 1))]" by (rule cells_put [OF assms])
  finally show ?thesis using assms by (simp add: nth_cells)
qed

lemma cursor_get_set [simp]: "cursor_get (fst (cursor_set c p v)) (snd (cursor_set c p v)) = p"
  and cursor_set_mem [simp]: "cmem (snd (cursor_set c p v)) = cmem v"
  and cursor_set_local [simp]: "(fst (cursor_set c p v) = Current) = (c = Current)"
  and cursor_get_mem [simp]: "cursor_get c (v\<lparr>cmem := m\<rparr>) = cursor_get c v"
  by (simp_all add: cursor_get_def cursor_set_def split: cursor.splits)

lemma store_select [simp]: "cmem (store a x v) = (cmem v)(a := x)" "cursor_get c (store a x v) = cursor_get c v"
  by (simp_all add: store_def)

definition only_video :: "'z vstate_scheme \<Rightarrow> 'z vstate_scheme \<Rightarrow> bool" where
  "only_video v w \<longleftrightarrow> (\<exists>m p. w = v\<lparr>cmem := m, currentPosition := p\<rparr>)"

lemma only_video_upd: "only_video v (v\<lparr>cmem := m, currentPosition := p\<rparr>)"
  unfolding only_video_def by (intro exI) (rule refl)

lemma only_video_refl [simp, intro]: "only_video v v"
  using only_video_upd [of v "currentPosition v" "cmem v"] by simp

lemma only_video_intros [simp, intro]:
  shows "only_video v (snd (cursor_set c p v))" and "only_video v (store a x v)"
    and "only_video v (v\<lparr>cmem := m\<rparr>)" and "only_video v (v\<lparr>currentPosition := q\<rparr>)"
proof -
  have m: "only_video v (v\<lparr>cmem := m\<rparr>)" for m using only_video_upd [of v "currentPosition v" m] by simp
  then show "only_video v (v\<lparr>cmem := m\<rparr>)" "only_video v (store a x v)" by (simp_all add: store_def)
  have q: "only_video v (v\<lparr>currentPosition := q\<rparr>)" for q using only_video_upd [of v q "cmem v"] by simp
  then show "only_video v (v\<lparr>currentPosition := q\<rparr>)" .
  from q show "only_video v (snd (cursor_set c p v))" by (auto simp: cursor_set_def split: cursor.splits)
qed

lemma only_video_trans: "only_video v w \<Longrightarrow> only_video w u \<Longrightarrow> only_video v u"
proof -
  assume "only_video v w" "only_video w u"
  then obtain m p m' p' where "w = v\<lparr>cmem := m, currentPosition := p\<rparr>" "u = w\<lparr>cmem := m', currentPosition := p'\<rparr>"
    unfolding only_video_def by blast
  then have "u = v\<lparr>cmem := m', currentPosition := p'\<rparr>" by simp
  then show ?thesis using only_video_upd by metis
qed

lemma blankRow_out: "a < b \<or> b + 2 * n \<le> a \<Longrightarrow> blankRow n b m a = m a"
  by (induction n arbitrary: b m) auto

lemma blankRow_in: "j < n \<Longrightarrow> blankRow n b m (b + 2 * j) = SPACE \<and> blankRow n b m (b + 2 * j + 1) = DEFAULT_COLOR"
proof (induction n arbitrary: b m j)
  case (Suc n)
  show ?case
  proof (cases j)
    case 0
    then show ?thesis by (simp add: blankRow_out)
  next
    case (Suc i)
    then show ?thesis using Suc.IH [of i "b + 2" "m(b := SPACE, b + 1 := DEFAULT_COLOR)"] Suc.prems by (simp del: fun_upd_apply)
  qed
qed simp

lemma moveScreenUp_spec:
  assumes "moveScreenUp p c v = (c', v')"
  shows "cursor_get c' v' = p + 3840"
    and "cells (cmem v') p = drop 80 (cells (cmem v) p) @ replicate 80 (SPACE, DEFAULT_COLOR)"
    and "a < p \<or> p + 4000 \<le> a \<Longrightarrow> cmem v' a = cmem v a"
    and "(c' = Current) = (c = Current)" and "only_video v v'"
proof -
  define m1 where "m1 = for_store 3840 p (\<lambda>i m. m (p + i + 160)) (cmem v)"
  define m2 where "m2 = blankRow 80 (p + 3840) m1"
  have m1: "m1 = (\<lambda>a. if p \<le> a \<and> a < p + 3840 then cmem v (a + 160) else cmem v a)"
    using for_store_copy [of p "p + 160" 3840 "cmem v"] by (auto simp: m1_def fun_eq_iff ac_simps)
  have "p + 4000 - 160 = p + 3840" by simp
  then have e: "(c', v') = cursor_set c (p + 3840) (v\<lparr>cmem := m2\<rparr>)"
    using assms unfolding moveScreenUp_def Let_def m1_def m2_def by (simp add: add.commute)
  have e1: "c' = fst (cursor_set c (p + 3840) (v\<lparr>cmem := m2\<rparr>))" "v' = snd (cursor_set c (p + 3840) (v\<lparr>cmem := m2\<rparr>))"
    using e by (metis fst_conv, metis snd_conv)
  show "cursor_get c' v' = p + 3840" "(c' = Current) = (c = Current)" unfolding e1 by simp_all
  have mem: "cmem v' = m2" unfolding e1 by simp
  show "a < p \<or> p + 4000 \<le> a \<Longrightarrow> cmem v' a = cmem v a"
    unfolding mem m2_def by (subst blankRow_out) (auto simp: m1)
  show "only_video v v'" unfolding e1 by (rule only_video_trans [OF only_video_intros(3) only_video_intros(1)])
  show "cells (cmem v') p = drop 80 (cells (cmem v) p) @ replicate 80 (SPACE, DEFAULT_COLOR)"
  proof (rule cells_eqI)
    fix i :: nat assume i: "i < 2000"
    show "(drop 80 (cells (cmem v) p) @ replicate 80 (SPACE, DEFAULT_COLOR)) ! i = (cmem v' (p + 2 * i), cmem v' (p + 2 * i + 1))"
    proof (cases "i < 1920")
      case True
      then have "m2 (p + 2 * i) = m1 (p + 2 * i)" "m2 (p + 2 * i + 1) = m1 (p + 2 * i + 1)"
        unfolding m2_def by (intro blankRow_out, simp)+
      then show ?thesis using True by (simp add: nth_append nth_cells mem m1 algebra_simps)
    next
      case False
      define j where "j = i - 1920"
      then have j: "i = 1920 + j" "j < 80" using i False by auto
      then have a: "p + 2 * i = p + 3840 + 2 * j" "p + 2 * i + 1 = p + 3840 + 2 * j + 1" by simp_all
      show ?thesis
        using blankRow_in [OF j(2), of "p + 3840" m1] unfolding a mem m2_def [symmetric]
        by (simp add: nth_append j)
    qed
  qed simp
qed

lemma checkEndOfScreen_spec:
  assumes "checkEndOfScreen p c v = (c', v')" and "shows_at p c v t"
  shows "shows_at p c' v' (t_scroll t)" and "a < p \<or> p + 4000 \<le> a \<Longrightarrow> cmem v' a = cmem v a"
    and "(c' = Current) = (c = Current)" and "only_video v v'"
proof -
  have "shows_at p c' v' (t_scroll t) \<and> (a < p \<or> p + 4000 \<le> a \<longrightarrow> cmem v' a = cmem v a)
      \<and> (c' = Current) = (c = Current) \<and> only_video v v'"
  proof (cases "p + 4000 \<le> cursor_get c v")
    case True
    then have mv: "moveScreenUp p c v = (c', v')" using assms(1) by (simp add: checkEndOfScreen_def)
    have k: "\<not> snd t < 2000" using True assms(2) by (simp add: shows_at_def)
    show ?thesis using moveScreenUp_spec [OF mv] assms(2) k by (auto simp: shows_at_def t_scroll_def)
  next
    case False
    then have "c' = c" "v' = v" using assms(1) by (simp_all add: checkEndOfScreen_def)
    moreover have "snd t < 2000" using False assms(2) by (simp add: shows_at_def)
    ultimately show ?thesis using assms(2) by (simp add: t_scroll_def)
  qed
  then show "shows_at p c' v' (t_scroll t)" and "a < p \<or> p + 4000 \<le> a \<Longrightarrow> cmem v' a = cmem v a"
    and "(c' = Current) = (c = Current)" and "only_video v v'" by blast+
qed

lemma newline_distance: "(int p - int (p + 2 * k)) smod 160 = - int (2 * (k mod 80))"
proof -
  have "2 * k mod 160 = 2 * (k mod 80)" using mod_mult_mult1 [of 2 k 80] by simp
  then have "int (2 * k) mod 160 = int (2 * (k mod 80))" by (metis of_nat_numeral zmod_int)
  then show ?thesis by (cases "k = 0") (simp_all add: signed_modulo_int_def sgn_if)
qed

lemma tab_distance:
  assumes "k < 2000"
  shows "wrap32 (int (p + 2 * k) - int p) sdiv 2 smod 80 smod 12 = int (k mod 80 mod 12)"
proof -
  have "wrap32 (int (p + 2 * k) - int p) = int (2 * k)" using assms by (simp add: wrap32_id)
  moreover have "int (2 * k) sdiv 2 = int k" by (simp add: signed_divide_int_def sgn_if)
  moreover have "int k smod 80 = int (k mod 80)" by (auto simp: signed_modulo_int_def sgn_if zmod_int)
  moreover have "int (k mod 80) smod 12 = int (k mod 80 mod 12)" by (auto simp: signed_modulo_int_def sgn_if zmod_int)
  ultimately show ?thesis by simp
qed

lemma wrap_cursor:
  assumes "q = p + 2 * k" and "k < 2000"
  shows "nat (int q + ((int p - int q) smod 160 + 160)) = p + 2 * (k + 80 - k mod 80)"
    and "nat (int q + (12 - wrap32 (int q - int p) sdiv 2 smod 80 smod 12) * 2) = p + 2 * (k + 12 - k mod 80 mod 12)"
proof -
  have le: "k mod 80 \<le> k" "k mod 80 mod 12 < 12" by simp_all
  show "nat (int q + ((int p - int q) smod 160 + 160)) = p + 2 * (k + 80 - k mod 80)"
    unfolding assms(1) newline_distance using le(1) by linarith
  have "nat (int (p + 2 * k) + (12 - int j) * 2) = p + 2 * (k + 12 - j)" if "j < 12" for j :: nat
  proof -
    have "int (k + 12 - j) = int k + 12 - int j" using that by (simp add: of_nat_diff)
    then have "int (p + 2 * k) + (12 - int j) * 2 = int (p + 2 * (k + 12 - j))" by simp
    then show ?thesis by (simp only: nat_int)
  qed
  from this [OF le(2)] have "nat (int (p + 2 * k) + (12 - int (k mod 80 mod 12)) * 2) = p + 2 * (k + 12 - k mod 80 mod 12)" .
  then show "nat (int q + (12 - wrap32 (int q - int p) sdiv 2 smod 80 smod 12) * 2) = p + 2 * (k + 12 - k mod 80 mod 12)"
    unfolding assms(1) tab_distance [OF assms(2)] .
qed

text \<open>One step without the final test of the end of the screen.\<close>

lemma printCharacters_step:
  assumes sh: "shows_at p c v (cs, k)" and k: "k < 2000" and tab: "x = 9 \<Longrightarrow> c = Current \<and> p = screen"
    and body: "(c1, v1) = (if x = 10 then cursor_set c (nat (int (cursor_get c v) + ((int p - int (cursor_get c v)) smod 160 + 160))) v
         else if x = 8 then backSpace p c v
         else if x = 9 then (c, printTab v)
         else cursor_set c (cursor_get c v + 2) (store (cursor_get c v + 1) DEFAULT_COLOR (store (cursor_get c v) x v)))"
  shows "shows_at p c1 v1 (if x = 10 then (cs, k + 80 - k mod 80)
     else if x = 8 then (if k = 0 then (cs, 0) else (cs[k - 1 := (SPACE, snd (cs ! (k - 1)))], k - 1))
     else if x = 9 then (cs, k + 12 - k mod 80 mod 12)
     else (cs[k := (x, DEFAULT_COLOR)], k + 1))"
    and "a < p \<or> p + 4000 \<le> a \<Longrightarrow> cmem v1 a = cmem v a" and "(c1 = Current) = (c = Current)" and "only_video v v1"
proof -
  have cs: "cs = cells (cmem v) p" and q: "cursor_get c v = p + 2 * k" using sh by (simp_all add: shows_at_def)
  note w = wrap_cursor [OF q k]
  have set: "shows_at p (fst (cursor_set c r u)) (snd (cursor_set c r u)) (cells (cmem u) p, j)" if "r = p + 2 * j" for r j u
    using that by (simp add: shows_at_def)
  have "shows_at p c1 v1 (if x = 10 then (cs, k + 80 - k mod 80)
     else if x = 8 then (if k = 0 then (cs, 0) else (cs[k - 1 := (SPACE, snd (cs ! (k - 1)))], k - 1))
     else if x = 9 then (cs, k + 12 - k mod 80 mod 12)
     else (cs[k := (x, DEFAULT_COLOR)], k + 1))
    \<and> (a < p \<or> p + 4000 \<le> a \<longrightarrow> cmem v1 a = cmem v a) \<and> (c1 = Current) = (c = Current) \<and> only_video v v1"
  proof -
    consider (nl) "x = 10" | (bs0) "x = 8" "k = 0" | (bs) j where "x = 8" "k = Suc j" | (tab) "x = 9"
      | (chr) "x \<noteq> 10" "x \<noteq> 8" "x \<noteq> 9" by (cases k) blast+
    then show ?thesis
    proof cases
      case nl
      then have "(c1, v1) = cursor_set c (p + 2 * (k + 80 - k mod 80)) v" using body w(1) by simp
      then have e: "c1 = fst (cursor_set c (p + 2 * (k + 80 - k mod 80)) v)" "v1 = snd (cursor_set c (p + 2 * (k + 80 - k mod 80)) v)"
        by (metis fst_conv, metis snd_conv)
      show ?thesis using set [of _ "k + 80 - k mod 80" v] nl cs unfolding e by simp
    next
      case bs0
      then have "c1 = c" "v1 = v" using body q by (simp_all add: backSpace_def)
      then show ?thesis using bs0 sh by simp
    next
      case (bs j)
      define u where "u = snd (cursor_set c (p + 2 * j) v)"
      have "(c1, v1) = (fst (cursor_set c (p + 2 * j) v), store (p + 2 * j) SPACE u)"
        using body bs q by (simp add: backSpace_def Let_def case_prod_beta u_def)
      then have e: "c1 = fst (cursor_set c (p + 2 * j) v)" "v1 = store (p + 2 * j) SPACE u" by simp_all
      have "cells (cmem v1) p = cs[j := (SPACE, snd (cs ! j))]"
        using cells_put_char [of j "cmem v" p SPACE] bs k cs unfolding e u_def by simp
      moreover have "cursor_get c1 v1 = p + 2 * j" unfolding e u_def by simp
      moreover have "only_video v v1" unfolding e u_def by (rule only_video_trans [OF only_video_intros(1,2)])
      moreover have "cmem v1 a = cmem v a" if "a < p \<or> p + 4000 \<le> a" using that bs k unfolding e u_def by auto
      moreover have "(c1 = Current) = (c = Current)" unfolding e by simp
      ultimately show ?thesis using bs by (simp add: shows_at_def)
    next
      case tab
      then have c: "c = Current" "p = screen" using assms(3) by simp_all
      have "c1 = Current" "v1 = v\<lparr>currentPosition := p + 2 * (k + 12 - k mod 80 mod 12)\<rparr>"
        using body tab c w(2) q by (simp_all add: printTab_def myPrintTab_def Let_def cursor_set_def cursor_get_def)
      then show ?thesis using tab cs c by (simp add: shows_at_def cursor_get_def)
    next
      case chr
      define u where "u = store (p + 2 * k + 1) DEFAULT_COLOR (store (p + 2 * k) x v)"
      have "(c1, v1) = cursor_set c (p + 2 * (k + 1)) u" using body chr q by (simp add: u_def)
      then have e: "c1 = fst (cursor_set c (p + 2 * (k + 1)) u)" "v1 = snd (cursor_set c (p + 2 * (k + 1)) u)"
        by (metis fst_conv, metis snd_conv)
      have "cells (cmem u) p = cs[k := (x, DEFAULT_COLOR)]"
        using cells_put [OF k, of "cmem v" p x DEFAULT_COLOR] cs by (simp add: u_def)
      then have "shows_at p c1 v1 (cs[k := (x, DEFAULT_COLOR)], k + 1)" using set [of _ "k + 1" u] unfolding e by simp
      moreover have "only_video v u" unfolding u_def by (rule only_video_trans [OF only_video_intros(2) only_video_intros(2)])
      then have "only_video v v1" unfolding e by (rule only_video_trans [OF _ only_video_intros(1)])
      moreover have "cmem v1 a = cmem v a" if "a < p \<or> p + 4000 \<le> a" using that k unfolding e by (auto simp: u_def)
      moreover have "(c1 = Current) = (c = Current)" unfolding e by simp
      ultimately show ?thesis using chr by simp
    qed
  qed
  then show "shows_at p c1 v1 (if x = 10 then (cs, k + 80 - k mod 80)
     else if x = 8 then (if k = 0 then (cs, 0) else (cs[k - 1 := (SPACE, snd (cs ! (k - 1)))], k - 1))
     else if x = 9 then (cs, k + 12 - k mod 80 mod 12)
     else (cs[k := (x, DEFAULT_COLOR)], k + 1))"
    and "a < p \<or> p + 4000 \<le> a \<Longrightarrow> cmem v1 a = cmem v a" and "(c1 = Current) = (c = Current)" and "only_video v v1"
    by blast+
qed

lemma t_scroll_idem [simp]: "t_scroll (t_scroll t) = t_scroll t"
  by (simp add: t_scroll_def)

lemma t_scroll_bound: "snd (t_scroll t) < 2000"
  by (simp add: t_scroll_def)

lemma t_char_bound: "snd (t_char x t) < 2000"
  by (simp add: t_char_def t_scroll_bound)

lemma printCharactersInner_spec:
  assumes sh: "shows_at p c v t" and k: "snd t < 2000" and tab: "x = 9 \<Longrightarrow> c = Current \<and> p = screen"
    and run: "printCharactersInner x p c v = (c', v')"
  shows "shows_at p c' v' (t_char x t)" and "a < p \<or> p + 4000 \<le> a \<Longrightarrow> cmem v' a = cmem v a"
    and "(c' = Current) = (c = Current)" and "only_video v v'"
proof -
  obtain cs k where t: "t = (cs, k)" by (cases t)
  let ?body = "if x = 10 then cursor_set c (nat (int (cursor_get c v) + ((int p - int (cursor_get c v)) smod 160 + 160))) v
         else if x = 8 then backSpace p c v
         else if x = 9 then (c, printTab v)
         else cursor_set c (cursor_get c v + 2) (store (cursor_get c v + 1) DEFAULT_COLOR (store (cursor_get c v) x v))"
  obtain c1 v1 where b: "(c1, v1) = ?body" by (metis surj_pair)
  have sh': "shows_at p c v (cs, k)" and k': "k < 2000" using sh k by (simp_all add: t)
  note st = printCharacters_step [OF sh' k' tab b]
  obtain c2 v2 where c2: "checkEndOfScreen p c1 v1 = (c2, v2)" by (metis surj_pair)
  note ck = checkEndOfScreen_spec [OF c2 st(1)]
  obtain c3 v3 where c3: "checkEndOfScreen p c2 v2 = (c3, v3)" by (metis surj_pair)
  note ck2 = checkEndOfScreen_spec [OF c3 ck(1)]
  have "(c', v') = (if x = 10 then (c3, v3) else (c2, v2))"
    using run b c2 c3 by (auto simp: printCharactersInner_def myNewLine_def Let_def split: prod.splits if_splits)
  then have e: "c' = (if x = 10 then c3 else c2)" "v' = (if x = 10 then v3 else v2)" by (auto split: if_splits)
  show "shows_at p c' v' (t_char x t)"
    using ck(1) ck2(1) by (auto simp: e t_char_def t)
  show "a < p \<or> p + 4000 \<le> a \<Longrightarrow> cmem v' a = cmem v a"
    using st(2) ck(2) ck2(2) by (simp add: e)
  show "(c' = Current) = (c = Current)" using st(3) ck(3) ck2(3) by (simp add: e)
  show "only_video v v'" using only_video_trans [OF st(4) ck(4)] only_video_trans [OF _ ck2(4)] by (auto simp: e)
qed

lemma divisorLoop_stuck: "k > 1 \<Longrightarrow> divisorLoop k d = None"
proof -
  have "divisorLoop k d = Some r \<Longrightarrow> k > 1 \<longrightarrow> False" for k d r
  proof (erule divisorLoop.raw_induct [rotated], intro impI)
    fix f k d r
    assume ih: "\<And>k d r. f k d = Some r \<Longrightarrow> k > 1 \<longrightarrow> False"
      and run: "(if k - 1 > 0 then f k (d * 10) else Some d) = Some r" and k: "k > (1 :: int)"
    then show False using ih [of k "d * 10" r] by simp
  qed
  then show "k > 1 \<Longrightarrow> divisorLoop k d = None" by (cases "divisorLoop k d") auto
qed

subsection \<open>Properties\<close>

text \<open>C25. Printing a character on the video screen is the step of an abstract terminal of 80 by 25
  cells: the character is stored and the cursor advances, a line feed goes to the next line, a backspace
  erases, a tabulator goes to the next multiple of twelve of the column, and when the cursor leaves the
  screen all lines move up.  No byte outside the video memory changes, and nothing but the memory and the
  cursor does.\<close>

theorem printCharacters_is_terminal_step:
  assumes "shows_at 0xB8000 Current v t" and "snd t < 2000"
  shows "shows_at 0xB8000 Current (printCharacters x v) (t_char x t) \<and> snd (t_char x t) < 2000
    \<and> (\<forall>a. a < 0xB8000 \<or> 0xB8000 + 4000 \<le> a \<longrightarrow> cmem (printCharacters x v) a = cmem v a)
    \<and> only_video v (printCharacters x v)"
proof -
  obtain c' v' where r: "printCharactersInner x 0xB8000 Current v = (c', v')" by (metis surj_pair)
  note s = printCharactersInner_spec [OF assms _ r]
  have "c' = Current" using s(3) by simp
  moreover have "v' = printCharacters x v" by (simp add: printCharacters_def r)
  ultimately show ?thesis using s(1,2,4) t_char_bound by auto
qed

definition with_vstate :: "addr \<Rightarrow> cstate \<Rightarrow> vstate" where
  "with_vstate p s = cstate.extend s (vstate.fields p)"

lemma with_vstate_select [simp]:
  shows "currentPosition (with_vstate p s) = p" and "cmem (with_vstate p s) = cmem s"
    and "usedMap (with_vstate p s) = usedMap s" and "snodes (with_vstate p s) = snodes s"
    and "procs (with_vstate p s) = procs s" and "libs (with_vstate p s) = libs s"
    and "threads (with_vstate p s) = threads s" and "processQueue (with_vstate p s) = processQueue s"
    and "currentProcess (with_vstate p s) = currentProcess s" and "initMem (with_vstate p s) = initMem s"
    and "blocksAmount (with_vstate p s) = blocksAmount s"
  by (simp_all add: with_vstate_def cstate.extend_def vstate.fields_def)

definition blank_video :: vstate where
  "blank_video = clearScreen (with_vstate 0 (with_cmem (\<lambda>_. 0) demo))"

lemma blank_video_shows: "shows_at 0xB8000 Current blank_video (replicate 2000 (SPACE, DEFAULT_COLOR), 0)"
proof -
  have "cells (cmem blank_video) 0xB8000 = replicate 2000 (SPACE, DEFAULT_COLOR)"
    by (rule cells_eqI) (simp_all add: blank_video_def clearScreen_def clear_def for_store_const)
  moreover have "cursor_get Current blank_video = 0xB8000"
    by (simp add: blank_video_def clearScreen_def cursor_get_def)
  ultimately show ?thesis by (simp add: shows_at_def)
qed

theorem printCharacters_is_terminal_step_witness:
  "shows_at 0xB8000 Current (printCharacters 65 blank_video) (t_char 65 (replicate 2000 (SPACE, DEFAULT_COLOR), 0))
    \<and> t_char 65 (replicate 2000 (SPACE, DEFAULT_COLOR), 0) = ((65, DEFAULT_COLOR) # replicate 1999 (SPACE, DEFAULT_COLOR), 1)"
proof -
  have "replicate 2000 (SPACE, DEFAULT_COLOR) = (SPACE, DEFAULT_COLOR) # replicate 1999 (SPACE, DEFAULT_COLOR)"
    using replicate_Suc [of 1999 "(SPACE, DEFAULT_COLOR)"] by simp
  then have "t_char 65 (replicate 2000 (SPACE, DEFAULT_COLOR), 0) = ((65, DEFAULT_COLOR) # replicate 1999 (SPACE, DEFAULT_COLOR), 1)"
    by (simp add: t_char_def t_scroll_def)
  moreover have "shows_at 0xB8000 Current (printCharacters 65 blank_video) (t_char 65 (replicate 2000 (SPACE, DEFAULT_COLOR), 0))"
    using printCharacters_is_terminal_step [OF blank_video_shows, of 65] by simp
  ultimately show ?thesis by simp
qed

text \<open>\<open>printDec\<close> returns exactly for the numbers of at most one digit: the loop that computes the
  divisor of a longer number never changes its condition.\<close>

theorem printDec_returns_iff:
  "(\<exists>w. printDec (int n) v = Some w) \<longleftrightarrow> n < 10"
proof (cases "n < 10")
  case True
  have "length (digits n) \<le> 1"
  proof (cases "n = 0")
    case False
    then show ?thesis using digits_one [of n] True by simp
  qed simp
  then have "divisorLoop (int (intLength (int n))) 1 = Some 1"
    by (subst divisorLoop.simps) (simp add: intLength_digits)
  then show ?thesis using True by (simp add: printDec_def)
next
  case False
  then have "digits n = digits (n div 10) @ [n mod 10]" "digits (n div 10) \<noteq> []"
    by (simp_all add: digits_step [of n])
  then have "1 < int (intLength (int n))" by (cases "digits (n div 10)") (simp_all add: intLength_digits)
  then show ?thesis using False by (simp add: printDec_def divisorLoop_stuck)
qed

end
