(* ===== verification/ScreenLoader.thy ===== *)
theory ScreenLoader
  imports VideoDriver
begin

section \<open>One screen per process (\<open>screenLoader.c\<close>)\<close>

text \<open>
  The process on focus owns the video memory; the screens of the others are kept in blocks of
  their own.  The state is the doubly linked list of the screens and the identifier of the
  process on focus; the contents are in the memory.
\<close>

subsection \<open>Definitions\<close>

abbreviation (input) NO_FOCUS :: int where "NO_FOCUS \<equiv> -1"
abbreviation (input) SIZEOF_screenNode :: "64 word" where "SIZEOF_screenNode \<equiv> 40"
abbreviation (input) SCREEN_BYTES :: "64 word" where "SCREEN_BYTES \<equiv> 80 * 25 * 2 * 8"

record screenNode =
  scn_pid :: int
  scn_screen :: addr
  scn_position :: addr
  scn_next :: addr
  scn_prev :: addr

record screens =
  screenList :: addr
  onFocusPid :: int
  screenNodes :: "addr \<Rightarrow> screenNode"

definition upd_screen :: "addr \<Rightarrow> (screenNode \<Rightarrow> screenNode) \<Rightarrow> screens \<Rightarrow> screens" where
  "upd_screen a f sc = sc\<lparr>screenNodes := (screenNodes sc)(a := f (screenNodes sc a))\<rparr>"

partial_function (option) findScreenNode :: "screens \<Rightarrow> int \<Rightarrow> addr \<Rightarrow> addr option" where
  "findScreenNode sc k node =
     (if node \<noteq> NULL \<and> scn_pid (screenNodes sc node) \<noteq> k
      then findScreenNode sc k (scn_next (screenNodes sc node)) else Some node)"

definition findScreenNodeByPid :: "int \<Rightarrow> screens \<Rightarrow> addr option" where
  "findScreenNodeByPid k sc = findScreenNode sc k (screenList sc)"

definition findScreenByPid :: "int \<Rightarrow> screens \<Rightarrow> addr option" where
  "findScreenByPid k sc = do {
     node \<leftarrow> findScreenNodeByPid k sc;
     Some (if node = NULL then NULL else scn_screen (screenNodes sc node)) }"

definition newScreenNode :: "screens \<Rightarrow> 'z vstate_scheme \<Rightarrow> (addr \<times> screens \<times> 'z vstate_scheme) option" where
  "newScreenNode sc v = do {
     (node, v) \<leftarrow> allocate SIZEOF_screenNode v;
     if node = NULL then Some (NULL, sc, v)
     else do {
       (scr, v) \<leftarrow> allocate SCREEN_BYTES v;
       let sc = upd_screen node (\<lambda>n. n\<lparr>scn_screen := scr\<rparr>) sc;
       if scr = NULL then do {
         (_, v) \<leftarrow> deallocate node SIZEOF_screenNode v;
         Some (NULL, sc, v) }
       else do {
         let v = v\<lparr>cmem := clear scr (cmem v)\<rparr>;
         let sc = upd_screen node (\<lambda>n. n\<lparr>scn_position := scn_screen n\<rparr>) sc;
         Some (node, sc, v) } } }"

partial_function (option) addScreen :: "addr \<Rightarrow> addr \<Rightarrow> int \<Rightarrow> screens \<Rightarrow> 'z vstate_scheme \<Rightarrow>
    (addr \<times> screens \<times> 'z vstate_scheme) option" where
  "addScreen current prev k sc v =
     (if current = NULL then do {
        (node, sc, v) \<leftarrow> newScreenNode sc v;
        if node = NULL then Some (NULL, sc, v)
        else Some (node, upd_screen node (\<lambda>n. n\<lparr>scn_pid := k, scn_next := NULL, scn_prev := prev\<rparr>) sc, v) }
      else do {
        (r, sc, v) \<leftarrow> addScreen (scn_next (screenNodes sc current)) current k sc v;
        Some (current, upd_screen current (\<lambda>n. n\<lparr>scn_next := r\<rparr>) sc, v) })"

definition saveScreen :: "screens \<Rightarrow> 'z vstate_scheme \<Rightarrow> (screens \<times> 'z vstate_scheme) option" where
  "saveScreen sc v = do {
     onFocusNode \<leftarrow> findScreenNodeByPid (onFocusPid sc) sc;
     if onFocusNode \<noteq> NULL then do {
       let (p, v) = backupContent (scn_screen (screenNodes sc onFocusNode)) v;
       Some (upd_screen onFocusNode (\<lambda>n. n\<lparr>scn_position := p\<rparr>) sc, v) }
     else Some (sc, v) }"

definition loadScreen :: "int \<Rightarrow> screens \<Rightarrow> 'z vstate_scheme \<Rightarrow> (int \<times> screens \<times> 'z vstate_scheme) option" where
  "loadScreen k sc v = do {
     node \<leftarrow> findScreenNodeByPid k sc;
     (node, sc, v) \<leftarrow>
       (if node = NULL then do {
          (list, sc, v) \<leftarrow> addScreen (screenList sc) NULL k sc v;
          let sc = sc\<lparr>screenList := list\<rparr>;
          node \<leftarrow> findScreenNodeByPid k sc;
          Some (node, sc, v) }
        else Some (node, sc, v));
     if node = NULL then Some (0, sc, v)
     else do {
       (sc, v) \<leftarrow> saveScreen sc v;
       let v = setScreen (scn_screen (screenNodes sc node)) (scn_position (screenNodes sc node)) v;
       Some (1, sc\<lparr>onFocusPid := k\<rparr>, v) } }"

definition isCurrentProcessOnFocus :: "screens \<Rightarrow> 'z sched_scheme \<Rightarrow> bool option" where
  "isCurrentProcessOnFocus sc s = do { k \<leftarrow> getCurrentPid s; Some (onFocusPid sc = k) }"

definition getFocusProcessPid :: "screens \<Rightarrow> int" where
  "getFocusProcessPid sc = onFocusPid sc"

definition getCurrentScreenNode :: "screens \<Rightarrow> 'z vstate_scheme \<Rightarrow> (addr \<times> screens \<times> 'z vstate_scheme) option" where
  "getCurrentScreenNode sc v = do {
     k \<leftarrow> getCurrentPid v;
     node \<leftarrow> findScreenNodeByPid k sc;
     if node = NULL then addScreen (screenList sc) NULL k sc v
     else Some (node, sc, v) }"

definition getCurrentScreen :: "screens \<Rightarrow> 'z vstate_scheme \<Rightarrow> (addr \<times> screens \<times> 'z vstate_scheme) option" where
  "getCurrentScreen sc v = do {
     (node, sc, v) \<leftarrow> getCurrentScreenNode sc v;
     Some (if node = NULL then NULL else scn_screen (screenNodes sc node), sc, v) }"

definition getCurrentScreenPosition :: "screens \<Rightarrow> 'z vstate_scheme \<Rightarrow> (addr \<times> screens \<times> 'z vstate_scheme) option" where
  "getCurrentScreenPosition sc v = do {
     (node, sc, v) \<leftarrow> getCurrentScreenNode sc v;
     Some (if node = NULL then NULL else scn_position (screenNodes sc node), sc, v) }"

definition setCurrentScreenPosition :: "addr \<Rightarrow> screens \<Rightarrow> 'z vstate_scheme \<Rightarrow> (screens \<times> 'z vstate_scheme) option" where
  "setCurrentScreenPosition newPosition sc v = do {
     (node, sc, v) \<leftarrow> getCurrentScreenNode sc v;
     chk node;
     Some (upd_screen node (\<lambda>n. n\<lparr>scn_position := newPosition\<rparr>) sc, v) }"

partial_function (option) removeScreenInner :: "addr \<Rightarrow> addr \<Rightarrow> int \<Rightarrow> screens \<Rightarrow> 'z vstate_scheme \<Rightarrow>
    (addr \<times> screens \<times> 'z vstate_scheme) option" where
  "removeScreenInner currentNode prev k sc v =
     (if currentNode = NULL then Some (NULL, sc, v)
      else if scn_pid (screenNodes sc currentNode) = k then do {
        let next = scn_next (screenNodes sc currentNode);
        let sc = (if next \<noteq> NULL then upd_screen next (\<lambda>n. n\<lparr>scn_prev := prev\<rparr>) sc else sc);
        (_, v) \<leftarrow> deallocate (scn_screen (screenNodes sc currentNode)) SCREEN_BYTES v;
        (_, v) \<leftarrow> deallocate currentNode SIZEOF_screenNode v;
        Some (next, sc, v) }
      else do {
        (r, sc, v) \<leftarrow> removeScreenInner (scn_next (screenNodes sc currentNode)) currentNode k sc v;
        Some (currentNode, upd_screen currentNode (\<lambda>n. n\<lparr>scn_next := r\<rparr>) sc, v) })"

definition removeScreen :: "int \<Rightarrow> screens \<Rightarrow> 'z vstate_scheme \<Rightarrow> (screens \<times> 'z vstate_scheme) option" where
  "removeScreen k sc v = do {
     let sc = (if k = onFocusPid sc then sc\<lparr>onFocusPid := NO_FOCUS\<rparr> else sc);
     (list, sc, v) \<leftarrow> removeScreenInner (screenList sc) NULL k sc v;
     Some (sc\<lparr>screenList := list\<rparr>, v) }"

definition loadNextScreen :: "screens \<Rightarrow> 'z vstate_scheme \<Rightarrow> (screens \<times> 'z vstate_scheme) option" where
  "loadNextScreen sc v =
     (if onFocusPid sc = NO_FOCUS then Some (sc, v)
      else do {
        currentScreen \<leftarrow> findScreenNodeByPid (onFocusPid sc) sc;
        chk currentScreen;
        let next = scn_next (screenNodes sc currentScreen);
        if next \<noteq> NULL then do {
          (_, sc, v) \<leftarrow> loadScreen (scn_pid (screenNodes sc next)) sc v;
          Some (sc, v) }
        else Some (sc, v) })"

definition loadPreviousScreen :: "screens \<Rightarrow> 'z vstate_scheme \<Rightarrow> (screens \<times> 'z vstate_scheme) option" where
  "loadPreviousScreen sc v =
     (if onFocusPid sc = NO_FOCUS then Some (sc, v)
      else do {
        currentScreen \<leftarrow> findScreenNodeByPid (onFocusPid sc) sc;
        chk currentScreen;
        let prev = scn_prev (screenNodes sc currentScreen);
        if prev \<noteq> NULL then do {
          (_, sc, v) \<leftarrow> loadScreen (scn_pid (screenNodes sc prev)) sc v;
          Some (sc, v) }
        else Some (sc, v) })"

subsection \<open>The list of the screens\<close>

abbreviation scnx :: "screens \<Rightarrow> addr \<Rightarrow> addr" where
  "scnx sc \<equiv> \<lambda>a. scn_next (screenNodes sc a)"

interpretation screen_search: list_search scnx "\<lambda>sc k a. scn_pid (screenNodes sc a) = k" findScreenNode
  by unfold_locales (subst findScreenNode.simps, simp)+

text \<open>
  The screens are distinct processes' and their blocks are disjoint from each other and from the
  video memory; every cursor is inside its screen.
\<close>

definition screens_ok :: "screens \<Rightarrow> addr list \<Rightarrow> bool" where
  "screens_ok sc bs \<longleftrightarrow> chain (scnx sc) (screenList sc) bs NULL
     \<and> inj_on (\<lambda>b. scn_pid (screenNodes sc b)) (set bs)
     \<and> (\<forall>b \<in> set bs. 0xB8000 + 4000 \<le> scn_screen (screenNodes sc b)
          \<and> scn_screen (screenNodes sc b) \<le> scn_position (screenNodes sc b)
          \<and> scn_position (screenNodes sc b) < scn_screen (screenNodes sc b) + 4000)
     \<and> (\<forall>a \<in> set bs. \<forall>b \<in> set bs. a \<noteq> b \<longrightarrow>
          scn_screen (screenNodes sc a) + 4000 \<le> scn_screen (screenNodes sc b)
          \<or> scn_screen (screenNodes sc b) + 4000 \<le> scn_screen (screenNodes sc a))"

definition video_ok :: "'z vstate_scheme \<Rightarrow> bool" where
  "video_ok v \<longleftrightarrow> 0xB8000 \<le> currentPosition v \<and> currentPosition v < 0xB8000 + 4000"

definition content :: "cmem \<Rightarrow> addr \<Rightarrow> byte list" where
  "content m p = map (\<lambda>i. m (p + i)) [0..<4000]"

definition terminal_of :: "screens \<Rightarrow> 'z vstate_scheme \<Rightarrow> addr \<Rightarrow> byte list \<times> nat" where
  \<comment> \<open>the bytes of a process's screen and the offset of its cursor, wherever they are\<close>
  "terminal_of sc v b =
     (if scn_pid (screenNodes sc b) = onFocusPid sc
      then (content (cmem v) 0xB8000, currentPosition v - 0xB8000)
      else (content (cmem v) (scn_screen (screenNodes sc b)),
        scn_position (screenNodes sc b) - scn_screen (screenNodes sc b)))"

lemma findScreenNodeByPid_hit:
  assumes "screens_ok sc bs" and "b \<in> set bs"
  shows "findScreenNodeByPid (scn_pid (screenNodes sc b)) sc = Some b"
  unfolding findScreenNodeByPid_def
  using assms by (intro screen_search.search_list_hit [of sc _ bs]) (auto simp: screens_ok_def inj_on_def)

lemma findScreenNodeByPid_miss:
  assumes "screens_ok sc bs" and "\<And>b. b \<in> set bs \<Longrightarrow> scn_pid (screenNodes sc b) \<noteq> k"
  shows "findScreenNodeByPid k sc = Some NULL"
  unfolding findScreenNodeByPid_def
  using assms by (intro screen_search.search_list_miss [of sc _ bs]) (auto simp: screens_ok_def)

lemma content_cong: "(\<And>a. p \<le> a \<Longrightarrow> a < p + 4000 \<Longrightarrow> m' a = m a) \<Longrightarrow> content m' p = content m p"
  by (simp add: content_def)

lemma content_copy:
  assumes "p + 4000 \<le> q \<or> q + 4000 \<le> p"
  shows "content (for_store 4000 p (\<lambda>i m. m (q + i)) m) p = content m q"
    and "r + 4000 \<le> p \<or> p + 4000 \<le> r \<Longrightarrow> content (for_store 4000 p (\<lambda>i m. m (q + i)) m) r = content m r"
proof -
  have e: "for_store 4000 p (\<lambda>i m. m (q + i)) m = (\<lambda>a. if p \<le> a \<and> a < p + 4000 then m (q + (a - p)) else m a)"
    using assms by (intro for_store_copy) auto
  show "content (for_store 4000 p (\<lambda>i m. m (q + i)) m) p = content m q"
    unfolding e by (simp add: content_def)
  show "r + 4000 \<le> p \<or> p + 4000 \<le> r \<Longrightarrow> content (for_store 4000 p (\<lambda>i m. m (q + i)) m) r = content m r"
    unfolding e by (rule content_cong) auto
qed

lemma saveScreen_spec:
  assumes ok: "screens_ok sc bs" and v: "video_ok v"
  shows "\<exists>sc' v'. saveScreen sc v = Some (sc', v') \<and> screens_ok sc' bs \<and> onFocusPid sc' = onFocusPid sc
    \<and> currentPosition v' = currentPosition v \<and> (\<exists>m. v' = v\<lparr>cmem := m\<rparr>)
    \<and> (\<forall>b. scn_pid (screenNodes sc' b) = scn_pid (screenNodes sc b)
        \<and> scn_screen (screenNodes sc' b) = scn_screen (screenNodes sc b) \<and> scn_next (screenNodes sc' b) = scn_next (screenNodes sc b))
    \<and> (\<forall>b \<in> set bs. content (cmem v') (scn_screen (screenNodes sc b)) = fst (terminal_of sc v b)
        \<and> scn_position (screenNodes sc' b) - scn_screen (screenNodes sc b) = snd (terminal_of sc v b))"
proof (cases "\<exists>b \<in> set bs. scn_pid (screenNodes sc b) = onFocusPid sc")
  case False
  then have "findScreenNodeByPid (onFocusPid sc) sc = Some NULL" by (intro findScreenNodeByPid_miss [OF ok]) blast
  then have run: "saveScreen sc v = Some (sc, v)" by (simp add: saveScreen_def)
  have e: "\<exists>m. v = v\<lparr>cmem := m\<rparr>" by (intro exI [of _ "cmem v"]) simp
  have t: "\<forall>b \<in> set bs. content (cmem v) (scn_screen (screenNodes sc b)) = fst (terminal_of sc v b)
        \<and> scn_position (screenNodes sc b) - scn_screen (screenNodes sc b) = snd (terminal_of sc v b)"
    using False by (simp add: terminal_of_def)
  show ?thesis using run ok e t by (intro exI [of _ sc] exI [of _ v]) simp
next
  case True
  then obtain a where a: "a \<in> set bs" "scn_pid (screenNodes sc a) = onFocusPid sc" by blast
  let ?scr = "scn_screen (screenNodes sc a)"
  let ?d = "currentPosition v - 0xB8000"
  have scr: "0xB8000 + 4000 \<le> ?scr" using ok a(1) by (simp add: screens_ok_def)
  have ane: "a \<noteq> NULL" using ok a(1) chain_nonnull by (metis screens_ok_def)
  have d: "?d < 4000" "currentPosition v = 0xB8000 + ?d" using v unfolding video_ok_def by linarith+
  have dist: "nat (int ?scr + wrap32 (int (currentPosition v) - int 0xB8000)) = ?scr + ?d"
  proof -
    have "int (currentPosition v) - int 0xB8000 = int ?d" using d(2) by simp
    moreover have "wrap32 (int ?d) = int ?d" using d(1) by (intro wrap32_nat) simp
    ultimately show ?thesis by (metis nat_int of_nat_add)
  qed
  define m where "m = for_store 4000 ?scr (\<lambda>i m. m (0xB8000 + i)) (cmem v)"
  define sc' where "sc' = upd_screen a (\<lambda>n. n\<lparr>scn_position := ?scr + ?d\<rparr>) sc"
  have run: "saveScreen sc v = Some (sc', v\<lparr>cmem := m\<rparr>)"
    using findScreenNodeByPid_hit [OF ok a(1)] a(2) ane dist
    by (simp add: saveScreen_def backupContent_def Let_def sc'_def m_def)
  have sel: "scn_pid (screenNodes sc' b) = scn_pid (screenNodes sc b)"
    "scn_screen (screenNodes sc' b) = scn_screen (screenNodes sc b)" "scn_next (screenNodes sc' b) = scn_next (screenNodes sc b)"
    "scn_position (screenNodes sc' b) = (if b = a then ?scr + ?d else scn_position (screenNodes sc b))"
    "screenList sc' = screenList sc" "onFocusPid sc' = onFocusPid sc" for b
    by (simp_all add: sc'_def upd_screen_def)
  have ok': "screens_ok sc' bs" using ok d(1) by (auto simp: screens_ok_def sel)
  have other: "scn_pid (screenNodes sc b) \<noteq> onFocusPid sc" if "b \<in> set bs" "b \<noteq> a" for b
    using ok a that by (auto simp: screens_ok_def inj_on_def)
  have "content m (scn_screen (screenNodes sc b)) = fst (terminal_of sc v b)
      \<and> scn_position (screenNodes sc' b) - scn_screen (screenNodes sc b) = snd (terminal_of sc v b)"
    if b: "b \<in> set bs" for b
  proof (cases "b = a")
    case True
    then show ?thesis
      using content_copy(1) [of ?scr "0xB8000" "cmem v"] scr a(2) by (simp add: terminal_of_def sel m_def)
  next
    case False
    then have "scn_screen (screenNodes sc b) + 4000 \<le> ?scr \<or> ?scr + 4000 \<le> scn_screen (screenNodes sc b)"
      using ok a(1) b unfolding screens_ok_def by blast
    then show ?thesis
      using content_copy(2) [of ?scr "0xB8000" "scn_screen (screenNodes sc b)" "cmem v"] scr other [OF b False] False
      by (simp add: terminal_of_def sel m_def)
  qed
  then have t: "\<forall>b \<in> set bs. content (cmem (v\<lparr>cmem := m\<rparr>)) (scn_screen (screenNodes sc b)) = fst (terminal_of sc v b)
        \<and> scn_position (screenNodes sc' b) - scn_screen (screenNodes sc b) = snd (terminal_of sc v b)" by simp
  have e: "\<exists>m'. v\<lparr>cmem := m\<rparr> = v\<lparr>cmem := m'\<rparr>" by blast
  show ?thesis
    using run ok' e t sel(1-3,6) by (intro exI [of _ sc'] exI [of _ "v\<lparr>cmem := m\<rparr>"]) simp
qed

lemma setScreen_spec:
  assumes "p \<le> q" and "q < p + 4000" and "0xB8000 + 4000 \<le> p"
  shows "content (cmem (setScreen p q v)) 0xB8000 = content (cmem v) p"
    and "0xB8000 + 4000 \<le> r \<Longrightarrow> content (cmem (setScreen p q v)) r = content (cmem v) r"
    and "currentPosition (setScreen p q v) = 0xB8000 + (q - p)" and "only_video v (setScreen p q v)"
proof -
  have "int q - int p = int (q - p)" using assms(1) by simp
  moreover have "wrap32 (int (q - p)) = int (q - p)" using assms(2) by (intro wrap32_nat) simp
  ultimately have d: "nat (int 0xB8000 + wrap32 (int q - int p)) = 0xB8000 + (q - p)"
    by (metis nat_int of_nat_add)
  show "content (cmem (setScreen p q v)) 0xB8000 = content (cmem v) p"
    using content_copy(1) [of "0xB8000" p "cmem v"] assms(3) by (simp add: setScreen_def Let_def)
  show "0xB8000 + 4000 \<le> r \<Longrightarrow> content (cmem (setScreen p q v)) r = content (cmem v) r"
    using content_copy(2) [of "0xB8000" p r "cmem v"] assms(3) by (simp add: setScreen_def Let_def)
  show "currentPosition (setScreen p q v) = 0xB8000 + (q - p)"
    using d by (simp add: setScreen_def Let_def)
  show "only_video v (setScreen p q v)" unfolding setScreen_def Let_def by (rule only_video_upd)
qed

subsection \<open>Properties\<close>

text \<open>C23. Switching the focus to a process that has a screen returns 1 and loses nothing: every process
  still has the screen contents and the cursor it had, the one on focus in the video memory, the others in
  their backups.  In particular switching away and back restores the screen.\<close>

theorem loadScreen_keeps_terminals:
  assumes ok: "screens_ok sc bs" and v: "video_ok v" and b: "b \<in> set bs" and k: "k = scn_pid (screenNodes sc b)"
  shows "\<exists>sc' v'. loadScreen k sc v = Some (1, sc', v') \<and> onFocusPid sc' = k
    \<and> screens_ok sc' bs \<and> video_ok v' \<and> only_video v v'
    \<and> (\<forall>a \<in> set bs. terminal_of sc' v' a = terminal_of sc v a
        \<and> scn_pid (screenNodes sc' a) = scn_pid (screenNodes sc a))"
proof -
  obtain sc1 v1 m where s: "saveScreen sc v = Some (sc1, v1)" "screens_ok sc1 bs" "v1 = v\<lparr>cmem := m\<rparr>"
      "\<forall>b. scn_pid (screenNodes sc1 b) = scn_pid (screenNodes sc b)
        \<and> scn_screen (screenNodes sc1 b) = scn_screen (screenNodes sc b) \<and> scn_next (screenNodes sc1 b) = scn_next (screenNodes sc b)"
      "\<forall>b \<in> set bs. content (cmem v1) (scn_screen (screenNodes sc b)) = fst (terminal_of sc v b)
        \<and> scn_position (screenNodes sc1 b) - scn_screen (screenNodes sc b) = snd (terminal_of sc v b)"
    using saveScreen_spec [OF ok v] by blast
  let ?p = "scn_screen (screenNodes sc1 b)" and ?q = "scn_position (screenNodes sc1 b)"
  have pq: "?p \<le> ?q" "?q < ?p + 4000" "0xB8000 + 4000 \<le> ?p" using s(2) b by (auto simp: screens_ok_def)
  note st = setScreen_spec(1) [OF pq, of v1] setScreen_spec(2) [OF pq, of _ v1] setScreen_spec(3,4) [OF pq, of v1]
  have bne: "b \<noteq> NULL" using ok b chain_nonnull by (metis screens_ok_def)
  define v2 where "v2 = setScreen ?p ?q v1"
  define sc2 where "sc2 = sc1\<lparr>onFocusPid := k\<rparr>"
  have run: "loadScreen k sc v = Some (1, sc2, v2)"
    using findScreenNodeByPid_hit [OF ok b] s(1) bne by (simp add: loadScreen_def k sc2_def v2_def)
  have ok2: "screens_ok sc2 bs" using s(2) by (simp add: screens_ok_def sc2_def)
  have vid: "video_ok v2" using st(3) pq unfolding v2_def video_ok_def by linarith
  have "only_video v v1" unfolding s(3) by (rule only_video_intros(3))
  then have ov: "only_video v v2" using st(4) unfolding v2_def by (rule only_video_trans)
  have sel: "scn_pid (screenNodes sc2 a) = scn_pid (screenNodes sc a)"
    "scn_screen (screenNodes sc2 a) = scn_screen (screenNodes sc a)" for a
    using s(4) by (simp_all add: sc2_def)
  have "terminal_of sc2 v2 a = terminal_of sc v a" if a: "a \<in> set bs" for a
  proof -
    have t: "content (cmem v1) (scn_screen (screenNodes sc a)) = fst (terminal_of sc v a)"
      "scn_position (screenNodes sc1 a) - scn_screen (screenNodes sc a) = snd (terminal_of sc v a)"
      using s(5) a by auto
    show ?thesis
    proof (cases "a = b")
      case True
      have "content (cmem v2) 0xB8000 = fst (terminal_of sc v b)"
        using st(1) t(1) s(4) True by (simp add: v2_def)
      moreover have "currentPosition v2 - 0xB8000 = snd (terminal_of sc v b)"
        using st(3) t(2) s(4) True by (simp add: v2_def)
      moreover have "scn_pid (screenNodes sc2 a) = onFocusPid sc2" using True sel k by (simp add: sc2_def)
      ultimately show ?thesis using True by (simp add: terminal_of_def [of sc2])
    next
      case False
      then have "scn_pid (screenNodes sc a) \<noteq> k" using ok a b k by (auto simp: screens_ok_def inj_on_def)
      then have f: "scn_pid (screenNodes sc2 a) \<noteq> onFocusPid sc2" using sel by (simp add: sc2_def)
      have "0xB8000 + 4000 \<le> scn_screen (screenNodes sc a)" using ok a by (simp add: screens_ok_def)
      then have "content (cmem v2) (scn_screen (screenNodes sc a)) = fst (terminal_of sc v a)"
        using st(2) t(1) by (simp add: v2_def)
      then show ?thesis using f t(2) sel by (simp add: terminal_of_def [of sc2]) (simp add: sc2_def)
    qed
  qed
  then show ?thesis using run ok2 vid ov sel by (intro exI [of _ sc2] exI [of _ v2]) (simp add: sc2_def)
qed

text \<open>Two screens, of the processes 1 and 2, the first one on focus.\<close>

definition demo_screens :: screens where
  "demo_screens = \<lparr>screenList = 0x1010000, onFocusPid = 1, screenNodes =
     (\<lambda>_. \<lparr>scn_pid = 2, scn_screen = 0x1020000, scn_position = 0x1020000, scn_next = NULL, scn_prev = 0x1010000\<rparr>)
     (0x1010000 := \<lparr>scn_pid = 1, scn_screen = 0x1018000, scn_position = 0x1018000, scn_next = 0x1011000, scn_prev = NULL\<rparr>)\<rparr>"

lemma demo_screens_ok: "screens_ok demo_screens [0x1010000, 0x1011000]"
  by (simp add: screens_ok_def demo_screens_def inj_on_def)

lemma blank_video_ok: "video_ok blank_video"
  by (simp add: video_ok_def blank_video_def clearScreen_def)

theorem loadScreen_keeps_terminals_witness:
  "\<exists>sc' v'. loadScreen 2 demo_screens blank_video = Some (1, sc', v') \<and> onFocusPid sc' = 2
    \<and> terminal_of sc' v' 0x1010000 = terminal_of demo_screens blank_video 0x1010000"
  using loadScreen_keeps_terminals [OF demo_screens_ok blank_video_ok, of "0x1011000" 2]
  by (auto simp: demo_screens_def)

text \<open>A recursive append returns the head of the list it was given.\<close>

lemma newScreenNode_total:
  assumes "mm_inv v"
  shows "\<exists>r. newScreenNode sc v = Some r"
proof -
  have sane: "sane_request SIZEOF_screenNode" "sane_request SCREEN_BYTES"
    and one: "npages SIZEOF_screenNode = 1"
    by (simp_all add: sane_request_def npages_def ceil_div_def)
  obtain a v1 where a: "allocate SIZEOF_screenNode v = Some (a, v1)" "mm_inv v1"
      "a = NULL \<or> owned_pages v1 = owned_pages v \<union> span a SIZEOF_screenNode"
    using allocate_contract [OF assms sane(1)] by blast
  obtain b v2 where b: "allocate SCREEN_BYTES v1 = Some (b, v2)" "b = NULL \<Longrightarrow> v2 = v1"
    using allocate_contract [OF a(2) sane(2)] by blast
  have "\<exists>t. deallocate a SIZEOF_screenNode v1 = Some (1, t)" if "a \<noteq> NULL"
  proof -
    have "span a SIZEOF_screenNode \<subseteq> owned_pages v1" using a(3) that by blast
    then show ?thesis using deallocate_contract [OF a(2) sane(1)] by blast
  qed
  then show ?thesis using a(1) b by (auto simp: newScreenNode_def Let_def)
qed

lemma addScreen_total:
  assumes "chain (scnx sc) c bs NULL" and "mm_inv v"
  shows "\<exists>sc' v' r. addScreen c prev k sc v = Some (r, sc', v') \<and> (bs \<noteq> [] \<longrightarrow> r = c)"
  using assms
proof (induction bs arbitrary: c prev)
  case Nil
  then show ?case using newScreenNode_total [OF Nil.prems(2), of sc] by (subst addScreen.simps) auto
next
  case (Cons b bs)
  then have c: "c = b" "b \<noteq> NULL" "chain (scnx sc) (scnx sc b) bs NULL" by auto
  then show ?case using Cons.IH [OF c(3) Cons.prems(2), of b] by (subst addScreen.simps) auto
qed

text \<open>For a process that has no screen, \<open>getCurrentScreenNode\<close> takes the result of \<open>addScreen\<close>, which is
  the head of the list, for the new node: what the process prints goes to the screen of the process that is
  first in the list.\<close>

theorem new_screen_is_somebody_elses:
  assumes ok: "screens_ok sc (b # bs)" and mm: "mm_inv v" and current: "getCurrentPid v = Some k"
    and none: "\<And>a. a \<in> set (b # bs) \<Longrightarrow> scn_pid (screenNodes sc a) \<noteq> k"
  shows "\<exists>sc' v'. getCurrentScreenNode sc v = Some (b, sc', v') \<and> scn_pid (screenNodes sc b) \<noteq> k"
proof -
  have ch: "chain (scnx sc) (screenList sc) (b # bs) NULL" using ok by (simp add: screens_ok_def)
  have "findScreenNodeByPid k sc = Some NULL" by (rule findScreenNodeByPid_miss [OF ok none])
  then show ?thesis
    using addScreen_total [OF ch mm, of NULL k] ch current none by (auto simp: getCurrentScreenNode_def)
qed

theorem new_screen_is_somebody_elses_witness:
  "\<exists>sc' v'. getCurrentScreenNode demo_screens blank_video = Some (0x1010000, sc', v')
    \<and> scn_pid (screenNodes demo_screens 0x1010000) = 1 \<and> getCurrentPid blank_video = Some 0"
proof -
  have "getCurrentPid blank_video = Some 0"
    by (simp add: getCurrentPid_def blank_video_def clearScreen_def demo_select demo_proc_def)
  moreover have "mm_inv blank_video"
    using demo_pages_mm [of 12] by (simp add: blank_video_def clearScreen_def demo_pages_def mm_inv_def demo_mm)
  ultimately show ?thesis
    using new_screen_is_somebody_elses [OF demo_screens_ok, of blank_video 0]
    by (auto simp: demo_screens_def)
qed

end
