(* ===== verification/Keyboard.thy ===== *)
theory Keyboard
  imports ScreenLoader RingBuffer
begin

section \<open>The keyboard (\<open>keyBoadDriver.c\<close>)\<close>

text \<open>
  The scan code comes from the controller's port, so the handler takes it (and the controller's
  ready flag) as an argument, a value between 0 and 255.  Characters wait in a ring of 100
  numbers in which 0 marks a free place.
\<close>

subsection \<open>Definitions\<close>

abbreviation (input) BUFFER_SIZE :: nat where "BUFFER_SIZE \<equiv> 100"
abbreviation (input) L_SHIFT_PRESSED :: int where "L_SHIFT_PRESSED \<equiv> 0x2A"
abbreviation (input) L_SHIFT_RELEASED :: int where "L_SHIFT_RELEASED \<equiv> 0xAA"
abbreviation (input) R_SHIFT_PRESSED :: int where "R_SHIFT_PRESSED \<equiv> 0x36"
abbreviation (input) R_SHIFT_RELEASED :: int where "R_SHIFT_RELEASED \<equiv> 0xB6"
abbreviation (input) CAPS_LOCK_PRESSED :: int where "CAPS_LOCK_PRESSED \<equiv> 0x3A"
abbreviation (input) ALT_PRESSED :: int where "ALT_PRESSED \<equiv> 0x38"
abbreviation (input) ALT_RELEASED :: int where "ALT_RELEASED \<equiv> 0xB8"
abbreviation (input) L_ARROW_PRESSED :: int where "L_ARROW_PRESSED \<equiv> 0x4B"
abbreviation (input) R_ARROW_PRESSED :: int where "R_ARROW_PRESSED \<equiv> 0x4D"

definition lKeyboard :: "int list" where
  "lKeyboard =
     [0, 96, 49, 50, 51, 52, 53, 54, 55, 56, 57, 48, 45, 61, 8, 9, 113, 119, 101, 114, 116,
      121, 117, 105, 111, 112, 91, 93, 10, 0, 97, 115, 100, 102, 103, 104, 106, 107, 108, 59,
      39, 92, 0, 0, 122, 120, 99, 118, 98, 110, 109, 44, 46, 47, 0, 0, 0, 32] @ replicate 70 0"

definition uKeyboard :: "int list" where
  "uKeyboard =
     [0, 126, 33, 64, 35, 36, 37, 94, 38, 42, 40, 41, 95, 43, 8, 9, 81, 87, 69, 82, 84, 89,
      85, 73, 79, 80, 123, 125, 10, 0, 65, 83, 68, 70, 71, 72, 74, 75, 76, 58, 34, 124, 0, 0,
      90, 88, 67, 86, 66, 78, 77, 60, 62, 63, 0, 0, 0, 32] @ replicate 70 0"

record keyboard =
  kb_buffer :: "nat \<Rightarrow> int"
  kb_current :: nat
  kb_last :: nat
  uppercase :: int
  altKey :: bool

definition checkSwapScreen :: "int \<Rightarrow> keyboard \<Rightarrow> screens \<Rightarrow> 'z vstate_scheme \<Rightarrow>
    (keyboard \<times> screens \<times> 'z vstate_scheme) option" where
  "checkSwapScreen key kb sc v = do {
     let kb = (if key = ALT_PRESSED then kb\<lparr>altKey := True\<rparr>
               else if key = ALT_RELEASED then kb\<lparr>altKey := False\<rparr> else kb);
     (sc, v) \<leftarrow> (if altKey kb \<and> key = L_ARROW_PRESSED then loadPreviousScreen sc v else Some (sc, v));
     (sc, v) \<leftarrow> (if altKey kb \<and> key = R_ARROW_PRESSED then loadNextScreen sc v else Some (sc, v));
     Some (kb, sc, v) }"

definition shiftKey :: "int \<Rightarrow> keyboard \<Rightarrow> keyboard" where
  "shiftKey key kb =
     (if key = L_SHIFT_PRESSED \<or> key = R_SHIFT_PRESSED then kb\<lparr>uppercase := uppercase kb * -1\<rparr>
      else if key = L_SHIFT_RELEASED \<or> key = R_SHIFT_RELEASED then kb\<lparr>uppercase := uppercase kb * -1\<rparr>
      else if key = CAPS_LOCK_PRESSED then kb\<lparr>uppercase := uppercase kb * -1\<rparr>
      else kb)"

definition keyBoardHandler :: "bool \<Rightarrow> int \<Rightarrow> keyboard \<Rightarrow> screens \<Rightarrow> 'z vstate_scheme \<Rightarrow>
    (keyboard \<times> screens \<times> 'z vstate_scheme) option" where
  "keyBoardHandler ready key kb sc v =
     (if ready then do {
        let kb = shiftKey key kb;
        (kb, sc, v) \<leftarrow> checkSwapScreen key kb sc v;
        if 128 \<le> key then Some (kb, sc, v)
        else do {
          let character = (if uppercase kb = -1 then uKeyboard ! nat key else lKeyboard ! nat key);
          if kb_buffer kb (kb_last kb) = 0 \<and> character \<noteq> 0 then do {
            let kb = kb\<lparr>kb_buffer := (kb_buffer kb)(kb_last kb := character), kb_last := kb_last kb + 1\<rparr>;
            v \<leftarrow> unblockAllThreads (getFocusProcessPid sc) T_BLOCKED_IO v;
            let kb = (if BUFFER_SIZE \<le> kb_last kb then kb\<lparr>kb_last := 0\<rparr> else kb);
            Some (kb, sc, v) }
          else Some (kb, sc, v) } }
      else Some (kb, sc, v))"

definition getKey :: "keyboard \<Rightarrow> int \<times> keyboard" where
  "getKey kb =
     (if kb_buffer kb (kb_current kb) = 0 then (0, kb)
      else let character = kb_buffer kb (kb_current kb);
               kb = kb\<lparr>kb_buffer := (kb_buffer kb)(kb_current kb := 0), kb_current := kb_current kb + 1\<rparr>;
               kb = (if BUFFER_SIZE \<le> kb_current kb then kb\<lparr>kb_current := 0\<rparr> else kb)
           in (character, kb))"

subsection \<open>The buffer is a bounded queue\<close>

definition putKey :: "int \<Rightarrow> keyboard \<Rightarrow> keyboard" where
  \<comment> \<open>what the handler does with a character\<close>
  "putKey character kb =
     (if kb_buffer kb (kb_last kb) = 0 \<and> character \<noteq> 0
      then kb\<lparr>kb_buffer := (kb_buffer kb)(kb_last kb := character),
              kb_last := if BUFFER_SIZE \<le> kb_last kb + 1 then 0 else kb_last kb + 1\<rparr>
      else kb)"

interpretation keys: zero_ring BUFFER_SIZE "\<lambda>_. True" kb_buffer kb_current kb_last putKey getKey
  by unfold_locales (auto simp: putKey_def getKey_def bump_def)

definition is_control :: "int \<Rightarrow> bool" where
  "is_control key \<longleftrightarrow> key \<in> {L_SHIFT_PRESSED, R_SHIFT_PRESSED, CAPS_LOCK_PRESSED, ALT_PRESSED, L_ARROW_PRESSED, R_ARROW_PRESSED}"

definition key_char :: "keyboard \<Rightarrow> int \<Rightarrow> int" where
  "key_char kb key = (if uppercase kb = -1 then uKeyboard ! nat key else lKeyboard ! nat key)"

lemma keyBoardHandler_char:
  assumes key: "0 \<le> key" "key < 128" "\<not> is_control key" and char: "key_char kb key \<noteq> 0"
    and free: "kb_buffer kb (kb_last kb) = 0"
    and wake: "unblockAllThreads (onFocusPid sc) T_BLOCKED_IO v = Some w"
  shows "keyBoardHandler True key kb sc v = Some (putKey (key_char kb key) kb, sc, w)"
proof -
  have "shiftKey key kb = kb" using key by (auto simp: shiftKey_def is_control_def)
  moreover have "checkSwapScreen key kb sc v = Some (kb, sc, v)"
    using key by (auto simp: checkSwapScreen_def is_control_def)
  ultimately show ?thesis
    using key(2) char free wake
    by (simp add: keyBoardHandler_def key_char_def putKey_def getFocusProcessPid_def Let_def)
qed

lemma unblockAll_only:
  assumes "sched_inv v qs ths" and "n \<in> set qs" and "k = pid (procs v (proc_at v n))"
  shows "\<exists>w. unblockAllThreads k bt v = Some w \<and> sched_inv w qs ths \<and> wakes bt n ths v w \<and> cmem w = cmem v"
  using unblockAll_wakes [OF assms] unblockAll_cmem [OF assms] by blast

subsection \<open>Properties\<close>

text \<open>C26. A key that has a character appends it to the queue of the keyboard, in the case that shift and
  caps lock select, and makes the threads of the process on focus that wait for input ready; when 100
  characters wait, the key is dropped.  \<open>getKey\<close> takes the characters out in the order they were typed and
  returns 0 when there is none.\<close>

theorem keyboard_is_fifo:
  assumes q: "keys.holds kb q" and key: "0 \<le> key" "key < 128" "\<not> is_control key" "key_char kb key \<noteq> 0"
    and inv: "sched_inv v qs ths" and n: "n \<in> set qs" "pid (procs v (proc_at v n)) = onFocusPid sc"
  shows "\<exists>kb' w. keyBoardHandler True key kb sc v = Some (kb', sc, w) \<and> uppercase kb' = uppercase kb
    \<and> keys.holds kb' (if length q < 100 then q @ [key_char kb key] else q)
    \<and> (if length q < 100 then wakes T_BLOCKED_IO n ths v w else w = v) \<and> sched_inv w qs ths
    \<and> fst (getKey kb) = (case q of [] \<Rightarrow> 0 | x # _ \<Rightarrow> x) \<and> keys.holds (snd (getKey kb)) (tl q)"
proof -
  have put: "keys.holds (putKey (key_char kb key) kb) (if length q < 100 then q @ [key_char kb key] else q)"
    using keys.put_holds [OF q key(4)] .
  have up: "uppercase (putKey x kb) = uppercase kb" for x by (simp add: putKey_def)
  have free: "kb_buffer kb (kb_last kb) = 0 \<longleftrightarrow> length q < 100"
    using q ring_write_free [of BUFFER_SIZE "kb_buffer kb" "kb_current kb" "kb_last kb" q]
    by (simp add: keys.holds_def)
  note get = keys.get_holds [OF q]
  show ?thesis
  proof (cases "length q < 100")
    case True
    obtain w where w: "unblockAllThreads (onFocusPid sc) T_BLOCKED_IO v = Some w" "sched_inv w qs ths"
        "wakes T_BLOCKED_IO n ths v w"
      using unblockAll_only [OF inv n(1) n(2) [symmetric]] by blast
    have "keyBoardHandler True key kb sc v = Some (putKey (key_char kb key) kb, sc, w)"
      using key free True w(1) by (intro keyBoardHandler_char) auto
    then show ?thesis using put up w True get by (intro exI [of _ "putKey (key_char kb key) kb"] exI [of _ w]) simp
  next
    case False
    have "shiftKey key kb = kb" using key by (auto simp: shiftKey_def is_control_def)
    moreover have "checkSwapScreen key kb sc v = Some (kb, sc, v)"
      using key by (auto simp: checkSwapScreen_def is_control_def)
    ultimately have "keyBoardHandler True key kb sc v = Some (kb, sc, v)"
      using key(2) free False by (simp add: keyBoardHandler_def Let_def)
    then show ?thesis using q False inv get by (intro exI [of _ kb] exI [of _ v]) simp
  qed
qed

definition demo_keyboard :: keyboard where
  "demo_keyboard = \<lparr>kb_buffer = (\<lambda>_. 0), kb_current = 0, kb_last = 0, uppercase = 1, altKey = False\<rparr>"

lemma demo_keyboard_holds: "keys.holds demo_keyboard []"
  by (simp add: keys.holds_def demo_keyboard_def ring_holds_empty)

lemma blank_video_sched: "sched_inv blank_video demo_queue demo_threads"
  using demo_inv
  by (simp add: sched_inv_def running_inv_def sched_wf_def proc_ring_def threads_ok_def thread_ring_def
      blank_video_def clearScreen_def owned_pages_def used_pages_def page_addr_def [abs_def])

theorem keyboard_is_fifo_witness:
  "\<exists>kb' w. keyBoardHandler True 0x1E demo_keyboard demo_screens blank_video = Some (kb', demo_screens, w)
    \<and> keys.holds kb' [97] \<and> wakes T_BLOCKED_IO 0x1002000 demo_threads blank_video w"
proof -
  have c: "key_char demo_keyboard 0x1E = 97" by (simp add: key_char_def demo_keyboard_def lKeyboard_def)
  have "pid (procs blank_video (proc_at blank_video 0x1002000)) = onFocusPid demo_screens"
    by (simp add: blank_video_def clearScreen_def demo_select demo_proc_def demo_screens_def)
  then show ?thesis
    using keyboard_is_fifo [OF demo_keyboard_holds, of "0x1E" blank_video demo_queue demo_threads "0x1002000" demo_screens]
      blank_video_sched by (auto simp: c is_control_def demo_nodes)
qed

end
