(* ===== verification/Ps.thy ===== *)
theory Ps
  imports VideoDriver
begin

section \<open>Listing the processes (\<open>scheduler.c\<close>, \<open>process.c\<close>)\<close>

text \<open>
  The listing walks the ring of the processes twice, to count and to print.  Neither function
  initialises its counter \<open>i\<close>: the values come with the other uninitialised variables, \<open>uninit\<close>.
\<close>

subsection \<open>Definitions\<close>

abbreviation (input) lit :: "string \<Rightarrow> byte list" where
  "lit s \<equiv> map of_char s"

definition getStatus :: "processState \<Rightarrow> byte list" where
  "getStatus state =
     (case state of
        READY \<Rightarrow> lit ''READY''
      | RUNNING \<Rightarrow> lit ''RUNNING''
      | BLOCKED_IO \<Rightarrow> lit ''BLOCKED'' | BLOCKED_MUTEX \<Rightarrow> lit ''BLOCKED'' | BLOCKED_PIPE \<Rightarrow> lit ''BLOCKED''
      | DEAD \<Rightarrow> lit ''DEAD'')"

definition printProcessInfo :: "addr \<Rightarrow> 'z vstate_scheme \<Rightarrow> 'z vstate_scheme option" where
  "printProcessInfo process v = do {
     p \<leftarrow> get_proc v process;
     v \<leftarrow> printDec (pid p) v;
     let v = printTab v;
     let v = print (takeWhile (\<lambda>c. c \<noteq> 0) (names v (p_name p))) v;
     let v = printTab v;
     v \<leftarrow> printDec (threadSize p) v;
     let v = printTab v;
     v \<leftarrow> printDec (ppid p) v;
     let v = printTab v;
     let v = print (getStatus (p_state p)) v;
     Some (newLine v) }"

record ps_counts =
  c_process :: int
  c_blocked :: int
  c_running :: int
  c_ready :: int
  c_threads :: int

definition count_process :: "processNode \<Rightarrow> ps_counts \<Rightarrow> ps_counts" where
  \<comment> \<open>the body of the loop of \<open>printPsHeader\<close>\<close>
  "count_process p c =
     (let c = c\<lparr>c_process := c_process c + 1\<rparr>;
          c = (if isProcessBlocked (p_state p) then c\<lparr>c_blocked := c_blocked c + 1\<rparr>
               else if p_state p = RUNNING then c\<lparr>c_running := c_running c + 1\<rparr>
               else if p_state p = READY then c\<lparr>c_ready := c_ready c + 1\<rparr>
               else c)
      in c\<lparr>c_threads := c_threads c + threadSize p\<rparr>)"

function countLoop :: "int \<Rightarrow> addr \<Rightarrow> ps_counts \<Rightarrow> 'z sched_scheme \<Rightarrow> ps_counts option" where
  "countLoop i current c s =
     (if i < queueSize s then do {
        node \<leftarrow> get_snode s current;
        p \<leftarrow> get_proc s (sn_process node);
        countLoop (i + 1) (sn_next node) (count_process p c) s }
      else Some c)"
  by auto
termination by (relation "measure (\<lambda>(i, _, _, s). nat (queueSize s - i))") auto

declare countLoop.simps [simp del]

definition printPsHeader :: "uninit \<Rightarrow> 'z vstate_scheme \<Rightarrow> 'z vstate_scheme option" where
  "printPsHeader u v = do {
     c \<leftarrow> countLoop (i_header u) (processQueue v)
            \<lparr>c_process = 0, c_blocked = 0, c_running = 0, c_ready = 0, c_threads = 0\<rparr> v;
     let v = newLine v;
     let v = print (lit ''Processses: '') v;
     v \<leftarrow> printDec (c_process c) v;
     let v = print (lit '' total, '') v;
     v \<leftarrow> printDec (c_running c) v;
     let v = print (lit '' running, '') v;
     v \<leftarrow> printDec (c_ready c) v;
     let v = print (lit '' ready, '') v;
     v \<leftarrow> printDec (c_blocked c) v;
     let v = print (lit '' blocked'') v;
     let v = newLine v;
     let v = print (lit ''Threads: '') v;
     v \<leftarrow> printDec (c_threads c) v;
     let v = print (lit '' total'') v;
     let v = newLine (newLine v);
     let v = printTab (print (lit ''PID'') v);
     let v = printTab (print (lit ''Command'') v);
     let v = printTab (print (lit ''#Threads'') v);
     let v = printTab (print (lit ''PPID'') v);
     let v = print (lit ''State'') v;
     Some (newLine v) }"

subsection \<open>Printing leaves the processes alone\<close>

lemma checkEnd_only: "only_video v (snd (checkEndOfScreen p c v))"
  using moveScreenUp_spec(5) [of p c v] by (simp add: checkEndOfScreen_def) (metis surj_pair snd_conv)

lemma myNewLine_only: "only_video v (snd (myNewLine p c v))"
  using only_video_trans [OF only_video_intros(1) checkEnd_only]
  by (simp add: myNewLine_def Let_def case_prod_beta)

lemma newLine_only: "only_video v (newLine v)"
  by (simp add: newLine_def myNewLine_only)

lemma printTab_only: "only_video v (printTab v)"
  by (simp add: printTab_def myPrintTab_def Let_def)

lemma printCharacters_only: "only_video v (printCharacters x v)"
proof -
  have b: "only_video v (snd (backSpace screen Current v))"
    by (simp add: backSpace_def Let_def case_prod_beta)
      (intro impI, rule only_video_trans [OF only_video_intros(1) only_video_intros(2)])
  have c: "only_video v (snd (cursor_set Current q (store r DEFAULT_COLOR (store p x v))))" for p q r
    by (rule only_video_trans [OF _ only_video_intros(1)], rule only_video_trans [OF only_video_intros(2) only_video_intros(2)])
  have "only_video v (snd (if x = 10 then myNewLine screen Current v
        else if x = 8 then backSpace screen Current v
        else if x = 9 then (Current, printTab v)
        else cursor_set Current (cursor_get Current v + 2)
          (store (cursor_get Current v + 1) DEFAULT_COLOR (store (cursor_get Current v) x v))))"
    using myNewLine_only [of v screen Current] b printTab_only [of v] c by simp
  then show ?thesis unfolding printCharacters_def printCharactersInner_def Let_def case_prod_beta
    by (rule only_video_trans [OF _ checkEnd_only])
qed

lemma print_only: "only_video v (print xs v)"
proof (induction xs arbitrary: v)
  case (Cons x xs)
  have ck: "only_video w (snd (checkEndOfScreen screen Current w))" for w :: "'a vstate_scheme"
    using moveScreenUp_spec(5) [of screen Current w] by (simp add: checkEndOfScreen_def) (metis surj_pair snd_conv)
  have "only_video v (snd (checkEndOfScreen screen Current (store (currentPosition v + 1) DEFAULT_COLOR
      (store (currentPosition v) x v\<lparr>currentPosition := currentPosition v + 1\<rparr>)\<lparr>currentPosition := currentPosition v + 1 + 1\<rparr>)))"
    by (rule only_video_trans [OF _ ck], rule only_video_trans [OF _ only_video_intros(4)],
        rule only_video_trans [OF _ only_video_intros(2)], rule only_video_trans [OF only_video_intros(2) only_video_intros(4)])
  then show ?case using only_video_trans [OF _ Cons.IH] by (simp add: Let_def store_def)
qed simp

lemma printDigits_only: "only_video v (printDigits n d v)"
proof (induction n d v rule: printDigits.induct)
  case (1 n d v)
  show ?case
  proof (cases "d = 0")
    case True
    then show ?thesis by (subst printDigits.simps) simp
  next
    case False
    then show ?thesis using only_video_trans [OF printCharacters_only 1 [OF False]] by (subst printDigits.simps) simp
  qed
qed

lemma printDec_only: "printDec n v = Some w \<Longrightarrow> only_video v w"
  by (auto simp: printDec_def bind_eq_Some_conv printDigits_only)

lemma intLengthLoop_le: "k \<le> intLengthLoop n k"
proof (induction n k rule: intLengthLoop.induct)
  case (1 n k)
  show ?case
  proof (cases "n = 0")
    case False
    then have "intLengthLoop n k = intLengthLoop (n sdiv 10) (k + 1)" by (subst intLengthLoop.simps) simp
    then show ?thesis using 1 [OF False] by simp
  qed (subst intLengthLoop.simps, simp)
qed

lemma intLength_one: "intLength n \<le> 1 \<longleftrightarrow> \<bar>n\<bar> < 10"
proof (cases "n = 0")
  case False
  have d: "n sdiv 10 = 0 \<longleftrightarrow> \<bar>n\<bar> < 10"
    using False by (auto simp: signed_divide_int_def sgn_if)
  have "intLength n = intLengthLoop (n sdiv 10) 1" using False unfolding intLength_def by (subst intLengthLoop.simps) simp
  also have "\<dots> = (if \<bar>n\<bar> < 10 then 1 else intLengthLoop (n sdiv 10 sdiv 10) 2)"
    using d by (subst intLengthLoop.simps) (simp add: numeral_2_eq_2)
  finally show ?thesis using intLengthLoop_le [of 2 "n sdiv 10 sdiv 10"] by simp
qed simp

lemma printDec_iff: "(\<exists>w. printDec n v = Some w) \<longleftrightarrow> \<bar>n\<bar> < 10"
proof (cases "\<bar>n\<bar> < 10")
  case True
  then have "divisorLoop (int (intLength n)) 1 = Some 1"
    using intLength_one [of n] by (subst divisorLoop.simps) simp
  then show ?thesis using True by (simp add: printDec_def)
next
  case False
  then show ?thesis using intLength_one [of n] by (simp add: printDec_def divisorLoop_stuck)
qed

lemma only_video_sched:
  assumes "only_video v w"
  shows "procs w = procs v" and "snodes w = snodes v" and "queueSize w = queueSize v" and "processQueue w = processQueue v"
  using assms by (auto simp: only_video_def)

subsection \<open>The listing\<close>

definition numbers_short :: "processNode \<Rightarrow> bool" where
  \<comment> \<open>the three numbers of a line have one digit\<close>
  "numbers_short p \<longleftrightarrow> \<bar>pid p\<bar> < 10 \<and> \<bar>threadSize p\<bar> < 10 \<and> \<bar>ppid p\<bar> < 10"

lemma printProcessInfo_iff:
  assumes "p \<noteq> NULL"
  shows "(\<exists>w. printProcessInfo p v = Some w) \<longleftrightarrow> numbers_short (procs v p)"
proof -
  have ex: "(\<exists>w. Option.bind (printDec n v) f = Some w) \<longleftrightarrow> \<bar>n\<bar> < 10 \<and> (\<exists>x. printDec n v = Some x \<and> (\<exists>w. f x = Some w))"
    for n and v :: "'a vstate_scheme" and f :: "'a vstate_scheme \<Rightarrow> 'a vstate_scheme option"
    using printDec_iff [of n v] by (auto simp: bind_eq_Some_conv)
  have got: "(\<exists>x. printDec n v = Some x) \<longleftrightarrow> \<bar>n\<bar> < 10" for n and v :: "'a vstate_scheme"
    by (rule printDec_iff)
  show ?thesis using assms got by (simp add: printProcessInfo_def ex numbers_short_def Let_def)
qed

text \<open>One rule per printing function, applied from the first call on.\<close>

lemma only_steps:
  shows only_print: "only_video (print xs v) w \<Longrightarrow> only_video v w"
    and only_tab: "only_video (printTab v) w \<Longrightarrow> only_video v w"
    and only_line: "only_video (newLine v) w \<Longrightarrow> only_video v w"
  using only_video_trans print_only printTab_only newLine_only by blast+

lemma only_dec:
  assumes "Option.bind (printDec n v) f = Some w" and "\<And>x. f x = Some w \<Longrightarrow> only_video x w"
  shows "only_video v w"
proof -
  obtain y where y: "printDec n v = Some y" "f y = Some w" using assms(1) by (auto simp: bind_eq_Some_conv)
  show ?thesis by (rule only_video_trans [OF printDec_only [OF y(1)] assms(2) [OF y(2)]])
qed

lemma printProcessInfo_only:
  assumes "printProcessInfo p v = Some w"
  shows "only_video v w"
proof (cases "p = NULL")
  case False
  then obtain x y z where
    x: "printDec (pid (procs v p)) v = Some x"
    and y: "printDec (threadSize (procs v p)) (printTab (print (takeWhile (\<lambda>c. c \<noteq> 0)
          (names (printTab x) (p_name (procs v p)))) (printTab x))) = Some y"
    and z: "printDec (ppid (procs v p)) (printTab y) = Some z"
    and w: "w = newLine (print (getStatus (p_state (procs v p))) (printTab z))"
    using assms by (auto simp: printProcessInfo_def Let_def bind_eq_Some_conv)
  note xy = only_tab [OF only_print [OF only_tab [OF printDec_only [OF y]]]]
  note yz = only_tab [OF printDec_only [OF z]]
  have "only_video z w" unfolding w by (rule only_tab, rule only_print, rule newLine_only)
  then show ?thesis by (rule only_video_trans [OF printDec_only [OF x] only_video_trans [OF xy only_video_trans [OF yz]]])
qed (use assms in \<open>simp add: printProcessInfo_def\<close>)

function psLoop :: "int \<Rightarrow> addr \<Rightarrow> 'z vstate_scheme \<Rightarrow> 'z vstate_scheme option" where
  \<comment> \<open>\<open>while(i < queueSize) { printProcessInfo(queue->process); queue = queue->next; i++; }\<close>\<close>
  "psLoop i queue v =
     (if i < queueSize v then do {
        node \<leftarrow> get_snode v queue;
        w \<leftarrow> printProcessInfo (sn_process node) v;
        psLoop (i + 1) (sn_next node) w }
      else Some v)"
  by auto
termination
  by (relation "measure (\<lambda>(i, _, v). nat (queueSize v - i))")
    (auto dest!: printProcessInfo_only only_video_sched(3))

declare psLoop.simps [simp del]

definition printAllProcess :: "uninit \<Rightarrow> 'z vstate_scheme \<Rightarrow> 'z vstate_scheme option" where
  "printAllProcess u v =
     (if processQueue v = NULL then Some v
      else do {
        let queue = processQueue v;
        v \<leftarrow> printPsHeader u v;
        v \<leftarrow> psLoop (i_all u) queue v;
        Some (newLine (newLine (newLine v))) })"

subsection \<open>When the listing returns\<close>

lemma psLoop_iff:
  assumes "chain (snx v) q xs r" and "\<forall>n \<in> set xs. proc_at v n \<noteq> NULL" and "i + int (length xs) = queueSize v"
  shows "(\<exists>w. psLoop i q v = Some w) \<longleftrightarrow> (\<forall>n \<in> set xs. numbers_short (procs v (proc_at v n)))"
  using assms
proof (induction xs arbitrary: i q v)
  case Nil
  then show ?case by (subst psLoop.simps) simp
next
  case (Cons n xs)
  then have n: "q = n" "n \<noteq> NULL" "proc_at v n \<noteq> NULL" "i < queueSize v" "chain (snx v) (snx v n) xs r" by simp_all
  have "psLoop i q v = Option.bind (printProcessInfo (proc_at v n) v) (psLoop (i + 1) (snx v n))"
    using n by (subst psLoop.simps) simp
  moreover have "(\<exists>u. psLoop (i + 1) (snx v n) w = Some u) \<longleftrightarrow> (\<forall>n \<in> set xs. numbers_short (procs v (proc_at v n)))"
    if "printProcessInfo (proc_at v n) v = Some w" for w
  proof -
    note same = only_video_sched [OF printProcessInfo_only [OF that]]
    show ?thesis using Cons.IH [of w "snx v n" "i + 1"] n(5) Cons.prems(2,3) by (simp add: same)
  qed
  ultimately show ?case using printProcessInfo_iff [OF n(3), of v] by (auto simp: bind_eq_Some_conv)
qed

definition ps_count :: "'z sched_scheme \<Rightarrow> addr list \<Rightarrow> ps_counts \<Rightarrow> ps_counts" where
  "ps_count s xs c = fold (\<lambda>n. count_process (procs s (proc_at s n))) xs c"

lemma countLoop_eq:
  assumes "chain (snx s) q xs r" and "\<forall>n \<in> set xs. proc_at s n \<noteq> NULL" and "i + int (length xs) = queueSize s"
  shows "countLoop i q c s = Some (ps_count s xs c)"
  using assms
proof (induction xs arbitrary: i q c)
  case Nil
  then show ?case by (subst countLoop.simps) (simp add: ps_count_def)
next
  case (Cons n xs)
  then have "countLoop i q c s = countLoop (i + 1) (snx s n) (count_process (procs s (proc_at s n)) c) s"
    by (subst countLoop.simps) simp
  also have "\<dots> = Some (ps_count s xs (count_process (procs s (proc_at s n)) c))"
    using Cons.prems by (intro Cons.IH) simp_all
  finally show ?case by (simp add: ps_count_def)
qed

lemma ps_count_sums:
  "c_process (ps_count s xs c) = c_process c + int (length xs)"
  "c_threads (ps_count s xs c) = c_threads c + (\<Sum>n \<leftarrow> xs. threadSize (procs s (proc_at s n)))"
  unfolding ps_count_def by (induction xs arbitrary: c) (simp_all add: count_process_def Let_def)

lemma ps_count_bounds:
  "c_blocked c \<le> c_blocked (ps_count s xs c) \<and> c_blocked (ps_count s xs c) \<le> c_blocked c + int (length xs)
    \<and> c_running c \<le> c_running (ps_count s xs c) \<and> c_running (ps_count s xs c) \<le> c_running c + int (length xs)
    \<and> c_ready c \<le> c_ready (ps_count s xs c) \<and> c_ready (ps_count s xs c) \<le> c_ready c + int (length xs)"
proof (induction xs arbitrary: c)
  case (Cons n xs)
  let ?c = "count_process (procs s (proc_at s n)) c"
  have step: "c_blocked c \<le> c_blocked ?c \<and> c_blocked ?c \<le> c_blocked c + 1 \<and> c_running c \<le> c_running ?c
    \<and> c_running ?c \<le> c_running c + 1 \<and> c_ready c \<le> c_ready ?c \<and> c_ready ?c \<le> c_ready c + 1"
    by (simp add: count_process_def Let_def)
  have "ps_count s (n # xs) c = ps_count s xs ?c" by (simp add: ps_count_def)
  then show ?case using Cons.IH [of ?c] step by simp
qed (simp add: ps_count_def)

lemma bind_dec_iff:
  assumes "\<And>x. (\<exists>w. f x = Some w) \<longleftrightarrow> P"
  shows "(\<exists>w. Option.bind (printDec n v) f = Some w) \<longleftrightarrow> \<bar>n\<bar> < 10 \<and> P"
  using assms printDec_iff [of n v] by (auto simp: bind_eq_Some_conv)

lemma bind_dec_last: "(\<exists>w. Option.bind (printDec n v) (\<lambda>x. Some (g x)) = Some w) \<longleftrightarrow> \<bar>n\<bar> < 10"
  using bind_dec_iff [of "\<lambda>x. Some (g x)" True n v] by simp

lemma printPsHeader_only:
  assumes "printPsHeader u v = Some w"
  shows "only_video v w"
proof -
  obtain c where c: "countLoop (i_header u) (processQueue v)
      \<lparr>c_process = 0, c_blocked = 0, c_running = 0, c_ready = 0, c_threads = 0\<rparr> v = Some c"
    using assms unfolding printPsHeader_def by (auto simp only: bind_eq_Some_conv)
  from assms show ?thesis
    unfolding printPsHeader_def c bind.bind_lunit Let_def
    by - (rule only_line, rule only_print, erule only_dec, rule only_print, erule only_dec, rule only_print, erule only_dec,
        rule only_print, erule only_dec, rule only_print, rule only_line, rule only_print, erule only_dec,
        rule only_print, rule only_line, rule only_line, rule only_print, rule only_tab, rule only_print, rule only_tab,
        rule only_print, rule only_tab, rule only_print, rule only_tab, rule only_print,
        simp only: option.inject, erule subst, rule newLine_only)
qed

lemma printPsHeader_iff:
  assumes "countLoop (i_header u) (processQueue v)
      \<lparr>c_process = 0, c_blocked = 0, c_running = 0, c_ready = 0, c_threads = 0\<rparr> v = Some c"
  shows "(\<exists>w. printPsHeader u v = Some w) \<longleftrightarrow>
    \<bar>c_process c\<bar> < 10 \<and> \<bar>c_running c\<bar> < 10 \<and> \<bar>c_ready c\<bar> < 10 \<and> \<bar>c_blocked c\<bar> < 10 \<and> \<bar>c_threads c\<bar> < 10"
  unfolding printPsHeader_def assms bind.bind_lunit Let_def
  by (intro bind_dec_iff bind_dec_last)

subsection \<open>Properties\<close>

text \<open>The listing of the processes returns exactly when every number it prints has one digit: the number of
  processes and of their threads, and the identifier, the parent and the number of threads of each process.
  It is called from the interrupt of a system call, so otherwise the machine stops.\<close>

theorem ps_returns_iff:
  assumes ring: "proc_ring v qs" and n: "queueSize v = int (length qs)" and u: "i_all u = 0" "i_header u = 0"
  shows "(\<exists>w. printAllProcess u v = Some w) \<longleftrightarrow>
    length qs < 10 \<and> \<bar>\<Sum>n \<leftarrow> qs. threadSize (procs v (proc_at v n))\<bar> < 10
    \<and> (\<forall>n \<in> set qs. numbers_short (procs v (proc_at v n)))"
proof -
  let ?z = "\<lparr>c_process = 0, c_blocked = 0, c_running = 0, c_ready = 0, c_threads = 0\<rparr>"
  let ?c = "ps_count v qs ?z"
  have ch: "chain (snx v) (processQueue v) qs (processQueue v)" and nn: "\<forall>n \<in> set qs. proc_at v n \<noteq> NULL"
    using ring by (auto simp: proc_ring_def ring_def)
  have q: "processQueue v \<noteq> NULL" using ring ring_nonnull by (metis proc_ring_def ring_def list.set_sel(1))
  have cl: "countLoop (i_header u) (processQueue v) ?z v = Some ?c"
    using countLoop_eq [OF ch nn] n u by simp
  have head: "(\<exists>w. printPsHeader u v = Some w) \<longleftrightarrow>
      length qs < 10 \<and> \<bar>\<Sum>n \<leftarrow> qs. threadSize (procs v (proc_at v n))\<bar> < 10"
    using printPsHeader_iff [OF cl] ps_count_sums [of v qs ?z] ps_count_bounds [of ?z v qs] by auto
  have body: "(\<exists>x. psLoop (i_all u) (processQueue v) w = Some x) \<longleftrightarrow> (\<forall>n \<in> set qs. numbers_short (procs v (proc_at v n)))"
    if "printPsHeader u v = Some w" for w
  proof -
    note same = only_video_sched [OF printPsHeader_only [OF that]]
    show ?thesis using psLoop_iff [of w "processQueue v" qs "processQueue v" "i_all u"] ch nn n u by (simp add: same)
  qed
  show ?thesis using head body q by (simp add: printAllProcess_def Let_def bind_eq_Some_conv) blast
qed

theorem ps_returns_iff_witness:
  "\<exists>w. printAllProcess demo_locals blank_video = Some w"
proof -
  have same: "snodes blank_video = snodes demo" "procs blank_video = procs demo" "queueSize blank_video = queueSize demo"
    "processQueue blank_video = processQueue demo" "currentProcess blank_video = currentProcess demo"
    by (simp_all add: blank_video_def clearScreen_def with_vstate_def cstate.extend_def vstate.fields_def)
  from demo_ring have ring: "proc_ring blank_video demo_queue" by (simp add: proc_ring_def same)
  have n: "queueSize blank_video = int (length demo_queue)" by (simp add: same demo_queue_def demo_select)
  have "length demo_queue < 10 \<and> \<bar>\<Sum>n \<leftarrow> demo_queue. threadSize (procs blank_video (proc_at blank_video n))\<bar> < 10
    \<and> (\<forall>n \<in> set demo_queue. numbers_short (procs blank_video (proc_at blank_video n)))"
    by (simp add: same demo_queue_def numbers_short_def demo_select demo_proc_def zero_proc_def)
  then show ?thesis using ps_returns_iff [OF ring n, of demo_locals]
    by (simp add: demo_locals_def)
qed

end
