(* ===== verification/PortIO.thy ===== *)
theory PortIO
  imports KPrelude
begin

section \<open>Input and output ports (\<open>asm/sysIO.asm\<close>)\<close>

text \<open>
  The devices are outside the program: what they answer is a parameter, a function of everything
  that was read from and written to the ports so far.  The state is that history, the oldest
  access first.  A port number has 16 bits.
\<close>

datatype port_event =
    Out8 nat "8 word" | Out16 nat "16 word" | Out32 nat "32 word"
  | In8 nat | In16 nat | In32 nat

type_synonym io = "port_event list"
type_synonym device = "port_event list \<Rightarrow> 32 word"

abbreviation (input) port :: "nat \<Rightarrow> nat" where
  "port address \<equiv> address mod 65536"

definition sysOutByte :: "nat \<Rightarrow> 8 word \<Rightarrow> io \<Rightarrow> io" where
  "sysOutByte address x h = h @ [Out8 (port address) x]"

definition sysOutWord :: "nat \<Rightarrow> 16 word \<Rightarrow> io \<Rightarrow> io" where
  "sysOutWord address x h = h @ [Out16 (port address) x]"

definition sysOutLong :: "nat \<Rightarrow> 32 word \<Rightarrow> io \<Rightarrow> io" where
  "sysOutLong address x h = h @ [Out32 (port address) x]"

definition sysInByte :: "device \<Rightarrow> nat \<Rightarrow> io \<Rightarrow> 8 word \<times> io" where
  "sysInByte dev address h = (let h = h @ [In8 (port address)] in (ucast (dev h), h))"

definition sysInWord :: "device \<Rightarrow> nat \<Rightarrow> io \<Rightarrow> 16 word \<times> io" where
  "sysInWord dev address h = (let h = h @ [In16 (port address)] in (ucast (dev h), h))"

definition sysInLong :: "device \<Rightarrow> nat \<Rightarrow> io \<Rightarrow> 32 word \<times> io" where
  "sysInLong dev address h = (let h = h @ [In32 (port address)] in (dev h, h))"

end
