(* ===== verification/NaiveConsole.thy ===== *)
theory NaiveConsole
  imports VideoDriver
begin

section \<open>The boot console (\<open>naiveConsole.c\<close>)\<close>

text \<open>
  The console the kernel uses while it starts.  It writes characters from \<open>currentVideo\<close> on and
  never looks for the end of the screen.  A number is written into a static array of 64
  characters, which the model keeps as a list: a store outside it has no result.
\<close>

subsection \<open>Definitions\<close>

record console = vstate +
  currentVideo :: addr
  nc_buffer :: "byte list"

abbreviation (input) video :: addr where "video \<equiv> 0xB8000"

definition ncPrintChar :: "byte \<Rightarrow> 'z console_scheme \<Rightarrow> 'z console_scheme" where
  "ncPrintChar character c =
     c\<lparr>cmem := (cmem c)(currentVideo c := character), currentVideo := currentVideo c + 2\<rparr>"

text \<open>A string that is printed is the list of its characters.\<close>

fun ncPrint :: "byte list \<Rightarrow> 'z console_scheme \<Rightarrow> 'z console_scheme" where
  "ncPrint [] c = c"
| "ncPrint (x # xs) c = ncPrint xs (ncPrintChar x c)"

partial_function (option) ncNewline :: "'z console_scheme \<Rightarrow> 'z console_scheme option" where
  "ncNewline c =
     (let c = ncPrintChar SPACE c
      in if uint (u64 (int (currentVideo c) - int video)) mod 160 \<noteq> 0 then ncNewline c else Some c)"

definition ncClear :: "'z console_scheme \<Rightarrow> 'z console_scheme" where
  "ncClear c =
     c\<lparr>cmem := fold (\<lambda>i m. m(video + i * 2 := SPACE)) [0..<25 * 80] (cmem c), currentVideo := video\<rparr>"

definition array_put :: "nat \<Rightarrow> 'a \<Rightarrow> 'a list \<Rightarrow> 'a list option" where
  \<comment> \<open>a store into an array\<close>
  "array_put i x xs = (if i < length xs then Some (xs[i := x]) else None)"

lemma array_put_length: "array_put i x xs = Some ys \<Longrightarrow> length ys = length xs \<and> i < length xs"
  by (auto simp: array_put_def split: if_splits)

definition base_char :: "nat \<Rightarrow> byte" where
  "base_char remainder = (if remainder < 10 then of_nat (remainder + 48) else of_nat (remainder + 65 - 10))"

function baseLoop :: "nat \<Rightarrow> nat \<Rightarrow> nat \<Rightarrow> byte list \<Rightarrow> (nat \<times> byte list) option" where
  \<comment> \<open>the digits from the last one on; a remainder by zero has no result\<close>
  "baseLoop base value p buf =
     (if base = 0 then None
      else do {
        buf' \<leftarrow> array_put p (base_char (value mod base)) buf;
        if value div base \<noteq> 0 then baseLoop base (value div base) (p + 1) buf' else Some (p + 1, buf') })"
  by auto
termination by (relation "measure (\<lambda>(_, _, p, buf). length buf - p)") (auto dest: array_put_length)

declare baseLoop.simps [simp del]

function reverseLoop :: "nat \<Rightarrow> nat \<Rightarrow> 'a list \<Rightarrow> 'a list" where
  "reverseLoop p1 p2 xs =
     (if p1 < p2 then reverseLoop (p1 + 1) (p2 - 1) (xs[p1 := xs ! p2, p2 := xs ! p1]) else xs)"
  by auto
termination by (relation "measure (\<lambda>(p1, p2, _). p2 - p1)") auto

declare reverseLoop.simps [simp del]

definition uintToBase :: "nat \<Rightarrow> byte list \<Rightarrow> nat \<Rightarrow> (nat \<times> byte list) option" where
  \<comment> \<open>the number of digits and the new contents of the buffer\<close>
  "uintToBase value buf base = do {
     (n, buf) \<leftarrow> baseLoop base value 0 buf;
     buf \<leftarrow> array_put n 0 buf;
     Some (n, reverseLoop 0 (n - 1) buf) }"

definition ncPrintBase :: "nat \<Rightarrow> nat \<Rightarrow> 'z console_scheme \<Rightarrow> 'z console_scheme option" where
  "ncPrintBase value base c = do {
     (_, buf) \<leftarrow> uintToBase value (nc_buffer c) base;
     Some (ncPrint (takeWhile (\<lambda>x. x \<noteq> 0) buf) (c\<lparr>nc_buffer := buf\<rparr>)) }"

definition ncPrintDec :: "nat \<Rightarrow> 'z console_scheme \<Rightarrow> 'z console_scheme option" where
  "ncPrintDec value c = ncPrintBase value 10 c"

definition ncPrintHex :: "nat \<Rightarrow> 'z console_scheme \<Rightarrow> 'z console_scheme option" where
  "ncPrintHex value c = ncPrintBase value 16 c"

definition ncPrintBin :: "nat \<Rightarrow> 'z console_scheme \<Rightarrow> 'z console_scheme option" where
  "ncPrintBin value c = ncPrintBase value 2 c"

subsection \<open>Reversing in place\<close>

lemma reverseLoop_length [simp]: "length (reverseLoop p1 p2 xs) = length xs"
  by (induction p1 p2 xs rule: reverseLoop.induct) (subst reverseLoop.simps, simp)

lemma reverseLoop_nth:
  assumes "p2 < length xs" and "i < length xs"
  shows "reverseLoop p1 p2 xs ! i = (if p1 \<le> i \<and> i \<le> p2 then xs ! (p1 + p2 - i) else xs ! i)"
  using assms
proof (induction p1 p2 xs arbitrary: i rule: reverseLoop.induct)
  case (1 p1 p2 xs)
  show ?case
  proof (cases "p1 < p2")
    case True
    let ?ys = "xs[p1 := xs ! p2, p2 := xs ! p1]"
    have "reverseLoop (p1 + 1) (p2 - 1) ?ys ! i =
        (if p1 + 1 \<le> i \<and> i \<le> p2 - 1 then ?ys ! (p1 + 1 + (p2 - 1) - i) else ?ys ! i)"
      using 1(1) [OF True, of i] 1(2,3) True by simp
    also have "\<dots> = (if p1 \<le> i \<and> i \<le> p2 then xs ! (p1 + p2 - i) else xs ! i)"
      using True 1(2,3) by (auto simp: nth_list_update)
    finally show ?thesis using True by (subst reverseLoop.simps) simp
  next
    case False
    then have "p1 \<le> i \<Longrightarrow> i \<le> p2 \<Longrightarrow> p1 + p2 - i = i" by simp
    then show ?thesis using False by (subst reverseLoop.simps) auto
  qed
qed

lemma reverseLoop_rev: "xs \<noteq> [] \<Longrightarrow> reverseLoop 0 (length xs - 1) (xs @ ys) = rev xs @ ys"
proof (rule nth_equalityI)
  fix i assume "xs \<noteq> []" and "i < length (reverseLoop 0 (length xs - 1) (xs @ ys))"
  moreover have "0 \<le> i \<and> i \<le> length xs - 1 \<longleftrightarrow> i < length xs" using \<open>xs \<noteq> []\<close> by (cases xs) auto
  ultimately show "reverseLoop 0 (length xs - 1) (xs @ ys) ! i = (rev xs @ ys) ! i"
    using reverseLoop_nth [of "length xs - 1" "xs @ ys" i 0]
    by (cases xs) (auto simp: nth_append rev_nth)
qed simp

subsection \<open>The reference: the digits of a number in a base\<close>

function base_digits :: "nat \<Rightarrow> nat \<Rightarrow> nat list" where
  "base_digits b n = (if n < b \<or> b < 2 then [n] else base_digits b (n div b) @ [n mod b])"
  by auto
termination by (relation "measure (\<lambda>(_, n). n)") auto

declare base_digits.simps [simp del]

definition base_value :: "nat \<Rightarrow> nat list \<Rightarrow> nat" where
  "base_value b ds = foldl (\<lambda>n d. b * n + d) 0 ds"

lemma base_value_digits: "base_value b (base_digits b n) = n"
proof (induction b n rule: base_digits.induct)
  case (1 b n)
  then show ?case by (subst base_digits.simps) (simp add: base_value_def)
qed

lemma base_digits_ne [simp]: "base_digits b n \<noteq> []"
  by (subst base_digits.simps) simp

lemma base_digits_less: "2 \<le> b \<Longrightarrow> d \<in> set (base_digits b n) \<Longrightarrow> d < b"
proof (induction b n rule: base_digits.induct)
  case (1 b n)
  then show ?case by (subst (asm) (2) base_digits.simps) (auto split: if_splits)
qed

lemma base_digits_length: "2 \<le> b \<Longrightarrow> 0 < k \<Longrightarrow> length (base_digits b n) \<le> k \<longleftrightarrow> n < b ^ k"
proof (induction k arbitrary: n)
  case (Suc k)
  show ?case
  proof (cases "n < b")
    case True
    then have "n < b ^ Suc k" using Suc.prems by (simp add: less_le_trans)
    then show ?thesis using True by (subst base_digits.simps) simp
  next
    case False
    then have s: "base_digits b n = base_digits b (n div b) @ [n mod b]"
      using Suc.prems by (subst base_digits.simps) simp
    show ?thesis
    proof (cases "k = 0")
      case True
      then show ?thesis using s False by (cases "base_digits b (n div b)") auto
    next
      case k: False
      then show ?thesis using Suc.IH [of "n div b"] Suc.prems s
        by (simp add: less_mult_imp_div_less div_less_iff_less_mult mult.commute)
    qed
  qed
qed simp

lemma baseLoop_digits:
  assumes b: "2 \<le> b" and p: "p \<le> length buf"
  shows "baseLoop b v p buf =
    (if p + length (base_digits b v) \<le> length buf
     then Some (p + length (base_digits b v),
       take p buf @ map base_char (rev (base_digits b v)) @ drop (p + length (base_digits b v)) buf)
     else None)"
  using assms
proof (induction b v arbitrary: p buf rule: base_digits.induct)
  case (1 b v)
  show ?case
  proof (cases "p < length buf")
    case False
    then have "p = length buf" using 1 by simp
    moreover have "length (base_digits b v) \<noteq> 0" by simp
    ultimately show ?thesis by (subst baseLoop.simps) (simp add: array_put_def)
  next
    case p: True
    let ?buf = "buf[p := base_char (v mod b)]"
    have t: "take (Suc p) ?buf = take p buf @ [base_char (v mod b)]"
      using p by (simp add: take_Suc_conv_app_nth)
    have d: "drop (Suc p + k) ?buf = drop (Suc p + k) buf" for k by simp
    show ?thesis
    proof (cases "v < b")
      case True
      then have ds: "base_digits b v = [v]" by (subst base_digits.simps) simp
      have "?buf = take p buf @ base_char v # drop (Suc p) buf"
        using p True by (simp add: upd_conv_take_nth_drop)
      then show ?thesis using p True 1(2)
        by (subst baseLoop.simps) (simp add: ds array_put_def)
    next
      case False
      then have ds: "base_digits b v = base_digits b (v div b) @ [v mod b]"
        using 1(2) by (subst base_digits.simps) simp
      have "v div b \<noteq> 0" using False 1(2) by (simp add: div_eq_0_iff)
      then have "baseLoop b v p buf = baseLoop b (v div b) (Suc p) ?buf"
        using p 1(2) by (subst baseLoop.simps) (simp add: array_put_def)
      also have "\<dots> = (if Suc p + length (base_digits b (v div b)) \<le> length buf
        then Some (Suc p + length (base_digits b (v div b)),
          take (Suc p) ?buf @ map base_char (rev (base_digits b (v div b)))
          @ drop (Suc p + length (base_digits b (v div b))) ?buf) else None)"
        using 1(1) [of "Suc p" ?buf] False 1(2) p by simp
      finally show ?thesis unfolding t d by (simp add: ds)
    qed
  qed
qed

lemma base_char_ne0: "d < 36 \<Longrightarrow> base_char d \<noteq> 0"
proof -
  assume d: "d < 36"
  have "(of_nat n :: byte) \<noteq> 0" if "0 < n" "n < 256" for n
    using that by (simp add: word_of_nat_eq_0_iff nat_dvd_not_less)
  from this [of "d + 48"] this [of "d + 65 - 10"] d
  have "(of_nat (d + 48) :: byte) \<noteq> 0" "(of_nat (d + 65 - 10) :: byte) \<noteq> 0" by simp_all
  then show ?thesis unfolding base_char_def by (simp only: split: if_splits) blast
qed

lemma uintToBase_digits:
  assumes b: "2 \<le> b" and fits: "length (base_digits b v) < length buf"
  shows "uintToBase v buf b = Some (length (base_digits b v),
    map base_char (base_digits b v) @ 0 # drop (Suc (length (base_digits b v))) buf)"
proof -
  let ?n = "length (base_digits b v)"
  let ?xs = "map base_char (rev (base_digits b v))"
  have "baseLoop b v 0 buf = Some (?n, ?xs @ drop ?n buf)"
    using baseLoop_digits [OF b, of 0 buf v] fits by simp
  moreover have "array_put ?n 0 (?xs @ drop ?n buf) = Some (?xs @ 0 # drop (Suc ?n) buf)"
    using fits by (simp add: array_put_def list_update_append Cons_nth_drop_Suc [symmetric])
  moreover have "reverseLoop 0 (?n - 1) (?xs @ 0 # drop (Suc ?n) buf) = rev ?xs @ 0 # drop (Suc ?n) buf"
    using reverseLoop_rev [of ?xs] by simp
  ultimately show ?thesis by (simp add: uintToBase_def rev_map)
qed

subsection \<open>What printing touches\<close>

definition prints :: "nat \<Rightarrow> 'z console_scheme \<Rightarrow> 'z console_scheme \<Rightarrow> bool" where
  \<comment> \<open>the console went on by at most \<open>k\<close> bytes and only these may differ\<close>
  "prints k c d \<longleftrightarrow> currentVideo c \<le> currentVideo d \<and> currentVideo d \<le> currentVideo c + k
     \<and> even (currentVideo d) = even (currentVideo c) \<and> length (nc_buffer d) = length (nc_buffer c)
     \<and> (\<forall>a. a < currentVideo c \<or> currentVideo c + k \<le> a \<longrightarrow> cmem d a = cmem c a)"

definition console_ok :: "nat \<Rightarrow> 'z console_scheme \<Rightarrow> bool" where
  \<comment> \<open>the next \<open>k\<close> bytes are in the address space\<close>
  "console_ok k c \<longleftrightarrow> video \<le> currentVideo c \<and> even (currentVideo c) \<and> currentVideo c + k < 2 ^ 63
     \<and> length (nc_buffer c) = 64"

lemma prints_refl: "prints 0 c c"
  by (simp add: prints_def)

lemma prints_trans: "prints j c d \<Longrightarrow> prints k d e \<Longrightarrow> prints (j + k) c e"
  by (auto simp: prints_def)

lemma prints_mono: "prints j c d \<Longrightarrow> j \<le> k \<Longrightarrow> prints k c d"
  by (auto simp: prints_def)

lemma prints_ok: "prints j c d \<Longrightarrow> console_ok (j + k) c \<Longrightarrow> console_ok k d"
  by (auto simp: prints_def console_ok_def)

lemma ncPrintChar_prints: "prints 2 c (ncPrintChar x c)"
  by (simp add: prints_def ncPrintChar_def)

lemma ncPrint_prints: "prints (2 * length xs) c (ncPrint xs c)"
proof (induction xs arbitrary: c)
  case (Cons x xs)
  show ?case using prints_trans [OF ncPrintChar_prints Cons.IH, where c = c] by simp
qed (simp add: prints_refl)

lemma ncNewline_prints:
  assumes "console_ok 160 c"
  shows "\<exists>d. ncNewline c = Some d \<and> prints 160 c d \<and> (currentVideo d - video) mod 160 = 0"
proof -
  let ?left = "\<lambda>c :: 'a console_scheme. 160 - (currentVideo c - video) mod 160"
  have "\<exists>d. ncNewline c = Some d \<and> prints (?left c) c d \<and> (currentVideo d - video) mod 160 = 0"
    if "video \<le> currentVideo c" "even (currentVideo c)" "currentVideo c + ?left c < 2 ^ 63" for c :: "'a console_scheme"
    using that
  proof (induction "?left c" arbitrary: c rule: less_induct)
    case less
    let ?c = "ncPrintChar SPACE c"
    obtain x where x: "currentVideo c = video + 2 * x"
      using less(2,3) by (metis dvd_mult_div_cancel dvd_diff_nat even_numeral le_add_diff_inverse)
    have u: "uint (u64 (int (currentVideo ?c) - int video)) = int (2 * (x + 1))"
      using less(4) x by (simp add: ncPrintChar_def uint_u64)
    have z: "uint (u64 (int (currentVideo ?c) - int video)) mod 160 = 0 \<longleftrightarrow> (x + 1) mod 80 = 0"
      unfolding u by presburger
    have m: "(currentVideo ?c - video) mod 160 = 2 * ((x + 1) mod 80)" and l: "?left c = 160 - 2 * (x mod 80)"
      using x by (simp_all add: ncPrintChar_def mult_mod_right)
    show ?case
    proof (cases "(x + 1) mod 80 = 0")
      case True
      then have "x mod 80 = 79" using mod_Suc [of x 80] by (auto split: if_splits)
      then have "?left c = 2" using l by simp
      moreover have "ncNewline c = Some ?c"
        using z True by (subst ncNewline.simps) (simp add: Let_def)
      ultimately show ?thesis using m True ncPrintChar_prints [of c] by auto
    next
      case False
      then have s: "(x + 1) mod 80 = x mod 80 + 1" using mod_Suc [of x 80] by (auto split: if_splits)
      then have "?left ?c = 160 - 2 * (x mod 80 + 1)" using m by simp
      moreover have "x mod 80 + 1 < 80" using s mod_less_divisor [of 80 "x + 1"] by linarith
      moreover have "160 - 2 * y = 2 + (160 - 2 * (y + 1))" if "y + 1 < 80" for y :: nat using that by simp
      ultimately have lc: "?left c = 2 + ?left ?c" unfolding l by metis
      have "ncNewline c = ncNewline ?c"
        using z False by (subst ncNewline.simps) (simp add: Let_def)
      moreover obtain d where "ncNewline ?c = Some d" "prints (?left ?c) ?c d" "(currentVideo d - video) mod 160 = 0"
        using less(1) [where c = ?c] lc less(2-4) by (auto simp: ncPrintChar_def)
      ultimately show ?thesis using prints_trans [OF ncPrintChar_prints, where c = c and e = d] lc by auto
    qed
  qed
  note run = this
  have le: "?left c \<le> 160" by simp
  have "currentVideo c + ?left c < 2 ^ 63"
    by (rule le_less_trans [OF add_left_mono [OF le]]) (use assms in \<open>simp add: console_ok_def\<close>)
  note lt = this
  have ok: "video \<le> currentVideo c" "even (currentVideo c)" using assms by (simp_all add: console_ok_def)
  from run [OF ok lt] obtain d where d: "ncNewline c = Some d" "prints (?left c) c d"
      "(currentVideo d - video) mod 160 = 0"
    by (elim exE conjE)
  from d(1,3) prints_mono [OF d(2) le] show ?thesis by (intro exI [of _ d] conjI)
qed

lemma takeWhile_stops: "\<not> P y \<Longrightarrow> length (takeWhile P (xs @ y # ys)) \<le> length xs"
  by (induction xs) auto

lemma base_text_prints:
  assumes "2 \<le> b" and "0 < k" "k < 64" and "v < b ^ k" and "length (nc_buffer c) = 64"
  shows "\<exists>d. ncPrintBase v b c = Some d \<and> prints (2 * k) c d"
proof -
  let ?ds = "base_digits b v"
  let ?buf = "map base_char ?ds @ 0 # drop (Suc (length ?ds)) (nc_buffer c)"
  have l: "length ?ds \<le> k" using base_digits_length [OF assms(1,2)] assms(4) by simp
  then have run: "uintToBase v (nc_buffer c) b = Some (length ?ds, ?buf)"
    using assms(1,3,5) by (intro uintToBase_digits) simp_all
  have "length (takeWhile (\<lambda>x. x \<noteq> 0) ?buf) \<le> length ?ds"
    using takeWhile_stops [of "\<lambda>x. x \<noteq> 0" 0 "map base_char ?ds"] by simp
  moreover have "prints 0 c (c\<lparr>nc_buffer := ?buf\<rparr>)" using l assms(3,5) by (simp add: prints_def)
  ultimately show ?thesis
    using run l prints_trans [OF _ ncPrint_prints, of 0 c "c\<lparr>nc_buffer := ?buf\<rparr>" "takeWhile (\<lambda>x. x \<noteq> 0) ?buf"]
    by (auto simp: ncPrintBase_def intro: prints_mono)
qed

subsection \<open>A console at boot\<close>

definition boot_console :: "cmem \<Rightarrow> console" where
  "boot_console m = vstate.extend (with_vstate screen (with_cmem m demo)) (console.fields video (replicate 64 0))"

lemma boot_console_select [simp]:
  shows "cmem (boot_console m) = m" and "currentVideo (boot_console m) = video"
    and "nc_buffer (boot_console m) = replicate 64 0" and "currentPosition (boot_console m) = screen"
  by (simp_all add: boot_console_def vstate.extend_def console.fields_def)

subsection \<open>Properties\<close>

text \<open>The text of a number is its digits in the base, the most significant first, followed by a null
  character; reading the digits back gives the number.\<close>

theorem uintToBase_writes_digits:
  assumes "2 \<le> base" and "base \<le> 36" and "length buf = 64" and "value < base ^ 63"
  shows "\<exists>n buf' ds. uintToBase value buf base = Some (n, buf') \<and> n = length ds
    \<and> takeWhile (\<lambda>x. x \<noteq> 0) buf' = map base_char ds \<and> (\<forall>d \<in> set ds. d < base) \<and> base_value base ds = value"
proof -
  let ?ds = "base_digits base value"
  have "length ?ds \<le> 63" using base_digits_length [OF assms(1), of 63 "value"] assms(4) by simp
  then have run: "uintToBase value buf base = Some (length ?ds, map base_char ?ds @ 0 # drop (Suc (length ?ds)) buf)"
    using uintToBase_digits [OF assms(1), of "value" buf] assms(3) by simp
  have less: "\<forall>d \<in> set ?ds. d < base" using base_digits_less [OF assms(1)] by blast
  have "x \<noteq> 0" if "x \<in> set (map base_char ?ds)" for x
    using that less assms(2) base_char_ne0 by (metis (no_types, lifting) imageE less_le_trans list.set_map)
  then have "takeWhile (\<lambda>x. x \<noteq> 0) (map base_char ?ds @ 0 # drop (Suc (length ?ds)) buf) = map base_char ?ds"
    by (subst takeWhile_append2) auto
  with run less base_value_digits [of base "value"] show ?thesis
    by (intro exI [of _ "length ?ds"] exI [of _ "map base_char ?ds @ 0 # drop (Suc (length ?ds)) buf"]
        exI [of _ ?ds] conjI refl)
qed

theorem uintToBase_writes_digits_witness:
  "\<exists>n buf' ds. uintToBase 2748 (replicate 64 0) 16 = Some (n, buf') \<and> n = length ds
    \<and> takeWhile (\<lambda>x. x \<noteq> 0) buf' = map base_char ds \<and> (\<forall>d \<in> set ds. d < 16) \<and> base_value 16 ds = 2748"
  by (rule uintToBase_writes_digits) simp_all

text \<open>The buffer of 64 characters has no place for the 64 binary digits of a number from \<open>2^63\<close> on and the
  null character: \<open>ncPrintBin\<close> of such a number stores outside the buffer.  Decimal and hexadecimal texts of
  every \<open>uint64_t\<close> fit.\<close>

theorem uintToBase_fits_iff:
  assumes "length buf = 64" and "value < 2 ^ 64"
  shows "(uintToBase value buf 2 \<noteq> None \<longleftrightarrow> value < 2 ^ 63)
    \<and> uintToBase value buf 10 \<noteq> None \<and> uintToBase value buf 16 \<noteq> None"
proof -
  have fits: "uintToBase value buf b \<noteq> None" if "2 \<le> b" "value < b ^ 63" for b
    using that uintToBase_digits [of b "value" buf] base_digits_length [of b 63 "value"] assms(1) by simp
  have "value < 10 ^ 63" "value < 16 ^ 63"
    using assms(2) by (rule less_trans, simp)+
  then have dec_hex: "uintToBase value buf 10 \<noteq> None" "uintToBase value buf 16 \<noteq> None"
    using fits [of 10] fits [of 16] by auto
  have "uintToBase value buf 2 = None" if "\<not> value < 2 ^ 63"
  proof -
    have "length (base_digits 2 value) \<le> 64" "\<not> length (base_digits 2 value) \<le> 63"
      using base_digits_length [of 2 64 "value"] base_digits_length [of 2 63 "value"] assms(2) that by simp_all
    then have n: "length (base_digits 2 value) = 64" by simp
    then show ?thesis
      using baseLoop_digits [of 2 0 buf "value"] assms(1) by (simp add: uintToBase_def array_put_def)
  qed
  then have "uintToBase value buf 2 \<noteq> None \<longleftrightarrow> value < 2 ^ 63" using fits [OF order.refl]
    by (cases "value < 2 ^ 63") simp_all
  with dec_hex show ?thesis by blast
qed

theorem uintToBase_fits_iff_witness:
  "(uintToBase (2 ^ 63) (replicate 64 0) 2 \<noteq> None \<longleftrightarrow> (2 ^ 63 :: nat) < 2 ^ 63)
    \<and> uintToBase (2 ^ 63) (replicate 64 0) 10 \<noteq> None \<and> uintToBase (2 ^ 63) (replicate 64 0) 16 \<noteq> None"
  by (rule uintToBase_fits_iff) simp_all

end
