(* ===== verification/Pci.thy ===== *)
theory Pci
  imports PortIO NaiveConsole
begin

unbundle bit_operations_syntax

section \<open>The PCI configuration space (\<open>pci.c\<close>)\<close>

text \<open>
  A register of a device's configuration is reached by writing its address to one port and then
  reading or writing another.  The functions return the history of the ports with their result.
\<close>

subsection \<open>Definitions\<close>

abbreviation (input) PCI_CONFIG_ADDRESS :: nat where "PCI_CONFIG_ADDRESS \<equiv> 0x0CF8"
abbreviation (input) PCI_CONFIG_DATA :: nat where "PCI_CONFIG_DATA \<equiv> 0x0CFC"
abbreviation (input) RTL_VENDOR_ID :: int where "RTL_VENDOR_ID \<equiv> 0x10EC"
abbreviation (input) RTL_DEVICE_ID :: int where "RTL_DEVICE_ID \<equiv> 0x8139"

definition pci_address :: "8 word \<Rightarrow> 8 word \<Rightarrow> 8 word \<Rightarrow> 8 word \<Rightarrow> 32 word" where
  "pci_address bus slot func offset =
     push_bit 16 (ucast bus) OR push_bit 11 (ucast slot) OR push_bit 8 (ucast func)
     OR (ucast offset AND 0xfc) OR 0x80000000"

definition activeDMA :: "8 word \<Rightarrow> 8 word \<Rightarrow> 8 word \<Rightarrow> 8 word \<Rightarrow> io \<Rightarrow> io" where
  "activeDMA bus slot func offset h =
     (let address = pci_address bus slot func offset;
          h = sysOutLong PCI_CONFIG_ADDRESS address h
      in sysOutLong PCI_CONFIG_DATA 0x107 h)"

definition activeRTLdma :: "io \<Rightarrow> io" where
  "activeRTLdma h = activeDMA 0 3 0 4 h"

definition pciConfigReadWord :: "device \<Rightarrow> 8 word \<Rightarrow> 8 word \<Rightarrow> 8 word \<Rightarrow> 8 word \<Rightarrow> io \<Rightarrow> 16 word \<times> io" where
  "pciConfigReadWord dev bus slot func offset h =
     (let address = pci_address bus slot func offset;
          h = sysOutLong PCI_CONFIG_ADDRESS address h;
          (x, h) = sysInLong dev PCI_CONFIG_DATA h
      in (ucast (drop_bit (unat (offset AND 2) * 8) x AND 0xffff), h))"

definition pciCheckOffset :: "device \<Rightarrow> 8 word \<Rightarrow> 8 word \<Rightarrow> int \<Rightarrow> int \<Rightarrow> int \<Rightarrow> io \<Rightarrow> 16 word \<times> io" where
  \<comment> \<open>the device identifier is read only if the vendor's is the one that is looked for\<close>
  "pciCheckOffset dev bus slot vendorID deviceID offset h =
     (let (v, h) = pciConfigReadWord dev bus slot 0 0 h
      in if uint v = vendorID
         then let (d, h) = pciConfigReadWord dev bus slot 0 2 h
              in if uint d = deviceID then pciConfigReadWord dev bus slot 0 (word_of_int offset) h else (0, h)
         else (0, h))"

definition printLine :: "byte list \<Rightarrow> nat \<Rightarrow> 'z console_scheme \<Rightarrow> 'z console_scheme option" where
  \<comment> \<open>\<open>ncPrint(text); ncPrintHex(number); ncNewline();\<close>\<close>
  "printLine text number c = do { c \<leftarrow> ncPrintHex number (ncPrint text c); ncNewline c }"

definition searchSlot :: "device \<Rightarrow> nat \<Rightarrow> nat \<Rightarrow> 'z console_scheme \<times> io \<Rightarrow> ('z console_scheme \<times> io) option" where
  \<comment> \<open>the body of the two loops\<close>
  "searchSlot dev bus slot s = do {
     let (c, h) = s;
     let (offset, h) = pciCheckOffset dev (of_nat bus) (of_nat slot) RTL_VENDOR_ID RTL_DEVICE_ID 18 h;
     c \<leftarrow> (if offset \<noteq> 0 then ncPrintHex (unat offset) c else Some c);
     let (offset, h) = pciCheckOffset dev (of_nat bus) (of_nat slot) RTL_VENDOR_ID RTL_DEVICE_ID 16 h;
     (c, h) \<leftarrow> (if offset \<noteq> 0 then do {
         c \<leftarrow> printLine (map of_char ''Bus: '') bus c;
         c \<leftarrow> printLine (map of_char ''Slot: '') slot c;
         c \<leftarrow> printLine (map of_char ''BAR 0: '') (unat offset) c;
         let h = activeDMA (of_nat bus) (of_nat slot) 0 4 h;
         c \<leftarrow> ncNewline (ncPrint (map of_char ''DMA initialized'') c);
         Some (c, h) }
       else Some (c, h));
     let (offset, h) = pciCheckOffset dev (of_nat bus) (of_nat slot) RTL_VENDOR_ID RTL_DEVICE_ID 4 h;
     c \<leftarrow> (if offset \<noteq> 0 then printLine (map of_char ''Command: '') (unat offset) c else Some c);
     Some (c, h) }"

fun loop_opt :: "nat \<Rightarrow> (nat \<Rightarrow> 'a \<Rightarrow> 'a option) \<Rightarrow> 'a \<Rightarrow> 'a option" where
  \<comment> \<open>\<open>for (int i = 0; i < n; i++)\<close> with a body that may have no result\<close>
  "loop_opt 0 f s = Some s"
| "loop_opt (Suc n) f s = Option.bind (loop_opt n f s) (f n)"

definition searchRTL :: "device \<Rightarrow> 'z console_scheme \<times> io \<Rightarrow> ('z console_scheme \<times> io) option" where
  "searchRTL dev s = loop_opt 256 (\<lambda>bus. loop_opt 32 (\<lambda>slot. searchSlot dev bus slot)) s"

subsection \<open>The address word\<close>

lemma pci_address_fields:
  assumes "slot < 32" and "func < 8"
  shows "ucast (drop_bit 16 (pci_address bus slot func offset)) = bus"
    and "ucast (drop_bit 11 (pci_address bus slot func offset)) AND 31 = slot"
    and "ucast (drop_bit 8 (pci_address bus slot func offset)) AND 7 = func"
    and "ucast (pci_address bus slot func offset) AND 0xfc = offset AND 0xfc"
    and "bit (pci_address bus slot func offset) 31"
proof -
  have s: "i < 5" if "bit slot i" for i
  proof -
    have "slot = take_bit 5 slot" using assms(1) by (simp add: take_bit_eq_mod mod_word_less)
    then show ?thesis using that by (metis bit_take_bit_iff)
  qed
  have f: "i < 3" if "bit func i" for i
  proof -
    have "func = take_bit 3 func" using assms(2) by (simp add: take_bit_eq_mod mod_word_less)
    then show ?thesis using that by (metis bit_take_bit_iff)
  qed
  define t :: "32 word" where "t = 0x80000000"
  have "t = push_bit 31 1" by (simp add: t_def)
  then have t: "bit t i \<longleftrightarrow> i = 31" for i by (auto simp only: bit_push_bit_iff bit_1_iff) (auto simp: possible_bit_def)
  define p where "p = (0xfc :: 32 word)"
  define q where "q = (0xfc :: 8 word)"
  have "p = push_bit 2 (mask 6)" "q = push_bit 2 (mask 6)" by (simp_all add: p_def q_def mask_eq_exp_minus_1)
  then have pq: "bit p i \<longleftrightarrow> 2 \<le> i \<and> i < 8" "bit q i \<longleftrightarrow> 2 \<le> i \<and> i < 8" for i by (auto simp: bit_simps)
  have m: "(31 :: 8 word) = mask 5" "(7 :: 8 word) = mask 3"
    by (simp_all add: mask_eq_exp_minus_1)
  note d = pci_address_def t_def [symmetric] p_def [symmetric] q_def [symmetric]
  show "ucast (drop_bit 16 (pci_address bus slot func offset)) = bus"
    unfolding d m by (rule bit_word_eqI) (auto simp: bit_simps t pq dest: s f)
  show "ucast (drop_bit 11 (pci_address bus slot func offset)) AND 31 = slot"
    unfolding d m by (rule bit_word_eqI) (auto simp: bit_simps t pq dest: s f)
  show "ucast (drop_bit 8 (pci_address bus slot func offset)) AND 7 = func"
    unfolding d m by (rule bit_word_eqI) (auto simp: bit_simps t pq dest: s f)
  show "ucast (pci_address bus slot func offset) AND 0xfc = offset AND 0xfc"
    unfolding d m by (rule bit_word_eqI) (auto simp: bit_simps t pq)
  show "bit (pci_address bus slot func offset) 31"
    unfolding d m by (auto simp: bit_simps t pq)
qed

subsection \<open>Reading the configuration space\<close>

definition config_device :: "device \<Rightarrow> (32 word \<Rightarrow> 32 word) \<Rightarrow> bool" where
  \<comment> \<open>the documented mechanism: the data port reads the register whose address was written last\<close>
  "config_device dev conf \<longleftrightarrow>
     (\<forall>h a. dev (h @ [Out32 PCI_CONFIG_ADDRESS a, In32 PCI_CONFIG_DATA]) = conf a)"

definition conf_word :: "(32 word \<Rightarrow> 32 word) \<Rightarrow> 8 word \<Rightarrow> 8 word \<Rightarrow> 8 word \<Rightarrow> 16 word" where
  \<comment> \<open>the 16 bits at \<open>offset\<close> of the configuration of the device's function 0\<close>
  "conf_word conf bus slot offset =
     (let r = conf (pci_address bus slot 0 offset) in if bit offset 1 then ucast (drop_bit 16 r) else ucast r)"

lemma pciConfigReadWord_conf:
  assumes "config_device dev conf"
  shows "fst (pciConfigReadWord dev bus slot 0 offset h) = conf_word conf bus slot offset"
proof -
  let ?r = "conf (pci_address bus slot 0 offset)"
  have two: "offset AND 2 = (if bit offset 1 then 2 else 0)"
    by (rule bit_word_eqI) (auto simp: bit_simps simp flip: push_bit_of_1 [of 1] dest: bit_imp_le_length)
  have "(0xffff :: 32 word) = mask 16" by (simp add: mask_eq_exp_minus_1)
  then have "bit (0xffff :: 32 word) n \<longleftrightarrow> n < 16" for n by (simp only: bit_mask_iff) auto
  then have low: "ucast (x AND 0xffff) = (ucast x :: 16 word)" for x :: "32 word"
    by (intro bit_word_eqI) (auto simp: bit_simps)
  show ?thesis
    using assms unfolding config_device_def
    by (simp add: pciConfigReadWord_def sysOutLong_def sysInLong_def conf_word_def Let_def two low)
qed

subsection \<open>Properties\<close>

text \<open>The configuration address keeps its parts apart: for the slots and functions that exist, the bus, the
  slot, the function and the register can be read back from the bits the PCI specification gives them, and the
  enable bit is set.\<close>

theorem pci_address_decodes:
  assumes "slot < 32" and "func < 8"
  shows "ucast (drop_bit 16 (pci_address bus slot func offset)) = bus
    \<and> ucast (drop_bit 11 (pci_address bus slot func offset)) AND 31 = slot
    \<and> ucast (drop_bit 8 (pci_address bus slot func offset)) AND 7 = func
    \<and> ucast (pci_address bus slot func offset) AND 0xfc = offset AND 0xfc
    \<and> bit (pci_address bus slot func offset) 31"
  using pci_address_fields [OF assms] by blast

theorem pci_address_decodes_witness:
  "ucast (drop_bit 16 (pci_address 0 3 0 4)) = (0 :: 8 word)
    \<and> ucast (drop_bit 11 (pci_address 0 3 0 4)) AND 31 = (3 :: 8 word)
    \<and> ucast (drop_bit 8 (pci_address 0 3 0 4)) AND 7 = (0 :: 8 word)
    \<and> ucast (pci_address 0 3 0 4) AND 0xfc = 4 AND (0xfc :: 8 word)
    \<and> bit (pci_address 0 3 0 4) 31"
  by (rule pci_address_decodes) simp_all

text \<open>The test of a slot answers for the device that is looked for and no other: with the documented access to the
  configuration space, \<open>pciCheckOffset\<close> returns the 16 bits at the offset when both identifiers are the ones
  that are looked for, and 0 otherwise.\<close>

theorem pciCheckOffset_finds:
  assumes "config_device dev conf"
  shows "fst (pciCheckOffset dev bus slot vendor ident offset h) =
    (if uint (conf_word conf bus slot 0) = vendor \<and> uint (conf_word conf bus slot 2) = ident
     then conf_word conf bus slot (word_of_int offset) else 0)"
  using pciConfigReadWord_conf [OF assms]
  by (auto simp: pciCheckOffset_def Let_def case_prod_beta)

theorem pciCheckOffset_finds_witness:
  "fst (pciCheckOffset (\<lambda>_. 0x813910EC) 0 3 RTL_VENDOR_ID RTL_DEVICE_ID 2 []) = 0x8139"
proof -
  have two: "bit (2 :: 8 word) 1" by simp
  show ?thesis
    using pciCheckOffset_finds [of "\<lambda>_. 0x813910EC" "\<lambda>_. 0x813910EC" 0 3 RTL_VENDOR_ID RTL_DEVICE_ID 2 "[]"] two
    by (simp add: config_device_def conf_word_def)
qed

end
