(* ===== verification/Rtl8139.thy ===== *)
theory Rtl8139
  imports Pci
begin

unbundle bit_operations_syntax

section \<open>The network card (\<open>RTL8139.c\<close>)\<close>

text \<open>
  The driver sends a message as one Ethernet frame from its transmit buffer, copies each frame
  that the card has put into the receive buffer to a ring of 100 frames, and hands the frames of
  the ring out as messages.  Arrays are lists; a load or store outside an array has no result.
  The card is the device of the ports, and it alone writes the receive buffer.
\<close>

subsection \<open>Definitions\<close>

abbreviation (input) IO_ADDRESS :: nat where "IO_ADDRESS \<equiv> 0xC000"
abbreviation (input) CONFIG_1 :: nat where "CONFIG_1 \<equiv> 0x52"
abbreviation (input) ISR :: nat where "ISR \<equiv> 0x3E"
abbreviation (input) CR :: nat where "CR \<equiv> 0x37"
abbreviation (input) IMR :: nat where "IMR \<equiv> 0x3C"
abbreviation (input) RBSTART :: nat where "RBSTART \<equiv> 0x30"
abbreviation (input) TSAD0 :: nat where "TSAD0 \<equiv> 0x20"
abbreviation (input) TSD0 :: nat where "TSD0 \<equiv> 0x10"
abbreviation (input) MAC_SIZE :: nat where "MAC_SIZE \<equiv> 6"
abbreviation (input) TR_BUFFER_SIZE :: nat where "TR_BUFFER_SIZE \<equiv> 8 * 1024"
abbreviation (input) RE_BUFFER_SIZE :: nat where "RE_BUFFER_SIZE \<equiv> 8 * 1024 + 16 + 1500"
abbreviation (input) MESSAGE_BUFFER_SIZE :: nat where "MESSAGE_BUFFER_SIZE \<equiv> 100"
abbreviation (input) PAYLOAD_SIZE :: nat where "PAYLOAD_SIZE \<equiv> 1000"
abbreviation (input) BROADCAST :: byte where "BROADCAST \<equiv> 0xFF"

record ethMsg =
  mac :: "byte list"
  msg :: "byte list"
  msg_length :: "16 word"
  msg_type :: byte

record ethFrame =
  macDest :: "byte list"
  macSrc :: "byte list"
  frame_length :: "16 word"
  payload :: "byte list"
  frameCheck :: "32 word"

record rtl =
  trBuffer :: "byte list list"
  reBuffer :: "byte list"
  messages :: "ethFrame list"
  nexToWrite :: nat
  nextToRead :: nat
  ports :: io

definition mymemcpy :: "byte list \<Rightarrow> nat \<Rightarrow> byte list \<Rightarrow> nat \<Rightarrow> int \<Rightarrow> byte list option" where
  \<comment> \<open>copies to the index \<open>di\<close> of the array \<open>d\<close> from the index \<open>si\<close> of the array \<open>s\<close>\<close>
  "mymemcpy d di s si n =
     loop_opt (nat n) (\<lambda>i d. if si + i < length s then array_put (di + i) (s ! (si + i)) d else None) d"

definition transmit :: "ethFrame option \<Rightarrow> rtl \<Rightarrow> rtl option" where
  \<comment> \<open>\<open>None\<close> is the null pointer; only the low bytes of the length and the check are stored\<close>
  "transmit frame r =
     (case frame of
        None \<Rightarrow> Some r
      | Some f \<Rightarrow> do {
          let len = 0;
          tr \<leftarrow> mymemcpy (trBuffer r ! 0) len (macDest f) 0 6;
          let len = len + MAC_SIZE;
          tr \<leftarrow> mymemcpy tr len (macSrc f) 0 6;
          let len = len + MAC_SIZE;
          tr \<leftarrow> array_put len (ucast (frame_length f)) tr;
          let len = len + 2;
          tr \<leftarrow> mymemcpy tr len (payload f) 0 (uint (frame_length f));
          let len = len + unat (frame_length f);
          tr \<leftarrow> array_put len (ucast (frameCheck f)) tr;
          let len = len + 2;
          Some (r\<lparr>trBuffer := (trBuffer r)[0 := tr],
                  ports := sysOutLong (IO_ADDRESS + TSD0) (of_nat len AND 0xFFF) (ports r)\<rparr>) })"

definition getMacAdress :: "device \<Rightarrow> io \<Rightarrow> byte list \<times> io" where
  "getMacAdress dev h =
     (let (m, h) = sysInLong dev IO_ADDRESS h;
          lo = [ucast m, ucast (drop_bit 8 m), ucast (drop_bit 16 m), ucast (drop_bit 24 m)];
          (m, h) = sysInLong dev (IO_ADDRESS + 4) h
      in (lo @ [ucast m, ucast (drop_bit 8 m)], h))"

definition sendMsg :: "device \<Rightarrow> ethFrame \<Rightarrow> ethMsg \<Rightarrow> rtl \<Rightarrow> rtl option" where
  \<comment> \<open>\<open>frame\<close>: what the local variable held before\<close>
  "sendMsg dev frame message r = do {
     let frame = frame\<lparr>macDest := map (\<lambda>i. mac message ! i) [0..<MAC_SIZE]\<rparr>;
     let (src, h) = getMacAdress dev (ports r);
     let r = r\<lparr>ports := h\<rparr>;
     let frame = frame\<lparr>macSrc := src, frame_length := msg_length message + 1\<rparr>;
     p \<leftarrow> array_put 0 (msg_type message) (payload frame);
     p \<leftarrow> mymemcpy p 1 (msg message) 0 (uint (msg_length message));
     let frame = frame\<lparr>payload := p, frameCheck := ucast (msg_type message)\<rparr>;
     transmit (Some frame) r }"

definition getMsg :: "ethMsg \<Rightarrow> rtl \<Rightarrow> (int \<times> ethMsg \<times> rtl) option" where
  \<comment> \<open>the result, the message filled in, the state\<close>
  "getMsg message r =
     (if nextToRead r = nexToWrite r then Some (0, message, r)
      else do {
        let f = messages r ! nextToRead r;
        m \<leftarrow> mymemcpy (mac message) 0 (macSrc f) 0 6;
        let message = message\<lparr>mac := m\<rparr>;
        let message = message\<lparr>msg_length := frame_length f - 1\<rparr>;
        let message = message\<lparr>msg_type := payload f ! 0\<rparr>;
        m \<leftarrow> mymemcpy (msg message) 0 (payload f) 1 (uint (msg_length message));
        let message = message\<lparr>msg := m\<rparr>;
        let r = r\<lparr>nextToRead := nextToRead r + 1\<rparr>;
        let r = r\<lparr>nextToRead := nextToRead r mod MESSAGE_BUFFER_SIZE\<rparr>;
        Some (uint (msg_length message) + int MAC_SIZE + 2, message, r) })"

definition isForMe :: "device \<Rightarrow> ethFrame \<Rightarrow> io \<Rightarrow> bool \<times> io" where
  "isForMe dev frame h =
     (let (myMAC, h) = getMacAdress dev h;
          cont = list_all (\<lambda>i. macDest frame ! i = myMAC ! i) [0..<MAC_SIZE];
          cont = (if \<not> cont then list_all (\<lambda>i. macDest frame ! i = BROADCAST) [0..<MAC_SIZE] else cont)
      in (cont, h))"

partial_function (option) waitReset :: "device \<Rightarrow> io \<Rightarrow> io option" where
  \<comment> \<open>\<open>while ((sysInLong(IO_ADDRESS + CR) & 0x10) != 0);\<close>\<close>
  "waitReset dev h =
     (let (x, h) = sysInLong dev (IO_ADDRESS + CR) h
      in if x AND 0x10 \<noteq> 0 then waitReset dev h else Some h)"

definition initRTL :: "device \<Rightarrow> 32 word \<Rightarrow> 32 word \<Rightarrow> io \<Rightarrow> io option" where
  \<comment> \<open>\<open>re\<close>, \<open>tr\<close>: the addresses of the two buffers\<close>
  "initRTL dev re tr h = do {
     let h = sysOutByte (IO_ADDRESS + CONFIG_1) 0 h;
     let h = sysOutByte (IO_ADDRESS + CR) 0x10 h;
     h \<leftarrow> waitReset dev h;
     let h = sysOutLong (IO_ADDRESS + RBSTART) re h;
     let h = sysOutLong (IO_ADDRESS + TSAD0) tr h;
     let h = sysOutLong (IO_ADDRESS + 0x24) (tr + 8192) h;
     let h = sysOutLong (IO_ADDRESS + 0x28) (tr + 2 * 8192) h;
     let h = sysOutLong (IO_ADDRESS + 0x2C) (tr + 3 * 8192) h;
     let h = sysOutWord (IO_ADDRESS + IMR) 0x0005 h;
     let h = sysOutLong (IO_ADDRESS + 0x44) (0xf OR 0x80) h;
     Some (sysOutByte (IO_ADDRESS + CR) 0x0C h) }"

definition frame_at :: "byte list \<Rightarrow> nat \<Rightarrow> ethFrame" where
  \<comment> \<open>the \<open>ethFrame\<close> that starts at the index \<open>i\<close> of an array of bytes\<close>
  "frame_at b i =
     \<lparr>macDest = take 6 (drop i b), macSrc = take 6 (drop (i + 6) b),
      frame_length = ucast (b ! (i + 12)) OR push_bit 8 (ucast (b ! (i + 13))),
      payload = take PAYLOAD_SIZE (drop (i + 14) b),
      frameCheck = ucast (b ! (i + 1016)) OR push_bit 8 (ucast (b ! (i + 1017)))
        OR push_bit 16 (ucast (b ! (i + 1018))) OR push_bit 24 (ucast (b ! (i + 1019)))\<rparr>"

definition rtlHandler :: "device \<Rightarrow> 32 word \<Rightarrow> 32 word \<Rightarrow> rtl \<Rightarrow> rtl option" where
  "rtlHandler dev re tr r = do {
     let (status, h) = sysInWord dev (IO_ADDRESS + ISR) (ports r);
     let r = r\<lparr>ports := h\<rparr>;
     let r =
       (if status AND 0x1 \<noteq> 0 then
          let frame = frame_at (reBuffer r) 4;
              (mine, r) = (if macDest (messages r ! nexToWrite r) ! 0 = 0
                           then let (mine, h) = isForMe dev frame (ports r) in (mine, r\<lparr>ports := h\<rparr>)
                           else (False, r));
              r = (if mine then r\<lparr>messages := (messages r)[nexToWrite r := frame], nexToWrite := nexToWrite r + 1\<rparr>
                   else r);
              r = r\<lparr>nexToWrite := nexToWrite r mod MESSAGE_BUFFER_SIZE\<rparr>
          in r\<lparr>ports := sysOutWord (IO_ADDRESS + ISR) (status AND 0xFE) (ports r)\<rparr>
        else if status AND 0x4 \<noteq> 0 then
          r\<lparr>ports := sysOutWord (IO_ADDRESS + ISR) (status AND 0xFB) (ports r)\<rparr>
        else r);
     h \<leftarrow> initRTL dev re tr (ports r);
     Some (r\<lparr>ports := h\<rparr>) }"

fun repeat_opt :: "('a \<Rightarrow> 'b \<Rightarrow> 'b option) \<Rightarrow> 'a list \<Rightarrow> 'b \<Rightarrow> 'b option" where
  "repeat_opt f [] s = Some s"
| "repeat_opt f (x # xs) s = Option.bind (f x s) (repeat_opt f xs)"

definition printFrame :: "ethFrame \<Rightarrow> 'z console_scheme \<Rightarrow> 'z console_scheme option" where
  "printFrame frame c = do {
     c \<leftarrow> ncNewline c;
     c \<leftarrow> repeat_opt (\<lambda>x. ncPrintHex (unat x)) (take MAC_SIZE (macDest frame)) (ncPrint (map of_char ''Mac destination: '') c);
     c \<leftarrow> ncNewline c;
     c \<leftarrow> repeat_opt (\<lambda>x. ncPrintHex (unat x)) (take MAC_SIZE (macSrc frame)) (ncPrint (map of_char ''Mac Source: '') c);
     c \<leftarrow> ncNewline c;
     c \<leftarrow> ncPrintDec (unat (frame_length frame)) (ncPrint (map of_char ''length: '') c);
     c \<leftarrow> ncNewline c;
     let c = ncPrint (map of_char ''Message: '') c;
     c \<leftarrow> loop_opt (unat (frame_length frame))
            (\<lambda>i c. if i < length (payload frame) then Some (ncPrintChar (payload frame ! i) c) else None) c;
     c \<leftarrow> ncNewline c;
     c \<leftarrow> ncNewline c;
     c \<leftarrow> ncPrintDec (unat (frameCheck frame)) (ncPrint (map of_char ''frameCheck: '') c);
     c \<leftarrow> ncNewline c;
     c \<leftarrow> ncNewline (ncPrint (map of_char ''---------End of message----'') c);
     ncNewline c }"

subsection \<open>Copies between arrays\<close>

lemma mymemcpy_eq:
  "mymemcpy d di s si (int n) =
     (if n = 0 \<or> si + n \<le> length s \<and> di + n \<le> length d
      then Some (take di d @ take n (drop si s) @ drop (di + n) d) else None)"
proof -
  let ?f = "\<lambda>i d. if si + i < length s then array_put (di + i) (s ! (si + i)) d else None"
  have "loop_opt n ?f d =
     (if n = 0 \<or> si + n \<le> length s \<and> di + n \<le> length d
      then Some (take di d @ take n (drop si s) @ drop (di + n) d) else None)"
  proof (induction n)
    case (Suc n)
    show ?case
    proof (cases "si + Suc n \<le> length s \<and> di + Suc n \<le> length d")
      case True
      then have "loop_opt n ?f d = Some (take di d @ take n (drop si s) @ drop (di + n) d)" using Suc by simp
      moreover have "take (Suc n) (drop si s) = take n (drop si s) @ [s ! (si + n)]"
        using True by (subst take_Suc_conv_app_nth) auto
      moreover have "drop (di + n) d = d ! (di + n) # drop (Suc (di + n)) d"
        using True by (simp add: Cons_nth_drop_Suc)
      ultimately show ?thesis using True
        by (simp add: array_put_def list_update_append min_def) linarith
    next
      case False
      then consider "loop_opt n ?f d = None" | xs where "loop_opt n ?f d = Some xs" "length xs = length d" "\<not> (si + n < length s \<and> di + n < length d)"
        using Suc by (cases "n = 0") (auto split: if_splits)
      then show ?thesis using False by cases (auto simp: array_put_def)
    qed
  qed simp
  then show ?thesis by (simp add: mymemcpy_def)
qed

lemma mymemcpy_Some:
  "si + n \<le> length s \<Longrightarrow> di + n \<le> length d \<Longrightarrow>
     mymemcpy d di s si (int n) = Some (take di d @ take n (drop si s) @ drop (di + n) d)"
  by (simp add: mymemcpy_eq)

lemma mymemcpy_six [simp]:
  assumes "length s = 6" and "di + 6 \<le> length d"
  shows "mymemcpy d di s 0 6 = Some (take di d @ s @ drop (di + 6) d)"
  using mymemcpy_eq [of d di s 0 6] assms by simp

lemma mymemcpy_uint: "mymemcpy d di s si (uint (w :: 16 word)) = mymemcpy d di s si (int (unat w))"
  by simp

subsection \<open>A driver in a good state\<close>

definition frame_ok :: "ethFrame \<Rightarrow> bool" where
  "frame_ok f \<longleftrightarrow> length (macDest f) = 6 \<and> length (macSrc f) = 6 \<and> length (payload f) = 1000"

definition message_ok :: "ethMsg \<Rightarrow> bool" where
  "message_ok m \<longleftrightarrow> length (mac m) = 6 \<and> length (msg m) = 1000"

definition rtl_ok :: "rtl \<Rightarrow> bool" where
  \<comment> \<open>every array has its size\<close>
  "rtl_ok r \<longleftrightarrow> length (trBuffer r) = 3 \<and> (\<forall>b \<in> set (trBuffer r). length b = 8192)
     \<and> length (reBuffer r) = RE_BUFFER_SIZE \<and> length (messages r) = 100 \<and> (\<forall>f \<in> set (messages r). frame_ok f)
     \<and> nexToWrite r < 100 \<and> nextToRead r < 100"

lemma getMacAdress_length [simp]: "length (fst (getMacAdress dev h)) = 6"
  by (simp add: getMacAdress_def Let_def case_prod_beta)

lemma frame_at_ok: "i + 1020 \<le> length b \<Longrightarrow> frame_ok (frame_at b i)"
  by (simp add: frame_ok_def frame_at_def)

lemma list_all_bytes: "length xs = 6 \<Longrightarrow> length ys = 6 \<Longrightarrow> list_all (\<lambda>i. xs ! i = ys ! i) [0..<6] \<longleftrightarrow> xs = ys"
  by (auto simp: list_all_iff intro: nth_equalityI)

lemma isForMe_eq:
  assumes "frame_ok f"
  shows "fst (isForMe dev f h) \<longleftrightarrow> macDest f = fst (getMacAdress dev h) \<or> macDest f = replicate 6 BROADCAST"
proof -
  have a: "list_all (\<lambda>i. macDest f ! i = fst (getMacAdress dev h) ! i) [0..<6] \<longleftrightarrow> macDest f = fst (getMacAdress dev h)"
    using assms by (intro list_all_bytes) (simp_all add: frame_ok_def)
  have "list_all (\<lambda>i. macDest f ! i = BROADCAST) [0..<6] \<longleftrightarrow> list_all (\<lambda>i. macDest f ! i = replicate 6 BROADCAST ! i) [0..<6]"
    by (auto simp: list_all_iff)
  also have "\<dots> \<longleftrightarrow> macDest f = replicate 6 BROADCAST"
    using assms by (intro list_all_bytes) (simp_all add: frame_ok_def)
  finally show ?thesis using a by (auto simp: isForMe_def Let_def case_prod_beta)
qed

subsection \<open>One frame\<close>

definition own_mac :: "device \<Rightarrow> byte list \<Rightarrow> bool" where
  \<comment> \<open>the card answers its address, whenever it is asked\<close>
  "own_mac dev a \<longleftrightarrow> (\<forall>h. fst (getMacAdress dev h) = a)"

definition accepts :: "byte list \<Rightarrow> rtl \<Rightarrow> bool" where
  \<comment> \<open>the handler stores the frame of the receive buffer\<close>
  "accepts a r \<longleftrightarrow> macDest (messages r ! nexToWrite r) ! 0 = 0
     \<and> (macDest (frame_at (reBuffer r) 4) = a \<or> macDest (frame_at (reBuffer r) 4) = replicate 6 BROADCAST)"

definition same_ring :: "rtl \<Rightarrow> rtl \<Rightarrow> bool" where
  "same_ring r s \<longleftrightarrow> messages s = messages r \<and> nexToWrite s = nexToWrite r \<and> nextToRead s = nextToRead r
     \<and> reBuffer s = reBuffer r \<and> trBuffer s = trBuffer r"

definition received :: "device \<Rightarrow> rtl \<Rightarrow> bool" where
  \<comment> \<open>the status that the handler reads says that a frame was received\<close>
  "received dev r \<longleftrightarrow> fst (sysInWord dev (IO_ADDRESS + ISR) (ports r)) AND 0x1 \<noteq> 0"

definition resets :: "device \<Rightarrow> bool" where
  \<comment> \<open>the documented behaviour of the card: the reset bit reads 0 after some time\<close>
  "resets dev \<longleftrightarrow> (\<forall>h. \<exists>n. dev (h @ replicate (Suc n) (In32 (IO_ADDRESS + CR))) AND 0x10 = 0)"

lemma waitReset_returns:
  assumes "resets dev"
  shows "\<exists>h'. waitReset dev h = Some h'"
proof -
  let ?e = "In32 (IO_ADDRESS + CR)"
  have "\<exists>h'. waitReset dev h = Some h'" if "dev (h @ replicate (Suc n) ?e) AND 0x10 = 0" for n h
    using that
  proof (induction n arbitrary: h)
    case 0
    then show ?case by (subst waitReset.simps) (simp add: sysInLong_def Let_def)
  next
    case (Suc n)
    show ?case
    proof (cases "dev (h @ [?e]) AND 0x10 = 0")
      case True
      then show ?thesis by (subst waitReset.simps) (simp add: sysInLong_def Let_def)
    next
      case False
      have "waitReset dev h = waitReset dev (h @ [?e])"
        using False by (subst waitReset.simps) (simp add: sysInLong_def Let_def)
      then show ?thesis using Suc.IH [of "h @ [?e]"] Suc.prems by simp
    qed
  qed
  then show ?thesis using assms unfolding resets_def by blast
qed

lemma rtlHandler_ring:
  assumes own: "own_mac dev a" and ok: "rtl_ok r"
  shows "rtlHandler dev re tr r = Some s \<Longrightarrow>
    (if received dev r \<and> accepts a r
     then messages s = (messages r)[nexToWrite r := frame_at (reBuffer r) 4]
       \<and> nexToWrite s = (nexToWrite r + 1) mod 100 \<and> nextToRead s = nextToRead r \<and> reBuffer s = reBuffer r
       \<and> trBuffer s = trBuffer r
     else same_ring r s)"
    and "resets dev \<Longrightarrow> \<exists>s. rtlHandler dev re tr r = Some s"
proof -
  have f: "frame_ok (frame_at (reBuffer r) 4)" using ok by (simp add: rtl_ok_def frame_at_ok)
  have n: "nexToWrite r mod 100 = nexToWrite r" using ok by (simp add: rtl_ok_def)
  have me: "fst (isForMe dev (frame_at (reBuffer r) 4) h) \<longleftrightarrow>
      macDest (frame_at (reBuffer r) 4) = a \<or> macDest (frame_at (reBuffer r) 4) = replicate 6 BROADCAST" for h
    using isForMe_eq [OF f] own by (simp add: own_mac_def)
  show "rtlHandler dev re tr r = Some s \<Longrightarrow>
    (if received dev r \<and> accepts a r
     then messages s = (messages r)[nexToWrite r := frame_at (reBuffer r) 4]
       \<and> nexToWrite s = (nexToWrite r + 1) mod 100 \<and> nextToRead s = nextToRead r \<and> reBuffer s = reBuffer r
       \<and> trBuffer s = trBuffer r
     else same_ring r s)" using n me
    by (auto simp: rtlHandler_def received_def Let_def case_prod_beta same_ring_def accepts_def bind_eq_Some_conv
        split: if_splits)
  have "\<exists>h'. initRTL dev re tr h = Some h'" if "resets dev" for h
    using waitReset_returns [OF that] by (auto simp: initRTL_def bind_eq_Some_conv)
  then show "resets dev \<Longrightarrow> \<exists>s. rtlHandler dev re tr r = Some s"
    by (auto simp: rtlHandler_def Let_def case_prod_beta bind_eq_Some_conv)
qed

lemma rtlHandler_ok:
  assumes "own_mac dev a" and "rtl_ok r" and "rtlHandler dev re tr r = Some s"
  shows "rtl_ok s"
proof -
  have f: "frame_ok (frame_at (reBuffer r) 4)" using assms(2) by (simp add: rtl_ok_def frame_at_ok)
  have "\<forall>f \<in> set ((messages r)[n := frame_at (reBuffer r) 4]). frame_ok f" for n
    using assms(2) f set_update_subset_insert [of "messages r" n] by (auto simp: rtl_ok_def)
  then show ?thesis
    using rtlHandler_ring(1) [OF assms] assms(2)
    by (cases "received dev r \<and> accepts a r") (auto simp: same_ring_def rtl_ok_def)
qed

subsection \<open>Handing a message out\<close>

definition message_of :: "ethFrame \<Rightarrow> ethMsg \<Rightarrow> bool" where
  \<comment> \<open>the message is the one in the frame\<close>
  "message_of f m \<longleftrightarrow> mac m = macSrc f \<and> msg_length m = frame_length f - 1 \<and> msg_type m = payload f ! 0
     \<and> take (unat (msg_length m)) (msg m) = take (unat (msg_length m)) (drop 1 (payload f))"

lemma getMsg_spec:
  assumes ok: "rtl_ok r" and m: "message_ok m" and ne: "nextToRead r \<noteq> nexToWrite r"
  shows "getMsg m r =
    (if unat (frame_length (messages r ! nextToRead r) - 1) \<le> 999
     then let f = messages r ! nextToRead r; n = unat (frame_length f - 1)
          in Some (int n + 8, m\<lparr>mac := macSrc f, msg_length := frame_length f - 1, msg_type := payload f ! 0,
                msg := take n (drop 1 (payload f)) @ drop n (msg m)\<rparr>,
              r\<lparr>nextToRead := (nextToRead r + 1) mod 100\<rparr>)
     else None)"
proof -
  have f: "frame_ok (messages r ! nextToRead r)" using ok by (simp add: rtl_ok_def)
  then have "mymemcpy (mac m) 0 (macSrc (messages r ! nextToRead r)) 0 6 = Some (macSrc (messages r ! nextToRead r))"
    using m by (simp add: frame_ok_def message_ok_def)
  moreover define w where "w = frame_length (messages r ! nextToRead r) - 1"
  moreover have "uint w = int (unat w)" by simp
  moreover have "unat w = 0 \<or> 1 + unat w \<le> 1000 \<and> unat w \<le> 1000 \<longleftrightarrow> unat w \<le> 999" by auto
  ultimately show ?thesis using f m ne
    by (simp only: getMsg_def Let_def frame_ok_def message_ok_def if_False bind.bind_lunit ethMsg.simps
        ethMsg.update_convs ethMsg.select_convs mymemcpy_uint mymemcpy_eq) (simp add: frame_ok_def)
qed

subsection \<open>Sending\<close>

definition frame_bytes :: "ethFrame \<Rightarrow> byte list \<Rightarrow> byte list" where
  \<comment> \<open>what \<open>transmit\<close> leaves in the buffer: byte 13, the high byte of the length, is not written\<close>
  "frame_bytes f tr =
     (let n = unat (frame_length f)
      in macDest f @ macSrc f @ ucast (frame_length f) # tr ! 13 # take n (payload f)
         @ ucast (frameCheck f) # drop (15 + n) tr)"

lemma transmit_bytes:
  assumes f: "frame_ok f" and n: "unat (frame_length f) \<le> 1000" and tr: "length (trBuffer r) = 3" "length (trBuffer r ! 0) = 8192"
  shows "\<exists>h. transmit (Some f) r = Some (r\<lparr>trBuffer := (trBuffer r)[0 := frame_bytes f (trBuffer r ! 0)], ports := h\<rparr>)"
proof -
  let ?t = "trBuffer r ! 0"
  let ?n = "unat (frame_length f)"
  have l: "length (macDest f) = 6" "length (macSrc f) = 6" "length (payload f) = 1000" using f by (simp_all add: frame_ok_def)
  have s1: "mymemcpy ?t 0 (macDest f) 0 6 = Some (macDest f @ drop 6 ?t)" using l tr by simp
  have s2: "mymemcpy (macDest f @ drop 6 ?t) 6 (macSrc f) 0 6 = Some (macDest f @ macSrc f @ drop 12 ?t)"
    using l tr by simp
  have d: "drop 12 ?t = ?t ! 12 # ?t ! 13 # drop 14 ?t"
    using Cons_nth_drop_Suc [of 12 ?t] Cons_nth_drop_Suc [of 13 ?t] tr by simp
  have s3: "array_put 12 x (macDest f @ macSrc f @ drop 12 ?t) = Some (macDest f @ macSrc f @ x # ?t ! 13 # drop 14 ?t)" for x
    using l tr by (simp add: array_put_def d list_update_append)
  have s4: "mymemcpy (macDest f @ macSrc f @ x # ?t ! 13 # drop 14 ?t) 14 (payload f) 0 (int ?n) =
      Some (macDest f @ macSrc f @ x # ?t ! 13 # take ?n (payload f) @ drop (14 + ?n) ?t)" for x
    using l tr n by (subst mymemcpy_Some) (simp_all add: add.commute)
  have d2: "drop (14 + ?n) ?t = ?t ! (14 + ?n) # drop (15 + ?n) ?t"
    using Cons_nth_drop_Suc [of "14 + ?n" ?t] tr n by simp
  have s5: "array_put (14 + ?n) y (macDest f @ macSrc f @ x # ?t ! 13 # take ?n (payload f) @ drop (14 + ?n) ?t) =
      Some (macDest f @ macSrc f @ x # ?t ! 13 # take ?n (payload f) @ y # drop (15 + ?n) ?t)" for x y
    using l tr n by (simp add: array_put_def d2 list_update_append)
  show ?thesis
    using s4 by (simp add: transmit_def Let_def s1 s2 s3 s5 frame_bytes_def) blast
qed

lemma frame_at_cong:
  assumes e: "take 1020 (drop i b) = take 1020 (drop j c)" and l: "i + 1020 \<le> length b" "j + 1020 \<le> length c"
  shows "frame_at b i = frame_at c j"
proof -
  have n: "b ! (i + k) = c ! (j + k)" if "k < 1020" for k
  proof -
    have "take 1020 (drop i b) ! k = take 1020 (drop j c) ! k" using e by simp
    then show ?thesis using that l by simp
  qed
  have t: "take k (drop (i + d) b) = take k (drop (j + d) c)" if "d + k \<le> 1020" for k d
    using l that n by (intro nth_equalityI) (simp_all add: add.assoc)
  have "take 6 (drop i b) = take 6 (drop j c)" "take 6 (drop (i + 6) b) = take 6 (drop (j + 6) c)"
    "take 1000 (drop (i + 14) b) = take 1000 (drop (j + 14) c)"
    using t [of 0 6] t [of 6 6] t [of 14 1000] by simp_all
  then show ?thesis using n by (simp add: frame_at_def)
qed

lemma frame_at_frame_bytes:
  assumes f: "frame_ok f" and n: "unat (frame_length f) \<le> 1000" and tr: "length tr = 8192" "tr ! 13 = 0"
  shows "macDest (frame_at (frame_bytes f tr) 0) = macDest f" and "macSrc (frame_at (frame_bytes f tr) 0) = macSrc f"
    and "frame_length (frame_at (frame_bytes f tr) 0) = ucast (ucast (frame_length f) :: byte)"
    and "take (unat (frame_length f)) (payload (frame_at (frame_bytes f tr) 0)) = take (unat (frame_length f)) (payload f)"
  using assms by (simp_all add: frame_ok_def frame_at_def frame_bytes_def Let_def nth_append)

lemma low_byte_iff: "ucast (ucast w :: byte) = (w :: 16 word) \<longleftrightarrow> unat w < 256"
proof -
  have "unat (ucast (ucast w :: byte) :: 16 word) = unat w mod 256"
    by (simp add: unsigned_ucast_eq unsigned_take_bit_eq) (simp add: take_bit_eq_mod)
  moreover have "unat w mod 256 = unat w \<longleftrightarrow> unat w < 256" by auto
  ultimately show ?thesis by (metis word_unat_eq_iff)
qed

lemma sendMsg_frame:
  assumes m: "message_ok m" and len: "unat (msg_length m) \<le> 999" and f: "frame_ok f" and r: "rtl_ok r"
    and own: "own_mac dev a"
  shows "\<exists>g h. sendMsg dev f m r = Some (r\<lparr>trBuffer := (trBuffer r)[0 := frame_bytes g (trBuffer r ! 0)], ports := h\<rparr>)
    \<and> frame_ok g \<and> macDest g = mac m \<and> macSrc g = a
    \<and> frame_length g = msg_length m + 1 \<and> unat (frame_length g) = Suc (unat (msg_length m))
    \<and> take (unat (frame_length g)) (payload g) = msg_type m # take (unat (msg_length m)) (msg m)"
proof -
  let ?n = "unat (msg_length m)"
  let ?p = "msg_type m # take ?n (msg m) @ drop (Suc ?n) (payload f)"
  define g where "g = f\<lparr>macDest := mac m, macSrc := a, frame_length := msg_length m + 1, payload := ?p,
    frameCheck := ucast (msg_type m)\<rparr>"
  have lens: "length (mac m) = 6" "length (msg m) = 1000" "length (payload f) = 1000" "length a = 6"
    using m f own getMacAdress_length [of dev "[]"] by (auto simp: message_ok_def frame_ok_def own_mac_def)
  have g: "frame_ok g" using lens len by (simp add: frame_ok_def g_def)
  have n1: "unat (frame_length g) = Suc ?n"
  proof -
    have "msg_length m + 1 = of_nat (Suc ?n)" by simp
    then show ?thesis using len by (simp only: g_def ethFrame.simps) (simp add: unat_of_nat take_bit_nat_eq_self flip: of_nat_Suc)
  qed
  have tr: "length (trBuffer r) = 3" "length (trBuffer r ! 0) = 8192" using r by (simp_all add: rtl_ok_def)
  have dest: "map (\<lambda>i. mac m ! i) [0..<6] = mac m" using lens(1) map_nth [of "mac m"] by simp
  have src: "fst (getMacAdress dev h) = a" for h using own by (simp add: own_mac_def)
  have p0: "array_put 0 (msg_type m) (payload f) = Some (msg_type m # drop 1 (payload f))"
    using lens by (cases "payload f") (simp_all add: array_put_def)
  have "mymemcpy (msg_type m # drop 1 (payload f)) 1 (msg m) 0 (int ?n) = Some ?p"
    using lens len by (subst mymemcpy_Some) simp_all
  then have p1: "mymemcpy (msg_type m # drop 1 (payload f)) 1 (msg m) 0 (uint (msg_length m)) = Some ?p" by simp
  have "sendMsg dev f m r = transmit (Some g) (r\<lparr>ports := snd (getMacAdress dev (ports r))\<rparr>)"
    by (simp add: sendMsg_def Let_def case_prod_beta dest src p0 p1 [simplified] g_def)
  moreover obtain h where "transmit (Some g) (r\<lparr>ports := snd (getMacAdress dev (ports r))\<rparr>) =
      Some (r\<lparr>trBuffer := (trBuffer r)[0 := frame_bytes g (trBuffer r ! 0)], ports := h\<rparr>)"
    using transmit_bytes [OF g, of "r\<lparr>ports := snd (getMacAdress dev (ports r))\<rparr>"] n1 len tr by auto
  ultimately have "sendMsg dev f m r = Some (r\<lparr>trBuffer := (trBuffer r)[0 := frame_bytes g (trBuffer r ! 0)], ports := h\<rparr>)"
    by simp
  moreover have "take (unat (frame_length g)) (payload g) = msg_type m # take ?n (msg m)"
    unfolding n1 using lens len by (simp add: g_def)
  ultimately show ?thesis using g n1 by (intro exI [of _ g] exI [of _ h]) (simp add: g_def)
qed

subsection \<open>Runs of the driver\<close>

inductive rtl_run :: "device \<Rightarrow> 32 word \<Rightarrow> 32 word \<Rightarrow> byte list \<Rightarrow> rtl \<Rightarrow> ethFrame list \<Rightarrow> ethMsg list \<Rightarrow> bool"
  for dev re tr a where
  \<comment> \<open>the state, the frames stored so far and the messages handed out so far\<close>
  boot: "rtl_ok r \<Longrightarrow> nexToWrite r = 0 \<Longrightarrow> nextToRead r = 0 \<Longrightarrow> \<forall>f \<in> set (messages r). macDest f ! 0 = 0
    \<Longrightarrow> rtl_run dev re tr a r [] []"
| card: "rtl_run dev re tr a r acc del \<Longrightarrow> length b = RE_BUFFER_SIZE
    \<Longrightarrow> rtl_run dev re tr a (r\<lparr>reBuffer := b\<rparr>) acc del"
| interrupt: "rtl_run dev re tr a r acc del \<Longrightarrow> rtlHandler dev re tr r = Some s
    \<Longrightarrow> rtl_run dev re tr a s (if received dev r \<and> accepts a r then acc @ [frame_at (reBuffer r) 4] else acc) del"
| take_one: "rtl_run dev re tr a r acc del \<Longrightarrow> message_ok m \<Longrightarrow> getMsg m r = Some (k, m', s)
    \<Longrightarrow> rtl_run dev re tr a s acc (if nextToRead r = nexToWrite r then del else del @ [m'])"

definition rtl_log :: "rtl \<Rightarrow> ethFrame list \<Rightarrow> ethMsg list \<Rightarrow> bool" where
  "rtl_log r acc del \<longleftrightarrow> rtl_ok r \<and> length acc \<le> 100 \<and> length del \<le> length acc
     \<and> nexToWrite r = length acc mod 100 \<and> nextToRead r = length del mod 100
     \<and> (\<forall>i < length acc. messages r ! i = acc ! i \<and> macDest (acc ! i) ! 0 \<noteq> 0)
     \<and> (\<forall>i < 100. length acc \<le> i \<longrightarrow> macDest (messages r ! i) ! 0 = 0)
     \<and> list_all2 message_of (take (length del) acc) del"

lemma mod_100_less: "k < 100 \<Longrightarrow> k mod 100 = (k :: nat)"
  by simp

lemma rtl_log_full: "rtl_log r acc del \<Longrightarrow> length acc = 100 \<Longrightarrow> \<not> accepts a r"
  unfolding rtl_log_def accepts_def by (metis mod_self zero_less_numeral)

lemma rtl_log_interrupt:
  assumes log: "rtl_log r acc del" and run: "rtlHandler dev re tr r = Some s" and own: "own_mac dev a" and nz: "a ! 0 \<noteq> 0"
  shows "rtl_log s (if received dev r \<and> accepts a r then acc @ [frame_at (reBuffer r) 4] else acc) del"
proof -
  have ok: "rtl_ok r" using log by (simp add: rtl_log_def)
  note ok' = rtlHandler_ok [OF own ok run]
  note ring = rtlHandler_ring(1) [OF own ok run]
  show ?thesis
  proof (cases "received dev r \<and> accepts a r")
    case False
    from ring [unfolded if_not_P [OF False]] log ok' show ?thesis
      unfolding if_not_P [OF False] by (simp add: same_ring_def rtl_log_def)
  next
    case True
    let ?f = "frame_at (reBuffer r) 4"
    have n: "length acc < 100" using rtl_log_full [OF log] True log by (fastforce simp: rtl_log_def)
    then have w: "nexToWrite r = length acc" using log by (simp add: rtl_log_def)
    have m: "messages s = (messages r)[length acc := ?f]" "nexToWrite s = (length acc + 1) mod 100" "nextToRead s = nextToRead r"
      using ring True w by simp_all
    have nz': "macDest ?f ! 0 \<noteq> 0" using True nz by (auto simp: accepts_def)
    have l: "length (messages r) = 100" using ok by (simp add: rtl_ok_def)
    have stored: "messages s ! i = (acc @ [?f]) ! i \<and> macDest ((acc @ [?f]) ! i) ! 0 \<noteq> 0" if "i < length (acc @ [?f])" for i
      using that log n l m(1) nz' by (cases "i = length acc") (auto simp: rtl_log_def nth_append)
    have free: "macDest (messages s ! i) ! 0 = 0" if "i < 100" "length (acc @ [?f]) \<le> i" for i
      using that log l m(1) by (simp add: rtl_log_def)
    have "length del \<le> length acc" "list_all2 message_of (take (length del) acc) del" "nextToRead r = length del mod 100"
      using log by (simp_all add: rtl_log_def)
    then show ?thesis using True n ok' m stored free unfolding rtl_log_def by simp
  qed
qed

lemma rtl_log_get:
  assumes log: "rtl_log r acc del" and m: "message_ok m" and run: "getMsg m r = Some (k, m', s)"
  shows "rtl_log s acc (if nextToRead r = nexToWrite r then del else del @ [m'])"
proof (cases "nextToRead r = nexToWrite r")
  case True
  then show ?thesis using log run by (simp add: getMsg_def)
next
  case False
  have ok: "rtl_ok r" using log by (simp add: rtl_log_def)
  have le: "length del \<le> length acc" "length acc \<le> 100" using log by (simp_all add: rtl_log_def)
  have lt: "length del < length acc"
  proof (rule ccontr)
    assume "\<not> length del < length acc"
    then have "length del = length acc" using le by simp
    then show False using False log by (simp add: rtl_log_def)
  qed
  then have rd: "nextToRead r = length del" using le log by (simp add: rtl_log_def)
  let ?f = "messages r ! length del"
  have f: "?f = acc ! length del" using log lt by (simp add: rtl_log_def)
  have n: "unat (frame_length ?f - 1) \<le> 999"
    using getMsg_spec [OF ok m False] run rd by (metis option.distinct(1))
  have res: "m' = m\<lparr>mac := macSrc ?f, msg_length := frame_length ?f - 1, msg_type := payload ?f ! 0,
      msg := take (unat (frame_length ?f - 1)) (drop 1 (payload ?f)) @ drop (unat (frame_length ?f - 1)) (msg m)\<rparr>"
      "s = r\<lparr>nextToRead := (length del + 1) mod 100\<rparr>"
    using getMsg_spec [OF ok m False] run rd n by (simp_all add: Let_def)
  have p: "length (payload ?f) = 1000" using ok lt le by (simp add: rtl_ok_def frame_ok_def)
  have "message_of ?f m'" using n p by (simp add: res(1) message_of_def min_def)
  moreover have "take (length (del @ [m'])) acc = take (length del) acc @ [?f]"
    using lt f by (simp add: take_Suc_conv_app_nth)
  ultimately have del: "list_all2 message_of (take (length (del @ [m'])) acc) (del @ [m'])"
    using log by (simp add: rtl_log_def list_all2_appendI)
  have "rtl_ok s" using ok by (simp add: res(2) rtl_ok_def)
  then show ?thesis using False log lt del by (simp add: rtl_log_def res(2))
qed

lemma rtl_run_log:
  assumes "rtl_run dev re tr a r acc del" and "own_mac dev a" and "a ! 0 \<noteq> 0"
  shows "rtl_log r acc del"
  using assms(1)
proof induction
  case (boot r)
  have "macDest (messages r ! i) ! 0 = 0" if "i < 100" for i
    using boot that by (simp add: rtl_ok_def)
  then show ?case using boot by (simp add: rtl_log_def)
next
  case (card r acc del b)
  then show ?case by (simp add: rtl_log_def rtl_ok_def)
next
  case (interrupt r acc del s)
  then show ?case using rtl_log_interrupt assms(2,3) by blast
next
  case (take_one r acc del m k m' s)
  then show ?case using rtl_log_get by blast
qed

subsection \<open>Properties\<close>

text \<open>C32. However interrupts, arriving frames and reads are interleaved, the messages handed out are those in the
  frames that were accepted, each once and in the order they arrived; at most 100 are ever accepted, as no
  read frees a place of the ring (the cards' addresses do not start with 0).\<close>

theorem rtl_messages_in_order:
  assumes "rtl_run dev re tr a r acc del" and "own_mac dev a" and "a ! 0 \<noteq> 0"
  shows "length del \<le> length acc \<and> length acc \<le> 100 \<and> list_all2 message_of (take (length del) acc) del"
  using rtl_run_log [OF assms] by (simp add: rtl_log_def)

text \<open>C33. After 100 accepted frames the driver is deaf: whatever the card receives and however many messages have
  been read, the handler returns and stores nothing; if none has been read, none can be read any more.\<close>

theorem rtl_deaf_after_hundred:
  assumes "rtl_run dev re tr a r acc del" and "own_mac dev a" and "a ! 0 \<noteq> 0" and "resets dev"
    and "length acc = 100" and "length b = RE_BUFFER_SIZE"
  shows "(\<exists>s. rtlHandler dev re tr (r\<lparr>reBuffer := b\<rparr>) = Some s \<and> same_ring (r\<lparr>reBuffer := b\<rparr>) s)
    \<and> (del = [] \<longrightarrow> getMsg m r = Some (0, m, r))"
proof -
  let ?r = "r\<lparr>reBuffer := b\<rparr>"
  note run = rtl_run.card [OF assms(1,6)]
  note log = rtl_run_log [OF run assms(2,3)]
  have ok: "rtl_ok ?r" using log by (simp add: rtl_log_def)
  have no: "\<not> (received dev ?r \<and> accepts a ?r)" using rtl_log_full [OF log assms(5)] by simp
  obtain s where s: "rtlHandler dev re tr ?r = Some s" using rtlHandler_ring(2) [OF assms(2) ok assms(4)] by blast
  have "same_ring ?r s" using rtlHandler_ring(1) [OF assms(2) ok s] unfolding if_not_P [OF no] .
  moreover have "del = [] \<Longrightarrow> getMsg m r = Some (0, m, r)"
    using log assms(5) by (simp add: rtl_log_def getMsg_def)
  ultimately show ?thesis using s by blast
qed

text \<open>A message travels intact from one machine to another exactly when it is shorter than 255 bytes: the
  addresses, the type and the bytes arrive, but of the length only the low byte is sent.\<close>

theorem message_survives_iff_short:
  assumes m: "message_ok m" and len: "unat (msg_length m) \<le> 999" and f: "frame_ok f"
    and r: "rtl_ok r" "trBuffer r ! 0 ! 13 = 0" and own: "own_mac dev a"
  shows "\<exists>s. sendMsg dev f m r = Some s
    \<and> (\<forall>b. length b = RE_BUFFER_SIZE \<and> take 1020 (drop 4 b) = take 1020 (trBuffer s ! 0) \<longrightarrow>
         macDest (frame_at b 4) = mac m \<and> macSrc (frame_at b 4) = a \<and> payload (frame_at b 4) ! 0 = msg_type m
         \<and> take (unat (msg_length m)) (drop 1 (payload (frame_at b 4))) = take (unat (msg_length m)) (msg m)
         \<and> (frame_length (frame_at b 4) - 1 = msg_length m \<longleftrightarrow> unat (msg_length m) < 255))"
proof -
  let ?n = "unat (msg_length m)"
  let ?tr = "trBuffer r ! 0"
  obtain g h where sent: "sendMsg dev f m r = Some (r\<lparr>trBuffer := (trBuffer r)[0 := frame_bytes g ?tr], ports := h\<rparr>)"
    and g: "frame_ok g" "macDest g = mac m" "macSrc g = a"
      "frame_length g = msg_length m + 1" "unat (frame_length g) = Suc ?n"
      "take (unat (frame_length g)) (payload g) = msg_type m # take ?n (msg m)"
    using sendMsg_frame [OF m len f r(1) own] by blast
  have tr: "length ?tr = 8192" "length (trBuffer r) = 3" using r(1) by (simp_all add: rtl_ok_def)
  have n: "unat (frame_length g) \<le> 1000" using g(5) len by simp
  have big: "length (frame_bytes g ?tr) \<ge> 1020" using g(1) n tr by (simp add: frame_bytes_def frame_ok_def Let_def)
  note fields0 = frame_at_frame_bytes [OF g(1) n tr(1) r(2)]
  have "macDest (frame_at b 4) = mac m \<and> macSrc (frame_at b 4) = a \<and> payload (frame_at b 4) ! 0 = msg_type m
         \<and> take ?n (drop 1 (payload (frame_at b 4))) = take ?n (msg m)
         \<and> (frame_length (frame_at b 4) - 1 = msg_length m \<longleftrightarrow> ?n < 255)"
    if b: "length b = RE_BUFFER_SIZE" "take 1020 (drop 4 b) = take 1020 (frame_bytes g ?tr)" for b
  proof -
    have at: "frame_at b 4 = frame_at (frame_bytes g ?tr) 0"
      using b big by (intro frame_at_cong) simp_all
    note fields = fields0 [folded at]
    let ?q = "payload (frame_at b 4)"
    have pre: "take (Suc ?n) ?q = msg_type m # take ?n (msg m)"
      using fields(4) g(6) unfolding g(5) by simp
    have "?q ! 0 = take (Suc ?n) ?q ! 0" by simp
    then have "?q ! 0 = msg_type m" unfolding pre by simp
    moreover have "take ?n (drop 1 ?q) = drop 1 (take (Suc ?n) ?q)" by (simp add: take_drop)
    then have "take ?n (drop 1 ?q) = take ?n (msg m)" unfolding pre by simp
    moreover have "frame_length (frame_at b 4) - 1 = msg_length m \<longleftrightarrow> ucast (ucast (frame_length g) :: byte) = frame_length g"
      unfolding fields(3) g(4) by (simp add: diff_eq_eq)
    then have "frame_length (frame_at b 4) - 1 = msg_length m \<longleftrightarrow> ?n < 255" unfolding low_byte_iff g(5) by simp
    ultimately show ?thesis using fields(1,2) g(2,3) by simp
  qed
  then show ?thesis using sent tr(2) by simp
qed

text \<open>\<open>getMsg\<close> believes the length in the frame: it stays inside the 1000 bytes of the payload and of the
  message exactly when that length is between 1 and 1000; any other frame the network delivers makes the copy
  leave the arrays.\<close>

theorem getMsg_stays_inside_iff:
  assumes "rtl_ok r" and "message_ok m" and "nextToRead r \<noteq> nexToWrite r"
  shows "getMsg m r \<noteq> None \<longleftrightarrow> frame_length (messages r ! nextToRead r) \<in> {1..1000}"
proof -
  define w where "w = frame_length (messages r ! nextToRead r)"
  have "unat (w - 1) \<le> 999 \<longleftrightarrow> w \<in> {1..1000}"
  proof (cases "w = 0")
    case False
    then have "unat (w - 1) = unat w - 1" by (simp add: unat_minus_one)
    moreover have "0 < unat w" using False by (simp add: unat_gt_0)
    ultimately show ?thesis using False by (auto simp: word_le_nat_alt)
  qed (simp add: unsigned_minus_1_eq_mask mask_eq_exp_minus_1)
  then show ?thesis using getMsg_spec [OF assms] by (simp add: w_def Let_def)
qed

subsection \<open>A card with an address and a frame for everybody\<close>

definition demo_card :: device where
  "demo_card h = (case last h of
     In16 _ \<Rightarrow> 1
   | In32 p \<Rightarrow> if p = IO_ADDRESS then 0x12005452 else if p = IO_ADDRESS + 4 then 0x5634 else 0
   | _ \<Rightarrow> 0)"

definition demo_mac :: "byte list" where
  "demo_mac = [0x52, 0x54, 0x00, 0x12, 0x34, 0x56]"

definition demo_frame_bytes :: "byte list" where
  "demo_frame_bytes = replicate 4 0 @ replicate 6 BROADCAST @ replicate 6 7 @ [3, 0] @ replicate (RE_BUFFER_SIZE - 18) 9"

definition demo_message :: ethMsg where
  "demo_message = \<lparr>mac = replicate 6 7, msg = replicate 1000 0, msg_length = 2, msg_type = 1\<rparr>"

definition demo_ethFrame :: ethFrame where
  "demo_ethFrame = \<lparr>macDest = replicate 6 0, macSrc = replicate 6 0, frame_length = 0, payload = replicate 1000 0, frameCheck = 0\<rparr>"

definition demo_rtl :: rtl where
  "demo_rtl = \<lparr>trBuffer = replicate 3 (replicate 8192 0), reBuffer = demo_frame_bytes,
     messages = replicate 100 demo_ethFrame, nexToWrite = 0, nextToRead = 0, ports = []\<rparr>"

lemma demo_mac_own: "own_mac demo_card demo_mac"
proof -
  have "fst (getMacAdress demo_card h) = demo_mac" for h
    by (simp add: getMacAdress_def sysInLong_def demo_card_def Let_def demo_mac_def)
  then show ?thesis by (simp add: own_mac_def)
qed

lemma demo_card_resets: "resets demo_card"
proof -
  have "demo_card (h @ replicate (Suc 0) (In32 (IO_ADDRESS + CR))) AND 0x10 = 0" for h by (simp add: demo_card_def)
  then show ?thesis unfolding resets_def by blast
qed

lemma demo_frame_ok: "frame_ok demo_ethFrame" and demo_message_ok: "message_ok demo_message"
  by (simp_all add: frame_ok_def demo_ethFrame_def message_ok_def demo_message_def)

lemma demo_bytes_length: "length demo_frame_bytes = RE_BUFFER_SIZE"
  by (simp add: demo_frame_bytes_def)

lemma demo_rtl_ok: "rtl_ok demo_rtl"
  using demo_frame_ok demo_bytes_length by (simp add: rtl_ok_def demo_rtl_def)

lemma demo_frame_dest: "macDest (frame_at demo_frame_bytes 4) = replicate 6 BROADCAST"
  by (simp add: frame_at_def demo_frame_bytes_def)

lemma demo_frame_len: "frame_length (frame_at demo_frame_bytes 4) = 3"
  by (simp add: frame_at_def demo_frame_bytes_def nth_append)

lemma demo_run:
  "n \<le> 100 \<Longrightarrow> \<exists>r. rtl_run demo_card 0 0 demo_mac r (replicate n (frame_at demo_frame_bytes 4)) [] \<and> reBuffer r = demo_frame_bytes"
proof (induction n)
  case 0
  have "\<forall>f \<in> set (messages demo_rtl). macDest f ! 0 = 0" by (simp add: demo_rtl_def demo_ethFrame_def)
  then have "rtl_run demo_card 0 0 demo_mac demo_rtl [] []"
    by (intro rtl_run.boot demo_rtl_ok) (simp_all add: demo_rtl_def)
  then show ?case by (auto simp: demo_rtl_def)
next
  case (Suc n)
  let ?f = "frame_at demo_frame_bytes 4"
  obtain r where r: "rtl_run demo_card 0 0 demo_mac r (replicate n ?f) []" "reBuffer r = demo_frame_bytes"
    using Suc by auto
  have "demo_mac ! 0 \<noteq> 0" by (simp add: demo_mac_def)
  note log = rtl_run_log [OF r(1) demo_mac_own this]
  have ok: "rtl_ok r" using log by (simp add: rtl_log_def)
  obtain s where s: "rtlHandler demo_card 0 0 r = Some s" using rtlHandler_ring(2) [OF demo_mac_own ok demo_card_resets] by blast
  have "macDest (messages r ! n) ! 0 = 0" "nexToWrite r = n" using log Suc.prems by (simp_all add: rtl_log_def)
  then have acc: "received demo_card r \<and> accepts demo_mac r"
    using demo_frame_dest by (simp add: accepts_def r(2) received_def sysInWord_def demo_card_def Let_def)
  have "rtl_run demo_card 0 0 demo_mac s (replicate n ?f @ [?f]) []"
    using rtl_run.interrupt [OF r(1) s] acc r(2) by simp
  moreover have "reBuffer s = demo_frame_bytes"
    using rtlHandler_ring(1) [OF demo_mac_own ok s] r(2) unfolding if_P [OF acc] by simp
  ultimately show ?case by (auto simp: replicate_append_same)
qed

theorem rtl_messages_in_order_witness:
  "\<exists>r acc del. rtl_run demo_card 0 0 demo_mac r acc del \<and> length del = 1
    \<and> length del \<le> length acc \<and> length acc \<le> 100 \<and> list_all2 message_of (take (length del) acc) del"
proof -
  have nz: "demo_mac ! 0 \<noteq> 0" by (simp add: demo_mac_def)
  obtain r where r: "rtl_run demo_card 0 0 demo_mac r [frame_at demo_frame_bytes 4] []"
    using demo_run [of 1] by auto
  have log: "rtl_log r [frame_at demo_frame_bytes 4] []" using rtl_run_log [OF r demo_mac_own nz] .
  then have at: "rtl_ok r" "nextToRead r = 0" "nexToWrite r = 1" "messages r ! 0 = frame_at demo_frame_bytes 4"
    by (simp_all add: rtl_log_def)
  obtain k m' s where "getMsg demo_message r = Some (k, m', s)"
    using getMsg_spec [OF at(1) demo_message_ok] at demo_frame_len by (simp add: Let_def)
  then have run: "rtl_run demo_card 0 0 demo_mac s [frame_at demo_frame_bytes 4] [m']"
    using rtl_run.take_one [OF r demo_message_ok] at by fastforce
  from run rtl_messages_in_order [OF run demo_mac_own nz] show ?thesis
    by (intro exI [of _ s] exI [of _ "[frame_at demo_frame_bytes 4]"] exI [of _ "[m']"]) simp
qed

theorem rtl_deaf_after_hundred_witness:
  "\<exists>r acc. rtl_run demo_card 0 0 demo_mac r acc [] \<and> length acc = 100
    \<and> (\<exists>s. rtlHandler demo_card 0 0 (r\<lparr>reBuffer := demo_frame_bytes\<rparr>) = Some s \<and> same_ring (r\<lparr>reBuffer := demo_frame_bytes\<rparr>) s)
    \<and> getMsg demo_message r = Some (0, demo_message, r)"
proof -
  have nz: "demo_mac ! 0 \<noteq> 0" by (simp add: demo_mac_def)
  obtain r where r: "rtl_run demo_card 0 0 demo_mac r (replicate 100 (frame_at demo_frame_bytes 4)) []"
    using demo_run [of 100] by auto
  have l: "length (replicate 100 (frame_at demo_frame_bytes 4)) = 100" by simp
  from r l rtl_deaf_after_hundred [OF r demo_mac_own nz demo_card_resets l demo_bytes_length, of demo_message]
  show ?thesis by blast
qed

theorem message_survives_iff_short_witness:
  "\<exists>s. sendMsg demo_card demo_ethFrame demo_message demo_rtl = Some s
    \<and> (\<forall>b. length b = RE_BUFFER_SIZE \<and> take 1020 (drop 4 b) = take 1020 (trBuffer s ! 0) \<longrightarrow>
         macDest (frame_at b 4) = replicate 6 7 \<and> macSrc (frame_at b 4) = demo_mac \<and> payload (frame_at b 4) ! 0 = 1
         \<and> take 2 (drop 1 (payload (frame_at b 4))) = [0, 0] \<and> frame_length (frame_at b 4) - 1 = 2)"
proof -
  have "unat (msg_length demo_message) \<le> 999" "trBuffer demo_rtl ! 0 ! 13 = 0"
    by (simp_all add: demo_message_def demo_rtl_def)
  note sent = message_survives_iff_short [OF demo_message_ok this(1) demo_frame_ok demo_rtl_ok this(2) demo_mac_own]
  have e: "mac demo_message = replicate 6 7" "msg_type demo_message = 1" "unat (msg_length demo_message) = 2"
    "take 2 (msg demo_message) = [0, 0]" "msg_length demo_message = 2"
    by (simp_all add: demo_message_def) (simp add: eval_nat_numeral)
  from sent [unfolded e(1-3)] show ?thesis by (simp add: e(4,5))
qed

theorem getMsg_stays_inside_iff_witness:
  "getMsg demo_message (demo_rtl\<lparr>nexToWrite := 1\<rparr>) = None \<and> demo_rtl\<lparr>nexToWrite := 1\<rparr> \<noteq> demo_rtl"
proof -
  have "rtl_ok (demo_rtl\<lparr>nexToWrite := 1\<rparr>)" using demo_rtl_ok by (simp add: rtl_ok_def)
  note iff = getMsg_stays_inside_iff [OF this demo_message_ok]
  have "nextToRead (demo_rtl\<lparr>nexToWrite := 1\<rparr>) \<noteq> nexToWrite (demo_rtl\<lparr>nexToWrite := 1\<rparr>)"
    "frame_length (messages (demo_rtl\<lparr>nexToWrite := 1\<rparr>) ! nextToRead (demo_rtl\<lparr>nexToWrite := 1\<rparr>)) = 0"
    "demo_rtl\<lparr>nexToWrite := 1\<rparr> \<noteq> demo_rtl"
    by (simp_all add: demo_rtl_def demo_ethFrame_def)
  moreover from this(1,2) iff have "\<not> getMsg demo_message (demo_rtl\<lparr>nexToWrite := 1\<rparr>) \<noteq> None" by simp
  ultimately show ?thesis by blast
qed

end
