(* ===== verification/Interruptions.thy ===== *)
theory Interruptions
  imports PortIO
begin

unbundle bit_operations_syntax

section \<open>The interrupt table (\<open>interruptions.c\<close>)\<close>

text \<open>
  The table of the processor is an array of gates at address 0; a gate holds the address of its
  handler in three parts.  The addresses of the handlers are fixed by the linker and are a
  parameter.  The two interrupt controllers take their masks through ports.
\<close>

subsection \<open>Definitions\<close>

record IDTEntry_t =
  offset_l :: "16 word"
  selector :: "16 word"
  zero_l :: "8 word"
  attrs :: "8 word"
  offset_m :: "16 word"
  offset_h :: "32 word"
  zero_h :: "32 word"

type_synonym idt = "int \<Rightarrow> IDTEntry_t"

definition iSetHandler :: "int \<Rightarrow> 64 word \<Rightarrow> idt \<Rightarrow> idt" where
  "iSetHandler index handler IDT =
     (let e = IDT index;
          e = e\<lparr>offset_l := ucast handler AND 0xFFFF\<rparr>;
          e = e\<lparr>offset_m := ucast (drop_bit 16 handler) AND 0xFFFF\<rparr>;
          e = e\<lparr>offset_h := ucast (drop_bit 32 handler) AND 0xFFFFFFFF\<rparr>;
          e = e\<lparr>selector := 0x08, zero_l := 0, attrs := 0x8E, zero_h := 0\<rparr>
      in IDT(index := e))"

datatype handler_name = ProcessSwitch | Irq1Handler | Irq11Handler | YieldHandler | SysCallHandler

definition setPicMaster :: "16 word \<Rightarrow> io \<Rightarrow> io" where
  "setPicMaster m h = sysOutByte 0x21 (ucast m) h"

definition setPicSlave :: "16 word \<Rightarrow> io \<Rightarrow> io" where
  "setPicSlave m h = sysOutByte 0xA1 (ucast m) h"

definition initializeInterruptions :: "(handler_name \<Rightarrow> 64 word) \<Rightarrow> idt \<times> io \<Rightarrow> idt \<times> io" where
  "initializeInterruptions link s =
     (let (IDT, h) = s;
          IDT = iSetHandler 0x20 (link ProcessSwitch) IDT;
          IDT = iSetHandler 0x21 (link Irq1Handler) IDT;
          IDT = iSetHandler 0x2B (link Irq11Handler) IDT;
          IDT = iSetHandler 0x71 (link YieldHandler) IDT;
          IDT = iSetHandler 0x80 (link SysCallHandler) IDT;
          h = setPicMaster 0xF8 h;
          h = setPicSlave 0xF7 h
      in (IDT, h))"

datatype irq_handler = KeyBoardHandler | RtlHandler

definition handlers :: "irq_handler option list" where
  \<comment> \<open>the dispatch table; a null entry is \<open>None\<close>\<close>
  "handlers = [None, Some KeyBoardHandler, None, None, None, None, None, None, None, None, None, Some RtlHandler]"

definition irqDispatcher :: "int \<Rightarrow> irq_handler option" where
  \<comment> \<open>the handler that is called; \<open>None\<close> when the index leaves the table or the entry is null\<close>
  "irqDispatcher irq = (if 0 \<le> irq \<and> irq < int (length handlers) then handlers ! nat irq else None)"

subsection \<open>What the processor reads\<close>

definition gate_target :: "IDTEntry_t \<Rightarrow> 64 word" where
  \<comment> \<open>the address a 64-bit gate stands for\<close>
  "gate_target e = ucast (offset_l e) OR push_bit 16 (ucast (offset_m e)) OR push_bit 32 (ucast (offset_h e))"

definition gate_present :: "IDTEntry_t \<Rightarrow> bool" where
  \<comment> \<open>a present interrupt gate of the kernel's code segment\<close>
  "gate_present e \<longleftrightarrow> bit (attrs e) 7 \<and> attrs e AND 0xF = 0xE \<and> selector e = 8 \<and> zero_l e = 0 \<and> zero_h e = 0"

lemma low_half: "(x :: 16 word) AND 0xFFFF = x" "(y :: 32 word) AND 0xFFFFFFFF = y"
proof -
  have "(0xFFFF :: 16 word) = mask 16" "(0xFFFFFFFF :: 32 word) = mask 32" by (simp_all add: mask_eq_exp_minus_1)
  then show "(x :: 16 word) AND 0xFFFF = x" "(y :: 32 word) AND 0xFFFFFFFF = y"
    by (simp_all only: take_bit_eq_mask [symmetric]) (simp_all add: take_bit_word_eq_self)
qed

lemma gate_parts:
  "ucast (ucast h :: 16 word) OR push_bit 16 (ucast (ucast (drop_bit 16 h) :: 16 word))
     OR push_bit 32 (ucast (ucast (drop_bit 32 h) :: 32 word)) = (h :: 64 word)"
proof (rule bit_word_eqI)
  fix n assume "n < LENGTH(64)"
  then consider "n < 16" | "16 \<le> n" "n < 32" | "32 \<le> n" "n < 64" by fastforce
  then show "bit (ucast (ucast h :: 16 word) OR push_bit 16 (ucast (ucast (drop_bit 16 h) :: 16 word))
     OR push_bit 32 (ucast (ucast (drop_bit 32 h) :: 32 word)) :: 64 word) n = bit h n"
    by cases (auto simp: bit_simps)
qed

lemma iSetHandler_gate:
  "gate_target (iSetHandler i h IDT i) = h \<and> gate_present (iSetHandler i h IDT i)"
  "j \<noteq> i \<Longrightarrow> iSetHandler i h IDT j = IDT j"
  by (simp_all add: iSetHandler_def gate_target_def gate_present_def low_half gate_parts Let_def)

subsection \<open>Properties\<close>

text \<open>After the initialisation the processor finds each handler of the kernel at its vector: the address read
  back from the three parts of the gate is the handler's, the gate is present, no other entry has changed, and
  the controllers let through the timer, the keyboard, the second controller and the network card only.\<close>

theorem initializeInterruptions_installs:
  shows "let (IDT', h') = initializeInterruptions link (IDT, h)
    in (\<forall>(v, n) \<in> set [(0x20, ProcessSwitch), (0x21, Irq1Handler), (0x2B, Irq11Handler), (0x71, YieldHandler),
            (0x80, SysCallHandler)].
          gate_target (IDT' v) = link n \<and> gate_present (IDT' v))
      \<and> (\<forall>v. v \<notin> {0x20, 0x21, 0x2B, 0x71, 0x80} \<longrightarrow> IDT' v = IDT v)
      \<and> h' = h @ [Out8 0x21 (NOT 7), Out8 0xA1 (NOT 8)]"
  by (simp add: initializeInterruptions_def Let_def iSetHandler_gate setPicMaster_def setPicSlave_def sysOutByte_def)

definition zero_gate :: IDTEntry_t where
  "zero_gate = \<lparr>offset_l = 0, selector = 0, zero_l = 0, attrs = 0, offset_m = 0, offset_h = 0, zero_h = 0\<rparr>"

theorem initializeInterruptions_installs_witness:
  "gate_target (fst (initializeInterruptions (\<lambda>_. 0x123456789) (\<lambda>_. zero_gate, [])) 0x80) = 0x123456789"
proof -
  have "let (IDT', h') = initializeInterruptions (\<lambda>_. 0x123456789) (\<lambda>_. zero_gate, [])
    in (\<forall>(v, n) \<in> set [(0x20, ProcessSwitch), (0x21, Irq1Handler), (0x2B, Irq11Handler), (0x71, YieldHandler),
            (0x80, SysCallHandler)].
          gate_target (IDT' v) = 0x123456789 \<and> gate_present (IDT' v))
      \<and> (\<forall>v. v \<notin> {0x20, 0x21, 0x2B, 0x71, 0x80} \<longrightarrow> IDT' v = zero_gate)
      \<and> h' = [] @ [Out8 0x21 (NOT 7), Out8 0xA1 (NOT 8)]"
    by (rule initializeInterruptions_installs)
  then show ?thesis by (simp add: Let_def case_prod_beta)
qed

end
