(* ===== verification/SystemCalls.thy ===== *)
theory SystemCalls
  imports Mutex Semaphores PipeFs Keyboard Ps Rtl8139 Interruptions
begin

section \<open>System calls (\<open>systemCalls.c\<close>)\<close>

text \<open>
  The state of the whole kernel and its dispatcher.  A call has a number and three parameters of
  64 bits; a parameter that a function takes as an \<open>int\<close> is converted, and so is its result.
  \<open>u\<close> holds the variables the kernel does not initialise, \<open>frame\<close> what the local variable of
  \<open>sendMsg\<close> held, \<open>dev\<close> the devices.
\<close>

subsection \<open>State\<close>

record kernel =
  k_con :: console
  k_screens :: screens
  k_keys :: keyboard
  k_mutexes :: mutexes
  k_semaphores :: semaphores
  k_pipes :: pipes
  k_rtl :: rtl

abbreviation (input) int_of :: "64 word \<Rightarrow> int" where
  \<comment> \<open>conversion of a \<open>uint64_t\<close> to \<open>int\<close>\<close>
  "int_of w \<equiv> wrap32 (uint w)"

definition load_msg :: "cmem \<Rightarrow> addr \<Rightarrow> ethMsg" where
  \<comment> \<open>the \<open>ethMsg\<close> at \<open>p\<close>\<close>
  "load_msg m p = \<lparr>mac = map (\<lambda>i. m (p + i)) [0..<6], msg = map (\<lambda>i. m (p + 6 + i)) [0..<1000],
     msg_length = ucast (m (p + 1006)) OR push_bit 8 (ucast (m (p + 1007))), msg_type = m (p + 1008)\<rparr>"

definition store_msg :: "addr \<Rightarrow> ethMsg \<Rightarrow> cmem \<Rightarrow> cmem" where
  "store_msg p e m =
     (let m = for_store 6 p (\<lambda>i m. mac e ! i) m;
          m = for_store 1000 (p + 6) (\<lambda>i m. msg e ! i) m
      in m(p + 1006 := ucast (msg_length e), p + 1007 := ucast (drop_bit 8 (msg_length e)), p + 1008 := msg_type e))"

subsection \<open>Input and output\<close>

definition clearScreenSys :: "kernel \<Rightarrow> 64 word \<times> kernel" where
  "clearScreenSys k = (0, k\<lparr>k_con := clearScreen (k_con k)\<rparr>)"

definition block_current_io :: "console \<Rightarrow> console option" where
  \<comment> \<open>\<open>blockThread(getCurrentPid(), getCurrentPthread(), T_BLOCKED_IO)\<close>\<close>
  "block_current_io c = do {
     p \<leftarrow> getCurrentPid c;
     t \<leftarrow> getCurrentPthread c;
     blockThread p t T_BLOCKED_IO c }"

definition blockIfNotOnFocus :: "screens \<Rightarrow> console \<Rightarrow> (bool \<times> console) option" where
  "blockIfNotOnFocus sc c = do {
     focus \<leftarrow> isCurrentProcessOnFocus sc c;
     if \<not> focus then do { c \<leftarrow> block_current_io c; Some (True, c) } else Some (False, c) }"

fun readKeys :: "nat \<Rightarrow> addr \<Rightarrow> nat \<Rightarrow> keyboard \<Rightarrow> cmem \<Rightarrow> nat \<times> keyboard \<times> cmem" where
  \<comment> \<open>the loop of \<open>read\<close>, \<open>n\<close> more characters at most, \<open>readBytes\<close> so far\<close>
  "readKeys 0 myBuf readBytes kb m = (readBytes, kb, m)"
| "readKeys (Suc n) myBuf readBytes kb m =
     (let (c, kb) = getKey kb;
          m = m(myBuf := word_of_int c)
      in if m myBuf = 0 then (readBytes, kb, m)
         else readKeys n (myBuf + 1) (readBytes + 1) kb m)"

abbreviation (input) STANDARD_IO_FD :: "64 word" where "STANDARD_IO_FD \<equiv> 1"
abbreviation (input) ETHERNET_FD :: "64 word" where "ETHERNET_FD \<equiv> 2"

definition read :: "64 word \<Rightarrow> addr \<Rightarrow> nat \<Rightarrow> kernel \<Rightarrow> (64 word \<times> kernel) option" where
  "read fileDescriptor buf nBytes k =
     (if fileDescriptor = STANDARD_IO_FD then do {
        (blocked, c) \<leftarrow> blockIfNotOnFocus (k_screens k) (k_con k);
        if blocked then Some (0, k\<lparr>k_con := c\<rparr>)
        else do {
          let (readBytes, kb, m) = readKeys nBytes buf 0 (k_keys k) (cmem c);
          let c = c\<lparr>cmem := m\<rparr>;
          c \<leftarrow> (if readBytes = 0 then block_current_io c else Some c);
          Some (of_nat readBytes, k\<lparr>k_keys := kb, k_con := c\<rparr>) } }
      else if fileDescriptor = ETHERNET_FD then do {
        (n, e, r) \<leftarrow> getMsg (load_msg (cmem (k_con k)) buf) (k_rtl k);
        Some (word_of_int n, k\<lparr>k_rtl := r, k_con := (k_con k)\<lparr>cmem := store_msg buf e (cmem (k_con k))\<rparr>\<rparr>) }
      else Some (- 1, k))"

fun writeToVideo :: "nat \<Rightarrow> addr \<Rightarrow> nat \<Rightarrow> 'z vstate_scheme \<Rightarrow> nat \<times> 'z vstate_scheme" where
  \<comment> \<open>from the index \<open>i\<close> on, \<open>n\<close> more characters at most\<close>
  "writeToVideo 0 myBuf i v = (i, v)"
| "writeToVideo (Suc n) myBuf i v =
     (if cmem v (myBuf + i) \<noteq> 0 then writeToVideo n myBuf (i + 1) (printCharacters (cmem v (myBuf + i)) v)
      else (i, v))"

fun screenLoop :: "nat \<Rightarrow> addr \<Rightarrow> nat \<Rightarrow> addr \<Rightarrow> cursor \<Rightarrow> 'z vstate_scheme \<Rightarrow> (nat \<times> cursor \<times> 'z vstate_scheme) option" where
  \<comment> \<open>the loop of \<open>writeToMyScreen\<close>\<close>
  "screenLoop 0 myBuf i myScreen pos v = Some (i, pos, v)"
| "screenLoop (Suc n) myBuf i myScreen pos v =
     (if cmem v (myBuf + i) \<noteq> 0 then do {
        chk myScreen;
        let (pos, v) = printCharactersInner (cmem v (myBuf + i)) myScreen pos v;
        screenLoop n myBuf (i + 1) myScreen pos v }
      else Some (i, pos, v))"

definition writeToMyScreen :: "nat \<Rightarrow> addr \<Rightarrow> screens \<Rightarrow> 'z vstate_scheme \<Rightarrow> (nat \<times> screens \<times> 'z vstate_scheme) option" where
  "writeToMyScreen nBytes buf sc v = do {
     (myScreen, sc, v) \<leftarrow> getCurrentScreen sc v;
     (myScreenPos, sc, v) \<leftarrow> getCurrentScreenPosition sc v;
     (i, pos, v) \<leftarrow> screenLoop nBytes buf 0 myScreen (Local myScreenPos) v;
     (sc, v) \<leftarrow> setCurrentScreenPosition (cursor_get pos v) sc v;
     Some (i, sc, v) }"

definition sys_write :: "device \<Rightarrow> ethFrame \<Rightarrow> 64 word \<Rightarrow> addr \<Rightarrow> 64 word \<Rightarrow> kernel \<Rightarrow> (64 word \<times> kernel) option" where
  "sys_write dev frame fileDescriptor buf nBytes k =
     (if fileDescriptor = STANDARD_IO_FD then do {
        focus \<leftarrow> isCurrentProcessOnFocus (k_screens k) (k_con k);
        if focus then do {
          let (i, c) = writeToVideo (unat nBytes) buf 0 (k_con k);
          Some (of_nat i, k\<lparr>k_con := c\<rparr>) }
        else do {
          (i, sc, c) \<leftarrow> writeToMyScreen (unat nBytes) buf (k_screens k) (k_con k);
          Some (of_nat i, k\<lparr>k_screens := sc, k_con := c\<rparr>) } }
      else if fileDescriptor = ETHERNET_FD then do {
        r \<leftarrow> sendMsg dev frame (load_msg (cmem (k_con k)) buf) (k_rtl k);
        Some (nBytes, k\<lparr>k_rtl := r\<rparr>) }
      else Some (- 1, k))"

subsection \<open>Processes, threads and memory\<close>

definition name_at :: "cmem \<Rightarrow> addr \<Rightarrow> byte list" where
  \<comment> \<open>as many bytes at \<open>name\<close> as \<open>createProcessName\<close> can read\<close>
  "name_at m name = map (\<lambda>i. m (name + i)) [0..<NAME_LENGTH]"

definition pcreate :: "addr \<Rightarrow> addr \<Rightarrow> addr \<Rightarrow> kernel \<Rightarrow> (64 word \<times> kernel) option" where
  "pcreate exec entry name k = do {
     (p, c) \<leftarrow> addProcess exec entry (name_at (cmem (k_con k)) name) (k_con k);
     (_, sc, c) \<leftarrow> loadScreen p (k_screens k) c;
     Some (u64 p, k\<lparr>k_screens := sc, k_con := c\<rparr>) }"

definition pcreateBackground :: "addr \<Rightarrow> addr \<Rightarrow> addr \<Rightarrow> kernel \<Rightarrow> (64 word \<times> kernel) option" where
  "pcreateBackground exec entry name k = do {
     (p, c) \<leftarrow> addProcess exec entry (name_at (cmem (k_con k)) name) (k_con k);
     Some (u64 p, k\<lparr>k_con := c\<rparr>) }"

definition tcreate :: "64 word \<Rightarrow> addr \<Rightarrow> addr \<Rightarrow> kernel \<Rightarrow> (64 word \<times> kernel) option" where
  "tcreate p exec entry k = do {
     (t, c) \<leftarrow> addThreadToProcess (int_of p) exec entry (k_con k);
     Some (u64 t, k\<lparr>k_con := c\<rparr>) }"

definition pkill :: "64 word \<Rightarrow> kernel \<Rightarrow> (64 word \<times> kernel) option" where
  "pkill p k = do {
     (sc, c) \<leftarrow> removeScreen (int_of p) (k_screens k) (k_con k);
     parent \<leftarrow> getParentPid (int_of p) c;
     (_, sc, c) \<leftarrow> loadScreen parent sc c;
     c \<leftarrow> removeProcess (int_of p) c;
     Some (1, k\<lparr>k_screens := sc, k_con := c\<rparr>) }"

definition tkill :: "64 word \<Rightarrow> 64 word \<Rightarrow> kernel \<Rightarrow> (64 word \<times> kernel) option" where
  "tkill p t k = do {
     c \<leftarrow> removeThread (int_of p) (int_of t) (k_con k);
     Some (1, k\<lparr>k_con := c\<rparr>) }"

definition ps :: "uninit \<Rightarrow> kernel \<Rightarrow> (64 word \<times> kernel) option" where
  "ps u k = do {
     c \<leftarrow> printAllProcess u (k_con k);
     Some (1, k\<lparr>k_con := c\<rparr>) }"

definition mallocSysCall :: "64 word \<Rightarrow> kernel \<Rightarrow> (64 word \<times> kernel) option" where
  "mallocSysCall bytes k = do {
     (p, c) \<leftarrow> pmalloc (int_of bytes) (k_con k);
     Some (of_nat p, k\<lparr>k_con := c\<rparr>) }"

definition freeSysCall :: "addr \<Rightarrow> kernel \<Rightarrow> (64 word \<times> kernel) option" where
  "freeSysCall memoryPosition k = do {
     c \<leftarrow> pfree memoryPosition (k_con k);
     Some (1, k\<lparr>k_con := c\<rparr>) }"

definition getCurrentPidSysCall :: "kernel \<Rightarrow> (64 word \<times> kernel) option" where
  "getCurrentPidSysCall k = do { p \<leftarrow> getCurrentPid (k_con k); Some (u64 p, k) }"

subsection \<open>Mutexes, semaphores and pipes\<close>

definition createMutexSysCall :: "kernel \<Rightarrow> (64 word \<times> kernel) option" where
  "createMutexSysCall k = do {
     (i, m, c) \<leftarrow> createMutex (k_mutexes k) (k_con k);
     Some (u64 i, k\<lparr>k_mutexes := m, k_con := c\<rparr>) }"

definition endMutexSysCall :: "64 word \<Rightarrow> kernel \<Rightarrow> (64 word \<times> kernel) option" where
  "endMutexSysCall i k = do {
     (m, c) \<leftarrow> mutexDestroy (int_of i) (k_mutexes k) (k_con k);
     Some (1, k\<lparr>k_mutexes := m, k_con := c\<rparr>) }"

definition upMutexSysCall :: "64 word \<Rightarrow> kernel \<Rightarrow> (64 word \<times> kernel) option" where
  "upMutexSysCall i k = do {
     (m, c) \<leftarrow> mutexUp (int_of i) (k_mutexes k) (k_con k);
     Some (1, k\<lparr>k_mutexes := m, k_con := c\<rparr>) }"

definition downMutexSysCall :: "64 word \<Rightarrow> kernel \<Rightarrow> (64 word \<times> kernel) option" where
  "downMutexSysCall i k = do {
     (m, c) \<leftarrow> mutexDown (int_of i) (k_mutexes k) (k_con k);
     Some (1, k\<lparr>k_mutexes := m, k_con := c\<rparr>) }"

definition createSemaphoreSysCall :: "64 word \<Rightarrow> kernel \<Rightarrow> (64 word \<times> kernel) option" where
  "createSemaphoreSysCall start k = do {
     (i, m, c) \<leftarrow> createSemaphore (int_of start) (k_semaphores k) (k_con k);
     Some (u64 i, k\<lparr>k_semaphores := m, k_con := c\<rparr>) }"

definition endSemaphoreSysCall :: "64 word \<Rightarrow> kernel \<Rightarrow> (64 word \<times> kernel) option" where
  "endSemaphoreSysCall i k = do {
     (m, c) \<leftarrow> semaphoreDestroy (int_of i) (k_semaphores k) (k_con k);
     Some (1, k\<lparr>k_semaphores := m, k_con := c\<rparr>) }"

definition upSemaphoreSysCall :: "64 word \<Rightarrow> kernel \<Rightarrow> (64 word \<times> kernel) option" where
  "upSemaphoreSysCall i k = do {
     (m, c) \<leftarrow> semaphoreUp (int_of i) (k_semaphores k) (k_con k);
     Some (1, k\<lparr>k_semaphores := m, k_con := c\<rparr>) }"

definition downSemaphoreSysCall :: "64 word \<Rightarrow> kernel \<Rightarrow> (64 word \<times> kernel) option" where
  "downSemaphoreSysCall i k = do {
     (m, c) \<leftarrow> semaphoreDown (int_of i) (k_semaphores k) (k_con k);
     Some (1, k\<lparr>k_semaphores := m, k_con := c\<rparr>) }"

definition createPipeSysCall :: "64 word \<Rightarrow> 64 word \<Rightarrow> kernel \<Rightarrow> (64 word \<times> kernel) option" where
  "createPipeSysCall fromPid toPid k = do {
     (name, p, c) \<leftarrow> do_pipe (int_of fromPid) (int_of toPid) (k_pipes k) (k_con k);
     Some (of_nat name, k\<lparr>k_pipes := p, k_con := c\<rparr>) }"

definition sendSysCall :: "addr \<Rightarrow> addr \<Rightarrow> kernel \<Rightarrow> (64 word \<times> kernel) option" where
  "sendSysCall name buff k = do {
     (p, c) \<leftarrow> writeToPipe name buff (k_pipes k) (k_con k);
     Some (1, k\<lparr>k_pipes := p, k_con := c\<rparr>) }"

definition receiveSysCall :: "addr \<Rightarrow> addr \<Rightarrow> kernel \<Rightarrow> (64 word \<times> kernel) option" where
  "receiveSysCall name buff k = do {
     (p, c) \<leftarrow> readFromPipe name buff (k_pipes k) (k_con k);
     Some (1, k\<lparr>k_pipes := p, k_con := c\<rparr>) }"

subsection \<open>The dispatcher\<close>

record locals =
  l_uninit :: uninit
  l_frame :: ethFrame

definition systemCall :: "device \<Rightarrow> locals \<Rightarrow> 64 word \<Rightarrow> 64 word \<Rightarrow> 64 word \<Rightarrow> 64 word \<Rightarrow> kernel \<Rightarrow>
    (64 word \<times> kernel) option" where
  "systemCall dev u systemCallNumber param1 param2 param3 k =
     (let n = systemCallNumber in
      if n = 1 then read param1 (unat param2) (unat param3) k
      else if n = 2 then sys_write dev (l_frame u) param1 (unat param2) param3 k
      else if n = 3 then Some (clearScreenSys k)
      else if n = 4 then mallocSysCall param1 k
      else if n = 5 then freeSysCall (unat param1) k
      else if n = 6 then ps (l_uninit u) k
      else if n = 7 then pcreate (unat param1) (unat param2) (unat param3) k
      else if n = 16 then pcreateBackground (unat param1) (unat param2) (unat param3) k
      else if n = 8 then pkill param1 k
      else if n = 9 then tcreate param1 (unat param2) (unat param3) k
      else if n = 10 then tkill param1 param2 k
      else if n = 11 then createMutexSysCall k
      else if n = 12 then endMutexSysCall param1 k
      else if n = 13 then upMutexSysCall param1 k
      else if n = 14 then downMutexSysCall param1 k
      else if n = 15 then getCurrentPidSysCall k
      else if n = 17 then createSemaphoreSysCall param1 k
      else if n = 18 then endSemaphoreSysCall param1 k
      else if n = 19 then upSemaphoreSysCall param1 k
      else if n = 20 then downSemaphoreSysCall param1 k
      else if n = 21 then sendSysCall (unat param1) (unat param2) k
      else if n = 22 then receiveSysCall (unat param1) (unat param2) k
      else if n = 23 then createPipeSysCall param1 param2 k
      else Some (0, k))"

subsection \<open>Reading the keyboard\<close>

lemma getKey_byte:
  assumes "keys.holds kb q"
  shows "keys.holds (snd (getKey kb)) (tl q)" and "fst (getKey kb) = (case q of [] \<Rightarrow> 0 | x # _ \<Rightarrow> x)"
  using keys.get_holds [OF assms] by (auto split: list.splits)

lemma readKeys_spec:
  assumes "keys.holds kb q" and "\<forall>c \<in> set q. 0 < c \<and> c < 256"
  shows "\<exists>kb' m'. readKeys n buf r kb m = (r + min n (length q), kb', m') \<and> keys.holds kb' (drop n q)
    \<and> mem_list m' buf (map word_of_int (take n q)) \<and> (length q < n \<longrightarrow> m' (buf + length q) = 0)
    \<and> (\<forall>a. a < buf \<or> buf + min n (length q + 1) \<le> a \<longrightarrow> m' a = m a)"
  using assms
proof (induction n arbitrary: buf r kb q m)
  case 0
  then show ?case by simp
next
  case (Suc n)
  note g = getKey_byte [OF Suc.prems(1)]
  show ?case
  proof (cases q)
    case Nil
    then have "readKeys (Suc n) buf r kb m = (r, snd (getKey kb), m(buf := 0))"
      using g(2) by (simp add: Let_def case_prod_beta)
    then show ?thesis using g(1) Nil by auto
  next
    case (Cons x xs)
    have "uint (word_of_int x :: byte) = x"
      using Suc.prems(2) Cons by (simp add: uint_word_of_int take_bit_int_eq_self)
    then have x: "word_of_int x \<noteq> (0 :: byte)" using Suc.prems(2) Cons by auto
    have step: "readKeys (Suc n) buf r kb m = readKeys n (buf + 1) (r + 1) (snd (getKey kb)) (m(buf := word_of_int x))"
      using g(2) Cons x by (simp add: Let_def case_prod_beta)
    have "keys.holds (snd (getKey kb)) xs" using g(1) Cons by simp
    moreover have "\<forall>c \<in> set xs. 0 < c \<and> c < 256" using Suc.prems(2) Cons by simp
    ultimately have IH: "\<exists>kb' m'. readKeys n (buf + 1) (r + 1) (snd (getKey kb)) (m(buf := word_of_int x)) =
        (r + 1 + min n (length xs), kb', m') \<and> keys.holds kb' (drop n xs)
      \<and> mem_list m' (buf + 1) (map word_of_int (take n xs)) \<and> (length xs < n \<longrightarrow> m' (buf + 1 + length xs) = 0)
      \<and> (\<forall>a. a < buf + 1 \<or> buf + 1 + min n (length xs + 1) \<le> a \<longrightarrow> m' a = (m(buf := word_of_int x)) a)"
      by (rule Suc.IH)
    from IH obtain kb' m' where ih: "readKeys n (buf + 1) (r + 1) (snd (getKey kb)) (m(buf := word_of_int x)) =
        (r + 1 + min n (length xs), kb', m')" "keys.holds kb' (drop n xs)"
      "mem_list m' (buf + 1) (map word_of_int (take n xs))" "length xs < n \<longrightarrow> m' (buf + 1 + length xs) = 0"
      "\<forall>a. a < buf + 1 \<or> buf + 1 + min n (length xs + 1) \<le> a \<longrightarrow> m' a = (m(buf := word_of_int x)) a"
      by (elim exE conjE)
    have "m' buf = word_of_int x" using ih(5) by simp
    moreover have "m' a = m a" if "a < buf \<or> buf + min (Suc n) (length q + 1) \<le> a" for a
    proof -
      have "a < buf + 1 \<or> buf + 1 + min n (length xs + 1) \<le> a" "a \<noteq> buf" using that Cons by auto
      then show ?thesis using ih(5) [rule_format, of a] by simp
    qed
    moreover have "length q < Suc n \<longrightarrow> m' (buf + length q) = 0" using ih(4) Cons by simp
    moreover have "mem_list m' buf (map word_of_int (take (Suc n) q))"
      using ih(3) calculation(1) Cons by (simp add: mem_list_Cons)
    moreover have "readKeys (Suc n) buf r kb m = (r + min (Suc n) (length q), kb', m')"
      unfolding step ih(1) using Cons by simp
    moreover have "keys.holds kb' (drop (Suc n) q)" using ih(2) Cons by simp
    ultimately show ?thesis by blast
  qed
qed

end
