(* ===== verification/NewProcess.thy ===== *)
theory NewProcess
  imports SchedSteps
begin

section \<open>Starting a process (\<open>createProcess\<close>, \<open>addProcessToQueue\<close>, \<open>addProcess\<close>)\<close>

text \<open>
  What the state is after a process was added to the queue, with its first thread, and that the invariant
  of the scheduler holds again.  \<open>createProcess\<close> does not set \<open>currentThread\<close>: the invariant needs a page
  in which it is null, and a page that an earlier process has used breaks it.
\<close>

subsection \<open>Several allocations\<close>

fun alloc_seq :: "64 word list \<Rightarrow> 'z mm_state_scheme \<Rightarrow> (addr list \<times> 'z mm_state_scheme) option" where
  "alloc_seq [] s = Some ([], s)"
| "alloc_seq (r # rs) s = do {
     (p, s) \<leftarrow> allocate r s;
     (ps, s) \<leftarrow> alloc_seq rs s;
     Some (p # ps, s) }"

lemma alloc_seq_frame: "alloc_seq rs s = Some (as, t) \<Longrightarrow> \<exists>m. t = s\<lparr>usedMap := m\<rparr>"
proof (induction rs arbitrary: s as)
  case Nil
  then show ?case by (auto intro: exI [of _ "usedMap s"])
next
  case (Cons r rs)
  then obtain p s' ps where a: "allocate r s = Some (p, s')" "alloc_seq rs s' = Some (ps, t)"
    by (auto simp: bind_eq_Some_conv)
  then show ?case using allocate_frame [OF a(1)] Cons.IH [OF a(2)] by auto
qed

text \<open>Pages that are taken one after the other are new, different and owned.\<close>

lemma alloc_seq_fresh:
  assumes "mm_inv s" and "\<forall>r \<in> set rs. sane_request r" and "alloc_seq rs s = Some (as, t)" and "NULL \<notin> set as"
  shows "mm_inv t \<and> distinct as \<and> set as \<inter> owned_pages s = {}
    \<and> owned_pages t = owned_pages s \<union> (\<Union>(a, r) \<in> set (zip as rs). span a r) \<and> set as \<subseteq> owned_pages t"
  using assms
proof (induction rs arbitrary: s as)
  case Nil
  then show ?case by auto
next
  case (Cons r rs)
  then obtain p s' ps where a: "allocate r s = Some (p, s')" "alloc_seq rs s' = Some (ps, t)" "as = p # ps"
    by (auto simp: bind_eq_Some_conv)
  note f = pages.alloc_fresh [OF Cons.prems(1) _ a(1)]
  have p: "p \<noteq> NULL" "sane_request r" using Cons.prems(2,4) a(3) by auto
  have fr: "span p r \<inter> owned_pages s = {}" "owned_pages s' = owned_pages s \<union> span p r" "mm_inv s'"
    using f p by auto
  have ih: "mm_inv t \<and> distinct ps \<and> set ps \<inter> owned_pages s' = {}
      \<and> owned_pages t = owned_pages s' \<union> (\<Union>(a, r) \<in> set (zip ps rs). span a r) \<and> set ps \<subseteq> owned_pages t"
    by (rule Cons.IH [OF fr(3) _ a(2)]) (use Cons.prems(2,4) a(3) in simp_all)
  then have o: "owned_pages t = owned_pages s \<union> (\<Union>(a, r) \<in> set (zip as (r # rs)). span a r)"
    and ps: "mm_inv t" "distinct ps" "set ps \<inter> owned_pages s' = {}" "set ps \<subseteq> owned_pages t"
    using fr(2) a(3) by auto
  have pt: "p \<in> span p r" using npages_pos [of r] p(2) by (auto simp: span_def sane_request_def)
  then have "distinct as" "set as \<inter> owned_pages s = {}" "set as \<subseteq> owned_pages t"
    using ps(2-4) fr(1,2) o a(3) by auto
  then show ?case using o ps(1) by blast
qed

lemma alloc_seq_prefix:
  assumes "prefix_used s k" and "\<forall>r \<in> set rs. sane_request r" and "k + sum_list (map npages rs) \<le> nat (blocksAmount s)"
  shows "\<exists>m. alloc_seq rs s = Some (map (\<lambda>i. page_addr s (k + sum_list (map npages (take i rs)))) [0..<length rs], s\<lparr>usedMap := m\<rparr>)
    \<and> prefix_used (s\<lparr>usedMap := m\<rparr>) (k + sum_list (map npages rs))"
  using assms
proof (induction rs arbitrary: s k)
  case Nil
  then show ?case by (auto intro: exI [of _ "usedMap s"])
next
  case (Cons r rs)
  obtain m1 where m1: "allocate r s = Some (page_addr s k, s\<lparr>usedMap := m1\<rparr>)" "prefix_used (s\<lparr>usedMap := m1\<rparr>) (k + npages r)"
    using allocate_prefix [OF Cons.prems(1), of r] Cons.prems(2,3) by auto
  obtain m where m: "alloc_seq rs (s\<lparr>usedMap := m1\<rparr>) =
      Some (map (\<lambda>i. page_addr (s\<lparr>usedMap := m1\<rparr>) (k + npages r + sum_list (map npages (take i rs)))) [0..<length rs], s\<lparr>usedMap := m\<rparr>)"
      "prefix_used (s\<lparr>usedMap := m\<rparr>) (k + npages r + sum_list (map npages rs))"
    using Cons.IH [OF m1(2)] Cons.prems(2,3) by auto
  have "map (\<lambda>i. page_addr s (k + sum_list (map npages (take i (r # rs))))) [0..<length (r # rs)] =
      page_addr s k # map (\<lambda>i. page_addr s (k + npages r + sum_list (map npages (take i rs)))) [0..<length rs]"
    by (simp add: upt_conv_Cons map_Suc_upt [symmetric] add.assoc del: upt_Suc)
  then show ?case using m m1(1) by (auto simp: page_addr_def add.assoc)
qed

subsection \<open>The state with one more process\<close>

definition with_process :: "addr \<Rightarrow> addr \<Rightarrow> addr \<Rightarrow> byte list \<Rightarrow> int \<Rightarrow> 32 word list \<Rightarrow> 'z sched_scheme \<Rightarrow> 'z sched_scheme" where
  \<comment> \<open>process \<open>p\<close> with its name at \<open>b\<close> and the queue node \<open>n\<close>, before it has a thread\<close>
  "with_process p b n bytes parent m s =
     (let h = processQueue s; first = (currentProcess s = NULL) in
      s\<lparr>usedMap := m, pidCount := pidCount s + 1, queueSize := queueSize s + 1,
        procs := (procs s)(p := (procs s p)\<lparr>pid := pidCount s, ppid := parent, currentPThread := 0, threadSize := 0,
          p_state := READY, p_name := b, p_heap := NULL, threadTick := 0\<rparr>),
        names := (names s)(b := bytes),
        snodes := (if first then (snodes s)(n := \<lparr>sn_process = p, sn_next = n\<rparr>)
          else (snodes s)(n := \<lparr>sn_process = p, sn_next = sn_next (snodes s h)\<rparr>, h := (snodes s h)\<lparr>sn_next := n\<rparr>)),
        processQueue := if first then n else h,
        currentProcess := if first then n else currentProcess s\<rparr>)"

lemma createProcess_eq:
  assumes "allocate PAGE s = Some (p, s\<lparr>usedMap := m1\<rparr>)" and "p \<noteq> NULL"
    and "allocate (of_nat NAME_LENGTH) (s\<lparr>usedMap := m1\<rparr>) = Some (b, s\<lparr>usedMap := m2\<rparr>)" and "b \<noteq> NULL"
    and "copyName name 0 = Some bytes"
  shows "createProcess name parent s = Some (p, s\<lparr>usedMap := m2, pidCount := pidCount s + 1, names := (names s)(b := bytes),
      procs := (procs s)(p := (procs s p)\<lparr>pid := pidCount s, ppid := parent, currentPThread := 0,
        threadSize := 0, p_state := READY, p_name := b, p_heap := NULL\<rparr>)\<rparr>)"
proof -
  have al: "allocate 50 (s\<lparr>usedMap := m1, pidCount := y, procs := x\<rparr>) =
      Some (b, s\<lparr>usedMap := m2, pidCount := y, procs := x\<rparr>)" for x y
    using allocate_other [OF assms(3), of "s\<lparr>usedMap := m1, pidCount := y, procs := x\<rparr>"] by simp
  show ?thesis using assms by (simp add: createProcess_def createProcessName_def al)
qed

lemma addProcessToQueue_eq:
  assumes "allocate PAGE s = Some (n, s\<lparr>usedMap := m\<rparr>)" and "n \<noteq> NULL" and "p \<noteq> NULL"
    and "currentProcess s \<noteq> NULL \<Longrightarrow> processQueue s \<noteq> NULL \<and> processQueue s \<noteq> n"
  shows "addProcessToQueue p s = Some (let h = processQueue s; first = (currentProcess s = NULL) in
      s\<lparr>usedMap := m, queueSize := queueSize s + 1, procs := (procs s)(p := (procs s p)\<lparr>threadTick := 0\<rparr>),
        snodes := (if first then (snodes s)(n := \<lparr>sn_process = p, sn_next = n\<rparr>)
          else (snodes s)(n := \<lparr>sn_process = p, sn_next = sn_next (snodes s h)\<rparr>, h := (snodes s h)\<lparr>sn_next := n\<rparr>)),
        processQueue := if first then n else h,
        currentProcess := if first then n else currentProcess s\<rparr>)"
  using assms by (cases "currentProcess s = NULL") (simp_all add: addProcessToQueue_def Let_def)

lemma queue_process_eq:
  assumes a1: "allocate PAGE s = Some (p, s\<lparr>usedMap := m1\<rparr>)" and "p \<noteq> NULL"
    and a2: "allocate (of_nat NAME_LENGTH) (s\<lparr>usedMap := m1\<rparr>) = Some (b, s\<lparr>usedMap := m2\<rparr>)" and "b \<noteq> NULL"
    and a3: "allocate PAGE (s\<lparr>usedMap := m2\<rparr>) = Some (n, s\<lparr>usedMap := m3\<rparr>)" and "n \<noteq> NULL"
    and name: "copyName name 0 = Some bytes"
    and q: "currentProcess s \<noteq> NULL \<Longrightarrow> processQueue s \<noteq> NULL \<and> processQueue s \<noteq> n"
  shows "do { (process, s) \<leftarrow> createProcess name parent s; s \<leftarrow> addProcessToQueue process s; Some (process, s) } =
    Some (p, with_process p b n bytes parent m3 s)"
proof -
  let ?c = "s\<lparr>usedMap := m2, pidCount := pidCount s + 1, names := (names s)(b := bytes),
      procs := (procs s)(p := (procs s p)\<lparr>pid := pidCount s, ppid := parent, currentPThread := 0,
        threadSize := 0, p_state := READY, p_name := b, p_heap := NULL\<rparr>)\<rparr>"
  have "allocate PAGE ?c = Some (n, ?c\<lparr>usedMap := m3\<rparr>)" using allocate_other [OF a3, of ?c] by simp
  note c = createProcess_eq [OF a1 assms(2) a2 assms(4) name, of parent]
    and q = addProcessToQueue_eq [OF this assms(6,2)]
  show ?thesis
    unfolding c using q assms(8)
    by (cases "currentProcess s = NULL") (auto simp: with_process_def Let_def intro!: sched.equality)
qed

lemma with_process_select [store_simps]:
  shows "initMem (with_process p b n bytes parent m s) = initMem s"
    and "blocksAmount (with_process p b n bytes parent m s) = blocksAmount s"
    and "usedMap (with_process p b n bytes parent m s) = m"
    and "pidCount (with_process p b n bytes parent m s) = pidCount s + 1"
    and "queueSize (with_process p b n bytes parent m s) = queueSize s + 1"
    and "libs (with_process p b n bytes parent m s) = libs s"
    and "threads (with_process p b n bytes parent m s) = threads s"
    and "numberOfTicks (with_process p b n bytes parent m s) = numberOfTicks s"
    and "names (with_process p b n bytes parent m s) = (names s)(b := bytes)"
    and "a \<noteq> p \<Longrightarrow> procs (with_process p b n bytes parent m s) a = procs s a"
    and "pid (procs (with_process p b n bytes parent m s) p) = pidCount s"
    and "ppid (procs (with_process p b n bytes parent m s) p) = parent"
    and "p_state (procs (with_process p b n bytes parent m s) p) = READY"
    and "p_name (procs (with_process p b n bytes parent m s) p) = b"
    and "threadSize (procs (with_process p b n bytes parent m s) p) = 0"
    and "currentPThread (procs (with_process p b n bytes parent m s) p) = 0"
    and "currentThread (procs (with_process p b n bytes parent m s) p) = currentThread (procs s p)"
    and "threadLibrary (procs (with_process p b n bytes parent m s) p) = threadLibrary (procs s p)"
    and "processQueue (with_process p b n bytes parent m s) = (if currentProcess s = NULL then n else processQueue s)"
    and "currentProcess (with_process p b n bytes parent m s) = (if currentProcess s = NULL then n else currentProcess s)"
  by (simp_all add: with_process_def Let_def)

definition queue_ok :: "'z sched_scheme \<Rightarrow> addr list \<Rightarrow> bool" where
  \<comment> \<open>the nodes and the processes of the queue own their pages, and their numbers have been given out\<close>
  "queue_ok s qs \<longleftrightarrow> set qs \<subseteq> owned_pages s \<and> proc_at s ` set qs \<subseteq> owned_pages s
     \<and> (\<forall>n \<in> set qs. pid (procs s (proc_at s n)) < pidCount s)"

definition queue_insert :: "addr \<Rightarrow> addr list \<Rightarrow> addr list" where
  "queue_insert n qs = (case qs of [] \<Rightarrow> [n] | h # qs \<Rightarrow> h # n # qs)"

lemma set_queue_insert: "set (queue_insert n qs) = insert n (set qs)"
  by (auto simp: queue_insert_def split: list.splits)

lemma with_process_at:
  assumes "currentProcess s \<noteq> NULL \<Longrightarrow> processQueue s \<noteq> n"
  shows "proc_at (with_process p b n bytes parent m s) n = p"
    and "a \<noteq> n \<Longrightarrow> proc_at (with_process p b n bytes parent m s) a = proc_at s a"
  using assms by (auto simp: with_process_def Let_def)

lemma with_process_ring:
  assumes "proc_ring s qs \<or> currentProcess s = NULL \<and> qs = []" and "queue_ok s qs"
    and own: "p \<notin> owned_pages s" "n \<notin> owned_pages s" "p \<noteq> NULL" "n \<noteq> NULL"
  shows "proc_ring (with_process p b n bytes parent m s) (queue_insert n qs)"
  using assms(1)
proof
  assume e: "currentProcess s = NULL \<and> qs = []"
  then show ?thesis using own
    by (simp add: proc_ring_def queue_insert_def with_process_def Let_def ring_single)
next
  assume r: "proc_ring s qs"
  note d = proc_ringD [OF r]
  obtain h xs where qs: "qs = h # xs" using d(2) by (cases qs) auto
  let ?s = "with_process p b n bytes parent m s"
  have h: "processQueue s = h" "h \<noteq> NULL" "currentProcess s \<noteq> NULL" using d(3,4,6) qs by auto
  have new: "n \<notin> set qs" "\<And>a. a \<in> set qs \<Longrightarrow> proc_at s a \<noteq> p" using assms(2) own(1,2) by (auto simp: queue_ok_def)
  note at = with_process_at [where s = s and n = n]
  have hn: "processQueue s \<noteq> n" using new(1) h(1) qs by auto
  have a: "proc_at ?s n = p" "\<And>a. a \<in> set qs \<Longrightarrow> proc_at ?s a = proc_at s a"
    using at(1) [OF hn] at(2) [OF hn] new(1) by metis+
  have pids: "pid (procs ?s (proc_at ?s n)) = pidCount s"
    "\<And>a. a \<in> set qs \<Longrightarrow> pid (procs ?s (proc_at ?s a)) = pid (procs s (proc_at s a))"
    using a new(2) by (auto simp: store_simps)
  have "snx ?s = (snx s)(n := snx s h, h := n)" using h by (auto simp: with_process_def Let_def)
  then have ring: "ring (snx ?s) (h # n # xs)" using ring_insert [of "snx s" h xs n] d(1) new(1) own(4) qs by simp
  have inj1: "inj_on (proc_at ?s) (insert n (set qs))"
  proof (rule inj_on_fresh)
    show "inj_on (proc_at ?s) (set qs)"
      by (rule inj_on_eq [of "proc_at s"]) (use r a(2) in \<open>simp_all add: proc_ring_def\<close>)
    show "proc_at ?s a' \<noteq> proc_at ?s n" if "a' \<in> set qs" for a' using that a new(2) by simp
  qed
  have inj2: "inj_on (\<lambda>a. pid (procs ?s (proc_at ?s a))) (insert n (set qs))"
  proof (rule inj_on_fresh)
    show "inj_on (\<lambda>a. pid (procs ?s (proc_at ?s a))) (set qs)"
      by (rule inj_on_eq [of "\<lambda>a. pid (procs s (proc_at s a))"]) (use r pids(2) in \<open>simp_all add: proc_ring_def\<close>)
    show "pid (procs ?s (proc_at ?s a')) \<noteq> pid (procs ?s (proc_at ?s n))" if "a' \<in> set qs" for a'
      using that pids assms(2) by (auto simp: queue_ok_def)
  qed
  have "NULL \<notin> proc_at ?s ` insert n (set qs)" using a own(3) d(7) by (auto simp: image_iff)
  moreover have "set (h # n # xs) = insert n (set qs)" using qs by auto
  moreover have "currentProcess ?s \<in> insert n (set qs)" "processQueue ?s = h" using d(4) h by (simp_all add: store_simps)
  ultimately show ?thesis using ring inj1 inj2 qs by (simp add: proc_ring_def queue_insert_def)
qed

lemma threads_ok_cong:
  assumes "threads_ok s p ls" and "procs t p = procs s p" and "\<And>l. l \<in> set ls \<Longrightarrow> libs t l = libs s l"
    and "\<And>l. l \<in> set ls \<Longrightarrow> threads t (thread_at s l) = threads s (thread_at s l)" and "owned_pages s \<subseteq> owned_pages t"
  shows "threads_ok t p ls"
proof -
  note d = threads_okD [OF assms(1)]
  have "thread_ring t p ls"
    using thread_ringD(4) [OF d(1)] assms(2-4) by (intro thread_ring_cong [OF d(1)]) simp_all
  moreover have "set ls \<subseteq> owned_pages t" "thread_at t ` set ls \<subseteq> owned_pages t" using d(4,5) assms(3,5) by auto
  ultimately show ?thesis using assms(2-4) d(2,3) by (simp add: threads_ok_def)
qed

subsection \<open>The process and its first thread\<close>

definition process_pages :: "'z sched_scheme \<Rightarrow> addr \<Rightarrow> addr \<Rightarrow> addr \<Rightarrow> addr \<Rightarrow> addr \<Rightarrow> addr \<Rightarrow> 'z sched_scheme \<Rightarrow> bool" where
  \<comment> \<open>the allocator has room for the process \<open>p\<close>, its name, its queue node \<open>n\<close>, the thread \<open>t\<close>, the stack \<open>k\<close>
    and the thread's list node \<open>l\<close>\<close>
  "process_pages s p b n t k l s' \<longleftrightarrow>
     alloc_seq [PAGE, of_nat NAME_LENGTH, PAGE, PAGE, STACK, PAGE] s = Some ([p, b, n, t, k, l], s')
     \<and> NULL \<notin> {p, b, n, t, k, l} \<and> SIZEOF_StackFrame < k \<and> k < 2 ^ 64"

lemma process_pagesD:
  assumes "process_pages s p b n t k l s'"
  shows "\<exists>m1 m2 m3 m4 m5. allocate PAGE s = Some (p, s\<lparr>usedMap := m1\<rparr>)
    \<and> allocate (of_nat NAME_LENGTH) (s\<lparr>usedMap := m1\<rparr>) = Some (b, s\<lparr>usedMap := m2\<rparr>)
    \<and> allocate PAGE (s\<lparr>usedMap := m2\<rparr>) = Some (n, s\<lparr>usedMap := m3\<rparr>)
    \<and> allocate PAGE (s\<lparr>usedMap := m3\<rparr>) = Some (t, s\<lparr>usedMap := m4\<rparr>)
    \<and> allocate STACK (s\<lparr>usedMap := m4\<rparr>) = Some (k, s\<lparr>usedMap := m5\<rparr>)
    \<and> allocate PAGE (s\<lparr>usedMap := m5\<rparr>) = Some (l, s\<lparr>usedMap := usedMap s'\<rparr>)"
proof -
  obtain s1 s2 s3 s4 s5 where a: "allocate PAGE s = Some (p, s1)" "allocate (of_nat NAME_LENGTH) s1 = Some (b, s2)"
    "allocate PAGE s2 = Some (n, s3)" "allocate PAGE s3 = Some (t, s4)" "allocate STACK s4 = Some (k, s5)"
    "allocate PAGE s5 = Some (l, s')"
    using assms by (auto simp: process_pages_def bind_eq_Some_conv)
  show ?thesis
    using a allocate_frame [OF a(1)] allocate_frame [OF a(2)] allocate_frame [OF a(3)] allocate_frame [OF a(4)]
      allocate_frame [OF a(5)] allocate_frame [OF a(6)] by auto
qed

lemma sane_process_pages: "\<forall>r \<in> set [PAGE, of_nat NAME_LENGTH, PAGE, PAGE, STACK, PAGE]. sane_request r"
  by (simp add: sane_request_def)

lemma process_pages_fresh:
  assumes "process_pages s p b n t k l s'" and "mm_inv s"
  shows "mm_inv s'" and "distinct [p, b, n, t, k, l]" and "{p, b, n, t, k, l} \<inter> owned_pages s = {}"
    and "owned_pages s \<subseteq> owned_pages s'" and "{p, b, n, t, k, l} \<subseteq> owned_pages s'"
    and "initMem s' = initMem s" and "blocksAmount s' = blocksAmount s"
proof -
  have al: "alloc_seq [PAGE, of_nat NAME_LENGTH, PAGE, PAGE, STACK, PAGE] s = Some ([p, b, n, t, k, l], s')"
    and nn: "NULL \<notin> set [p, b, n, t, k, l]" using assms(1) by (simp_all add: process_pages_def)
  note f = alloc_seq_fresh [OF assms(2) sane_process_pages al nn]
  show "mm_inv s'" "distinct [p, b, n, t, k, l]" "{p, b, n, t, k, l} \<inter> owned_pages s = {}"
    "owned_pages s \<subseteq> owned_pages s'" "{p, b, n, t, k, l} \<subseteq> owned_pages s'"
    using f by auto
  show "initMem s' = initMem s" "blocksAmount s' = blocksAmount s" using alloc_seq_frame [OF al] by auto
qed

definition process_added :: "addr \<Rightarrow> addr \<Rightarrow> addr \<Rightarrow> addr \<Rightarrow> addr \<Rightarrow> addr \<Rightarrow> addr \<Rightarrow> addr \<Rightarrow> byte list \<Rightarrow> int \<Rightarrow>
    32 word list \<Rightarrow> 'z sched_scheme \<Rightarrow> 'z sched_scheme" where
  "process_added p b n t k l exec entry bytes parent m s =
     with_thread p t k l exec entry m (with_process p b n bytes parent m s)"

lemma process_added_select [store_simps]:
  fixes entry :: addr
  defines "new \<equiv> \<lambda>p b n t k l exec bytes parent m s. process_added p b n t k l exec entry bytes parent m s"
  shows "initMem (new p b n t k l exec bytes parent m s) = initMem s"
    and "blocksAmount (new p b n t k l exec bytes parent m s) = blocksAmount s"
    and "usedMap (new p b n t k l exec bytes parent m s) = m"
    and "pidCount (new p b n t k l exec bytes parent m s) = pidCount s + 1"
    and "pid (procs (new p b n t k l exec bytes parent m s) p) = pidCount s"
    and "p_state (procs (new p b n t k l exec bytes parent m s) p) = READY"
    and "ppid (procs (new p b n t k l exec bytes parent m s) p) = parent"
    and "p_name (procs (new p b n t k l exec bytes parent m s) p) = b"
    and "names (new p b n t k l exec bytes parent m s) b = bytes"
    and "a \<noteq> p \<Longrightarrow> procs (new p b n t k l exec bytes parent m s) a = procs s a"
    and "a \<noteq> t \<Longrightarrow> threads (new p b n t k l exec bytes parent m s) a = threads s a"
    and "t_state (threads (new p b n t k l exec bytes parent m s) t) = T_READY"
    and "entryPoint (threads (new p b n t k l exec bytes parent m s) t) = entry"
    and "userStack (threads (new p b n t k l exec bytes parent m s) t) = k - 184"
    and "frames (new p b n t k l exec bytes parent m s) (k - 184) = initialFrame exec entry (k - 184)"
    and "snodes (new p b n t k l exec bytes parent m s) = snodes (with_process p b n bytes parent m s)"
    and "currentThread (procs s p) = NULL \<Longrightarrow> a \<noteq> l \<Longrightarrow> libs (new p b n t k l exec bytes parent m s) a = libs s a"
    and "currentThread (procs s p) = NULL \<Longrightarrow> libs (new p b n t k l exec bytes parent m s) l = \<lparr>l_thread = t, l_next = l\<rparr>"
    and "currentThread (procs s p) = NULL \<Longrightarrow> threadLibrary (procs (new p b n t k l exec bytes parent m s) p) = l"
    and "currentThread (procs s p) = NULL \<Longrightarrow> currentThread (procs (new p b n t k l exec bytes parent m s) p) = l"
    and "threadSize (procs (new p b n t k l exec bytes parent m s) p) = 1"
    and "currentPThread (procs (new p b n t k l exec bytes parent m s) p) = 1"
    and "pthread (threads (new p b n t k l exec bytes parent m s) t) = 0"
    and "processQueue (new p b n t k l exec bytes parent m s) = (if currentProcess s = NULL then n else processQueue s)"
    and "currentProcess (new p b n t k l exec bytes parent m s) = (if currentProcess s = NULL then n else currentProcess s)"
  unfolding new_def process_added_def by (simp_all add: store_simps) (simp_all add: with_thread_def Let_def store_simps)

lemma addProcess_eq:
  assumes inv: "proc_ring s qs \<or> currentProcess s = NULL \<and> qs = []" and mm: "mm_inv s" and q: "queue_ok s qs"
    and pages: "process_pages s p b n t k l s'" and name: "copyName name 0 = Some bytes"
    and stale: "currentThread (procs s p) \<noteq> NULL \<Longrightarrow> threadLibrary (procs s p) \<noteq> NULL \<and> threadLibrary (procs s p) \<noteq> l"
    and parent: "getCurrentPid s = Some parent"
  shows "addProcess exec entry name s = Some (pidCount s, process_added p b n t k l exec entry bytes parent (usedMap s') s)"
proof -
  obtain m1 m2 m3 m4 m5 where a: "allocate PAGE s = Some (p, s\<lparr>usedMap := m1\<rparr>)"
    "allocate (of_nat NAME_LENGTH) (s\<lparr>usedMap := m1\<rparr>) = Some (b, s\<lparr>usedMap := m2\<rparr>)"
    "allocate PAGE (s\<lparr>usedMap := m2\<rparr>) = Some (n, s\<lparr>usedMap := m3\<rparr>)"
    "allocate PAGE (s\<lparr>usedMap := m3\<rparr>) = Some (t, s\<lparr>usedMap := m4\<rparr>)"
    "allocate STACK (s\<lparr>usedMap := m4\<rparr>) = Some (k, s\<lparr>usedMap := m5\<rparr>)"
    "allocate PAGE (s\<lparr>usedMap := m5\<rparr>) = Some (l, s\<lparr>usedMap := usedMap s'\<rparr>)"
    using process_pagesD [OF pages] by blast
  have nn: "p \<noteq> NULL" "b \<noteq> NULL" "n \<noteq> NULL" "t \<noteq> NULL" "l \<noteq> NULL" and k: "SIZEOF_StackFrame < k" "k < 2 ^ 64"
    using pages by (auto simp: process_pages_def)
  note f = process_pages_fresh [OF pages mm]
  have h: "processQueue s \<noteq> NULL \<and> processQueue s \<noteq> n" if "currentProcess s \<noteq> NULL"
  proof -
    have r: "proc_ring s qs" using inv that by blast
    then have "processQueue s \<in> set qs" by (rule proc_ringD(5))
    then show ?thesis using proc_ringD(6) [OF r] q f(3) by (auto simp: queue_ok_def)
  qed
  let ?s = "with_process p b n bytes parent m3 s"
  let ?w = "\<lambda>m. ?s\<lparr>usedMap := m\<rparr>"
  have al: "allocate PAGE ?s = Some (t, ?w m4)" "allocate STACK (?w m4) = Some (k, ?w m5)" "allocate PAGE (?w m5) = Some (l, ?w (usedMap s'))"
    using allocate_other [OF a(4), of ?s] allocate_other [OF a(5), of "?w m4"] allocate_other [OF a(6), of "?w m5"]
    by (simp_all add: store_simps)
  have ring: "proc_ring ?s (queue_insert n qs)"
    using f(3) nn by (intro with_process_ring inv q) auto
  have at: "proc_at ?s n = p" by (rule with_process_at) (use h in blast)
  have "getProcessWithPid (pidCount s) ?s = Some p"
    using getProcessWithPid_hit [OF ring, of n] at by (simp add: set_queue_insert store_simps)
  from addThreadToProcess_eq [OF this nn(1) al(1) nn(4) al(2) k al(3) nn(5), of exec entry]
  have th: "addThreadToProcess (pidCount s) exec entry ?s = Some (0, with_thread p t k l exec entry (usedMap s') ?s)"
    using stale by (simp add: store_simps)
  have w: "with_thread p t k l exec entry (usedMap s') ?s = process_added p b n t k l exec entry bytes parent (usedMap s') s"
    by (simp add: process_added_def with_thread_def with_process_def Let_def)
  have cq: "do { (process, s) \<leftarrow> createProcess name parent s; s \<leftarrow> addProcessToQueue process s; Some (process, s) } = Some (p, ?s)"
    by (rule queue_process_eq [OF a(1) nn(1) a(2) nn(2) a(3) nn(3) name]) (rule h)
  then obtain s1 where s1: "createProcess name parent s = Some (p, s1)" "addProcessToQueue p s1 = Some ?s"
    by (auto simp: bind_eq_Some_conv)
  show ?thesis
    using parent s1 th nn(1) by (simp add: addProcess_def store_simps w process_added_select)
qed

lemma process_pages_prefix:
  assumes "prefix_used s k" and "k + 261 \<le> nat (blocksAmount s)" and "SIZEOF_StackFrame < initMem s"
    and "initMem s + nat (blocksAmount s) * 4096 < 2 ^ 64"
  shows "\<exists>m. process_pages s (page_addr s k) (page_addr s (k + 1)) (page_addr s (k + 2)) (page_addr s (k + 3)) (page_addr s (k + 4))
      (page_addr s (k + 260)) (s\<lparr>usedMap := m\<rparr>) \<and> prefix_used (s\<lparr>usedMap := m\<rparr>) (k + 261)"
proof -
  let ?rs = "[PAGE, of_nat NAME_LENGTH, PAGE, PAGE, STACK, PAGE]"
  have n: "npages 50 = 1" by (simp add: npages_def ceil_div_def)
  have e: "Suc (Suc (Suc k)) = k + 3" "Suc (Suc (Suc (Suc k))) = k + 4" by simp_all
  have "[0..<6] = [0, 1, 2, 3, 4, 5 :: nat]" by (simp add: upt_rec)
  then have pages: "map (\<lambda>i. page_addr s (k + sum_list (map npages (take i ?rs)))) [0..<length ?rs] =
      [page_addr s k, page_addr s (k + 1), page_addr s (k + 2), page_addr s (k + 3), page_addr s (k + 4), page_addr s (k + 260)]"
    by (simp add: n e add.commute [of 4 k])
  have "page_addr s i \<noteq> NULL" for i using assms(3) by (simp add: page_addr_def)
  moreover have "SIZEOF_StackFrame < page_addr s (k + 4)" "page_addr s (k + 4) < 2 ^ 64"
    using assms(2-4) by (auto simp: page_addr_def)
  moreover have "sum_list (map npages ?rs) = 261" by (simp add: n)
  ultimately show ?thesis
    using alloc_seq_prefix [OF assms(1) sane_process_pages] assms(2) unfolding pages process_pages_def
    by (simp del: alloc_seq.simps)
qed

lemma process_added_inv:
  assumes inv: "sched_inv s qs ths \<or> currentProcess s = NULL \<and> qs = []" and mm: "mm_inv s" and q: "queue_ok s qs"
    and pages: "process_pages s p b n t k l s'" and fresh: "currentThread (procs s p) = NULL"
    and rr: "r = process_added p b n t k l exec entry bytes parent (usedMap s') s"
  shows "sched_inv r (queue_insert n qs) (ths(n := [l]))" and "mm_inv r" and "queue_ok r (queue_insert n qs)"
    and "owned_pages r = owned_pages s'" and "proc_at r n = p" and "a \<in> set qs \<Longrightarrow> proc_at r a = proc_at s a"
proof -
  note f = process_pages_fresh [OF pages mm]
  have nn: "p \<noteq> NULL" "b \<noteq> NULL" "n \<noteq> NULL" "t \<noteq> NULL" "l \<noteq> NULL"
    using pages by (auto simp: process_pages_def)
  have ring: "proc_ring s qs \<or> currentProcess s = NULL \<and> qs = []" using inv sched_invD(2) by blast
  let ?w = "with_process p b n bytes parent (usedMap s') s"
  have r: "r = with_thread p t k l exec entry (usedMap s') ?w" by (simp add: rr process_added_def)
  have sel: "usedMap r = usedMap s'" "initMem r = initMem s" "blocksAmount r = blocksAmount s"
    by (simp_all add: rr store_simps)
  show o: "owned_pages r = owned_pages s'"
    using owned_pages_other [of r s'] f(6,7) by (simp add: sel)
  show "mm_inv r" using f(1,6,7) by (simp add: mm_inv_def sel)
  have hn: "processQueue s \<noteq> n" if "currentProcess s \<noteq> NULL"
    using that ring proc_ringD(5) [of s qs] q f(3) by (auto simp: queue_ok_def)
  have other: "proc_at s a \<noteq> p" "a \<noteq> n" if "a \<in> set qs" for a using that q f(3) by (auto simp: queue_ok_def)
  show at: "proc_at r n = p" and at': "a \<in> set qs \<Longrightarrow> proc_at r a = proc_at s a" for a
    using with_process_at [OF hn] other [of a] by (simp_all add: rr store_simps)
  have procs: "procs r (proc_at s a) = procs s (proc_at s a)" if "a \<in> set qs" for a
    using other [OF that] by (simp add: rr store_simps)
  have pr: "proc_ring r (queue_insert n qs)"
  proof (rule proc_ring_cong)
    show w: "proc_ring ?w (queue_insert n qs)" using f(3) nn by (intro with_process_ring ring q) auto
    show "currentProcess r \<in> set (queue_insert n qs)" using proc_ringD(4) [OF w] by (simp add: r store_simps)
  qed (simp_all add: r store_simps)
  have "thread_ring r p [l]"
    using fresh nn by (intro thread_ring_first) (simp_all add: rr store_simps)
  then have new: "threads_ok r p [l]"
    using fresh f(5) o by (simp add: threads_ok_def) (simp add: rr store_simps)
  have ok: "threads_ok s (proc_at s a) (ths a)" if "a \<in> set qs" for a
    using inv that sched_wfD(2) [OF sched_invD(1)] by auto
  have old: "x \<noteq> l" "thread_at s x \<noteq> t" "libs r x = libs s x" "threads r (thread_at s x) = threads s (thread_at s x)"
    if "a \<in> set qs" "x \<in> set (ths a)" for a x
  proof -
    show "x \<noteq> l" "thread_at s x \<noteq> t" using threads_okD(4,5) [OF ok [OF that(1)] that(2)] f(3) by auto
    then show "libs r x = libs s x" "threads r (thread_at s x) = threads s (thread_at s x)"
      using fresh by (simp_all add: rr store_simps)
  qed
  have "threads_ok r (proc_at r a) (ths a)" if "a \<in> set qs" for a
    unfolding at' [OF that]
    by (rule threads_ok_cong [OF ok [OF that] procs [OF that]]) (use old [OF that] o f(4) in auto)
  moreover have "thread_at r ` set (ths a) \<inter> thread_at r ` set (ths c) = {}" if "a \<in> set qs" "c \<in> set qs" "a \<noteq> c" for a c
    using sched_wfD(4) [OF sched_invD(1), of s qs ths] inv that old(3) by fastforce
  moreover have "thread_at r l = t" using fresh by (simp add: rr store_simps)
  moreover have "t \<notin> thread_at r ` set (ths a)" if "a \<in> set qs" for a using old(2,3) [OF that] by force
  moreover have "a \<noteq> n" if "a \<in> set qs" for a using other [OF that] by simp
  ultimately have wf: "sched_wf r (queue_insert n qs) (ths(n := [l]))"
    using pr new at unfolding sched_wf_def set_queue_insert by auto
  have "running_inv r (queue_insert n qs) (ths(n := [l]))"
    unfolding running_inv_def set_queue_insert
  proof (rule ballI)
    fix a assume "a \<in> insert n (set qs)"
    then consider "a = n" | "a \<in> set qs" "a \<noteq> n" using other by blast
    then show "(st r a = RUNNING \<longrightarrow> a = currentProcess r) \<and> st r a \<noteq> DEAD \<and>
      (\<forall>x \<in> set ((ths(n := [l])) a). (tst r x = T_RUNNING \<longrightarrow> x = currentThread (procs r (proc_at r a))) \<and> tst r x \<noteq> T_DEAD)"
    proof cases
      case 1
      then show ?thesis using at fresh by (simp add: rr store_simps)
    next
      case 2
      then have i: "sched_inv s qs ths" using inv by auto
      note d = sched_invD [OF i]
      have "currentProcess s \<noteq> NULL" using proc_ringD(4) [OF d(2)] proc_ringD(6) [OF d(2)] by metis
      then have "currentProcess r = currentProcess s" by (simp add: rr store_simps)
      then show ?thesis using d(4-7) [OF 2(1)] old [OF 2(1)] procs [OF 2(1)] at' [OF 2(1)] 2(2) by simp
    qed
  qed
  then show "sched_inv r (queue_insert n qs) (ths(n := [l]))" using wf by (simp add: sched_inv_def)
  show "queue_ok r (queue_insert n qs)"
    using q f(4,5) at at' procs o unfolding queue_ok_def set_queue_insert
    by (auto simp: rr store_simps less_Suc_eq)
qed

subsection \<open>Properties\<close>

text \<open>C8. Starting a process keeps the invariant of the scheduler: while there are pages, and when the page that
  the new process gets reads null in \<open>currentThread\<close>, \<open>addProcess\<close> returns the next number, the process is ready
  right behind the head of the queue with one ready thread, its name, its parent and the frame from which the thread
  starts, and all other processes are what they were.\<close>

theorem addProcess_keeps_scheduler:
  assumes inv: "sched_inv s qs ths" and mm: "mm_inv s" and q: "queue_ok s qs"
    and pages: "process_pages s p b n t k l s'" and name: "copyName name 0 = Some bytes"
    and fresh: "currentThread (procs s p) = NULL"
  shows "\<exists>r. addProcess exec entry name s = Some (pidCount s, r)
    \<and> sched_inv r (queue_insert n qs) (ths(n := [l])) \<and> mm_inv r \<and> queue_ok r (queue_insert n qs)
    \<and> proc_at r n = p \<and> pid (procs r p) = pidCount s \<and> getCurrentPid s = Some (ppid (procs r p))
    \<and> st r n = READY \<and> names r (p_name (procs r p)) = bytes \<and> thread_at r l = t
    \<and> entryPoint (threads r t) = entry \<and> frames r (userStack (threads r t)) = initialFrame exec entry (userStack (threads r t))
    \<and> (\<forall>a \<in> set qs. proc_at r a = proc_at s a \<and> procs r (proc_at s a) = procs s (proc_at s a))"
proof -
  have ring: "proc_ring s qs" using sched_invD(2) [OF inv] .
  obtain parent where parent: "getCurrentPid s = Some parent" using getCurrentPid_ring [OF ring] by blast
  define r where "r = process_added p b n t k l exec entry bytes parent (usedMap s') s"
  have run: "addProcess exec entry name s = Some (pidCount s, r)"
    unfolding r_def using addProcess_eq [OF disjI1 [OF ring] mm q pages name _ parent] fresh by blast
  note i = process_added_inv [OF disjI1 [OF inv] mm q pages fresh r_def]
  have "proc_at s a \<noteq> p" if "a \<in> set qs" for a
    using that q process_pages_fresh(3) [OF pages mm] by (auto simp: queue_ok_def)
  then have "procs r (proc_at s a) = procs s (proc_at s a)" if "a \<in> set qs" for a
    using that by (simp add: r_def store_simps)
  then show ?thesis using run i parent fresh by (intro exI [of _ r]) (simp add: r_def store_simps)
qed

lemma demo_process_pages:
  shows "\<exists>s'. process_pages demo 0x100C000 0x100D000 0x100E000 0x100F000 0x1010000 0x1110000 s'"
    and "queue_ok demo demo_queue" and "mm_inv demo" and "pidCount demo = 3"
proof -
  have mm: "initMem demo = 0x1000000" "blocksAmount demo = 28671" "usedMap demo = mask 12 # replicate 895 0"
    by (simp_all add: demo_def blank_sched_def)
  show inv: "mm_inv demo" by (simp add: mm_inv_def mm ceil_div_def)
  then have "prefix_used demo 12" by (simp add: prefix_used_def mm occupied_mask)
  moreover have "page_addr demo 12 = 0x100C000" "page_addr demo 13 = 0x100D000" "page_addr demo 14 = 0x100E000"
    "page_addr demo 15 = 0x100F000" "page_addr demo 16 = 0x1010000" "page_addr demo 272 = 0x1110000"
    by (simp_all add: page_addr_def mm)
  ultimately show "\<exists>s'. process_pages demo 0x100C000 0x100D000 0x100E000 0x100F000 0x1010000 0x1110000 s'"
    using process_pages_prefix [of demo 12] by (auto simp: mm)
  show p: "pidCount demo = 3" by (simp add: demo_def)
  show "queue_ok demo demo_queue"
    using demo_page [of 0] demo_page [of 1] demo_page [of 2] demo_page [of 3] demo_page [of 4] demo_page [of 5]
    by (simp add: queue_ok_def demo_queue_def demo_select demo_proc_def p)
qed

theorem addProcess_keeps_scheduler_witness:
  "\<exists>r. addProcess 0x100500 0x400000 [115, 104, 0] demo = Some (3, r)
    \<and> sched_inv r [0x1000000, 0x100E000, 0x1001000, 0x1002000] (demo_threads(0x100E000 := [0x1110000]))
    \<and> pid (procs r 0x100C000) = 3 \<and> ppid (procs r 0x100C000) = 0 \<and> entryPoint (threads r 0x100F000) = 0x400000"
proof -
  obtain s' where pages: "process_pages demo 0x100C000 0x100D000 0x100E000 0x100F000 0x1010000 0x1110000 s'"
    using demo_process_pages(1) by blast
  have name: "copyName [115, 104, 0] 0 = Some [115, 104, 0]" using copyName_eq [of "[115, 104]" "[]"] by simp
  have "currentThread (procs demo 0x100C000) = NULL" by (simp add: demo_def blank_sched_def zero_proc_def)
  moreover have "getCurrentPid demo = Some 0" by (simp add: getCurrentPid_ring [OF demo_ring] demo_select demo_proc_def)
  moreover have "queue_insert 0x100E000 demo_queue = [0x1000000, 0x100E000, 0x1001000, 0x1002000]"
    by (simp add: queue_insert_def demo_queue_def)
  ultimately show ?thesis
    using addProcess_keeps_scheduler [OF demo_inv demo_process_pages(3,2) pages name, of "0x100500" "0x400000"] demo_process_pages(4)
    by auto
qed

text \<open>C24. A process that gets the page of an earlier process inherits its threads: \<open>createProcess\<close> leaves the old
  \<open>currentThread\<close> and \<open>threadLibrary\<close> in place, so the new process runs the thread of the dead one from list nodes that
  have been freed, and its own thread hangs behind the old list with a thread count of one.\<close>

theorem recycled_process_keeps_threads:
  assumes inv: "sched_inv s qs ths" and mm: "mm_inv s" and q: "queue_ok s qs"
    and pages: "process_pages s p b n t k l s'" and name: "copyName name 0 = Some bytes"
    and stale: "currentThread (procs s p) = c" "c \<noteq> NULL" "threadLibrary (procs s p) = h" "h \<noteq> NULL" "h \<noteq> l"
  shows "\<exists>r. addProcess exec entry name s = Some (pidCount s, r) \<and> currentThread (procs r p) = c
    \<and> threadLibrary (procs r p) = h \<and> threadSize (procs r p) = 1 \<and> thread_at r l = t \<and> lnx r h = l \<and> (\<nexists>ls. threads_ok r p ls)"
proof -
  have ring: "proc_ring s qs" using sched_invD(2) [OF inv] .
  obtain parent where parent: "getCurrentPid s = Some parent" using getCurrentPid_ring [OF ring] by blast
  define r where "r = process_added p b n t k l exec entry bytes parent (usedMap s') s"
  have run: "addProcess exec entry name s = Some (pidCount s, r)"
    unfolding r_def using addProcess_eq [OF disjI1 [OF ring] mm q pages name _ parent] stale by blast
  have lib: "libs r = (libs s)(l := \<lparr>l_thread = t, l_next = l_next (libs s h)\<rparr>, h := (libs s h)\<lparr>l_next := l\<rparr>)"
    "currentThread (procs r p) = c" "threadLibrary (procs r p) = h" "threadSize (procs r p) = 1"
    using stale by (simp_all add: r_def process_added_def with_thread_def Let_def store_simps)
  have "\<not> threads_ok r p ls" for ls
  proof
    assume ok: "threads_ok r p ls"
    then have "length ls = 1" using threads_okD(2) [OF ok] lib(4) by simp
    then have "ls = [h]" using thread_ringD(3) [OF threads_okD(1) [OF ok]] lib(3) by (cases ls) auto
    then show False using thread_ringD(1) [OF threads_okD(1) [OF ok]] lib(1) stale(5) by (simp add: ring_def)
  qed
  then show ?thesis using run lib stale(5) by (intro exI [of _ r]) simp
qed

definition stale_demo :: sched where
  \<comment> \<open>the next free page is that of a process that was removed\<close>
  "stale_demo = demo\<lparr>procs := (procs demo)(0x100C000 := demo_proc 7 DEAD 0x1200000)\<rparr>"

lemma stale_demo_inv: "sched_inv stale_demo demo_queue demo_threads"
proof -
  have p: "proc_at demo n \<noteq> 0x100C000" if "n \<in> set demo_queue" for n using that by (auto simp: demo_nodes demo_select)
  have "proc_ring stale_demo demo_queue"
    using p by (intro proc_ring_cong [OF demo_ring]) (auto simp: stale_demo_def demo_select demo_nodes)
  moreover have "threads_ok stale_demo (proc_at stale_demo n) (demo_threads n)" if "n \<in> set demo_queue" for n
  proof -
    have "owned_pages stale_demo = owned_pages demo" by (rule owned_pages_other) (simp_all add: stale_demo_def)
    then have "threads_ok stale_demo (proc_at demo n) (demo_threads n)"
      using p [OF that] by (intro threads_ok_cong [OF demo_threads_ok [OF that]]) (simp_all add: stale_demo_def)
    then show ?thesis by (simp add: stale_demo_def)
  qed
  ultimately show ?thesis using demo_inv p by (simp add: sched_inv_def sched_wf_def running_inv_def stale_demo_def)
qed

theorem recycled_process_keeps_threads_witness:
  "\<exists>r. addProcess 0x100500 0x400000 [115, 104, 0] stale_demo = Some (3, r)
    \<and> currentThread (procs r 0x100C000) = 0x1200000 \<and> lnx r 0x1200000 = 0x1110000 \<and> (\<nexists>ls. threads_ok r 0x100C000 ls)"
proof -
  have eq: "initMem stale_demo = initMem demo" "usedMap stale_demo = usedMap demo" "blocksAmount stale_demo = blocksAmount demo"
    "pidCount stale_demo = pidCount demo"
    by (simp_all add: stale_demo_def)
  have o: "owned_pages stale_demo = owned_pages demo" by (rule owned_pages_other) (simp_all add: eq)
  have mm: "mm_inv stale_demo" using demo_process_pages(3) by (simp add: mm_inv_def eq)
  have q: "queue_ok stale_demo demo_queue"
  proof -
    have "snodes stale_demo = snodes demo" by (simp add: stale_demo_def)
    moreover have "procs stale_demo (proc_at demo n) = procs demo (proc_at demo n)" if "n \<in> set demo_queue" for n
      using that by (auto simp: stale_demo_def demo_nodes demo_select)
    ultimately show ?thesis using demo_process_pages(2) by (simp add: queue_ok_def o eq(4))
  qed
  have "prefix_used stale_demo 12"
    using mm demo_process_pages(3) by (simp add: prefix_used_def eq) (simp add: demo_def blank_sched_def occupied_mask)
  moreover have "page_addr stale_demo 12 = 0x100C000" "page_addr stale_demo 13 = 0x100D000" "page_addr stale_demo 14 = 0x100E000"
    "page_addr stale_demo 15 = 0x100F000" "page_addr stale_demo 16 = 0x1010000" "page_addr stale_demo 272 = 0x1110000"
    by (simp_all add: page_addr_def eq) (simp_all add: demo_def blank_sched_def)
  ultimately obtain s' where pages: "process_pages stale_demo 0x100C000 0x100D000 0x100E000 0x100F000 0x1010000 0x1110000 s'"
    using process_pages_prefix [of stale_demo 12] by (auto simp: eq demo_def blank_sched_def)
  have name: "copyName [115, 104, 0] 0 = Some [115, 104, 0]" using copyName_eq [of "[115, 104]" "[]"] by simp
  have "currentThread (procs stale_demo 0x100C000) = 0x1200000" "threadLibrary (procs stale_demo 0x100C000) = 0x1200000"
    by (simp_all add: stale_demo_def demo_proc_def)
  then show ?thesis
    using recycled_process_keeps_threads [OF stale_demo_inv mm q pages name, where c = "0x1200000" and h = "0x1200000"
        and exec = "0x100500" and entry = "0x400000"] demo_process_pages(4) eq(4) by auto
qed

end
