(* ===== verification/Geometry.thy ===== *)
theory Geometry
  imports SystemCalls NewProcess
begin

section \<open>No operation resizes the usage map\<close>

text \<open>
  The region that the allocator manages, the number of its pages and the length of its map (\<open>geom\<close>) are set once; every
  other operation of the kernel leaves them as they are.  One lemma per operation, from the stores and the allocator up to
  the system calls; \<open>geom_rules\<close> collects them for the operations that call others.
\<close>

definition geom :: "'z mm_state_scheme \<Rightarrow> addr \<times> int \<times> nat" where
  "geom s = (initMem s, blocksAmount s, length (usedMap s))"

named_theorems geom_rules \<open>an operation keeps the geometry of the allocator\<close>

lemma geom_sched [simp]:
  "geom (s\<lparr>procs := a\<rparr>) = geom s" "geom (s\<lparr>threads := b\<rparr>) = geom s" "geom (s\<lparr>libs := c\<rparr>) = geom s"
  "geom (s\<lparr>snodes := d\<rparr>) = geom s" "geom (s\<lparr>heaps := e\<rparr>) = geom s" "geom (s\<lparr>names := f\<rparr>) = geom s"
  "geom (s\<lparr>frames := g\<rparr>) = geom s" "geom (s\<lparr>kernelStack := h\<rparr>) = geom s" "geom (s\<lparr>processQueue := h\<rparr>) = geom s"
  "geom (s\<lparr>currentProcess := h\<rparr>) = geom s" "geom (s\<lparr>queueSize := i\<rparr>) = geom s" "geom (s\<lparr>numberOfTicks := i\<rparr>) = geom s"
  "geom (s\<lparr>pidCount := i\<rparr>) = geom s"
  by (simp_all add: geom_def)

lemma geom_chars [simp]: "geom (t\<lparr>cmem := m\<rparr>) = geom t" "geom (v\<lparr>currentPosition := h\<rparr>) = geom v"
  "geom (c\<lparr>currentVideo := h\<rparr>) = geom c" "geom (c\<lparr>nc_buffer := w\<rparr>) = geom c"
  by (simp_all add: geom_def)

lemma geom_map [simp]: "geom (s\<lparr>usedMap := m\<rparr>) = geom s \<longleftrightarrow> length m = length (usedMap s)"
  by (simp add: geom_def)

lemma geom_inv: "geom s' = geom s \<Longrightarrow> mm_inv s' \<longleftrightarrow> mm_inv s"
  by (simp add: geom_def mm_inv_def)

lemma setBit_length: "setBit m i = Some m' \<Longrightarrow> length m' = length m"
  by (auto simp: setBit_def Let_def split: if_splits)

lemma resetBit_length: "resetBit m i = Some m' \<Longrightarrow> length m' = length m"
  by (auto simp: resetBit_def Let_def split: if_splits)

lemma setBits_length: "setBits m i l = Some m' \<Longrightarrow> length m' = length m"
proof (induction m i l rule: setBits.induct)
  case (1 m i l)
  then show ?case by (subst (asm) (2) setBits.simps) (auto simp: bind_eq_Some_conv setBit_length split: if_splits)
qed

lemma resetBits_length: "resetBits m i l = Some m' \<Longrightarrow> length m' = length m"
proof (induction m i l rule: resetBits.induct)
  case (1 m i l)
  then show ?case by (subst (asm) (2) resetBits.simps) (auto simp: bind_eq_Some_conv resetBit_length split: if_splits)
qed

lemma geom_allocate [geom_rules]: "allocate r s = Some (p, s') \<Longrightarrow> geom s' = geom s"
  by (auto simp: allocate_def reserve_def Let_def bind_eq_Some_conv setBits_length split: if_splits)

lemma geom_deallocate [geom_rules]: "deallocate p r s = Some (x, s') \<Longrightarrow> geom s' = geom s"
  by (auto simp: deallocate_def Let_def bind_eq_Some_conv resetBits_length split: if_splits)

lemma geom_only: "only_video v w \<Longrightarrow> geom w = geom v"
  using only_video_sched [of v w] by (auto simp: only_video_def geom_def)

lemma geom_printed [geom_rules]: "printDec n v = Some w \<Longrightarrow> geom w = geom v" "printProcessInfo p v = Some w \<Longrightarrow> geom w = geom v"
  "printPsHeader u v = Some w \<Longrightarrow> geom w = geom v"
  by (rule geom_only, erule printDec_only printProcessInfo_only printPsHeader_only)+

lemma geom_psLoop [geom_rules]: "psLoop i q v = Some w \<Longrightarrow> geom w = geom v"
proof (induction i q v arbitrary: w rule: psLoop.induct)
  case (1 i q v)
  show ?case
  proof (cases "i < queueSize v")
    case True
    then obtain node x where x: "get_snode v q = Some node" "printProcessInfo (sn_process node) v = Some x"
        "psLoop (i + 1) (sn_next node) x = Some w"
      using "1.prems" by (subst (asm) psLoop.simps) (auto simp: bind_eq_Some_conv)
    then show ?thesis using "1.IH" [OF True x(1,2,3)] geom_printed(2) [OF x(2)] by simp
  qed (use "1.prems" in \<open>subst (asm) psLoop.simps, simp\<close>)
qed

subsection \<open>Stores, threads and processes\<close>

lemma geom_set_proc [geom_rules]: "set_proc x0 x1 s = Some s' \<Longrightarrow> geom s' = geom s"
  by (auto simp: set_proc_def Let_def bind_eq_Some_conv split: if_splits prod.splits option.splits dest!: geom_rules)

lemma geom_set_thread [geom_rules]: "set_thread x0 x1 s = Some s' \<Longrightarrow> geom s' = geom s"
  by (auto simp: set_thread_def Let_def bind_eq_Some_conv split: if_splits prod.splits option.splits dest!: geom_rules)

lemma geom_set_lib [geom_rules]: "set_lib x0 x1 s = Some s' \<Longrightarrow> geom s' = geom s"
  by (auto simp: set_lib_def Let_def bind_eq_Some_conv split: if_splits prod.splits option.splits dest!: geom_rules)

lemma geom_set_snode [geom_rules]: "set_snode x0 x1 s = Some s' \<Longrightarrow> geom s' = geom s"
  by (auto simp: set_snode_def Let_def bind_eq_Some_conv split: if_splits prod.splits option.splits dest!: geom_rules)

lemma geom_set_heap [geom_rules]: "set_heap x0 x1 s = Some s' \<Longrightarrow> geom s' = geom s"
  by (auto simp: set_heap_def Let_def bind_eq_Some_conv split: if_splits prod.splits option.splits dest!: geom_rules)

lemma geom_fillStackFrame [geom_rules]: "fillStackFrame x0 x1 x2 s = Some (r0, s') \<Longrightarrow> geom s' = geom s"
  by (auto simp: fillStackFrame_def Let_def bind_eq_Some_conv split: if_splits prod.splits option.splits dest!: geom_rules)

lemma geom_createThread [geom_rules]: "createThread x0 x1 x2 s = Some (r0, s') \<Longrightarrow> geom s' = geom s"
  by (auto simp: createThread_def Let_def bind_eq_Some_conv split: if_splits prod.splits option.splits dest!: geom_rules)

lemma geom_linkThread [geom_rules]: "linkThread x0 x1 s = Some s' \<Longrightarrow> geom s' = geom s"
  by (auto simp: linkThread_def Let_def bind_eq_Some_conv split: if_splits prod.splits option.splits dest!: geom_rules)

lemma geom_addThreadToProcess [geom_rules]: "addThreadToProcess x0 x1 x2 s = Some (r0, s') \<Longrightarrow> geom s' = geom s"
  by (auto simp: addThreadToProcess_def Let_def bind_eq_Some_conv split: if_splits prod.splits option.splits dest!: geom_rules)

lemma geom_freeLibLoop' [geom_rules]: "freeLibLoop x0 x1 x2 x3 s = Some y \<Longrightarrow> geom y = geom s"
proof (induction "nat (x0 - x1)" arbitrary: x1 x2 x3 s y rule: less_induct)
  case less
  from less.prems show ?case
    by (subst (asm) freeLibLoop.simps)
      (auto simp: Let_def bind_eq_Some_conv split: if_splits prod.splits option.splits dest!: geom_rules less.hyps [rotated])
qed

lemma geom_freeThreadLibrary [geom_rules]: "freeThreadLibrary x0 x1 x2 s = Some s' \<Longrightarrow> geom s' = geom s"
  by (auto simp: freeThreadLibrary_def Let_def bind_eq_Some_conv split: if_splits prod.splits option.splits dest!: geom_rules)

lemma geom_createProcessName [geom_rules]: "createProcessName x0 x1 s = Some s' \<Longrightarrow> geom s' = geom s"
  by (auto simp: createProcessName_def Let_def bind_eq_Some_conv split: if_splits prod.splits option.splits dest!: geom_rules)

lemma geom_createProcess [geom_rules]: "createProcess x0 x1 s = Some (r0, s') \<Longrightarrow> geom s' = geom s"
  by (auto simp: createProcess_def Let_def bind_eq_Some_conv split: if_splits prod.splits option.splits dest!: geom_rules)

lemma geom_newHeapNode [geom_rules]: "newHeapNode x0 x1 s = Some (r0, s') \<Longrightarrow> geom s' = geom s"
  by (auto simp: newHeapNode_def Let_def bind_eq_Some_conv split: if_splits prod.splits option.splits dest!: geom_rules)

lemma geom_set_heap_next [simp]: "geom (set_heap_next s x1 x2) = geom s"
  by (auto simp: set_heap_next_def Let_def split: if_splits prod.splits dest!: geom_rules)

lemma geom_addHeap' [geom_rules]: "addHeap x0 x1 x2 s = Some y \<Longrightarrow> geom (snd y) = geom s"
  by (erule addHeap.raw_induct [rotated, where P = "\<lambda>x0 x1 x2 s y. geom (snd y) = geom s"])
    (auto simp: Let_def bind_eq_Some_conv split: if_splits prod.splits option.splits dest!: geom_rules)

lemma geom_pmalloc [geom_rules]: "pmalloc x0 s = Some (r0, s') \<Longrightarrow> geom s' = geom s"
  by (auto simp: pmalloc_def Let_def bind_eq_Some_conv split: if_splits prod.splits option.splits dest!: geom_rules)

lemma geom_freeBlock [geom_rules]: "freeBlock s x1 = Some s' \<Longrightarrow> geom s' = geom s"
  by (auto simp: freeBlock_def Let_def bind_eq_Some_conv split: if_splits prod.splits option.splits dest!: geom_rules)

lemma geom_pfreeR' [geom_rules]: "pfreeR x0 x1 s = Some y \<Longrightarrow> geom (snd y) = geom s"
  by (erule pfreeR.raw_induct [rotated, where P = "\<lambda>x0 x1 s y. geom (snd y) = geom s"])
    (auto simp: Let_def bind_eq_Some_conv split: if_splits prod.splits option.splits dest!: geom_rules)

lemma geom_pfree [geom_rules]: "pfree x0 s = Some s' \<Longrightarrow> geom s' = geom s"
  by (auto simp: pfree_def Let_def bind_eq_Some_conv split: if_splits prod.splits option.splits dest!: geom_rules)

lemma geom_freeHeap' [geom_rules]: "freeHeap x0 s = Some y \<Longrightarrow> geom y = geom s"
  by (erule freeHeap.raw_induct [rotated, where P = "\<lambda>x0 s y. geom y = geom s"])
    (auto simp: Let_def bind_eq_Some_conv split: if_splits prod.splits option.splits dest!: geom_rules)

lemma geom_freeProcess [geom_rules]: "freeProcess x0 x1 s = Some s' \<Longrightarrow> geom s' = geom s"
  by (auto simp: freeProcess_def Let_def bind_eq_Some_conv split: if_splits prod.splits option.splits dest!: geom_rules)

subsection \<open>The scheduler\<close>

lemma geom_addProcessToQueue [geom_rules]: "addProcessToQueue x0 s = Some s' \<Longrightarrow> geom s' = geom s"
  by (auto simp: addProcessToQueue_def Let_def bind_eq_Some_conv split: if_splits prod.splits option.splits dest!: geom_rules)

lemma geom_addProcess [geom_rules]: "addProcess x0 x1 x2 s = Some (r0, s') \<Longrightarrow> geom s' = geom s"
  by (auto simp: addProcess_def Let_def bind_eq_Some_conv split: if_splits prod.splits option.splits dest!: geom_rules)

lemma geom_removeProcess [geom_rules]: "removeProcess x0 s = Some s' \<Longrightarrow> geom s' = geom s"
  by (auto simp: removeProcess_def Let_def bind_eq_Some_conv split: if_splits prod.splits option.splits dest!: geom_rules)

lemma geom_deadProcessLoop' [geom_rules]: "deadProcessLoop x0 x1 x2 x3 x4 s = Some y \<Longrightarrow> geom y = geom s"
proof (induction "nat (x1 - x2)" arbitrary: x2 x3 x4 s y rule: less_induct)
  case less
  from less.prems show ?case
    by (subst (asm) deadProcessLoop.simps)
      (auto simp: Let_def bind_eq_Some_conv split: if_splits prod.splits option.splits dest!: geom_rules less.hyps [rotated])
qed

lemma geom_removeDeadProcess [geom_rules]: "removeDeadProcess x0 s = Some s' \<Longrightarrow> geom s' = geom s"
  by (auto simp: removeDeadProcess_def Let_def bind_eq_Some_conv split: if_splits prod.splits option.splits dest!: geom_rules)

lemma geom_blockProcess [geom_rules]: "blockProcess x0 x1 s = Some s' \<Longrightarrow> geom s' = geom s"
  by (auto simp: blockProcess_def Let_def bind_eq_Some_conv split: if_splits prod.splits option.splits dest!: geom_rules)

lemma geom_unblockProcess [geom_rules]: "unblockProcess x0 x1 s = Some s' \<Longrightarrow> geom s' = geom s"
  by (auto simp: unblockProcess_def Let_def bind_eq_Some_conv split: if_splits prod.splits option.splits dest!: geom_rules)

lemma geom_blockThread [geom_rules]: "blockThread x0 x1 x2 s = Some s' \<Longrightarrow> geom s' = geom s"
  by (auto simp: blockThread_def Let_def bind_eq_Some_conv split: if_splits prod.splits option.splits dest!: geom_rules)

lemma geom_unblockThread [geom_rules]: "unblockThread x0 x1 x2 s = Some s' \<Longrightarrow> geom s' = geom s"
  by (auto simp: unblockThread_def Let_def bind_eq_Some_conv split: if_splits prod.splits option.splits dest!: geom_rules)

lemma geom_unblockLoop' [geom_rules]: "unblockLoop x0 x1 x2 x3 x4 s = Some y \<Longrightarrow> geom y = geom s"
proof (induction "nat (x2 - x3)" arbitrary: x1 x3 x4 s y rule: less_induct)
  case less
  from less.prems show ?case
    by (subst (asm) unblockLoop.simps)
      (auto simp: Let_def bind_eq_Some_conv split: if_splits prod.splits option.splits dest!: geom_rules less.hyps [rotated])
qed

lemma geom_unblockAllThreads [geom_rules]: "unblockAllThreads x0 x1 s = Some s' \<Longrightarrow> geom s' = geom s"
  by (auto simp: unblockAllThreads_def Let_def bind_eq_Some_conv split: if_splits prod.splits option.splits dest!: geom_rules)

lemma geom_deadThreadLoop' [geom_rules]: "deadThreadLoop x0 x1 x2 x3 s = Some y \<Longrightarrow> geom y = geom s"
proof (induction "nat (x0 - x1)" arbitrary: x1 x2 x3 s y rule: less_induct)
  case less
  from less.prems show ?case
    by (subst (asm) deadThreadLoop.simps)
      (auto simp: Let_def bind_eq_Some_conv split: if_splits prod.splits option.splits dest!: geom_rules less.hyps [rotated])
qed

lemma geom_removeDeadThreads [geom_rules]: "removeDeadThreads x0 x1 s = Some s' \<Longrightarrow> geom s' = geom s"
  by (auto simp: removeDeadThreads_def Let_def bind_eq_Some_conv split: if_splits prod.splits option.splits dest!: geom_rules)

lemma geom_set_current_thread [simp]: "geom (set_current_thread x0 s x2) = geom s"
  by (auto simp: set_current_thread_def Let_def split: if_splits prod.splits dest!: geom_rules)

lemma geom_walkThread' [geom_rules]: "walkThread x0 s = Some y \<Longrightarrow> geom y = geom s"
  by (erule walkThread.raw_induct [rotated, where P = "\<lambda>x0 s y. geom y = geom s"])
    (auto simp: Let_def bind_eq_Some_conv split: if_splits prod.splits option.splits dest!: geom_rules)

lemma geom_nextThread [geom_rules]: "nextThread x0 s = Some s' \<Longrightarrow> geom s' = geom s"
  by (auto simp: nextThread_def Let_def bind_eq_Some_conv split: if_splits prod.splits option.splits dest!: geom_rules)

lemma geom_threadCheck [geom_rules]: "threadCheck x0 s = Some s' \<Longrightarrow> geom s' = geom s"
  by (auto simp: threadCheck_def Let_def bind_eq_Some_conv split: if_splits prod.splits option.splits dest!: geom_rules)

lemma geom_removeThread [geom_rules]: "removeThread x0 x1 s = Some s' \<Longrightarrow> geom s' = geom s"
  by (auto simp: removeThread_def Let_def bind_eq_Some_conv split: if_splits prod.splits option.splits dest!: geom_rules)

lemma geom_set_current [simp]: "geom (set_current s x1) = geom s"
  by (auto simp: set_current_def Let_def split: if_splits prod.splits dest!: geom_rules)

lemma geom_walkProcess' [geom_rules]: "walkProcess s = Some y \<Longrightarrow> geom y = geom s"
  by (erule walkProcess.raw_induct [rotated, where P = "\<lambda>s y. geom y = geom s"])
    (auto simp: Let_def bind_eq_Some_conv split: if_splits prod.splits option.splits dest!: geom_rules)

lemma geom_runScheduler [geom_rules]: "runScheduler x0 s = Some s' \<Longrightarrow> geom s' = geom s"
  by (auto simp: runScheduler_def Let_def bind_eq_Some_conv split: if_splits prod.splits option.splits dest!: geom_rules)

lemma geom_yieldSwitch [geom_rules]: "yieldSwitch x0 s = Some s' \<Longrightarrow> geom s' = geom s"
  by (auto simp: yieldSwitch_def Let_def bind_eq_Some_conv split: if_splits prod.splits option.splits dest!: geom_rules)

lemma geom_cursor_set' [simp]: "geom (snd (cursor_set x0 x1 s)) = geom s"
  by (auto simp: cursor_set_def Let_def split: if_splits prod.splits cursor.splits dest!: geom_rules)

lemma geom_cursor_set [geom_rules]: "cursor_set x0 x1 s = (r0, s') \<Longrightarrow> geom s' = geom s"
  by (auto simp: cursor_set_def Let_def split: if_splits prod.splits cursor.splits dest!: geom_rules)

subsection \<open>Screens\<close>

lemma geom_store [simp]: "geom (store x0 x1 s) = geom s"
  by (auto simp: store_def Let_def split: if_splits prod.splits dest!: geom_rules)

lemma geom_clearScreen [simp]: "geom (clearScreen s) = geom s"
  by (auto simp: clearScreen_def Let_def split: if_splits prod.splits dest!: geom_rules)

lemma geom_setScreen [simp]: "geom (setScreen x0 x1 s) = geom s"
  by (auto simp: setScreen_def Let_def split: if_splits prod.splits dest!: geom_rules)

lemma geom_backupContent' [simp]: "geom (snd (backupContent x0 s)) = geom s"
  by (auto simp: backupContent_def Let_def split: if_splits prod.splits cursor.splits dest!: geom_rules)

lemma geom_backupContent [geom_rules]: "backupContent x0 s = (r0, s') \<Longrightarrow> geom s' = geom s"
  by (auto simp: backupContent_def Let_def split: if_splits prod.splits cursor.splits dest!: geom_rules)

lemma geom_moveScreenUp' [simp]: "geom (snd (moveScreenUp x0 x1 s)) = geom s"
  by (auto simp: moveScreenUp_def Let_def split: if_splits prod.splits cursor.splits dest!: geom_rules)

lemma geom_moveScreenUp [geom_rules]: "moveScreenUp x0 x1 s = (r0, s') \<Longrightarrow> geom s' = geom s"
  by (auto simp: moveScreenUp_def Let_def split: if_splits prod.splits cursor.splits dest!: geom_rules)

lemma geom_checkEndOfScreen' [simp]: "geom (snd (checkEndOfScreen x0 x1 s)) = geom s"
  by (auto simp: checkEndOfScreen_def Let_def split: if_splits prod.splits cursor.splits dest!: geom_rules)

lemma geom_checkEndOfScreen [geom_rules]: "checkEndOfScreen x0 x1 s = (r0, s') \<Longrightarrow> geom s' = geom s"
  by (auto simp: checkEndOfScreen_def Let_def split: if_splits prod.splits cursor.splits dest!: geom_rules)

lemma geom_print [simp]: "geom (print x0 s) = geom s"
  by (rule geom_only [OF print_only])

lemma geom_myNewLine' [simp]: "geom (snd (myNewLine x0 x1 s)) = geom s"
  by (auto simp: myNewLine_def Let_def split: if_splits prod.splits cursor.splits dest!: geom_rules)

lemma geom_myNewLine [geom_rules]: "myNewLine x0 x1 s = (r0, s') \<Longrightarrow> geom s' = geom s"
  by (auto simp: myNewLine_def Let_def split: if_splits prod.splits cursor.splits dest!: geom_rules)

lemma geom_newLine [simp]: "geom (newLine s) = geom s"
  by (rule geom_only [OF newLine_only])

lemma geom_backSpace' [simp]: "geom (snd (backSpace x0 x1 s)) = geom s"
  by (auto simp: backSpace_def Let_def split: if_splits prod.splits cursor.splits dest!: geom_rules)

lemma geom_backSpace [geom_rules]: "backSpace x0 x1 s = (r0, s') \<Longrightarrow> geom s' = geom s"
  by (auto simp: backSpace_def Let_def split: if_splits prod.splits cursor.splits dest!: geom_rules)

lemma geom_myPrintTab' [simp]: "geom (snd (myPrintTab x0 s)) = geom s"
  by (auto simp: myPrintTab_def Let_def split: if_splits prod.splits cursor.splits dest!: geom_rules)

lemma geom_myPrintTab [geom_rules]: "myPrintTab x0 s = (r0, s') \<Longrightarrow> geom s' = geom s"
  by (auto simp: myPrintTab_def Let_def split: if_splits prod.splits cursor.splits dest!: geom_rules)

lemma geom_printTab [simp]: "geom (printTab s) = geom s"
  by (rule geom_only [OF printTab_only])

lemma geom_printCharactersInner' [simp]: "geom (snd (printCharactersInner x0 x1 x2 s)) = geom s"
  by (auto simp: printCharactersInner_def Let_def split: if_splits prod.splits cursor.splits dest!: geom_rules)

lemma geom_printCharactersInner [geom_rules]: "printCharactersInner x0 x1 x2 s = (r0, s') \<Longrightarrow> geom s' = geom s"
  by (auto simp: printCharactersInner_def Let_def split: if_splits prod.splits cursor.splits dest!: geom_rules)

lemma geom_printCharacters [simp]: "geom (printCharacters x0 s) = geom s"
  by (rule geom_only [OF printCharacters_only])

lemma geom_printDigits [simp]: "geom (printDigits x0 x1 s) = geom s"
  by (rule geom_only [OF printDigits_only])

lemma geom_newScreenNode [geom_rules]: "newScreenNode x0 s = Some (r0, r1, s') \<Longrightarrow> geom s' = geom s"
  by (auto simp: newScreenNode_def Let_def bind_eq_Some_conv split: if_splits prod.splits option.splits dest!: geom_rules)

lemma geom_addScreen' [geom_rules]: "addScreen x0 x1 x2 x3 s = Some y \<Longrightarrow> geom (snd (snd y)) = geom s"
  by (erule addScreen.raw_induct [rotated, where P = "\<lambda>x0 x1 x2 x3 s y. geom (snd (snd y)) = geom s"])
    (auto simp: Let_def bind_eq_Some_conv split: if_splits prod.splits option.splits dest!: geom_rules)

lemma geom_saveScreen [geom_rules]: "saveScreen x0 s = Some (r0, s') \<Longrightarrow> geom s' = geom s"
  by (auto simp: saveScreen_def Let_def bind_eq_Some_conv split: if_splits prod.splits option.splits dest!: geom_rules)

lemma geom_loadScreen [geom_rules]: "loadScreen k sc v = Some (r0, r1, w) \<Longrightarrow> geom w = geom v"
proof -
  assume run: "loadScreen k sc v = Some (r0, r1, w)"
  obtain n where n: "findScreenNodeByPid k sc = Some n" using run by (auto simp: loadScreen_def bind_eq_Some_conv)
  show ?thesis
  proof (cases "n = NULL")
    case True
    obtain l sc1 v1 where a: "addScreen (screenList sc) NULL k sc v = Some (l, sc1, v1)"
      using run n True by (auto simp: loadScreen_def bind_eq_Some_conv)
    then show ?thesis using run n True geom_addScreen' [OF a]
      by (auto simp: loadScreen_def Let_def bind_eq_Some_conv split: if_splits dest!: geom_saveScreen)
  next
    case False
    then show ?thesis using run n
      by (auto simp: loadScreen_def Let_def bind_eq_Some_conv dest!: geom_saveScreen)
  qed
qed

lemma geom_getCurrentScreenNode [geom_rules]: "getCurrentScreenNode x0 s = Some (r0, r1, s') \<Longrightarrow> geom s' = geom s"
  by (auto simp: getCurrentScreenNode_def Let_def bind_eq_Some_conv split: if_splits prod.splits option.splits dest!: geom_rules)

lemma geom_getCurrentScreen [geom_rules]: "getCurrentScreen x0 s = Some (r0, r1, s') \<Longrightarrow> geom s' = geom s"
  by (auto simp: getCurrentScreen_def Let_def bind_eq_Some_conv split: if_splits prod.splits option.splits dest!: geom_rules)

lemma geom_getCurrentScreenPosition [geom_rules]: "getCurrentScreenPosition x0 s = Some (r0, r1, s') \<Longrightarrow> geom s' = geom s"
  by (auto simp: getCurrentScreenPosition_def Let_def bind_eq_Some_conv split: if_splits prod.splits option.splits dest!: geom_rules)

lemma geom_setCurrentScreenPosition [geom_rules]: "setCurrentScreenPosition x0 x1 s = Some (r0, s') \<Longrightarrow> geom s' = geom s"
  by (auto simp: setCurrentScreenPosition_def Let_def bind_eq_Some_conv split: if_splits prod.splits option.splits dest!: geom_rules)

lemma geom_removeScreenInner' [geom_rules]: "removeScreenInner x0 x1 x2 x3 s = Some y \<Longrightarrow> geom (snd (snd y)) = geom s"
  by (erule removeScreenInner.raw_induct [rotated, where P = "\<lambda>x0 x1 x2 x3 s y. geom (snd (snd y)) = geom s"])
    (auto simp: Let_def bind_eq_Some_conv split: if_splits prod.splits option.splits dest!: geom_rules)

lemma geom_removeScreen [geom_rules]: "removeScreen x0 x1 s = Some (r0, s') \<Longrightarrow> geom s' = geom s"
  by (auto simp: removeScreen_def Let_def bind_eq_Some_conv split: if_splits prod.splits option.splits dest!: geom_rules)

lemma geom_loadNextScreen [geom_rules]: "loadNextScreen x0 s = Some (r0, s') \<Longrightarrow> geom s' = geom s"
  by (auto simp: loadNextScreen_def Let_def bind_eq_Some_conv split: if_splits prod.splits option.splits dest!: geom_rules)

lemma geom_loadPreviousScreen [geom_rules]: "loadPreviousScreen x0 s = Some (r0, s') \<Longrightarrow> geom s' = geom s"
  by (auto simp: loadPreviousScreen_def Let_def bind_eq_Some_conv split: if_splits prod.splits option.splits dest!: geom_rules)

subsection \<open>Mutexes and semaphores\<close>

lemma geom_createMutex [geom_rules]: "createMutex x0 s = Some (r0, r1, s') \<Longrightarrow> geom s' = geom s"
  by (auto simp: createMutex_def Let_def bind_eq_Some_conv split: if_splits prod.splits option.splits dest!: geom_rules)

lemma geom_addThreadToMutexList [geom_rules]: "addThreadToMutexList x0 x1 x2 x3 s = Some (r0, s') \<Longrightarrow> geom s' = geom s"
  by (auto simp: addThreadToMutexList_def Let_def bind_eq_Some_conv split: if_splits prod.splits option.splits dest!: geom_rules)

lemma geom_mutexRequestAccess [geom_rules]: "mutexRequestAccess x0 x1 s = Some (r0, r1, s') \<Longrightarrow> geom s' = geom s"
  by (auto simp: mutexRequestAccess_def Let_def bind_eq_Some_conv split: if_splits prod.splits option.splits dest!: geom_rules)

lemma geom_mutexDown [geom_rules]: "mutexDown x0 x1 s = Some (r0, s') \<Longrightarrow> geom s' = geom s"
  by (auto simp: mutexDown_def Let_def bind_eq_Some_conv split: if_splits prod.splits option.splits dest!: geom_rules)

lemma geom_drainMutex' [geom_rules]: "drainMutex x0 x1 s = Some y \<Longrightarrow> geom (snd y) = geom s"
  by (erule drainMutex.raw_induct [rotated, where P = "\<lambda>x0 x1 s y. geom (snd y) = geom s"])
    (auto simp: Let_def bind_eq_Some_conv split: if_splits prod.splits option.splits dest!: geom_rules)

lemma geom_unlockProcesses [geom_rules]: "unlockProcesses x0 x1 s = Some (r0, s') \<Longrightarrow> geom s' = geom s"
  by (auto simp: unlockProcesses_def Let_def bind_eq_Some_conv split: if_splits prod.splits option.splits dest!: geom_rules)

lemma geom_mutexUp [geom_rules]: "mutexUp x0 x1 s = Some (r0, s') \<Longrightarrow> geom s' = geom s"
  by (auto simp: mutexUp_def Let_def bind_eq_Some_conv split: if_splits prod.splits option.splits dest!: geom_rules)

lemma geom_freeMutex [geom_rules]: "freeMutex (ms, s) x1 = Some (r0, s') \<Longrightarrow> geom s' = geom s"
  by (auto simp: freeMutex_def Let_def bind_eq_Some_conv split: if_splits prod.splits option.splits dest!: geom_rules)

lemma geom_destroyMutex' [geom_rules]: "destroyMutex x0 x1 z = Some y \<Longrightarrow> geom (snd (snd y)) = geom (snd z)"
  by (erule destroyMutex.raw_induct [rotated, where P = "\<lambda>x0 x1 ms y. geom (snd (snd y)) = geom (snd ms)"])
    (auto simp: Let_def bind_eq_Some_conv split: if_splits prod.splits option.splits dest!: geom_rules)

lemma geom_mutexDestroy [geom_rules]: "mutexDestroy x0 x1 s = Some (r0, s') \<Longrightarrow> geom s' = geom s"
  by (auto simp: mutexDestroy_def Let_def bind_eq_Some_conv split: if_splits prod.splits option.splits dest!: geom_rules)

lemma geom_createSemaphore [geom_rules]: "createSemaphore x0 x1 s = Some (r0, r1, s') \<Longrightarrow> geom s' = geom s"
  by (auto simp: createSemaphore_def Let_def bind_eq_Some_conv split: if_splits prod.splits option.splits dest!: geom_rules)

lemma geom_addThreadToSemaphoreList [geom_rules]: "addThreadToSemaphoreList x0 x1 x2 x3 s = Some (r0, s') \<Longrightarrow> geom s' = geom s"
  by (auto simp: addThreadToSemaphoreList_def Let_def bind_eq_Some_conv split: if_splits prod.splits option.splits dest!: geom_rules)

lemma geom_semaphoreRequestAccess [geom_rules]: "semaphoreRequestAccess x0 x1 s = Some (r0, r1, s') \<Longrightarrow> geom s' = geom s"
  by (auto simp: semaphoreRequestAccess_def Let_def bind_eq_Some_conv split: if_splits prod.splits option.splits dest!: geom_rules)

lemma geom_semaphoreDown [geom_rules]: "semaphoreDown x0 x1 s = Some (r0, s') \<Longrightarrow> geom s' = geom s"
  by (auto simp: semaphoreDown_def Let_def bind_eq_Some_conv split: if_splits prod.splits option.splits dest!: geom_rules)

lemma geom_drainSemaphore' [geom_rules]: "drainSemaphore x0 x1 s = Some y \<Longrightarrow> geom (snd y) = geom s"
  by (erule drainSemaphore.raw_induct [rotated, where P = "\<lambda>x0 x1 s y. geom (snd y) = geom s"])
    (auto simp: Let_def bind_eq_Some_conv split: if_splits prod.splits option.splits dest!: geom_rules)

lemma geom_unlockSemaphoreProcess [geom_rules]: "unlockSemaphoreProcess x0 x1 s = Some (r0, s') \<Longrightarrow> geom s' = geom s"
  by (auto simp: unlockSemaphoreProcess_def Let_def bind_eq_Some_conv split: if_splits prod.splits option.splits dest!: geom_rules)

lemma geom_semaphoreUp [geom_rules]: "semaphoreUp x0 x1 s = Some (r0, s') \<Longrightarrow> geom s' = geom s"
  by (auto simp: semaphoreUp_def Let_def bind_eq_Some_conv split: if_splits prod.splits option.splits dest!: geom_rules)

lemma geom_freeSemaphore [geom_rules]: "freeSemaphore (ms, s) x1 = Some (r0, s') \<Longrightarrow> geom s' = geom s"
  by (auto simp: freeSemaphore_def Let_def bind_eq_Some_conv split: if_splits prod.splits option.splits dest!: geom_rules)

lemma geom_destroySemaphore' [geom_rules]: "destroySemaphore x0 x1 z = Some y \<Longrightarrow> geom (snd (snd y)) = geom (snd z)"
  by (erule destroySemaphore.raw_induct [rotated, where P = "\<lambda>x0 x1 ms y. geom (snd (snd y)) = geom (snd ms)"])
    (auto simp: Let_def bind_eq_Some_conv split: if_splits prod.splits option.splits dest!: geom_rules)

lemma geom_semaphoreDestroy [geom_rules]: "semaphoreDestroy x0 x1 s = Some (r0, s') \<Longrightarrow> geom s' = geom s"
  by (auto simp: semaphoreDestroy_def Let_def bind_eq_Some_conv split: if_splits prod.splits option.splits dest!: geom_rules)

subsection \<open>Pipes and the process listing\<close>

lemma geom_createPipe [geom_rules]: "createPipe x0 x1 x2 s = Some (r0, r1, s') \<Longrightarrow> geom s' = geom s"
  by (auto simp: createPipe_def Let_def bind_eq_Some_conv split: if_splits prod.splits option.splits dest!: geom_rules)

lemma geom_do_pipe [geom_rules]: "do_pipe x0 x1 x2 s = Some (r0, r1, s') \<Longrightarrow> geom s' = geom s"
  by (auto simp: do_pipe_def Let_def bind_eq_Some_conv split: if_splits prod.splits option.splits dest!: geom_rules)

lemma geom_writeLoop' [geom_rules]: "writeLoop x0 x1 x2 x3 s = Some y \<Longrightarrow> geom (snd y) = geom s"
  by (erule writeLoop.raw_induct [rotated, where P = "\<lambda>x0 x1 x2 x3 s y. geom (snd y) = geom s"])
    (auto simp: Let_def bind_eq_Some_conv split: if_splits prod.splits option.splits dest!: geom_rules)

lemma geom_writeToPipe [geom_rules]: "writeToPipe x0 x1 x2 s = Some (r0, s') \<Longrightarrow> geom s' = geom s"
  by (auto simp: writeToPipe_def Let_def bind_eq_Some_conv split: if_splits prod.splits option.splits dest!: geom_rules)

lemma geom_readFromPipe [geom_rules]: "readFromPipe x0 x1 x2 s = Some (r0, s') \<Longrightarrow> geom s' = geom s"
  by (auto simp: readFromPipe_def Let_def bind_eq_Some_conv split: if_splits prod.splits option.splits dest!: geom_rules)

lemma geom_printAllProcess [geom_rules]: "printAllProcess x0 s = Some s' \<Longrightarrow> geom s' = geom s"
  by (auto simp: printAllProcess_def Let_def bind_eq_Some_conv split: if_splits prod.splits option.splits dest!: geom_rules)

end
