(* ===== verification/KLib.thy ===== *)
theory KLib
  imports CharMem
begin

unbundle bit_operations_syntax

section \<open>Copying and filling memory (\<open>lib.c\<close>)\<close>

text \<open>
  \<open>memset\<close> fills from the last byte down, \<open>memcpy\<close> copies forwards, four bytes at a time when
  both pointers and the length are multiples of four.  A \<open>uint32_t\<close> in memory is little endian.
\<close>

fun fillDown :: "nat \<Rightarrow> addr \<Rightarrow> byte \<Rightarrow> cmem \<Rightarrow> cmem" where
  \<comment> \<open>\<open>while(length--) dst[length] = chr;\<close>\<close>
  "fillDown 0 dst x m = m"
| "fillDown (Suc n) dst x m = fillDown n dst x (m(dst + n := x))"

definition memset :: "addr \<Rightarrow> int \<Rightarrow> nat \<Rightarrow> cmem \<Rightarrow> addr \<times> cmem" where
  "memset destination c n m = (destination, fillDown n destination (word_of_int c) m)"

definition load32 :: "cmem \<Rightarrow> addr \<Rightarrow> 32 word" where
  \<comment> \<open>the \<open>uint32_t\<close> at \<open>a\<close>\<close>
  "load32 m a = ucast (m a) OR push_bit 8 (ucast (m (a + 1))) OR push_bit 16 (ucast (m (a + 2)))
                  OR push_bit 24 (ucast (m (a + 3)))"

definition store32 :: "addr \<Rightarrow> 32 word \<Rightarrow> cmem \<Rightarrow> cmem" where
  "store32 a w m = m(a := ucast w, a + 1 := ucast (drop_bit 8 w), a + 2 := ucast (drop_bit 16 w),
                     a + 3 := ucast (drop_bit 24 w))"

fun copyWords :: "nat \<Rightarrow> addr \<Rightarrow> addr \<Rightarrow> cmem \<Rightarrow> cmem" where
  \<comment> \<open>\<open>for (i = 0; i < n; i++) d[i] = s[i];\<close> on \<open>uint32_t\<close>\<close>
  "copyWords 0 d s m = m"
| "copyWords (Suc n) d s m = (let m = copyWords n d s m in store32 (d + 4 * n) (load32 m (s + 4 * n)) m)"

definition memcpy :: "addr \<Rightarrow> addr \<Rightarrow> nat \<Rightarrow> cmem \<Rightarrow> addr \<times> cmem" where
  "memcpy destination source n m =
     (if destination mod 4 = 0 \<and> source mod 4 = 0 \<and> n mod 4 = 0
      then (destination, copyWords (n div 4) destination source m)
      else (destination, for_store n destination (\<lambda>i m. m (source + i)) m))"

subsection \<open>What they do\<close>

lemma fillDown_eq: "fillDown n dst x m = (\<lambda>a. if dst \<le> a \<and> a < dst + n then x else m a)"
  by (induction n arbitrary: m) (auto simp: fun_eq_iff)

lemma load32_bytes:
  shows "ucast (load32 m a) = m a" and "ucast (drop_bit 8 (load32 m a)) = m (a + 1)"
    and "ucast (drop_bit 16 (load32 m a)) = m (a + 2)" and "ucast (drop_bit 24 (load32 m a)) = m (a + 3)"
  unfolding load32_def by (rule bit_word_eqI, auto simp: bit_simps dest: bit_imp_le_length)+

lemma store32_load32: "store32 d (load32 m s) m' = m'(d := m s, d + 1 := m (s + 1), d + 2 := m (s + 2), d + 3 := m (s + 3))"
  by (simp add: store32_def load32_bytes)

lemma load32_store32: "load32 (store32 a w m) a = w"
proof (rule bit_word_eqI)
  fix n assume "n < LENGTH(32)"
  then consider "n < 8" | "8 \<le> n" "n < 16" | "16 \<le> n" "n < 24" | "24 \<le> n" "n < 32" by fastforce
  then show "bit (load32 (store32 a w m) a) n = bit w n"
    by cases (auto simp: load32_def store32_def bit_simps)
qed

lemma load32_cong: "(\<And>i. i < 4 \<Longrightarrow> m' (a + i) = m (a + i)) \<Longrightarrow> load32 m' a = load32 m a"
proof -
  assume e: "\<And>i. i < 4 \<Longrightarrow> m' (a + i) = m (a + i)"
  show ?thesis unfolding load32_def using e [of 0] e [of 1] e [of 2] e [of 3] by simp
qed

lemma copyWords_eq:
  assumes "d \<le> q \<or> q + 4 * n \<le> d"
  shows "copyWords n d q m = (\<lambda>a. if d \<le> a \<and> a < d + 4 * n then m (q + (a - d)) else m a)"
  using assms
proof (induction n)
  case (Suc n)
  then have ih: "copyWords n d q m = (\<lambda>a. if d \<le> a \<and> a < d + 4 * n then m (q + (a - d)) else m a)" by auto
  have rd: "copyWords n d q m (q + 4 * n + k) = m (q + 4 * n + k)" if "k < 4" for k
    using Suc.prems that by (auto simp: ih)
  have st: "copyWords (Suc n) d q m = (copyWords n d q m)(d + 4 * n := m (q + 4 * n), d + 4 * n + 1 := m (q + 4 * n + 1),
      d + 4 * n + 2 := m (q + 4 * n + 2), d + 4 * n + 3 := m (q + 4 * n + 3))"
    using rd [of 0] rd [of 1] rd [of 2] rd [of 3] by (simp add: Let_def store32_load32)
  show ?case
  proof
    fix a
    consider "a < d + 4 * n \<or> d + 4 * n + 4 \<le> a" | "a = d + 4 * n" | "a = d + 4 * n + 1" | "a = d + 4 * n + 2"
      | "a = d + 4 * n + 3" by linarith
    then show "copyWords (Suc n) d q m a = (if d \<le> a \<and> a < d + 4 * Suc n then m (q + (a - d)) else m a)"
      unfolding st by cases (auto simp: ih add.assoc)
  qed
qed (auto simp: fun_eq_iff)

lemma memcpy_eq:
  assumes "dst \<le> src \<or> src + n \<le> dst"
  shows "memcpy dst src n m = (dst, \<lambda>a. if dst \<le> a \<and> a < dst + n then m (src + (a - dst)) else m a)"
proof (cases "n mod 4 = 0")
  case True
  then have "4 * (n div 4) = n" by presburger
  with copyWords_eq [of dst src "n div 4" m] for_store_copy [of dst src n m] assms
  show ?thesis by (simp add: memcpy_def)
qed (use for_store_copy [of dst src n m] assms in \<open>simp add: memcpy_def\<close>)

lemma memset_eq: "memset dst c n m = (dst, \<lambda>a. if dst \<le> a \<and> a < dst + n then word_of_int c else m a)"
  by (simp add: memset_def fillDown_eq)

text \<open>Copying four bytes at a time is copying byte by byte: whatever the alignment of the two pointers and
  the length, \<open>memcpy\<close> leaves at the destination the bytes that were at the source and changes no other
  byte, when the destination does not start inside the source (the code does not promise more).\<close>

theorem memcpy_copies:
  assumes "dst \<le> src \<or> src + n \<le> dst"
  shows "fst (memcpy dst src n m) = dst
    \<and> mem_list (snd (memcpy dst src n m)) dst (map m [src..<src + n])
    \<and> (\<forall>a. a < dst \<or> dst + n \<le> a \<longrightarrow> snd (memcpy dst src n m) a = m a)"
  using assms by (auto simp: memcpy_eq mem_list_def)

theorem memcpy_copies_witness:
  "fst (memcpy 8 16 4 (\<lambda>a. of_nat a)) = 8
    \<and> mem_list (snd (memcpy 8 16 4 (\<lambda>a. of_nat a))) 8 (map (\<lambda>a. of_nat a) [16..<16 + 4])
    \<and> snd (memcpy 8 16 4 (\<lambda>a. of_nat a)) 12 = (12 :: byte)"
  using memcpy_copies [of 8 16 4 "\<lambda>a. of_nat a"] by simp

end
