(* ===== verification/ModuleLoader.thy ===== *)
theory ModuleLoader
  imports NaiveConsole KLib
begin

section \<open>Loading the modules of the image (\<open>moduleLoader.c\<close>, \<open>ModulePacker/main.c\<close>)\<close>

text \<open>
  Behind the kernel the image holds a count and, for each module, its size and its bytes; the
  packer writes them to a file, the loader copies each module to its address and says so on the
  console.  A pointer to a pointer into the image is passed by value and returned.
\<close>

subsection \<open>The loader\<close>

abbreviation (input) text_of :: "string \<Rightarrow> byte list" where
  "text_of s \<equiv> map of_char s"

definition readUint32 :: "addr \<Rightarrow> 'z console_scheme \<Rightarrow> nat \<times> addr" where
  \<comment> \<open>the value and the advanced pointer\<close>
  "readUint32 address c = (unat (load32 (cmem c) address), address + 4)"

definition loadModule :: "addr \<Rightarrow> addr \<Rightarrow> 'z console_scheme \<Rightarrow> (addr \<times> 'z console_scheme) option" where
  "loadModule module targetModuleAddress c = do {
     let (moduleSize, module) = readUint32 module c;
     let c = ncPrint (text_of ''  Will copy module at 0x'') c;
     c \<leftarrow> ncPrintHex module c;
     let c = ncPrint (text_of '' to 0x'') c;
     c \<leftarrow> ncPrintHex targetModuleAddress c;
     let c = ncPrint (text_of '' ('') c;
     c \<leftarrow> ncPrintDec moduleSize c;
     let c = ncPrint (text_of '' bytes)'') c;
     let c = c\<lparr>cmem := snd (memcpy targetModuleAddress module moduleSize (cmem c))\<rparr>;
     let module = module + moduleSize;
     let c = ncPrint (text_of '' [Done]'') c;
     c \<leftarrow> ncNewline c;
     Some (module, c) }"

fun loadFrom :: "nat \<Rightarrow> nat \<Rightarrow> addr list \<Rightarrow> addr \<Rightarrow> 'z console_scheme \<Rightarrow> (addr \<times> 'z console_scheme) option" where
  \<comment> \<open>\<open>n\<close> more rounds of the loop, from the index \<open>i\<close> on\<close>
  "loadFrom 0 i targets currentModule c = Some (currentModule, c)"
| "loadFrom (Suc n) i targets currentModule c =
     (if i < length targets then do {
        (currentModule, c) \<leftarrow> loadModule currentModule (targets ! i) c;
        loadFrom n (i + 1) targets currentModule c }
      else None)"

definition loadModules :: "addr \<Rightarrow> addr list \<Rightarrow> 'z console_scheme \<Rightarrow> 'z console_scheme option" where
  "loadModules payloadStart targets c = do {
     let (moduleCount, currentModule) = readUint32 payloadStart c;
     (_, c) \<leftarrow> loadFrom moduleCount 0 targets currentModule c;
     Some c }"

subsection \<open>The packer\<close>

text \<open>
  The packer works on files, a function from names to contents; a file that is written is the
  list of its bytes.  \<open>fread\<close> takes what is left, at most 128 bytes, and a read that gets less
  than it asked for sets the end-of-file flag, which \<open>feof\<close> returns.
\<close>

type_synonym files = "string \<Rightarrow> byte list option"

definition le32 :: "32 word \<Rightarrow> byte list" where
  \<comment> \<open>the bytes of a \<open>uint32_t\<close> or an \<open>int\<close> on disk\<close>
  "le32 w = [ucast w, ucast (drop_bit 8 w), ucast (drop_bit 16 w), ucast (drop_bit 24 w)]"

function writeChunks :: "bool \<Rightarrow> byte list \<Rightarrow> byte list \<Rightarrow> byte list" where
  \<comment> \<open>\<open>while (!feof(source)) { read = fread(...); fwrite(...); }\<close>\<close>
  "writeChunks eof source target =
     (if eof then target
      else writeChunks (length (take 128 source) < 128) (drop 128 source) (target @ take 128 source))"
  by auto
termination by (relation "measure (\<lambda>(eof, source, _). if eof then 0 else Suc (length source))") auto

declare writeChunks.simps [simp del]

definition write_file :: "byte list \<Rightarrow> byte list \<Rightarrow> byte list" where
  "write_file target source = writeChunks False source target"

definition write_size :: "byte list \<Rightarrow> byte list \<Rightarrow> byte list" where
  \<comment> \<open>the size of the file, cut to 32 bits\<close>
  "write_size target source = target @ le32 (of_nat (length source))"

definition checkFiles :: "files \<Rightarrow> string list \<Rightarrow> bool" where
  "checkFiles fs array = list_all (\<lambda>f. fs f \<noteq> None) array"

fun buildModules :: "files \<Rightarrow> string list \<Rightarrow> byte list \<Rightarrow> byte list option" where
  \<comment> \<open>the loop over the files from index 1 on; reading a file that could not be opened has no result\<close>
  "buildModules fs [] target = Some target"
| "buildModules fs (f # array) target = do {
     source \<leftarrow> fs f;
     let target = write_size target source;
     let target = write_file target source;
     buildModules fs array target }"

definition buildImage :: "bool \<Rightarrow> files \<Rightarrow> string list \<Rightarrow> (bool \<times> byte list) option" where
  \<comment> \<open>\<open>opened\<close>: whether the output file could be created; the result has its contents\<close>
  "buildImage opened fs array =
     (if \<not> opened then Some (False, [])
      else case array of
        [] \<Rightarrow> None
      | kernelFile # modules \<Rightarrow> do {
          source \<leftarrow> fs kernelFile;
          let target = write_file [] source;
          let extraBinaries = int (length array) - 1;
          let target = target @ le32 (word_of_int extraBinaries);
          target \<leftarrow> buildModules fs modules target;
          Some (True, target) })"

definition packer_main :: "bool \<Rightarrow> files \<Rightarrow> string list \<Rightarrow> (int \<times> byte list) option" where
  \<comment> \<open>\<open>main\<close> after the command line is read: the exit code and the output file\<close>
  "packer_main opened fs array =
     (if \<not> checkFiles fs array then Some (1, [])
      else do {
        (ok, target) \<leftarrow> buildImage opened fs array;
        Some (if ok then 0 else 1, target) })"

text \<open>
  The parser of the command line calls \<open>parse_opt\<close> for each key with its argument and the number
  of arguments seen; \<open>argp_usage\<close> ends the program, which is the result \<open>None\<close> here, as is a
  store outside the 128 places of \<open>args\<close>.
\<close>

datatype argp_key = Key_o | ARGP_KEY_ARG | ARGP_KEY_END | Key_other

record arguments =
  args :: "string list"
  output_file :: string
  count :: nat

definition parse_opt :: "argp_key \<Rightarrow> string \<Rightarrow> nat \<Rightarrow> arguments \<Rightarrow> (bool \<times> arguments) option" where
  \<comment> \<open>the flag is false for \<open>ARGP_ERR_UNKNOWN\<close>\<close>
  "parse_opt key arg arg_num a =
     (case key of
        Key_o \<Rightarrow> Some (True, a\<lparr>output_file := arg\<rparr>)
      | ARGP_KEY_ARG \<Rightarrow> do {
          xs \<leftarrow> array_put arg_num arg (args a);
          Some (True, a\<lparr>args := xs\<rparr>) }
      | ARGP_KEY_END \<Rightarrow> (if arg_num < 1 then None else Some (True, a\<lparr>count := arg_num\<rparr>))
      | Key_other \<Rightarrow> Some (False, a))"

subsection \<open>The file the packer writes\<close>

lemma writeChunks_eq: "writeChunks False source target = target @ source"
proof (induction "length source" arbitrary: source target rule: less_induct)
  case less
  have stop: "writeChunks True s t = t" for s t by (subst writeChunks.simps) simp
  show ?case
  proof (cases "length source < 128")
    case True
    then show ?thesis by (subst writeChunks.simps) (simp add: stop)
  next
    case False
    then have "writeChunks False (drop 128 source) (target @ take 128 source) = (target @ take 128 source) @ drop 128 source"
      by (intro less) simp
    then show ?thesis using False by (subst writeChunks.simps) simp
  qed
qed

lemma write_file_eq [simp]: "write_file target source = target @ source"
  by (simp add: write_file_def writeChunks_eq)

definition packed :: "byte list list \<Rightarrow> byte list" where
  "packed mods = concat (map (\<lambda>x. le32 (of_nat (length x)) @ x) mods)"

lemma packed_simps [simp]: "packed [] = []" "packed (x # xs) = le32 (of_nat (length x)) @ x @ packed xs"
  by (simp_all add: packed_def)

lemma length_le32 [simp]: "length (le32 w) = 4"
  by (simp add: le32_def)

lemma buildModules_eq:
  assumes "map fs array = map Some mods"
  shows "buildModules fs array target = Some (target @ packed mods)"
  using assms
proof (induction array arbitrary: mods target)
  case (Cons f array)
  then obtain x xs where "mods = x # xs" "fs f = Some x" "map fs array = map Some xs"
    by (cases mods) auto
  then show ?case using Cons.IH [of xs] by (simp add: write_size_def)
qed simp

lemma packer_main_eq:
  assumes "map fs (kernelFile # array) = map Some (k # mods)" and "length mods < 2 ^ 31"
  shows "packer_main True fs (kernelFile # array) = Some (0, k @ le32 (of_nat (length mods)) @ packed mods)"
proof -
  have "length array = length mods" using assms(1) map_eq_imp_length_eq by fastforce
  moreover have "list_all (\<lambda>f. fs f \<noteq> None) array"
    using assms(1) by (induction array arbitrary: mods) (auto simp: Cons_eq_map_conv)
  ultimately show ?thesis
    using assms by (simp add: packer_main_def checkFiles_def buildImage_def buildModules_eq)
qed

subsection \<open>One module\<close>

lemma load32_le32: "mem_list m p (le32 w) \<Longrightarrow> load32 m p = w"
proof -
  assume "mem_list m p (le32 w)"
  then have "load32 m p = load32 (store32 p w m) p"
    by (simp add: le32_def mem_list_Cons load32_def store32_def eval_nat_numeral)
  then show ?thesis by (simp add: load32_store32)
qed

lemma memcpy_prints:
  fixes c d :: "'z console_scheme"
  assumes "prints j c d" and "currentVideo c + j \<le> src" "currentVideo c + j \<le> dst"
    and "dst \<le> src \<or> src + n \<le> dst"
  shows "\<forall>a \<ge> currentVideo c + j. snd (memcpy dst src n (cmem d)) a =
      (if dst \<le> a \<and> a < dst + n then cmem c (src + (a - dst)) else cmem c a)"
  using assms by (auto simp: memcpy_eq prints_def)

lemma prints_then:
  assumes "prints j c d" and "prints k d e"
  shows "prints (k + j) c e"
  using prints_trans [OF assms] by (simp add: add.commute)

lemma loadModule_heading:
  fixes c :: "'z console_scheme"
  assumes ok: "console_ok 400 c" and v: "p < 2 ^ 64" "t < 2 ^ 64" "n < 2 ^ 32"
  shows "\<exists>d1 d2 d3. ncPrintHex p (ncPrint (text_of ''  Will copy module at 0x'') c) = Some d1
    \<and> ncPrintHex t (ncPrint (text_of '' to 0x'') d1) = Some d2
    \<and> ncPrintDec n (ncPrint (text_of '' ('') d2) = Some d3
    \<and> prints 162 c (ncPrint (text_of '' bytes)'') d3)"
proof -
  have hex: "\<exists>d. ncPrintHex v e = Some d \<and> prints 32 e d" if "v < 2 ^ 64" "length (nc_buffer e) = 64"
    for v and e :: "'z console_scheme"
    using base_text_prints [of 16 16 v e] that by (simp add: ncPrintHex_def)
  have dec: "\<exists>d. ncPrintDec n e = Some d \<and> prints 20 e d" if "length (nc_buffer e) = 64"
    for e :: "'z console_scheme"
    using base_text_prints [of 10 10 n e] that v(3) by (simp add: ncPrintDec_def)
  have len: "length (nc_buffer e) = 64" if "prints j c e" for j e
    using that ok by (simp add: prints_def console_ok_def)
  have p0: "prints 48 c (ncPrint (text_of ''  Will copy module at 0x'') c)"
    using ncPrint_prints [of "text_of ''  Will copy module at 0x''" c] by simp
  obtain d1 where d1: "ncPrintHex p (ncPrint (text_of ''  Will copy module at 0x'') c) = Some d1" "prints 80 c d1"
    using hex [OF v(1) len [OF p0]] prints_then [OF p0] by fastforce
  have p1: "prints 92 c (ncPrint (text_of '' to 0x'') d1)"
    using prints_then [OF d1(2) ncPrint_prints, of "text_of '' to 0x''"] by simp
  obtain d2 where d2: "ncPrintHex t (ncPrint (text_of '' to 0x'') d1) = Some d2" "prints 124 c d2"
    using hex [OF v(2) len [OF p1]] prints_then [OF p1] by fastforce
  have p2: "prints 128 c (ncPrint (text_of '' ('') d2)"
    using prints_then [OF d2(2) ncPrint_prints, of "text_of '' (''"] by simp
  obtain d3 where d3: "ncPrintDec n (ncPrint (text_of '' ('') d2) = Some d3" "prints 148 c d3"
    using dec [OF len [OF p2]] prints_then [OF p2] by fastforce
  have "prints 162 c (ncPrint (text_of '' bytes)'') d3)"
    using prints_then [OF d3(2) ncPrint_prints, of "text_of '' bytes)''"] by simp
  with d1(1) d2(1) d3(1) show ?thesis by blast
qed

lemma loadModule_copies:
  fixes c :: "'z console_scheme"
  assumes ok: "console_ok (400 + k) c" and bytes: "mem_list (cmem c) p (le32 (of_nat (length x)) @ x)"
    and v: "p + 4 < 2 ^ 64" "t < 2 ^ 64" "length x < 2 ^ 32"
    and high: "currentVideo c + 400 \<le> p" "currentVideo c + 400 \<le> t"
    and apart: "t \<le> p + 4 \<or> p + 4 + length x \<le> t"
  shows "\<exists>d. loadModule p t c = Some (p + 4 + length x, d) \<and> console_ok k d \<and> currentVideo d \<le> currentVideo c + 400
    \<and> (\<forall>a \<ge> currentVideo c + 400. cmem d a = (if t \<le> a \<and> a < t + length x then x ! (a - t) else cmem c a))"
proof -
  have sz: "readUint32 p c = (length x, p + 4)"
    using bytes v(3) load32_le32 [of "cmem c" p "of_nat (length x)"]
    by (simp add: readUint32_def mem_list_append unat_of_nat take_bit_nat_eq_self)
  have xs: "cmem c (p + 4 + i) = x ! i" if "i < length x" for i
    using bytes that by (simp add: mem_list_append) (simp add: mem_list_def add.assoc)
  have "console_ok 400 c" using ok by (simp add: console_ok_def)
  from loadModule_heading [OF this v] obtain d1 d2 d3 where
    d: "ncPrintHex (p + 4) (ncPrint (text_of ''  Will copy module at 0x'') c) = Some d1"
       "ncPrintHex t (ncPrint (text_of '' to 0x'') d1) = Some d2"
       "ncPrintDec (length x) (ncPrint (text_of '' ('') d2) = Some d3"
    and pr: "prints 162 c (ncPrint (text_of '' bytes)'') d3)" by blast
  let ?d4 = "ncPrint (text_of '' bytes)'') d3"
  let ?d5 = "?d4\<lparr>cmem := snd (memcpy t (p + 4) (length x) (cmem ?d4))\<rparr>"
  let ?d6 = "ncPrint (text_of '' [Done]'') ?d5"
  have cp: "\<forall>a \<ge> currentVideo c + 162. cmem ?d5 a = (if t \<le> a \<and> a < t + length x then cmem c (p + 4 + (a - t)) else cmem c a)"
    using memcpy_prints [OF pr, of "p + 4" t "length x"] high apart by simp
  have ok5: "console_ok (238 + k) ?d5"
    using prints_ok [OF pr, of "238 + k"] ok by (simp add: console_ok_def)
  have p6: "prints 14 ?d5 ?d6" using ncPrint_prints [of "text_of '' [Done]''" ?d5] by simp
  have "console_ok 160 ?d6" using prints_ok [OF p6, of 160] ok5 by (simp add: console_ok_def)
  then obtain e where e: "ncNewline ?d6 = Some e" "prints 160 ?d6 e" using ncNewline_prints by blast
  have pe: "prints 174 ?d5 e" using prints_then [OF p6 e(2)] by simp
  have cv: "currentVideo ?d5 \<le> currentVideo c + 162" using pr by (simp add: prints_def)
  have "loadModule p t c = Some (p + 4 + length x, e)"
    unfolding loadModule_def sz using d e(1) by (simp add: Let_def)
  moreover have "console_ok k e" using prints_ok [OF pe, of k] ok5 by (simp add: console_ok_def)
  moreover have "currentVideo e \<le> currentVideo c + 400" using pe cv by (simp add: prints_def)
  moreover have "cmem e a = (if t \<le> a \<and> a < t + length x then x ! (a - t) else cmem c a)"
    if "currentVideo c + 400 \<le> a" for a
  proof -
    have "cmem e a = cmem ?d5 a" using pe cv that unfolding prints_def by simp
    then show ?thesis using cp that xs [of "a - t"] by auto
  qed
  ultimately show ?thesis by blast
qed

subsection \<open>All modules\<close>

definition blocks_apart :: "addr \<times> byte list \<Rightarrow> addr \<times> byte list \<Rightarrow> bool" where
  "blocks_apart a b \<longleftrightarrow> fst a + length (snd a) \<le> fst b \<or> fst b + length (snd b) \<le> fst a"

definition loadable :: "nat \<Rightarrow> addr \<Rightarrow> (addr \<times> byte list) list \<Rightarrow> bool" where
  \<comment> \<open>the packed modules at \<open>p\<close> and their targets are above \<open>V\<close>, in the address space, and do not overlap\<close>
  "loadable V p rs \<longleftrightarrow> V \<le> p \<and> p + length (packed (map snd rs)) < 2 ^ 64 \<and> sorted_wrt blocks_apart rs
     \<and> (\<forall>r \<in> set rs. V \<le> fst r \<and> fst r < 2 ^ 64 \<and> length (snd r) < 2 ^ 32
          \<and> blocks_apart r (p, packed (map snd rs)))"

lemma loadable_tl: "loadable V p (r # rs) \<Longrightarrow> loadable V (p + 4 + length (snd r)) rs"
  by (auto simp: loadable_def blocks_apart_def)

lemma loadFrom_copies:
  assumes "loadable V p rs" and "mem_list (cmem c) p (packed (map snd rs))"
    and "console_ok (400 * length rs) c" and "currentVideo c + 400 * length rs \<le> V"
  shows "\<exists>q d. loadFrom (length rs) (length pre) (pre @ map fst rs @ post) p c = Some (q, d)
    \<and> (\<forall>r \<in> set rs. mem_list (cmem d) (fst r) (snd r))
    \<and> (\<forall>a \<ge> V. (\<forall>r \<in> set rs. a < fst r \<or> fst r + length (snd r) \<le> a) \<longrightarrow> cmem d a = cmem c a)"
  using assms
proof (induction rs arbitrary: pre p c)
  case (Cons r rs)
  obtain t x where r: "r = (t, x)" by (cases r)
  note ld = Cons.prems(1) [unfolded r]
  have ok: "console_ok (400 + 400 * length rs) c" using Cons.prems(3) by simp
  have ap: "t \<le> p + 4 \<or> p + 4 + length x \<le> t" and b: "p + 4 < 2 ^ 64" "t < 2 ^ 64" "length x < 2 ^ 32" "V \<le> p" "V \<le> t"
    using ld by (auto simp: loadable_def blocks_apart_def)
  obtain e where e: "loadModule p t c = Some (p + 4 + length x, e)" "console_ok (400 * length rs) e"
      "currentVideo e \<le> currentVideo c + 400"
      "\<forall>a \<ge> currentVideo c + 400. cmem e a = (if t \<le> a \<and> a < t + length x then x ! (a - t) else cmem c a)"
    using loadModule_copies [OF ok _ b(1-3) _ _ ap] Cons.prems(2,4) b(4,5) by (auto simp: r mem_list_append)
  have mem: "cmem e a = (if t \<le> a \<and> a < t + length x then x ! (a - t) else cmem c a)" if "V \<le> a" for a
    using e(4) that Cons.prems(4) by simp
  have rest: "mem_list (cmem e) (p + 4 + length x) (packed (map snd rs))"
  proof -
    have "mem_list (cmem c) (p + 4 + length x) (packed (map snd rs))"
      using Cons.prems(2) by (simp add: r mem_list_append add.assoc)
    moreover have "cmem e q = cmem c q" if "p + 4 + length x \<le> q" "q < p + 4 + length x + length (packed (map snd rs))" for q
      using mem [of q] that ld b(4) by (auto simp: loadable_def blocks_apart_def)
    ultimately show ?thesis using mem_list_cong by blast
  qed
  obtain q d where d: "loadFrom (length rs) (length (pre @ [t])) ((pre @ [t]) @ map fst rs @ post) (p + 4 + length x) e = Some (q, d)"
      "\<forall>r \<in> set rs. mem_list (cmem d) (fst r) (snd r)"
      "\<forall>a \<ge> V. (\<forall>r \<in> set rs. a < fst r \<or> fst r + length (snd r) \<le> a) \<longrightarrow> cmem d a = cmem e a"
    using Cons.IH [OF _ rest e(2), of "pre @ [t]"] loadable_tl [OF ld] e(3) Cons.prems(4) by auto
  have first: "mem_list (cmem d) t x"
  proof -
    have "cmem d (t + i) = x ! i" if "i < length x" for i
    proof -
      have "\<forall>r \<in> set rs. t + i < fst r \<or> fst r + length (snd r) \<le> t + i"
        using ld that by (fastforce simp: loadable_def blocks_apart_def)
      then have "cmem d (t + i) = cmem e (t + i)" using d(3) b(5) by simp
      then show ?thesis using mem [of "t + i"] b(5) that by simp
    qed
    then show ?thesis by (simp add: mem_list_def)
  qed
  have frame: "cmem d a = cmem c a" if "V \<le> a" "\<forall>r \<in> set ((t, x) # rs). a < fst r \<or> fst r + length (snd r) \<le> a" for a
  proof -
    have "cmem d a = cmem e a" using d(3) that by simp
    then show ?thesis using mem [OF that(1)] that(2) by auto
  qed
  have "loadFrom (length (r # rs)) (length pre) (pre @ map fst (r # rs) @ post) p c = Some (q, d)"
    using d(1) e(1) by (simp add: r nth_append)
  moreover have "\<forall>r' \<in> set (r # rs). mem_list (cmem d) (fst r') (snd r')" using first d(2) by (simp add: r)
  ultimately show ?case using frame unfolding r by blast
qed simp

subsection \<open>Properties\<close>

text \<open>C27. What the packer wrote the loader restores: when the image of a kernel and its modules is in memory and
  the image and the targets do not overlap each other or the console's lines, \<open>loadModules\<close>, started behind the
  kernel, leaves at each target the bytes of the module's file.\<close>

theorem packed_modules_are_loaded:
  assumes files: "map fs (kernelFile # array) = map Some (k # mods)" and few: "length mods < 2 ^ 31"
    and run: "packer_main True fs (kernelFile # array) = Some (r, img)"
    and mem: "mem_list (cmem c) base img"
    and targets: "length mods \<le> length targets" and ld: "loadable V (base + length k + 4) (zip targets mods)"
    and con: "console_ok (400 * length mods) c" "currentVideo c + 400 * length mods \<le> V"
  shows "r = 0 \<and> (\<exists>d. loadModules (base + length k) targets c = Some d
    \<and> (\<forall>i < length mods. mem_list (cmem d) (targets ! i) (mods ! i)))"
proof -
  let ?rs = "zip targets mods"
  have l: "length ?rs = length mods" and snd: "map snd ?rs = mods" using targets by (simp_all add: map_snd_zip_take)
  have "map fst ?rs = take (length mods) targets" using targets by (simp add: map_fst_zip_take)
  then have ts: "targets = [] @ map fst ?rs @ drop (length mods) targets" by simp
  have im: "r = 0" "img = k @ le32 (of_nat (length mods)) @ packed mods"
    using packer_main_eq [OF files few] run by auto
  have cnt: "readUint32 (base + length k) c = (length mods, base + length k + 4)"
    using mem few load32_le32 [of "cmem c" "base + length k" "of_nat (length mods)"]
    by (simp add: im(2) readUint32_def mem_list_append unat_of_nat take_bit_nat_eq_self)
  have body: "mem_list (cmem c) (base + length k + 4) (packed (map snd ?rs))"
    using mem unfolding im(2) snd by (simp add: mem_list_append add.assoc)
  note loaded = loadFrom_copies [OF ld body, of "[]" "drop (length mods) targets", unfolded l, OF con]
  obtain q d where d: "loadFrom (length mods) (length ([] :: addr list)) ([] @ map fst ?rs @ drop (length mods) targets)
        (base + length k + 4) c = Some (q, d)"
      "\<forall>r \<in> set ?rs. mem_list (cmem d) (fst r) (snd r)"
    using loaded by blast
  have "loadModules (base + length k) targets c = Some d"
    using d(1) unfolding ts [symmetric] by (simp add: loadModules_def cnt)
  moreover have "mem_list (cmem d) (targets ! i) (mods ! i)" if "i < length mods" for i
  proof -
    have "(targets ! i, mods ! i) \<in> set ?rs" using that targets by (auto simp: set_zip)
    then show ?thesis using d(2) by fastforce
  qed
  ultimately show ?thesis using im(1) by blast
qed

definition demo_files :: files where
  "demo_files = (\<lambda>_. None)(''kernel.bin'' \<mapsto> [7], ''shell.bin'' \<mapsto> [1, 2, 3])"

definition demo_image :: "byte list" where
  "demo_image = [7, 1, 0, 0, 0, 3, 0, 0, 0, 1, 2, 3]"

definition demo_image_memory :: cmem where
  "demo_image_memory a = (if 0x100000 \<le> a \<and> a < 0x100000 + 12 then demo_image ! (a - 0x100000) else 0)"

lemma packer_main_demo: "packer_main True demo_files [''kernel.bin'', ''shell.bin''] = Some (0, demo_image)"
  by (subst packer_main_eq [of _ _ _ "[7]" "[[1, 2, 3]]"]) (simp_all add: demo_files_def demo_image_def le32_def)

theorem packed_modules_are_loaded_witness:
  "(0 :: int) = 0 \<and> (\<exists>d. loadModules (0x100000 + length [7 :: byte]) [0x400000, 0x500000] (boot_console demo_image_memory) = Some d
    \<and> (\<forall>i < length [[1, 2, 3 :: byte]]. mem_list (cmem d) ([0x400000, 0x500000] ! i) ([[1, 2, 3]] ! i)))"
proof (rule packed_modules_are_loaded [OF _ _ packer_main_demo])
  show "mem_list (cmem (boot_console demo_image_memory)) 0x100000 demo_image"
    by (simp add: mem_list_def demo_image_memory_def) (simp add: demo_image_def)
  show "loadable 0xC0000 (0x100000 + length [7 :: byte] + 4) (zip [0x400000, 0x500000] [[1, 2, 3]])"
    by (simp add: loadable_def blocks_apart_def)
qed (simp_all add: demo_files_def console_ok_def)

end
