(* ===== verification/KernelMain.thy ===== *)
theory KernelMain
  imports NewProcess ModuleLoader SystemCalls
begin

section \<open>Starting the kernel (\<open>kernel.c\<close>)\<close>

text \<open>
  The assembly entry calls \<open>initializeKernelBinary\<close> on the boot stack and then \<open>main\<close> on the stack that it returns.
  The addresses that the linker gives (\<open>layout\<close>), the addresses of \<open>exec\<close> and \<open>init\<close>, the vendor string of the
  processor and the byte that the stack holds behind it are parameters.  \<open>cli\<close> only masks interrupts.  \<open>main\<close> ends in
  \<open>endLoadingKernel\<close>, which loads the stack of the first process and jumps to its entry point: the result is that stack
  pointer, that address, the interrupt table and the state of the kernel.
\<close>

subsection \<open>Definitions\<close>

record layout =
  text_at :: addr
  rodata_at :: addr
  data_at :: addr
  bss_at :: addr
  endOfKernelBinary :: addr
  endOfKernel :: addr

abbreviation (input) sampleCodeModuleAddress :: addr where "sampleCodeModuleAddress \<equiv> 0x400000"
abbreviation (input) sampleDataModuleAddress :: addr where "sampleDataModuleAddress \<equiv> 0x500000"
abbreviation (input) PageSize :: addr where "PageSize \<equiv> 0x1000"

definition clearBSS :: "addr \<Rightarrow> nat \<Rightarrow> cmem \<Rightarrow> cmem" where
  "clearBSS bssAddress bssSize m = snd (memset bssAddress 0 bssSize m)"

definition getStackBase :: "layout \<Rightarrow> addr" where
  "getStackBase ly = endOfKernel ly + PageSize * 8 - 8"

definition cpuVendor :: "byte list \<Rightarrow> byte \<Rightarrow> byte list" where
  \<comment> \<open>the string that is printed: twelve bytes are stored, the null character one byte too far\<close>
  "cpuVendor vendor stack = takeWhile (\<lambda>c. c \<noteq> 0) (vendor @ [stack])"

definition printAddress :: "string \<Rightarrow> addr \<Rightarrow> 'z console_scheme \<Rightarrow> 'z console_scheme option" where
  \<comment> \<open>\<open>ncPrint(label); ncPrintHex(address); ncNewline();\<close>\<close>
  "printAddress label a c = do {
     c \<leftarrow> ncPrintHex a (ncPrint (text_of label) c);
     ncNewline c }"

definition initializeKernelBinary :: "layout \<Rightarrow> byte list \<Rightarrow> byte \<Rightarrow> 'z console_scheme \<Rightarrow> (addr \<times> 'z console_scheme) option" where
  "initializeKernelBinary ly vendor stack c = do {
     c \<leftarrow> ncNewline (ncPrint (text_of ''[x64BareBones]'') c);
     let c = ncPrint (text_of ''CPU Vendor:'') c;
     c \<leftarrow> ncNewline (ncPrint (cpuVendor vendor stack) c);
     c \<leftarrow> ncNewline (ncPrint (text_of ''[Loading modules]'') c);
     c \<leftarrow> loadModules (endOfKernelBinary ly) [sampleCodeModuleAddress, sampleDataModuleAddress] c;
     c \<leftarrow> ncNewline (ncPrint (text_of ''[Done]'') c);
     c \<leftarrow> ncNewline c;
     c \<leftarrow> ncNewline (ncPrint (text_of ''[Initializing kernel's binary]'') c);
     let c = c\<lparr>cmem := clearBSS (bss_at ly) (endOfKernel ly - bss_at ly) (cmem c)\<rparr>;
     c \<leftarrow> printAddress ''  text: 0x'' (text_at ly) c;
     c \<leftarrow> printAddress ''  rodata: 0x'' (rodata_at ly) c;
     c \<leftarrow> printAddress ''  data: 0x'' (data_at ly) c;
     c \<leftarrow> printAddress ''  bss: 0x'' (bss_at ly) c;
     c \<leftarrow> ncNewline (ncPrint (text_of ''[Done]'') c);
     c \<leftarrow> ncNewline c;
     Some (getStackBase ly, c) }"

definition store_name :: "byte list \<Rightarrow> 'z cstate_scheme \<Rightarrow> (addr \<times> 'z cstate_scheme) option" where
  \<comment> \<open>\<open>name = (char *) allocate(sizeof(char) * n); name[0] = ...\<close>, the null character included\<close>
  "store_name w c = do {
     (name, c) \<leftarrow> allocate (of_nat (length w)) c;
     chk name;
     Some (name, c\<lparr>cmem := for_store (length w) name (\<lambda>i _. w ! i) (cmem c)\<rparr>) }"

definition onFocusTest :: "addr \<Rightarrow> kernel \<Rightarrow> kernel option" where
  "onFocusTest exec k = do {
     (name, c) \<leftarrow> store_name (text_of ''shell'' @ [0]) (k_con k);
     (_, c) \<leftarrow> addProcess exec sampleCodeModuleAddress (name_at (cmem c) name) c;
     (_, sc, c) \<leftarrow> loadScreen 1 (k_screens k) c;
     Some (k\<lparr>k_screens := sc, k_con := c\<rparr>) }"

definition changeOnFocusRound :: "int \<Rightarrow> kernel \<Rightarrow> (int \<times> kernel) option" where
  \<comment> \<open>one round of the endless loop of \<open>changeOnFocus\<close>, after its delay\<close>
  "changeOnFocusRound focusI k = do {
     let focusI = (if focusI + 1 = 10 then 0 else focusI + 1);
     k \<leftarrow> (if focusI = 0 then do {
            (_, sc, c) \<leftarrow> loadScreen 1 (k_screens k) (k_con k);
            Some (k\<lparr>k_screens := sc, k_con := c\<rparr>) } else Some k);
     k \<leftarrow> (if focusI = 5 then do {
            (_, sc, c) \<leftarrow> loadScreen 2 (k_screens k) (k_con k);
            Some (k\<lparr>k_screens := sc, k_con := c\<rparr>) } else Some k);
     Some (focusI, k) }"

definition endLoadingKernel :: "'z sched_scheme \<Rightarrow> (addr \<times> addr) option" where
  \<comment> \<open>stack pointer and program counter\<close>
  "endLoadingKernel s = do {
     sp \<leftarrow> switchKernelToUser s;
     entry \<leftarrow> currentProcessEntryPoint s;
     Some (sp, entry) }"

definition main :: "device \<Rightarrow> (handler_name \<Rightarrow> 64 word) \<Rightarrow> 32 word \<Rightarrow> 32 word \<Rightarrow> addr \<Rightarrow> addr \<Rightarrow> idt \<Rightarrow> kernel \<Rightarrow>
    (addr \<times> addr \<times> idt \<times> kernel) option" where
  \<comment> \<open>\<open>re\<close>, \<open>tr\<close>: the addresses of the buffers of the network card\<close>
  "main dev link re tr exec init IDT k = do {
     let (IDT, h) = initializeInterruptions link (IDT, ports (k_rtl k));
     let h = activeRTLdma h;
     h \<leftarrow> initRTL dev re tr h;
     let k = k\<lparr>k_rtl := (k_rtl k)\<lparr>ports := h\<rparr>\<rparr>;
     (_, c) \<leftarrow> memAllocatorInit 0x1000000 0x8000000 (k_con k);
     c \<leftarrow> setKernelStack c;
     let c = ncClear c;
     (name, c) \<leftarrow> store_name (text_of ''init'' @ [0]) c;
     (_, c) \<leftarrow> addProcess exec init (name_at (cmem c) name) c;
     k \<leftarrow> onFocusTest exec (k\<lparr>k_con := c\<rparr>);
     (sp, entry) \<leftarrow> endLoadingKernel (k_con k);
     Some (sp, entry, IDT, k) }"

definition printEthMsg :: "ethMsg \<Rightarrow> 'z console_scheme \<Rightarrow> 'z console_scheme option" where
  "printEthMsg msg1 c = do {
     c \<leftarrow> ncNewline c;
     c \<leftarrow> repeat_opt (\<lambda>x. ncPrintHex (unat x)) (take MAC_SIZE (mac msg1)) (ncPrint (text_of ''Mac destination: '') c);
     c \<leftarrow> ncNewline c;
     c \<leftarrow> ncPrintDec (unat (msg_length msg1)) (ncPrint (text_of ''length: '') c);
     c \<leftarrow> ncNewline c;
     c \<leftarrow> ncNewline (ncPrint (text_of ''Message: '') c);
     c \<leftarrow> loop_opt (unat (msg_length msg1))
            (\<lambda>i c. if i < length (msg msg1) then Some (ncPrintChar (msg msg1 ! i) c) else None) c;
     c \<leftarrow> ncNewline c;
     c \<leftarrow> ncNewline (ncPrint (text_of ''---------End of message----'') c);
     ncNewline c }"

subsection \<open>Names\<close>

lemma prefix_used_cong:
  "initMem t = initMem s \<Longrightarrow> usedMap t = usedMap s \<Longrightarrow> blocksAmount t = blocksAmount s \<Longrightarrow> prefix_used t k = prefix_used s k"
  by (simp add: prefix_used_def mm_inv_def)

lemma store_name_prefix:
  assumes "prefix_used c j" and "j < nat (blocksAmount c)" and "0 < length w" "length w \<le> 4096" and "initMem c \<noteq> NULL"
  shows "\<exists>m cm. store_name w c = Some (page_addr c j, c\<lparr>usedMap := m, cmem := cm\<rparr>)
    \<and> prefix_used (c\<lparr>usedMap := m, cmem := cm\<rparr>) (j + 1) \<and> mem_list cm (page_addr c j) w"
proof -
  let ?r = "of_nat (length w) :: 64 word"
  have u: "unat ?r = length w" using assms(4) by (simp add: unat_of_nat64)
  moreover have "(4095 + length w) div 4096 = 1" using assms(3,4) by (cases "length w") (auto intro!: div_nat_eqI)
  ultimately have n: "npages ?r = 1" "sane_request ?r"
    using assms(3,4) by (auto simp: npages_def ceil_div_def sane_request_def)
  obtain m where m: "allocate ?r c = Some (page_addr c j, c\<lparr>usedMap := m\<rparr>)" "prefix_used (c\<lparr>usedMap := m\<rparr>) (j + 1)"
    using allocate_prefix [OF assms(1) n(2)] assms(2) n(1) by auto
  let ?cm = "for_store (length w) (page_addr c j) (\<lambda>i _. w ! i) (cmem c)"
  have "page_addr c j \<noteq> NULL" using assms(5) by (simp add: page_addr_def)
  moreover have "mem_list ?cm (page_addr c j) w" by (simp add: mem_list_def for_store_const)
  moreover have "prefix_used (c\<lparr>usedMap := m, cmem := ?cm\<rparr>) (j + 1)"
    using m(2) prefix_used_cong [of "c\<lparr>usedMap := m, cmem := ?cm\<rparr>" "c\<lparr>usedMap := m\<rparr>"] by simp
  ultimately show ?thesis
    using m(1) by (intro exI [of _ m] exI [of _ ?cm]) (simp add: store_name_def)
qed

lemma name_at_string:
  assumes "mem_list m p (w @ [0])" and "0 \<notin> set w" and "length w < NAME_LENGTH"
  shows "copyName (name_at m p) 0 = Some (w @ [0])"
proof -
  have l: "length (w @ [0]) \<le> NAME_LENGTH" using assms(3) by simp
  have "take (length (w @ [0])) (name_at m p) = w @ [0]"
    using assms(1) l by (intro nth_equalityI) (simp_all add: name_at_def mem_list_def)
  then have "name_at m p = (w @ [0]) @ drop (length (w @ [0])) (name_at m p)" by (metis append_take_drop_id)
  then have "name_at m p = w @ 0 # drop (length (w @ [0])) (name_at m p)" by (metis append.assoc append_Cons append_Nil)
  then show ?thesis using copyName_eq [OF assms(2), of "drop (length (w @ [0])) (name_at m p)"] assms(3) by simp
qed

subsection \<open>Processes on consecutive pages\<close>

definition boot_mem :: "'z mm_state_scheme \<Rightarrow> nat \<Rightarrow> bool" where
  \<comment> \<open>the first \<open>j\<close> pages of the kernel's region are in use\<close>
  "boot_mem c j \<longleftrightarrow> prefix_used c j \<and> initMem c = 0x1000000 \<and> blocksAmount c = 28671"

lemma boot_memD: "boot_mem c j \<Longrightarrow> mm_inv c" "boot_mem c j \<Longrightarrow> page_addr c i = 0x1000000 + i * 4096"
  by (simp_all add: boot_mem_def prefix_used_def page_addr_def)

lemma boot_mem_cong:
  "initMem t = initMem s \<Longrightarrow> usedMap t = usedMap s \<Longrightarrow> blocksAmount t = blocksAmount s \<Longrightarrow> boot_mem t k = boot_mem s k"
  using prefix_used_cong [of t s] by (simp add: boot_mem_def)

lemma boot_process:
  assumes inv: "sched_inv c qs ths \<or> currentProcess c = NULL \<and> qs = []" and q: "queue_ok c qs"
    and mem: "boot_mem c j" "j + 261 \<le> 28671" and name: "copyName name 0 = Some bytes"
    and parent: "getCurrentPid c = Some parent"
  defines "pg \<equiv> \<lambda>i. 0x1000000 + i * 4096"
  assumes fresh: "currentThread (procs c (pg j)) = NULL"
  shows "\<exists>r m. addProcess exec entry name c = Some (pidCount c, r)
    \<and> r = process_added (pg j) (pg (j + 1)) (pg (j + 2)) (pg (j + 3)) (pg (j + 4)) (pg (j + 260)) exec entry bytes parent m c
    \<and> sched_inv r (queue_insert (pg (j + 2)) qs) (ths(pg (j + 2) := [pg (j + 260)]))
    \<and> queue_ok r (queue_insert (pg (j + 2)) qs) \<and> boot_mem r (j + 261) \<and> proc_at r (pg (j + 2)) = pg j
    \<and> (\<forall>a \<in> set qs. proc_at r a = proc_at c a)"
proof -
  have pg: "page_addr c i = pg i" for i using boot_memD(2) [OF mem(1)] by (simp add: pg_def)
  note mm = boot_memD(1) [OF mem(1)]
  obtain m where pages: "process_pages c (pg j) (pg (j + 1)) (pg (j + 2)) (pg (j + 3)) (pg (j + 4)) (pg (j + 260)) (c\<lparr>usedMap := m\<rparr>)"
      "prefix_used (c\<lparr>usedMap := m\<rparr>) (j + 261)"
    using process_pages_prefix [of c j] mem unfolding pg by (auto simp: boot_mem_def)
  have ring: "proc_ring c qs \<or> currentProcess c = NULL \<and> qs = []" using inv sched_invD(2) by blast
  define r where "r = process_added (pg j) (pg (j + 1)) (pg (j + 2)) (pg (j + 3)) (pg (j + 4)) (pg (j + 260)) exec entry bytes parent m c"
  have run: "addProcess exec entry name c = Some (pidCount c, r)"
    using addProcess_eq [OF ring mm q pages(1) name _ parent, of exec entry] fresh by (simp add: r_def)
  note i = process_added_inv [OF inv mm q pages(1) fresh, of r exec entry bytes parent]
  have "boot_mem r (j + 261)"
    using pages(2) mem(1) prefix_used_cong [of r "c\<lparr>usedMap := m\<rparr>"] by (simp add: boot_mem_def r_def store_simps)
  then show ?thesis using run i unfolding r_def by (intro exI [of _ r] exI [of _ m]) (simp add: r_def)
qed

lemma boot_mem_owned: "boot_mem c j \<Longrightarrow> owned_pages c = (\<lambda>i. 0x1000000 + i * 4096) ` {..<j}"
proof -
  assume b: "boot_mem c j"
  then have "j \<le> nat (blocksAmount c)" "\<forall>q. occupied (usedMap c) q \<longleftrightarrow> q < j" unfolding boot_mem_def prefix_used_def by blast+
  then have "used_pages c = {..<j}" unfolding used_pages_def by fastforce
  then show "owned_pages c = (\<lambda>i. 0x1000000 + i * 4096) ` {..<j}"
    using boot_memD(2) [OF b] by (simp add: owned_pages_def fun_eq_iff image_def)
qed

lemma boot_mem_mono: "boot_mem c j \<Longrightarrow> boot_mem d k \<Longrightarrow> j \<le> k \<Longrightarrow> owned_pages c \<subseteq> owned_pages d"
  by (auto simp: boot_mem_owned)

subsection \<open>The first screen\<close>

lemma sched_inv_video:
  assumes "sched_inv v qs ths" and "w = v\<lparr>usedMap := m, cmem := cm, currentPosition := q\<rparr>"
    and "owned_pages v \<subseteq> owned_pages w"
  shows "sched_inv w qs ths"
proof -
  let ?t = "v\<lparr>usedMap := m\<rparr>"
  have "owned_pages w = owned_pages ?t" by (rule owned_pages_other) (simp_all add: assms(2))
  then have "sched_inv ?t qs ths"
    using assms(3) thread_pages_owned [OF assms(1)] by (intro sched_inv_map [OF assms(1)]) auto
  then have c: "sched_inv (?t\<lparr>cmem := cm\<rparr>) qs ths" by simp
  show ?thesis unfolding assms(2)
    by (rule sched_inv_tame [OF c]) (simp_all add: same_shape_def)
qed

lemma first_screen:
  assumes mem: "boot_mem v j" "j + 9 \<le> 28671" and none: "screenList sc = NULL" and other: "onFocusPid sc \<noteq> k"
  defines "pg \<equiv> \<lambda>i. 0x1000000 + i * 4096"
  shows "\<exists>sc' v' m cm. loadScreen k sc v = Some (1, sc', v') \<and> onFocusPid sc' = k \<and> screens_ok sc' [pg j]
    \<and> scn_pid (screenNodes sc' (pg j)) = k \<and> video_ok v' \<and> boot_mem v' (j + 9)
    \<and> v' = v\<lparr>usedMap := m, cmem := cm, currentPosition := 0xB8000\<rparr>"
proof -
  have n: "npages SIZEOF_screenNode = 1" "npages SCREEN_BYTES = 8" "sane_request SIZEOF_screenNode" "sane_request SCREEN_BYTES"
    by (simp_all add: npages_def ceil_div_def sane_request_def)
  have pg: "page_addr v i = pg i" for i using boot_memD(2) [OF mem(1)] by (simp add: pg_def)
  obtain m1 where m1: "allocate SIZEOF_screenNode v = Some (pg j, v\<lparr>usedMap := m1\<rparr>)" "boot_mem (v\<lparr>usedMap := m1\<rparr>) (j + 1)"
    using allocate_prefix [of v j SIZEOF_screenNode] mem n unfolding pg by (auto simp: boot_mem_def)
  have pg1: "page_addr (v\<lparr>usedMap := m1\<rparr>) i = pg i" for i using boot_memD(2) [OF m1(2)] by (simp add: pg_def)
  obtain m where m: "allocate SCREEN_BYTES (v\<lparr>usedMap := m1\<rparr>) = Some (pg (j + 1), v\<lparr>usedMap := m\<rparr>)"
      "boot_mem (v\<lparr>usedMap := m\<rparr>) (j + 9)"
    using allocate_prefix [of "v\<lparr>usedMap := m1\<rparr>" "j + 1" SCREEN_BYTES] m1(2) mem(2) n unfolding pg1
    by (auto simp: boot_mem_def add.commute [of 9 j])
  let ?a = "pg j" and ?scr = "pg (j + 1)"
  have ne: "?a \<noteq> NULL" "?scr \<noteq> NULL" by (simp_all add: pg_def)
  let ?v = "v\<lparr>usedMap := m, cmem := clear ?scr (cmem v)\<rparr>"
  let ?node = "\<lparr>scn_pid = k, scn_screen = ?scr, scn_position = ?scr, scn_next = NULL, scn_prev = NULL\<rparr>"
  let ?sc = "sc\<lparr>screenNodes := (screenNodes sc)(?a := ?node), screenList := ?a\<rparr>"
  have node: "(x :: screenNode)\<lparr>scn_screen := q, scn_position := q', scn_pid := i, scn_next := u, scn_prev := w\<rparr> =
      \<lparr>scn_pid = i, scn_screen = q, scn_position = q', scn_next = u, scn_prev = w\<rparr>" for x q q' i u w
    by (cases x) simp
  have add: "addScreen NULL NULL k sc v = Some (?a, sc\<lparr>screenNodes := (screenNodes sc)(?a := ?node)\<rparr>, ?v)"
    using m1(1) m(1) ne by (subst addScreen.simps) (simp add: newScreenNode_def upd_screen_def Let_def node)
  have find0: "findScreenNodeByPid k sc = Some NULL"
    using none by (simp add: findScreenNodeByPid_def findScreenNode.simps)
  have find1: "findScreenNodeByPid k ?sc = Some ?a"
    by (simp add: findScreenNodeByPid_def findScreenNode.simps)
  have find2: "findScreenNodeByPid (onFocusPid sc) ?sc = Some NULL"
    using other ne by (simp add: findScreenNodeByPid_def findScreenNode.simps [of _ _ ?a] findScreenNode.simps [of _ _ NULL])
  have save: "saveScreen ?sc ?v = Some (?sc, ?v)" using find2 by (simp add: saveScreen_def)
  let ?cm = "for_store WINDOW_SIZE screen (\<lambda>i m. m (?scr + i)) (cmem ?v)"
  let ?v' = "v\<lparr>usedMap := m, cmem := ?cm, currentPosition := 0xB8000\<rparr>"
  have set: "setScreen ?scr ?scr ?v = ?v'" by (simp add: setScreen_def Let_def wrap32_id)
  have run: "loadScreen k sc v = Some (1, ?sc\<lparr>onFocusPid := k\<rparr>, ?v')"
    using ne find0 find1 add none save set by (simp add: loadScreen_def Let_def)
  have "boot_mem ?v' (j + 9)" using m(2) boot_mem_cong [of ?v' "v\<lparr>usedMap := m\<rparr>"] by simp
  moreover have "screens_ok (?sc\<lparr>onFocusPid := k\<rparr>) [?a]" using ne by (simp add: screens_ok_def pg_def)
  moreover have "video_ok ?v'" by (simp add: video_ok_def)
  ultimately show ?thesis using run by (intro exI) (intro conjI, assumption, simp_all)
qed

subsection \<open>Properties\<close>

definition static_values :: "kernel \<Rightarrow> bool" where
  \<comment> \<open>the static variables hold what the program initialises them with\<close>
  "static_values k \<longleftrightarrow> currentProcess (k_con k) = NULL \<and> pidCount (k_con k) = 0 \<and> screenList (k_screens k) = NULL
     \<and> onFocusPid (k_screens k) = NO_FOCUS"

definition no_stale_threads :: "kernel \<Rightarrow> bool" where
  \<comment> \<open>\<open>currentThread\<close>, which \<open>createProcess\<close> does not write, reads null in the pages of the first two processes\<close>
  "no_stale_threads k \<longleftrightarrow> (\<forall>p \<in> {0x1002000, 0x1108000}. currentThread (procs (k_con k) p) = NULL)"

lemma initRTL_returns: "resets dev \<Longrightarrow> \<exists>h'. initRTL dev re tr h = Some h'"
  using waitReset_returns by (auto simp: initRTL_def bind_eq_Some_conv)

definition started :: "'z sched_scheme \<Rightarrow> addr \<Rightarrow> addr \<Rightarrow> int \<Rightarrow> int \<Rightarrow> byte list \<Rightarrow> addr \<Rightarrow> addr \<Rightarrow> bool" where
  \<comment> \<open>the process of the queue node \<open>n\<close>, with its thread of the list node \<open>l\<close>, is ready to start at \<open>entry\<close>\<close>
  "started s n l k parent w exec entry \<longleftrightarrow>
     (let p = procs s (proc_at s n); t = threads s (thread_at s l)
      in pid p = k \<and> ppid p = parent \<and> p_state p = READY \<and> names s (p_name p) = w @ [0] \<and> currentThread p = l
         \<and> entryPoint t = entry \<and> frames s (userStack t) = initialFrame exec entry (userStack t))"

lemma boot_init:
  assumes c: "currentProcess c = NULL" "pidCount c = 0" "currentThread (procs c 0x1002000) = NULL" and mem: "boot_mem c 1"
  shows "\<exists>name c1 r. store_name (text_of ''init'' @ [0]) c = Some (name, c1) \<and> addProcess exec init (name_at (cmem c1) name) c1 = Some (0, r)
    \<and> sched_inv r [0x1004000] ((\<lambda>_. [])(0x1004000 := [0x1106000])) \<and> queue_ok r [0x1004000] \<and> boot_mem r 263 \<and> pidCount r = 1
    \<and> currentProcess r = 0x1004000 \<and> proc_at r 0x1004000 = 0x1002000
    \<and> p_name (procs r 0x1002000) = 0x1003000 \<and> thread_at r 0x1106000 = 0x1005000 \<and> userStack (threads r 0x1005000) = 0x1006000 - 184
    \<and> started r 0x1004000 0x1106000 0 (- 1) (text_of ''init'') exec init
    \<and> (\<forall>a. a \<noteq> 0x1002000 \<longrightarrow> procs r a = procs c a)"
proof -
  obtain m cm where s: "store_name (text_of ''init'' @ [0]) c = Some (page_addr c 1, c\<lparr>usedMap := m, cmem := cm\<rparr>)"
    "prefix_used (c\<lparr>usedMap := m, cmem := cm\<rparr>) (1 + 1)" "mem_list cm (page_addr c 1) (text_of ''init'' @ [0])"
    using store_name_prefix [of c 1 "text_of ''init'' @ [0]"] mem by (auto simp: boot_mem_def)
  let ?c = "c\<lparr>usedMap := m, cmem := cm\<rparr>"
  have name: "copyName (name_at (cmem ?c) (page_addr c 1)) 0 = Some (text_of ''init'' @ [0])"
    using name_at_string [OF s(3)] by simp
  have mem2: "boot_mem ?c 2" using s(2) mem by (simp add: boot_mem_def numeral_2_eq_2)
  have e: "currentProcess ?c = NULL \<and> [] = []" "queue_ok ?c []" "getCurrentPid ?c = Some (- 1)"
    "currentThread (procs ?c (0x1000000 + 2 * 4096)) = NULL"
    using c by (simp_all add: queue_ok_def getCurrentPid_def)
  obtain r m' where r: "addProcess exec init (name_at (cmem ?c) (page_addr c 1)) ?c = Some (pidCount ?c, r)"
    "r = process_added 0x1002000 0x1003000 0x1004000 0x1005000 0x1006000 0x1106000 exec init (text_of ''init'' @ [0]) (- 1) m' ?c"
    "sched_inv r [0x1004000] ((\<lambda>_. [])(0x1004000 := [0x1106000]))" "queue_ok r [0x1004000]" "boot_mem r 263" "proc_at r 0x1004000 = 0x1002000"
    using boot_process [OF disjI2 [OF e(1)] e(2) mem2 _ name e(3,4), of exec init "\<lambda>_. []"] by (auto simp: queue_insert_def)
  have "libs r 0x1106000 = \<lparr>l_thread = 0x1005000, l_next = 0x1106000\<rparr>" "currentThread (procs r 0x1002000) = 0x1106000"
    using c(3) unfolding r(2) by (simp_all add: store_simps)
  moreover have "frames r (userStack (threads r 0x1005000)) = initialFrame exec init (userStack (threads r 0x1005000))"
    unfolding r(2) process_added_select(14) by (rule process_added_select)
  moreover have "pidCount r = 1" "currentProcess r = 0x1004000" "pid (procs r 0x1002000) = 0" "ppid (procs r 0x1002000) = - 1"
    "p_name (procs r 0x1002000) = 0x1003000" "userStack (threads r 0x1005000) = 0x1006000 - 184"
    "p_state (procs r 0x1002000) = READY" "names r (p_name (procs r 0x1002000)) = text_of ''init'' @ [0]" "entryPoint (threads r 0x1005000) = init"
    "\<forall>a. a \<noteq> 0x1002000 \<longrightarrow> procs r a = procs c a"
    using c unfolding r(2) by (simp_all add: store_simps)
  ultimately show ?thesis
    using s(1) r(1,3-6) c(2)
    by (intro exI [of _ "page_addr c 1"] exI [of _ ?c] exI [of _ r]) (simp add: started_def)
qed

lemma boot_shell:
  assumes inv: "sched_inv c qs ths" and q: "queue_ok c qs" and c: "currentThread (procs c 0x1108000) = NULL" "pidCount c = 1"
    and mem: "boot_mem c 263" and parent: "getCurrentPid c = Some parent"
  shows "\<exists>name c1 r. store_name (text_of ''shell'' @ [0]) c = Some (name, c1)
    \<and> addProcess exec 0x400000 (name_at (cmem c1) name) c1 = Some (1, r)
    \<and> sched_inv r (queue_insert 0x110A000 qs) (ths(0x110A000 := [0x120C000])) \<and> boot_mem r 525
    \<and> proc_at r 0x110A000 = 0x1108000 \<and> (\<forall>a \<in> set qs. proc_at r a = proc_at c a)
    \<and> currentProcess r = currentProcess c
    \<and> started r 0x110A000 0x120C000 1 parent (text_of ''shell'') exec 0x400000
    \<and> (\<forall>a. a \<noteq> 0x1108000 \<longrightarrow> procs r a = procs c a) \<and> (\<forall>a. a \<noteq> 0x110B000 \<longrightarrow> threads r a = threads c a)
    \<and> (\<forall>a. a \<noteq> 0x120C000 \<longrightarrow> libs r a = libs c a) \<and> (\<forall>a. a \<noteq> 0x1109000 \<longrightarrow> names r a = names c a)
    \<and> (\<forall>a. a \<noteq> 0x110C000 - 184 \<longrightarrow> frames r a = frames c a)"
proof -
  obtain m cm where s: "store_name (text_of ''shell'' @ [0]) c = Some (page_addr c 263, c\<lparr>usedMap := m, cmem := cm\<rparr>)"
    "prefix_used (c\<lparr>usedMap := m, cmem := cm\<rparr>) (263 + 1)" "mem_list cm (page_addr c 263) (text_of ''shell'' @ [0])"
    using store_name_prefix [of c 263 "text_of ''shell'' @ [0]"] mem by (auto simp: boot_mem_def)
  let ?c = "c\<lparr>usedMap := m, cmem := cm\<rparr>"
  have name: "copyName (name_at (cmem ?c) (page_addr c 263)) 0 = Some (text_of ''shell'' @ [0])"
    using name_at_string [OF s(3)] by simp
  have mem2: "boot_mem ?c 264" using s(2) mem by (simp add: boot_mem_def)
  have own: "owned_pages c \<subseteq> owned_pages ?c" by (rule boot_mem_mono [OF mem mem2]) simp
  have "owned_pages (c\<lparr>usedMap := m\<rparr>) = owned_pages ?c" by (rule owned_pages_other) simp_all
  then have "thread_pages c qs ths \<subseteq> owned_pages (c\<lparr>usedMap := m\<rparr>)" using own thread_pages_owned [OF inv] by blast
  then have map: "sched_inv (c\<lparr>usedMap := m\<rparr>) qs ths" by (rule sched_inv_map [OF inv refl])
  have "sched_inv ((c\<lparr>usedMap := m\<rparr>)\<lparr>cmem := cm\<rparr>) qs ths" unfolding sched_inv_cmem by (rule map)
  then have inv2: "sched_inv ?c qs ths" by simp
  have q2: "queue_ok ?c qs" using q own by (auto simp: queue_ok_def)
  have "getCurrentPid ?c = getCurrentPid c" by (simp add: getCurrentPid_def get_snode_def get_proc_def)
  then have e: "getCurrentPid ?c = Some parent" "currentThread (procs ?c (0x1000000 + 264 * 4096)) = NULL"
    using c(1) parent by simp_all
  obtain r m' where r: "addProcess exec 0x400000 (name_at (cmem ?c) (page_addr c 263)) ?c = Some (pidCount ?c, r)"
    "r = process_added 0x1108000 0x1109000 0x110A000 0x110B000 0x110C000 0x120C000 exec 0x400000 (text_of ''shell'' @ [0]) parent m' ?c"
    "sched_inv r (queue_insert 0x110A000 qs) (ths(0x110A000 := [0x120C000]))" "boot_mem r 525" "proc_at r 0x110A000 = 0x1108000"
    "\<forall>a \<in> set qs. proc_at r a = proc_at ?c a"
    using boot_process [OF disjI1 [OF inv2] q2 mem2 _ name e, of exec "0x400000"] by auto
  have cur: "currentProcess c \<noteq> NULL" using proc_ringD(4,6) [OF sched_invD(2) [OF inv]] by metis
  have "libs r 0x120C000 = \<lparr>l_thread = 0x110B000, l_next = 0x120C000\<rparr>" "currentThread (procs r 0x1108000) = 0x120C000"
    "\<forall>a. a \<noteq> 0x120C000 \<longrightarrow> libs r a = libs c a"
    using c(1) unfolding r(2) by (simp_all add: store_simps)
  moreover have "frames r (userStack (threads r 0x110B000)) = initialFrame exec 0x400000 (userStack (threads r 0x110B000))"
    unfolding r(2) process_added_select(14) by (rule process_added_select)
  moreover have "currentProcess r = currentProcess c" "pid (procs r 0x1108000) = 1" "ppid (procs r 0x1108000) = parent"
    "p_state (procs r 0x1108000) = READY" "names r (p_name (procs r 0x1108000)) = text_of ''shell'' @ [0]"
    "entryPoint (threads r 0x110B000) = 0x400000" "\<forall>a. a \<noteq> 0x1108000 \<longrightarrow> procs r a = procs c a"
    "\<forall>a. a \<noteq> 0x110B000 \<longrightarrow> threads r a = threads c a"
    using c(2) cur unfolding r(2) by (simp_all add: store_simps)
  moreover have "\<forall>a. a \<noteq> 0x1109000 \<longrightarrow> names r a = names c a" "\<forall>a. a \<noteq> 0x110C000 - 184 \<longrightarrow> frames r a = frames c a"
    unfolding r(2) by (simp_all add: process_added_def with_thread_def with_process_def Let_def)
  ultimately show ?thesis
    using s(1) r(1,3-6) c(2)
    by (intro exI [of _ "page_addr c 263"] exI [of _ ?c] exI [of _ r]) (simp add: started_def)
qed

lemma started_video:
  "started (v\<lparr>usedMap := m, cmem := cm, currentPosition := q\<rparr>) n l k parent w exec entry = started v n l k parent w exec entry"
  by (simp add: started_def)

lemma started_endLoading:
  assumes "started s n l k parent w exec entry" and "currentProcess s = n" and "n \<noteq> NULL" "proc_at s n \<noteq> NULL" "l \<noteq> NULL" "thread_at s l \<noteq> NULL"
  shows "endLoadingKernel s = Some (userStack (threads s (thread_at s l)), entry)"
  using assms by (simp add: started_def endLoadingKernel_def switchKernelToUser_def currentProcessEntryPoint_def currentThreadNode_def Let_def)

definition init_ready :: "addr \<Rightarrow> addr \<Rightarrow> 'z sched_scheme \<Rightarrow> bool" where
  \<comment> \<open>the state after the first \<open>addProcess\<close> of \<open>main\<close>\<close>
  "init_ready exec init r \<longleftrightarrow> sched_inv r [0x1004000] ((\<lambda>_. [])(0x1004000 := [0x1106000])) \<and> queue_ok r [0x1004000] \<and> boot_mem r 263
     \<and> pidCount r = 1 \<and> currentProcess r = 0x1004000 \<and> proc_at r 0x1004000 = 0x1002000 \<and> p_name (procs r 0x1002000) = 0x1003000
     \<and> thread_at r 0x1106000 = 0x1005000 \<and> userStack (threads r 0x1005000) = 0x1006000 - 184
     \<and> started r 0x1004000 0x1106000 0 (- 1) (text_of ''init'') exec init \<and> currentThread (procs r 0x1108000) = NULL"

lemma boot_reaches_init:
  assumes "static_values k" and "no_stale_threads k"
  shows "\<exists>c1 s2 name c3 r. memAllocatorInit 0x1000000 0x8000000 (k_con k) = Some (1, c1) \<and> setKernelStack c1 = Some s2
    \<and> store_name (text_of ''init'' @ [0]) (ncClear s2) = Some (name, c3)
    \<and> addProcess exec init (name_at (cmem c3) name) c3 = Some (0, r) \<and> init_ready exec init r"
proof -
  let ?c = "k_con k"
  obtain c1 where c1: "memAllocatorInit 0x1000000 0x8000000 ?c = Some (1, c1)" "boot_mem c1 0" "procs c1 = procs ?c"
      "currentProcess c1 = currentProcess ?c" "pidCount c1 = pidCount ?c"
    using kernel_region_initialised [of ?c] kernel_region [of ?c] by (auto simp: boot_mem_def)
  obtain m where m: "allocate PAGE c1 = Some (0x1000000, c1\<lparr>usedMap := m\<rparr>)" "boot_mem (c1\<lparr>usedMap := m\<rparr>) 1"
    using allocate_prefix [of c1 0 PAGE] c1(2) boot_memD(2) [OF c1(2), of 0] by (auto simp: boot_mem_def)
  let ?s2 = "c1\<lparr>usedMap := m, kernelStack := 0x1000000\<rparr>"
  have stack: "setKernelStack c1 = Some ?s2" by (simp add: setKernelStack_def m(1))
  have c2: "currentProcess (ncClear ?s2) = NULL" "pidCount (ncClear ?s2) = 0" "currentThread (procs (ncClear ?s2) 0x1002000) = NULL"
      "boot_mem (ncClear ?s2) 1" "currentThread (procs (ncClear ?s2) 0x1108000) = NULL"
    using assms c1 m(2) boot_mem_cong [of "ncClear ?s2" "c1\<lparr>usedMap := m\<rparr>"] by (simp_all add: static_values_def no_stale_threads_def ncClear_def)
  obtain name c3 r where "store_name (text_of ''init'' @ [0]) (ncClear ?s2) = Some (name, c3)"
      "addProcess exec init (name_at (cmem c3) name) c3 = Some (0, r)"
      "sched_inv r [0x1004000] ((\<lambda>_. [])(0x1004000 := [0x1106000]))" "queue_ok r [0x1004000]" "boot_mem r 263" "pidCount r = 1"
      "currentProcess r = 0x1004000" "proc_at r 0x1004000 = 0x1002000" "p_name (procs r 0x1002000) = 0x1003000"
      "thread_at r 0x1106000 = 0x1005000" "userStack (threads r 0x1005000) = 0x1006000 - 184"
      "started r 0x1004000 0x1106000 0 (- 1) (text_of ''init'') exec init" "\<forall>a. a \<noteq> 0x1002000 \<longrightarrow> procs r a = procs (ncClear ?s2) a"
    using boot_init [OF c2(1-4), of exec init] by blast
  then show ?thesis using c1(1) stack c2(5)
    by (intro exI [of _ c1] exI [of _ ?s2] exI [of _ name] exI [of _ c3] exI [of _ r]) (simp add: init_ready_def)
qed

lemma boot_reaches_shell:
  assumes "init_ready exec init r" and "screenList sc0 = NULL" and "onFocusPid sc0 = NO_FOCUS"
  shows "\<exists>name c4 t sc v. store_name (text_of ''shell'' @ [0]) r = Some (name, c4)
    \<and> addProcess exec 0x400000 (name_at (cmem c4) name) c4 = Some (1, t) \<and> loadScreen 1 sc0 t = Some (1, sc, v)
    \<and> sched_inv v [0x1004000, 0x110A000] ((\<lambda>_. [])(0x1004000 := [0x1106000], 0x110A000 := [0x120C000])) \<and> boot_mem v 534
    \<and> started v 0x1004000 0x1106000 0 (- 1) (text_of ''init'') exec init
    \<and> started v 0x110A000 0x120C000 1 0 (text_of ''shell'') exec 0x400000
    \<and> currentProcess v = 0x1004000 \<and> proc_at v 0x1004000 = 0x1002000 \<and> thread_at v 0x1106000 = 0x1005000
    \<and> onFocusPid sc = 1 \<and> screens_ok sc [0x120D000] \<and> scn_pid (screenNodes sc 0x120D000) = 1 \<and> video_ok v"
proof -
  have pre: "sched_inv r [0x1004000] ((\<lambda>_. [])(0x1004000 := [0x1106000]))" "queue_ok r [0x1004000]"
    "currentThread (procs r 0x1108000) = NULL" "pidCount r = 1" "boot_mem r 263"
    and r: "currentProcess r = 0x1004000" "proc_at r 0x1004000 = 0x1002000" "p_name (procs r 0x1002000) = 0x1003000"
    "thread_at r 0x1106000 = 0x1005000" "userStack (threads r 0x1005000) = 0x1006000 - 184"
    "started r 0x1004000 0x1106000 0 (- 1) (text_of ''init'') exec init"
    using assms(1) unfolding init_ready_def by blast+
  have pid: "getCurrentPid r = Some 0" using r(1,2,6) by (simp add: getCurrentPid_def started_def Let_def)
  from boot_shell [OF pre pid, of exec]
  obtain name' c4 t where t: "store_name (text_of ''shell'' @ [0]) r = Some (name', c4)"
      "addProcess exec 0x400000 (name_at (cmem c4) name') c4 = Some (1, t)"
      "sched_inv t (queue_insert 0x110A000 [0x1004000]) ((\<lambda>_. [])(0x1004000 := [0x1106000], 0x110A000 := [0x120C000]))"
      "boot_mem t 525" "\<forall>a \<in> set [0x1004000]. proc_at t a = proc_at r a" "currentProcess t = currentProcess r"
      "started t 0x110A000 0x120C000 1 0 (text_of ''shell'') exec 0x400000"
      "\<forall>a. a \<noteq> 0x1108000 \<longrightarrow> procs t a = procs r a" "\<forall>a. a \<noteq> 0x110B000 \<longrightarrow> threads t a = threads r a"
      "\<forall>a. a \<noteq> 0x120C000 \<longrightarrow> libs t a = libs r a" "\<forall>a. a \<noteq> 0x1109000 \<longrightarrow> names t a = names r a"
      "\<forall>a. a \<noteq> 0x110C000 - 184 \<longrightarrow> frames t a = frames r a"
    by (elim exE conjE) blast
  have at: "proc_at t 0x1004000 = 0x1002000" "thread_at t 0x1106000 = 0x1005000" using t(5,10) r(2,4) by simp_all
  have init: "started t 0x1004000 0x1106000 0 (- 1) (text_of ''init'') exec init"
    using r(2-6) t(8,9,11,12) at by (simp add: started_def Let_def)
  obtain sc v m' cm where v: "loadScreen 1 sc0 t = Some (1, sc, v)" "onFocusPid sc = 1" "screens_ok sc [0x120D000]"
      "scn_pid (screenNodes sc 0x120D000) = 1" "video_ok v" "boot_mem v 534"
      "v = t\<lparr>usedMap := m', cmem := cm, currentPosition := 0xB8000\<rparr>"
    using first_screen [of t 525 sc0 1] t(4) assms(2,3) by auto
  have "sched_inv v [0x1004000, 0x110A000] ((\<lambda>_. [])(0x1004000 := [0x1106000], 0x110A000 := [0x120C000]))"
    using t(3) boot_mem_mono [OF t(4) v(6)] by (intro sched_inv_video [OF _ v(7)]) (simp_all add: queue_insert_def)
  moreover have "started v 0x1004000 0x1106000 0 (- 1) (text_of ''init'') exec init"
    "started v 0x110A000 0x120C000 1 0 (text_of ''shell'') exec 0x400000"
    using init t(7) unfolding v(7) started_video by simp_all
  moreover have "currentProcess v = 0x1004000" "proc_at v 0x1004000 = 0x1002000" "thread_at v 0x1106000 = 0x1005000"
    using t(6) r(1) at by (simp_all add: v(7))
  ultimately show ?thesis using t(1,2) v(1-6)
    by (intro exI [of _ name'] exI [of _ c4] exI [of _ t] exI [of _ sc] exI [of _ v]) simp
qed

text \<open>C5. The kernel starts, under three conditions: the card has reset, the static variables hold what the
  program initialises them with, and \<open>currentThread\<close> happens to read null in the two pages that become the
  process nodes of \<open>init\<close> and of the shell.  The last one neither \<open>main\<close> nor \<open>createProcess\<close> ensures; on other
  memory the first thread of the process is linked behind the stale one, as \<open>recycled_process_keeps_threads\<close> shows.
  Then \<open>main\<close> jumps to \<open>init\<close> on its stack: the five vectors lead to the handlers of the kernel, the page
  allocator and the scheduler are in their invariants, the queue holds process 0, \<open>init\<close>, and process 1, the shell at
  its module's address, each ready with one thread, and the shell owns the only screen and the focus.\<close>

theorem kernel_boots:
  assumes "static_values k" and "no_stale_threads k" and "resets dev"
  shows "\<exists>sp IDT' k'. main dev link re tr exec init IDT k = Some (sp, init, IDT', k')
    \<and> frames (k_con k') sp = initialFrame exec init sp \<and> currentProcess (k_con k') = 0x1004000
    \<and> sched_inv (k_con k') [0x1004000, 0x110A000] ((\<lambda>_. [])(0x1004000 := [0x1106000], 0x110A000 := [0x120C000]))
    \<and> mm_inv (k_con k') \<and> started (k_con k') 0x1004000 0x1106000 0 (- 1) (text_of ''init'') exec init
    \<and> started (k_con k') 0x110A000 0x120C000 1 0 (text_of ''shell'') exec 0x400000
    \<and> onFocusPid (k_screens k') = 1 \<and> screens_ok (k_screens k') [0x120D000] \<and> scn_pid (screenNodes (k_screens k') 0x120D000) = 1
    \<and> video_ok (k_con k')
    \<and> (\<forall>(v, n) \<in> set [(0x20, ProcessSwitch), (0x21, Irq1Handler), (0x2B, Irq11Handler), (0x71, YieldHandler), (0x80, SysCallHandler)].
          gate_target (IDT' v) = link n \<and> gate_present (IDT' v))"
proof -
  obtain IDT' h where ii: "initializeInterruptions link (IDT, ports (k_rtl k)) = (IDT', h)"
      "\<forall>(v, n) \<in> set [(0x20, ProcessSwitch), (0x21, Irq1Handler), (0x2B, Irq11Handler), (0x71, YieldHandler), (0x80, SysCallHandler)].
          gate_target (IDT' v) = link n \<and> gate_present (IDT' v)"
    by (simp add: initializeInterruptions_def Let_def iSetHandler_gate)
  obtain h' where h': "initRTL dev re tr (activeRTLdma h) = Some h'" using initRTL_returns [OF assms(3)] by blast
  obtain c1 s2 name c3 r where r: "memAllocatorInit 0x1000000 0x8000000 (k_con k) = Some (1, c1)" "setKernelStack c1 = Some s2"
      "store_name (text_of ''init'' @ [0]) (ncClear s2) = Some (name, c3)"
      "addProcess exec init (name_at (cmem c3) name) c3 = Some (0, r)" "init_ready exec init r"
    using boot_reaches_init [OF assms(1,2)] by blast
  have "screenList (k_screens k) = NULL" "onFocusPid (k_screens k) = NO_FOCUS" using assms(1) by (simp_all add: static_values_def)
  from boot_reaches_shell [OF r(5) this] obtain name' c4 t sc v where
    t: "store_name (text_of ''shell'' @ [0]) r = Some (name', c4)" "addProcess exec 0x400000 (name_at (cmem c4) name') c4 = Some (1, t)"
      "loadScreen 1 (k_screens k) t = Some (1, sc, v)"
    and v: "sched_inv v [0x1004000, 0x110A000] ((\<lambda>_. [])(0x1004000 := [0x1106000], 0x110A000 := [0x120C000]))" "boot_mem v 534"
      "started v 0x1004000 0x1106000 0 (- 1) (text_of ''init'') exec init"
      "started v 0x110A000 0x120C000 1 0 (text_of ''shell'') exec 0x400000"
      "currentProcess v = 0x1004000" "proc_at v 0x1004000 = 0x1002000" "thread_at v 0x1106000 = 0x1005000"
    and sc: "onFocusPid sc = 1" "screens_ok sc [0x120D000]" "scn_pid (screenNodes sc 0x120D000) = 1" "video_ok v"
    by (elim exE conjE) blast
  let ?sp = "userStack (threads v 0x1005000)" and ?k = "k\<lparr>k_rtl := (k_rtl k)\<lparr>ports := h'\<rparr>, k_con := v, k_screens := sc\<rparr>"
  have jump: "endLoadingKernel v = Some (?sp, init)" using started_endLoading [OF v(3,5)] v(6,7) by simp
  have "onFocusTest exec (k\<lparr>k_rtl := (k_rtl k)\<lparr>ports := h'\<rparr>, k_con := r\<rparr>) = Some ?k" using t by (simp add: onFocusTest_def)
  then have "main dev link re tr exec init IDT k = Some (?sp, init, IDT', ?k)" using ii(1) h' r(1-4) jump by (simp add: main_def)
  moreover have "frames v ?sp = initialFrame exec init ?sp" using v(3,7) by (simp add: started_def Let_def)
  ultimately show ?thesis using v boot_memD(1) [OF v(2)] sc ii(2)
    by (intro exI [of _ ?sp] exI [of _ IDT'] exI [of _ ?k]) simp
qed

definition boot_kernel :: kernel where
  "boot_kernel = \<lparr>k_con = vstate.extend (with_vstate screen (with_cmem (\<lambda>_. 0) blank_sched)) (console.fields video (replicate 64 0)),
     k_screens = demo_screens\<lparr>screenList := NULL, onFocusPid := NO_FOCUS\<rparr>, k_keys = demo_keyboard, k_mutexes = no_mutexes,
     k_semaphores = no_semaphores, k_pipes = demo_pipes, k_rtl = demo_rtl\<rparr>"

lemma boot_kernel_cleared: "static_values boot_kernel" "no_stale_threads boot_kernel"
  by (simp_all add: static_values_def no_stale_threads_def boot_kernel_def vstate.extend_def console.fields_def with_vstate_def cstate.extend_def vstate.fields_def
      with_cmem_def sched.extend_def cstate.fields_def blank_sched_def zero_proc_def)

theorem kernel_boots_witness:
  "\<exists>sp IDT' k'. main demo_card (\<lambda>_. 0x100000) 0x200000 0x201000 0x102000 0x103000 (\<lambda>_. zero_gate) boot_kernel = Some (sp, 0x103000, IDT', k')
    \<and> currentProcess (k_con k') = 0x1004000 \<and> onFocusPid (k_screens k') = 1 \<and> mm_inv (k_con k')"
  using kernel_boots [OF boot_kernel_cleared demo_card_resets] by blast

end
