(* ===== verification/UString.thy ===== *)
theory UString
  imports KStdLib "HOL-Library.Sublist"
begin

section \<open>Strings of the user programs (\<open>Userland/SampleCodeModule/string.c\<close>)\<close>

text \<open>
  The functions take pointers into the flat memory of characters.  A loop that looks for the null
  character is a \<open>partial_function\<close>: it has a result exactly when there is one.  A \<open>char\<close> is
  signed.
\<close>

subsection \<open>Definitions\<close>

partial_function (option) strlenLoop :: "cmem \<Rightarrow> addr \<Rightarrow> nat \<Rightarrow> nat option" where
  "strlenLoop m str k = (if m str \<noteq> 0 then strlenLoop m (str + 1) (k + 1) else Some k)"

definition strlen :: "cmem \<Rightarrow> addr \<Rightarrow> nat option" where
  "strlen m str = strlenLoop m str 0"

function strrevLoop :: "nat \<Rightarrow> nat \<Rightarrow> addr \<Rightarrow> cmem \<Rightarrow> cmem" where
  "strrevLoop medio i str m =
     (if i < medio then
        let aux = m (str + i);
            m = m(str + i := m (str + (2 * medio - i)));
            m = m(str + (2 * medio - i) := aux)
        in strrevLoop medio (i + 1) str m
      else m)"
  by auto
termination by (relation "measure (\<lambda>(medio, i, _). medio - i)") simp_all

declare strrevLoop.simps [simp del]

definition strrev :: "addr \<Rightarrow> cmem \<Rightarrow> (addr \<times> cmem) option" where
  "strrev str m = do {
     n \<leftarrow> strlen m str;
     let medio = n div 2;
     Some (str, strrevLoop medio 0 str m) }"

partial_function (option) strncatLoop :: "addr \<Rightarrow> addr \<Rightarrow> int \<Rightarrow> nat \<Rightarrow> nat \<Rightarrow> cmem \<Rightarrow> (nat \<times> cmem) option" where
  "strncatLoop str1 str2 n k i m =
     (if m (str2 + i) \<noteq> 0 \<and> int i < n
      then strncatLoop str1 str2 n (k + 1) (i + 1) (m(str1 + k := m (str2 + i)))
      else Some (k, m))"

definition strncat :: "addr \<Rightarrow> addr \<Rightarrow> int \<Rightarrow> cmem \<Rightarrow> (addr \<times> cmem) option" where
  "strncat str1 str2 n m = do {
     k \<leftarrow> strlen m str1;
     (k, m) \<leftarrow> strncatLoop str1 str2 n k 0 m;
     Some (str1, m(str1 + k := 0)) }"

partial_function (option) strpbrkLoop :: "cmem \<Rightarrow> addr \<Rightarrow> byte \<Rightarrow> nat \<Rightarrow> int option" where
  "strpbrkLoop m str1 s i =
     (if m (str1 + i) \<noteq> 0 then
        if m (str1 + i) = s then Some (int i) else strpbrkLoop m str1 s (i + 1)
      else Some (- 1))"

definition strpbrk :: "cmem \<Rightarrow> addr \<Rightarrow> byte \<Rightarrow> int option" where
  "strpbrk m str1 s = strpbrkLoop m str1 s 0"

partial_function (option) strcatLoop :: "addr \<Rightarrow> addr \<Rightarrow> nat \<Rightarrow> cmem \<Rightarrow> (nat \<times> cmem) option" where
  "strcatLoop str1 str2 k m =
     (if m str2 \<noteq> 0 then strcatLoop str1 (str2 + 1) (k + 1) (m(str1 + k := m str2)) else Some (k, m))"

definition strcat :: "addr \<Rightarrow> addr \<Rightarrow> cmem \<Rightarrow> (addr \<times> cmem) option" where
  "strcat str1 str2 m = do {
     k \<leftarrow> strlen m str1;
     (k, m) \<leftarrow> strcatLoop str1 str2 k m;
     Some (str1, m(str1 + k := 0)) }"

partial_function (option) strcpy :: "addr \<Rightarrow> addr \<Rightarrow> cmem \<Rightarrow> cmem option" where
  "strcpy dest src m =
     (if m src \<noteq> 0 then strcpy (dest + 1) (src + 1) (m(dest := m src)) else Some (m(dest := 0)))"

partial_function (option) strncpy :: "addr \<Rightarrow> addr \<Rightarrow> int \<Rightarrow> cmem \<Rightarrow> cmem option" where
  "strncpy dest src n m =
     (if m src \<noteq> 0 \<and> n \<noteq> 0 then strncpy (dest + 1) (src + 1) (n - 1) (m(dest := m src))
      else Some (m(dest := 0)))"

partial_function (option) strcmp :: "cmem \<Rightarrow> addr \<Rightarrow> addr \<Rightarrow> int option" where
  "strcmp m str1 str2 =
     (if m str1 = m str2 \<and> m str1 \<noteq> 0 \<and> m str2 \<noteq> 0 then strcmp m (str1 + 1) (str2 + 1)
      else Some (sint (m str1) - sint (m str2)))"

partial_function (option) matchLoop :: "cmem \<Rightarrow> addr \<Rightarrow> addr \<Rightarrow> nat \<Rightarrow> bool \<Rightarrow>
    (addr \<times> addr \<times> nat \<times> bool) option" where
  \<comment> \<open>the inner loop of \<open>strstr\<close>\<close>
  "matchLoop m str1 str2 k flag =
     (if m str1 = m str2 \<and> m str2 \<noteq> 0 \<and> m str1 \<noteq> 0 then matchLoop m (str1 + 1) (str2 + 1) (k + 1) True
      else Some (str1, str2, k, flag))"

partial_function (option) strstr :: "cmem \<Rightarrow> addr \<Rightarrow> addr \<Rightarrow> int option" where
  \<comment> \<open>\<open>count\<close> and \<open>flag\<close> are 0 at the beginning of every round\<close>
  "strstr m str1 str2 =
     (if m str1 \<noteq> 0 then do {
        (str1, str2, k, flag) \<leftarrow> matchLoop m str1 str2 0 False;
        if m str2 = 0 then Some 1
        else do {
          let str2 = (if flag then str2 - k else str2);
          if m str1 = 0 then Some 0 else strstr m (str1 + 1) str2 } }
      else Some 0)"

definition num_step :: "int \<Rightarrow> byte \<Rightarrow> int option" where
  \<comment> \<open>\<open>ret*10 + *number -'0'\<close>\<close>
  "num_step ret c =
     (if int_range (ret * 10) \<and> int_range (ret * 10 + sint c) \<and> int_range (ret * 10 + sint c - 48)
      then Some (ret * 10 + sint c - 48) else None)"

partial_function (option) stringToNumLoop :: "cmem \<Rightarrow> addr \<Rightarrow> int \<Rightarrow> int option" where
  "stringToNumLoop m p ret =
     (if m p \<noteq> 0 then do { ret \<leftarrow> num_step ret (m p); stringToNumLoop m (p + 1) ret } else Some ret)"

definition stringToNum :: "cmem \<Rightarrow> addr \<Rightarrow> int option" where
  "stringToNum m p = stringToNumLoop m p 0"

subsection \<open>Lengths and searches\<close>

lemma strlenLoop_eq: "cstring m p xs \<Longrightarrow> strlenLoop m p k = Some (k + length xs)"
  by (induction xs arbitrary: p k) (subst strlenLoop.simps, simp add: cstring_Nil cstring_Cons)+

lemma strlen_eq: "cstring m p xs \<Longrightarrow> strlen m p = Some (length xs)"
  by (simp add: strlen_def strlenLoop_eq)

fun index_of :: "byte \<Rightarrow> byte list \<Rightarrow> nat option" where
  "index_of s [] = None"
| "index_of s (x # xs) = (if x = s then Some 0 else map_option Suc (index_of s xs))"

lemma strpbrkLoop_eq:
  "cstring m (p + i) xs \<Longrightarrow> strpbrkLoop m p s i = Some (case index_of s xs of None \<Rightarrow> - 1 | Some j \<Rightarrow> int (i + j))"
proof (induction xs arbitrary: i)
  case Nil
  then show ?case by (subst strpbrkLoop.simps) (simp add: cstring_Nil)
next
  case (Cons x xs)
  then show ?case
    by (subst strpbrkLoop.simps) (auto simp: cstring_Cons split: option.splits)
qed

subsection \<open>Copies\<close>

text \<open>What a copy of \<open>xs\<close> to \<open>d\<close> leaves.\<close>

definition put_list :: "addr \<Rightarrow> byte list \<Rightarrow> cmem \<Rightarrow> cmem" where
  "put_list d xs m = (\<lambda>a. if d \<le> a \<and> a < d + length xs then xs ! (a - d) else m a)"

lemma put_list_Nil [simp]: "put_list d [] m = m"
  by (auto simp: put_list_def fun_eq_iff)

lemma put_list_Cons: "put_list d (x # xs) m = put_list (d + 1) xs (m(d := x))"
proof
  fix a
  have "(x # xs) ! (a - d) = xs ! (a - Suc d)" if "Suc d \<le> a"
    using that by (metis Suc_diff_Suc Suc_le_lessD nth_Cons_Suc)
  then show "put_list d (x # xs) m a = put_list (d + 1) xs (m(d := x)) a"
    by (auto simp: put_list_def)
qed

lemma put_list_mem [simp]: "mem_list (put_list d xs m) d xs"
  by (simp add: put_list_def mem_list_def)

lemma put_list_out: "a < d \<or> d + length xs \<le> a \<Longrightarrow> put_list d xs m a = m a"
  by (auto simp: put_list_def)

lemma put_list_cstring: "0 \<notin> set xs \<Longrightarrow> cstring (put_list d (xs @ [0]) m) d xs"
  using put_list_mem [of d "xs @ [0]" m] by (simp add: cstring_def mem_list_append mem_list_Cons)

lemma put_list_snoc: "(put_list d xs m)(d + length xs := x) = put_list d (xs @ [x]) m"
  by (auto simp: put_list_def fun_eq_iff nth_append)

lemma cstring_upd: "d \<noteq> q \<Longrightarrow> d < q \<or> q + length xs < d \<Longrightarrow> cstring (m(d := x)) q xs = cstring m q xs"
  by (rule cstring_cong) auto

lemma strcpy_eq:
  "cstring m src xs \<Longrightarrow> dest \<le> src \<or> src + length xs < dest \<Longrightarrow>
     strcpy dest src m = Some (put_list dest (xs @ [0]) m)"
proof (induction xs arbitrary: dest src m)
  case Nil
  then show ?case by (subst strcpy.simps) (simp add: cstring_Nil put_list_Cons)
next
  case (Cons x xs)
  note x = Cons.prems(1) [unfolded cstring_Cons]
  have "cstring (m(dest := x)) (src + 1) xs"
    using Cons.prems by (subst cstring_upd) (auto simp: cstring_Cons)
  then have "strcpy (dest + 1) (src + 1) (m(dest := x)) = Some (put_list (dest + 1) (xs @ [0]) (m(dest := x)))"
    by (rule Cons.IH) (use Cons.prems(2) in auto)
  then show ?case using x by (subst strcpy.simps) (simp add: put_list_Cons)
qed

lemma strcatLoop_eq:
  "cstring m q ys \<Longrightarrow> p + k \<le> q \<or> q + length ys < p + k \<Longrightarrow>
     strcatLoop p q k m = Some (k + length ys, put_list (p + k) ys m)"
proof (induction ys arbitrary: q k m)
  case Nil
  then show ?case by (subst strcatLoop.simps) (simp add: cstring_Nil)
next
  case (Cons y ys)
  note y = Cons.prems(1) [unfolded cstring_Cons]
  have "cstring (m(p + k := y)) (q + 1) ys"
    using Cons.prems by (subst cstring_upd) (auto simp: cstring_Cons)
  then have "strcatLoop p (q + 1) (k + 1) (m(p + k := y)) =
      Some (k + 1 + length ys, put_list (p + (k + 1)) ys (m(p + k := y)))"
    by (rule Cons.IH) (use Cons.prems(2) in auto)
  then show ?case using y by (subst strcatLoop.simps) (simp add: put_list_Cons)
qed

lemma strcat_eq:
  assumes "cstring m p xs" and "cstring m q ys" and "p + length xs \<le> q \<or> q + length ys < p + length xs"
  shows "strcat p q m = Some (p, put_list (p + length xs) (ys @ [0]) m)"
  using assms by (simp add: strcat_def strlen_eq strcatLoop_eq put_list_snoc add.assoc [symmetric] del: fun_upd_apply)

text \<open>How many characters a bounded copy of \<open>k\<close> characters takes; a negative bound is none for \<open>strncpy\<close>.\<close>

lemma strncpy_eq:
  "cstring m src xs \<Longrightarrow> dest \<le> src \<or> src + length xs < dest \<Longrightarrow> 
     strncpy dest src n m = Some (put_list dest (take (if n < 0 then length xs else nat n) xs @ [0]) m)"
proof (induction xs arbitrary: dest src m n)
  case Nil
  then show ?case by (subst strncpy.simps) (simp add: cstring_Nil put_list_Cons)
next
  case (Cons x xs)
  show ?case
  proof (cases "n = 0")
    case True
    then show ?thesis by (subst strncpy.simps) (simp add: put_list_Cons)
  next
    case False
    have "cstring (m(dest := x)) (src + 1) xs"
      using Cons.prems by (subst cstring_upd) (auto simp: cstring_Cons)
    then have ih: "strncpy (dest + 1) (src + 1) (n - 1) (m(dest := x)) =
        Some (put_list (dest + 1) (take (if n - 1 < 0 then length xs else nat (n - 1)) xs @ [0]) (m(dest := x)))"
      by (rule Cons.IH) (use Cons.prems(2) in auto)
    have "take (if n < 0 then length (x # xs) else nat n) (x # xs) =
        x # take (if n - 1 < 0 then length xs else nat (n - 1)) xs"
    proof (cases "n < 0")
      case True
      then show ?thesis by simp
    next
      case False
      then have "nat n = Suc (nat (n - 1))" using \<open>n \<noteq> 0\<close> by simp
      then show ?thesis using False \<open>n \<noteq> 0\<close> by simp
    qed
    then show ?thesis
      using ih Cons.prems(1) [unfolded cstring_Cons] False by (subst strncpy.simps) (simp add: put_list_Cons)
  qed
qed

lemma strncatLoop_eq:
  "cstring m (q + i) ys \<Longrightarrow> p + k \<le> q + i \<or> q + i + length ys < p + k \<Longrightarrow>
     strncatLoop p q n k i m = Some (k + length (take (nat (n - int i)) ys), put_list (p + k) (take (nat (n - int i)) ys) m)"
proof (induction ys arbitrary: i k m)
  case Nil
  then show ?case by (subst strncatLoop.simps) (simp add: cstring_Nil)
next
  case (Cons y ys)
  show ?case
  proof (cases "int i < n")
    case True
    note y = Cons.prems(1) [unfolded cstring_Cons]
    define j where "j = nat (n - int (i + 1))"
    have "cstring (m(p + k := y)) (q + (i + 1)) ys"
      using Cons.prems by (subst cstring_upd) (auto simp: cstring_Cons)
    then have "strncatLoop p q n (k + 1) (i + 1) (m(p + k := y)) =
        Some (k + 1 + length (take j ys), put_list (p + (k + 1)) (take j ys) (m(p + k := y)))"
      unfolding j_def by (rule Cons.IH) (use Cons.prems(2) in auto)
    moreover have "nat (n - int i) = Suc j" using True by (simp add: j_def)
    ultimately show ?thesis
      using y True by (subst strncatLoop.simps) (simp add: put_list_Cons)
  next
    case False
    then show ?thesis by (subst strncatLoop.simps) simp
  qed
qed

lemma strncat_eq:
  assumes "cstring m p xs" and "cstring m q ys" and "p + length xs \<le> q \<or> q + length ys < p + length xs"
  shows "strncat p q n m = Some (p, put_list (p + length xs) (take (nat n) ys @ [0]) m)"
  using assms strncatLoop_eq [of m q 0 ys p "length xs" n]
  by (simp add: strncat_def strlen_eq put_list_snoc [of _ "take (nat n) ys", simplified] add.assoc [symmetric] del: fun_upd_apply)

lemma put_list_append_cstring:
  "cstring m p xs \<Longrightarrow> 0 \<notin> set ys \<Longrightarrow> cstring (put_list (p + length xs) (ys @ [0]) m) p (xs @ ys)"
proof -
  assume xs: "cstring m p xs" and ys: "0 \<notin> set ys"
  have "mem_list (put_list (p + length xs) (ys @ [0]) m) p xs"
    using xs by (simp add: mem_list_def cstring_def put_list_out)
  then show ?thesis
    using xs put_list_cstring [OF ys, of "p + length xs" m] by (simp add: cstring_def mem_list_append add.assoc)
qed

subsection \<open>Comparison and search of a string\<close>

fun first_difference :: "byte list \<Rightarrow> byte list \<Rightarrow> int" where
  "first_difference [] [] = 0"
| "first_difference [] (y # ys) = - sint y"
| "first_difference (x # xs) [] = sint x"
| "first_difference (x # xs) (y # ys) = (if x = y then first_difference xs ys else sint x - sint y)"

lemma strcmp_eq: "cstring m p xs \<Longrightarrow> cstring m q ys \<Longrightarrow> strcmp m p q = Some (first_difference xs ys)"
proof (induction xs ys arbitrary: p q rule: first_difference.induct)
  case (4 x xs y ys)
  then show ?case by (subst strcmp.simps) (auto simp: cstring_Cons)
qed (subst strcmp.simps, auto simp: cstring_Nil cstring_Cons)+

lemma first_difference_0: "0 \<notin> set xs \<Longrightarrow> 0 \<notin> set ys \<Longrightarrow> first_difference xs ys = 0 \<longleftrightarrow> xs = ys"
proof (induction xs ys rule: first_difference.induct)
  case (2 y ys)
  then show ?case by (metis first_difference.simps(2) list.set_intros(1) list.simps(3) minus_equation_iff
        minus_zero signed_0 signed_word_eqI)
next
  case (3 x xs)
  then show ?case by (metis first_difference.simps(3) list.set_intros(1) list.simps(3) signed_0 signed_word_eqI)
next
  case (4 x xs y ys)
  then show ?case by (auto dest: signed_word_eqI)
qed simp

lemma sint_ascii: "c < 128 \<Longrightarrow> sint (c :: byte) = uint c"
proof -
  assume "c < 128"
  then have "uint c < 128" by (simp add: word_less_def)
  moreover have "sint c = signed_take_bit 7 (uint c)" by (simp add: sint_uint)
  moreover have "0 \<le> uint c" by simp
  ultimately show ?thesis by (simp add: signed_take_bit_int_eq_self del: unsigned_greater_eq)
qed

lemma first_difference_less:
  assumes "\<forall>c \<in> set xs \<union> set ys. 0 < c \<and> c < 128"
  shows "first_difference xs ys < 0 \<longleftrightarrow> (xs, ys) \<in> lexord {(a, b). a < b}"
  using assms
proof (induction xs ys rule: first_difference.induct)
  case (4 x xs y ys)
  then show ?case by (auto simp: sint_ascii word_less_def)
qed (auto simp: sint_ascii word_less_def)

lemma matchLoop_eq:
  assumes "cstring m p xs" and "cstring m q ys"
  shows "matchLoop m p q k flag = (let n = length (longest_common_prefix xs ys)
     in Some (p + n, q + n, k + n, flag \<or> 0 < n))"
  using assms
proof (induction xs ys arbitrary: p q k flag rule: longest_common_prefix.induct)
  case (1 x xs y ys)
  then show ?case by (subst matchLoop.simps) (auto simp: cstring_Cons Let_def)
qed (subst matchLoop.simps, auto simp: cstring_Nil cstring_Cons Let_def)+

lemma cstring_drop: "cstring m p xs \<Longrightarrow> n \<le> length xs \<Longrightarrow> cstring m (p + n) (drop n xs)"
  by (metis append_take_drop_id cstring_append length_take min.absorb2)

lemma cstring_at: "cstring m p xs \<Longrightarrow> n \<le> length xs \<Longrightarrow> m (p + n) = 0 \<longleftrightarrow> n = length xs"
  by (cases "n = length xs") (auto simp: cstring_def mem_list_def in_set_conv_nth)

fun strstr_list :: "nat \<Rightarrow> byte list \<Rightarrow> byte list \<Rightarrow> bool" where
  \<comment> \<open>what \<open>strstr\<close> decides: after a common prefix that is not all of \<open>ys\<close> it goes on behind the
    character that differs\<close>
  "strstr_list 0 xs ys = False"
| "strstr_list (Suc k) xs ys =
     (xs \<noteq> [] \<and> (let n = length (longest_common_prefix xs ys)
        in n = length ys \<or> n < length xs \<and> strstr_list k (drop (n + 1) xs) ys))"

lemma lcp_le: "length (longest_common_prefix xs ys) \<le> length xs" "length (longest_common_prefix xs ys) \<le> length ys"
  by (induction xs ys rule: longest_common_prefix.induct) auto

lemma strstr_eq:
  assumes "cstring m p xs" and "cstring m q ys" and "length xs \<le> k"
  shows "strstr m p q = Some (of_bool (strstr_list k xs ys))"
  using assms
proof (induction k arbitrary: p xs)
  case 0
  then show ?case by (subst strstr.simps) (simp add: cstring_Nil)
next
  case (Suc k)
  define n where "n = length (longest_common_prefix xs ys)"
  have n: "n \<le> length xs" "n \<le> length ys" by (simp_all add: n_def lcp_le)
  show ?case
  proof (cases "xs = []")
    case True
    then show ?thesis using Suc.prems by (subst strstr.simps) (simp add: cstring_Nil)
  next
    case False
    then have first: "m p \<noteq> 0" using cstring_at [OF Suc.prems(1), of 0] by simp
    have loop: "matchLoop m p q 0 False = Some (p + n, q + n, n, 0 < n)"
      using matchLoop_eq [OF Suc.prems(1,2), of 0 False] by (simp add: n_def Let_def)
    have start: "(if 0 < n then q + n - n else q + n) = q" by simp
    have rest: "strstr m (p + n + 1) q = Some (of_bool (strstr_list k (drop (n + 1) xs) ys))" if "n < length xs"
      using Suc.IH [of "p + (n + 1)" "drop (n + 1) xs"] cstring_drop [OF Suc.prems(1), of "n + 1"] Suc.prems(2,3) that
      by (simp add: add.assoc)
    show ?thesis
      using first loop rest cstring_at [OF Suc.prems(1) n(1)] cstring_at [OF Suc.prems(2) n(2)] n(1) False
      by (subst strstr.simps) (auto simp: n_def [symmetric] Let_def)
  qed
qed

lemma strstr_list_sound: "strstr_list k xs ys \<Longrightarrow> sublist ys xs"
proof (induction k arbitrary: xs)
  case (Suc k)
  define n where "n = length (longest_common_prefix xs ys)"
  consider "n = length ys" | "strstr_list k (drop (n + 1) xs) ys"
    using Suc.prems by (auto simp: n_def Let_def)
  then show ?case
  proof cases
    case 1
    then have "longest_common_prefix xs ys = ys"
      using longest_common_prefix_prefix2 [of xs ys] by (metis n_def prefix_length_prefix prefix_order.eq_iff order_refl)
    then show ?thesis using longest_common_prefix_prefix1 [of xs ys] by (simp add: prefix_imp_sublist)
  next
    case 2
    have "sublist (drop (n + 1) xs) xs" by simp
    then show ?thesis using Suc.IH [OF 2] sublist_order.order.trans by blast
  qed
qed simp

lemma strstr_list_prefix: "prefix ys xs \<Longrightarrow> xs \<noteq> [] \<Longrightarrow> strstr_list (Suc k) xs ys"
proof -
  assume p: "prefix ys xs" "xs \<noteq> []"
  then have "prefix ys (longest_common_prefix xs ys)" by (simp add: longest_common_prefix_max_prefix)
  then have "length (longest_common_prefix xs ys) = length ys"
    using lcp_le(2) [of xs ys] by (meson le_antisym prefix_length_le)
  then show ?thesis using p(2) by simp
qed

lemma strstr_list_char: "length xs \<le> k \<Longrightarrow> strstr_list k xs [c] \<longleftrightarrow> c \<in> set xs"
proof (induction k arbitrary: xs)
  case (Suc k)
  then show ?case by (cases xs) (auto simp: Let_def)
qed simp

subsection \<open>Reversal\<close>

lemma strrevLoop_eq:
  "strrevLoop medio i str m =
     (\<lambda>a. if str + i \<le> a \<and> a + i \<le> str + 2 * medio then m (str + (2 * medio - (a - str))) else m a)"
proof (induction medio i str m rule: strrevLoop.induct)
  case (1 medio i str m)
  show ?case
  proof (cases "i < medio")
    case False
    have mid: "str + (2 * medio - (a - str)) = a" if "str + i \<le> a" "a + i \<le> str + 2 * medio" for a
      using that False by linarith
    have "strrevLoop medio i str m = m" using False by (subst strrevLoop.simps) simp
    then show ?thesis by (simp only: fun_eq_iff) (metis mid)
  next
    case True
    define m' where "m' = m(str + i := m (str + (2 * medio - i)), str + (2 * medio - i) := m (str + i))"
    have s: "strrevLoop medio i str m = strrevLoop medio (i + 1) str m'"
      using True by (subst strrevLoop.simps) (simp add: m'_def Let_def)
    note ih = "1.IH" [OF True refl refl refl, folded m'_def]
    show ?thesis
    proof
      fix a
      consider "a < str + i \<or> str + 2 * medio < a + i" | "a = str + i" | "a = str + (2 * medio - i)"
        | "str + (i + 1) \<le> a" "a + (i + 1) \<le> str + 2 * medio" using True by linarith
      then show "strrevLoop medio i str m a = (if str + i \<le> a \<and> a + i \<le> str + 2 * medio
          then m (str + (2 * medio - (a - str))) else m a)"
        unfolding s ih using True by cases (auto simp: m'_def)
    qed
  qed
qed

lemma strrev_eq:
  assumes "cstring m p xs"
  shows "\<exists>m'. strrev p m = Some (p, m') \<and> cstring m' p (if odd (length xs) then rev xs else [])
    \<and> (\<forall>a. a < p \<or> p + length xs < a \<longrightarrow> m' a = m a)"
proof -
  define n where "n = length xs div 2"
  define m' where "m' = strrevLoop n 0 p m"
  have m': "m' a = (if p \<le> a \<and> a \<le> p + 2 * n then m (p + (2 * n - (a - p))) else m a)" for a
    by (simp add: m'_def strrevLoop_eq)
  have run: "strrev p m = Some (p, m')" by (simp add: strrev_def strlen_eq [OF assms] m'_def n_def)
  have nth: "m (p + i) = xs ! i" if "i < length xs" for i using assms that by (simp add: cstring_def mem_list_def)
  have "cstring m' p (if odd (length xs) then rev xs else [])"
  proof (cases "odd (length xs)")
    case True
    then have l: "length xs = 2 * n + 1" by (simp add: n_def)
    have "m' (p + i) = rev xs ! i" if "i < length xs" for i
      using that l nth [of "2 * n - i"] by (auto simp: m' rev_nth)
    moreover have "m' (p + length xs) = 0" using assms l by (simp add: m' cstring_def)
    ultimately show ?thesis using assms True by (simp add: cstring_def mem_list_def)
  next
    case False
    then have "length xs = 2 * n" by (simp add: n_def)
    then show ?thesis using assms False by (simp add: cstring_Nil m' cstring_def)
  qed
  moreover have "m' a = m a" if "a < p \<or> p + length xs < a" for a
    using that by (auto simp: m' n_def)
  ultimately show ?thesis using run by blast
qed

subsection \<open>Decimal text\<close>

definition dec_value :: "int \<Rightarrow> nat list \<Rightarrow> int" where
  "dec_value v ds = fold (\<lambda>d v. v * 10 + int d) ds v"

lemma dec_value_ge: "0 \<le> v \<Longrightarrow> v \<le> dec_value v ds"
proof (induction ds arbitrary: v)
  case (Cons d ds)
  then have "v * 10 + int d \<le> dec_value (v * 10 + int d) ds" by (intro Cons.IH) simp
  then show ?case using Cons.prems by (simp add: dec_value_def)
qed (simp add: dec_value_def)

lemma sint_digit_char: "d < 10 \<Longrightarrow> sint (digit d) = int d + 48"
proof -
  assume d: "d < 10"
  then have u: "uint (digit d) = int d + 48"
    by (simp add: digit_def unsigned_of_nat take_bit_nat_eq_self del: of_nat_add)
  then have "digit d < 128" using d by (simp add: word_less_def)
  then show ?thesis using u by (simp add: sint_ascii)
qed

lemma num_step_digit:
  assumes "d < 10" and "0 \<le> v" and "v + 48 < 2 ^ 31"
  shows "num_step v (digit d) = (if v * 10 + int d + 48 < 2 ^ 31 then Some (v * 10 + int d) else None)"
  using assms by (auto simp: num_step_def int_range_def sint_digit_char)

lemma stringToNumLoop_eq:
  assumes "cstring m p (map digit ds)" and "\<forall>d \<in> set ds. d < 10" and "0 \<le> v" and "v + 48 < 2 ^ 31"
  shows "stringToNumLoop m p v = (if dec_value v ds + 48 < 2 ^ 31 then Some (dec_value v ds) else None)"
  using assms
proof (induction ds arbitrary: p v)
  case Nil
  then show ?case by (subst stringToNumLoop.simps) (simp add: cstring_Nil dec_value_def)
next
  case (Cons d ds)
  define w where "w = v * 10 + int d"
  have d: "m p = digit d" "digit d \<noteq> 0" "d < 10" using Cons.prems(1,2) by (auto simp: cstring_Cons)
  have step: "dec_value v (d # ds) = dec_value w ds" by (simp add: dec_value_def w_def)
  have num: "num_step v (digit d) = (if w + 48 < 2 ^ 31 then Some w else None)"
    using num_step_digit [OF d(3) Cons.prems(3,4)] by (simp add: w_def)
  show ?case
  proof (cases "w + 48 < 2 ^ 31")
    case True
    then have "stringToNumLoop m p v = stringToNumLoop m (p + 1) w"
      using d num by (subst stringToNumLoop.simps) simp
    also have "\<dots> = (if dec_value w ds + 48 < 2 ^ 31 then Some (dec_value w ds) else None)"
      using Cons.prems True by (intro Cons.IH) (auto simp: cstring_Cons w_def)
    finally show ?thesis by (simp only: step)
  next
    case False
    then have "stringToNumLoop m p v = None" using d num by (subst stringToNumLoop.simps) simp
    moreover have "\<not> dec_value w ds + 48 < 2 ^ 31"
      using dec_value_ge [of w ds] False Cons.prems(3) by (simp add: w_def)
    ultimately show ?thesis by (simp only: step if_False)
  qed
qed

end
