(* ===== verification/UStdio.thy ===== *)
theory UStdio
  imports UString VideoDriver
begin

section \<open>Standard input and output of the user programs (\<open>Userland/SampleCodeModule/stdio.c\<close>)\<close>

text \<open>
  The library reaches the kernel through \<open>write(1, str, n)\<close> and \<open>read(1, &c, 1)\<close> only; a program's
  system calls are the record \<open>stdio_calls\<close>, whose state is whatever the calls act on.  A string is the
  list of its characters, without the null character.  \<open>None\<close>: the program leaves an array, overflows an
  \<open>int\<close> or waits for a key that nobody types.
\<close>

subsection \<open>Definitions\<close>

record 's stdio_calls =
  write1 :: "byte list \<Rightarrow> 's \<Rightarrow> (int \<times> 's) option"
  read1 :: "'s \<Rightarrow> (byte \<times> 's) option"

definition putchar :: "'s stdio_calls \<Rightarrow> byte \<Rightarrow> 's \<Rightarrow> (int \<times> 's) option" where
  "putchar io c s = write1 io [c] s"

definition putc :: "'s stdio_calls \<Rightarrow> byte \<Rightarrow> 's \<Rightarrow> 's option" where
  \<comment> \<open>a call of \<open>putchar\<close> whose result is not used\<close>
  "putc io c s = do { (_, s) \<leftarrow> putchar io c s; Some s }"

definition printString :: "'s stdio_calls \<Rightarrow> byte list \<Rightarrow> 's \<Rightarrow> (int \<times> 's) option" where
  "printString io str s = write1 io str s"

definition puts :: "'s stdio_calls \<Rightarrow> byte list \<Rightarrow> 's \<Rightarrow> (int \<times> 's) option" where
  "puts io str s = do {
     (ans, s) \<leftarrow> printString io str s;
     (k, s) \<leftarrow> putchar io 10 s;
     Some (ans + k, s) }"

function numDigits :: "int \<Rightarrow> int list \<Rightarrow> int list" where
  \<comment> \<open>\<open>for (i=0;num!=0;i++) { buffer[i]=num%10; num=num/10; }\<close>, the elements stored so far\<close>
  "numDigits num buf = (if num \<noteq> 0 then numDigits (num sdiv 10) (buf @ [num smod 10]) else buf)"
  by auto
termination by (relation "measure (\<lambda>(n, _). nat \<bar>n\<bar>)") (simp_all add: sdiv_ten_less)

declare numDigits.simps [simp del]

fun putDigits :: "'s stdio_calls \<Rightarrow> int list \<Rightarrow> nat \<Rightarrow> 's \<Rightarrow> 's option" where
  \<comment> \<open>\<open>while(i) putchar(buffer[--i]+'0');\<close>\<close>
  "putDigits io buf 0 s = Some s"
| "putDigits io buf (Suc i) s = do { s \<leftarrow> putc io (word_of_int (buf ! i + 48)) s; putDigits io buf i s }"

definition putNum :: "'s stdio_calls \<Rightarrow> int \<Rightarrow> 's \<Rightarrow> 's option" where
  "putNum io num s =
     (if num = 0 then putc io 48 s
      else do {
        (num, s) \<leftarrow> (if num < 0 then do { s \<leftarrow> putc io 45 s; if int_range (num * -1) then Some (num * -1, s) else None }
                     else Some (num, s));
        let buf = numDigits num [];
        putDigits io buf (length buf) s })"

definition isDigit :: "byte \<Rightarrow> bool" where
  "isDigit c \<longleftrightarrow> 48 \<le> sint c \<and> sint c \<le> 57"

text \<open>The characters pushed back by \<open>ungetc\<close>, the one that \<open>getchar\<close> takes next first; there is room for 100.\<close>

definition getchar :: "'s stdio_calls \<Rightarrow> byte list \<Rightarrow> 's \<Rightarrow> (byte \<times> byte list \<times> 's) option" where
  "getchar io pushed s =
     (case pushed of c # pushed \<Rightarrow> Some (c, pushed, s)
      | [] \<Rightarrow> do { (c, s) \<leftarrow> read1 io s; Some (c, [], s) })"

definition ungetc :: "byte \<Rightarrow> byte list \<Rightarrow> byte list option" where
  "ungetc c pushed = (if length pushed < 100 then Some (c # pushed) else None)"

subsection \<open>\<open>printf\<close>\<close>

datatype vararg = Str "byte list" | Num int

definition fchar :: "byte list \<Rightarrow> nat \<Rightarrow> byte option" where
  \<comment> \<open>\<open>format[i]\<close>\<close>
  "fchar fmt i = (if i < length fmt then Some (fmt ! i) else if i = length fmt then Some 0 else None)"

fun next_str :: "vararg list \<Rightarrow> (byte list \<times> vararg list) option" where
  \<comment> \<open>\<open>va_arg(parameters, char *)\<close>\<close>
  "next_str (Str w # args) = Some (w, args)"
| "next_str _ = None"

fun next_int :: "vararg list \<Rightarrow> (int \<times> vararg list) option" where
  "next_int (Num n # args) = Some (n, args)"
| "next_int _ = None"

partial_function (option) litLoop :: "'s stdio_calls \<Rightarrow> byte list \<Rightarrow> nat \<Rightarrow> 's \<Rightarrow> (nat \<times> 's) option" where
  "litLoop io fmt i s = do {
     c \<leftarrow> fchar fmt i;
     if c \<noteq> 0 \<and> c \<noteq> 37 then do { s \<leftarrow> putc io c s; litLoop io fmt (i + 1) s } else Some (i, s) }"

partial_function (option) marginLoop :: "byte list \<Rightarrow> nat \<Rightarrow> nat \<Rightarrow> int \<Rightarrow> (nat \<times> nat \<times> int) option" where
  "marginLoop fmt i j margen = do {
     c \<leftarrow> fchar fmt i;
     if isDigit c then do {
       margen \<leftarrow> num_step margen c;
       marginLoop fmt (i + 1) (j + 1) margen }
     else Some (i, j, margen) }"

partial_function (option) padLoop :: "'s stdio_calls \<Rightarrow> int \<Rightarrow> 's \<Rightarrow> 's option" where
  \<comment> \<open>\<open>while(margen){ putchar(' '); margen--; }\<close>\<close>
  "padLoop io margen s = (if margen \<noteq> 0 then do { s \<leftarrow> putc io 32 s; padLoop io (margen - 1) s } else Some s)"

definition pad :: "'s stdio_calls \<Rightarrow> nat \<Rightarrow> int \<Rightarrow> 's \<Rightarrow> 's option" where
  "pad io k margen s = (if int k < margen then padLoop io (margen - int k) s else Some s)"

definition directive :: "'s stdio_calls \<Rightarrow> byte list \<Rightarrow> nat \<Rightarrow> vararg list \<Rightarrow> 's \<Rightarrow> (nat \<times> vararg list \<times> 's) option" where
  \<comment> \<open>after a \<open>%\<close>; \<open>i\<close> is the index behind it, and the index of the last character used is returned
    (115 is \<open>s\<close>, 99 \<open>c\<close>, 100 \<open>d\<close> and 105 \<open>i\<close>)\<close>
  "directive io fmt i args s = do {
     c \<leftarrow> fchar fmt i;
     if c = 115 then do {
       (w, args) \<leftarrow> next_str args;
       (_, s) \<leftarrow> printString io w s;
       Some (i, args, s) }
     else if c = 99 then do {
       (n, args) \<leftarrow> next_int args;
       s \<leftarrow> putc io (word_of_int n) s;
       Some (i, args, s) }
     else if c = 100 \<or> c = 105 then do {
       (n, args) \<leftarrow> next_int args;
       s \<leftarrow> putNum io n s;
       Some (i, args, s) }
     else if isDigit c then do {
       (i, j, margen) \<leftarrow> marginLoop fmt i 0 0;
       c \<leftarrow> fchar fmt i;
       if c = 115 then do {
         (word, args) \<leftarrow> next_str args;
         s \<leftarrow> pad io (length word) margen s;
         (_, s) \<leftarrow> printString io word s;
         Some (i, args, s) }
       else if c = 100 \<or> c = 105 then do {
         (number, args) \<leftarrow> next_int args;
         s \<leftarrow> pad io (intLength number) margen s;
         s \<leftarrow> putNum io number s;
         Some (i, args, s) }
       else if c = 99 then do {
         s \<leftarrow> padLoop io (margen - 1) s;
         (n, args) \<leftarrow> next_int args;
         s \<leftarrow> putc io (word_of_int n) s;
         Some (i, args, s) }
       else Some (i - j, args, s) }
     else do {
       s \<leftarrow> putc io 37 s;
       s \<leftarrow> putc io c s;
       Some (i, args, s) } }"

partial_function (option) printfLoop :: "'s stdio_calls \<Rightarrow> byte list \<Rightarrow> nat \<Rightarrow> vararg list \<Rightarrow> 's \<Rightarrow> 's option" where
  "printfLoop io fmt i args s = do {
     c \<leftarrow> fchar fmt i;
     if c \<noteq> 0 then do {
       (i, s) \<leftarrow> litLoop io fmt i s;
       c \<leftarrow> fchar fmt i;
       if c = 0 then Some s
       else if c = 37 then do {
         (i, args, s) \<leftarrow> directive io fmt (i + 1) args s;
         printfLoop io fmt (i + 1) args s }
       else printfLoop io fmt (i + 1) args s }
     else Some s }"

definition printf :: "'s stdio_calls \<Rightarrow> byte list \<Rightarrow> vararg list \<Rightarrow> 's \<Rightarrow> 's option" where
  "printf io fmt args s = printfLoop io fmt 0 args s"

subsection \<open>Reading lines\<close>

partial_function (option) getlineLoop :: "'s stdio_calls \<Rightarrow> nat \<Rightarrow> byte list \<Rightarrow> byte list \<Rightarrow> 's \<Rightarrow>
    (nat \<times> byte list \<times> byte list \<times> 's) option" where
  "getlineLoop io i buf pushed s = do {
     (c, pushed, s) \<leftarrow> getchar io pushed s;
     if c \<noteq> 10 then
       if c \<noteq> 8 then
         if i < length buf then getlineLoop io (i + 1) (buf[i := c]) pushed s else None
       else getlineLoop io (if i \<noteq> 0 then i - 1 else i) buf pushed s
     else Some (i, buf, pushed, s) }"

definition getline :: "'s stdio_calls \<Rightarrow> byte list \<Rightarrow> byte list \<Rightarrow> 's \<Rightarrow> (byte list \<times> byte list \<times> 's) option" where
  "getline io buf pushed s = do {
     (i, buf, pushed, s) \<leftarrow> getlineLoop io 0 buf pushed s;
     s \<leftarrow> putc io 10 s;
     if i < length buf then Some (buf[i := 0], pushed, s) else None }"

fun startsWith :: "byte list \<Rightarrow> byte list \<Rightarrow> bool" where
  "startsWith [] str2 = True"
| "startsWith (c # str1) str2 = (case str2 of [] \<Rightarrow> False | d # str2 \<Rightarrow> c = d \<and> startsWith str1 str2)"

subsection \<open>\<open>scanf\<close>\<close>

text \<open>
  The buffer of 1000 characters is not initialised.  Of the pointers that are passed the values stored
  through them are returned.  \<open>*buffer\<close>, which the code tests, is the first character of the line.
\<close>

datatype scanned = Got_int int | Got_str "byte list" | Got_chr byte

definition bchar :: "byte list \<Rightarrow> nat \<Rightarrow> byte option" where
  "bchar buf j = (if j < length buf then Some (buf ! j) else None)"

partial_function (option) scanLit :: "byte list \<Rightarrow> byte list \<Rightarrow> nat \<Rightarrow> nat \<Rightarrow> (nat \<times> nat) option" where
  "scanLit fmt buf i j = do {
     c \<leftarrow> fchar fmt i;
     if c \<noteq> 0 \<and> c \<noteq> 37 then do {
       b \<leftarrow> bchar buf j;
       if b \<noteq> 10 then scanLit fmt buf (i + 1) (j + 1) else Some (i, j + 1) }
     else Some (i, j) }"

partial_function (option) skipSpaces :: "byte list \<Rightarrow> nat \<Rightarrow> nat option" where
  \<comment> \<open>\<open>while((buffer[j++]) == ' ');\<close>\<close>
  "skipSpaces buf j = do { b \<leftarrow> bchar buf j; if b = 32 then skipSpaces buf (j + 1) else Some (j + 1) }"

partial_function (option) scanNum :: "byte list \<Rightarrow> nat \<Rightarrow> int \<Rightarrow> (nat \<times> int) option" where
  "scanNum buf j num = do {
     b \<leftarrow> bchar buf j;
     if b \<noteq> 10 \<and> buf ! 0 \<noteq> 32 \<and> isDigit (buf ! 0) then do {
       num \<leftarrow> num_step num (buf ! 0);
       scanNum buf (j + 1) num }
     else Some (j + 1, num) }"

partial_function (option) scanStr :: "byte list \<Rightarrow> nat \<Rightarrow> byte list \<Rightarrow> (nat \<times> byte list) option" where
  "scanStr buf j w = do {
     b \<leftarrow> bchar buf j;
     if b \<noteq> 10 \<and> buf ! 0 \<noteq> 32 then scanStr buf (j + 1) (w @ [buf ! 0]) else Some (j + 1, w) }"

partial_function (option) scanLoop :: "byte list \<Rightarrow> byte list \<Rightarrow> nat \<Rightarrow> nat \<Rightarrow> scanned list \<Rightarrow> scanned list option" where
  "scanLoop fmt buf i j out = do {
     c \<leftarrow> fchar fmt i;
     if c \<noteq> 0 then do {
       (i, j) \<leftarrow> scanLit fmt buf i j;
       c \<leftarrow> fchar fmt i;
       if c = 0 \<or> buf ! 0 = 10 then Some out
       else if c = 37 then do {
         let i = i + 1;
         c \<leftarrow> fchar fmt i;
         if c = 100 \<or> c = 105 then do {
           j \<leftarrow> skipSpaces buf j;
           (j, num) \<leftarrow> scanNum buf (j - 1) 0;
           let out = out @ [Got_int num];
           if \<not> isDigit (buf ! 0) then scanLoop fmt buf (i + 1) (j - 1) out
           else if buf ! 0 = 10 then Some out
           else scanLoop fmt buf (i + 1) j out }
         else if c = 115 then do {
           j \<leftarrow> skipSpaces buf j;
           (j, w) \<leftarrow> scanStr buf (j - 1) [];
           let out = out @ [Got_str w];
           if buf ! 0 = 10 then Some out
           else if buf ! 0 = 32 then scanLoop fmt buf (i + 1) (j - 1) out
           else scanLoop fmt buf (i + 1) j out }
         else if c = 99 then do {
           j \<leftarrow> skipSpaces buf j;
           scanLoop fmt buf (i + 1) j (out @ [Got_chr (buf ! 0)]) }
         else scanLoop fmt buf (i + 1) j out }
       else scanLoop fmt buf (i + 1) j out }
     else Some out }"

definition scanf :: "'s stdio_calls \<Rightarrow> byte list \<Rightarrow> byte list \<Rightarrow> byte list \<Rightarrow> 's \<Rightarrow>
    (scanned list \<times> byte list \<times> 's) option" where
  \<comment> \<open>\<open>u\<close> is what the uninitialised buffer holds\<close>
  "scanf io u fmt pushed s = do {
     (buf, pushed, s) \<leftarrow> getline io (take 1000 u) pushed s;
     out \<leftarrow> scanLoop fmt buf 0 0 [];
     Some (out, pushed, s) }"

subsection \<open>String literals\<close>

definition ctext :: "string \<Rightarrow> byte list" where
  \<comment> \<open>the characters of a literal\<close>
  "ctext s = map of_char s"

definition plain :: "string \<Rightarrow> bool" where
  \<comment> \<open>no null character and no \<open>%\<close>\<close>
  "plain s \<longleftrightarrow> CHR 0x00 \<notin> set s \<and> CHR ''%'' \<notin> set s"

lemma byte_char: "unat (of_char c :: byte) = of_char c"
proof -
  have "(of_char c :: byte) = of_nat (of_char c)" by (simp add: of_nat_of_char)
  then show ?thesis by (simp add: unsigned_of_nat take_bit_nat_eq_self)
qed

lemma byte_char_eq: "(of_char c :: byte) = of_char d \<longleftrightarrow> c = d"
  by (metis byte_char of_char_eq_iff)

lemma ctext_inj [simp]: "ctext s = ctext s' \<longleftrightarrow> s = s'"
  unfolding ctext_def by (rule inj_map_eq_map) (simp add: inj_def byte_char_eq)

lemma ctext_mem: "of_char c \<in> set (ctext s) \<longleftrightarrow> c \<in> set s"
  by (auto simp: ctext_def byte_char_eq)

lemma ctext_plain: "plain s \<Longrightarrow> 0 \<notin> set (ctext s) \<and> 37 \<notin> set (ctext s)"
  using ctext_mem [of "CHR 0x00" s] ctext_mem [of "CHR ''%''" s] by (simp add: plain_def)

lemma length_ctext [simp]: "length (ctext s) = length s"
  by (simp add: ctext_def)

subsection \<open>The text of numbers and formats\<close>

definition dec_text :: "int \<Rightarrow> byte list" where
  "dec_text n = (if n = 0 then [48] else (if n < 0 then [45] else []) @ map digit (digits (nat \<bar>n\<bar>)))"

lemma numDigits_eq: "numDigits (int n) buf = buf @ map int (rev (digits n))"
proof (induction n arbitrary: buf rule: digits.induct)
  case (1 n)
  show ?case
  proof (cases "n = 0")
    case True
    then show ?thesis by (subst numDigits.simps) simp
  next
    case False
    then have "numDigits (int n) buf = numDigits (int (n div 10)) (buf @ [int (n mod 10)])"
      by (subst numDigits.simps) (simp add: sdiv_nat smod_nat)
    then show ?thesis using 1 [OF False] False by (simp add: digits_step [of n])
  qed
qed

lemma digit_int: "(of_nat d + 48 :: byte) = digit d"
  by (simp add: digit_def)

lemma digit_nonzero: "d < 10 \<Longrightarrow> digit d \<noteq> 0"
  using sint_digit_char [of d] by auto

lemma isDigit_digit: "d < 10 \<Longrightarrow> isDigit (digit d)"
  by (simp add: isDigit_def sint_digit_char)

lemma not_isDigit [simp]: "\<not> isDigit 115" "\<not> isDigit 99" "\<not> isDigit 100" "\<not> isDigit 105" "\<not> isDigit 0" "\<not> isDigit 37"
  by (simp_all add: isDigit_def)

lemma digit_not_letter: "d < 10 \<Longrightarrow> digit d \<noteq> 115 \<and> digit d \<noteq> 99 \<and> digit d \<noteq> 100 \<and> digit d \<noteq> 105"
  using isDigit_digit [of d] not_isDigit by metis

text \<open>The pieces of a format, what they stand for and what is printed for them.\<close>

datatype piece = Text "byte list" | PStr "byte list" | PChr byte | PInt int | PadStr nat "byte list" | PadInt nat int

fun fmt_of :: "piece \<Rightarrow> byte list" where
  "fmt_of (Text xs) = xs"
| "fmt_of (PStr w) = [37, 115]"
| "fmt_of (PChr c) = [37, 99]"
| "fmt_of (PInt n) = [37, 100]"
| "fmt_of (PadStr m w) = 37 # map digit (digits m) @ [115]"
| "fmt_of (PadInt m n) = 37 # map digit (digits m) @ [100]"

fun args_of :: "piece \<Rightarrow> vararg list" where
  "args_of (Text xs) = []"
| "args_of (PStr w) = [Str w]"
| "args_of (PChr c) = [Num (uint c)]"
| "args_of (PInt n) = [Num n]"
| "args_of (PadStr m w) = [Str w]"
| "args_of (PadInt m n) = [Num n]"

fun out_of :: "piece \<Rightarrow> byte list" where
  "out_of (Text xs) = xs"
| "out_of (PStr w) = w"
| "out_of (PChr c) = [c]"
| "out_of (PInt n) = dec_text n"
| "out_of (PadStr m w) = replicate (m - length w) 32 @ w"
| "out_of (PadInt m n) = replicate (m - length (digits (nat \<bar>n\<bar>))) 32 @ dec_text n"

definition int_ok :: "int \<Rightarrow> bool" where
  "int_ok n \<longleftrightarrow> - (2 ^ 31) < n \<and> n < 2 ^ 31"

definition str_ok :: "byte list \<Rightarrow> bool" where
  "str_ok w \<longleftrightarrow> 0 \<notin> set w \<and> length w < 2 ^ 31"

fun piece_ok :: "piece \<Rightarrow> bool" where
  "piece_ok (Text xs) = (0 \<notin> set xs \<and> 37 \<notin> set xs)"
| "piece_ok (PStr w) = str_ok w"
| "piece_ok (PChr c) = (c \<noteq> 0)"
| "piece_ok (PInt n) = int_ok n"
| "piece_ok (PadStr m w) = (0 < m \<and> m + 48 < 2 ^ 31 \<and> str_ok w)"
| "piece_ok (PadInt m n) = (0 < m \<and> m + 48 < 2 ^ 31 \<and> int_ok n)"

lemma intLength_abs: "intLength n = length (digits (nat \<bar>n\<bar>))"
proof (cases "0 \<le> n")
  case True
  then show ?thesis using intLength_digits [of "nat n"] by simp
next
  case False
  have neg: "intLengthLoop (- int k) j = intLengthLoop (int k) j" for k j
  proof (induction k arbitrary: j rule: digits.induct)
    case (1 k)
    have "(- int k) sdiv 10 = - int (k div 10)" by (simp add: signed_divide_int_def sgn_if zdiv_int)
    then show ?case using 1
      by (cases "k = 0") (subst (1 2) intLengthLoop.simps, simp add: sdiv_nat)+
  qed
  have "intLength n = intLength (int (nat (- n)))" using neg [of "nat (- n)" 0] False by (simp add: intLength_def)
  then show ?thesis using False by (simp only: intLength_digits) simp
qed

lemma fchar_at: "i < length fmt \<Longrightarrow> fchar fmt i = Some (fmt ! i)"
  by (simp add: fchar_def)

lemma fchar_drop: "drop i fmt = c # rest \<Longrightarrow> fchar fmt i = Some c"
  by (metis drop_eq_Nil fchar_at linorder_not_less list.discI nth_via_drop)

lemma fchar_end: "i \<le> length fmt \<Longrightarrow> drop i fmt = [] \<Longrightarrow> fchar fmt i = Some 0"
  by (simp add: fchar_def)

lemma drop_next: "drop i xs = y # ys \<Longrightarrow> drop (i + 1) xs = ys"
  by (metis Suc_eq_plus1 drop_Suc list.sel(3) tl_drop)

lemma dec_value_digits: "dec_value 0 (digits n) = int n"
proof (induction n rule: digits.induct)
  case (1 n)
  have "int (n div 10) * 10 + int (n mod 10) = int n" by presburger
  then show ?case using 1 by (cases "n = 0") (simp_all add: dec_value_def digits_step [of n])
qed

lemma marginLoop_eq:
  assumes "drop i fmt = map digit ds @ c # rest" and "\<forall>d \<in> set ds. d < 10" and "\<not> isDigit c"
    and "0 \<le> v" and "v + 48 < 2 ^ 31" and "dec_value v ds + 48 < 2 ^ 31"
  shows "marginLoop fmt i j v = Some (i + length ds, j + length ds, dec_value v ds)"
  using assms
proof (induction ds arbitrary: i j v)
  case Nil
  then show ?case by (subst marginLoop.simps) (simp add: fchar_drop dec_value_def)
next
  case (Cons d ds)
  have step: "dec_value v (d # ds) = dec_value (v * 10 + int d) ds" by (simp add: dec_value_def)
  have "v * 10 + int d + 48 < 2 ^ 31"
    using dec_value_ge [of "v * 10 + int d" ds] Cons.prems(4,6) step by simp
  moreover have "fchar fmt i = Some (digit d)" using fchar_drop Cons.prems(1) by simp
  moreover have "drop (i + 1) fmt = map digit ds @ c # rest" using drop_next Cons.prems(1) by simp
  ultimately show ?case
    using Cons.prems Cons.IH [of "i + 1" "v * 10 + int d" "j + 1"] num_step_digit [of d v]
    by (subst marginLoop.simps) (simp add: isDigit_digit step)
qed

lemma printf_text_step:
  assumes "fchar fmt i = Some c" and "c \<noteq> 0" and "c \<noteq> 37"
  shows "printfLoop io fmt i args s = do { s \<leftarrow> putc io c s; printfLoop io fmt (i + 1) args s }"
proof (cases "putc io c s")
  case None
  then show ?thesis using assms by (subst printfLoop.simps, subst litLoop.simps) simp
next
  case (Some r)
  then have lit: "litLoop io fmt i s = litLoop io fmt (i + 1) r" using assms by (subst litLoop.simps) simp
  have "fchar fmt (i + 1) = None \<Longrightarrow> litLoop io fmt (i + 1) r = None"
    and "fchar fmt (i + 1) = Some 0 \<Longrightarrow> litLoop io fmt (i + 1) r = Some (i + 1, r)"
    by (subst litLoop.simps, simp)+
  then show ?thesis using Some assms(1,2)
    by (subst (1 2) printfLoop.simps) (cases "fchar fmt (i + 1)", auto simp: lit)
qed

lemma printf_directive_step:
  assumes "fchar fmt i = Some 37"
  shows "printfLoop io fmt i args s =
    do { (i, args, s) \<leftarrow> directive io fmt (i + 1) args s; printfLoop io fmt (i + 1) args s }"
proof -
  have "litLoop io fmt i s = Some (i, s)" using assms by (subst litLoop.simps) simp
  then show ?thesis using assms by (subst printfLoop.simps) simp
qed

lemma printf_end: "i \<le> length fmt \<Longrightarrow> drop i fmt = [] \<Longrightarrow> printfLoop io fmt i args s = Some s"
  by (subst printfLoop.simps) (simp add: fchar_end)

lemma directive_margin:
  assumes "drop i fmt = map digit (digits m) @ c # rest" and "0 < m" and "m + 48 < 2 ^ 31" and "\<not> isDigit c"
  shows "\<exists>d. fchar fmt i = Some (digit d) \<and> d < 10" and "marginLoop fmt i 0 0 = Some (i + length (digits m), length (digits m), int m)"
    and "fchar fmt (i + length (digits m)) = Some c"
proof -
  obtain d ds where d: "digits m = d # ds" using assms(2) by (cases "digits m") simp_all
  then have "d < 10" using digits_below [of d m] by simp
  moreover have "fchar fmt i = Some (digit d)" using assms(1) d fchar_drop by simp
  ultimately show "\<exists>d. fchar fmt i = Some (digit d) \<and> d < 10" by blast
  show "marginLoop fmt i 0 0 = Some (i + length (digits m), length (digits m), int m)"
    using marginLoop_eq [OF assms(1) _ assms(4), of 0 0] digits_below assms(3) by (simp add: dec_value_digits)
  have "drop (i + length (digits m)) fmt = drop (length (digits m)) (drop i fmt)" by (simp add: add.commute)
  then show "fchar fmt (i + length (digits m)) = Some c" using fchar_drop assms(1) by simp
qed

subsection \<open>The interface of the terminal\<close>

text \<open>
  What the library relies on: a write shows the characters on a terminal, a read takes the next
  character that was typed.  \<open>sees s t q\<close>: in the state \<open>s\<close> the terminal is \<open>t\<close> and the characters \<open>q\<close> wait.
\<close>

locale terminal_io =
  fixes io :: "'s stdio_calls"
    and sees :: "'s \<Rightarrow> terminal \<Rightarrow> byte list \<Rightarrow> bool"
  assumes write_sees: "sees s t q \<Longrightarrow> 0 \<notin> set xs \<Longrightarrow> length xs < 2 ^ 31 \<Longrightarrow>
      \<exists>s'. write1 io xs s = Some (int (length xs), s') \<and> sees s' (fold t_char xs t) q"
    and read_takes: "sees s t (c # q) \<Longrightarrow> \<exists>s'. read1 io s = Some (c, s') \<and> sees s' t q"
begin

lemma putc_sees:
  assumes "sees s t q" and "c \<noteq> 0"
  shows "\<exists>s'. putc io c s = Some s' \<and> sees s' (t_char c t) q"
  using write_sees [OF assms(1), of "[c]"] assms(2) by (auto simp: putc_def putchar_def)

lemma printString_sees:
  assumes "sees s t q" and "str_ok w"
  shows "\<exists>s'. printString io w s = Some (int (length w), s') \<and> sees s' (fold t_char w t) q"
  using write_sees [OF assms(1), of w] assms(2) by (simp add: printString_def str_ok_def)

lemma puts_sees:
  assumes "sees s t q" and "str_ok w"
  shows "\<exists>s'. puts io w s = Some (int (length w) + 1, s') \<and> sees s' (fold t_char (w @ [10]) t) q"
proof -
  obtain r where r: "printString io w s = Some (int (length w), r)" "sees r (fold t_char w t) q"
    using printString_sees [OF assms] by blast
  then show ?thesis using write_sees [OF r(2), of "[10]"] by (auto simp: puts_def putchar_def)
qed

lemma putDigits_sees:
  assumes "sees s t q" and "i \<le> length ds" and "\<forall>d \<in> set ds. d < 10"
  shows "\<exists>s'. putDigits io (map int ds) i s = Some s' \<and> sees s' (fold t_char (map digit (rev (take i ds))) t) q"
  using assms
proof (induction i arbitrary: s t)
  case 0
  then show ?case by simp
next
  case (Suc i)
  then have i: "i < length ds" and d: "ds ! i < 10" by simp_all
  obtain r where r: "putc io (digit (ds ! i)) s = Some r" "sees r (t_char (digit (ds ! i)) t) q"
    using putc_sees [OF Suc.prems(1) digit_nonzero [OF d]] by blast
  then show ?case using Suc.IH [OF r(2)] Suc.prems i by (auto simp: digit_int take_Suc_conv_app_nth)
qed

lemma putNum_sees:
  assumes sh: "sees s t q" and n: "int_ok n"
  shows "\<exists>s'. putNum io n s = Some s' \<and> sees s' (fold t_char (dec_text n) t) q"
proof -
  have pos: "\<exists>s'. putDigits io (numDigits (int k) []) (length (numDigits (int k) [])) s = Some s'
      \<and> sees s' (fold t_char (map digit (digits k)) t) q" if "sees s t q" for s t k
    using putDigits_sees [OF that, of "length (digits k)" "rev (digits k)"] digits_below [of _ k]
    by (simp add: numDigits_eq rev_map)
  consider "n = 0" | "0 < n" | "n < 0" by linarith
  then show ?thesis
  proof cases
    case 1
    then show ?thesis using putc_sees [OF sh, of 48] by (simp add: putNum_def dec_text_def)
  next
    case 2
    then show ?thesis using pos [OF sh, of "nat n"] by (simp add: putNum_def dec_text_def Let_def)
  next
    case 3
    obtain r where r: "putc io 45 s = Some r" "sees r (t_char 45 t) q" using putc_sees [OF sh, of 45] by auto
    have "int_range (- n)" using n 3 by (auto simp: int_range_def int_ok_def)
    then show ?thesis using pos [OF r(2), of "nat (- n)"] 3 r(1) by (simp add: putNum_def dec_text_def Let_def)
  qed
qed

lemma padLoop_sees:
  assumes "sees s t q"
  shows "\<exists>s'. padLoop io (int k) s = Some s' \<and> sees s' (fold t_char (replicate k 32) t) q"
  using assms
proof (induction k arbitrary: s t)
  case 0
  then show ?case by (subst padLoop.simps) simp
next
  case (Suc k)
  obtain r where r: "putc io 32 s = Some r" "sees r (t_char 32 t) q" using putc_sees [OF Suc.prems, of 32] by auto
  then show ?case using Suc.IH [OF r(2)] by (subst padLoop.simps) simp
qed

lemma pad_sees:
  assumes "sees s t q"
  shows "\<exists>s'. pad io k (int m) s = Some s' \<and> sees s' (fold t_char (replicate (m - k) 32) t) q"
  using padLoop_sees [OF assms, of "m - k"] assms by (auto simp: pad_def of_nat_diff)

lemma directive_sees:
  assumes "sees s t q" and "piece_ok p" and "\<And>xs. p \<noteq> Text xs" and "drop i fmt = tl (fmt_of p) @ rest"
  shows "\<exists>s'. directive io fmt i (args_of p @ args) s = Some (i + length (fmt_of p) - 2, args, s')
    \<and> sees s' (fold t_char (out_of p) t) q"
proof (cases p)
  case (Text xs)
  then show ?thesis using assms(3) by simp
next
  case (PStr w)
  then obtain r where "printString io w s = Some (int (length w), r)" "sees r (fold t_char w t) q"
    using printString_sees [OF assms(1)] assms(2) by auto
  then show ?thesis using assms(4) PStr by (simp add: directive_def fchar_drop)
next
  case (PChr c)
  then show ?thesis using putc_sees [OF assms(1), of c] assms(2,4) by (auto simp: directive_def fchar_drop)
next
  case (PInt n)
  then show ?thesis using putNum_sees [OF assms(1), of n] assms(2,4) by (auto simp: directive_def fchar_drop)
next
  case (PadStr m w)
  then have ok: "0 < m" "m + 48 < 2 ^ 31" "str_ok w" using assms(2) by simp_all
  have dr: "drop i fmt = map digit (digits m) @ 115 # rest" using assms(4) PadStr by simp
  note mg = directive_margin [OF dr ok(1,2)]
  obtain d where d: "fchar fmt i = Some (digit d)" "d < 10" using mg(1) by auto
  obtain r where r: "pad io (length w) (int m) s = Some r" "sees r (fold t_char (replicate (m - length w) 32) t) q"
    using pad_sees [OF assms(1), of "length w" m] by blast
  obtain r' where "printString io w r = Some (int (length w), r')" "sees r' (fold t_char (replicate (m - length w) 32 @ w) t) q"
    using printString_sees [OF r(2) ok(3)] by auto
  then show ?thesis using mg(2,3) d r(1) digit_not_letter [OF d(2)] isDigit_digit [OF d(2)] PadStr
    by (simp add: directive_def)
next
  case (PadInt m n)
  then have ok: "0 < m" "m + 48 < 2 ^ 31" "int_ok n" using assms(2) by simp_all
  have dr: "drop i fmt = map digit (digits m) @ 100 # rest" using assms(4) PadInt by simp
  note mg = directive_margin [OF dr ok(1,2)]
  obtain d where d: "fchar fmt i = Some (digit d)" "d < 10" using mg(1) by auto
  obtain r where r: "pad io (intLength n) (int m) s = Some r" "sees r (fold t_char (replicate (m - intLength n) 32) t) q"
    using pad_sees [OF assms(1), of "intLength n" m] by blast
  obtain r' where "putNum io n r = Some r'" "sees r' (fold t_char (replicate (m - intLength n) 32 @ dec_text n) t) q"
    using putNum_sees [OF r(2) ok(3)] by auto
  then show ?thesis using mg(2,3) d r(1) digit_not_letter [OF d(2)] isDigit_digit [OF d(2)] PadInt
    by (simp add: directive_def intLength_abs)
qed

lemma printfLoop_sees:
  assumes "drop i fmt = concat (map fmt_of ps)" and "i \<le> length fmt" and "\<forall>p \<in> set ps. piece_ok p" and "sees s t q"
  shows "\<exists>s'. printfLoop io fmt i (concat (map args_of ps)) s = Some s'
    \<and> sees s' (fold t_char (concat (map out_of ps)) t) q"
  using assms
proof (induction ps arbitrary: i s t)
  case Nil
  then show ?case by (simp add: printf_end)
next
  case (Cons p ps)
  show ?case
  proof (cases "\<exists>xs. p = Text xs")
    case True
    then obtain xs where p: "p = Text xs" by blast
    have ok: "0 \<notin> set xs" "37 \<notin> set xs" and dr: "drop i fmt = xs @ concat (map fmt_of ps)" using Cons.prems p by simp_all
    have "\<exists>s'. printfLoop io fmt i (concat (map args_of ps)) s = Some s'
        \<and> sees s' (fold t_char (xs @ concat (map out_of ps)) t) q"
      using ok dr Cons.prems(2,4)
    proof (induction xs arbitrary: i s t)
      case Nil
      then show ?case using Cons.IH [of i s t] Cons.prems(3) by simp
    next
      case (Cons x xs)
      obtain r where r: "putc io x s = Some r" "sees r (t_char x t) q" using putc_sees [OF Cons.prems(5), of x] Cons.prems(1) by auto
      have "drop (i + 1) fmt = xs @ concat (map fmt_of ps)" using drop_next [of i fmt x] Cons.prems(3) by simp
      moreover have "i + 1 \<le> length fmt" using Cons.prems(3) by (metis Suc_eq_plus1 append_Cons drop_eq_Nil list.discI not_less_eq_eq)
      ultimately have "\<exists>s'. printfLoop io fmt (i + 1) (concat (map args_of ps)) r = Some s'
        \<and> sees s' (fold t_char (xs @ concat (map out_of ps)) (t_char x t)) q"
        using Cons.prems(1,2) r(2) by (intro Cons.IH) auto
      then show ?case using printf_text_step [of fmt i x io "concat (map args_of ps)" s] Cons.prems(1,2,3) r(1)
        by (auto simp: fchar_drop)
    qed
    then show ?thesis by (simp add: p)
  next
    case False
    have ok: "piece_ok p" and not: "\<And>xs. p \<noteq> Text xs" using Cons.prems(3) False by auto
    have f: "fmt_of p = 37 # tl (fmt_of p)" "2 \<le> length (fmt_of p)" using False by (cases p; simp)+
    have dr: "drop i fmt = 37 # tl (fmt_of p) @ concat (map fmt_of ps)" using Cons.prems(1) f(1) by (metis append_Cons concat.simps(2) list.simps(9))
    have d1: "drop (i + 1) fmt = tl (fmt_of p) @ concat (map fmt_of ps)" by (rule drop_next [OF dr])
    obtain r where r: "directive io fmt (i + 1) (args_of p @ concat (map args_of ps)) s =
        Some (i + 1 + length (fmt_of p) - 2, concat (map args_of ps), r)" "sees r (fold t_char (out_of p) t) q"
      using directive_sees [OF Cons.prems(4) ok not d1, where args = "concat (map args_of ps)"] by (elim exE conjE)
    have j: "i + 1 + length (fmt_of p) - 2 + 1 = i + length (fmt_of p)" using f(2) by simp
    have "drop (length (fmt_of p)) (drop i fmt) = concat (map fmt_of ps)" unfolding Cons.prems(1) by simp
    then have "drop (i + length (fmt_of p)) fmt = concat (map fmt_of ps)" by (simp add: add.commute)
    moreover have "length (fmt_of p) \<le> length (drop i fmt)" unfolding Cons.prems(1) by simp
    then have "i + length (fmt_of p) \<le> length fmt" using Cons.prems(2) by simp
    ultimately have "\<exists>s'. printfLoop io fmt (i + length (fmt_of p)) (concat (map args_of ps)) r = Some s'
        \<and> sees s' (fold t_char (concat (map out_of ps)) (fold t_char (out_of p) t)) q"
      using Cons.prems(3) r(2) by (intro Cons.IH) auto
    then show ?thesis using printf_directive_step [of fmt i io _ s] r(1) dr j by (simp add: fchar_drop)
  qed
qed

lemma printf_sees:
  assumes "\<forall>p \<in> set ps. piece_ok p" and "sees s t q"
  shows "\<exists>s'. printf io (concat (map fmt_of ps)) (concat (map args_of ps)) s = Some s'
    \<and> sees s' (fold t_char (concat (map out_of ps)) t) q"
  using printfLoop_sees [of 0 _ ps] assms by (simp add: printf_def)

lemma printf_text_sees:
  assumes "0 \<notin> set xs" and "37 \<notin> set xs" and "sees s t q"
  shows "\<exists>s'. printf io xs [] s = Some s' \<and> sees s' (fold t_char xs t) q"
  using printf_sees [of "[Text xs]" s t q] assms by simp

lemma getlineLoop_sees:
  assumes "sees s t (cs @ 10 # q)" and "10 \<notin> set cs" and "8 \<notin> set cs" and "i + length cs \<le> length buf"
  shows "\<exists>s'. getlineLoop io i buf [] s = Some (i + length cs, take i buf @ cs @ drop (i + length cs) buf, [], s') \<and> sees s' t q"
  using assms
proof (induction cs arbitrary: s i buf)
  case Nil
  then obtain r where "read1 io s = Some (10, r)" "sees r t q" using read_takes by fastforce
  then show ?case by (subst getlineLoop.simps) (simp add: getchar_def)
next
  case (Cons c cs)
  obtain r where r: "read1 io s = Some (c, r)" "sees r t (cs @ 10 # q)" using read_takes Cons.prems(1) by fastforce
  have "take (i + 1) (buf[i := c]) @ cs @ drop (i + 1 + length cs) (buf[i := c]) =
      take i buf @ (c # cs) @ drop (i + length (c # cs)) buf"
    using Cons.prems(4) by (simp add: take_Suc_conv_app_nth)
  moreover have "getlineLoop io i buf [] s = getlineLoop io (i + 1) (buf[i := c]) [] r"
    using r(1) Cons.prems(2-4) by (subst getlineLoop.simps) (simp add: getchar_def)
  ultimately show ?case using Cons.IH [OF r(2), of "i + 1" "buf[i := c]"] Cons.prems(2-4) by simp
qed

lemma getline_sees:
  assumes "sees s t (cs @ 10 # q)" and "10 \<notin> set cs" and "8 \<notin> set cs" and "length cs < length buf"
  shows "\<exists>s'. getline io buf [] s = Some (cs @ 0 # drop (Suc (length cs)) buf, [], s') \<and> sees s' (t_char 10 t) q"
proof -
  obtain r where r: "getlineLoop io 0 buf [] s = Some (length cs, cs @ drop (length cs) buf, [], r)" "sees r t q"
    using getlineLoop_sees [OF assms(1-3), of 0 buf] assms(4) by auto
  have "(cs @ drop (length cs) buf)[length cs := 0] = cs @ 0 # drop (Suc (length cs)) buf"
    using assms(4) by (simp add: list_update_append Cons_nth_drop_Suc [symmetric])
  then show ?thesis using r(1) assms(4) putc_sees [OF r(2), of 10] by (auto simp: getline_def)
qed

end

subsection \<open>\<open>scanf\<close> reads its first character again and again\<close>

abbreviation (input) before_newline :: "byte list \<Rightarrow> nat" where
  "before_newline bs \<equiv> length (takeWhile (\<lambda>b. b \<noteq> 10) bs)"

lemma scanStr_eq:
  assumes "buf ! 0 \<noteq> 32"
  shows "scanStr buf j w = (if 10 \<in> set (drop j buf)
    then Some (j + before_newline (drop j buf) + 1, w @ replicate (before_newline (drop j buf)) (buf ! 0)) else None)"
proof (induction "length buf - j" arbitrary: j w)
  case 0
  then show ?case by (subst scanStr.simps) (simp add: bchar_def)
next
  case (Suc n)
  then have d: "drop j buf = buf ! j # drop (j + 1) buf" and j: "j < length buf" by (simp_all add: Cons_nth_drop_Suc)
  have ih: "scanStr buf (j + 1) w' = (if 10 \<in> set (drop (j + 1) buf)
      then Some (j + 1 + before_newline (drop (j + 1) buf) + 1, w' @ replicate (before_newline (drop (j + 1) buf)) (buf ! 0)) else None)" for w'
    using Suc.hyps(2) by (intro Suc.hyps(1)) simp
  show ?case
  proof (cases "buf ! j = 10")
    case True
    then show ?thesis using j d by (subst scanStr.simps) (simp add: bchar_def)
  next
    case False
    then have "scanStr buf j w = scanStr buf (j + 1) (w @ [buf ! 0])"
      using j assms by (subst scanStr.simps) (simp add: bchar_def)
    then show ?thesis unfolding ih d using False by simp
  qed
qed

lemma skipSpaces_first: "buf \<noteq> [] \<Longrightarrow> buf ! 0 \<noteq> 32 \<Longrightarrow> skipSpaces buf 0 = Some 1"
  by (subst skipSpaces.simps) (simp add: bchar_def)

lemma scanLoop_word:
  assumes "buf \<noteq> []" and "buf ! 0 \<noteq> 32" and "buf ! 0 \<noteq> 10"
  shows "scanLoop [37, 115] buf 0 0 [] =
    (if 10 \<in> set buf then Some [Got_str (replicate (before_newline buf) (buf ! 0))] else None)"
proof -
  have lit: "scanLit [37, 115] buf 0 0 = Some (0, 0)" by (subst scanLit.simps) (simp add: fchar_def)
  have stop: "scanLoop [37, 115] buf 2 j out = Some out" for j out by (subst scanLoop.simps) (simp add: fchar_def)
  show ?thesis using assms scanStr_eq [OF assms(2), of 0 "[]"] skipSpaces_first [OF assms(1,2)]
    by (subst scanLoop.simps) (simp add: fchar_def lit stop [simplified numeral_2_eq_2])
qed

end
