(* ===== verification/UCalls.thy ===== *)
theory UCalls
  imports SystemCalls UStdio
begin

section \<open>System calls of the user programs (\<open>Userland/SampleCodeModule/systemCalls.c\<close>)\<close>

text \<open>
  A user program enters the kernel with \<open>int 80h\<close> (\<open>systemCall\<close>) and \<open>int 71h\<close> (\<open>yield\<close>).  An \<open>int\<close>
  parameter is converted to 64 bits and a result back.  \<open>env\<close> holds the devices, what the kernel's
  uninitialised variables hold and the place of the string or character that is written or read.
  When \<open>read\<close> got nothing its thread is blocked and other processes run before it tries again: what
  they do is not known here, so the result is \<open>None\<close>.
\<close>

subsection \<open>Definitions\<close>

record env =
  e_dev :: device
  e_locals :: locals
  e_buf :: addr

definition syscall :: "env \<Rightarrow> 64 word \<Rightarrow> 64 word \<Rightarrow> 64 word \<Rightarrow> 64 word \<Rightarrow> kernel \<Rightarrow> (64 word \<times> kernel) option" where
  "syscall env n p1 p2 p3 k = systemCall (e_dev env) (e_locals env) n p1 p2 p3 k"

definition yield :: "env \<Rightarrow> kernel \<Rightarrow> kernel option" where
  "yield env k = do { c \<leftarrow> yieldSwitch (l_uninit (e_locals env)) (k_con k); Some (k\<lparr>k_con := c\<rparr>) }"

definition call0 :: "env \<Rightarrow> 64 word \<Rightarrow> 64 word \<Rightarrow> 64 word \<Rightarrow> 64 word \<Rightarrow> kernel \<Rightarrow> kernel option" where
  \<comment> \<open>a call whose result is not used\<close>
  "call0 env n p1 p2 p3 k = do { (_, k) \<leftarrow> syscall env n p1 p2 p3 k; Some k }"

definition call_int :: "env \<Rightarrow> 64 word \<Rightarrow> 64 word \<Rightarrow> 64 word \<Rightarrow> 64 word \<Rightarrow> kernel \<Rightarrow> (int \<times> kernel) option" where
  \<comment> \<open>a call whose result is returned as an \<open>int\<close>\<close>
  "call_int env n p1 p2 p3 k = do { (r, k) \<leftarrow> syscall env n p1 p2 p3 k; Some (int_of r, k) }"

definition call_ptr :: "env \<Rightarrow> 64 word \<Rightarrow> 64 word \<Rightarrow> 64 word \<Rightarrow> 64 word \<Rightarrow> kernel \<Rightarrow> (addr \<times> kernel) option" where
  "call_ptr env n p1 p2 p3 k = do { (r, k) \<leftarrow> syscall env n p1 p2 p3 k; Some (unat r, k) }"

definition u_read :: "env \<Rightarrow> int \<Rightarrow> addr \<Rightarrow> nat \<Rightarrow> kernel \<Rightarrow> (int \<times> kernel) option" where
  "u_read env fildes buf nbytes k = do {
     (val, k) \<leftarrow> call_int env 1 (u64 fildes) (of_nat buf) (of_nat nbytes) k;
     k \<leftarrow> yield env k;
     if val = 0 then None else Some (val, k) }"

definition u_write :: "env \<Rightarrow> int \<Rightarrow> addr \<Rightarrow> nat \<Rightarrow> kernel \<Rightarrow> (int \<times> kernel) option" where
  "u_write env fildes buf nbytes k = call_int env 2 (u64 fildes) (of_nat buf) (of_nat nbytes) k"

definition u_clearScreen :: "env \<Rightarrow> kernel \<Rightarrow> kernel option" where
  "u_clearScreen env k = call0 env 3 0 0 0 k"

definition u_malloc :: "env \<Rightarrow> int \<Rightarrow> kernel \<Rightarrow> (addr \<times> kernel) option" where
  "u_malloc env bytes k = call_ptr env 4 (u64 bytes) 0 0 k"

definition u_free :: "env \<Rightarrow> addr \<Rightarrow> kernel \<Rightarrow> kernel option" where
  "u_free env memPosition k = call0 env 5 (of_nat memPosition) 0 0 k"

definition u_ps :: "env \<Rightarrow> kernel \<Rightarrow> kernel option" where
  "u_ps env k = call0 env 6 1 0 0 k"

definition u_pcreate :: "env \<Rightarrow> addr \<Rightarrow> addr \<Rightarrow> addr \<Rightarrow> kernel \<Rightarrow> (int \<times> kernel) option" where
  "u_pcreate env exec entry name k = call_int env 7 (of_nat exec) (of_nat entry) (of_nat name) k"

definition u_pcreateBackground :: "env \<Rightarrow> addr \<Rightarrow> addr \<Rightarrow> addr \<Rightarrow> kernel \<Rightarrow> (int \<times> kernel) option" where
  "u_pcreateBackground env exec entry name k = call_int env 16 (of_nat exec) (of_nat entry) (of_nat name) k"

definition u_pkill :: "env \<Rightarrow> int \<Rightarrow> kernel \<Rightarrow> kernel option" where
  "u_pkill env p k = do { k \<leftarrow> call0 env 8 (u64 p) 0 0 k; yield env k }"

definition u_getCurrentPid :: "env \<Rightarrow> kernel \<Rightarrow> (int \<times> kernel) option" where
  "u_getCurrentPid env k = call_int env 15 0 0 0 k"

definition u_exit :: "env \<Rightarrow> kernel \<Rightarrow> kernel option" where
  "u_exit env k = do { (p, k) \<leftarrow> u_getCurrentPid env k; u_pkill env p k }"

definition u_tcreate :: "env \<Rightarrow> int \<Rightarrow> addr \<Rightarrow> addr \<Rightarrow> kernel \<Rightarrow> (int \<times> kernel) option" where
  "u_tcreate env p exec entry k = call_int env 9 (u64 p) (of_nat exec) (of_nat entry) k"

definition u_tkill :: "env \<Rightarrow> int \<Rightarrow> int \<Rightarrow> kernel \<Rightarrow> kernel option" where
  "u_tkill env p t k = do { k \<leftarrow> call0 env 10 (u64 p) (u64 t) 0 k; yield env k }"

definition u_createMutex :: "env \<Rightarrow> kernel \<Rightarrow> (int \<times> kernel) option" where
  "u_createMutex env k = call_int env 11 0 0 0 k"

definition u_endMutex :: "env \<Rightarrow> int \<Rightarrow> kernel \<Rightarrow> kernel option" where
  "u_endMutex env i k = call0 env 12 (u64 i) 0 0 k"

definition u_mutexUp :: "env \<Rightarrow> int \<Rightarrow> kernel \<Rightarrow> kernel option" where
  "u_mutexUp env i k = do { k \<leftarrow> call0 env 13 (u64 i) 0 0 k; yield env k }"

definition u_mutexDown :: "env \<Rightarrow> int \<Rightarrow> kernel \<Rightarrow> kernel option" where
  "u_mutexDown env i k = do { k \<leftarrow> call0 env 14 (u64 i) 0 0 k; yield env k }"

definition u_createSemaphore :: "env \<Rightarrow> int \<Rightarrow> kernel \<Rightarrow> (int \<times> kernel) option" where
  "u_createSemaphore env start k = call_int env 17 (u64 start) 0 0 k"

definition u_endSemaphore :: "env \<Rightarrow> int \<Rightarrow> kernel \<Rightarrow> kernel option" where
  "u_endSemaphore env i k = call0 env 18 (u64 i) 0 0 k"

definition u_semaphoreUp :: "env \<Rightarrow> int \<Rightarrow> kernel \<Rightarrow> kernel option" where
  "u_semaphoreUp env i k = call0 env 19 (u64 i) 0 0 k"

definition u_semaphoreDown :: "env \<Rightarrow> int \<Rightarrow> kernel \<Rightarrow> kernel option" where
  "u_semaphoreDown env i k = do { k \<leftarrow> call0 env 20 (u64 i) 0 0 k; yield env k }"

definition u_createPipe :: "env \<Rightarrow> int \<Rightarrow> int \<Rightarrow> kernel \<Rightarrow> (addr \<times> kernel) option" where
  "u_createPipe env fromPid toPid k = call_ptr env 23 (u64 fromPid) (u64 toPid) 0 k"

definition u_send :: "env \<Rightarrow> addr \<Rightarrow> addr \<Rightarrow> kernel \<Rightarrow> kernel option" where
  "u_send env name buff k = call0 env 21 (of_nat name) (of_nat buff) 0 k"

definition u_receive :: "env \<Rightarrow> addr \<Rightarrow> addr \<Rightarrow> kernel \<Rightarrow> kernel option" where
  "u_receive env name buff k = do { k \<leftarrow> call0 env 22 (of_nat name) (of_nat buff) 0 k; yield env k }"

definition poke :: "addr \<Rightarrow> byte list \<Rightarrow> kernel \<Rightarrow> kernel" where
  \<comment> \<open>the program stores characters\<close>
  "poke p xs k = k\<lparr>k_con := (k_con k)\<lparr>cmem := put_list p xs (cmem (k_con k))\<rparr>\<rparr>"

definition user_io :: "env \<Rightarrow> kernel stdio_calls" where
  \<comment> \<open>\<open>write(1, str, n)\<close> and \<open>read(1, &c, 1)\<close>\<close>
  "user_io env = \<lparr>
     write1 = (\<lambda>xs k. u_write env 1 (e_buf env) (length xs) (poke (e_buf env) xs k)),
     read1 = (\<lambda>k. do { (_, k) \<leftarrow> u_read env 1 (e_buf env) 1 k; Some (cmem (k_con k) (e_buf env), k) })\<rparr>"

subsection \<open>A process on focus\<close>

definition goes_on :: "'z sched_scheme \<Rightarrow> bool" where
  \<comment> \<open>the current thread is not blocked, so a yield changes nothing\<close>
  "goes_on s \<longleftrightarrow> (\<exists>p proc t thread. currentProcess s \<noteq> NULL \<and> currentProc s = Some p \<and> get_proc s p = Some proc
     \<and> \<not> isProcessBlocked (p_state proc) \<and> p_state proc \<noteq> DEAD \<and> currentThreadNode s = Some t
     \<and> get_thread s t = Some thread \<and> \<not> isThreadBlocked (t_state thread) \<and> t_state thread \<noteq> T_DEAD)"

lemma goes_on_yield: "goes_on s \<Longrightarrow> yieldSwitch u s = Some s"
  by (auto simp: goes_on_def yieldSwitch_def)

lemma only_video_query:
  assumes "only_video v w"
  shows "goes_on w = goes_on v" and "isCurrentProcessOnFocus sc w = isCurrentProcessOnFocus sc v"
    and "getCurrentPid w = getCurrentPid v"
  using assms by (auto simp: only_video_def goes_on_def currentProc_def currentThreadNode_def
      isCurrentProcessOnFocus_def getCurrentPid_def get_snode_def get_proc_def get_lib_def get_thread_def)

lemma writeToVideo_spec:
  assumes "shows_at 0xB8000 Current v t" and "snd t < 2000" and "mem_list (cmem v) (buf + i) xs" and "0 \<notin> set xs"
    and "0xB8000 + 4000 \<le> buf"
  shows "\<exists>v'. writeToVideo (length xs) buf i v = (i + length xs, v') \<and> shows_at 0xB8000 Current v' (fold t_char xs t)
    \<and> snd (fold t_char xs t) < 2000 \<and> only_video v v' \<and> (\<forall>a. a < 0xB8000 \<or> 0xB8000 + 4000 \<le> a \<longrightarrow> cmem v' a = cmem v a)"
  using assms
proof (induction xs arbitrary: i v t)
  case Nil
  then show ?case by simp
next
  case (Cons x xs)
  define w where "w = printCharacters x v"
  obtain c where r: "printCharactersInner x 0xB8000 Current v = (c, w)"
    by (metis w_def printCharacters_def surj_pair snd_conv)
  have tab: "x = 9 \<Longrightarrow> Current = Current \<and> (0xB8000 :: nat) = 0xB8000" by simp
  note s = printCharactersInner_spec [OF Cons.prems(1,2) tab r]
  have c: "c = Current" using s(3) by simp
  have x: "cmem v (buf + i) = x" "x \<noteq> 0" using Cons.prems(3,4) by (auto simp: mem_list_Cons)
  have "mem_list (cmem w) (buf + (i + 1)) xs = mem_list (cmem v) (buf + (i + 1)) xs"
    using Cons.prems(5) by (intro mem_list_cong s(2)) simp_all
  then have m: "mem_list (cmem w) (buf + (i + 1)) xs" using Cons.prems(3) by (simp add: mem_list_Cons)
  have "0 \<notin> set xs" using Cons.prems(4) by simp
  from Cons.IH [OF s(1) [unfolded c] t_char_bound m this Cons.prems(5)]
  obtain v' where v': "writeToVideo (length xs) buf (i + 1) w = (i + 1 + length xs, v')"
    "shows_at 0xB8000 Current v' (fold t_char xs (t_char x t))" "snd (fold t_char xs (t_char x t)) < 2000"
    "only_video w v'" "\<forall>a. a < 0xB8000 \<or> 0xB8000 + 4000 \<le> a \<longrightarrow> cmem v' a = cmem w a"
    by simp (elim exE conjE, simp)
  have "cmem v' a = cmem v a" if "a < 0xB8000 \<or> 0xB8000 + 4000 \<le> a" for a
    using v'(5) [rule_format, OF that] s(2) [of a] that by simp
  then show ?case using v'(1-4) x only_video_trans [OF s(4) v'(4)] by (simp add: w_def [symmetric])
qed

definition sees_kernel :: "env \<Rightarrow> kernel \<Rightarrow> terminal \<Rightarrow> byte list \<Rightarrow> bool" where
  \<comment> \<open>the current process is on focus and goes on, its screen is \<open>t\<close> and the keys \<open>q\<close> wait\<close>
  "sees_kernel env k t q \<longleftrightarrow> goes_on (k_con k) \<and> isCurrentProcessOnFocus (k_screens k) (k_con k) = Some True
     \<and> shows_at 0xB8000 Current (k_con k) t \<and> snd t < 2000 \<and> keys.holds (k_keys k) (map uint q) \<and> 0 \<notin> set q
     \<and> 0xB8000 + 4000 \<le> e_buf env \<and> e_buf env < 2 ^ 64"

lemma shows_at_outside:
  assumes "shows_at p c v t" and "\<And>a. p \<le> a \<Longrightarrow> a < p + 4000 \<Longrightarrow> m a = cmem v a"
  shows "shows_at p c (v\<lparr>cmem := m\<rparr>) t"
  using assms cells_cong [of p m "cmem v"] by (simp add: shows_at_def)

lemma with_mem_query:
  fixes v :: "'z vstate_scheme"
  shows "goes_on (v\<lparr>cmem := m\<rparr>) = goes_on v"
    and "isCurrentProcessOnFocus sc (v\<lparr>cmem := m\<rparr>) = isCurrentProcessOnFocus sc v"
  by (rule only_video_query [OF only_video_intros(3)])+

lemma user_write_sees:
  assumes k: "sees_kernel env k t q" and xs: "0 \<notin> set xs" "length xs < 2 ^ 31"
  shows "\<exists>k'. write1 (user_io env) xs k = Some (int (length xs), k') \<and> sees_kernel env k' (fold t_char xs t) q"
proof -
  define b where "b = e_buf env"
  define c where "c = (k_con k)\<lparr>cmem := put_list b xs (cmem (k_con k))\<rparr>"
  have b: "0xB8000 + 4000 \<le> b" "unat (of_nat b :: 64 word) = b"
    using k by (simp_all add: sees_kernel_def b_def unat_of_nat64)
  have n: "unat (of_nat (length xs) :: 64 word) = length xs" using xs(2) by (simp add: unat_of_nat64)
  have "uint (of_nat (length xs) :: 64 word) = int (length xs)" using n by (metis uint_nat)
  then have r: "int_of (of_nat (length xs)) = int (length xs)" using xs(2) by (simp add: wrap32_nat)
  have sh: "shows_at 0xB8000 Current c t" unfolding c_def
    using k b(1) by (intro shows_at_outside) (auto simp: sees_kernel_def put_list_out)
  have m: "mem_list (cmem c) (b + 0) xs" by (simp add: c_def)
  have t: "snd t < 2000" using k by (simp add: sees_kernel_def)
  from writeToVideo_spec [OF sh t m xs(1) b(1)] obtain v where v: "writeToVideo (length xs) b 0 c = (length xs, v)"
    "shows_at 0xB8000 Current v (fold t_char xs t)" "snd (fold t_char xs t) < 2000" "only_video c v"
    by (elim exE conjE) simp
  have f: "goes_on v" "isCurrentProcessOnFocus (k_screens k) c = Some True" "isCurrentProcessOnFocus (k_screens k) v = Some True"
    using k only_video_query(1,2) [OF v(4)] by (simp_all add: sees_kernel_def c_def with_mem_query)
  have "write1 (user_io env) xs k = Some (int (length xs), k\<lparr>k_con := v\<rparr>)"
    using v(1) f(2) n r b(2)
    by (simp add: user_io_def u_write_def call_int_def syscall_def systemCall_def sys_write_def poke_def u64_def
        b_def [symmetric] c_def [symmetric])
  then show ?thesis using v(2,3) f k by (intro exI [of _ "k\<lparr>k_con := v\<rparr>"]) (simp add: sees_kernel_def)
qed

lemma user_read_takes:
  assumes k: "sees_kernel env k t (x # q)"
  shows "\<exists>k'. read1 (user_io env) k = Some (x, k') \<and> sees_kernel env k' t q"
proof -
  define b where "b = e_buf env"
  have b: "0xB8000 + 4000 \<le> b" "unat (of_nat b :: 64 word) = b"
    using k by (simp_all add: sees_kernel_def b_def unat_of_nat64)
  have range: "0 < uint y \<and> uint y < 256" if "y \<in> set (x # q)" for y :: byte
  proof -
    have "y \<noteq> 0" using that k by (auto simp: sees_kernel_def)
    then have "uint y \<noteq> 0" by (simp add: unsigned_eq_0_iff)
    moreover have "0 \<le> uint y" "uint y < 256" using uint_bounded [of y] by simp_all
    ultimately show ?thesis by linarith
  qed
  then have pos: "\<forall>c \<in> set (map uint (x # q)). 0 < c \<and> c < 256" by simp
  have "keys.holds (k_keys k) (map uint (x # q))" using k by (simp add: sees_kernel_def)
  from readKeys_spec [OF this pos, of 1 b 0 "cmem (k_con k)"]
  obtain kb m where r: "readKeys 1 b 0 (k_keys k) (cmem (k_con k)) = (1, kb, m)" "keys.holds kb (map uint q)"
    "mem_list m b [x]" "\<forall>a. a < b \<or> b + 1 \<le> a \<longrightarrow> m a = cmem (k_con k) a"
    by (elim exE conjE) (simp add: min_def)
  define v where "v = (k_con k)\<lparr>cmem := m\<rparr>"
  have sh: "shows_at 0xB8000 Current v t" unfolding v_def
    using k b(1) r(4) by (intro shows_at_outside) (auto simp: sees_kernel_def)
  have g: "goes_on v" "isCurrentProcessOnFocus (k_screens k) v = Some True" "isCurrentProcessOnFocus (k_screens k) (k_con k) = Some True"
    using k by (simp_all add: sees_kernel_def v_def with_mem_query)
  have "cmem v b = x" using r(3) by (simp add: mem_list_def v_def)
  moreover have "int_of 1 = 1" by (simp add: wrap32_id)
  ultimately have "read1 (user_io env) k = Some (x, k\<lparr>k_keys := kb, k_con := v\<rparr>)"
    using r(1) g b(2) goes_on_yield [OF g(1)]
    by (simp add: user_io_def u_read_def call_int_def syscall_def systemCall_def read_def blockIfNotOnFocus_def u64_def
        yield_def b_def [symmetric] v_def [symmetric])
  then show ?thesis using sh r(2) g k
    by (intro exI [of _ "k\<lparr>k_keys := kb, k_con := v\<rparr>"]) (simp add: sees_kernel_def)
qed

text \<open>The system calls of a process on focus are the terminal that \<open>stdio.c\<close> relies on.\<close>

interpretation console: terminal_io "user_io env" "sees_kernel env" for env
  by unfold_locales (simp_all add: user_write_sees user_read_takes)

subsection \<open>A kernel whose first process is on focus\<close>

definition demo_keys :: "byte list \<Rightarrow> keyboard" where
  "demo_keys q = demo_keyboard\<lparr>kb_buffer := (\<lambda>i. if i < length q then uint (q ! i) else 0), kb_last := length q\<rparr>"

definition demo_kernel :: "byte list \<Rightarrow> kernel" where
  \<comment> \<open>the keys \<open>q\<close> wait\<close>
  "demo_kernel q = \<lparr>k_con = clearScreen (boot_console (\<lambda>_. 0)), k_screens = demo_screens\<lparr>onFocusPid := 0\<rparr>,
     k_keys = demo_keys q, k_mutexes = no_mutexes, k_semaphores = no_semaphores, k_pipes = demo_pipes, k_rtl = demo_rtl\<rparr>"

definition demo_env :: env where
  "demo_env = \<lparr>e_dev = demo_card, e_locals = \<lparr>l_uninit = demo_locals, l_frame = demo_ethFrame\<rparr>, e_buf = 0x500000\<rparr>"

abbreviation (input) blank_terminal :: terminal where
  "blank_terminal \<equiv> (replicate 2000 (SPACE, DEFAULT_COLOR), 0)"

lemma clearScreen_shows: "shows_at 0xB8000 Current (clearScreen v) blank_terminal"
proof -
  have "cells (cmem (clearScreen v)) 0xB8000 = replicate 2000 (SPACE, DEFAULT_COLOR)"
    by (rule cells_eqI) (simp_all add: clearScreen_def clear_def for_store_const)
  moreover have "cursor_get Current (clearScreen v) = 0xB8000" by (simp add: clearScreen_def cursor_get_def)
  ultimately show ?thesis by (simp add: shows_at_def)
qed

lemma demo_keys_hold:
  assumes "0 \<notin> set q" and "length q < 100"
  shows "keys.holds (demo_keys q) (map uint q)"
proof -
  have "uint (q ! i) \<noteq> 0" if "i < length q" for i
    using assms(1) that by (metis nth_mem unsigned_eq_0_iff)
  then have "0 \<notin> set (map uint q)" by (auto simp: in_set_conv_nth)
  then show ?thesis using assms(2) by (simp add: keys.holds_def ring_holds_def demo_keys_def demo_keyboard_def)
qed

lemma demo_con:
  fixes c :: console
  assumes "c = clearScreen (boot_console (\<lambda>_. 0))"
  shows "currentProcess c = 0x1000000" and "snodes c 0x1000000 = \<lparr>sn_process = 0x1003000, sn_next = 0x1001000\<rparr>"
    and "procs c 0x1003000 = demo_proc 0 RUNNING 0x1006000"
    and "libs c 0x1006000 = \<lparr>l_thread = 0x1009000, l_next = 0x1006000\<rparr>"
    and "threads c 0x1009000 = zero_thread\<lparr>t_state := T_RUNNING\<rparr>"
  by (simp_all add: assms clearScreen_def boot_console_def vstate.extend_def console.fields_def demo_select)

lemma demo_sees:
  assumes "0 \<notin> set q" and "length q < 100"
  shows "sees_kernel demo_env (demo_kernel q) blank_terminal q"
proof -
  define c where "c = clearScreen (boot_console (\<lambda>_. 0))"
  have "goes_on c"
    by (simp add: goes_on_def currentProc_def currentThreadNode_def get_snode_def get_proc_def get_lib_def get_thread_def
        demo_con [OF c_def] demo_proc_def zero_proc_def isProcessBlocked_def isThreadBlocked_def)
  moreover have "isCurrentProcessOnFocus (demo_screens\<lparr>onFocusPid := 0\<rparr>) c = Some True"
    by (simp add: isCurrentProcessOnFocus_def getCurrentPid_def get_snode_def get_proc_def demo_con [OF c_def]
        demo_proc_def zero_proc_def)
  ultimately show ?thesis
    using assms demo_keys_hold [OF assms] clearScreen_shows [of "boot_console (\<lambda>_. 0)"]
    by (simp add: sees_kernel_def demo_kernel_def demo_env_def c_def)
qed

subsection \<open>Properties\<close>

text \<open>C35. \<open>printf\<close> through the system calls of a process on focus shows the text that its format and its
  arguments stand for: text, strings, characters and numbers (above \<open>- 2 ^ 31\<close>), and strings and numbers padded to a
  width.  The padding of a number is that of the code (\<open>out_of\<close>): the digits of 0 count as none and a sign is not
  counted, so that \<open>%3d\<close> of 0 takes four columns.\<close>

theorem printf_shows_format:
  assumes "sees_kernel env k t q" and "\<forall>p \<in> set parts. piece_ok p"
  shows "\<exists>k'. printf (user_io env) (concat (map fmt_of parts)) (concat (map args_of parts)) k = Some k'
    \<and> sees_kernel env k' (fold t_char (concat (map out_of parts)) t) q"
  by (rule console.printf_sees [OF assms(2,1)])

theorem printf_shows_format_witness:
  "\<exists>k'. printf (user_io demo_env) (ctext ''Fork %3d'') [Num 7] (demo_kernel []) = Some k'
    \<and> sees_kernel demo_env k' (fold t_char (ctext ''Fork   7'') blank_terminal) []"
proof -
  let ?parts = "[Text (ctext ''Fork ''), PadInt 3 7]"
  have d: "digits 3 = [3]" "digits 7 = [7]" by (simp_all add: digits_one)
  have "\<forall>p \<in> set ?parts. piece_ok p" using ctext_plain [of "''Fork ''"] by (simp add: plain_def int_ok_def)
  moreover have "concat (map fmt_of ?parts) = ctext ''Fork %3d''" "concat (map out_of ?parts) = ctext ''Fork   7''"
    by (simp_all add: d ctext_def digit_def dec_text_def numeral_2_eq_2)
  ultimately show ?thesis using printf_shows_format [OF demo_sees [of "[]"], of ?parts] by simp
qed

text \<open>\<open>stringToNum\<close> reads back what \<open>putNum\<close> writes for a number that is not negative, up to
  \<open>2^31 - 49\<close>; from there on the sum overflows before \<open>'0'\<close> is subtracted.\<close>

theorem number_text_roundtrip:
  assumes "sees_kernel env k t q" and "n < 2 ^ 31"
  shows "\<exists>text k'. putNum (user_io env) (int n) k = Some k' \<and> sees_kernel env k' (fold t_char text t) q
    \<and> (\<forall>m p. cstring m p text \<longrightarrow> stringToNum m p = (if n + 48 < 2 ^ 31 then Some (int n) else None))"
proof -
  let ?ds = "if n = 0 then [0] else digits n"
  have shown: "dec_text (int n) = map digit ?ds" by (simp add: dec_text_def digit_def)
  have val: "dec_value 0 ?ds = int n" using dec_value_digits [of n] by (simp add: dec_value_def)
  have le: "\<forall>d \<in> set ?ds. d < 10" using digits_below by simp
  have "stringToNum m p = (if n + 48 < 2 ^ 31 then Some (int n) else None)" if "cstring m p (dec_text (int n))" for m p
  proof -
    have "stringToNum m p = (if int n + 48 < 2 ^ 31 then Some (int n) else None)"
      using stringToNumLoop_eq [OF that [unfolded shown] le, of 0] unfolding val by (simp add: stringToNum_def)
    moreover have "int n + 48 < 2 ^ 31 \<longleftrightarrow> n + 48 < 2 ^ 31" by simp
    ultimately show ?thesis by simp
  qed
  moreover have "int_ok (int n)" using assms(2) by (simp add: int_ok_def)
  ultimately show ?thesis using console.putNum_sees [OF assms(1)] by blast
qed

theorem number_text_roundtrip_witness:
  "\<exists>text k'. putNum (user_io demo_env) (int 2048) (demo_kernel []) = Some k'
    \<and> sees_kernel demo_env k' (fold t_char text blank_terminal) []
    \<and> (\<forall>m p. cstring m p text \<longrightarrow> stringToNum m p = Some 2048)"
  using number_text_roundtrip [OF demo_sees [of "[]"], of 2048] by simp

text \<open>C36. \<open>scanf\<close> of a word does not read the word: it stores the first character of its buffer again and again, as
  many times as there are characters up to the first line feed in the buffer.  \<open>getline\<close> does not store the line feed
  of the line, so that this is one in what the uninitialised buffer held behind the line; when there is none the scan
  leaves the 1000 characters of the buffer.  (The line has no corrections, does not begin with a blank and is not empty,
  and fits into the buffer.)\<close>

theorem scanf_repeats_first_character:
  assumes "sees_kernel env k t (c # cs @ 10 # q)" and "c \<noteq> 32" and "{8, 10} \<inter> set (c # cs) = {}" and "length cs < 999"
    and "length u = 1000"
  shows "\<exists>buf k'. getline (user_io env) u [] k = Some (buf, [], k') \<and> sees_kernel env k' (t_char 10 t) q
    \<and> buf = c # cs @ 0 # drop (length cs + 2) u
    \<and> scanf (user_io env) u (ctext ''%s'') [] k =
        (if 10 \<in> set (drop (length cs + 2) u) then Some ([Got_str (replicate (before_newline buf) c)], [], k') else None)"
proof -
  let ?buf = "c # cs @ 0 # drop (length cs + 2) u"
  obtain k' where g: "getline (user_io env) u [] k = Some (?buf, [], k')" "sees_kernel env k' (t_char 10 t) q"
    using console.getline_sees [of env k t "c # cs" q u] assms by auto
  have "10 \<in> set ?buf \<longleftrightarrow> 10 \<in> set (drop (length cs + 2) u)" using assms(3) by auto
  moreover have "ctext ''%s'' = [37, 115]" by (simp add: ctext_def)
  moreover have "c \<noteq> 10" using assms(3) by auto
  ultimately have "scanf (user_io env) u (ctext ''%s'') [] k =
      (if 10 \<in> set (drop (length cs + 2) u) then Some ([Got_str (replicate (before_newline ?buf) c)], [], k') else None)"
    using g(1) scanLoop_word [of ?buf] assms(2,5) by (simp add: scanf_def del: takeWhile.simps)
  then show ?thesis using g by blast
qed

theorem scanf_repeats_first_character_witness:
  "(\<exists>k'. scanf (user_io demo_env) (replicate 1000 10) (ctext ''%s'') [] (demo_kernel [52, 50, 10]) = Some ([Got_str [52, 52, 52]], [], k'))
    \<and> scanf (user_io demo_env) (replicate 1000 0) (ctext ''%s'') [] (demo_kernel [52, 50, 10]) = None"
proof -
  have "sees_kernel demo_env (demo_kernel [52, 50, 10]) blank_terminal (52 # [50] @ 10 # [])"
    using demo_sees [of "[52, 50, 10]"] by simp
  note s = scanf_repeats_first_character [OF this, of "replicate 1000 10"] scanf_repeats_first_character [OF this, of "replicate 1000 0"]
  have "takeWhile (\<lambda>b. b \<noteq> 10) (replicate 997 (10 :: byte)) = []"
    by (simp add: takeWhile_eq_Nil_iff)
  then show ?thesis using s by (auto simp: numeral_3_eq_3)
qed

end
