(* ===== verification/KernelSteps.thy ===== *)
theory KernelSteps
  imports Geometry KernelMain UCalls
begin

section \<open>Every entry into the kernel keeps its data well formed\<close>

text \<open>
  The kernel is entered by a system call, by the keyboard, by the network card, by the timer and by a yield; the card
  fills the receive buffer in between.  \<open>kernel_step\<close> is one entry that returns, from any state and with any
  arguments.  The invariant \<open>kernel_typed\<close> says that the usage map, the arrays and indices of the network driver and the
  ring of the keyboard have their sizes and ranges.  The last part shows what the video driver lets a process in the
  background do to the cursor of the screen.
\<close>

subsection \<open>Steps\<close>

inductive kernel_step :: "device \<Rightarrow> 32 word \<Rightarrow> 32 word \<Rightarrow> kernel \<Rightarrow> kernel \<Rightarrow> bool" for dev re tr where
  syscall: "systemCall dev u n p1 p2 p3 k = Some (r, k') \<Longrightarrow> kernel_step dev re tr k k'"
| key: "irqDispatcher 1 = Some KeyBoardHandler \<Longrightarrow> 0 \<le> x \<Longrightarrow> x < 256
    \<Longrightarrow> keyBoardHandler ready x (k_keys k) (k_screens k) (k_con k) = Some (kb, sc, c)
    \<Longrightarrow> kernel_step dev re tr k (k\<lparr>k_keys := kb, k_screens := sc, k_con := c\<rparr>)"
| network: "irqDispatcher 11 = Some RtlHandler \<Longrightarrow> rtlHandler dev re tr (k_rtl k) = Some r \<Longrightarrow> kernel_step dev re tr k (k\<lparr>k_rtl := r\<rparr>)"
| frame: "length bs = RE_BUFFER_SIZE \<Longrightarrow> kernel_step dev re tr k (k\<lparr>k_rtl := (k_rtl k)\<lparr>reBuffer := bs\<rparr>\<rparr>)"
| tick: "runScheduler u (k_con k) = Some c \<Longrightarrow> kernel_step dev re tr k (k\<lparr>k_con := c\<rparr>)"
| yield: "yieldSwitch u (k_con k) = Some c \<Longrightarrow> kernel_step dev re tr k (k\<lparr>k_con := c\<rparr>)"

definition keys_ok :: "keyboard \<Rightarrow> bool" where
  "keys_ok kb \<longleftrightarrow> (\<exists>q. keys.holds kb q \<and> (\<forall>c \<in> set q. 0 < c \<and> c < 256))"

definition kernel_typed :: "kernel \<Rightarrow> bool" where
  "kernel_typed k \<longleftrightarrow> mm_inv (k_con k) \<and> rtl_ok (k_rtl k) \<and> keys_ok (k_keys k)"

subsection \<open>The network card\<close>

lemma loop_opt_keeps:
  "loop_opt n f d = Some d' \<Longrightarrow> (\<And>i x y. f i x = Some y \<Longrightarrow> length y = length x) \<Longrightarrow> length d' = length d"
  by (induction n arbitrary: d') (auto simp: bind_eq_Some_conv)

lemma mymemcpy_length: "mymemcpy d di s si n = Some d' \<Longrightarrow> length d' = length d"
  unfolding mymemcpy_def by (erule loop_opt_keeps) (auto dest: array_put_length split: if_splits)

lemma transmit_ok: "transmit f r = Some r' \<Longrightarrow> rtl_ok r \<Longrightarrow> rtl_ok r'"
proof -
  assume run: "transmit f r = Some r'" and ok: "rtl_ok r"
  have "r' = r \<or> (\<exists>h tr. r' = r\<lparr>trBuffer := (trBuffer r)[0 := tr], ports := h\<rparr> \<and> length tr = length (trBuffer r ! 0))"
    using run by (auto simp: transmit_def Let_def bind_eq_Some_conv split: option.splits dest!: mymemcpy_length array_put_length)
  then show ?thesis
  proof (elim disjE exE conjE)
    fix h tr assume r': "r' = r\<lparr>trBuffer := (trBuffer r)[0 := tr], ports := h\<rparr>" and "length tr = length (trBuffer r ! 0)"
    then have "length tr = 8192" using ok by (simp add: rtl_ok_def)
    then have "\<forall>b \<in> set ((trBuffer r)[0 := tr]). length b = 8192"
      using ok set_update_subset_insert [of "trBuffer r" 0 tr] by (auto simp: rtl_ok_def)
    then show ?thesis using ok by (simp add: rtl_ok_def r')
  qed (use ok in simp)
qed

lemma sendMsg_ok: "sendMsg dev f m r = Some r' \<Longrightarrow> rtl_ok r \<Longrightarrow> rtl_ok r'"
  by (auto simp: sendMsg_def Let_def bind_eq_Some_conv rtl_ok_def split: prod.splits dest!: transmit_ok)

lemma getMsg_ok: "getMsg m r = Some (n, e, r') \<Longrightarrow> rtl_ok r \<Longrightarrow> rtl_ok r'"
  by (auto simp: getMsg_def Let_def bind_eq_Some_conv rtl_ok_def split: if_splits)

subsection \<open>System calls\<close>

lemma readKeys_ok: "readKeys n buf b kb m = (b', kb', m') \<Longrightarrow> keys_ok kb \<Longrightarrow> keys_ok kb'"
proof -
  assume run: "readKeys n buf b kb m = (b', kb', m')" and "keys_ok kb"
  then obtain q where q: "keys.holds kb q" "\<forall>c \<in> set q. 0 < c \<and> c < 256" by (auto simp: keys_ok_def)
  then show ?thesis using readKeys_spec [OF q, of n buf b m] run by (auto simp: keys_ok_def dest: in_set_dropD intro!: exI [of _ "drop n q"])
qed

lemma block_current_io_geom [geom_rules]: "block_current_io c = Some c' \<Longrightarrow> geom c' = geom c"
  by (auto simp: block_current_io_def bind_eq_Some_conv dest!: geom_rules)

lemma blockIfNotOnFocus_geom [geom_rules]: "blockIfNotOnFocus sc c = Some (b, c') \<Longrightarrow> geom c' = geom c"
  by (auto simp: blockIfNotOnFocus_def bind_eq_Some_conv split: if_splits dest!: geom_rules)

lemma writeToVideo_geom [geom_rules]: "writeToVideo n buf i v = (j, w) \<Longrightarrow> geom w = geom v"
  by (induction n buf i v rule: writeToVideo.induct) (auto split: if_splits)

lemma screenLoop_geom [geom_rules]: "screenLoop n buf i scr pos v = Some (j, p, w) \<Longrightarrow> geom w = geom v"
  by (induction n buf i scr pos v rule: screenLoop.induct)
    (auto simp: bind_eq_Some_conv Let_def split: if_splits prod.splits dest!: geom_rules)

lemma writeToMyScreen_geom [geom_rules]: "writeToMyScreen n buf sc v = Some (i, sc', w) \<Longrightarrow> geom w = geom v"
  by (auto simp: writeToMyScreen_def bind_eq_Some_conv dest!: geom_rules)

lemma typedI:
  assumes "kernel_typed k" and "geom (k_con k') = geom (k_con k)"
    and "rtl_ok (k_rtl k) \<Longrightarrow> rtl_ok (k_rtl k')" and "keys_ok (k_keys k) \<Longrightarrow> keys_ok (k_keys k')"
  shows "kernel_typed k' \<and> geom (k_con k') = geom (k_con k)"
  using assms geom_inv [OF assms(2)] by (simp add: kernel_typed_def)

lemma read_typed:
  assumes run: "read fd buf n k = Some (r, k')" and typed: "kernel_typed k"
  shows "kernel_typed k' \<and> geom (k_con k') = geom (k_con k)"
proof (cases "fd = STANDARD_IO_FD")
  case False
  then show ?thesis using run
    by (intro typedI [OF typed]) (auto simp: read_def bind_eq_Some_conv split: if_splits dest!: getMsg_ok)
next
  case True
  then obtain b c where b: "blockIfNotOnFocus (k_screens k) (k_con k) = Some (b, c)"
    using run by (auto simp: read_def bind_eq_Some_conv)
  obtain m kb x where rk: "readKeys n buf 0 (k_keys k) (cmem c) = (x, kb, m)" by (metis prod_cases3)
  have g: "geom c = geom (k_con k)" using b by (rule blockIfNotOnFocus_geom)
  show ?thesis
  proof (cases b)
    case True
    then have "k' = k\<lparr>k_con := c\<rparr>" using run \<open>fd = STANDARD_IO_FD\<close> b by (simp add: read_def)
    then show ?thesis using g by (intro typedI [OF typed]) simp_all
  next
    case False
    then obtain d where d: "(if x = 0 then block_current_io (c\<lparr>cmem := m\<rparr>) else Some (c\<lparr>cmem := m\<rparr>)) = Some d"
        "k' = k\<lparr>k_keys := kb, k_con := d\<rparr>"
      using run \<open>fd = STANDARD_IO_FD\<close> b rk by (auto simp: read_def bind_eq_Some_conv Let_def)
    have "geom d = geom c" using d(1) block_current_io_geom [of "c\<lparr>cmem := m\<rparr>" d] by (simp split: if_splits) (metis geom_chars(1))
    then show ?thesis using g d(2) readKeys_ok [OF rk] by (intro typedI [OF typed]) simp_all
  qed
qed

lemma sys_write_typed:
  assumes run: "sys_write dev f fd buf n k = Some (r, k')" and "kernel_typed k"
  shows "kernel_typed k' \<and> geom (k_con k') = geom (k_con k)"
proof -
  have "geom (k_con k') = geom (k_con k)"
    using run by (auto simp: sys_write_def bind_eq_Some_conv Let_def split: if_splits prod.splits dest!: geom_rules)
  moreover have "rtl_ok (k_rtl k) \<Longrightarrow> rtl_ok (k_rtl k')"
    using run by (auto simp: sys_write_def bind_eq_Some_conv Let_def split: if_splits prod.splits dest!: sendMsg_ok)
  moreover have "k_keys k' = k_keys k"
    using run by (auto simp: sys_write_def bind_eq_Some_conv Let_def split: if_splits prod.splits)
  ultimately show ?thesis using typedI assms(2) by simp
qed

lemmas calls = clearScreenSys_def pcreate_def pcreateBackground_def tcreate_def pkill_def tkill_def ps_def mallocSysCall_def
  freeSysCall_def getCurrentPidSysCall_def createMutexSysCall_def endMutexSysCall_def upMutexSysCall_def downMutexSysCall_def
  createSemaphoreSysCall_def endSemaphoreSysCall_def upSemaphoreSysCall_def downSemaphoreSysCall_def createPipeSysCall_def
  sendSysCall_def receiveSysCall_def

text \<open>The other calls touch neither the card nor the keyboard.\<close>

lemma other_calls:
  assumes "clearScreenSys k = (r, k') \<or> pcreate e p q k = Some (r, k') \<or> pcreateBackground e p q k = Some (r, k')
    \<or> tcreate i e p k = Some (r, k') \<or> pkill i k = Some (r, k') \<or> tkill i j k = Some (r, k') \<or> ps u k = Some (r, k')
    \<or> mallocSysCall i k = Some (r, k') \<or> freeSysCall p k = Some (r, k') \<or> getCurrentPidSysCall k = Some (r, k')"
  shows "geom (k_con k') = geom (k_con k) \<and> k_rtl k' = k_rtl k \<and> k_keys k' = k_keys k"
  using assms by (elim disjE) (auto simp: calls bind_eq_Some_conv dest!: geom_rules)

lemma other_objects:
  assumes "createMutexSysCall k = Some (r, k') \<or> endMutexSysCall i k = Some (r, k') \<or> upMutexSysCall i k = Some (r, k')
    \<or> downMutexSysCall i k = Some (r, k') \<or> createSemaphoreSysCall i k = Some (r, k') \<or> endSemaphoreSysCall i k = Some (r, k')
    \<or> upSemaphoreSysCall i k = Some (r, k') \<or> downSemaphoreSysCall i k = Some (r, k') \<or> createPipeSysCall i j k = Some (r, k')
    \<or> sendSysCall p q k = Some (r, k') \<or> receiveSysCall p q k = Some (r, k')"
  shows "geom (k_con k') = geom (k_con k) \<and> k_rtl k' = k_rtl k \<and> k_keys k' = k_keys k"
  using assms by (elim disjE) (auto simp: calls bind_eq_Some_conv dest!: geom_rules)

lemma systemCall_cases:
  assumes "systemCall dev u n p1 p2 p3 k = Some (r, k')"
  obtains "read p1 (unat p2) (unat p3) k = Some (r, k')" | "sys_write dev (l_frame u) p1 (unat p2) p3 k = Some (r, k')"
    | "geom (k_con k') = geom (k_con k)" "k_rtl k' = k_rtl k" "k_keys k' = k_keys k"
proof -
  have "read p1 (unat p2) (unat p3) k = Some (r, k') \<or> sys_write dev (l_frame u) p1 (unat p2) p3 k = Some (r, k')
    \<or> (clearScreenSys k = (r, k') \<or> pcreate (unat p1) (unat p2) (unat p3) k = Some (r, k') \<or> pcreateBackground (unat p1) (unat p2) (unat p3) k = Some (r, k')
      \<or> tcreate p1 (unat p2) (unat p3) k = Some (r, k') \<or> pkill p1 k = Some (r, k') \<or> tkill p1 p2 k = Some (r, k') \<or> ps (l_uninit u) k = Some (r, k')
      \<or> mallocSysCall p1 k = Some (r, k') \<or> freeSysCall (unat p1) k = Some (r, k') \<or> getCurrentPidSysCall k = Some (r, k'))
    \<or> (createMutexSysCall k = Some (r, k') \<or> endMutexSysCall p1 k = Some (r, k') \<or> upMutexSysCall p1 k = Some (r, k')
      \<or> downMutexSysCall p1 k = Some (r, k') \<or> createSemaphoreSysCall p1 k = Some (r, k') \<or> endSemaphoreSysCall p1 k = Some (r, k')
      \<or> upSemaphoreSysCall p1 k = Some (r, k') \<or> downSemaphoreSysCall p1 k = Some (r, k') \<or> createPipeSysCall p1 p2 k = Some (r, k')
      \<or> sendSysCall (unat p1) (unat p2) k = Some (r, k') \<or> receiveSysCall (unat p1) (unat p2) k = Some (r, k'))
    \<or> k' = k"
    using assms unfolding systemCall_def Let_def by (simp split: if_split_asm)
  then show ?thesis using that other_calls other_objects by blast
qed

lemma systemCall_typed: "systemCall dev u n p1 p2 p3 k = Some (r, k') \<Longrightarrow> kernel_typed k
    \<Longrightarrow> kernel_typed k' \<and> geom (k_con k') = geom (k_con k)"
  by (erule systemCall_cases) (auto dest: read_typed sys_write_typed typedI)

subsection \<open>Interrupts\<close>

lemma rtlHandler_typed: "rtlHandler dev re tr r = Some r' \<Longrightarrow> rtl_ok r \<Longrightarrow> rtl_ok r'"
proof -
  assume run: "rtlHandler dev re tr r = Some r'" and ok: "rtl_ok r"
  have f: "frame_ok (frame_at (reBuffer r) 4)" using ok by (intro frame_at_ok) (simp add: rtl_ok_def)
  then have l: "\<forall>f \<in> set ((messages r)[i := frame_at (reBuffer r) 4]). frame_ok f" for i
    using ok set_update_subset_insert [of "messages r" i "frame_at (reBuffer r) 4"] by (auto simp: rtl_ok_def)
  have "trBuffer r' = trBuffer r \<and> reBuffer r' = reBuffer r \<and> nextToRead r' = nextToRead r \<and> nexToWrite r' < 100
    \<and> (messages r' = messages r \<or> messages r' = (messages r)[nexToWrite r := frame_at (reBuffer r) 4])"
    using run ok by (auto simp: rtlHandler_def Let_def bind_eq_Some_conv rtl_ok_def split: prod.splits if_splits)
  then show ?thesis using ok l by (auto simp: rtl_ok_def)
qed

lemma geom_keyboard: "checkSwapScreen x kb sc v = Some (kb', sc', v') \<Longrightarrow> geom v' = geom v \<and> kb_buffer kb' = kb_buffer kb
    \<and> kb_last kb' = kb_last kb \<and> kb_current kb' = kb_current kb"
  by (auto simp: checkSwapScreen_def bind_eq_Some_conv Let_def split: if_splits dest!: geom_rules)

lemma keyboard_chars:
  assumes "0 \<le> x" "x < 128"
  shows "0 \<le> uKeyboard ! nat x \<and> uKeyboard ! nat x < 256" "0 \<le> lKeyboard ! nat x \<and> lKeyboard ! nat x < 256"
proof -
  have "\<forall>c \<in> set uKeyboard. 0 \<le> c \<and> c < 256" "\<forall>c \<in> set lKeyboard. 0 \<le> c \<and> c < 256"
    "length uKeyboard = 128" "length lKeyboard = 128" by (simp_all add: uKeyboard_def lKeyboard_def)
  then show "0 \<le> uKeyboard ! nat x \<and> uKeyboard ! nat x < 256" "0 \<le> lKeyboard ! nat x \<and> lKeyboard ! nat x < 256"
    using assms by simp_all
qed

lemma keys_ok_cong:
  "kb_buffer a = kb_buffer b \<Longrightarrow> kb_last a = kb_last b \<Longrightarrow> kb_current a = kb_current b \<Longrightarrow> keys_ok a \<longleftrightarrow> keys_ok b"
  by (simp add: keys_ok_def keys.holds_def)

lemma putKey_ok: "keys_ok kb \<Longrightarrow> 0 < c \<Longrightarrow> c < 256 \<Longrightarrow> keys_ok (putKey c kb)"
proof -
  assume "keys_ok kb" and c: "0 < c" "c < 256"
  then obtain q where q: "keys.holds kb q" "\<forall>c \<in> set q. 0 < c \<and> c < 256" by (auto simp: keys_ok_def)
  have "keys.holds (putKey c kb) (if length q < BUFFER_SIZE then q @ [c] else q)" using keys.put_holds [OF q(1)] c(1) by simp
  moreover have "\<forall>x \<in> set (if length q < BUFFER_SIZE then q @ [c] else q). 0 < x \<and> x < 256" using q(2) c by auto
  ultimately show ?thesis unfolding keys_ok_def by blast
qed

lemma keyBoardHandler_typed:
  assumes run: "keyBoardHandler ready x kb sc v = Some (kb', sc', v')" and x: "0 \<le> x"
  shows "geom v' = geom v \<and> (keys_ok kb \<longrightarrow> keys_ok kb')"
proof (cases ready)
  case True
  have sh: "kb_buffer (shiftKey x kb) = kb_buffer kb" "kb_last (shiftKey x kb) = kb_last kb" "kb_current (shiftKey x kb) = kb_current kb"
    by (simp_all add: shiftKey_def)
  obtain kb1 sc1 v1 where c: "checkSwapScreen x (shiftKey x kb) sc v = Some (kb1, sc1, v1)"
    using run True by (auto simp: keyBoardHandler_def bind_eq_Some_conv Let_def)
  note g = geom_keyboard [OF c]
  have ok1: "keys_ok kb1 = keys_ok kb" using g sh by (intro keys_ok_cong) simp_all
  define ch where "ch = (if uppercase kb1 = - 1 then uKeyboard ! nat x else lKeyboard ! nat x)"
  show ?thesis
  proof (cases "128 \<le> x \<or> \<not> (kb_buffer kb1 (kb_last kb1) = 0 \<and> ch \<noteq> 0)")
    case True
    then show ?thesis using run \<open>ready\<close> c g ok1 by (auto simp: keyBoardHandler_def Let_def ch_def [symmetric] split: if_splits)
  next
    case False
    then have ch: "0 < ch" "ch < 256" using keyboard_chars [OF x] by (auto simp: ch_def split: if_splits)
    obtain w where w: "unblockAllThreads (getFocusProcessPid sc1) T_BLOCKED_IO v1 = Some w" "v' = w" "kb' = putKey ch kb1"
      using run \<open>ready\<close> c False by (auto simp: keyBoardHandler_def Let_def ch_def [symmetric] bind_eq_Some_conv putKey_def)
    then show ?thesis using g ok1 putKey_ok [OF _ ch] geom_unblockAllThreads [OF w(1)] by auto
  qed
qed (use run in \<open>simp add: keyBoardHandler_def\<close>)

lemma kernel_step_typed: "kernel_step dev re tr k k' \<Longrightarrow> kernel_typed k \<Longrightarrow> kernel_typed k' \<and> geom (k_con k') = geom (k_con k)"
proof (induction rule: kernel_step.induct)
  case (syscall u n p1 p2 p3 k r k')
  then show ?case using systemCall_typed by blast
next
  case (key x ready k kb sc c)
  then show ?case using keyBoardHandler_typed [OF key(4,2)] by (intro typedI) auto
next
  case (network k r)
  then show ?case using rtlHandler_typed by (intro typedI) auto
next
  case (frame bs k)
  then show ?case by (intro typedI) (auto simp: rtl_ok_def)
next
  case (tick u k c)
  then show ?case using geom_runScheduler by (intro typedI) auto
next
  case (yield u k c)
  then show ?case using geom_yieldSwitch by (intro typedI) auto
qed

subsection \<open>Whatever the programs ask for\<close>

text \<open>In whatever order system calls with whatever arguments, keys, frames, ticks and yields come, every entry into the
  kernel that returns keeps the sizes and indices: the usage map keeps the size that belongs to the region, the ring of
  messages and every frame and buffer of the network driver their sizes and indices, and the keyboard buffer holds a
  queue of characters.  This is a typing result about the stores of the model, which are separate from each other and
  from the memory that user pointers reach: that a program may pass a pointer into the data of the kernel, which on the
  machine overwrites them, is outside of it, and a copy that leaves its array has no result.  The cursor of the video
  screen is not part of the invariant, because it does not hold for it (\<open>background_tabs_escape_video\<close>).\<close>

theorem kernel_stays_typed:
  assumes "(kernel_step dev re tr)\<^sup>*\<^sup>* k k'" and "kernel_typed k"
  shows "kernel_typed k' \<and> geom (k_con k') = geom (k_con k)"
  using assms
proof (induction rule: rtranclp_induct)
  case (step j l)
  then show ?case using kernel_step_typed [OF step.hyps(2)] by simp
qed simp

lemma boot_kernel_typed: "kernel_typed boot_kernel"
proof -
  have "mm_inv blank_sched" using blank_sched_prefix by (simp add: prefix_used_def)
  then have "mm_inv (k_con boot_kernel)"
    by (simp add: boot_kernel_def mm_inv_def vstate.extend_def console.fields_def with_vstate_def cstate.extend_def vstate.fields_def
        with_cmem_def sched.extend_def cstate.fields_def)
  moreover have "keys_ok demo_keyboard" using demo_keyboard_holds unfolding keys_ok_def by (intro exI [of _ "[]"]) simp
  ultimately show ?thesis using demo_rtl_ok by (simp add: kernel_typed_def boot_kernel_def)
qed

theorem kernel_stays_typed_witness:
  "\<exists>k'. (kernel_step demo_card 0 0)\<^sup>*\<^sup>* boot_kernel k' \<and> k' \<noteq> boot_kernel \<and> kernel_typed k'"
proof -
  let ?k = "boot_kernel\<lparr>k_rtl := (k_rtl boot_kernel)\<lparr>reBuffer := replicate RE_BUFFER_SIZE 7\<rparr>\<rparr>"
  have "kernel_step demo_card 0 0 boot_kernel ?k" by (rule kernel_step.frame) simp
  then have s: "(kernel_step demo_card 0 0)\<^sup>*\<^sup>* boot_kernel ?k" by blast
  have "reBuffer demo_rtl ! 0 \<noteq> 7" by (simp add: demo_rtl_def demo_frame_bytes_def nth_append)
  then have "reBuffer (k_rtl ?k) ! 0 \<noteq> reBuffer (k_rtl boot_kernel) ! 0" by (simp add: boot_kernel_def)
  then have "?k \<noteq> boot_kernel" by metis
  then show ?thesis using s kernel_stays_typed [OF s boot_kernel_typed] by blast
qed

subsection \<open>A process in the background\<close>

lemma printTab_moves: "\<exists>q. printTab v = v\<lparr>currentPosition := q\<rparr> \<and> currentPosition v + 2 \<le> q"
proof -
  define d where "d = (TABSIZE - (wrap32 (int (currentPosition v) - int screen) sdiv 2 smod int WINDOW_WIDTH) smod TABSIZE) * 2"
  have neg: "- (y mod 12) < 12" for y :: int by (rule order.strict_trans1 [of _ 0]) simp_all
  have "x smod 12 < 12" for x :: int using neg [of "- x"] by (simp add: signed_modulo_int_def sgn_if)
  then have "x smod 12 \<le> 11" for x :: int using zless_add1_eq [of "x smod 12" 11] by (simp add: order.order_iff_strict)
  then have "2 \<le> d" by (simp add: d_def)
  moreover have "printTab v = v\<lparr>currentPosition := nat (int (currentPosition v) + d)\<rparr>"
    by (simp add: printTab_def myPrintTab_def cursor_get_def cursor_set_def Let_def d_def)
  ultimately show ?thesis by (intro exI [of _ "nat (int (currentPosition v) + d)"]) simp
qed

lemma screenLoop_tabs:
  assumes "0 < p" and "q < p + END_OF_SCREEN" and "\<forall>j < n. cmem v (buf + i + j) = 9"
  shows "\<exists>w. screenLoop n buf i p (Local q) v = Some (i + n, Local q, v\<lparr>currentPosition := w\<rparr>) \<and> currentPosition v + 2 * n \<le> w"
  using assms(3)
proof (induction n arbitrary: i v)
  case 0
  then show ?case by (intro exI [of _ "currentPosition v"]) simp
next
  case (Suc n)
  obtain w where w: "printTab v = v\<lparr>currentPosition := w\<rparr>" "currentPosition v + 2 \<le> w" using printTab_moves by blast
  have tab: "cmem v (buf + i) = 9" using Suc.prems by (auto dest: spec [of _ 0])
  then have one: "printCharactersInner 9 p (Local q) v = (Local q, v\<lparr>currentPosition := w\<rparr>)"
    using assms(2) w(1) by (simp add: printCharactersInner_def checkEndOfScreen_def cursor_get_def)
  have "\<forall>j < n. cmem (v\<lparr>currentPosition := w\<rparr>) (buf + (i + 1) + j) = 9"
    using Suc.prems by (auto dest: spec [of _ "Suc _"])
  from Suc.IH [OF this] obtain x where
    "screenLoop n buf (i + 1) p (Local q) (v\<lparr>currentPosition := w\<rparr>) = Some (i + 1 + n, Local q, v\<lparr>currentPosition := x\<rparr>)" "w + 2 * n \<le> x"
    by auto
  then show ?case using tab one assms(1) w(2) by (intro exI [of _ x]) simp
qed

lemma getCurrentScreen_known:
  assumes "screens_ok sc bs" and "b \<in> set bs" and "getCurrentPid v = Some (scn_pid (screenNodes sc b))"
  shows "getCurrentScreenNode sc v = Some (b, sc, v)" and "b \<noteq> NULL"
proof -
  have "chain (scnx sc) (screenList sc) bs NULL" using assms(1) by (simp add: screens_ok_def)
  then show "b \<noteq> NULL" using chain_nonnull assms(2) by metis
  then show "getCurrentScreenNode sc v = Some (b, sc, v)"
    using assms(3) findScreenNodeByPid_hit [OF assms(1,2)] by (simp add: getCurrentScreenNode_def)
qed

lemma video_store_outside:
  assumes "screen + END_OF_SCREEN \<le> currentPosition v" and "x \<notin> {8, 9, 10}"
  shows "cmem (printCharacters x v) (currentPosition v) = x"
proof -
  let ?p = "currentPosition v"
  let ?w = "(store (?p + 1) DEFAULT_COLOR (store ?p x v))\<lparr>currentPosition := ?p + 2\<rparr>"
  obtain c' v' where m: "moveScreenUp screen Current ?w = (c', v')" by fastforce
  have "printCharacters x v = v'"
    using assms m by (simp add: printCharacters_def printCharactersInner_def checkEndOfScreen_def cursor_get_def cursor_set_def store_def Let_def)
  moreover have "cmem v' ?p = cmem ?w ?p" using moveScreenUp_spec(3) [OF m, of ?p] assms(1) by simp
  ultimately show ?thesis by (simp add: store_def)
qed

text \<open>C6. A process in the background can make the video driver write outside the screen.  \<open>printCharactersInner\<close> gives a
  tabulator to \<open>printTab\<close>, which ignores the cursor it is passed and moves that of the video screen, without the test
  for the end: when a process whose own screen is not on focus writes 2000 tabulators with the system call \<open>write\<close>, the
  call returns, nothing is written, but the cursor of the process on focus is behind the video memory, and the next
  ordinary character printed there is stored at that address.\<close>

theorem background_tabs_escape_video:
  assumes "screens_ok (k_screens k) bs" and "b \<in> set bs"
    and "getCurrentPid (k_con k) = Some (scn_pid (screenNodes (k_screens k) b))"
    and "onFocusPid (k_screens k) \<noteq> scn_pid (screenNodes (k_screens k) b)"
    and "video_ok (k_con k)" and "\<forall>i < unat n. cmem (k_con k) (unat buf + i) = 9" and "2000 \<le> unat n" and "x \<notin> {8, 9, 10}"
  shows "\<exists>k'. systemCall dev u 2 STANDARD_IO_FD buf n k = Some (n, k') \<and> cmem (k_con k') = cmem (k_con k)
    \<and> 0xB8000 + 4000 \<le> currentPosition (k_con k')
    \<and> cmem (printCharacters x (k_con k')) (currentPosition (k_con k')) = x"
proof -
  let ?sc = "k_screens k" and ?v = "k_con k"
  let ?n = "screenNodes ?sc b"
  note node = getCurrentScreen_known [OF assms(1-3)]
  have s: "0xB8000 + 4000 \<le> scn_screen ?n" "scn_position ?n < scn_screen ?n + 4000"
    using assms(1,2) by (auto simp: screens_ok_def)
  obtain w where w: "screenLoop (unat n) (unat buf) 0 (scn_screen ?n) (Local (scn_position ?n)) ?v
      = Some (unat n, Local (scn_position ?n), ?v\<lparr>currentPosition := w\<rparr>)" "currentPosition ?v + 2 * unat n \<le> w"
    using screenLoop_tabs [of "scn_screen ?n" "scn_position ?n" "unat n" ?v "unat buf" 0] s assms(6) by auto
  let ?v' = "?v\<lparr>currentPosition := w\<rparr>"
  have "getCurrentPid ?v' = getCurrentPid ?v" by (simp add: getCurrentPid_def get_snode_def get_proc_def)
  then have node': "getCurrentScreenNode ?sc ?v' = Some (b, ?sc, ?v')"
    using assms(3) by (intro getCurrentScreen_known(1) [OF assms(1,2)]) simp
  obtain sc' where "writeToMyScreen (unat n) (unat buf) ?sc ?v = Some (unat n, sc', ?v')"
    using node node' w(1)
    by (simp add: writeToMyScreen_def getCurrentScreen_def getCurrentScreenPosition_def setCurrentScreenPosition_def cursor_get_def)
  then have "systemCall dev u 2 STANDARD_IO_FD buf n k = Some (n, k\<lparr>k_screens := sc', k_con := ?v'\<rparr>)"
    using assms(3,4) by (simp add: systemCall_def sys_write_def isCurrentProcessOnFocus_def)
  moreover have out: "0xB8000 + 4000 \<le> w" using w(2) assms(5,7) by (simp add: video_ok_def)
  moreover have "cmem (printCharacters x ?v') w = x" using video_store_outside [of ?v' x] out assms(8) by simp
  ultimately show ?thesis by (intro exI [of _ "k\<lparr>k_screens := sc', k_con := ?v'\<rparr>"]) simp
qed

theorem background_tabs_escape_video_witness:
  "\<exists>k k'. systemCall demo_card \<lparr>l_uninit = demo_locals, l_frame = demo_ethFrame\<rparr> 2 STANDARD_IO_FD 0x500000 2000 k = Some (2000, k')
    \<and> video_ok (k_con k) \<and> \<not> video_ok (k_con k')"
proof -
  define c where "c = clearScreen (boot_console (\<lambda>_. 0))"
  define sc where "sc = demo_screens\<lparr>screenNodes := (screenNodes demo_screens)(0x1011000 := (screenNodes demo_screens 0x1011000)\<lparr>scn_pid := 0\<rparr>)\<rparr>"
  let ?k = "(demo_kernel [])\<lparr>k_con := c\<lparr>cmem := \<lambda>_. 9\<rparr>, k_screens := sc\<rparr>"
  have ok: "screens_ok sc [0x1010000, 0x1011000]"
    by (simp add: sc_def screens_ok_def demo_screens_def inj_on_def)
  have pid: "getCurrentPid (c\<lparr>cmem := \<lambda>_. 9\<rparr>) = Some (scn_pid (screenNodes sc 0x1011000))"
    by (simp add: sc_def getCurrentPid_def get_snode_def get_proc_def demo_con [OF c_def] demo_proc_def zero_proc_def)
  have foc: "onFocusPid sc \<noteq> scn_pid (screenNodes sc 0x1011000)" by (simp add: sc_def demo_screens_def)
  have vid: "video_ok (c\<lparr>cmem := \<lambda>_. 9\<rparr>)" by (simp add: video_ok_def c_def clearScreen_def)
  obtain k' where "systemCall demo_card \<lparr>l_uninit = demo_locals, l_frame = demo_ethFrame\<rparr> 2 STANDARD_IO_FD 0x500000 2000 ?k = Some (2000, k')"
      "0xB8000 + 4000 \<le> currentPosition (k_con k')"
    using background_tabs_escape_video [of ?k "[0x1010000, 0x1011000]" "0x1011000" 2000 "0x500000" 65] ok pid foc vid by fastforce
  then show ?thesis using vid by (intro exI [of _ ?k] exI [of _ k']) (simp add: video_ok_def)
qed

end
