(* ===== verification/Shell.thy ===== *)
theory Shell
  imports UCalls
begin

section \<open>The shell (\<open>Userland/SampleCodeModule/shell.c\<close>)\<close>

text \<open>
  One round of the shell prints the prompt, reads and echoes a line and runs the command.  The line
  buffer has 100 characters.  \<open>prog\<close> holds the addresses of the functions that become processes.
\<close>

subsection \<open>Definitions\<close>

record program =
  exec_at :: addr
  philosophers_at :: addr
  prodcons_at :: addr
  shell_at :: addr
  testPipes1_at :: addr
  testPipes2_at :: addr

definition strcmp_text :: "byte list \<Rightarrow> byte list \<Rightarrow> int" where
  \<comment> \<open>\<open>strcmp\<close> of two strings\<close>
  "strcmp_text str1 str2 = first_difference str1 str2"

definition run_exec :: "env \<Rightarrow> (kernel \<Rightarrow> kernel option) \<Rightarrow> kernel \<Rightarrow> kernel option" where
  \<comment> \<open>\<open>exec\<close>: the function \<open>entry\<close>, then \<open>exit\<close>\<close>
  "run_exec env entry k = do { k \<leftarrow> entry k; u_exit env k }"

definition run :: "env \<Rightarrow> program \<Rightarrow> addr \<Rightarrow> addr \<Rightarrow> kernel \<Rightarrow> kernel option" where
  "run env prog entry name k = do { (_, k) \<leftarrow> u_pcreate env (exec_at prog) entry name k; Some k }"

definition new_name :: "env \<Rightarrow> byte list \<Rightarrow> kernel \<Rightarrow> (addr \<times> kernel) option" where
  \<comment> \<open>\<open>char * name = (char *) malloc(sizeof(char)*10); name[0] = ...\<close>\<close>
  "new_name env w k = do {
     (name, k) \<leftarrow> u_malloc env 10 k;
     chk name;
     Some (name, poke name (w @ [0]) k) }"

definition start :: "env \<Rightarrow> program \<Rightarrow> addr \<Rightarrow> string \<Rightarrow> kernel \<Rightarrow> kernel option" where
  "start env prog entry w k = do { (name, k) \<leftarrow> new_name env (ctext w) k; run env prog entry name k }"

fun printAll :: "env \<Rightarrow> byte list list \<Rightarrow> kernel \<Rightarrow> kernel option" where
  \<comment> \<open>a sequence of \<open>printf\<close> calls without arguments\<close>
  "printAll env [] k = Some k"
| "printAll env (w # ws) k = do { k \<leftarrow> printf (user_io env) w [] k; printAll env ws k }"

definition nl :: "byte list" where "nl = [10]"

definition help_lines :: "byte list list" where
  "help_lines =
    [ctext ''  echo : print on screen'' @ nl,
     ctext ''  hola : saludo de la consola'' @ nl,
     ctext ''  2048game : Juego 2048'' @ nl,
     ctext ''  chat : enter to chat'' @ nl,
     ctext ''  clear : clear screen'' @ nl,
     ctext ''  ps : prints processes with attributes'' @ nl,
     ctext ''  philosophers : '' @ [0xE2, 0x80, 0x8B] @ ctext ''prints solution to philosophers problem'' @ nl,
     ctext ''  prodcons : prints solution to producer-consumer problem'' @ nl,
     ctext ''  new shell : prints solution to producer-consumer problem'' @ nl,
     ctext ''  pipes : prints solution to producer-consumer problem'' @ nl]"

definition uputs :: "env \<Rightarrow> byte list \<Rightarrow> kernel \<Rightarrow> kernel option" where
  "uputs env w k = do { (_, k) \<leftarrow> puts (user_io env) w k; Some k }"

definition processComand :: "env \<Rightarrow> program \<Rightarrow> byte list \<Rightarrow> kernel \<Rightarrow> kernel option" where
  "processComand env prog buffer k =
     (if strcmp_text buffer (ctext ''help'') = 0 then printAll env help_lines k
      else if startsWith (ctext ''echo '') buffer then uputs env (drop 5 buffer) k
      else if strcmp_text buffer (ctext ''hola'') = 0 then uputs env (ctext ''  Hola! Mi nombre es NetSky'') k
      else if strcmp_text buffer (ctext ''2048game'') = 0 then do {
        k \<leftarrow> u_clearScreen env k;
        printf (user_io env) (ctext ''Run 2048'' @ nl) [] k }
      else if strcmp_text (ctext ''clear'') buffer = 0 then u_clearScreen env k
      else if startsWith (ctext ''chat'') buffer then do {
        k \<leftarrow> u_clearScreen env k;
        printf (user_io env) (ctext ''Run my Chat'' @ nl) [] k }
      else if strcmp_text (ctext ''ps'') buffer = 0 then u_ps env k
      else if strcmp_text (ctext ''philosophers'') buffer = 0 then start env prog (philosophers_at prog) ''phil'' k
      else if strcmp_text (ctext ''prodcons'') buffer = 0 then start env prog (prodcons_at prog) ''prod'' k
      else if strcmp_text (ctext ''new shell'') buffer = 0 then start env prog (shell_at prog) ''shell'' k
      else if strcmp_text (ctext ''pipes'') buffer = 0 then start env prog (testPipes1_at prog) ''pipe1'' k
      else uputs env (ctext ''  Command not found - help for instructions'') k)"

partial_function (option) lineLoop :: "'s stdio_calls \<Rightarrow> nat \<Rightarrow> byte list \<Rightarrow> byte list \<Rightarrow> 's \<Rightarrow>
    (nat \<times> byte list \<times> byte list \<times> 's) option" where
  "lineLoop io i buffer pushed s = do {
     (c, pushed, s) \<leftarrow> getchar io pushed s;
     if c \<noteq> 10 then
       if c \<noteq> 8 then
         if i < length buffer then do {
           s \<leftarrow> putc io c s;
           lineLoop io (i + 1) (buffer[i := c]) pushed s }
         else None
       else if i > 0 then do { s \<leftarrow> putc io c s; lineLoop io (i - 1) buffer pushed s }
       else lineLoop io i buffer pushed s
     else Some (i, buffer, pushed, s) }"

definition readLine :: "'s stdio_calls \<Rightarrow> byte list \<Rightarrow> byte list \<Rightarrow> 's \<Rightarrow> (byte list \<times> byte list \<times> byte list \<times> 's) option" where
  \<comment> \<open>prompt, line and echo; the first result is the string in the buffer\<close>
  "readLine io buffer pushed s = do {
     s \<leftarrow> printf io (ctext ''$> '') [] s;
     (i, buffer, pushed, s) \<leftarrow> lineLoop io 0 buffer pushed s;
     s \<leftarrow> putc io 10 s;
     if i < length buffer then Some (take i buffer, buffer[i := 0], pushed, s) else None }"

definition shellRound :: "env \<Rightarrow> program \<Rightarrow> byte list \<Rightarrow> byte list \<Rightarrow> kernel \<Rightarrow> (byte list \<times> byte list \<times> kernel) option" where
  "shellRound env prog buffer pushed k = do {
     (line, buffer, pushed, k) \<leftarrow> readLine (user_io env) buffer pushed k;
     k \<leftarrow> processComand env prog line k;
     Some (buffer, pushed, k) }"

subsection \<open>The line that is typed\<close>

fun line_of :: "byte list \<Rightarrow> byte list \<Rightarrow> byte list" where
  \<comment> \<open>the line after more characters are typed\<close>
  "line_of l [] = l"
| "line_of l (c # cs) = (if c = 8 then line_of (butlast l) cs else line_of (l @ [c]) cs)"

fun echo_of :: "nat \<Rightarrow> byte list \<Rightarrow> byte list" where
  \<comment> \<open>what is echoed when the line has \<open>i\<close> characters\<close>
  "echo_of i [] = []"
| "echo_of i (c # cs) =
     (if c = 8 then (if i = 0 then echo_of i cs else c # echo_of (i - 1) cs) else c # echo_of (i + 1) cs)"

fun line_fits :: "nat \<Rightarrow> nat \<Rightarrow> byte list \<Rightarrow> bool" where
  \<comment> \<open>the line and its null character stay within \<open>n\<close> places\<close>
  "line_fits n i [] \<longleftrightarrow> i < n"
| "line_fits n i (c # cs) \<longleftrightarrow> (if c = 8 then line_fits n (i - 1) cs else i < n \<and> line_fits n (i + 1) cs)"

context terminal_io begin

lemma lineLoop_sees:
  assumes "sees s t (cs @ 10 # q)" and "10 \<notin> set cs" and "0 \<notin> set cs" and "i \<le> length buf"
  shows "if line_fits (length buf) i cs
    then \<exists>j buf' s'. lineLoop io i buf [] s = Some (j, buf', [], s') \<and> sees s' (fold t_char (echo_of i cs) t) q
      \<and> j < length buf' \<and> length buf' = length buf \<and> take j buf' = line_of (take i buf) cs
    else (case lineLoop io i buf [] s of None \<Rightarrow> True | Some (j, buf', _) \<Rightarrow> \<not> j < length buf')"
  using assms
proof (induction cs arbitrary: s t i buf)
  case Nil
  then obtain r where "read1 io s = Some (10, r)" "sees r t q" using read_takes by fastforce
  then show ?case using Nil.prems(4) by (subst (1 2) lineLoop.simps) (auto simp: getchar_def)
next
  case (Cons c cs)
  obtain r where r: "read1 io s = Some (c, r)" "sees r t (cs @ 10 # q)" using read_takes Cons.prems(1) by fastforce
  obtain r' where r': "putc io c r = Some r'" "sees r' (t_char c t) (cs @ 10 # q)"
    using putc_sees [OF r(2), of c] Cons.prems(3) by auto
  have c: "c \<noteq> 10" "10 \<notin> set cs" "0 \<notin> set cs" using Cons.prems(2,3) by simp_all
  consider (erase) "c = 8" "0 < i" | (skip) "c = 8" "i = 0" | (put) "c \<noteq> 8" "i < length buf" | (full) "c \<noteq> 8" "i = length buf"
    using Cons.prems(4) by linarith
  then show ?case
  proof cases
    case erase
    then have "lineLoop io i buf [] s = lineLoop io (i - 1) buf [] r'"
      using r(1) r'(1) by (subst lineLoop.simps) (simp add: getchar_def)
    moreover have "butlast (take i buf) = take (i - 1) buf" using Cons.prems(4) by (simp add: butlast_take)
    moreover have "i - 1 \<le> length buf" using Cons.prems(4) by simp
    ultimately show ?thesis using Cons.IH [OF r'(2) c(2,3), of "i - 1" buf] erase by (simp split: if_splits)
  next
    case skip
    then have "lineLoop io i buf [] s = lineLoop io i buf [] r"
      using r(1) by (subst lineLoop.simps) (simp add: getchar_def)
    then show ?thesis using Cons.IH [OF r(2) c(2,3) Cons.prems(4)] skip by (simp split: if_splits)
  next
    case put
    then have "lineLoop io i buf [] s = lineLoop io (i + 1) (buf[i := c]) [] r'"
      using r(1) r'(1) c(1) by (subst lineLoop.simps) (simp add: getchar_def)
    moreover have "take (i + 1) (buf[i := c]) = take i buf @ [c]" using put(2) by (simp add: take_Suc_conv_app_nth)
    moreover have "i + 1 \<le> length (buf[i := c])" using put(2) by simp
    ultimately show ?thesis using Cons.IH [OF r'(2) c(2,3), of "i + 1" "buf[i := c]"] put by (simp split: if_splits)
  next
    case full
    then have "lineLoop io i buf [] s = None" using r(1) c(1) by (subst lineLoop.simps) (simp add: getchar_def)
    then show ?thesis using full by simp
  qed
qed

lemma readLine_sees:
  assumes "sees s t (cs @ 10 # q)" and "10 \<notin> set cs" and "0 \<notin> set cs"
  shows "if line_fits (length buf) 0 cs
    then \<exists>buf' s'. readLine io buf [] s = Some (line_of [] cs, buf', [], s') \<and> length buf' = length buf
      \<and> sees s' (fold t_char (ctext ''$> '' @ echo_of 0 cs @ [10]) t) q
    else readLine io buf [] s = None"
proof -
  have pl: "0 \<notin> set (ctext ''$> '') \<and> 37 \<notin> set (ctext ''$> '')" by (rule ctext_plain) (simp add: plain_def)
  obtain r where r: "printf io (ctext ''$> '') [] s = Some r" "sees r (fold t_char (ctext ''$> '') t) (cs @ 10 # q)"
    using printf_text_sees [OF conjunct1 [OF pl] conjunct2 [OF pl] assms(1)] by blast
  note l = lineLoop_sees [OF r(2) assms(2,3), of 0 buf, simplified]
  show ?thesis
  proof (cases "line_fits (length buf) 0 cs")
    case True
    then obtain j buf' s' where "lineLoop io 0 buf [] r = Some (j, buf', [], s')" "j < length buf'"
      "length buf' = length buf" "take j buf' = line_of [] cs"
      and sh: "sees s' (fold t_char (echo_of 0 cs) (fold t_char (ctext ''$> '') t)) q" using l by auto
    then show ?thesis using True r(1) putc_sees [OF sh, of 10] by (auto simp: readLine_def)
  next
    case False
    then show ?thesis using l r(1)
      by (auto simp: readLine_def split: option.splits prod.splits bind_splits)
  qed
qed

end

lemma line_of_keeps: "0 \<notin> set l \<Longrightarrow> 0 \<notin> set cs \<Longrightarrow> 0 \<notin> set (line_of l cs)"
  by (induction cs arbitrary: l) (auto dest: in_set_butlastD)

lemma line_fits_length: "line_fits n (length l) cs \<Longrightarrow> length (line_of l cs) < n"
  by (induction cs arbitrary: l) (auto split: if_splits)

subsection \<open>The commands\<close>

lemma strcmp_text_0: "0 \<notin> set line \<Longrightarrow> plain w \<Longrightarrow> strcmp_text line (ctext w) = 0 \<longleftrightarrow> line = ctext w"
  and strcmp_text_0': "0 \<notin> set line \<Longrightarrow> plain w \<Longrightarrow> strcmp_text (ctext w) line = 0 \<longleftrightarrow> line = ctext w"
  using first_difference_0 [of line "ctext w"] first_difference_0 [of "ctext w" line] ctext_plain [of w]
  by (auto simp: strcmp_text_def)

lemma startsWith_prefix: "startsWith xs ys \<longleftrightarrow> prefix xs ys"
  by (induction xs ys rule: startsWith.induct) (auto split: list.splits)

lemma u_clearScreen_sees:
  assumes "sees_kernel env k t q"
  shows "\<exists>k'. u_clearScreen env k = Some k' \<and> sees_kernel env k' blank_terminal q"
proof -
  define v where "v = clearScreen (k_con k)"
  have "only_video (k_con k) v" unfolding v_def clearScreen_def by (rule only_video_upd)
  note same = only_video_query(1,2) [OF this]
  have "u_clearScreen env k = Some (k\<lparr>k_con := v\<rparr>)"
    by (simp add: u_clearScreen_def call0_def syscall_def systemCall_def clearScreenSys_def v_def)
  then show ?thesis using assms same clearScreen_shows [of "k_con k", folded v_def]
    by (intro exI [of _ "k\<lparr>k_con := v\<rparr>"]) (simp add: sees_kernel_def)
qed

lemma uputs_sees:
  assumes "sees_kernel env k t q" and "str_ok w"
  shows "\<exists>k'. uputs env w k = Some k' \<and> sees_kernel env k' (fold t_char (w @ [10]) t) q"
  using console.puts_sees [OF assms] by (auto simp: uputs_def)

lemma printAll_sees:
  assumes "sees_kernel env k t q" and "\<forall>w \<in> set ws. 0 \<notin> set w \<and> 37 \<notin> set w"
  shows "\<exists>k'. printAll env ws k = Some k' \<and> sees_kernel env k' (fold t_char (concat ws) t) q"
  using assms
proof (induction ws arbitrary: k t)
  case (Cons w ws)
  then obtain r where r: "printf (user_io env) w [] k = Some r" "sees_kernel env r (fold t_char w t) q"
    using console.printf_text_sees [of w env k t q] by auto
  then show ?case using Cons.IH [OF r(2)] Cons.prems(2) by simp
qed simp

lemma help_plain: "\<forall>w \<in> set help_lines. 0 \<notin> set w \<and> 37 \<notin> set w"
  by (simp add: help_lines_def nl_def ctext_plain plain_def)

definition screen_after :: "byte list \<Rightarrow> terminal \<Rightarrow> terminal option" where
  \<comment> \<open>the screen after a command that only prints\<close>
  "screen_after line t =
     (if line = ctext ''help'' then Some (fold t_char (concat help_lines) t)
      else if prefix (ctext ''echo '') line then Some (fold t_char (drop 5 line @ [10]) t)
      else if line = ctext ''hola'' then Some (fold t_char (ctext ''  Hola! Mi nombre es NetSky'' @ [10]) t)
      else if line = ctext ''2048game'' then Some (fold t_char (ctext ''Run 2048'' @ [10]) blank_terminal)
      else if line = ctext ''clear'' then Some blank_terminal
      else if prefix (ctext ''chat'') line then Some (fold t_char (ctext ''Run my Chat'' @ [10]) blank_terminal)
      else if line \<in> ctext ` {''ps'', ''philosophers'', ''prodcons'', ''new shell'', ''pipes''} then None
      else Some (fold t_char (ctext ''  Command not found - help for instructions'' @ [10]) t))"

lemma clear_then_print:
  assumes "sees_kernel env k t q" and "plain w"
  shows "\<exists>k'. do { k \<leftarrow> u_clearScreen env k; printf (user_io env) (ctext w @ nl) [] k } = Some k'
    \<and> sees_kernel env k' (fold t_char (ctext w @ [10]) blank_terminal) q"
proof -
  obtain r where r: "u_clearScreen env k = Some r" "sees_kernel env r blank_terminal q"
    using u_clearScreen_sees [OF assms(1)] by blast
  have "0 \<notin> set (ctext w @ [10])" "37 \<notin> set (ctext w @ [10])" using ctext_plain [OF assms(2)] by simp_all
  from console.printf_text_sees [OF this r(2)] show ?thesis using r(1) by (simp add: nl_def)
qed

lemma processComand_eq:
  assumes "0 \<notin> set line"
  shows "processComand env prog line k =
     (if line = ctext ''help'' then printAll env help_lines k
      else if prefix (ctext ''echo '') line then uputs env (drop 5 line) k
      else if line = ctext ''hola'' then uputs env (ctext ''  Hola! Mi nombre es NetSky'') k
      else if line = ctext ''2048game'' then do { k \<leftarrow> u_clearScreen env k; printf (user_io env) (ctext ''Run 2048'' @ nl) [] k }
      else if line = ctext ''clear'' then u_clearScreen env k
      else if prefix (ctext ''chat'') line then do { k \<leftarrow> u_clearScreen env k; printf (user_io env) (ctext ''Run my Chat'' @ nl) [] k }
      else if line = ctext ''ps'' then u_ps env k
      else if line = ctext ''philosophers'' then start env prog (philosophers_at prog) ''phil'' k
      else if line = ctext ''prodcons'' then start env prog (prodcons_at prog) ''prod'' k
      else if line = ctext ''new shell'' then start env prog (shell_at prog) ''shell'' k
      else if line = ctext ''pipes'' then start env prog (testPipes1_at prog) ''pipe1'' k
      else uputs env (ctext ''  Command not found - help for instructions'') k)"
  by (simp add: processComand_def startsWith_prefix strcmp_text_0 [OF assms] strcmp_text_0' [OF assms] plain_def)

lemma processComand_sees:
  assumes "sees_kernel env k t q" and "0 \<notin> set line" and "length line < 2 ^ 31" and "screen_after line t = Some t'"
  shows "\<exists>k'. processComand env prog line k = Some k' \<and> sees_kernel env k' t' q"
proof -
  have ok: "str_ok (drop 5 line)" using assms(2,3) by (auto simp: str_ok_def dest: in_set_dropD)
  have lit: "str_ok (ctext w)" if "plain w" "length w < 2 ^ 31" for w using that ctext_plain by (simp add: str_ok_def)
  have plains: "plain ''  Hola! Mi nombre es NetSky''" "plain ''  Command not found - help for instructions''"
    "plain ''Run 2048''" "plain ''Run my Chat''" by (simp_all add: plain_def)
  note replies = uputs_sees [OF assms(1) lit [OF plains(1)]] uputs_sees [OF assms(1) lit [OF plains(2)]]
    clear_then_print [OF assms(1) plains(3)] clear_then_print [OF assms(1) plains(4)]
    printAll_sees [OF assms(1) help_plain] u_clearScreen_sees [OF assms(1)] uputs_sees [OF assms(1) ok]
  show ?thesis unfolding processComand_eq [OF assms(2)]
    using assms(4) [unfolded screen_after_def] replies by (auto split: if_splits)
qed

subsection \<open>Properties\<close>

definition demo_program :: program where
  "demo_program = \<lparr>exec_at = 0x400100, philosophers_at = 0x400200, prodcons_at = 0x400300, shell_at = 0x400400,
     testPipes1_at = 0x400500, testPipes2_at = 0x400600\<rparr>"

definition call_of :: "env \<Rightarrow> program \<Rightarrow> byte list \<Rightarrow> kernel \<Rightarrow> kernel option" where
  \<comment> \<open>the call that each of the five commands makes that are not answered by the shell itself\<close>
  "call_of env prog line =
     (if line = ctext ''ps'' then u_ps env
      else if line = ctext ''philosophers'' then start env prog (philosophers_at prog) ''phil''
      else if line = ctext ''prodcons'' then start env prog (prodcons_at prog) ''prod''
      else if line = ctext ''new shell'' then start env prog (shell_at prog) ''shell''
      else start env prog (testPipes1_at prog) ''pipe1'')"

lemma processComand_calls:
  assumes "0 \<notin> set line" and "screen_after line t = None"
  shows "processComand env prog line k = call_of env prog line k"
proof -
  have "line \<in> ctext ` {''ps'', ''philosophers'', ''prodcons'', ''new shell'', ''pipes''}"
    using assms(2) by (simp add: screen_after_def split: if_splits)
  then show ?thesis
    unfolding processComand_eq [OF assms(1)] by (elim imageE insertE emptyE) (simp_all add: call_of_def ctext_def prefix_def)
qed

text \<open>C34. One round of the shell, from the keys that were typed to the screen, whatever the line is.  If the line, before
  a correction is typed, reaches 100 characters, the round leaves the line buffer and has no result.  Otherwise the
  prompt and the echo of the line with its corrections appear on the terminal; for \<open>help\<close>, \<open>echo\<close>, \<open>hola\<close>, \<open>2048game\<close>,
  \<open>clear\<close>, \<open>chat\<close> and unknown commands (\<open>screen_after\<close>) the answer appears behind them, and the keys behind the line
  still wait; for \<open>ps\<close>, \<open>philosophers\<close>, \<open>prodcons\<close>, \<open>new shell\<close> and \<open>pipes\<close> the round is the system call of \<open>ps\<close>, or
  the start of the program's process, on the kernel with the echoed line.\<close>

theorem shell_answers:
  assumes "sees_kernel env k t (cs @ 10 # q)" and "10 \<notin> set cs" and "length buf = 100"
  shows "if line_fits 100 0 cs
    then \<exists>buf' r. readLine (user_io env) buf [] k = Some (line_of [] cs, buf', [], r) \<and> length buf' = 100
      \<and> sees_kernel env r (fold t_char (ctext ''$> '' @ echo_of 0 cs @ [10]) t) q
      \<and> (case screen_after (line_of [] cs) (fold t_char (ctext ''$> '' @ echo_of 0 cs @ [10]) t) of
           Some t' \<Rightarrow> \<exists>k'. shellRound env prog buf [] k = Some (buf', [], k') \<and> sees_kernel env k' t' q
         | None \<Rightarrow> shellRound env prog buf [] k = do { k' \<leftarrow> call_of env prog (line_of [] cs) r; Some (buf', [], k') })
    else shellRound env prog buf [] k = None"
proof -
  have nz: "0 \<notin> set cs" using assms(1) by (simp add: sees_kernel_def)
  note line = console.readLine_sees [OF assms(1,2) nz, of buf]
  show ?thesis
  proof (cases "line_fits 100 0 cs")
    case False
    then show ?thesis using line assms(3) by (simp add: shellRound_def)
  next
    case True
    then obtain buf' r where r: "readLine (user_io env) buf [] k = Some (line_of [] cs, buf', [], r)" "length buf' = 100"
      "sees_kernel env r (fold t_char (ctext ''$> '' @ echo_of 0 cs @ [10]) t) q"
      using line assms(3) by auto
    have l: "length (line_of [] cs) < 2 ^ 31" "0 \<notin> set (line_of [] cs)"
      using line_fits_length [of 100 "[]" cs] True line_of_keeps [of "[]" cs] nz by simp_all
    show ?thesis
    proof (cases "screen_after (line_of [] cs) (fold t_char (ctext ''$> '' @ echo_of 0 cs @ [10]) t)")
      case None
      then show ?thesis using r True processComand_calls [OF l(2) None, of env prog r] by (simp add: shellRound_def)
    next
      case (Some t')
      then obtain k' where "processComand env prog (line_of [] cs) r = Some k'" "sees_kernel env k' t' q"
        using processComand_sees [OF r(3) l(2,1) Some, of prog] by blast
      then show ?thesis using r True Some by (simp add: shellRound_def)
    qed
  qed
qed

theorem shell_answers_witness:
  "\<exists>buf' k'. shellRound demo_env demo_program (replicate 100 0) [] (demo_kernel (ctext ''echo ho'' @ [8, 105, 10])) = Some (buf', [], k')
    \<and> length buf' = 100
    \<and> sees_kernel demo_env k' (fold t_char (ctext ''hi'' @ [10]) (fold t_char (ctext ''$> echo ho'' @ [8, 105, 10]) blank_terminal)) []"
proof -
  let ?cs = "ctext ''echo ho'' @ [8, 105]"
  have line: "line_of [] ?cs = ctext ''echo '' @ ctext ''hi''" and fits: "line_fits 100 0 ?cs" and nz: "10 \<notin> set ?cs" "0 \<notin> set ?cs"
    and echo: "ctext ''$> '' @ echo_of 0 ?cs @ [10] = ctext ''$> echo ho'' @ [8, 105, 10]"
    by (simp_all add: ctext_def)
  have "sees_kernel demo_env (demo_kernel (?cs @ 10 # [])) blank_terminal (?cs @ 10 # [])"
    using nz(2) by (intro demo_sees) auto
  moreover have "screen_after (line_of [] ?cs) t = Some (fold t_char (ctext ''hi'' @ [10]) t)" for t
    unfolding line by (auto simp: screen_after_def ctext_def)
  ultimately obtain buf' r where "length buf' = (100 :: nat)"
    and "\<exists>k'. shellRound demo_env demo_program (replicate 100 0) [] (demo_kernel (?cs @ 10 # [])) = Some (buf', [], k')
      \<and> sees_kernel demo_env k' (fold t_char (ctext ''hi'' @ [10]) (fold t_char (ctext ''$> '' @ echo_of 0 ?cs @ [10]) blank_terminal)) []"
    using shell_answers [of demo_env "demo_kernel (?cs @ 10 # [])" blank_terminal ?cs "[]" "replicate 100 0" demo_program] fits nz(1)
    by (simp only: if_True option.case length_replicate simp_thms) blast
  then show ?thesis unfolding echo by (simp only: append_assoc append.simps) blast
qed

text \<open>The line buffer is not guarded: reading a line leaves the array exactly when the line, before a
  correction is typed, reaches 100 characters.\<close>

theorem shell_line_limit:
  assumes "sees_kernel env k t (cs @ 10 # q)" and "10 \<notin> set cs" and "length buf = 100"
  shows "readLine (user_io env) buf [] k \<noteq> None \<longleftrightarrow> line_fits 100 0 cs"
proof -
  have "0 \<notin> set cs" using assms(1) by (simp add: sees_kernel_def)
  from console.readLine_sees [OF assms(1,2) this, of buf] show ?thesis using assms(3) by (auto split: if_splits)
qed

theorem shell_line_limit_witness:
  "readLine (user_io demo_env) (replicate 100 0) [] (demo_kernel (ctext ''ps'' @ 10 # [])) \<noteq> None \<longleftrightarrow> line_fits 100 0 (ctext ''ps'')"
  by (rule shell_line_limit [OF demo_sees]) (simp_all add: ctext_def)

end
