(* ===== verification/PipeTalk.thy ===== *)
theory PipeTalk
  imports PipeFs
begin

section \<open>The conversation through pipes (\<open>Userland/SampleCodeModule/shell.c\<close>)\<close>

text \<open>
  The command \<open>pipes\<close> starts \<open>testPipes1\<close> (Joaquin), which starts \<open>testPipes2\<close> (Ella); the two processes
  share the globals \<open>pipeName\<close>, \<open>pipeName2\<close> and \<open>count\<close> and talk through one pipe in each direction.  A process is
  the list of its calls, without the waiting loops of \<open>mySleep\<close>; after every call the other one may run.  Both have
  their two buffers of 200 characters from \<open>malloc\<close>, which does not clear them and gives a page each: a buffer is the list of
  the characters from its start on, at least 200, with whatever the page held.  No call may store behind the first 200.

  A pipe is an abstract copy of what the kernel makes of it, the queue of its characters: \<open>send\<close> appends the characters of
  the string without its null character and wakes the reader; \<open>receive\<close> takes all that the pipe holds, again without a
  null character, or puts the caller to sleep.  The lemmas \<open>send_is_writeToPipe\<close> and \<open>receive_is_readFromPipe\<close> at the end tie both
  to the functions of theory \<open>PipeFs\<close>.
\<close>

subsection \<open>Definitions\<close>

datatype who = Joaquin | Ella

fun other :: "who \<Rightarrow> who" where "other Joaquin = Ella" | "other Ella = Joaquin"

datatype call =
    Print string
  | NewPipe        \<comment> \<open>\<open>pipeName = createPipe(...)\<close>\<close>
  | AwaitPipes     \<comment> \<open>\<open>while(pipeName == NULL || pipeName2 == NULL);\<close>\<close>
  | Copy string    \<comment> \<open>\<open>strcpy(buff, ...)\<close>\<close>
  | Send           \<comment> \<open>\<open>send(..., buff)\<close>\<close>
  | Clear          \<comment> \<open>\<open>buff2[0] = 0\<close>\<close>
  | Receive        \<comment> \<open>\<open>while(buff2[0] == 0) receive(..., buff2);\<close>\<close>
  | Say            \<comment> \<open>\<open>printf("%d - ...: %s...\n", count++, buff2)\<close>; without a null character in the page the text
      goes on with the memory behind it, which is not recorded\<close>

datatype line = Line string | Said int string

record talk =
  made :: "who \<Rightarrow> bool"       \<comment> \<open>the pipe this process writes to\<close>
  piped :: "who \<Rightarrow> string"    \<comment> \<open>what it holds\<close>
  tbuff :: "who \<Rightarrow> string"
  tbuff2 :: "who \<Rightarrow> string"
  tcount :: int
  printed :: "who \<Rightarrow> line list"
  dozes :: "who \<Rightarrow> bool"
  place :: "who \<Rightarrow> nat"

definition hear :: "call list" where "hear = [Clear, Receive, Say]"
definition reply :: "string \<Rightarrow> call list" where "reply w = [Copy w, Send]"

definition testPipes1 :: "call list" where
  "testPipes1 = [Print ''Cargando joaquin...'', Print ''Afinando joaquin...'', NewPipe, AwaitPipes]
     @ reply ''Quien es...'' @ hear
     @ reply ''Que vienes a buscar...'' @ hear
     @ reply ''Ya es tarde ...'' @ hear
     @ reply ''Porque ahora soy yo la que quiere estar sin ti ...'' @ hear
     @ [Print ''Terminado el'']"

definition testPipes2 :: "call list" where
  "testPipes2 = [Print ''Cargando ella...'', Print ''Afinando ella...'', NewPipe, AwaitPipes]
     @ hear @ reply ''Soy yo...''
     @ hear @ reply ''A ti ...''
     @ hear @ reply ''Porque...''
     @ hear
     @ [Print ''Terminado ella'']"

fun code_of :: "who \<Rightarrow> call list" where
  "code_of Joaquin = testPipes1"
| "code_of Ella = testPipes2"

abbreviation (input) nul :: char where "nul \<equiv> CHR 0x00"

definition cstr :: "string \<Rightarrow> string" where
  \<comment> \<open>the string at the start of a buffer, as far as the buffer goes\<close>
  "cstr b = takeWhile (\<lambda>c. c \<noteq> nul) b"

definition over :: "string \<Rightarrow> string \<Rightarrow> string" where
  \<comment> \<open>characters stored at the start of a buffer\<close>
  "over w b = w @ drop (length w) b"

definition next_call :: "who \<Rightarrow> talk \<Rightarrow> talk" where
  "next_call p s = s\<lparr>place := (place s)(p := place s p + 1)\<rparr>"

definition exec_call :: "who \<Rightarrow> call \<Rightarrow> talk \<Rightarrow> talk option" where
  \<comment> \<open>\<open>None\<close> when a buffer is overrun or a pipe does not exist\<close>
  "exec_call p i s =
     (case i of
        Print w \<Rightarrow> Some (next_call p (s\<lparr>printed := (printed s)(p := printed s p @ [Line w])\<rparr>))
      | NewPipe \<Rightarrow> Some (next_call p (s\<lparr>made := (made s)(p := True)\<rparr>))
      | AwaitPipes \<Rightarrow> Some (if made s Joaquin \<and> made s Ella then next_call p s else s)
      | Copy w \<Rightarrow>
          if length w < 200 then Some (next_call p (s\<lparr>tbuff := (tbuff s)(p := over (w @ [nul]) (tbuff s p))\<rparr>))
          else None
      | Send \<Rightarrow>
          if made s p \<and> nul \<in> set (tbuff s p) then
            Some (next_call p (s\<lparr>piped := (piped s)(p := take 4096 (piped s p @ cstr (tbuff s p))),
              dozes := (if cstr (tbuff s p) \<noteq> [] \<and> length (piped s p) < 4096 then (dozes s)(other p := False) else dozes s)\<rparr>))
          else None
      | Clear \<Rightarrow> if tbuff2 s p \<noteq> [] then Some (next_call p (s\<lparr>tbuff2 := (tbuff2 s)(p := (tbuff2 s p)[0 := nul])\<rparr>)) else None
      | Receive \<Rightarrow>
          if \<not> made s (other p) \<or> tbuff2 s p = [] then None
          else if tbuff2 s p ! 0 \<noteq> nul then Some (next_call p s)
          else if piped s (other p) = [] then Some (s\<lparr>dozes := (dozes s)(p := True)\<rparr>)
          else if length (piped s (other p)) \<le> 200 then
            (let b = over (piped s (other p)) (tbuff2 s p);
                 s = s\<lparr>tbuff2 := (tbuff2 s)(p := b), piped := (piped s)(other p := [])\<rparr>
             in Some (if b ! 0 \<noteq> nul then next_call p s else s))
          else None
      | Say \<Rightarrow> Some (next_call p (s\<lparr>printed := (printed s)(p := printed s p @ [Said (tcount s) (cstr (tbuff2 s p))]),
          tcount := tcount s + 1\<rparr>)))"

definition can_go :: "who \<Rightarrow> talk \<Rightarrow> bool" where
  "can_go p s \<longleftrightarrow> \<not> dozes s p \<and> place s p < length (code_of p)"

definition talk_step :: "who \<Rightarrow> talk \<Rightarrow> talk option" where
  "talk_step p s = exec_call p (code_of p ! place s p) s"

fun talk_run :: "who list \<Rightarrow> talk \<Rightarrow> talk option" where
  \<comment> \<open>the processes make their calls in this order\<close>
  "talk_run [] s = Some s"
| "talk_run (p # ps) s = (if can_go p s then do { s \<leftarrow> talk_step p s; talk_run ps s } else None)"

definition talk_start :: "(who \<Rightarrow> string) \<Rightarrow> (who \<Rightarrow> string) \<Rightarrow> talk" where
  \<comment> \<open>when both processes exist; \<open>junk1\<close>, \<open>junk2\<close>: what \<open>malloc\<close> returned\<close>
  "talk_start junk1 junk2 = \<lparr>made = (\<lambda>_. False), piped = (\<lambda>_. []), tbuff = junk1, tbuff2 = junk2, tcount = 0,
     printed = (\<lambda>_. []), dozes = (\<lambda>_. False), place = (\<lambda>_. 0)\<rparr>"

inductive talk_reach :: "(who \<Rightarrow> string) \<Rightarrow> (who \<Rightarrow> string) \<Rightarrow> talk \<Rightarrow> bool" for junk1 junk2 where
  start: "talk_reach junk1 junk2 (talk_start junk1 junk2)"
| step: "talk_reach junk1 junk2 s \<Longrightarrow> can_go p s \<Longrightarrow> talk_step p s = Some t \<Longrightarrow> talk_reach junk1 junk2 t"

subsection \<open>What is said and heard\<close>

fun speech :: "who \<Rightarrow> string list" where
  "speech Joaquin = [''Quien es...'', ''Que vienes a buscar...'', ''Ya es tarde ...'', ''Porque ahora soy yo la que quiere estar sin ti ...'']"
| "speech Ella = [''Soy yo...'', ''A ti ...'', ''Porque...'']"

primrec heard :: "(who \<Rightarrow> string) \<Rightarrow> who \<Rightarrow> nat \<Rightarrow> string" where
  \<comment> \<open>\<open>buff2\<close> after so many messages\<close>
  "heard junk p 0 = junk p"
| "heard junk p (Suc k) = over (speech (other p) ! k) ((heard junk p k)[0 := nul])"

definition calls :: "call \<Rightarrow> who \<Rightarrow> nat \<Rightarrow> nat" where
  \<comment> \<open>how often the call occurs before place \<open>n\<close>\<close>
  "calls c p n = length (filter (\<lambda>d. d = c) (take n (code_of p)))"

definition at_call :: "call \<Rightarrow> who \<Rightarrow> nat \<Rightarrow> bool" where
  "at_call c p n \<longleftrightarrow> n < length (code_of p) \<and> code_of p ! n = c"

primrec script :: "(who \<Rightarrow> string) \<Rightarrow> who \<Rightarrow> nat \<Rightarrow> line list" where
  \<comment> \<open>what the process has printed at place \<open>n\<close>: the speaker who answers has the odd numbers\<close>
  "script junk p 0 = []"
| "script junk p (Suc n) = script junk p n @
     (case code_of p ! n of
        Print w \<Rightarrow> [Line w]
      | Say \<Rightarrow> [Said (2 * int (calls Say p n) + (if p = Joaquin then 1 else 0)) (cstr (heard junk p (calls Receive p n)))]
      | _ \<Rightarrow> [])"

lemma calls_Suc: "n < length (code_of p) \<Longrightarrow> calls c p (Suc n) = calls c p n + (if code_of p ! n = c then 1 else 0)"
  by (simp add: calls_def take_Suc_conv_app_nth)

lemma calls_0 [simp]: "calls c p 0 = 0"
  by (simp add: calls_def)

definition turn_ok :: "who \<Rightarrow> nat \<Rightarrow> bool" where
  \<comment> \<open>who speaks first has sent as many messages as he has got, or one more\<close>
  "turn_ok p n \<longleftrightarrow> (let sent = calls Send p n; got = calls Receive p n; said = calls Say p n in
     (case p of
        Joaquin \<Rightarrow> said \<le> got \<and> got \<le> said + 1 \<and> got \<le> sent \<and> sent \<le> said + 1 \<and> sent \<le> 4 \<and> (got \<le> 3 \<longleftrightarrow> n \<le> 22)
          \<and> (at_call Receive p n \<longrightarrow> sent = got + 1) \<and> (at_call Say p n \<longrightarrow> got = said + 1 \<and> sent = got)
          \<and> (at_call Send p n \<longrightarrow> sent = got \<and> sent < 4)
      | Ella \<Rightarrow> sent \<le> said \<and> said \<le> got \<and> got \<le> sent + 1 \<and> got \<le> said + 1 \<and> sent \<le> 3
          \<and> (at_call Receive p n \<longrightarrow> got = sent) \<and> (at_call Say p n \<longrightarrow> got = said + 1 \<and> sent = said)
          \<and> (at_call Send p n \<longrightarrow> got = sent + 1 \<and> said = got \<and> sent < 3)))"

definition code_ok :: "who \<Rightarrow> nat \<Rightarrow> bool" where
  "code_ok p n \<longleftrightarrow> turn_ok p n
     \<and> (n < length (code_of p) \<longrightarrow>
         (at_call Send p (n + 1) \<longrightarrow> at_call (Copy (speech p ! calls Send p n)) p n)
       \<and> (case code_of p ! n of
            Copy w \<Rightarrow> w = speech p ! calls Send p n \<and> w \<noteq> [] \<and> length w \<le> 50 \<and> nul \<notin> set w
          | _ \<Rightarrow> True)
       \<and> at_call Receive p (n + 1) = at_call Clear p n
       \<and> (at_call NewPipe p n \<longleftrightarrow> n = 2) \<and> (at_call AwaitPipes p n \<longleftrightarrow> n = 3)
       \<and> (n \<le> 3 \<longrightarrow> code_of p ! n \<notin> {Send, Receive, Say}))"

lemma code_checked: "list_all (\<lambda>p. list_all (code_ok p) [0..<Suc (length (code_of p))]) [Joaquin, Ella]"
  by code_simp

lemma speech_checked: "list_all (\<lambda>p. list_all (\<lambda>w. w \<noteq> [] \<and> length w \<le> 50 \<and> nul \<notin> set w) (speech p)) [Joaquin, Ella]"
  by code_simp

lemma code_okI: "n \<le> length (code_of p) \<Longrightarrow> code_ok p n"
  using code_checked by (cases p) (auto simp: list_all_iff simp del: upt_Suc code_of.simps)

lemma speech_ok:
  assumes "k < length (speech p)"
  shows "speech p ! k \<noteq> [] \<and> length (speech p ! k) \<le> 50 \<and> nul \<notin> set (speech p ! k)"
  using speech_checked nth_mem [OF assms] by (cases p) (auto simp: list_all_iff simp del: speech.simps)

lemma length_speech: "length (speech Joaquin) = 4" "length (speech Ella) = 3"
  by simp_all

lemma other_other [simp]: "other (other p) = p" "other p \<noteq> p" "p \<noteq> other p"
  by (cases p; simp)+

subsection \<open>The invariant\<close>

definition got :: "talk \<Rightarrow> who \<Rightarrow> nat" where "got s p = calls Receive p (place s p)"
definition sent :: "talk \<Rightarrow> who \<Rightarrow> nat" where "sent s p = calls Send p (place s p)"

definition own_ok :: "(who \<Rightarrow> string) \<Rightarrow> talk \<Rightarrow> who \<Rightarrow> bool" where
  "own_ok junk s p \<longleftrightarrow> place s p \<le> length (code_of p) \<and> 200 \<le> length (tbuff s p)
     \<and> (at_call Send p (place s p) \<longrightarrow> cstr (tbuff s p) = speech p ! sent s p \<and> nul \<in> set (tbuff s p))
     \<and> tbuff2 s p = (if at_call Receive p (place s p) then (heard junk p (got s p))[0 := nul] else heard junk p (got s p))
     \<and> printed s p = script junk p (place s p) \<and> (made s p \<longleftrightarrow> 2 < place s p) \<and> (3 < place s p \<longrightarrow> made s (other p))
     \<and> (dozes s p \<longrightarrow> at_call Receive p (place s p) \<and> piped s (other p) = [])"

definition link_ok :: "talk \<Rightarrow> who \<Rightarrow> bool" where
  \<comment> \<open>a pipe holds the message that is sent and not received yet\<close>
  "link_ok s p \<longleftrightarrow> got s (other p) \<le> sent s p \<and> sent s p \<le> got s (other p) + 1
     \<and> piped s p = (if sent s p = got s (other p) then [] else speech p ! got s (other p))"

definition talk_ok :: "(who \<Rightarrow> string) \<Rightarrow> talk \<Rightarrow> bool" where
  "talk_ok junk s \<longleftrightarrow> (\<forall>p. own_ok junk s p \<and> link_ok s p)
     \<and> tcount s = int (calls Say Joaquin (place s Joaquin)) + int (calls Say Ella (place s Ella))"

abbreviation (input) roomy :: "(who \<Rightarrow> string) \<Rightarrow> bool" where
  "roomy junk \<equiv> \<forall>p. 200 \<le> length (junk p)"

lemma length_over: "length w \<le> length b \<Longrightarrow> length (over w b) = length b"
  by (simp add: over_def)

lemma heard_length:
  assumes "roomy junk" and "k \<le> length (speech (other p))"
  shows "200 \<le> length (heard junk p k)"
  using assms(2)
proof (induction k)
  case 0
  then show ?case using assms(1) by simp
next
  case (Suc k)
  have "length (speech (other p) ! k) \<le> 50" using speech_ok [of k "other p"] Suc.prems by simp
  then show ?case using Suc by (simp add: length_over)
qed

lemma turn: "talk_ok junk s \<Longrightarrow> turn_ok p (place s p)"
  using code_okI by (auto simp: talk_ok_def own_ok_def code_ok_def)

lemma talk_ok_iff:
  "talk_ok junk s \<longleftrightarrow> own_ok junk s p \<and> own_ok junk s (other p) \<and> link_ok s p \<and> link_ok s (other p)
     \<and> tcount s = int (calls Say p (place s p)) + int (calls Say (other p) (place s (other p)))"
proof -
  have all: "(\<forall>q. P q) \<longleftrightarrow> P p \<and> P (other p)" for P by (cases p) (metis other.simps who.exhaust)+
  show ?thesis unfolding talk_ok_def all by (cases p) auto
qed

lemma after:
  assumes "n < length (code_of p)"
  shows "at_call Send p (Suc n) \<Longrightarrow> code_of p ! n = Copy (speech p ! calls Send p n)"
    and "code_of p ! n = Copy w \<Longrightarrow> w = speech p ! calls Send p n \<and> w \<noteq> [] \<and> length w \<le> 50 \<and> nul \<notin> set w"
    and "at_call Receive p (Suc n) \<longleftrightarrow> code_of p ! n = Clear"
    and "code_of p ! n = NewPipe \<longleftrightarrow> n = 2" and "code_of p ! n = AwaitPipes \<longleftrightarrow> n = 3"
    and "code_of p ! n \<in> {Send, Receive, Say} \<Longrightarrow> 3 < n"
  using code_okI [of n p] assms by (auto simp: code_ok_def at_call_def)

lemmas step_simps = talk_step_def exec_call_def next_call_def own_ok_def link_ok_def got_def sent_def calls_Suc

lemma cstr_over [simp]: "nul \<notin> set w \<Longrightarrow> cstr (over (w @ [nul]) b) = w"
  by (simp add: cstr_def over_def) (subst takeWhile_append2; auto)

lemma next_own:
  assumes own: "own_ok junk s p" and n: "place s p < length (code_of p)"
    and t: "place t p = Suc (place s p)" "200 \<le> length (tbuff t p)" "\<not> dozes t p"
    and send: "\<And>w. code_of p ! place s p = Copy w \<Longrightarrow> cstr (tbuff t p) = w \<and> nul \<in> set (tbuff t p)"
    and b: "tbuff2 t p = (if code_of p ! place s p = Clear then (tbuff2 s p)[0 := nul]
      else if code_of p ! place s p = Receive then heard junk p (Suc (got s p)) else tbuff2 s p)"
    and out: "printed t p = script junk p (Suc (place s p))"
    and made: "made t p \<longleftrightarrow> 2 \<le> place s p" "3 \<le> place s p \<Longrightarrow> made t (other p)"
  shows "own_ok junk t p"
proof -
  note a = after [OF n]
  have at: "at_call c p (place s p) \<longleftrightarrow> code_of p ! place s p = c" for c using n by (simp add: at_call_def)
  have "at_call Send p (place t p) \<longrightarrow> cstr (tbuff t p) = speech p ! sent t p \<and> nul \<in> set (tbuff t p)"
    using a(1) send t(1) n by (auto simp: sent_def calls_Suc)
  moreover have "tbuff2 t p = (if at_call Receive p (place t p) then (heard junk p (got t p))[0 := nul] else heard junk p (got t p))"
    using own b t(1) n a(3) at by (auto simp: own_ok_def got_def calls_Suc)
  ultimately show ?thesis using t out made n by (auto simp: own_ok_def)
qed

lemma own_keep:
  assumes "own_ok junk s p" and "place t p = place s p" "tbuff t p = tbuff s p" "tbuff2 t p = tbuff2 s p" "printed t p = printed s p"
    and "made t p = made s p" "made s (other p) \<Longrightarrow> made t (other p)"
    and "dozes t p \<Longrightarrow> dozes s p \<and> piped t (other p) = piped s (other p)"
  shows "own_ok junk t p"
  using assms by (auto simp: own_ok_def got_def sent_def)

lemma link_keep:
  assumes "link_ok s p" and "got t (other p) = got s (other p)" "sent t p = sent s p" "piped t p = piped s p"
  shows "link_ok t p"
  using assms by (simp add: link_ok_def)

lemma quiet_ok:
  \<comment> \<open>a call that neither sends, receives nor speaks\<close>
  assumes inv: "talk_ok junk s" and n: "place s p < length (code_of p)" "\<not> dozes s p"
    and i: "code_of p ! place s p \<notin> {Send, Receive, Say}"
    and t: "place t = (place s)(p := Suc (place s p))" "piped t = piped s" "tcount t = tcount s" "dozes t = dozes s"
      "tbuff t (other p) = tbuff s (other p)" "tbuff2 t (other p) = tbuff2 s (other p)" "printed t (other p) = printed s (other p)"
      "made t (other p) = made s (other p)" "made s p \<Longrightarrow> made t p"
    and p: "200 \<le> length (tbuff t p)"
      "\<And>w. code_of p ! place s p = Copy w \<Longrightarrow> cstr (tbuff t p) = w \<and> nul \<in> set (tbuff t p)"
      "tbuff2 t p = (if code_of p ! place s p = Clear then (tbuff2 s p)[0 := nul] else tbuff2 s p)"
      "printed t p = script junk p (Suc (place s p))"
      "made t p \<longleftrightarrow> 2 \<le> place s p" "3 \<le> place s p \<Longrightarrow> made s (other p)"
  shows "talk_ok junk t"
proof -
  note f = inv [unfolded talk_ok_iff [of _ _ p]]
  have same: "got t q = got s q" "sent t q = sent s q" "calls Say q (place t q) = calls Say q (place s q)" for q
    using i n(1) t(1) by (cases "q = p"; simp add: got_def sent_def calls_Suc)+
  have "own_ok junk t p" using next_own [OF conjunct1 [OF f] n(1), of t] t p n(2) i by simp
  moreover have "own_ok junk t (other p)" using own_keep [of junk s "other p" t] f t by simp
  moreover have "link_ok t q" for q using link_keep [of s q t] inv t same by (simp add: talk_ok_def)
  ultimately show ?thesis using f same t(3) by (simp add: talk_ok_iff [of _ t p])
qed

lemma talk_bounds:
  assumes "talk_ok junk s"
  shows "got s p \<le> length (speech (other p))" and "sent s p \<le> length (speech p)"
    and "at_call Send p (place s p) \<Longrightarrow> sent s p < length (speech p)"
proof -
  have l: "link_ok s Joaquin" "link_ok s Ella" using assms by (simp_all add: talk_ok_def)
  note l = l [unfolded link_ok_def] turn [OF assms, of Joaquin] turn [OF assms, of Ella]
  have "got s Joaquin \<le> 3" "got s Ella \<le> 4" "sent s Joaquin \<le> 4" "sent s Ella \<le> 3"
    "at_call Send Joaquin (place s Joaquin) \<Longrightarrow> sent s Joaquin < 4" "at_call Send Ella (place s Ella) \<Longrightarrow> sent s Ella < 3"
    using l by (simp_all add: turn_ok_def Let_def got_def sent_def)
  then show "got s p \<le> length (speech (other p))" "sent s p \<le> length (speech p)"
    "at_call Send p (place s p) \<Longrightarrow> sent s p < length (speech p)" by (cases p; simp)+
qed

lemma own_D:
  assumes "roomy junk" and "talk_ok junk s"
  shows "made s p \<longleftrightarrow> 2 < place s p" "3 < place s p \<Longrightarrow> made s (other p)" "printed s p = script junk p (place s p)"
    "200 \<le> length (tbuff s p)" "200 \<le> length (tbuff2 s p)"
proof -
  have o: "own_ok junk s p" using assms(2) by (simp add: talk_ok_def)
  then show "made s p \<longleftrightarrow> 2 < place s p" "3 < place s p \<Longrightarrow> made s (other p)" "printed s p = script junk p (place s p)"
    "200 \<le> length (tbuff s p)" by (simp_all add: own_ok_def)
  show "200 \<le> length (tbuff2 s p)"
    using o heard_length [OF assms(1) talk_bounds(1) [OF assms(2)], of p] by (auto simp: own_ok_def)
qed

lemma step_quiet:
  assumes junk: "roomy junk" and inv: "talk_ok junk s" and n: "place s p < length (code_of p)" "\<not> dozes s p"
    and i: "code_of p ! place s p \<notin> {Send, Receive, Say}"
  shows "\<exists>t. talk_step p s = Some t \<and> talk_ok junk t
    \<and> (if code_of p ! place s p = AwaitPipes \<and> \<not> (made s Joaquin \<and> made s Ella) then t = s else place t = (place s)(p := Suc (place s p)))"
proof -
  note a = after [OF n(1)] and m = own_D [OF junk inv, of p]
  have "tbuff2 s p \<noteq> []" using m(5) by auto
  note m = this m
  note quiet = quiet_ok [OF inv n i]
  show ?thesis
  proof (cases "code_of p ! place s p")
    case (Print w)
    show ?thesis using Print a(4,5) m
      by (simp add: talk_step_def exec_call_def next_call_def) (rule quiet; auto)
  next
    case NewPipe
    then have "2 \<le> place s p" "\<not> 3 \<le> place s p" using a(4) by simp_all
    then show ?thesis using NewPipe m
      by (simp add: talk_step_def exec_call_def next_call_def) (rule quiet; auto)
  next
    case AwaitPipes
    have "made s Joaquin \<and> made s Ella \<longleftrightarrow> made s p \<and> made s (other p)" by (cases p) auto
    moreover have "2 \<le> place s p" "2 < place s p" using AwaitPipes a(5) by simp_all
    ultimately show ?thesis using AwaitPipes m(1,4,5) inv
      by (auto simp add: talk_step_def exec_call_def next_call_def intro!: quiet)
  next
    case (Copy w)
    have w: "length w \<le> 50" "nul \<notin> set w" using a(2) [OF Copy] by blast+
    show ?thesis using Copy w a(4,5) m
      by (simp add: talk_step_def exec_call_def next_call_def) (rule quiet; auto simp: length_over; simp add: over_def)
  next
    case Clear
    show ?thesis using Clear a(4,5) m
      by (simp add: talk_step_def exec_call_def next_call_def) (rule quiet; auto)
  qed (use i in simp_all)
qed

lemma pair_counts:
  \<comment> \<open>both counters when \<open>p\<close> is about to send, to receive or to speak\<close>
  assumes "talk_ok junk s" and n: "place s p < length (code_of p)"
  shows "code_of p ! place s p = Send \<Longrightarrow> sent s p = got s (other p)"
    and "code_of p ! place s p = Receive \<Longrightarrow> piped s (other p) \<noteq> [] \<Longrightarrow> sent s (other p) = Suc (got s p)"
    and "code_of p ! place s p = Say \<Longrightarrow>
      tcount s = 2 * int (calls Say p (place s p)) + (if p = Joaquin then 1 else 0)"
proof -
  have l: "link_ok s Joaquin" "link_ok s Ella" and c: "tcount s = int (calls Say Joaquin (place s Joaquin)) + int (calls Say Ella (place s Ella))"
    using assms by (simp_all add: talk_ok_def)
  note l = l [unfolded link_ok_def] turn [OF assms(1), of Joaquin] turn [OF assms(1), of Ella]
  have at: "at_call c p (place s p) \<longleftrightarrow> code_of p ! place s p = c" for c using n by (simp add: at_call_def)
  show "code_of p ! place s p = Send \<Longrightarrow> sent s p = got s (other p)"
    using l at [of Send] by (cases p) (simp_all add: turn_ok_def Let_def got_def sent_def)
  show "code_of p ! place s p = Receive \<Longrightarrow> piped s (other p) \<noteq> [] \<Longrightarrow> sent s (other p) = Suc (got s p)"
    using l at [of Receive] by (cases p) (simp_all add: turn_ok_def Let_def got_def sent_def split: if_splits)
  show "code_of p ! place s p = Say \<Longrightarrow> tcount s = 2 * int (calls Say p (place s p)) + (if p = Joaquin then 1 else 0)"
    using l c at [of Say] by (cases p) (simp_all add: turn_ok_def Let_def got_def sent_def)
qed

lemma step_speaks:
  assumes junk: "roomy junk" and inv: "talk_ok junk s" and n: "place s p < length (code_of p)" "\<not> dozes s p"
    and i: "code_of p ! place s p = Say"
  shows "\<exists>t. talk_step p s = Some t \<and> talk_ok junk t \<and> place t = (place s)(p := Suc (place s p))"
proof -
  note a = after [OF n(1)] and m = own_D [OF junk inv, of p] and f = inv [unfolded talk_ok_iff [of _ _ p]]
  let ?t = "next_call p (s\<lparr>printed := (printed s)(p := printed s p @ [Said (tcount s) (cstr (tbuff2 s p))]), tcount := tcount s + 1\<rparr>)"
  have at: "at_call c p (place s p) \<longleftrightarrow> code_of p ! place s p = c" for c using n by (simp add: at_call_def)
  have far: "3 < place s p" using a(6) i by simp
  have same: "got ?t q = got s q" "sent ?t q = sent s q" for q
    using i n(1) by (cases "q = p"; simp add: got_def sent_def calls_Suc next_call_def)+
  have heard: "tbuff2 s p = heard junk p (calls Receive p (place s p))" using f i at by (simp add: own_ok_def got_def)
  have "own_ok junk ?t p"
    using next_own [OF conjunct1 [OF f] n(1), of ?t] n i far m heard pair_counts(3) [OF inv n(1) i] by (simp add: next_call_def)
  moreover have "own_ok junk ?t (other p)" using own_keep [of junk s "other p" ?t] f by (simp add: next_call_def)
  moreover have "link_ok ?t q" for q using link_keep [of s q ?t] inv same by (simp add: talk_ok_def next_call_def)
  moreover have "tcount ?t = int (calls Say p (place ?t p)) + int (calls Say (other p) (place ?t (other p)))"
    using f n(1) i by (simp add: next_call_def calls_Suc)
  ultimately have "talk_ok junk ?t" unfolding talk_ok_iff [of _ ?t p] by blast
  moreover have "talk_step p s = Some ?t" using i by (simp add: talk_step_def exec_call_def)
  moreover have "place ?t = (place s)(p := Suc (place s p))" by (simp add: next_call_def)
  ultimately show ?thesis by blast
qed

lemma step_sends:
  assumes junk: "roomy junk" and inv: "talk_ok junk s" and n: "place s p < length (code_of p)" "\<not> dozes s p"
    and i: "code_of p ! place s p = Send"
  shows "\<exists>t. talk_step p s = Some t \<and> talk_ok junk t \<and> place t = (place s)(p := Suc (place s p))"
proof -
  note a = after [OF n(1)] and m = own_D [OF junk inv, of p] and f = inv [unfolded talk_ok_iff [of _ _ p]]
  let ?w = "speech p ! sent s p"
  let ?t = "next_call p (s\<lparr>piped := (piped s)(p := ?w), dozes := (dozes s)(other p := False)\<rparr>)"
  have at: "at_call c p (place s p) \<longleftrightarrow> code_of p ! place s p = c" for c using n by (simp add: at_call_def)
  have far: "3 < place s p" using a(6) i by simp
  have eq: "sent s p = got s (other p)" using pair_counts(1) [OF inv n(1) i] .
  then have empty: "piped s p = []" using f by (simp add: link_ok_def)
  have w: "?w \<noteq> []" "length ?w \<le> 50" using speech_ok [of "sent s p" p] talk_bounds(3) [OF inv, of p] at i by simp_all
  have buf: "cstr (tbuff s p) = ?w" "nul \<in> set (tbuff s p)" using f at i by (simp_all add: own_ok_def)
  have same: "got ?t q = got s q" "calls Say q (place ?t q) = calls Say q (place s q)"
    "sent ?t q = (if q = p then Suc (sent s p) else sent s q)" for q
    using i n(1) by (cases "q = p"; simp add: got_def sent_def calls_Suc next_call_def)+
  have "own_ok junk ?t p"
    using next_own [OF conjunct1 [OF f] n(1), of ?t] n i far m by (simp add: next_call_def)
  moreover have "own_ok junk ?t (other p)" using own_keep [of junk s "other p" ?t] f by (simp add: next_call_def)
  moreover have "link_ok ?t p" using eq same by (simp add: link_ok_def) (simp add: next_call_def)
  moreover have "link_ok ?t (other p)" using link_keep [of s "other p" ?t] f same by (simp add: next_call_def)
  moreover have "tcount ?t = tcount s" by (simp add: next_call_def)
  then have "tcount ?t = int (calls Say p (place ?t p)) + int (calls Say (other p) (place ?t (other p)))"
    using f unfolding same by simp
  ultimately have "talk_ok junk ?t" unfolding talk_ok_iff [of _ ?t p] by blast
  moreover have "talk_step p s = Some ?t"
    using m(1) far i buf w empty by (simp add: talk_step_def exec_call_def)
  moreover have "place ?t = (place s)(p := Suc (place s p))" by (simp add: next_call_def)
  ultimately show ?thesis by blast
qed

lemma step_receives:
  assumes junk: "roomy junk" and inv: "talk_ok junk s" and n: "place s p < length (code_of p)"
    and i: "code_of p ! place s p = Receive"
  shows "\<exists>t. talk_step p s = Some t \<and> talk_ok junk t
    \<and> (if piped s (other p) = [] then t = s\<lparr>dozes := (dozes s)(p := True)\<rparr> else place t = (place s)(p := Suc (place s p)))"
proof -
  note a = after [OF n(1)] and m = own_D [OF junk inv, of p] and f = inv [unfolded talk_ok_iff [of _ _ p]]
  have at: "at_call c p (place s p) \<longleftrightarrow> code_of p ! place s p = c" for c using n by (simp add: at_call_def)
  have far: "3 < place s p" using a(6) i by simp
  have b: "tbuff2 s p = (heard junk p (got s p))[0 := nul]" using f at i by (simp add: own_ok_def)
  have "tbuff2 s p \<noteq> []" using m(5) by auto
  moreover from this have "tbuff2 s p ! 0 = nul" using b by simp
  ultimately have b0: "tbuff2 s p ! 0 = nul" "tbuff2 s p \<noteq> []" by simp_all
  show ?thesis
  proof (cases "piped s (other p) = []")
    case True
    let ?t = "s\<lparr>dozes := (dozes s)(p := True)\<rparr>"
    have same: "got ?t q = got s q" "sent ?t q = sent s q" for q by (simp_all add: got_def sent_def)
    have "own_ok junk ?t p" using conjunct1 [OF f] True at i same by (simp add: own_ok_def)
    moreover have "own_ok junk ?t (other p)" using own_keep [of junk s "other p" ?t] f by simp
    moreover have "link_ok ?t q" for q using link_keep [of s q ?t] inv same by (simp add: talk_ok_def)
    ultimately have "talk_ok junk ?t" using f by (simp add: talk_ok_iff [of _ ?t p])
    moreover have "talk_step p s = Some ?t" using m(2) far i b0 True by (simp add: talk_step_def exec_call_def)
    ultimately show ?thesis using True by auto
  next
    case False
    let ?w = "speech (other p) ! got s p"
    let ?t = "next_call p (s\<lparr>tbuff2 := (tbuff2 s)(p := over ?w (tbuff2 s p)), piped := (piped s)(other p := [])\<rparr>)"
    have eq: "sent s (other p) = Suc (got s p)" using pair_counts(2) [OF inv n(1) i False] .
    then have q: "piped s (other p) = ?w" using f by (simp add: link_ok_def)
    have w: "?w \<noteq> []" "length ?w \<le> 50" "nul \<notin> set ?w"
      using speech_ok [of "got s p" "other p"] talk_bounds(2) [OF inv, of "other p"] eq by simp_all
    have awake: "\<not> dozes s p" using f False by (simp add: own_ok_def)
    have same: "sent ?t q = sent s q" "calls Say q (place ?t q) = calls Say q (place s q)"
      "got ?t q = (if q = p then Suc (got s p) else got s q)" for q
      using i n(1) by (cases "q = p"; simp add: got_def sent_def calls_Suc next_call_def)+
    have "own_ok junk ?t p"
      using next_own [OF conjunct1 [OF f] n(1), of ?t] n i far m awake b by (simp add: next_call_def)
    moreover have "own_ok junk ?t (other p)" using own_keep [of junk s "other p" ?t] f by (simp add: next_call_def)
    moreover have "link_ok ?t p" using link_keep [of s p ?t] f same by (simp add: next_call_def)
    moreover have "link_ok ?t (other p)" using eq same by (simp add: link_ok_def) (simp add: next_call_def)
    moreover have "tcount ?t = tcount s" by (simp add: next_call_def)
    then have "tcount ?t = int (calls Say p (place ?t p)) + int (calls Say (other p) (place ?t (other p)))"
      using f unfolding same by simp
    ultimately have "talk_ok junk ?t" unfolding talk_ok_iff [of _ ?t p] by blast
    moreover have "?w ! 0 \<in> set ?w" using w(1) by (intro nth_mem) simp
    then have "?w ! 0 \<noteq> nul" using w(3) by metis
    then have "over ?w (tbuff2 s p) ! 0 \<noteq> nul" using w(1) by (simp add: over_def nth_append)
    then have "talk_step p s = Some ?t"
      using m(2,5) far i b0 False q w by (simp add: talk_step_def exec_call_def Let_def)
    moreover have "place ?t = (place s)(p := Suc (place s p))" by (simp add: next_call_def)
    ultimately show ?thesis using False by auto
  qed
qed

lemma talk_step_ok:
  assumes "roomy junk" and "talk_ok junk s" and "can_go p s"
  shows "\<exists>t. talk_step p s = Some t \<and> talk_ok junk t"
proof -
  have n: "place s p < length (code_of p)" "\<not> dozes s p" using assms(3) by (simp_all add: can_go_def)
  show ?thesis
    using step_quiet [OF assms(1,2) n] step_speaks [OF assms(1,2) n] step_sends [OF assms(1,2) n] step_receives [OF assms(1,2) n(1)]
    by blast
qed

lemma talk_start_ok: "roomy junk1 \<Longrightarrow> roomy junk2 \<Longrightarrow> talk_ok junk2 (talk_start junk1 junk2)"
proof -
  have "code_of p ! 0 = Print (if p = Joaquin then ''Cargando joaquin...'' else ''Cargando ella...'')" for p
    by (cases p) (simp_all add: testPipes1_def testPipes2_def)
  moreover assume "roomy junk1"
  ultimately show ?thesis by (simp add: talk_ok_def own_ok_def link_ok_def talk_start_def got_def sent_def at_call_def)
qed

lemma talk_reach_ok:
  "talk_reach junk1 junk2 s \<Longrightarrow> roomy junk1 \<Longrightarrow> roomy junk2 \<Longrightarrow> talk_ok junk2 s"
proof (induction rule: talk_reach.induct)
  case start
  then show ?case using talk_start_ok by blast
next
  case (step s p t)
  then show ?case using talk_step_ok [of junk2 s p] by simp
qed

lemma joaquin_waits: "talk_ok junk s \<Longrightarrow> place s Joaquin \<le> 22"
  using turn [of junk s Joaquin] talk_bounds(1) [of junk s Joaquin] by (simp add: turn_ok_def Let_def got_def)

lemma code_lengths: "length (code_of Joaquin) = 25" "length (code_of Ella) = 23"
  by (simp_all add: testPipes1_def testPipes2_def hear_def reply_def)

lemma progress:
  assumes junk: "roomy junk" and inv: "talk_ok junk s"
  shows "(\<exists>p t. can_go p s \<and> talk_step p s = Some t \<and> talk_ok junk t \<and> place t = (place s)(p := Suc (place s p)))
    \<or> (place s Ella = length (code_of Ella) \<and> at_call Receive Joaquin (place s Joaquin) \<and> piped s Ella = [])"
proof (rule disjCI)
  assume end': "\<not> (place s Ella = length (code_of Ella) \<and> at_call Receive Joaquin (place s Joaquin) \<and> piped s Ella = [])"
  let ?held = "\<lambda>p. place s p = length (code_of p) \<or> code_of p ! place s p = AwaitPipes \<and> \<not> (made s Joaquin \<and> made s Ella)
      \<or> code_of p ! place s p = Receive \<and> piped s (other p) = []"
  have le: "place s p \<le> length (code_of p)" and doze: "dozes s p \<Longrightarrow> at_call Receive p (place s p) \<and> piped s (other p) = []" for p
    using inv by (auto simp: talk_ok_def own_ok_def)
  have free: "\<exists>p t. can_go p s \<and> talk_step p s = Some t \<and> talk_ok junk t \<and> place t = (place s)(p := Suc (place s p))"
    if h: "\<not> ?held p" for p
  proof -
    have n: "place s p < length (code_of p)" "\<not> dozes s p" using h le [of p] doze [of p] by (auto simp: at_call_def)
    then have "can_go p s" by (simp add: can_go_def)
    moreover have "\<exists>t. talk_step p s = Some t \<and> talk_ok junk t \<and> place t = (place s)(p := Suc (place s p))"
    proof (cases "code_of p ! place s p \<in> {Send, Receive, Say}")
      case True
      then show ?thesis
        using h step_speaks [OF junk inv n] step_sends [OF junk inv n] step_receives [OF junk inv n(1)] by auto
    next
      case False
      have no: "\<not> (code_of p ! place s p = AwaitPipes \<and> \<not> (made s Joaquin \<and> made s Ella))" using h by blast
      show ?thesis using step_quiet [OF junk inv n False] unfolding if_not_P [OF no] .
    qed
    ultimately show ?thesis by blast
  qed
  show "\<exists>p t. can_go p s \<and> talk_step p s = Some t \<and> talk_ok junk t \<and> place t = (place s)(p := Suc (place s p))"
  proof (rule ccontr)
    assume "\<not> ?thesis"
    then have held: "?held p" for p using free by blast
    have "made s p" for p
    proof -
      have "2 < place s p"
      proof (cases "place s p < length (code_of p)")
        case True
        then show ?thesis using held [of p] after(5,6) [OF True] by auto
      qed (use le [of p] code_lengths in \<open>cases p; simp\<close>)
      then show ?thesis using own_D(1) [OF junk inv, of p] by simp
    qed
    then have wait: "place s p = length (code_of p) \<or> at_call Receive p (place s p) \<and> piped s (other p) = []" for p
      using held [of p] le [of p] by (auto simp: at_call_def le_less)
    have l: "link_ok s Joaquin" "link_ok s Ella" using inv by (simp_all add: talk_ok_def)
    note t = turn [OF inv, of Joaquin] turn [OF inv, of Ella]
    have speech: "speech p ! k = [] \<Longrightarrow> k \<ge> length (speech p)" for p k using speech_ok [of k p] by (meson not_le)
    have "at_call Receive Joaquin (place s Joaquin)" "piped s Ella = []"
      using wait [of Joaquin] joaquin_waits [OF inv] code_lengths by auto
    moreover from this end' have "at_call Receive Ella (place s Ella)" "piped s Joaquin = []" using wait [of Ella] by auto
    ultimately show False
      using l t speech [of Joaquin "got s Ella"] speech [of Ella "got s Joaquin"] length_speech talk_bounds [OF inv]
      by (auto simp: link_ok_def turn_ok_def Let_def got_def sent_def split: if_splits)
  qed
qed

lemma run_to_end:
  assumes "roomy junk"
  shows "talk_ok junk s \<Longrightarrow> \<exists>ps t. talk_run ps s = Some t \<and> talk_ok junk t
    \<and> place t Ella = length (code_of Ella) \<and> at_call Receive Joaquin (place t Joaquin) \<and> dozes t Joaquin"
proof (induction "48 - (place s Joaquin + place s Ella)" arbitrary: s rule: less_induct)
  case less
  note le = joaquin_waits [OF less.prems]
  show ?case
  proof (cases "\<exists>p t. can_go p s \<and> talk_step p s = Some t \<and> talk_ok junk t \<and> place t = (place s)(p := Suc (place s p))")
    case True
    then obtain p t where t: "can_go p s" "talk_step p s = Some t" "talk_ok junk t" "place t = (place s)(p := Suc (place s p))"
      by blast
    have "place t Ella \<le> length (code_of Ella)" using t(3) by (simp add: talk_ok_def own_ok_def del: code_of.simps)
    then have "place t Ella \<le> 23" using code_lengths(2) by linarith
    then have "48 - (place t Joaquin + place t Ella) < 48 - (place s Joaquin + place s Ella)"
      using t(4) le joaquin_waits [OF t(3)] by (cases p) auto
    then obtain ps u where "talk_run ps t = Some u" "talk_ok junk u" "place u Ella = length (code_of Ella)"
      "at_call Receive Joaquin (place u Joaquin)" "dozes u Joaquin" using less.hyps [OF _ t(3)] by blast
    then show ?thesis using t(1,2) by (intro exI [of _ "p # ps"] exI [of _ u]) simp
  next
    case False
    then have e: "place s Ella = length (code_of Ella)" "at_call Receive Joaquin (place s Joaquin)" "piped s Ella = []"
      using progress [OF assms less.prems] by blast+
    show ?thesis
    proof (cases "dozes s Joaquin")
      case True
      then show ?thesis using e less.prems by (intro exI [of _ "[]"] exI [of _ s]) simp
    next
      case False
      have "can_go Joaquin s" using False e(2) by (simp add: can_go_def at_call_def)
      moreover have "place s Joaquin < length (code_of Joaquin)" "code_of Joaquin ! place s Joaquin = Receive"
        using e(2) by (simp_all add: at_call_def)
      then obtain t where "talk_step Joaquin s = Some t" "talk_ok junk t" "t = s\<lparr>dozes := (dozes s)(Joaquin := True)\<rparr>"
        using step_receives [OF assms less.prems, of Joaquin] e(3) by auto
      ultimately show ?thesis using e by (intro exI [of _ "[Joaquin]"] exI [of _ t]) simp
    qed
  qed
qed

lemma talk_run_reach: "talk_reach junk1 junk2 s \<Longrightarrow> talk_run ps s = Some t \<Longrightarrow> talk_reach junk1 junk2 t"
  by (induction ps arbitrary: s) (auto simp: bind_eq_Some_conv split: if_splits intro: talk_reach.step)

lemma script_line: "Line w \<in> set (script junk p n) \<Longrightarrow> \<exists>i < n. code_of p ! i = Print w"
  by (induction n) (auto simp: less_Suc_eq split: call.splits)

subsection \<open>The pipes of the kernel\<close>

text \<open>What \<open>Send\<close> and \<open>Receive\<close> do to the queue, the buffers and the sleepers is what \<open>writeToPipe\<close> and \<open>readFromPipe\<close> do to
  a pipe that holds the same characters.\<close>

abbreviation (input) bytes :: "string \<Rightarrow> byte list" where
  "bytes w \<equiv> map of_char w"

lemma send_is_writeToPipe:
  assumes "pipe_between ps k a name f r (bytes (piped s p))" and "buff \<noteq> NULL" "cstring (cmem k) buff (bytes (cstr (tbuff s p)))"
    and "outside_buffer ps a buff (length (cstr (tbuff s p)) + 1)"
    and "sched_inv k qs ths" and "n \<in> set qs" "pid (procs k (proc_at k n)) = int r"
    and "exec_call p Send s = Some t"
  shows "\<exists>ps' k'. writeToPipe name buff ps k = Some (ps', k') \<and> pipe.holds a (ps', cmem k') (bytes (piped t p)) \<and> sched_inv k' qs ths
    \<and> (if cstr (tbuff s p) \<noteq> [] \<and> length (piped s p) < 4096
        then dozes t = (dozes s)(other p := False) \<and> wakes T_BLOCKED_PIPE n ths k k' else dozes t = dozes s \<and> k' = k)"
proof -
  note d = pipe_betweenD [OF assms(1)]
  have run: "writeToPipe name buff ps k = writeLoop (int r) a buff ps k"
    using d(1-3) assms(2) by (simp add: writeToPipe_def)
  have "piped t p = take 4096 (piped s p @ cstr (tbuff s p))"
    and doze: "dozes t = (if cstr (tbuff s p) \<noteq> [] \<and> length (piped s p) < 4096 then (dozes s)(other p := False) else dozes s)"
    using assms(8) by (auto simp: exec_call_def next_call_def split: if_splits)
  then have "bytes (piped t p) = take PIPE_BUF_SIZE (bytes (piped s p) @ bytes (cstr (tbuff s p)))"
    by (simp add: take_map [symmetric] del: take_append)
  moreover have "outside_buffer ps a buff (length (bytes (cstr (tbuff s p))) + 1)" using assms(4) by simp
  ultimately show ?thesis
    using writeLoop_spec [OF d(4) assms(3) _ assms(5,6) assms(7) [symmetric]] doze unfolding run map_is_Nil_conv length_map by metis
qed

lemma receive_is_readFromPipe:
  assumes "pipe_between ps k a name f r (bytes (piped s (other p)))" and "buff \<noteq> NULL" "mem_list (cmem k) buff (bytes (tbuff2 s p))"
    and "outside_buffer ps a buff (length (tbuff2 s p))" and "length (piped s (other p)) \<le> length (tbuff2 s p)"
    and "piped s (other p) \<noteq> []" "tbuff2 s p ! 0 = nul" and "exec_call p Receive s = Some t"
  shows "\<exists>ps' m. readFromPipe name buff ps k = Some (ps', k\<lparr>cmem := m\<rparr>) \<and> pipe.holds a (ps', m) (bytes (piped t (other p)))
    \<and> mem_list m buff (bytes (tbuff2 t p))"
proof -
  let ?q = "piped s (other p)"
  obtain ps' m where r: "readFromPipe name buff ps k = Some (ps', k\<lparr>cmem := m\<rparr>)" "pipe.holds a (ps', m) []" "mem_list m buff (bytes ?q)"
      "\<And>c. c < buff \<or> buff + length ?q \<le> c \<Longrightarrow> outside_buffer ps a c 1 \<Longrightarrow> m c = cmem k c"
    using read_delivers [OF assms(1,2)] assms(4-6) by (auto simp: outside_buffer_def)
  have t: "tbuff2 t p = over ?q (tbuff2 s p)" "piped t (other p) = []"
    using assms(6-8) by (auto simp: exec_call_def next_call_def Let_def split: if_splits)
  have split: "tbuff2 s p = take (length ?q) (tbuff2 s p) @ drop (length ?q) (tbuff2 s p)" by simp
  have "mem_list (cmem k) (buff + length ?q) (bytes (drop (length ?q) (tbuff2 s p)))"
    using assms(3,5) by (subst (asm) split) (simp only: map_append mem_list_append length_map length_take min.absorb2)
  moreover have "m c = cmem k c" if "buff + length ?q \<le> c" "c < buff + length (tbuff2 s p)" for c
    using r(4) [of c] that assms(4) by (auto simp: outside_buffer_def)
  ultimately have "mem_list m (buff + length ?q) (bytes (drop (length ?q) (tbuff2 s p)))"
    using assms(5) by (subst mem_list_cong [where m = "cmem k"]) auto
  then show ?thesis using r(1-3) by (auto simp: t over_def mem_list_append)
qed

subsection \<open>Property\<close>

text \<open>C37. Whatever the order in which the two processes run and whatever the buffers held when \<open>malloc\<close> returned them, no
  call stores outside the 200 characters of a buffer or uses a pipe that is not there.  What each process prints is determined by its
  place and by the old contents of its second buffer: the numbers alternate, and every message is shown over the
  remains of the one before, up to the first null character, so that a shorter message is followed by the end of a longer one and the
  first message by whatever the page held.  The conversation always comes to the same end: Ella has sent three answers and is done,
  Joaquin sleeps for ever in his fourth \<open>receive\<close> and never prints his last line.  (A pipe is the abstract queue of its
  characters, see \<open>send_is_writeToPipe\<close> and \<open>receive_is_readFromPipe\<close>.)\<close>

theorem pipes_conversation:
  assumes "\<forall>p. 200 \<le> length (junk1 p)" and "\<forall>p. 200 \<le> length (junk2 p)" and "talk_reach junk1 junk2 s"
  shows "(\<forall>p. (can_go p s \<longrightarrow> talk_step p s \<noteq> None) \<and> printed s p = script junk2 p (place s p))
    \<and> Line ''Terminado el'' \<notin> set (printed s Joaquin)
    \<and> (\<exists>ps t. talk_run ps s = Some t \<and> place t Ella = length testPipes2 \<and> dozes t Joaquin \<and> (\<forall>p. \<not> can_go p t))"
proof -
  have ok: "talk_ok junk2 s" using talk_reach_ok [OF assms(3,1,2)] .
  have "list_all (\<lambda>i. testPipes1 ! i \<noteq> Print ''Terminado el'') [0..<22]" by code_simp
  then have no: "i < 22 \<Longrightarrow> code_of Joaquin ! i \<noteq> Print ''Terminado el''" for i by (simp add: list_all_iff del: upt_rec_numeral)
  have "Line ''Terminado el'' \<notin> set (printed s Joaquin)"
    using script_line [of "''Terminado el''" junk2 Joaquin "place s Joaquin"] no joaquin_waits [OF ok] own_D(3) [OF assms(2) ok]
    by (metis dual_order.strict_trans1)
  moreover obtain ps t where "talk_run ps s = Some t" "place t Ella = length testPipes2" "dozes t Joaquin"
    using run_to_end [OF assms(2) ok] by auto
  moreover from this have "\<not> can_go p t" for p by (cases p) (simp_all add: can_go_def)
  ultimately show ?thesis using talk_step_ok [OF assms(2) ok] own_D(3) [OF assms(2) ok] by fastforce
qed

theorem pipes_conversation_witness:
  \<comment> \<open>in pages without a null character\<close>
  "\<exists>ps t. talk_run ps (talk_start (\<lambda>_. replicate 200 CHR ''#'') (\<lambda>_. replicate 200 CHR ''#'')) = Some t \<and> dozes t Joaquin
    \<and> printed t Ella = [Line ''Cargando ella...'', Line ''Afinando ella...'', Said 0 (''Quien es...'' @ replicate 189 CHR ''#''),
        Said 2 (''Que vienes a buscar...'' @ replicate 178 CHR ''#''), Said 4 (''Ya es tarde ...scar...'' @ replicate 178 CHR ''#''),
        Said 6 (''Porque ahora soy yo la que quiere estar sin ti ...'' @ replicate 150 CHR ''#''), Line ''Terminado ella'']"
proof -
  let ?junk = "\<lambda>_ :: who. replicate 200 CHR ''#''"
  have junk: "\<forall>p. 200 \<le> length (?junk p)" by simp
  obtain ps t where t: "talk_run ps (talk_start ?junk ?junk) = Some t" "place t Ella = length testPipes2" "dozes t Joaquin"
    using pipes_conversation [OF junk junk talk_reach.start] by auto
  have "talk_reach ?junk ?junk t" using talk_run_reach [OF talk_reach.start t(1)] .
  then have "printed t Ella = script ?junk Ella (length testPipes2)"
    using pipes_conversation [OF junk junk, of t] t(2) by simp
  also have "\<dots> = [Line ''Cargando ella...'', Line ''Afinando ella...'', Said 0 (''Quien es...'' @ replicate 189 CHR ''#''),
      Said 2 (''Que vienes a buscar...'' @ replicate 178 CHR ''#''), Said 4 (''Ya es tarde ...scar...'' @ replicate 178 CHR ''#''),
      Said 6 (''Porque ahora soy yo la que quiere estar sin ti ...'' @ replicate 150 CHR ''#''), Line ''Terminado ella'']" by code_simp
  finally show ?thesis using t(1,3) by blast
qed

end
