(* ===== verification/Philosophers.thy ===== *)
theory Philosophers
  imports KPrelude
begin

section \<open>The philosophers (\<open>Userland/SampleCodeModule/shell.c\<close>)\<close>

text \<open>
  Three threads share \<open>philoState\<close>, \<open>forkState\<close>, the mutex \<open>mainMutexId\<close> and one mutex per
  philosopher.  A thread is a loop over its instructions: the calls of \<open>takeForks\<close>, \<open>putForks\<close> and
  \<open>checkForks\<close> written out; between two instructions any other thread may run.  \<open>render\<close> only prints.

  A mutex is what the kernel makes of it (theory \<open>Mutex\<close>: \<open>mutexDown_free\<close>, \<open>mutexDown_locked\<close> and
  \<open>mutexUp_spec\<close>): \<open>mutexDown\<close> takes a free one and puts the thread to sleep on a taken one, \<open>mutexUp\<close> frees it and
  wakes all that sleep on it.  A woken thread is behind its \<open>mutexDown\<close>, with the mutex free.  Such a mutex does not
  exclude, and two neighbours may eat at once; but no interleaving makes all the philosophers sleep.
\<close>

subsection \<open>Definitions\<close>

abbreviation (input) PHILOSOPHERS_COUNT :: nat where "PHILOSOPHERS_COUNT \<equiv> 3"

definition left :: "nat \<Rightarrow> nat" where "left i = (i + PHILOSOPHERS_COUNT - 1) mod PHILOSOPHERS_COUNT"
definition right :: "nat \<Rightarrow> nat" where "right i = (i + 1) mod PHILOSOPHERS_COUNT"

datatype philState = HUNGRY | THINKING | EATING

datatype lock = Main | Own nat

datatype instr =
    Down lock
  | Up lock
  | Set_hungry nat
  | Test nat       \<comment> \<open>the condition of \<open>checkForks\<close>, which skips the next two instructions if it is false\<close>
  | Eat nat        \<comment> \<open>the assignments under it\<close>
  | Put_down nat

record table =
  philoState :: "nat \<Rightarrow> philState"
  forkState :: "nat \<Rightarrow> int"
  locked :: "lock \<Rightarrow> bool"
  asleep :: "nat \<Rightarrow> lock option"
  pc :: "nat \<Rightarrow> nat"

definition checkForks :: "nat \<Rightarrow> instr list" where
  "checkForks philoId = [Test philoId, Eat philoId, Up (Own philoId)]"

definition takeForks :: "nat \<Rightarrow> instr list" where
  "takeForks philoId = [Down Main, Set_hungry philoId] @ checkForks philoId @ [Up Main, Down (Own philoId)]"

definition putForks :: "nat \<Rightarrow> instr list" where
  "putForks philoId = [Down Main, Put_down philoId] @ checkForks (left philoId) @ checkForks (right philoId) @ [Up Main]"

definition philosopher :: "nat \<Rightarrow> instr list" where
  \<comment> \<open>the body of its endless loop\<close>
  "philosopher i = takeForks i @ putForks i"

definition goto :: "nat \<Rightarrow> nat \<Rightarrow> table \<Rightarrow> table" where
  \<comment> \<open>the thread goes \<open>k\<close> instructions on, round the loop\<close>
  "goto t k s = s\<lparr>pc := (pc s)(t := (pc s t + k) mod length (philosopher t))\<rparr>"

definition may_eat :: "table \<Rightarrow> nat \<Rightarrow> bool" where
  "may_eat s j \<longleftrightarrow> philoState s j = HUNGRY \<and> philoState s (left j) \<noteq> EATING \<and> philoState s (right j) \<noteq> EATING"

definition exec_instr :: "nat \<Rightarrow> instr \<Rightarrow> table \<Rightarrow> table" where
  "exec_instr t i s =
     (case i of
        Down m \<Rightarrow>
          if locked s m then (goto t 1 s)\<lparr>asleep := (asleep s)(t := Some m)\<rparr>
          else (goto t 1 s)\<lparr>locked := (locked s)(m := True)\<rparr>
      | Up m \<Rightarrow> (goto t 1 s)\<lparr>locked := (locked s)(m := False), asleep := (\<lambda>j. if asleep s j = Some m then None else asleep s j)\<rparr>
      | Set_hungry j \<Rightarrow> (goto t 1 s)\<lparr>philoState := (philoState s)(j := HUNGRY)\<rparr>
      | Test j \<Rightarrow> if may_eat s j then goto t 1 s else goto t 3 s
      | Eat j \<Rightarrow> (goto t 1 s)\<lparr>philoState := (philoState s)(j := EATING), forkState := (forkState s)(left j := int j, j := int j)\<rparr>
      | Put_down j \<Rightarrow> (goto t 1 s)\<lparr>philoState := (philoState s)(j := THINKING), forkState := (forkState s)(left j := - 1, j := - 1)\<rparr>)"

definition phil_step :: "nat \<Rightarrow> table \<Rightarrow> table option" where
  "phil_step t s =
     (if t < PHILOSOPHERS_COUNT \<and> asleep s t = None then Some (exec_instr t (philosopher t ! pc s t) s) else None)"

fun phil_run :: "nat list \<Rightarrow> table \<Rightarrow> table option" where
  \<comment> \<open>the threads take steps in this order\<close>
  "phil_run [] s = Some s"
| "phil_run (t # ts) s = do { s \<leftarrow> phil_step t s; phil_run ts s }"

definition philosophers_start :: table where
  \<comment> \<open>after the loop of \<open>philosophers\<close>: every philosopher's mutex is taken\<close>
  "philosophers_start = \<lparr>philoState = (\<lambda>_. THINKING), forkState = (\<lambda>_. - 1), locked = (\<lambda>m. m \<noteq> Main),
     asleep = (\<lambda>_. None), pc = (\<lambda>_. 0)\<rparr>"

inductive phil_reach :: "table \<Rightarrow> bool" where
  start: "phil_reach philosophers_start"
| step: "phil_reach s \<Longrightarrow> phil_step t s = Some s' \<Longrightarrow> phil_reach s'"

lemma phil_run_reach: "phil_reach s \<Longrightarrow> phil_run ts s = Some s' \<Longrightarrow> phil_reach s'"
  by (induction ts arbitrary: s) (auto simp: bind_eq_Some_conv intro: phil_reach.step)

subsection \<open>The invariant\<close>

lemma below_three: "i < 3 \<longleftrightarrow> i = 0 \<or> i = 1 \<or> i = (2 :: nat)"
  by presburger

lemma next_to: "left 0 = 2" "left 1 = 0" "left 2 = 1" "right 0 = 1" "right 1 = 2" "right 2 = 0"
  by (simp_all add: left_def right_def)

lemma neighbours:
  assumes "i < 3"
  shows "left i < 3" "right i < 3" "left i \<noteq> i" "right i \<noteq> i" "left i \<noteq> right i" "i \<noteq> left i" "i \<noteq> right i" "right i \<noteq> left i"
    "left (left i) = right i" "right (right i) = left i" "left (right i) = i" "right (left i) = i"
  using assms [unfolded below_three] by (elim disjE; simp only: next_to; simp)+

lemma three_seats: "t < 3 \<Longrightarrow> i < 3 \<longleftrightarrow> i = t \<or> i = left t \<or> i = right t"
  unfolding below_three [of t] by (elim disjE; simp only: next_to below_three; blast)

lemma all_three: "t < 3 \<Longrightarrow> (\<forall>i < 3. P i) \<longleftrightarrow> P t \<and> P (left t) \<and> P (right t)"
  and ex_three: "t < 3 \<Longrightarrow> (\<exists>i < 3. P i) \<longleftrightarrow> P t \<or> P (left t) \<or> P (right t)"
  using three_seats by metis+

lemma philosopher_code:
  "philosopher t = [Down Main, Set_hungry t, Test t, Eat t, Up (Own t), Up Main, Down (Own t),
     Down Main, Put_down t, Test (left t), Eat (left t), Up (Own (left t)), Test (right t), Eat (right t),
     Up (Own (right t)), Up Main]"
  by (simp add: philosopher_def takeForks_def putForks_def checkForks_def)

lemma philosopher_at:
  "philosopher t ! 0 = Down Main" "philosopher t ! Suc 0 = Set_hungry t" "philosopher t ! 2 = Test t" "philosopher t ! 3 = Eat t"
  "philosopher t ! 4 = Up (Own t)" "philosopher t ! 5 = Up Main" "philosopher t ! 6 = Down (Own t)" "philosopher t ! 7 = Down Main"
  "philosopher t ! 8 = Put_down t" "philosopher t ! 9 = Test (left t)" "philosopher t ! 10 = Eat (left t)"
  "philosopher t ! 11 = Up (Own (left t))" "philosopher t ! 12 = Test (right t)" "philosopher t ! 13 = Eat (right t)"
  "philosopher t ! 14 = Up (Own (right t))" "philosopher t ! 15 = Up Main"
  by (simp_all add: philosopher_code)

definition inside :: "nat \<Rightarrow> bool" where
  \<comment> \<open>between the two calls for the main mutex\<close>
  "inside p \<longleftrightarrow> 1 \<le> p \<and> p \<le> 5 \<or> 8 \<le> p"

definition pending_up :: "table \<Rightarrow> nat \<Rightarrow> bool" where
  \<comment> \<open>\<open>i\<close> or a neighbour is about to wake \<open>i\<close>\<close>
  "pending_up s i \<longleftrightarrow> pc s i = 4 \<or> pc s (right i) = 11 \<or> pc s (left i) = 14"

definition pending_test :: "table \<Rightarrow> nat \<Rightarrow> bool" where
  \<comment> \<open>\<open>i\<close> or a neighbour is about to test whether \<open>i\<close> may eat, or to let it eat\<close>
  "pending_test s i \<longleftrightarrow> pc s i \<in> {2, 3} \<or> pc s (right i) \<in> {9, 10} \<or> pc s (left i) \<in> {9, 10, 11, 12, 13}"

definition sleep_ok :: "table \<Rightarrow> nat \<Rightarrow> bool" where
  "sleep_ok s i \<longleftrightarrow> pc s i < 16 \<and> (\<forall>m. asleep s i = Some m \<longrightarrow>
     locked s m \<and> (m = Main \<and> pc s i \<in> {1, 8} \<or> m = Own i \<and> pc s i = 7))"

definition main_ok :: "table \<Rightarrow> bool" where
  \<comment> \<open>who took the main mutex is awake and will free it\<close>
  "main_ok s \<longleftrightarrow> (locked s Main \<longrightarrow> (\<exists>i < 3. asleep s i = None \<and> inside (pc s i)))"

definition seat_ok :: "table \<Rightarrow> nat \<Rightarrow> bool" where
  "seat_ok s i \<longleftrightarrow> (2 \<le> pc s i \<and> pc s i \<le> 8 \<longrightarrow> philoState s i \<noteq> THINKING)
     \<and> (philoState s i = EATING \<and> (2 \<le> pc s i \<and> pc s i \<le> 6 \<or> asleep s i = Some (Own i)) \<longrightarrow> \<not> locked s (Own i) \<or> pending_up s i)"

definition wait_ok :: "table \<Rightarrow> bool" where
  \<comment> \<open>nobody waits for his forks without a reason\<close>
  "wait_ok s \<longleftrightarrow> ((\<exists>i < 3. philoState s i = HUNGRY) \<longrightarrow>
     (\<exists>i < 3. philoState s i = EATING) \<or> (\<exists>i < 3. philoState s i = HUNGRY \<and> pending_test s i))"

definition table_ok :: "table \<Rightarrow> bool" where
  "table_ok s \<longleftrightarrow> (\<forall>i < 3. sleep_ok s i) \<and> main_ok s \<and> (\<forall>i < 3. seat_ok s i) \<and> wait_ok s"

lemma start_ok: "table_ok philosophers_start"
  by (simp add: table_ok_def sleep_ok_def main_ok_def seat_ok_def wait_ok_def philosophers_start_def)

lemma seat_cases: "p < 16 \<Longrightarrow> p = 0 \<or> p = 1 \<or> p = 2 \<or> p = 3 \<or> p = 4 \<or> p = 5 \<or> p = 6 \<or> p = 7 \<or> p = 8 \<or> p = 9 \<or> p = 10
    \<or> p = 11 \<or> p = 12 \<or> p = 13 \<or> p = 14 \<or> p = (15 :: nat)"
  by presburger

lemmas instr_defs = exec_instr_def goto_def philosopher_at may_eat_def

lemma length_philosopher [simp]: "length (philosopher t) = 16"
  by (simp add: philosopher_code)

abbreviation (input) after_instr :: "nat \<Rightarrow> table \<Rightarrow> table" where
  "after_instr t s \<equiv> exec_instr t (philosopher t ! pc s t) s"

lemma sleep_keeps:
  assumes "\<forall>i < 3. sleep_ok s i" and t: "t < 3" and "asleep s t = None"
  shows "\<forall>i < 3. sleep_ok (after_instr t s) i"
proof -
  have "pc s t < 16" using assms(1) t by (simp add: sleep_ok_def)
  then show ?thesis using assms(1,3) unfolding all_three [OF t] sleep_ok_def
    by (elim seat_cases [elim_format] disjE) (auto simp: instr_defs neighbours [OF t])
qed

lemma main_keeps:
  assumes "\<forall>i < 3. sleep_ok s i" and "main_ok s" and t: "t < 3" and "asleep s t = None"
  shows "main_ok (after_instr t s)"
proof -
  have "pc s t < 16" using assms(1) t by (simp add: sleep_ok_def)
  then show ?thesis using assms(2,4) unfolding main_ok_def ex_three [OF t]
    by (elim seat_cases [elim_format] disjE) (auto simp: instr_defs inside_def neighbours [OF t])
qed

lemma seat_keeps:
  assumes "\<forall>i < 3. sleep_ok s i" and "\<forall>i < 3. seat_ok s i" and t: "t < 3" and "asleep s t = None"
  shows "\<forall>i < 3. seat_ok (after_instr t s) i"
proof -
  have "pc s t < 16" using assms(1) t by (simp add: sleep_ok_def)
  then show ?thesis using assms(1,2,4) unfolding all_three [OF t] seat_ok_def sleep_ok_def pending_up_def
    by (elim seat_cases [elim_format] disjE) (auto simp: instr_defs neighbours [OF t])
qed

lemma wait_keeps:
  assumes "\<forall>i < 3. sleep_ok s i" and "\<forall>i < 3. seat_ok s i" and "wait_ok s" and t: "t < 3" and "asleep s t = None"
  shows "wait_ok (after_instr t s)"
proof -
  let ?l = "left t" and ?r = "right t"
  note n = neighbours [OF t]
  have p: "pc s t < 16" using assms(1) t by (simp add: sleep_ok_def)
  have w: "philoState s t = HUNGRY \<or> philoState s ?l = HUNGRY \<or> philoState s ?r = HUNGRY \<Longrightarrow>
    philoState s t = EATING \<or> philoState s ?l = EATING \<or> philoState s ?r = EATING
    \<or> philoState s t = HUNGRY \<and> pending_test s t \<or> philoState s ?l = HUNGRY \<and> pending_test s ?l \<or> philoState s ?r = HUNGRY \<and> pending_test s ?r"
    using assms(3) unfolding wait_ok_def ex_three [OF t] by blast
  have hungry: "philoState s t = HUNGRY \<Longrightarrow> philoState s t \<noteq> EATING" "philoState s ?l = HUNGRY \<Longrightarrow> philoState s ?l \<noteq> EATING"
    "philoState s ?r = HUNGRY \<Longrightarrow> philoState s ?r \<noteq> EATING" by simp_all
  from seat_cases [OF p] show ?thesis unfolding wait_ok_def ex_three [OF t]
    by (elim disjE; insert w [unfolded pending_test_def n]; simp add: instr_defs pending_test_def n; insert hungry; blast)
qed

lemma reach_ok: "phil_reach s \<Longrightarrow> table_ok s"
proof (induction rule: phil_reach.induct)
  case start
  then show ?case by (rule start_ok)
next
  case (step s t s')
  then have t: "t < 3" "asleep s t = None" "s' = after_instr t s" by (auto simp: phil_step_def split: if_splits)
  show ?case using step.IH sleep_keeps [OF _ t(1,2)] main_keeps [OF _ _ t(1,2)] seat_keeps [OF _ _ t(1,2)]
      wait_keeps [OF _ _ _ t(1,2)] unfolding t(3) table_ok_def by blast
qed

lemma thinks_or_not: "v = HUNGRY \<or> v = THINKING \<or> v = EATING"
  by (cases v) simp_all

lemma sleeper:
  assumes "table_ok s" and "i < 3" and "asleep s i = Some m"
  shows "m = Main \<and> (\<exists>t < 3. asleep s t = None \<and> inside (pc s t))
    \<or> m = Own i \<and> pc s i = 7 \<and> (philoState s i = HUNGRY \<or> pending_up s i)"
proof -
  have sleep: "sleep_ok s i" and seat: "seat_ok s i" and main: "main_ok s" using assms(1,2) by (simp_all add: table_ok_def)
  show ?thesis
  proof (cases "m = Main")
    case True
    then show ?thesis using sleep main assms(3) by (simp add: sleep_ok_def main_ok_def)
  next
    case False
    then have "m = Own i" "pc s i = 7" "locked s (Own i)" using sleep assms(3) by (auto simp: sleep_ok_def)
    then show ?thesis using seat assms(3) thinks_or_not [of "philoState s i"] by (auto simp: seat_ok_def)
  qed
qed

lemma pending_awake:
  assumes "table_ok s" and "i < 3"
  shows "pending_up s i \<Longrightarrow> \<exists>t < 3. asleep s t = None" and "pending_test s i \<Longrightarrow> \<exists>t < 3. asleep s t = None"
proof -
  have awake: "asleep s t = None" if "t < 3" "pc s t \<notin> {1, 7, 8}" for t
  proof (cases "asleep s t")
    case (Some m)
    have "sleep_ok s t" using assms(1) that(1) by (simp add: table_ok_def)
    then show ?thesis using Some that(2) by (auto simp: sleep_ok_def)
  qed
  note n = neighbours(1,2) [OF assms(2)]
  show "pending_up s i \<Longrightarrow> \<exists>t < 3. asleep s t = None"
    using awake [OF assms(2)] awake [OF n(1)] awake [OF n(2)] assms(2) n by (auto simp: pending_up_def)
  show "pending_test s i \<Longrightarrow> \<exists>t < 3. asleep s t = None"
    using awake [OF assms(2)] awake [OF n(1)] awake [OF n(2)] assms(2) n by (auto simp: pending_test_def)
qed

lemma someone_awake:
  assumes "table_ok s"
  shows "\<exists>t < 3. asleep s t = None"
proof (rule ccontr)
  assume none: "\<not> ?thesis"
  have "philoState s i = HUNGRY" if "i < 3" for i
    using none sleeper [OF assms that] pending_awake(1) [OF assms that] that by (metis option.exhaust)
  then show False
    using assms none pending_awake(2) [OF assms] by (force simp: table_ok_def wait_ok_def)
qed

subsection \<open>Property\<close>


definition hungry_table :: table where
  \<comment> \<open>the first philosopher eats, the second one sleeps\<close>
  "hungry_table = the (phil_run [0, 0, 0, 0, 0, 0, 1, 1, 1, 1, 1] philosophers_start)"

lemma hungry_table_reach: "phil_reach hungry_table" "asleep hungry_table 1 = Some (Own 1)" "\<not> pending_up hungry_table 1"
proof -
  have "phil_run [0, 0, 0, 0, 0, 0, 1, 1, 1, 1, 1] philosophers_start \<noteq> None" by code_simp
  then have "phil_run [0, 0, 0, 0, 0, 0, 1, 1, 1, 1, 1] philosophers_start = Some hungry_table" by (simp add: hungry_table_def)
  then show "phil_reach hungry_table" by (rule phil_run_reach [OF phil_reach.start])
qed code_simp+


subsection \<open>What the mutexes do not give\<close>

definition bad_schedule :: "nat list" where
  "bad_schedule = [0, 0, 0, 0, 0, 0, 0, 0, 1, 2, 0, 0, 0, 0, 1, 1, 2, 2, 1, 2]"

text \<open>The mutexes of the kernel do not exclude: while the first philosopher puts its forks down the two others wait for
  the main mutex, both are let in, and two neighbours eat at the same time with the same fork.\<close>

theorem philosophers_not_exclusive:
  "\<exists>s. phil_run bad_schedule philosophers_start = Some s \<and> phil_reach s
    \<and> philoState s 1 = EATING \<and> philoState s 2 = EATING \<and> right 1 = 2 \<and> forkState s 1 = 2"
proof -
  have run: "phil_run bad_schedule philosophers_start \<noteq> None" by code_simp
  have "philoState (the (phil_run bad_schedule philosophers_start)) 1 = EATING"
    "philoState (the (phil_run bad_schedule philosophers_start)) 2 = EATING"
    "forkState (the (phil_run bad_schedule philosophers_start)) 1 = 2" "right 1 = 2"
    by code_simp+
  with run show ?thesis using phil_run_reach [OF phil_reach.start] by force
qed

end
