(* ===== verification/Drivers.thy ===== *)
theory Drivers
  imports UCalls KLib Philosophers
begin

section \<open>Start of the user programs and the main threads of the demonstrations\<close>

text \<open>
  \<open>_start\<close> and \<open>main\<close> of the user module (\<open>_loader.c\<close>, \<open>sampleCodeModule.c\<close>), and what \<open>shell.c\<close> has beside the
  threads of theories \<open>Philosophers\<close> and \<open>ProdCons\<close>: the functions that create mutexes, semaphores and threads,
  the waiting loops, the picture of the table and the keys that change the pace of producer and consumer.
  An \<open>int\<close> that overflows is \<open>None\<close>.
\<close>

subsection \<open>The user module starts\<close>

definition user_start :: "addr \<Rightarrow> addr \<Rightarrow> (cmem \<Rightarrow> (32 word \<times> cmem) option) \<Rightarrow> cmem \<Rightarrow> (32 word \<times> cmem) option" where
  \<comment> \<open>\<open>_start\<close>; the linker puts \<open>bss\<close> before \<open>endOfBinary\<close>; its own \<open>memset\<close> is the loop of the kernel's\<close>
  "user_start bss endOfBinary main m = main (fillDown (endOfBinary - bss) bss 0 m)"

definition user_main :: "addr \<Rightarrow> addr \<Rightarrow> (cmem \<Rightarrow> cmem option) \<Rightarrow> cmem \<Rightarrow> (32 word \<times> cmem) option" where
  \<comment> \<open>\<open>shell\<close> does not return; here it is any function\<close>
  "user_main var1 var2 shell m = do {
     m \<leftarrow> shell m;
     if load32 m var1 = 0 \<and> load32 m var2 = 0 then Some (0xDEADC0DE, m) else Some (0xDEADBEEF, m) }"

lemma user_start_clears:
  "user_start bss endOfBinary main m = main (\<lambda>a. if bss \<le> a \<and> a < endOfBinary then 0 else m a)"
proof -
  have "bss \<le> a \<and> a < bss + (endOfBinary - bss) \<longleftrightarrow> bss \<le> a \<and> a < endOfBinary" for a by auto
  then show ?thesis by (simp add: user_start_def fillDown_eq)
qed

lemma user_module_tests_bss:
  \<comment> \<open>a shell that returns and leaves the two variables alone is followed by the value that says that \<open>bss\<close> is clear\<close>
  assumes "bss \<le> var1" "var1 + 4 \<le> endOfBinary" "bss \<le> var2" "var2 + 4 \<le> endOfBinary"
    and "shell (\<lambda>a. if bss \<le> a \<and> a < endOfBinary then 0 else m a) = Some m'"
    and "\<And>i. i < 4 \<Longrightarrow> m' (var1 + i) = 0 \<and> m' (var2 + i) = 0"
  shows "user_start bss endOfBinary (user_main var1 var2 shell) m = Some (0xDEADC0DE, m')"
  using assms(5) assms(6) [of 0] assms(6) [of 1] assms(6) [of 2] assms(6) [of 3]
  by (simp add: user_start_clears user_main_def load32_def)

subsection \<open>Waiting\<close>

function waitLoop :: "int \<Rightarrow> int \<Rightarrow> int" where
  \<comment> \<open>\<open>while(i < n) i++;\<close>\<close>
  "waitLoop i n = (if i < n then waitLoop (i + 1) n else i)"
  by auto
termination by (relation "measure (\<lambda>(i, n). nat (n - i))") auto

declare waitLoop.simps [simp del]

definition myTestSleep :: "int \<Rightarrow> int" where "myTestSleep wakeUpCall = waitLoop 0 wakeUpCall"
definition mySleep :: int where "mySleep = waitLoop 0 100000000"

lemma waitLoop_eq: "waitLoop i n = max i n"
  by (induction i n rule: waitLoop.induct) (subst waitLoop.simps, auto simp: max_def)

lemma sleeps_stay_in_int: "w < 2 ^ 31 \<Longrightarrow> 0 \<le> myTestSleep w \<and> myTestSleep w < 2 ^ 31" "mySleep = 100000000"
  by (simp_all add: myTestSleep_def mySleep_def waitLoop_eq)

subsection \<open>The philosophers\<close>

record diners =
  mainMutexId :: int
  philoMutexId :: "int list"
  philosopherId :: "int list"

fun seatLoop :: "env \<Rightarrow> addr \<Rightarrow> addr \<Rightarrow> int \<Rightarrow> nat \<Rightarrow> diners \<Rightarrow> kernel \<Rightarrow> (diners \<times> kernel) option" where
  \<comment> \<open>the loop of \<open>philosophers\<close>, \<open>n\<close> seats to go; the states and forks are those of \<open>philosophers_start\<close>\<close>
  "seatLoop env exec seat_thread p 0 d k = Some (d, k)"
| "seatLoop env exec seat_thread p (Suc n) d k = do {
     (m, k) \<leftarrow> u_createMutex env k;
     k \<leftarrow> u_mutexDown env m k;
     (t, k) \<leftarrow> u_tcreate env p exec seat_thread k;
     seatLoop env exec seat_thread p n (d\<lparr>philoMutexId := philoMutexId d @ [m], philosopherId := philosopherId d @ [t]\<rparr>) k }"

definition philosophers :: "env \<Rightarrow> addr \<Rightarrow> addr \<Rightarrow> kernel \<Rightarrow> (diners \<times> kernel) option" where
  \<comment> \<open>up to the endless loop at its end\<close>
  "philosophers env exec seat_thread k = do {
     (p, k) \<leftarrow> u_getCurrentPid env k;
     (m, k) \<leftarrow> u_createMutex env k;
     (d, k) \<leftarrow> seatLoop env exec seat_thread p PHILOSOPHERS_COUNT \<lparr>mainMutexId = m, philoMutexId = [], philosopherId = []\<rparr> k;
     k \<leftarrow> printf (user_io env) (ctext ''running'' @ [10]) [] k;
     Some (d, k) }"

fun stateStrings :: "philState \<Rightarrow> byte list" where
  "stateStrings HUNGRY = ctext ''Hungry''"
| "stateStrings THINKING = ctext ''Thinking''"
| "stateStrings EATING = ctext ''Eating''"

definition renderSeat :: "'s stdio_calls \<Rightarrow> table \<Rightarrow> nat \<Rightarrow> 's \<Rightarrow> 's option" where
  "renderSeat io s i w = do {
     w \<leftarrow> printf io (ctext ''Philosopher %d: %s'' @ [10]) [Num (int i), Str (stateStrings (philoState s i))] w;
     w \<leftarrow> printf io (ctext ''Fork - '') [] w;
     if forkState s i = - 1 then printf io (ctext ''Free'' @ [10]) [] w
     else printf io (ctext ''Owner %d'' @ [10]) [Num (forkState s i)] w }"

fun renderLoop :: "'s stdio_calls \<Rightarrow> table \<Rightarrow> nat list \<Rightarrow> 's \<Rightarrow> 's option" where
  "renderLoop io s [] w = Some w"
| "renderLoop io s (i # is) w = do { w \<leftarrow> renderSeat io s i w; renderLoop io s is w }"

definition render :: "'s stdio_calls \<Rightarrow> table \<Rightarrow> 's \<Rightarrow> 's option" where
  "render io s w = do {
     w \<leftarrow> renderLoop io s [0..<PHILOSOPHERS_COUNT] w;
     w \<leftarrow> putc io 10 w;
     w \<leftarrow> putc io 10 w;
     let _ = myTestSleep 100000000 in Some w }"

definition seat_text :: "table \<Rightarrow> nat \<Rightarrow> byte list" where
  "seat_text s i = ctext ''Philosopher '' @ dec_text (int i) @ ctext '': '' @ stateStrings (philoState s i) @ [10]
     @ ctext ''Fork - '' @ (if forkState s i = - 1 then ctext ''Free'' else ctext ''Owner '' @ dec_text (forkState s i)) @ [10]"

context terminal_io begin

lemma pieces_sees:
  assumes "sees s t q" and "\<forall>p \<in> set pcs. piece_ok p"
    and "fmt = concat (map fmt_of pcs)" and "args = concat (map args_of pcs)" and "out = concat (map out_of pcs)"
  shows "\<exists>s'. printf io fmt args s = Some s' \<and> sees s' (fold t_char out t) q"
  using printf_sees [OF assms(2,1)] assms(3-5) by simp

lemma renderSeat_sees:
  assumes "sees w t q" and "int_ok (int i)" and "int_ok (forkState s i)"
  shows "\<exists>w'. renderSeat io s i w = Some w' \<and> sees w' (fold t_char (seat_text s i) t) q"
proof -
  have st: "str_ok (stateStrings (philoState s i))"
    by (cases "philoState s i") (simp_all add: str_ok_def ctext_plain plain_def)
  let ?head = "ctext ''Philosopher '' @ dec_text (int i) @ ctext '': '' @ stateStrings (philoState s i) @ [10]"
  have "\<exists>w1. printf io (ctext ''Philosopher %d: %s'' @ [10]) [Num (int i), Str (stateStrings (philoState s i))] w = Some w1
    \<and> sees w1 (fold t_char ?head t) q"
    by (rule pieces_sees [OF assms(1), of "[Text (ctext ''Philosopher ''), PInt (int i), Text (ctext '': ''),
          PStr (stateStrings (philoState s i)), Text [10]]"])
      (use st assms(2) in \<open>simp_all add: ctext_def\<close>)
  then obtain w1 where w1: "printf io (ctext ''Philosopher %d: %s'' @ [10]) [Num (int i), Str (stateStrings (philoState s i))] w = Some w1"
    "sees w1 (fold t_char ?head t) q" by blast
  have "\<exists>w2. printf io (ctext ''Fork - '') [] w1 = Some w2 \<and> sees w2 (fold t_char (ctext ''Fork - '') (fold t_char ?head t)) q"
    by (rule pieces_sees [OF w1(2), of "[Text (ctext ''Fork - '')]"]) (simp_all add: ctext_def)
  then obtain w2 where w2: "printf io (ctext ''Fork - '') [] w1 = Some w2"
    "sees w2 (fold t_char (ctext ''Fork - '') (fold t_char ?head t)) q" by blast
  show ?thesis
  proof (cases "forkState s i = - 1")
    case True
    have "\<exists>w3. printf io (ctext ''Free'' @ [10]) [] w2 = Some w3
      \<and> sees w3 (fold t_char (ctext ''Free'' @ [10]) (fold t_char (ctext ''Fork - '') (fold t_char ?head t))) q"
      by (rule pieces_sees [OF w2(2), of "[Text (ctext ''Free'' @ [10])]"]) (simp_all add: ctext_def)
    then show ?thesis using True w1(1) w2(1) by (auto simp: renderSeat_def seat_text_def)
  next
    case False
    have "\<exists>w3. printf io (ctext ''Owner %d'' @ [10]) [Num (forkState s i)] w2 = Some w3
      \<and> sees w3 (fold t_char (ctext ''Owner '' @ dec_text (forkState s i) @ [10]) (fold t_char (ctext ''Fork - '') (fold t_char ?head t))) q"
      by (rule pieces_sees [OF w2(2), of "[Text (ctext ''Owner ''), PInt (forkState s i), Text [10]]"])
        (use assms(3) in \<open>simp_all add: ctext_def\<close>)
    then show ?thesis using False w1(1) w2(1) by (auto simp: renderSeat_def seat_text_def)
  qed
qed

lemma renderLoop_sees:
  "sees w t q \<Longrightarrow> \<forall>i \<in> set is. int_ok (int i) \<and> int_ok (forkState s i) \<Longrightarrow>
    \<exists>w'. renderLoop io s is w = Some w' \<and> sees w' (fold t_char (concat (map (seat_text s) is)) t) q"
proof (induction "is" arbitrary: w t)
  case (Cons i "is")
  then obtain w1 where w1: "renderSeat io s i w = Some w1" "sees w1 (fold t_char (seat_text s i) t) q"
    using renderSeat_sees by (metis list.set_intros(1))
  show ?case using Cons.IH [OF w1(2)] Cons.prems(2) w1(1) by simp
qed simp

lemma render_sees:
  assumes "sees w t q" and "\<forall>i < 3. int_ok (forkState s i)"
  shows "\<exists>w'. render io s w = Some w'
    \<and> sees w' (fold t_char (seat_text s 0 @ seat_text s 1 @ seat_text s 2 @ [10, 10]) t) q"
proof -
  have "\<forall>i \<in> set [0..<3]. int_ok (int i) \<and> int_ok (forkState s i)" using assms(2) by (auto simp: int_ok_def)
  from renderLoop_sees [OF assms(1) this] obtain w1 where w1: "renderLoop io s [0..<3] w = Some w1"
    "sees w1 (fold t_char (concat (map (seat_text s) [0..<3])) t) q" by blast
  obtain w2 where w2: "putc io 10 w1 = Some w2" "sees w2 (t_char 10 (fold t_char (concat (map (seat_text s) [0..<3])) t)) q"
    using putc_sees [OF w1(2), of 10] by auto
  obtain w3 where w3: "putc io 10 w2 = Some w3"
    "sees w3 (t_char 10 (t_char 10 (fold t_char (concat (map (seat_text s) [0..<3])) t))) q"
    using putc_sees [OF w2(2), of 10] by auto
  have "concat (map (seat_text s) [0..<3]) = seat_text s 0 @ seat_text s 1 @ seat_text s 2"
    by (simp add: numeral_3_eq_3 numeral_2_eq_2)
  then show ?thesis using w1(1) w2(1) w3 by (simp add: render_def)
qed

end

subsection \<open>Producer and consumer\<close>

record counter =
  itemMutex :: int
  emptyCount :: int
  fullCount :: int
  producerThread :: int
  consumerThread :: int
  prodSleepTime :: int
  consSleepTime :: int

definition times_ten :: "int \<Rightarrow> int option" where
  "times_ten n = (if - (2 ^ 31) \<le> n * 10 \<and> n * 10 < 2 ^ 31 then Some (n * 10) else None)"

definition tenth :: "int \<Rightarrow> int" where
  \<comment> \<open>division of C, towards zero\<close>
  "tenth n = sgn n * (\<bar>n\<bar> div 10)"

definition sleep_key :: "byte \<Rightarrow> counter \<Rightarrow> counter option" where
  \<comment> \<open>the cases of the \<open>switch\<close> but \<open>q\<close>\<close>
  "sleep_key c d =
     (if c = of_char CHR ''a'' then do { n \<leftarrow> times_ten (prodSleepTime d); Some (d\<lparr>prodSleepTime := n\<rparr>) }
      else if c = of_char CHR ''z'' then Some (d\<lparr>prodSleepTime := tenth (prodSleepTime d)\<rparr>)
      else if c = of_char CHR ''s'' then do { n \<leftarrow> times_ten (consSleepTime d); Some (d\<lparr>consSleepTime := n\<rparr>) }
      else if c = of_char CHR ''x'' then Some (d\<lparr>consSleepTime := tenth (consSleepTime d)\<rparr>)
      else Some d)"

partial_function (option) control :: "'s stdio_calls \<Rightarrow> counter \<Rightarrow> byte list \<Rightarrow> 's \<Rightarrow> (counter \<times> byte list \<times> 's) option" where
  "control io d pushed s = do {
     (c, pushed, s) \<leftarrow> getchar io pushed s;
     if c = of_char CHR ''q'' then Some (d, pushed, s)
     else do { d \<leftarrow> sleep_key c d; control io d pushed s } }"

definition prodcons :: "env \<Rightarrow> addr \<Rightarrow> addr \<Rightarrow> addr \<Rightarrow> byte list \<Rightarrow> kernel \<Rightarrow> (counter \<times> byte list \<times> kernel) option" where
  "prodcons env exec producer consumer pushed k = do {
     (p, k) \<leftarrow> u_getCurrentPid env k;
     (item, k) \<leftarrow> u_createMutex env k;
     (empty, k) \<leftarrow> u_createSemaphore env 100 k;
     (full, k) \<leftarrow> u_createSemaphore env 0 k;
     (t1, k) \<leftarrow> u_tcreate env p exec producer k;
     (t2, k) \<leftarrow> u_tcreate env p exec consumer k;
     control (user_io env) \<lparr>itemMutex = item, emptyCount = empty, fullCount = full, producerThread = t1, consumerThread = t2,
       prodSleepTime = 10000000, consSleepTime = 100000000\<rparr> pushed k }"

fun sleep_keys :: "byte list \<Rightarrow> counter \<Rightarrow> counter option" where
  "sleep_keys [] d = Some d"
| "sleep_keys (c # cs) d = do { d \<leftarrow> sleep_key c d; sleep_keys cs d }"

context terminal_io begin

lemma control_sees:
  assumes "sees s t (cs @ of_char CHR ''q'' # q)" and "of_char CHR ''q'' \<notin> set cs"
  shows "case sleep_keys cs d of None \<Rightarrow> control io d [] s = None
    | Some d' \<Rightarrow> \<exists>s'. control io d [] s = Some (d', [], s') \<and> sees s' t q"
  using assms
proof (induction cs arbitrary: d s)
  case Nil
  then obtain r where "read1 io s = Some (of_char CHR ''q'', r)" "sees r t q" using read_takes by fastforce
  then show ?case by (subst control.simps) (auto simp: getchar_def)
next
  case (Cons c cs)
  then obtain r where r: "read1 io s = Some (c, r)" "sees r t (cs @ of_char CHR ''q'' # q)" using read_takes by fastforce
  have "control io d [] s = do { d \<leftarrow> sleep_key c d; control io d [] r }"
    using r(1) Cons.prems(2) by (subst control.simps) (auto simp: getchar_def)
  moreover have "of_char CHR ''q'' \<notin> set cs" using Cons.prems(2) by simp
  ultimately show ?case using Cons.IH [OF r(2), of "the (sleep_key c d)"] by (cases "sleep_key c d") (auto split: option.splits)
qed

end

text \<open>The two rates are reached by whole powers of ten: a wait that was divided down to 0 stays 0 whatever keys follow,
  and three keys \<open>a\<close> in a row leave the range of \<open>int\<close>.\<close>

lemma zero_wait_stays: "sleep_keys cs d = Some d' \<Longrightarrow> prodSleepTime d = 0 \<Longrightarrow> prodSleepTime d' = 0"
proof (induction cs arbitrary: d)
  case (Cons c cs)
  then obtain e where e: "sleep_key c d = Some e" "sleep_keys cs e = Some d'" by (auto simp: bind_eq_Some_conv)
  then have "prodSleepTime e = 0" using Cons.prems(2)
    by (auto simp: sleep_key_def times_ten_def tenth_def bind_eq_Some_conv split: if_splits)
  then show ?case using Cons.IH e(2) by blast
qed simp

lemma three_slower_overflow:
  "prodSleepTime d = 10000000 \<Longrightarrow> sleep_keys (ctext ''aaa'') d = None"
  by (simp add: ctext_def sleep_key_def times_ten_def)

lemma eight_faster_is_zero:
  "prodSleepTime d = 10000000 \<Longrightarrow> \<exists>d'. sleep_keys (ctext ''zzzzzzzz'') d = Some d' \<and> prodSleepTime d' = 0"
  by (simp add: ctext_def sleep_key_def tenth_def)

subsection \<open>On the screen of the process\<close>

text \<open>\<open>render\<close> shows every philosopher with his state and his fork, on the terminal of a process on focus.\<close>

theorem render_shows_table:
  assumes "sees_kernel env k t q" and "\<forall>i < 3. int_ok (forkState s i)"
  shows "\<exists>k'. render (user_io env) s k = Some k'
    \<and> sees_kernel env k' (fold t_char (seat_text s 0 @ seat_text s 1 @ seat_text s 2 @ [10, 10]) t) q"
  by (rule console.render_sees [OF assms])

theorem render_shows_table_witness:
  "\<exists>k'. render (user_io demo_env) philosophers_start (demo_kernel []) = Some k'"
proof -
  have "\<forall>i < 3. int_ok (forkState philosophers_start i)" by (simp add: philosophers_start_def int_ok_def)
  then show ?thesis using render_shows_table [OF demo_sees [of "[]"]] by auto
qed

text \<open>The keys change the two waiting times one after the other until \<open>q\<close> ends \<open>control\<close>; it fails if a time overflows.\<close>

theorem control_reads_keys:
  assumes "sees_kernel env k t (cs @ of_char CHR ''q'' # q)" and "of_char CHR ''q'' \<notin> set cs"
  shows "case sleep_keys cs d of None \<Rightarrow> control (user_io env) d [] k = None
    | Some d' \<Rightarrow> \<exists>k'. control (user_io env) d [] k = Some (d', [], k') \<and> sees_kernel env k' t q"
  by (rule console.control_sees [OF assms])

definition demo_counter :: counter where
  "demo_counter = \<lparr>itemMutex = 0, emptyCount = 0, fullCount = 1, producerThread = 1, consumerThread = 2,
     prodSleepTime = 10000000, consSleepTime = 100000000\<rparr>"

theorem control_reads_keys_witness:
  "\<exists>d' k'. control (user_io demo_env) demo_counter [] (demo_kernel (ctext ''zq'')) = Some (d', [], k')
    \<and> prodSleepTime d' = 1000000"
proof -
  have "sees_kernel demo_env (demo_kernel (ctext ''zq'')) blank_terminal (ctext ''z'' @ of_char CHR ''q'' # [])"
    using demo_sees [of "ctext ''zq''"] by (simp add: ctext_def)
  from control_reads_keys [OF this, of demo_counter] show ?thesis by (auto simp: demo_counter_def ctext_def sleep_key_def tenth_def)
qed

end
