(* ===== verification/ProdCons.thy ===== *)
theory ProdCons
  imports KPrelude
begin

section \<open>Producer and consumer (\<open>Userland/SampleCodeModule/shell.c\<close>)\<close>

text \<open>
  Two threads share a ring of 100 characters, a mutex and two semaphores; between two calls the other
  thread may run.  The mutex and the semaphores are the kernel's: a thread that finds the mutex taken, or
  the count of the semaphore negative after its own decrement, sleeps and is behind its call when it is
  woken; \<open>mutexUp\<close> wakes whoever sleeps on the mutex, \<open>semaphoreUp\<close> when the count is not negative any
  more.  \<open>inserted\<close> and \<open>removed\<close> record what was stored and taken; the program does not have them.
  \<open>myTestSleep\<close> and \<open>printf\<close> do not touch the shared variables.
\<close>

subsection \<open>Definitions\<close>

abbreviation (input) BUFFERSIZE :: nat where "BUFFERSIZE \<equiv> 100"

datatype worker = Producer | Consumer
datatype sync = Empty | Full | Item

record shop =
  sbuffer :: "nat \<Rightarrow> byte"
  rpos :: nat
  wpos :: nat
  aux :: int
  cant :: int
  itemMutex :: bool
  emptyCount :: int
  fullCount :: int
  sleeping :: "worker \<Rightarrow> sync option"
  at :: "worker \<Rightarrow> nat"
  item :: byte
  inserted :: "byte list"
  removed :: "byte list"

definition insertItem :: "byte \<Rightarrow> shop \<Rightarrow> shop" where
  "insertItem c s = s\<lparr>sbuffer := (sbuffer s)(wpos s := c), wpos := (wpos s + 1) mod BUFFERSIZE, inserted := inserted s @ [c]\<rparr>"

definition removeItem :: "shop \<Rightarrow> byte \<times> shop" where
  "removeItem s =
     (let result = sbuffer s (rpos s)
      in (result, s\<lparr>rpos := (rpos s + 1) mod BUFFERSIZE, removed := removed s @ [result]\<rparr>))"

definition wake :: "sync \<Rightarrow> shop \<Rightarrow> shop" where
  "wake m s = s\<lparr>sleeping := (\<lambda>x. if sleeping s x = Some m then None else sleeping s x)\<rparr>"

definition sem_down :: "sync \<Rightarrow> worker \<Rightarrow> int \<Rightarrow> shop \<Rightarrow> shop" where
  \<comment> \<open>\<open>v\<close> is the count after the decrement\<close>
  "sem_down m x v s = (if v < 0 then s\<lparr>sleeping := (sleeping s)(x := Some m)\<rparr> else s)"

definition sem_up :: "sync \<Rightarrow> int \<Rightarrow> shop \<Rightarrow> shop" where
  "sem_up m v s = (if 0 \<le> v then wake m s else s)"

definition down_item :: "worker \<Rightarrow> shop \<Rightarrow> shop" where
  "down_item x s = (if itemMutex s then s\<lparr>sleeping := (sleeping s)(x := Some Item)\<rparr> else s\<lparr>itemMutex := True\<rparr>)"

definition up_item :: "shop \<Rightarrow> shop" where
  "up_item s = wake Item (s\<lparr>itemMutex := False\<rparr>)"

definition producer :: "nat \<Rightarrow> shop \<Rightarrow> shop" where
  \<comment> \<open>the instruction number \<open>p\<close> of the loop\<close>
  "producer p s =
     (if p = 0 then s\<lparr>item := word_of_int (aux s), aux := aux s + 1, cant := cant s + 1\<rparr>
      else if p = 1 then sem_down Empty Producer (emptyCount s - 1) (s\<lparr>emptyCount := emptyCount s - 1\<rparr>)
      else if p = 2 then down_item Producer s
      else if p = 3 then insertItem (item s) s
      else if p = 4 then up_item s
      else sem_up Full (fullCount s + 1) (s\<lparr>fullCount := fullCount s + 1\<rparr>))"

definition consumer :: "nat \<Rightarrow> shop \<Rightarrow> shop" where
  "consumer p s =
     (if p = 0 then sem_down Full Consumer (fullCount s - 1) (s\<lparr>fullCount := fullCount s - 1\<rparr>)
      else if p = 1 then down_item Consumer s
      else if p = 2 then snd (removeItem s)
      else if p = 3 then up_item s
      else if p = 4 then sem_up Empty (emptyCount s + 1) (s\<lparr>emptyCount := emptyCount s + 1\<rparr>)
      else s\<lparr>cant := cant s - 1\<rparr>)"

definition shop_step :: "worker \<Rightarrow> shop \<Rightarrow> shop option" where
  "shop_step x s =
     (if sleeping s x \<noteq> None then None
      else let p = at s x;
               s = s\<lparr>at := (at s)(x := (p + 1) mod 6)\<rparr>
           in Some (case x of Producer \<Rightarrow> producer p s | Consumer \<Rightarrow> consumer p s))"

definition prodcons_start :: shop where
  "prodcons_start = \<lparr>sbuffer = (\<lambda>_. 0), rpos = 0, wpos = 0, aux = 1, cant = 0, itemMutex = False,
     emptyCount = int BUFFERSIZE, fullCount = 0, sleeping = (\<lambda>_. None), at = (\<lambda>_. 0), item = 0,
     inserted = [], removed = []\<rparr>"

inductive shop_reach :: "shop \<Rightarrow> bool" where
  start: "shop_reach prodcons_start"
| step: "shop_reach s \<Longrightarrow> shop_step x s = Some s' \<Longrightarrow> shop_reach s'"

fun shop_run :: "worker list \<Rightarrow> shop \<Rightarrow> shop option" where
  "shop_run [] s = Some s"
| "shop_run (x # xs) s = do { s \<leftarrow> shop_step x s; shop_run xs s }"

subsection \<open>The invariant\<close>

definition waiting_items :: "shop \<Rightarrow> byte list" where
  "waiting_items s = map (\<lambda>i. sbuffer s ((rpos s + i) mod BUFFERSIZE)) [0..<length (inserted s) - length (removed s)]"

definition ring_ok :: "shop \<Rightarrow> bool" where
  "ring_ok s \<longleftrightarrow> length (removed s) \<le> length (inserted s) \<and> length (inserted s) \<le> length (removed s) + BUFFERSIZE
     \<and> rpos s < BUFFERSIZE \<and> wpos s = (rpos s + (length (inserted s) - length (removed s))) mod BUFFERSIZE
     \<and> inserted s = removed s @ waiting_items s"

definition counts :: "nat \<Rightarrow> nat \<Rightarrow> int \<Rightarrow> int \<Rightarrow> int \<Rightarrow> sync option \<Rightarrow> sync option \<Rightarrow> bool \<Rightarrow> bool" where
  \<comment> \<open>producer and consumer at \<open>p\<close> and \<open>c\<close>, \<open>n\<close> items, the two counts, who sleeps, the mutex\<close>
  "counts p c n e f sp sc l \<longleftrightarrow> p < 6 \<and> c < 6
     \<and> e = int BUFFERSIZE - n - of_bool (p = 2 \<or> p = 3) - of_bool (c = 3 \<or> c = 4)
     \<and> f = n - of_bool (p = 4 \<or> p = 5) - of_bool (c = 1 \<or> c = 2)
     \<and> (e < 0 \<longleftrightarrow> sp = Some Empty) \<and> (f < 0 \<longleftrightarrow> sc = Some Full)
     \<and> (sp = Some Empty \<longrightarrow> p = 2) \<and> (sc = Some Full \<longrightarrow> c = 1) \<and> sp \<noteq> Some Full \<and> sc \<noteq> Some Empty
     \<and> (sp = Some Item \<longrightarrow> p = 3 \<and> l) \<and> (sc = Some Item \<longrightarrow> c = 2 \<and> l)
     \<and> (l \<longrightarrow> sp = None \<and> (p = 3 \<or> p = 4) \<or> sc = None \<and> (c = 2 \<or> c = 3))"

abbreviation (input) held :: "shop \<Rightarrow> int" where
  "held s \<equiv> int (length (inserted s)) - int (length (removed s))"

definition counts_ok :: "shop \<Rightarrow> bool" where
  "counts_ok s \<longleftrightarrow> counts (at s Producer) (at s Consumer) (held s) (emptyCount s) (fullCount s)
     (sleeping s Producer) (sleeping s Consumer) (itemMutex s)"

definition items_ok :: "shop \<Rightarrow> bool" where
  "items_ok s \<longleftrightarrow> 1 \<le> aux s \<and> inserted s @ (if at s Producer \<in> {1, 2, 3} then [item s] else []) = map word_of_int [1..aux s - 1]"

lemma six_cases: "p < 6 \<Longrightarrow> p = 0 \<or> p = 1 \<or> p = 2 \<or> p = 3 \<or> p = 4 \<or> p = (5 :: nat)"
  by presburger

lemmas step_defs = shop_step_def producer_def consumer_def sem_down_def sem_up_def down_item_def up_item_def wake_def
  insertItem_def removeItem_def Let_def

lemma shop_ring_insert:
  assumes "ring_ok s" and "length (inserted s) < length (removed s) + 100"
  shows "ring_ok (insertItem c s)"
proof -
  define n where "n = length (inserted s) - length (removed s)"
  define f where "f = (sbuffer s)(wpos s := c)"
  have n: "n < 100" "Suc (length (inserted s)) - length (removed s) = Suc n" and r: "rpos s < 100"
    and w: "wpos s = (rpos s + n) mod 100" using assms by (simp_all add: ring_ok_def n_def Suc_diff_le)
  have ne: "(rpos s + i) mod 100 \<noteq> wpos s" if "i < n" for i
  proof
    assume "(rpos s + i) mod 100 = wpos s"
    then have "(rpos s + i) mod 100 = (rpos s + n) mod 100" by (simp add: w)
    then show False using n(1) r that by (auto simp: mod_if split: if_splits)
  qed
  have "map (\<lambda>i. f ((rpos s + i) mod 100)) [0..<Suc n] = map (\<lambda>i. sbuffer s ((rpos s + i) mod 100)) [0..<n] @ [c]"
    using ne w by (auto simp: f_def)
  moreover have "(wpos s + 1) mod 100 = (rpos s + Suc n) mod 100" by (simp add: w mod_Suc_eq)
  moreover have "\<not> (\<exists>x\<in>{0..<n}. (rpos s + x) mod 100 = (rpos s + n) mod 100)" using ne by (auto simp: w)
  ultimately show ?thesis using assms n(2)
    by (simp add: ring_ok_def insertItem_def waiting_items_def n_def [symmetric] f_def [symmetric])
qed

lemma shop_ring_remove:
  assumes "ring_ok s" and "length (removed s) < length (inserted s)"
  shows "ring_ok (snd (removeItem s))"
proof -
  define n where "n = length (inserted s) - Suc (length (removed s))"
  have n: "length (inserted s) - length (removed s) = Suc n" using assms(2) by (simp add: n_def)
  have r: "rpos s < 100" using assms(1) by (simp add: ring_ok_def)
  have "waiting_items s = sbuffer s (rpos s) # map (\<lambda>i. sbuffer s ((rpos s + Suc i) mod 100)) [0..<n]"
    using r by (simp add: waiting_items_def n upt_conv_Cons map_Suc_upt [symmetric] del: upt_Suc)
  moreover have "((rpos s + 1) mod 100 + i) mod 100 = (rpos s + Suc i) mod 100" for i
    by (metis add.assoc mod_add_left_eq plus_1_eq_Suc)
  moreover have "(rpos s + Suc n) mod 100 = ((rpos s + 1) mod 100 + n) mod 100"
    by (metis add.assoc mod_add_left_eq plus_1_eq_Suc)
  moreover have "n \<le> 100" using assms(1) unfolding ring_ok_def n_def by linarith
  ultimately show ?thesis using assms
    by (simp add: ring_ok_def removeItem_def waiting_items_def n n_def [symmetric] Let_def)
qed

lemma ring_cong:
  assumes "sbuffer s' = sbuffer s" "rpos s' = rpos s" "wpos s' = wpos s" "inserted s' = inserted s" "removed s' = removed s"
  shows "ring_ok s' = ring_ok s"
  using assms by (simp add: ring_ok_def waiting_items_def)

lemma room_for_item:
  assumes "ring_ok s" and "counts_ok s" and "at s Producer = 3" and "sleeping s Producer = None"
  shows "length (inserted s) < length (removed s) + 100"
  using assms by (auto simp: counts_ok_def counts_def ring_ok_def of_bool_def split: if_splits)

lemma item_waits:
  assumes "counts_ok s" and "at s Consumer = 2" and "sleeping s Consumer = None"
  shows "length (removed s) < length (inserted s)"
  using assms by (auto simp: counts_ok_def counts_def of_bool_def split: if_splits)

lemma counts_less: "counts p c n e f sp sc l \<Longrightarrow> p < 6 \<and> c < 6"
  by (simp add: counts_def)

lemma shop_step_cases:
  assumes "shop_step x s = Some s'" and "counts_ok s"
  shows "sleeping s x = None" and "at s x < 6"
    and "s' = (case x of Producer \<Rightarrow> producer (at s x) | Consumer \<Rightarrow> consumer (at s x)) (s\<lparr>at := (at s)(x := (at s x + 1) mod 6)\<rparr>)"
proof -
  show "sleeping s x = None" using assms(1) by (simp add: shop_step_def split: if_splits)
  show "at s x < 6" using assms(2) by (cases x) (auto simp: counts_ok_def dest: counts_less)
  show "s' = (case x of Producer \<Rightarrow> producer (at s x) | Consumer \<Rightarrow> consumer (at s x)) (s\<lparr>at := (at s)(x := (at s x + 1) mod 6)\<rparr>)"
    using assms(1) by (cases x) (simp_all add: shop_step_def Let_def split: if_splits)
qed

text \<open>The steps of the producer, then those of the consumer, on the counts.\<close>

lemma counts_producer:
  assumes k: "counts p c n e f None sc l"
  shows "p = 0 \<Longrightarrow> counts (Suc 0) c n e f None sc l"
    and "p = Suc 0 \<Longrightarrow> counts 2 c n (e - 1) f (if e - 1 < 0 then Some Empty else None) sc l"
    and "p = 2 \<Longrightarrow> l \<Longrightarrow> counts 3 c n e f (Some Item) sc True"
    and "p = 2 \<Longrightarrow> \<not> l \<Longrightarrow> counts 3 c n e f None sc True"
    and "p = 3 \<Longrightarrow> counts 4 c (n + 1) e f None sc l"
    and "p = 4 \<Longrightarrow> counts 5 c n e f None (if sc = Some Item then None else sc) False"
    and "p = 5 \<Longrightarrow> counts 0 c n e (f + 1) None (if 0 \<le> f + 1 \<and> sc = Some Full then None else sc) l"
proof -
  note d = k six_cases [OF counts_less [OF k, THEN conjunct2]]
  show "p = 0 \<Longrightarrow> counts (Suc 0) c n e f None sc l"
    using d by (elim disjE; simp add: counts_def; blast?)
  show "p = Suc 0 \<Longrightarrow> counts 2 c n (e - 1) f (if e - 1 < 0 then Some Empty else None) sc l"
    using d by (elim disjE; simp add: counts_def; blast?)
  show "p = 2 \<Longrightarrow> l \<Longrightarrow> counts 3 c n e f (Some Item) sc True"
    using d by (elim disjE; simp add: counts_def; blast?)
  show "p = 2 \<Longrightarrow> \<not> l \<Longrightarrow> counts 3 c n e f None sc True"
    using d by (elim disjE; simp add: counts_def; blast?)
  show "p = 3 \<Longrightarrow> counts 4 c (n + 1) e f None sc l"
    using d by (elim disjE; simp add: counts_def; blast?)
  show "p = 4 \<Longrightarrow> counts 5 c n e f None (if sc = Some Item then None else sc) False"
    using d by (elim disjE; simp add: counts_def; blast?)
  show "p = 5 \<Longrightarrow> counts 0 c n e (f + 1) None (if 0 \<le> f + 1 \<and> sc = Some Full then None else sc) l"
    using d by (elim disjE; simp add: counts_def; auto?; (cases "sc = Some Full"; simp)?)
qed

lemma counts_consumer:
  assumes k: "counts p c n e f sp None l"
  shows "c = 0 \<Longrightarrow> counts p (Suc 0) n e (f - 1) sp (if f - 1 < 0 then Some Full else None) l"
    and "c = Suc 0 \<Longrightarrow> l \<Longrightarrow> counts p 2 n e f sp (Some Item) True"
    and "c = Suc 0 \<Longrightarrow> \<not> l \<Longrightarrow> counts p 2 n e f sp None True"
    and "c = 2 \<Longrightarrow> counts p 3 (n - 1) e f sp None l"
    and "c = 3 \<Longrightarrow> counts p 4 n e f (if sp = Some Item then None else sp) None False"
    and "c = 4 \<Longrightarrow> counts p 5 n (e + 1) f (if 0 \<le> e + 1 \<and> sp = Some Empty then None else sp) None l"
    and "c = 5 \<Longrightarrow> counts p 0 n e f sp None l"
proof -
  note d = k six_cases [OF counts_less [OF k, THEN conjunct1]]
  show "c = 0 \<Longrightarrow> counts p (Suc 0) n e (f - 1) sp (if f - 1 < 0 then Some Full else None) l"
    using d by (elim disjE; simp add: counts_def; blast?)
  show "c = Suc 0 \<Longrightarrow> l \<Longrightarrow> counts p 2 n e f sp (Some Item) True"
    using d by (elim disjE; simp add: counts_def; blast?)
  show "c = Suc 0 \<Longrightarrow> \<not> l \<Longrightarrow> counts p 2 n e f sp None True"
    using d by (elim disjE; simp add: counts_def; blast?)
  show "c = 2 \<Longrightarrow> counts p 3 (n - 1) e f sp None l"
    using d by (elim disjE; simp add: counts_def; blast?)
  show "c = 3 \<Longrightarrow> counts p 4 n e f (if sp = Some Item then None else sp) None False"
    using d by (elim disjE; simp add: counts_def; blast?)
  show "c = 4 \<Longrightarrow> counts p 5 n (e + 1) f (if 0 \<le> e + 1 \<and> sp = Some Empty then None else sp) None l"
    using d by (elim disjE; simp add: counts_def; auto?; (cases "sp = Some Empty"; simp)?)
  show "c = 5 \<Longrightarrow> counts p 0 n e f sp None l"
    using d by (elim disjE; simp add: counts_def; blast?)
qed

lemma counts_step:
  assumes st: "shop_step x s = Some s'" and c: "counts_ok s"
  shows "counts_ok s'"
proof -
  note sc = shop_step_cases [OF st c]
  note simps = counts_ok_def step_defs add.commute [of 1]
  show ?thesis
  proof (cases x)
    case Producer
    note co = counts_producer [OF c [unfolded counts_ok_def sc(1) [unfolded Producer]]]
    consider "at s x = 0" | "at s x = 1" | "at s x = 2" | "at s x = 3" | "at s x = 4" | "at s x = 5"
      using six_cases [OF sc(2)] by (elim disjE)
    then show ?thesis using Producer
    proof cases
      case 1 then show ?thesis using co(1) sc(1,3) Producer by (simp add: simps)
    next
      case 2 then show ?thesis using co(2) sc(1,3) Producer by (simp add: simps numeral_2_eq_2 split: if_splits)
    next
      case 3 then show ?thesis using co(3,4) sc(1,3) Producer by (cases "itemMutex s") (simp_all add: simps)
    next
      case 4 then show ?thesis using co(5) sc(1,3) Producer by (simp add: simps diff_add_eq)
    next
      case 5 then show ?thesis using co(6) sc(1,3) Producer by (simp add: simps split: if_splits)
    next
      case 6 then show ?thesis using co(7) sc(1,3) Producer by (auto simp: simps split: if_splits)
    qed
  next
    case Consumer
    note co = counts_consumer [OF c [unfolded counts_ok_def sc(1) [unfolded Consumer]]]
    consider "at s x = 0" | "at s x = 1" | "at s x = 2" | "at s x = 3" | "at s x = 4" | "at s x = 5"
      using six_cases [OF sc(2)] by (elim disjE)
    then show ?thesis using Consumer
    proof cases
      case 1 then show ?thesis using co(1) sc(1,3) Consumer by (simp add: simps split: if_splits)
    next
      case 2 then show ?thesis using co(2,3) sc(1,3) Consumer by (cases "itemMutex s") (simp_all add: simps numeral_2_eq_2)
    next
      case 3 then show ?thesis using co(4) sc(1,3) Consumer by (simp add: simps diff_diff_eq)
    next
      case 4 then show ?thesis using co(5) sc(1,3) Consumer by (simp add: simps split: if_splits)
    next
      case 5 then show ?thesis using co(6) sc(1,3) Consumer by (auto simp: simps split: if_splits)
    next
      case 6 then show ?thesis using co(7) sc(1,3) Consumer by (simp add: simps)
    qed
  qed
qed

lemma ring_step:
  assumes st: "shop_step x s = Some s'" and c: "counts_ok s" and r: "ring_ok s"
  shows "ring_ok s'"
proof -
  note sc = shop_step_cases [OF st c]
  let ?u = "s\<lparr>at := (at s)(x := (at s x + 1) mod 6)\<rparr>"
  have u: "ring_ok ?u" "length (inserted ?u) = length (inserted s)" "length (removed ?u) = length (removed s)"
    using ring_cong [of ?u s] r by simp_all
  consider "x = Producer" "at s x = 3" | "x = Consumer" "at s x = 2" | "x = Producer" "at s x \<noteq> 3" | "x = Consumer" "at s x \<noteq> 2"
    by (cases x) blast+
  then show ?thesis
  proof cases
    case 1
    then show ?thesis using shop_ring_insert [OF u(1)] room_for_item [OF r c] sc(1,3) by (simp add: producer_def)
  next
    case 2
    then show ?thesis using shop_ring_remove [OF u(1)] item_waits [OF c] sc(1,3) by (simp add: consumer_def)
  next
    case 3
    then show ?thesis using sc(3) r ring_cong [of s' s] by (simp add: step_defs split: if_splits)
  next
    case 4
    then show ?thesis using sc(3) r ring_cong [of s' s] by (simp add: step_defs split: if_splits)
  qed
qed

lemma items_step:
  assumes st: "shop_step x s = Some s'" and c: "counts_ok s" and i: "items_ok s"
  shows "items_ok s'"
proof -
  note sc = shop_step_cases [OF st c]
  have up: "[1..aux s] = [1..aux s - 1] @ [aux s]" using i upto_rec2 [of 1 "aux s"] by (simp add: items_ok_def)
  show ?thesis
  proof (cases x)
    case Producer
    then show ?thesis using six_cases [OF sc(2)] sc(3) i
      by (elim disjE; simp add: items_ok_def step_defs up split: if_splits)
  next
    case Consumer
    then have "aux s' = aux s" "inserted s' = inserted s" "item s' = item s" "at s' Producer = at s Producer"
      using sc(3) by (simp_all add: step_defs)
    then show ?thesis using i by (simp only: items_ok_def)
  qed
qed

lemma shop_reach_ok: "shop_reach s \<Longrightarrow> ring_ok s \<and> counts_ok s \<and> items_ok s"
proof (induction rule: shop_reach.induct)
  case start
  show ?case
    by (simp add: ring_ok_def counts_ok_def counts_def items_ok_def waiting_items_def prodcons_start_def)
next
  case (step s x s')
  then show ?case using ring_step [OF step.hyps(2)] counts_step [OF step.hyps(2)] items_step [OF step.hyps(2)] by blast
qed

lemma some_worker_awake:
  assumes "counts_ok s" and "ring_ok s"
  shows "\<exists>x. sleeping s x = None"
proof (rule ccontr)
  assume "\<nexists>x. sleeping s x = None"
  then obtain a b where "sleeping s Producer = Some a" "sleeping s Consumer = Some b" by (metis not_None_eq)
  then show False using assms
    by (cases a; cases b) (auto simp: counts_ok_def counts_def ring_ok_def of_bool_def split: if_splits)
qed

lemma shop_run_reach: "shop_reach s \<Longrightarrow> shop_run xs s = Some s' \<Longrightarrow> shop_reach s'"
  by (induction xs arbitrary: s) (auto simp: bind_eq_Some_conv intro: shop_reach.step)

subsection \<open>Properties\<close>


definition shop_demo :: shop where
  "shop_demo = the (shop_run (replicate 6 Producer @ [Consumer, Producer, Producer, Consumer, Producer, Consumer]) prodcons_start)"


end
