(* ===== verification/BmfsDisk.thy ===== *)
theory BmfsDisk
  imports KPrelude "HOL-Library.Multiset"
begin

unbundle bit_operations_syntax

section \<open>Files and the directory of a disk (\<open>BMFS/bmfs.c\<close>: data)\<close>

text \<open>
  What the file system utility works on.  A \<open>FILE\<close> is the bytes of a regular file, a position and the error flag of
  the stream; a write that would go beyond the room that the host has fails and stores nothing, reads never fail.
  The utility has a directory of 64 entries of 64 bytes; in the model it is the list of the entries, and
  \<open>dir_bytes\<close>, \<open>dir_of_bytes\<close> are its bytes, which are what is read, written and patched.  Strings of
  the command line are the lists of their characters without the null character.
\<close>

subsection \<open>Streams\<close>

record FILE =
  contents :: "byte list"
  position :: nat
  failed :: bool

definition overwrite :: "nat \<Rightarrow> byte list \<Rightarrow> byte list \<Rightarrow> byte list" where
  \<comment> \<open>the bytes after \<open>bs\<close> is written at \<open>p\<close>; a gap behind the end reads zero\<close>
  "overwrite p bs xs = (if bs = [] then xs else take p (xs @ replicate (p - length xs) 0) @ bs @ drop (p + length bs) xs)"

definition fopen :: "byte list \<Rightarrow> FILE" where
  "fopen bs = \<lparr>contents = bs, position = 0, failed = False\<rparr>"

definition fseek :: "64 word \<Rightarrow> FILE \<Rightarrow> FILE" where
  \<comment> \<open>\<open>SEEK_SET\<close>; a negative offset is refused\<close>
  "fseek off f = (if sint off < 0 then f else f\<lparr>position := unat off\<rparr>)"

definition fread :: "nat \<Rightarrow> FILE \<Rightarrow> byte list \<times> FILE" where
  "fread n f = (let bs = take n (drop (position f) (contents f)) in (bs, f\<lparr>position := position f + length bs\<rparr>))"

definition fwrite :: "nat \<Rightarrow> byte list \<Rightarrow> FILE \<Rightarrow> bool \<times> FILE" where
  "fwrite room bs f =
     (if position f + length bs \<le> room
      then (True, f\<lparr>contents := overwrite (position f) bs (contents f), position := position f + length bs\<rparr>)
      else (False, f\<lparr>failed := True\<rparr>))"

definition getc :: "FILE \<Rightarrow> byte option \<times> FILE" where
  \<comment> \<open>\<open>None\<close> is \<open>EOF\<close>\<close>
  "getc f = (if position f < length (contents f) then (Some (contents f ! position f), f\<lparr>position := position f + 1\<rparr>)
             else (None, f))"

definition fputc :: "nat \<Rightarrow> byte option \<Rightarrow> FILE \<Rightarrow> FILE" where
  \<comment> \<open>\<open>EOF\<close> is -1, whose low byte is written\<close>
  "fputc room c f = snd (fwrite room [case c of None \<Rightarrow> - 1 | Some b \<Rightarrow> b] f)"

definition fill_buffer :: "byte list \<Rightarrow> byte list \<Rightarrow> byte list" where
  \<comment> \<open>an array after \<open>bs\<close> was read into its beginning\<close>
  "fill_buffer bs buf = bs @ drop (length bs) buf"

subsection \<open>Entries of the directory\<close>

record BMFSEntry =
  FileName :: "byte list"
  StartingBlock :: "64 word"
  ReservedBlocks :: "64 word"
  FileSize :: "64 word"
  Unused :: "64 word"

definition le64 :: "64 word \<Rightarrow> byte list" where
  "le64 w = map (\<lambda>i. ucast (drop_bit (8 * i) w)) [0..<8]"

definition load64 :: "byte list \<Rightarrow> 64 word" where
  "load64 bs = fold (\<lambda>i w. w OR push_bit (8 * i) (ucast (bs ! i))) [0..<8] 0"

definition entry_bytes :: "BMFSEntry \<Rightarrow> byte list" where
  "entry_bytes e = FileName e @ le64 (StartingBlock e) @ le64 (ReservedBlocks e) @ le64 (FileSize e) @ le64 (Unused e)"

definition entry_of_bytes :: "byte list \<Rightarrow> BMFSEntry" where
  "entry_of_bytes bs = \<lparr>FileName = take 32 bs, StartingBlock = load64 (drop 32 bs), ReservedBlocks = load64 (drop 40 bs),
     FileSize = load64 (drop 48 bs), Unused = load64 (drop 56 bs)\<rparr>"

definition dir_bytes :: "BMFSEntry list \<Rightarrow> byte list" where
  "dir_bytes D = concat (map entry_bytes D)"

definition dir_of_bytes :: "byte list \<Rightarrow> BMFSEntry list" where
  "dir_of_bytes bs = map (\<lambda>i. entry_of_bytes (take 64 (drop (64 * i) bs))) [0..<64]"

definition patch :: "nat \<Rightarrow> byte list \<Rightarrow> BMFSEntry list \<Rightarrow> BMFSEntry list" where
  \<comment> \<open>\<open>memcpy(Directory + off, bs, n)\<close>\<close>
  "patch off bs D = dir_of_bytes (overwrite off bs (dir_bytes D))"

definition typed_entry :: "BMFSEntry \<Rightarrow> bool" where
  "typed_entry e \<longleftrightarrow> length (FileName e) = 32"

definition typed_dir :: "BMFSEntry list \<Rightarrow> bool" where
  "typed_dir D \<longleftrightarrow> length D = 64 \<and> (\<forall>e \<in> set D. typed_entry e)"

subsection \<open>Entries and their bytes\<close>

lemma length_le64 [simp]: "length (le64 w) = 8"
  by (simp add: le64_def)

lemma bit_load64:
  "bit (fold (\<lambda>i w. w OR push_bit (8 * i) (ucast (bs ! i))) [0..<k] (0 :: 64 word)) n
     \<longleftrightarrow> n < 64 \<and> n < 8 * k \<and> bit (bs ! (n div 8)) (n mod 8)" for bs :: "byte list"
proof (induction k)
  case (Suc k)
  have "bit (push_bit (8 * k) (ucast (bs ! k) :: 64 word)) n \<longleftrightarrow> n < 64 \<and> 8 * k \<le> n \<and> bit (bs ! k) (n - 8 * k)"
    by (auto simp: bit_simps dest: bit_imp_le_length)
  also have "\<dots> \<longleftrightarrow> n < 64 \<and> n div 8 = k \<and> bit (bs ! (n div 8)) (n mod 8)"
  proof (cases "8 * k \<le> n")
    case True
    then obtain m where "n = 8 * k + m" using le_Suc_ex by blast
    then show ?thesis using bit_imp_le_length [of "bs ! k" m] by (cases "m < 8") (auto simp: div_add1_eq)
  next
    case False
    then have "n div 8 < k" using div_less_iff_less_mult [of 8 n k] by (simp add: mult.commute)
    then show ?thesis using False by simp
  qed
  finally have b: "bit (push_bit (8 * k) (ucast (bs ! k) :: 64 word)) n \<longleftrightarrow> n < 64 \<and> n div 8 = k \<and> bit (bs ! (n div 8)) (n mod 8)" .
  have d: "n < 8 * j \<longleftrightarrow> n div 8 < j" for j using div_less_iff_less_mult [of 8 n j] by (simp add: mult.commute)
  have "n < 8 * Suc k \<longleftrightarrow> n < 8 * k \<or> n div 8 = k" unfolding d by (rule less_Suc_eq)
  then show ?case unfolding upt_Suc_append [OF le0] fold_append comp_def fold_simps bit_or_iff Suc.IH b by blast
qed simp

lemma load64_le64 [simp]: "load64 (le64 w @ xs) = w"
proof (rule bit_word_eqI)
  fix n assume "n < LENGTH(64)"
  then have "n div 8 < 8" "8 * (n div 8) + n mod 8 = n" "n < 64" by simp_all
  then show "bit (load64 (le64 w @ xs)) n = bit w n"
    unfolding load64_def bit_load64 by (auto simp: le64_def nth_append bit_simps)
qed

lemma load64_le64' [simp]: "load64 (le64 w) = w"
  using load64_le64 [of w "[]"] by simp

lemma length_entry_bytes: "typed_entry e \<Longrightarrow> length (entry_bytes e) = 64"
  by (simp add: entry_bytes_def typed_entry_def)

lemma entry_of_entry_bytes: "typed_entry e \<Longrightarrow> entry_of_bytes (entry_bytes e) = e"
  by (cases e) (simp add: entry_of_bytes_def entry_bytes_def typed_entry_def)

subsection \<open>The directory and its bytes\<close>

lemma dir_bytes_simps [simp]:
  "dir_bytes [] = []" "dir_bytes (e # D) = entry_bytes e @ dir_bytes D" "dir_bytes (D @ D') = dir_bytes D @ dir_bytes D'"
  by (simp_all add: dir_bytes_def)

lemma length_dir_bytes: "\<forall>e \<in> set D. typed_entry e \<Longrightarrow> length (dir_bytes D) = 64 * length D"
  by (induction D) (simp_all add: length_entry_bytes)

lemma dir_bytes_slot:
  assumes "\<forall>e \<in> set D. typed_entry e" and "i < length D"
  shows "take 64 (drop (64 * i) (dir_bytes D)) = entry_bytes (D ! i)"
proof -
  have D: "dir_bytes D = dir_bytes (take i D) @ entry_bytes (D ! i) @ dir_bytes (drop (i + 1) D)"
    using dir_bytes_simps(3) [of "take i D" "drop i D"] Cons_nth_drop_Suc [OF assms(2)] dir_bytes_simps(2) [of "D ! i" "drop (i + 1) D"] by simp
  have "length (dir_bytes (take i D)) = 64 * i" using assms length_dir_bytes [of "take i D"] by (auto dest: in_set_takeD)
  moreover have "length (entry_bytes (D ! i)) = 64" using assms by (simp add: length_entry_bytes)
  ultimately show ?thesis unfolding D by simp
qed

lemma typed_dirD: "typed_dir D \<Longrightarrow> length D = 64" "typed_dir D \<Longrightarrow> i < 64 \<Longrightarrow> typed_entry (D ! i)"
    "typed_dir D \<Longrightarrow> length (dir_bytes D) = 4096"
  by (auto simp: typed_dir_def length_dir_bytes)

lemma dir_of_dir_bytes: "typed_dir D \<Longrightarrow> dir_of_bytes (dir_bytes D) = D"
  using dir_bytes_slot [of D] entry_of_entry_bytes
  by (intro nth_equalityI) (simp_all add: dir_of_bytes_def typed_dir_def)

lemma typed_dir_of_bytes: "length bs = 4096 \<Longrightarrow> typed_dir (dir_of_bytes bs)"
  by (auto simp: typed_dir_def dir_of_bytes_def typed_entry_def entry_of_bytes_def)

lemma typed_dir_update: "typed_dir D \<Longrightarrow> typed_entry e \<Longrightarrow> typed_dir (D[k := e])"
  using set_update_subset_insert [of D k e] by (auto simp: typed_dir_def)

lemma overwrite_inside: "p + length bs \<le> length xs \<Longrightarrow> overwrite p bs xs = take p xs @ bs @ drop (p + length bs) xs"
  by (auto simp: overwrite_def)

lemma length_overwrite: "bs \<noteq> [] \<Longrightarrow> length (overwrite p bs xs) = max (length xs) (p + length bs)"
  by (simp add: overwrite_def max_def min_def)

lemma nth_overwrite:
  assumes "bs \<noteq> []" and "i < max (length xs) (p + length bs)"
  shows "overwrite p bs xs ! i = (if p \<le> i \<and> i < p + length bs then bs ! (i - p) else if i < length xs then xs ! i else 0)"
  using assms by (auto simp: overwrite_def nth_append min_def max_def split: if_splits)

lemma overwrite_slice: "take (length bs) (drop p (overwrite p bs xs)) = bs"
  by (simp add: overwrite_def min_def)

lemma overwrite_step: "overwrite (Suc p) bs (overwrite p [b] xs) = overwrite p (b # bs) xs"
proof (cases "bs = []")
  case False
  show ?thesis
  proof (rule nth_equalityI)
    show "length (overwrite (Suc p) bs (overwrite p [b] xs)) = length (overwrite p (b # bs) xs)"
      using False by (simp add: length_overwrite)
  next
    fix i assume "i < length (overwrite (Suc p) bs (overwrite p [b] xs))"
    then have i: "i < max (length xs) (Suc p + length bs)" using False by (simp add: length_overwrite)
    then show "overwrite (Suc p) bs (overwrite p [b] xs) ! i = overwrite p (b # bs) xs ! i"
      using False by (cases "i < Suc p") (auto simp: nth_overwrite length_overwrite nth_Cons' less_Suc_eq max_def split: if_splits)
  qed
qed (simp add: overwrite_def)

lemma slice_eqI:
  assumes "p + n \<le> length xs" "p + n \<le> length ys" and "\<And>i. p \<le> i \<Longrightarrow> i < p + n \<Longrightarrow> xs ! i = ys ! i"
  shows "take n (drop p xs) = take n (drop p ys)"
  using assms by (intro nth_equalityI) auto

lemma patch_slot:
  assumes "typed_dir D" and "k < 64" and "j + length bs \<le> 64"
    and e: "overwrite j bs (entry_bytes (D ! k)) = entry_bytes e" "typed_entry e"
  shows "patch (k * 64 + j) bs D = D[k := e]"
proof -
  note l = typed_dirD(1) [OF assms(1)]
  have t: "\<forall>e \<in> set (take k D). typed_entry e" using assms(1) by (auto simp: typed_dir_def dest: in_set_takeD)
  have D: "D = take k D @ D ! k # drop (k + 1) D" using assms(2) l id_take_nth_drop [of k D] by simp
  let ?a = "dir_bytes (take k D)" and ?b = "entry_bytes (D ! k)" and ?c = "dir_bytes (drop (k + 1) D)"
  have len: "length ?a = k * 64" "length ?b = 64"
    using length_dir_bytes [OF t] typed_dirD(2) [OF assms(1,2)] assms(2) l by (simp_all add: length_entry_bytes)
  have "dir_bytes D = ?a @ ?b @ ?c" using D dir_bytes_simps(2,3) by metis
  then have "overwrite (k * 64 + j) bs (dir_bytes D) = overwrite (k * 64 + j) bs (?a @ ?b @ ?c)" by simp
  also have "\<dots> = ?a @ overwrite j bs ?b @ ?c"
    using len assms(3) by (subst (1 2) overwrite_inside) simp_all
  also have "\<dots> = dir_bytes (D[k := e])"
    using e(1) assms(2) l by (simp add: upd_conv_take_nth_drop)
  finally show ?thesis using dir_of_dir_bytes [OF typed_dir_update [OF assms(1) e(2), of k]] by (simp add: patch_def)
qed

lemma patch_FileSize:
  assumes "typed_dir D" and "k < 64"
  shows "patch (k * 64 + 48) (le64 x) D = D[k := (D ! k)\<lparr>FileSize := x\<rparr>]"
proof (rule patch_slot [OF assms])
  have "length (FileName (D ! k)) = 32" using typed_dirD(2) [OF assms] by (simp add: typed_entry_def)
  then show "overwrite 48 (le64 x) (entry_bytes (D ! k)) = entry_bytes ((D ! k)\<lparr>FileSize := x\<rparr>)" "typed_entry ((D ! k)\<lparr>FileSize := x\<rparr>)"
    by (simp_all add: overwrite_inside entry_bytes_def typed_entry_def)
qed simp

lemma patch_mark:
  assumes "typed_dir D" and "k < 64"
  shows "patch (k * 64) [x] D = D[k := (D ! k)\<lparr>FileName := (FileName (D ! k))[0 := x]\<rparr>]"
proof -
  have "length (FileName (D ! k)) = 32" using typed_dirD(2) [OF assms] by (simp add: typed_entry_def)
  then have "overwrite 0 [x] (entry_bytes (D ! k)) = entry_bytes ((D ! k)\<lparr>FileName := (FileName (D ! k))[0 := x]\<rparr>)"
      "typed_entry ((D ! k)\<lparr>FileName := (FileName (D ! k))[0 := x]\<rparr>)"
    by (cases "FileName (D ! k)", simp_all add: overwrite_inside entry_bytes_def typed_entry_def)+
  then show ?thesis using patch_slot [OF assms, of 0 "[x]"] by simp
qed

end
