(* ===== verification/Bmfs.thy ===== *)
theory Bmfs
  imports BmfsDisk
begin

section \<open>The file system utility (\<open>BMFS/bmfs.c\<close>: commands)\<close>

text \<open>
  The commands of the utility, on the state it keeps: the open disk, the copies of the information block and of the
  directory, the size of the disk in MiB, the other files of the host by name, and what was printed, as the pieces of
  the format with their arguments.  \<open>qs\<close> is the \<open>qsort\<close> of the C library; the standard fixes only what it
  returns for a comparison function that is consistent.  The room of the host, the files that may be opened for writing, what
  is typed and whether \<open>malloc\<close> has memory are parameters (\<open>host\<close>).  A null file name, a name that does not fit its
  array and a loop counter that overflows are \<open>None\<close>.  A local file is not the disk itself.
\<close>

subsection \<open>State\<close>

datatype piece = Txt string | Str "byte list" | Quoted "byte list" | StrPad nat "byte list" | Num int | NumPad nat int | Percent

record bmfs =
  diskname :: "byte list"
  disk :: FILE
  DiskInfo :: "byte list"
  Directory :: "BMFSEntry list"
  disksize :: "32 word"
  files :: "byte list \<Rightarrow> byte list option"
  printed :: "piece list"

record host =
  room :: nat
  creatable :: "byte list \<Rightarrow> bool"
  typed_line :: "byte list"
  has_memory :: bool

type_synonym qsort = "(BMFSEntry \<Rightarrow> BMFSEntry \<Rightarrow> int) \<Rightarrow> BMFSEntry list \<Rightarrow> BMFSEntry list"

definition say :: "piece list \<Rightarrow> bmfs \<Rightarrow> bmfs" where
  "say ps s = s\<lparr>printed := printed s @ ps\<rparr>"

abbreviation (input) ascii :: "string \<Rightarrow> byte list" where
  "ascii w \<equiv> map of_char w"

subsection \<open>Strings of the C library\<close>

fun strcmp0 :: "byte list \<Rightarrow> byte list \<Rightarrow> bool option" where
  \<comment> \<open>\<open>strcmp(a, b) == 0\<close>: the string \<open>a\<close> and the array \<open>b\<close>\<close>
  "strcmp0 _ [] = None"
| "strcmp0 [] (b # bs) = Some (b = 0)"
| "strcmp0 (a # as) (b # bs) = (if a = b then strcmp0 as bs else Some False)"

definition tolower :: "byte \<Rightarrow> byte" where
  "tolower c = (if 65 \<le> c \<and> c \<le> 90 then c + 32 else c)"

definition toupper :: "byte \<Rightarrow> byte" where
  "toupper c = (if 97 \<le> c \<and> c \<le> 122 then c - 32 else c)"

definition isdigit :: "byte \<Rightarrow> bool" where
  "isdigit c \<longleftrightarrow> 48 \<le> c \<and> c \<le> 57"

definition strcasecmp0 :: "byte list \<Rightarrow> byte list \<Rightarrow> bool option" where
  \<comment> \<open>\<open>strcasecmp(a, b) == 0\<close>\<close>
  "strcasecmp0 a b = strcmp0 (map tolower a) (map tolower b)"

definition is_command :: "string \<Rightarrow> byte list \<Rightarrow> bool option" where
  "is_command w command = strcasecmp0 (ascii w) (command @ [0])"

fun digitsLoop :: "int \<Rightarrow> byte list \<Rightarrow> int" where
  "digitsLoop n (c # cs) = (if isdigit c then digitsLoop (10 * n + (uint c - 48)) cs else n)"
| "digitsLoop n [] = n"

definition atoi :: "byte list \<Rightarrow> int option" where
  \<comment> \<open>a value that does not fit is undefined\<close>
  "atoi w = (let w = dropWhile (\<lambda>c. c = 32 \<or> 9 \<le> c \<and> c \<le> 13) w;
                 v = (if w \<noteq> [] \<and> hd w = 45 then - digitsLoop 0 (tl w)
                      else if w \<noteq> [] \<and> hd w = 43 then digitsLoop 0 (tl w) else digitsLoop 0 w)
             in if int_range v then Some v else None)"

subsection \<open>Looking a file up\<close>

definition mark :: "BMFSEntry \<Rightarrow> byte" where
  "mark e = FileName e ! 0"

fun findLoop :: "byte list option \<Rightarrow> nat \<Rightarrow> BMFSEntry list \<Rightarrow> (nat \<times> BMFSEntry) option option" where
  "findLoop filename tint [] = Some None"
| "findLoop filename tint (e # es) =
     (if mark e = 0 then Some None
      else if mark e = 1 then findLoop filename (tint + 1) es
      else do {
        w \<leftarrow> filename;
        eq \<leftarrow> strcmp0 w (FileName e);
        if eq then Some (Some (tint, e)) else findLoop filename (tint + 1) es })"

definition findfile :: "byte list option \<Rightarrow> bmfs \<Rightarrow> (nat \<times> BMFSEntry) option option" where
  \<comment> \<open>the number of the entry and the entry; inner \<open>None\<close>: the function returns 0\<close>
  "findfile filename s = findLoop filename 0 (Directory s)"

fun listLoop :: "BMFSEntry list \<Rightarrow> piece list" where
  "listLoop [] = []"
| "listLoop (e # es) =
     (if mark e = 0 then []
      else if mark e = 1 then listLoop es
      else [StrPad 32 (takeWhile (\<lambda>c. c \<noteq> 0) (FileName e)), Txt '' '', NumPad 20 (sint (FileSize e)), Txt '' '',
            NumPad 20 (sint (ReservedBlocks e * 2)), Txt ''\<newline>''] @ listLoop es)"

definition bmfs_list :: "bmfs \<Rightarrow> bmfs" where
  "bmfs_list s = say ([Str (diskname s), Txt ''\<newline>Disk Size: '', Num (sint (disksize s)), Txt '' MiB\<newline>'',
     Txt ''Name                            |            Size (B)|      Reserved (MiB)\<newline>'',
     Txt ''==========================================================================\<newline>''] @ listLoop (Directory s)) s"

subsection \<open>Writing the directory\<close>

definition flush_directory :: "host \<Rightarrow> bmfs \<Rightarrow> bmfs" where
  "flush_directory h s = s\<lparr>disk := snd (fwrite (room h) (dir_bytes (Directory s)) (fseek 4096 (disk s)))\<rparr>"

definition bmfs_format :: "host \<Rightarrow> bmfs \<Rightarrow> bmfs" where
  "bmfs_format h s =
     (let s = s\<lparr>DiskInfo := ascii ''BMFS'' @ replicate 508 0, Directory := dir_of_bytes (replicate 4096 0)\<rparr>;
          s = s\<lparr>disk := snd (fwrite (room h) (DiskInfo s) (fseek 1024 (disk s)))\<rparr>
      in say [Txt ''Format complete.\<newline>''] (flush_directory h s))"

subsection \<open>Creating a file\<close>

definition StartingBlockCmp :: "BMFSEntry \<Rightarrow> BMFSEntry \<Rightarrow> int" where
  "StartingBlockCmp ea eb =
     (if mark ea = 1 then 1 else if mark eb = 1 then - 1 else wrap32 (uint (StartingBlock ea - StartingBlock eb)))"

fun countEntries :: "int \<Rightarrow> int \<Rightarrow> BMFSEntry list \<Rightarrow> int \<times> int" where
  \<comment> \<open>\<open>num_used_entries\<close> and \<open>first_free_entry\<close>\<close>
  "countEntries tint free [] = (0, free)"
| "countEntries tint free (e # es) =
     (if mark e = 0 then (tint, if free = - 1 then tint else free)
      else if mark e = 1 then countEntries (tint + 1) (if free = - 1 then tint else free) es
      else countEntries (tint + 1) free es)"

fun placeLoop :: "64 word \<Rightarrow> 64 word \<Rightarrow> 64 word \<Rightarrow> BMFSEntry list \<Rightarrow> 64 word" where
  \<comment> \<open>over the entries in use, sorted: \<open>new_file_start\<close>\<close>
  "placeLoop last_block requested prev_file_end [] =
     (if last_block - prev_file_end \<ge> requested then prev_file_end else 0)"
| "placeLoop last_block requested prev_file_end (e # es) =
     (let this_file_start = (if mark e = 1 then last_block else StartingBlock e)
      in if this_file_start - prev_file_end \<ge> requested then prev_file_end
         else placeLoop last_block requested (StartingBlock e + ReservedBlocks e) es)"

definition strcpy_name :: "byte list \<Rightarrow> BMFSEntry \<Rightarrow> BMFSEntry option" where
  "strcpy_name w e = (if length w < 32 then Some (e\<lparr>FileName := w @ 0 # drop (length w + 1) (FileName e)\<rparr>) else None)"

definition set_mark :: "byte \<Rightarrow> BMFSEntry \<Rightarrow> BMFSEntry" where
  "set_mark x e = e\<lparr>FileName := (FileName e)[0 := x]\<rparr>"

definition num_blocks :: "bmfs \<Rightarrow> 64 word" where
  "num_blocks s = ucast (disksize s div 2)"

definition bmfs_create :: "host \<Rightarrow> qsort \<Rightarrow> byte list \<Rightarrow> 64 word \<Rightarrow> bmfs \<Rightarrow> bmfs option" where
  "bmfs_create h qs filename maxsize s = do {
     let maxsize = (if maxsize mod 2 \<noteq> 0 then maxsize + 1 else maxsize);
     found \<leftarrow> findfile (Some filename) s;
     if found \<noteq> None then Some (say [Txt ''Error: File already exists.\<newline>''] s)
     else do {
       let blocks_requested = maxsize div 2;
       let s = say [Txt ''Creating new file...\<newline>''] s;
       let (num_used, first_free) = countEntries 0 (- 1) (Directory s);
       if first_free = - 1 then Some (say [Txt ''Cannot create file: no free directory entries.\<newline>''] s)
       else do {
         let dir_copy = qs StartingBlockCmp (take (nat num_used) (Directory s));
         let new_file_start = placeLoop (num_blocks s - 1) blocks_requested 1 dir_copy;
         if new_file_start = 0
         then Some (say [Txt ''Cannot create file of size '', Num (sint maxsize), Txt '' MiB.\<newline>''] s)
         else do {
           e \<leftarrow> strcpy_name filename ((Directory s ! nat first_free)\<lparr>StartingBlock := new_file_start,
                  ReservedBlocks := blocks_requested, FileSize := 0\<rparr>);
           let s = s\<lparr>Directory := (Directory s)[nat first_free := e]\<rparr>;
           let s = (if first_free = num_used \<and> num_used + 1 < 64
                    then s\<lparr>Directory := (Directory s)[nat num_used + 1 := set_mark 0 (Directory s ! (nat num_used + 1))]\<rparr>
                    else s);
           Some (say [Txt ''Complete\<newline>''] (flush_directory h s)) } } } }"

subsection \<open>Reading, writing and deleting a file\<close>

fun copyChars :: "nat \<Rightarrow> nat \<Rightarrow> FILE \<Rightarrow> FILE \<Rightarrow> FILE \<times> FILE" where
  \<comment> \<open>\<open>for (tint = 0; tint < n; tint++) putc(getc(from), to);\<close>\<close>
  "copyChars cap 0 src dst = (src, dst)"
| "copyChars cap (Suc n) src dst = (let (c, src) = getc src in copyChars cap n src (fputc cap c dst))"

definition counts_to :: "64 word \<Rightarrow> unit option" where
  \<comment> \<open>the \<open>int\<close> counter reaches the bound without an overflow\<close>
  "counts_to n = (if n < 2147483648 then Some () else None)"

definition bmfs_read :: "host \<Rightarrow> byte list option \<Rightarrow> bmfs \<Rightarrow> bmfs option" where
  "bmfs_read h filename s = do {
     found \<leftarrow> findfile filename s;
     case found of
       None \<Rightarrow> Some (say [Txt ''Error: File not found in BMFS.\<newline>''] s)
     | Some (slot, tempentry) \<Rightarrow> do {
         w \<leftarrow> filename;
         let s = say [Txt ''Reading '', Quoted w, Txt '' from BMFS to local file... ''] s;
         let local = takeWhile (\<lambda>c. c \<noteq> 0) (FileName tempentry);
         if \<not> creatable h local then Some (say [Txt ''Error: Could not open local file '', Quoted local, Txt ''\<newline>''] s)
         else do {
           counts_to (FileSize tempentry);
           let (d, tfile) = copyChars (room h) (unat (FileSize tempentry))
                              (fseek (StartingBlock tempentry * 2097152) (disk s)) (fopen []);
           Some (say [Txt ''Complete\<newline>''] (s\<lparr>disk := d, files := (files s)(local \<mapsto> contents tfile)\<rparr>)) } } }"

definition bmfs_write :: "host \<Rightarrow> byte list option \<Rightarrow> bmfs \<Rightarrow> bmfs option" where
  "bmfs_write h filename s = do {
     found \<leftarrow> findfile filename s;
     case found of
       None \<Rightarrow> Some (say [Txt ''Error: File not found in BMFS. A file entry must first be created.\<newline>''] s)
     | Some (slot, tempentry) \<Rightarrow> do {
         w \<leftarrow> filename;
         let s = say [Txt ''Writing local file '', Quoted w, Txt '' to BMFS... ''] s;
         case files s w of
           None \<Rightarrow> Some (say [Txt ''Error: Could not open local file '', Quoted (takeWhile (\<lambda>c. c \<noteq> 0) (FileName tempentry)), Txt ''\<newline>''] s)
         | Some bs \<Rightarrow> do {
             let tempfilesize = (of_nat (length bs) :: 64 word);
             if ReservedBlocks tempentry * 2097152 < tempfilesize
             then Some (say [Txt ''Not enough reserved space in BMFS.\<newline>''] s)
             else do {
               counts_to tempfilesize;
               let (_, d) = copyChars (room h) (unat tempfilesize) (fopen bs) (fseek (StartingBlock tempentry * 2097152) (disk s));
               let s = s\<lparr>disk := d, Directory := patch (slot * 64 + 48) (le64 tempfilesize) (Directory s)\<rparr>;
               Some (say [Txt ''Complete\<newline>''] (flush_directory h s)) } } } }"

definition bmfs_delete :: "host \<Rightarrow> byte list option \<Rightarrow> bmfs \<Rightarrow> bmfs option" where
  "bmfs_delete h filename s = do {
     found \<leftarrow> findfile filename s;
     case found of
       None \<Rightarrow> Some (say [Txt ''Error: File not found in BMFS.\<newline>''] s)
     | Some (slot, tempentry) \<Rightarrow> do {
         w \<leftarrow> filename;
         let s = say [Txt ''Deleting file '', Quoted w, Txt '' from BMFS... ''] s;
         let s = s\<lparr>Directory := patch (slot * 64) [1] (Directory s)\<rparr>;
         Some (say [Txt ''Complete\<newline>''] (flush_directory h s)) } }"

subsection \<open>Initialising a disk\<close>

definition minimumDiskSize :: "64 word" where
  "minimumDiskSize = 6 * 1024 * 1024"

fun parseSize :: "nat \<Rightarrow> byte list \<Rightarrow> byte list \<Rightarrow> 64 word \<Rightarrow> nat \<Rightarrow> int \<times> 64 word \<times> nat \<times> piece list" where
  \<comment> \<open>\<open>ret\<close>, \<open>diskSize\<close>, \<open>diskSizeFactor\<close> and what is printed; \<open>whole\<close> is the whole argument\<close>
  "parseSize i whole [] diskSize factor = (0, diskSize, factor, [])"
| "parseSize i whole (ch # rest) diskSize factor =
     (if isdigit ch
      then let n = ucast (ch - 48) in
        if diskSize * 10 > diskSize then parseSize (i + 1) whole rest (diskSize * 10 + n) factor
        else if diskSize = 0 then parseSize (i + 1) whole rest (diskSize + n) factor
        else (1, diskSize, factor, [Txt ''Error: Disk size is too large\<newline>''])
      else if i = 0 then (1, diskSize, factor, [Txt ''Error: A numeric disk size must be specified\<newline>''])
      else let invalid = [Txt ''Error: Invalid disk size string: '', Quoted whole, Txt ''\<newline>'']; u = toupper ch in
        if u \<notin> {75, 77, 71, 84, 80} then (1, diskSize, factor, invalid)
        else let factor = (if u = 75 then 1 else if u = 77 then 2 else if u = 71 then 3 else if u = 84 then 4 else 5) in
          if rest \<noteq> [] then (1, diskSize, factor, invalid) else (0, diskSize, factor, []))"

fun scaleLoop :: "nat \<Rightarrow> int \<Rightarrow> 64 word \<Rightarrow> int \<times> 64 word \<times> piece list" where
  "scaleLoop 0 ret diskSize = (ret, diskSize, [])"
| "scaleLoop (Suc factor) ret diskSize =
     (if diskSize * 1024 > diskSize then scaleLoop factor ret (diskSize * 1024)
      else (let (ret, diskSize, out) = scaleLoop factor 1 diskSize
            in (ret, diskSize, Txt ''Error: Disk size is too large\<newline>'' # out)))"

definition diskSizeOf :: "byte list \<Rightarrow> int \<times> 64 word \<times> piece list" where
  "diskSizeOf sz =
     (let (ret, diskSize, factor, out) = parseSize 0 sz sz 0 0;
          (ret, diskSize, out') = (if ret = 0 \<and> diskSize > 0 \<and> factor > 0 then scaleLoop factor ret diskSize else (ret, diskSize, []));
          (ret, out'') = (if ret = 0 \<and> diskSize < minimumDiskSize
             then (1, [Txt ''Error: Disk size must be at least '', Num (uint minimumDiskSize), Txt '' bytes ('',
                       Num (uint (minimumDiskSize div (1024 * 1024))), Txt ''MiB)\<newline>'']) else (ret, []))
      in (ret, diskSize, out @ out' @ out''))"

definition open_optional :: "string \<Rightarrow> byte list option \<Rightarrow> int \<times> bmfs \<Rightarrow> int \<times> FILE option \<times> bmfs" where
  "open_optional what name = (\<lambda>(ret, s).
     (case name of
        Some w \<Rightarrow>
          if ret = 0
          then (case files s w of
                  None \<Rightarrow> (1, None, say [Txt ''Error: Unable to open '', Txt what, Txt '' file '', Quoted w, Txt ''\<newline>''] s)
                | Some bs \<Rightarrow> (ret, Some (fopen bs), s))
          else (ret, None, s)
      | None \<Rightarrow> (ret, None, s)))"

definition disk_fwrite :: "host \<Rightarrow> byte list \<Rightarrow> int \<times> bmfs \<Rightarrow> int \<times> bmfs" where
  "disk_fwrite h bs = (\<lambda>(ret, s).
     let (ok, d) = fwrite (room h) bs (disk s); s = s\<lparr>disk := d\<rparr>
     in if ok then (ret, s) else (1, say [Txt ''Error: Failed to write disk '', Quoted (diskname s), Txt ''\<newline>''] s))"

partial_function (option) fillLoop :: "host \<Rightarrow> 64 word \<Rightarrow> 64 word \<Rightarrow> bmfs \<Rightarrow> (int \<times> 64 word \<times> bmfs) option" where
  "fillLoop h diskSize writeSize s =
     (if writeSize < diskSize then
        let s = say [Txt ''Formatting disk: '', Num (uint writeSize), Txt '' of '', Num (uint diskSize), Txt '' bytes ('', Percent, Txt '')...'', Str [13]] s;
            chunkSize = (if 51200 > diskSize - writeSize then diskSize - writeSize else 51200);
            (ret, s) = disk_fwrite h (replicate (unat chunkSize) 0) (0, s)
        in if ret \<noteq> 0 then Some (ret, writeSize, s) else fillLoop h diskSize (writeSize + chunkSize) s
      else Some (0, writeSize, s))"

partial_function (option) copyFile :: "host \<Rightarrow> byte list \<Rightarrow> FILE \<Rightarrow> int \<Rightarrow> bmfs \<Rightarrow> (int \<times> bmfs) option" where
  \<comment> \<open>the endless loop that copies the boot loader or the kernel to the disk\<close>
  "copyFile h name src ret s =
     (let (chunk, src) = fread 51200 src in
      if chunk \<noteq> [] then
        let (ret, s) = disk_fwrite h chunk (ret, s) in copyFile h name src ret s
      else if failed (disk s) then Some (1, say [Txt ''Error: Failed to read file '', Quoted name, Txt ''\<newline>''] s)
      else Some (ret, s))"

definition bmfs_initialize :: "host \<Rightarrow> byte list \<Rightarrow> byte list option \<Rightarrow> byte list option \<Rightarrow> byte list option \<Rightarrow> bmfs
    \<Rightarrow> (int \<times> bmfs) option" where
  "bmfs_initialize h sz mbr boot kfile s = do {
     let bootFileType = (if kfile = None then ''system'' else ''boot loader'');
     let (ret, diskSize, out) = diskSizeOf sz;
     let s = say out s;
     let (ret, mbrFile, s) = open_optional ''MBR'' mbr (ret, s);
     let (ret, bootFile, s) = open_optional bootFileType boot (ret, s);
     let (ret, kernelFile, s) = open_optional ''kernel'' kfile (ret, s);
     let (ret, s) = (if ret = 0 \<and> \<not> has_memory h then (1, say [Txt ''Error: Failed to allocate buffer\<newline>''] s) else (ret, s));
     let (ret, opened, s) = (if ret = 0
            then if creatable h (diskname s) then (0, True, s\<lparr>disk := fopen []\<rparr>)
                 else (1, False, say [Txt ''Error: Unable to open disk '', Quoted (diskname s), Txt ''\<newline>''] s)
            else (ret, False, s));
     (ret, s) \<leftarrow> (if ret = 0
            then do {
              (ret, writeSize, s) \<leftarrow> fillLoop h diskSize 0 s;
              Some (ret, if ret = 0 then say [Txt ''Formatting disk: '', Num (uint writeSize), Txt '' of '', Num (uint diskSize),
                                              Txt '' bytes (100%)         \<newline>''] s else s) }
            else Some (ret, s));
     let s = (if ret = 0 then bmfs_format h (s\<lparr>disk := fseek 0 (disk s)\<rparr>) else s);
     let (ret, s) = (case mbrFile of
            Some src \<Rightarrow>
              if ret = 0 then
                let s = say [Txt ''Writing master boot record.\<newline>''] s; s = s\<lparr>disk := fseek 0 (disk s)\<rparr>; bs = fst (fread 512 src)
                in if length bs = 512 then disk_fwrite h bs (ret, s)
                   else (1, say [Txt ''Error: Failed to read file '', Quoted (the mbr), Txt ''\<newline>''] s)
              else (ret, s)
          | None \<Rightarrow> (ret, s));
     (ret, s) \<leftarrow> (case bootFile of
            Some src \<Rightarrow>
              if ret = 0 then
                let s = say [Txt ''Writing '', Txt bootFileType, Txt '' file.\<newline>''] s
                in copyFile h (the boot) src ret (s\<lparr>disk := fseek 8192 (disk s)\<rparr>)
              else Some (ret, s)
          | None \<Rightarrow> Some (ret, s));
     (ret, s) \<leftarrow> (case kernelFile of
            Some src \<Rightarrow> if ret = 0 then copyFile h (the kfile) src ret (say [Txt ''Writing kernel.\<newline>''] s) else Some (ret, s)
          | None \<Rightarrow> Some (ret, s));
     let s = (if opened then s\<lparr>files := (files s)(diskname s \<mapsto> contents (disk s))\<rparr> else s);
     Some (ret, if ret = 0 then say [Txt ''Disk initialization complete.\<newline>''] s else s) }"

subsection \<open>The command line\<close>

definition usage :: "byte list \<Rightarrow> piece list" where
  "usage program = [Txt ''BareMetal File System Utility v1.0 (2013 04 10)\<newline>'',
     Txt ''Written by Ian Seyler @ Return Infinity (ian.seyler@returninfinity.com)\<newline>\<newline>'',
     Txt ''Usage: '', Str program, Txt '' disk function file\<newline>'', Txt ''Disk: the name of the disk file\<newline>'',
     Txt ''Function: list, read, write, create, delete, format, initialize\<newline>'', Txt ''File: (if applicable)\<newline>'']"

definition arg :: "byte list list \<Rightarrow> nat \<Rightarrow> byte list option" where
  "arg argv i = (if i < length argv then Some (argv ! i) else None)"

definition open_disk :: "byte list \<Rightarrow> bmfs \<Rightarrow> bmfs" where
  \<comment> \<open>what is read from a disk that could be opened\<close>
  "open_disk bs s =
     (let d = fopen bs; (info, d) = fread 512 (fseek 1024 d); (dir, d) = fread 4096 (fseek 4096 d)
      in s\<lparr>disk := fseek 0 d, disksize := of_nat (length bs div 1048576),
           DiskInfo := fill_buffer info (DiskInfo s), Directory := dir_of_bytes (fill_buffer dir (dir_bytes (Directory s)))\<rparr>)"

definition create_command :: "host \<Rightarrow> qsort \<Rightarrow> byte list list \<Rightarrow> bmfs \<Rightarrow> bmfs option" where
  "create_command h qs argv s = (case arg argv 3 of
     None \<Rightarrow> Some (say [Txt ''Error: File name not specified.\<newline>''] s)
   | Some filename \<Rightarrow>
       (case arg argv 4 of
          Some w \<Rightarrow> do {
            filesize \<leftarrow> atoi w;
            if filesize \<ge> 1 then bmfs_create h qs filename (u64 filesize) s
            else Some (say [Txt ''Error: Invalid file size.\<newline>''] s) }
        | None \<Rightarrow> do {
            let s = say [Txt ''Maximum file size in MiB: ''] s;
            v \<leftarrow> atoi (take 31 (typed_line h));
            let filesize = (word_of_int v :: 32 word);
            if filesize \<ge> 1 then bmfs_create h qs filename (ucast filesize) s
            else Some (say [Txt ''Error: Invalid file size.\<newline>''] s) }))"

definition format_command :: "host \<Rightarrow> byte list list \<Rightarrow> bmfs \<Rightarrow> bmfs option" where
  "format_command h argv s = (case arg argv 3 of
     None \<Rightarrow> Some (say [Txt ''Format aborted!\<newline>''] s)
   | Some w \<Rightarrow> do {
       force \<leftarrow> is_command ''/FORCE'' w;
       Some (if force then bmfs_format h s else say [Txt ''Format aborted!\<newline>''] s) })"

definition fclose_disk :: "bmfs \<Rightarrow> bmfs" where
  "fclose_disk s = s\<lparr>files := (files s)(diskname s \<mapsto> contents (disk s))\<rparr>"

definition bmfs_main :: "host \<Rightarrow> qsort \<Rightarrow> byte list list \<Rightarrow> bmfs \<Rightarrow> (int \<times> bmfs) option" where
  \<comment> \<open>the exit status\<close>
  "bmfs_main h qs argv s =
     (if length argv < 3 then Some (0, say (usage (argv ! 0)) s)
      else do {
        let s = s\<lparr>diskname := argv ! 1\<rparr>;
        let command = argv ! 2;
        let filename = arg argv 3;
        c \<leftarrow> is_command ''initialize'' command;
        if c then
          (case filename of
             Some sz \<Rightarrow> bmfs_initialize h sz (arg argv 4) (arg argv 5) (arg argv 6) s
           | None \<Rightarrow> Some (1, say [Txt ''Usage: '', Str (argv ! 0), Txt '' disk '', Str command, Txt '' size [mbr_file] '',
                                  Txt ''[bootloader_file] [kernel_file]\<newline>''] s))
        else (case files s (diskname s) of
          None \<Rightarrow> Some (0, say [Txt ''Error: Unable to open disk '', Quoted (diskname s), Txt ''\<newline>''] s)
        | Some bs \<Rightarrow> do {
            let s = open_disk bs s;
            valid \<leftarrow> strcasecmp0 (ascii ''BMFS'') (DiskInfo s);
            format \<leftarrow> is_command ''format'' command;
            if \<not> valid then
              Some (0, fclose_disk (if format then bmfs_format h s
                else say [Txt ''Error: Not a valid BMFS drive (Disk is not BMFS formatted).\<newline>''] s))
            else do {
              list_c \<leftarrow> is_command ''list'' command;
              create_c \<leftarrow> is_command ''create'' command;
              read_c \<leftarrow> is_command ''read'' command;
              write_c \<leftarrow> is_command ''write'' command;
              delete_c \<leftarrow> is_command ''delete'' command;
              s \<leftarrow> (if list_c then Some (bmfs_list s)
                   else if format then format_command h argv s
                   else if create_c then create_command h qs argv s
                   else if read_c then bmfs_read h filename s
                   else if write_c then bmfs_write h filename s
                   else if delete_c then bmfs_delete h filename s
                   else Some (say [Txt ''Unknown command\<newline>''] s));
              Some (0, fclose_disk s) } }) })"

end
