(* ===== verification/BmfsProps.thy ===== *)
theory BmfsProps
  imports Bmfs
begin

section \<open>What the file system utility guarantees\<close>

text \<open>
  Files are placed first fit: the lemmas on \<open>placeLoop\<close> compare the scan of the sorted directory with the lowest run
  of free blocks.  The scan looks at the end of deleted entries as if they were files, and takes a directory without
  an end mark for an empty one; the properties say where that goes wrong.
\<close>

subsection \<open>Blocks\<close>

definition first_block :: "BMFSEntry \<Rightarrow> nat" where
  "first_block e = unat (StartingBlock e)"

definition end_block :: "BMFSEntry \<Rightarrow> nat" where
  "end_block e = unat (StartingBlock e) + unat (ReservedBlocks e)"

definition apart :: "BMFSEntry \<Rightarrow> BMFSEntry \<Rightarrow> bool" where
  "apart d e \<longleftrightarrow> end_block d \<le> first_block e \<or> end_block e \<le> first_block d"

definition free_run :: "BMFSEntry list \<Rightarrow> nat \<Rightarrow> nat \<Rightarrow> bool" where
  \<comment> \<open>the \<open>n\<close> blocks from \<open>x\<close> on meet no file of \<open>es\<close>\<close>
  "free_run es x n \<longleftrightarrow> (\<forall>e \<in> set es. end_block e \<le> x \<or> x + n \<le> first_block e)"

definition used :: "BMFSEntry list \<Rightarrow> BMFSEntry list" where
  "used D = takeWhile (\<lambda>e. mark e \<noteq> 0) D"

definition live :: "BMFSEntry list \<Rightarrow> BMFSEntry list" where
  "live D = filter (\<lambda>e. mark e \<noteq> 1) (used D)"

definition in_disk :: "nat \<Rightarrow> BMFSEntry \<Rightarrow> bool" where
  "in_disk lst e \<longleftrightarrow> 1 \<le> first_block e \<and> 0 < unat (ReservedBlocks e) \<and> end_block e \<le> lst"

definition consistent :: "(BMFSEntry \<Rightarrow> BMFSEntry \<Rightarrow> int) \<Rightarrow> (BMFSEntry \<Rightarrow> nat) \<Rightarrow> BMFSEntry list \<Rightarrow> bool" where
  \<comment> \<open>the sign of the comparison of any two elements is that of the comparison of their keys\<close>
  "consistent cmp key xs \<longleftrightarrow> (\<forall>i < length xs. \<forall>j < length xs. i \<noteq> j \<longrightarrow>
     (cmp (xs ! i) (xs ! j) < 0 \<longleftrightarrow> key (xs ! i) < key (xs ! j)) \<and> (0 < cmp (xs ! i) (xs ! j) \<longleftrightarrow> key (xs ! j) < key (xs ! i)))"

definition sorting :: "qsort \<Rightarrow> bool" where
  \<comment> \<open>what the C library promises of \<open>qsort\<close>: the elements in an order that does not contradict the comparison, if the
    comparison orders them; of a comparison that does not, nothing is promised\<close>
  "sorting qs \<longleftrightarrow> (\<forall>cmp xs. (\<exists>key. consistent cmp key xs)
     \<longrightarrow> mset (qs cmp xs) = mset xs \<and> sorted_wrt (\<lambda>a b. \<not> cmp b a < 0) (qs cmp xs))"

definition deleted :: "BMFSEntry list \<Rightarrow> BMFSEntry list" where
  "deleted D = filter (\<lambda>e. mark e = 1) (used D)"

lemma filter_two:
  assumes "i \<noteq> j" and "i < length xs" "j < length xs" and "P (xs ! i)" "P (xs ! j)"
  shows "2 \<le> length (filter P xs)"
proof -
  have "card {i, j} \<le> card {k. k < length xs \<and> P (xs ! k)}" using assms by (intro card_mono) auto
  then show ?thesis using assms(1) by (simp add: length_filter_conv_card)
qed

subsection \<open>The scan for free blocks\<close>

lemma placeLoop_live:
  assumes "\<forall>e \<in> set es. mark e \<noteq> 1 \<and> in_disk (unat lst) e" and "sorted_wrt (\<lambda>a b. end_block a \<le> first_block b) es"
    and "\<forall>e \<in> set es. unat p \<le> first_block e" and "0 < p" "p \<le> lst" and "0 < req"
  shows "let x = placeLoop lst req p es in
    if x = 0 then \<forall>y. unat p \<le> y \<and> y + unat req \<le> unat lst \<longrightarrow> \<not> free_run es y (unat req)
    else p \<le> x \<and> unat x + unat req \<le> unat lst \<and> free_run es (unat x) (unat req)
      \<and> (\<forall>y. unat p \<le> y \<and> free_run es y (unat req) \<longrightarrow> unat x \<le> y)"
  using assms
proof (induction es arbitrary: p)
  case Nil
  have "unat (lst - p) = unat lst - unat p" using Nil.prems(5) by (simp add: unat_sub)
  then have "req \<le> lst - p \<longleftrightarrow> unat p + unat req \<le> unat lst"
    using Nil.prems(5) by (auto simp: word_le_nat_alt)
  then show ?case using Nil.prems(4) by (auto simp: free_run_def Let_def)
next
  case (Cons e es)
  have e: "mark e \<noteq> 1" "in_disk (unat lst) e" "unat p \<le> unat (StartingBlock e)" using Cons.prems(1,3) by (simp_all add: first_block_def)
  have sub: "unat (StartingBlock e - p) = unat (StartingBlock e) - unat p"
    using e(3) by (simp add: unat_sub word_le_nat_alt)
  have le: "unat (StartingBlock e) + unat (ReservedBlocks e) \<le> unat lst" using e(2) by (simp add: in_disk_def end_block_def)
  then have add: "unat (StartingBlock e + ReservedBlocks e) = end_block e"
    unfolding end_block_def using unsigned_less [of lst, where ?'a = nat] by (intro unat_add_lem [THEN iffD1]) simp
  let ?q = "StartingBlock e + ReservedBlocks e"
  show ?case
  proof (cases "StartingBlock e - p \<ge> req")
    case True
    then have r: "unat p + unat req \<le> first_block e" using e(3) by (auto simp: sub word_le_nat_alt first_block_def)
    have "free_run (e # es) (unat p) (unat req)"
    proof -
      have "unat p + unat req \<le> first_block d" if "d \<in> set es" for d
        using that Cons.prems(2) r by (fastforce simp: end_block_def first_block_def)
      then show ?thesis using r by (simp add: free_run_def)
    qed
    moreover have "unat p + unat req \<le> unat lst" using r le by (simp add: first_block_def)
    moreover have "p \<noteq> 0" using Cons.prems(4) by auto
    ultimately show ?thesis using True e(1) by (simp add: Let_def)
  next
    case False
    then have r: "first_block e < unat p + unat req" using e(3) by (auto simp: sub word_le_nat_alt first_block_def)
    have eq: "placeLoop lst req p (e # es) = placeLoop lst req ?q es" using False e(1) by (simp add: Let_def)
    have up: "free_run (e # es) y (unat req) \<longleftrightarrow> unat ?q \<le> y \<and> free_run es y (unat req)" if "unat p \<le> y" for y
      using that r by (auto simp: free_run_def add)
    have pq: "unat p \<le> unat ?q" using e(3) by (simp add: add end_block_def)
    have q: "0 < ?q" "?q \<le> lst"
      using add e(2) le unat_eq_0 [of ?q] by (auto simp: in_disk_def end_block_def word_le_nat_alt first_block_def word_gt_0)
    have "\<forall>d \<in> set es. unat ?q \<le> first_block d" using Cons.prems(2) by (simp add: add)
    from Cons.IH [OF _ _ this q Cons.prems(6)] Cons.prems(1,2)
    have ih: "let x = placeLoop lst req ?q es in
      if x = 0 then \<forall>y. unat ?q \<le> y \<and> y + unat req \<le> unat lst \<longrightarrow> \<not> free_run es y (unat req)
      else ?q \<le> x \<and> unat x + unat req \<le> unat lst \<and> free_run es (unat x) (unat req)
        \<and> (\<forall>y. unat ?q \<le> y \<and> free_run es y (unat req) \<longrightarrow> unat x \<le> y)" by simp
    show ?thesis
    proof (cases "placeLoop lst req ?q es = 0")
      case True
      then show ?thesis using ih up unfolding eq by (auto simp: Let_def)
    next
      case False
      then have i: "?q \<le> placeLoop lst req ?q es" "unat (placeLoop lst req ?q es) + unat req \<le> unat lst"
          "free_run es (unat (placeLoop lst req ?q es)) (unat req)"
          "\<forall>y. unat ?q \<le> y \<and> free_run es y (unat req) \<longrightarrow> unat (placeLoop lst req ?q es) \<le> y"
        using ih by (simp_all add: Let_def)
      have "unat p \<le> unat (placeLoop lst req ?q es)" using pq i(1) by (simp add: word_le_nat_alt)
      then show ?thesis unfolding eq using False i up by (simp add: Let_def word_le_nat_alt) blast
    qed
  qed
qed

lemma placeLoop_found:
  "placeLoop lst req p L \<noteq> 0 \<Longrightarrow> \<forall>e \<in> set X. mark e = 1 \<Longrightarrow> placeLoop lst req p (L @ X) = placeLoop lst req p L"
proof (induction L arbitrary: p)
  case Nil
  then show ?case by (cases X) (auto split: if_splits)
next
  case (Cons e L)
  then show ?case by (cases "req \<le> (if mark e = 1 then lst else StartingBlock e) - p") (simp_all add: Let_def)
qed

lemma placeLoop_stale:
  assumes "placeLoop lst req p L = 0" and "p \<noteq> 0" and "\<forall>e \<in> set L. StartingBlock e + ReservedBlocks e \<noteq> 0" and d: "mark d = 1"
  shows "placeLoop lst req p (L @ d # X) = placeLoop lst req (StartingBlock d + ReservedBlocks d) X"
  using assms(1-3)
proof (induction L arbitrary: p)
  case Nil
  then show ?case using d by (simp add: Let_def split: if_splits)
next
  case (Cons e L)
  then have "\<not> req \<le> (if mark e = 1 then lst else StartingBlock e) - p" by (auto simp: Let_def split: if_splits)
  moreover from this Cons.prems(1) have "placeLoop lst req (StartingBlock e + ReservedBlocks e) L = 0" by (simp add: Let_def)
  ultimately show ?case using Cons.IH [of "StartingBlock e + ReservedBlocks e"] Cons.prems(3) by (simp add: Let_def)
qed

subsection \<open>The sorted copy of the directory\<close>

lemma sorted_partition: "sorted_wrt (\<lambda>a b. \<not> (P b \<and> \<not> P a)) xs \<Longrightarrow> xs = filter P xs @ filter (\<lambda>x. \<not> P x) xs"
proof (induction xs)
  case (Cons x xs)
  then show ?case by (cases "P x") (auto simp: filter_empty_conv filter_id_conv)
qed simp

definition disjoint_files :: "BMFSEntry list \<Rightarrow> bool" where
  "disjoint_files es \<longleftrightarrow> distinct es \<and> (\<forall>a \<in> set es. \<forall>b \<in> set es. a \<noteq> b \<longrightarrow> apart a b)"

lemma disjoint_files_mset: "mset xs = mset ys \<Longrightarrow> disjoint_files xs = disjoint_files ys"
  unfolding disjoint_files_def using mset_eq_setD mset_eq_imp_distinct_iff by metis

lemma StartingBlockCmp_live:
  assumes "mark a \<noteq> 1" "mark b \<noteq> 1" and "first_block a < 2 ^ 31" "first_block b < 2 ^ 31"
  shows "StartingBlockCmp a b = int (first_block a) - int (first_block b)"
proof -
  have "wrap32 (uint (StartingBlock a - StartingBlock b)) = wrap32 (uint (StartingBlock a) - uint (StartingBlock b))"
  proof -
    have "uint (StartingBlock a - StartingBlock b) = take_bit 64 (uint (StartingBlock a) - uint (StartingBlock b))"
      by (simp add: uint_word_ariths take_bit_eq_mod)
    then show ?thesis by (simp only: wrap32_def signed_take_bit_take_bit) simp
  qed
  also have "\<dots> = int (first_block a) - int (first_block b)"
  proof -
    have "uint (StartingBlock e) = int (first_block e)" for e by (simp add: first_block_def)
    moreover have "wrap32 (int (first_block a) - int (first_block b)) = int (first_block a) - int (first_block b)"
      using assms(3,4) by (intro wrap32_id) simp_all
    ultimately show ?thesis by simp
  qed
  finally show ?thesis using assms(1,2) by (simp add: StartingBlockCmp_def)
qed

lemma sorted_directory:
  assumes "sorting qs" and "\<forall>e \<in> set U. mark e \<noteq> 1 \<longrightarrow> in_disk lst e" and "lst < 2 ^ 31"
    and "disjoint_files (filter (\<lambda>e. mark e \<noteq> 1) U)" and "length (filter (\<lambda>e. mark e = 1) U) \<le> 1"
  obtains L X where "qs StartingBlockCmp U = L @ X" and "mset L = mset (filter (\<lambda>e. mark e \<noteq> 1) U)"
    and "mset X = mset (filter (\<lambda>e. mark e = 1) U)" and "sorted_wrt (\<lambda>a b. end_block a \<le> first_block b) L"
proof -
  let ?r = "qs StartingBlockCmp U"
  define key where "key = (\<lambda>e. if mark e = 1 then 2 ^ 31 else first_block e)"
  have b: "first_block e < 2 ^ 31" "0 < unat (ReservedBlocks e)" if "e \<in> set U" "mark e \<noteq> 1" for e
    using assms(2,3) that by (force simp: in_disk_def first_block_def end_block_def)+
  have cmp: "(StartingBlockCmp x y < 0 \<longleftrightarrow> key x < key y) \<and> (0 < StartingBlockCmp x y \<longleftrightarrow> key y < key x)"
    if "x \<in> set U" "y \<in> set U" "\<not> (mark x = 1 \<and> mark y = 1)" for x y
    using StartingBlockCmp_live [of x y] b(1) [of x] b(1) [of y] that by (auto simp: key_def StartingBlockCmp_def)
  have "consistent StartingBlockCmp key U"
    unfolding consistent_def
  proof (intro allI impI)
    fix i j assume ij: "i < length U" "j < length U" "i \<noteq> j"
    then have "\<not> (mark (U ! i) = 1 \<and> mark (U ! j) = 1)"
      using filter_two [of i j U "\<lambda>e. mark e = 1"] assms(5) by auto
    then show "(StartingBlockCmp (U ! i) (U ! j) < 0 \<longleftrightarrow> key (U ! i) < key (U ! j))
        \<and> (0 < StartingBlockCmp (U ! i) (U ! j) \<longleftrightarrow> key (U ! j) < key (U ! i))"
      using ij by (intro cmp) simp_all
  qed
  then have r: "mset ?r = mset U" "sorted_wrt (\<lambda>a b. \<not> StartingBlockCmp b a < 0) ?r" using assms(1) unfolding sorting_def by blast+
  let ?L = "filter (\<lambda>e. mark e \<noteq> 1) ?r" and ?X = "filter (\<lambda>e. mark e = 1) ?r"
  have "sorted_wrt (\<lambda>a b. \<not> (mark b \<noteq> 1 \<and> \<not> mark a \<noteq> 1)) ?r"
    using r(2) by (rule sorted_wrt_mono_rel [rotated]) (auto simp: StartingBlockCmp_def split: if_splits)
  then have "?r = ?L @ ?X" using sorted_partition [of "\<lambda>e. mark e \<noteq> 1" ?r] by simp
  moreover have m: "mset ?L = mset (filter (\<lambda>e. mark e \<noteq> 1) U)" "mset ?X = mset (filter (\<lambda>e. mark e = 1) U)"
    using r(1) by (simp_all add: mset_filter)
  moreover have "sorted_wrt (\<lambda>a b. end_block a \<le> first_block b) ?L"
  proof -
    have d: "disjoint_files ?L" using assms(4) disjoint_files_mset [OF m(1)] by simp
    have U: "set ?r = set U" using r(1) by (rule mset_eq_setD)
    have "end_block (?L ! i) \<le> first_block (?L ! j)" if ij: "i < j" "j < length ?L" for i j
    proof -
      have el: "?L ! i \<in> set ?L" "?L ! j \<in> set ?L" using ij by (simp_all only: nth_mem)
      have "sorted_wrt (\<lambda>a b. \<not> StartingBlockCmp b a < 0) ?L" using r(2) by (rule sorted_wrt_filter)
      then have "\<not> StartingBlockCmp (?L ! j) (?L ! i) < 0" using ij by (rule sorted_wrt_nth_less)
      moreover have "mark (?L ! i) \<noteq> 1" "mark (?L ! j) \<noteq> 1" "?L ! i \<in> set U" "?L ! j \<in> set U" using el U by auto
      ultimately have le: "first_block (?L ! i) \<le> first_block (?L ! j)" "0 < unat (ReservedBlocks (?L ! j))"
        using StartingBlockCmp_live [of "?L ! j" "?L ! i"] b by auto
      have "?L ! i \<noteq> ?L ! j" using d ij nth_eq_iff_index_eq [of ?L i j] by (simp add: disjoint_files_def)
      then have "apart (?L ! i) (?L ! j)" using d el unfolding disjoint_files_def by blast
      then show ?thesis using le by (simp add: apart_def first_block_def end_block_def)
    qed
    then show ?thesis unfolding sorted_wrt_iff_nth_less by blast
  qed
  ultimately show ?thesis using that by blast
qed

subsection \<open>Looking up\<close>

definition name_of :: "BMFSEntry \<Rightarrow> byte list" where
  "name_of e = takeWhile (\<lambda>c. c \<noteq> 0) (FileName e)"

definition named :: "BMFSEntry \<Rightarrow> bool" where
  \<comment> \<open>the name ends in the array\<close>
  "named e \<longleftrightarrow> 0 \<in> set (FileName e)"

lemma strcmp0_name: "0 \<notin> set w \<Longrightarrow> 0 \<in> set bs \<Longrightarrow> strcmp0 w bs = Some (w = takeWhile (\<lambda>c. c \<noteq> 0) bs)"
  by (induction w bs rule: strcmp0.induct) auto

lemma live_simps:
  "live [] = []" "mark e = 0 \<Longrightarrow> live (e # D) = []" "mark e = 1 \<Longrightarrow> live (e # D) = live D"
  "mark e \<noteq> 0 \<Longrightarrow> mark e \<noteq> 1 \<Longrightarrow> live (e # D) = e # live D"
  by (simp_all add: live_def used_def)

lemma live_append: "\<forall>x \<in> set xs. mark x \<noteq> 0 \<Longrightarrow> live (xs @ ys) = filter (\<lambda>e. mark e \<noteq> 1) xs @ live ys"
  by (induction xs) (auto simp: live_def used_def)

lemma used_append: "\<forall>x \<in> set xs. mark x \<noteq> 0 \<Longrightarrow> used (xs @ ys) = xs @ used ys"
  by (induction xs) (auto simp: used_def)

lemma used_simps [simp]: "used [] = []" "mark e = 0 \<Longrightarrow> used (e # D) = []" "mark e \<noteq> 0 \<Longrightarrow> used (e # D) = e # used D"
  by (simp_all add: used_def)

lemma used_mark: "e \<in> set (used D) \<Longrightarrow> mark e \<noteq> 0"
  by (auto simp: used_def dest: set_takeWhileD)

lemma live_mark: "e \<in> set (live D) \<Longrightarrow> mark e \<noteq> 0 \<and> mark e \<noteq> 1"
  by (auto simp: live_def dest: used_mark)

lemma findLoop_none:
  "0 \<notin> set w \<Longrightarrow> \<forall>e \<in> set (live D). named e \<Longrightarrow> findLoop (Some w) i D = Some None \<longleftrightarrow> (\<forall>e \<in> set (live D). name_of e \<noteq> w)"
proof (induction D arbitrary: i)
  case (Cons e D)
  show ?case
  proof (cases "mark e \<noteq> 0 \<and> mark e \<noteq> 1")
    case True
    then show ?thesis using Cons strcmp0_name [of w "FileName e"] by (simp add: live_simps named_def name_of_def)
  next
    case False
    then show ?thesis using Cons by (cases "mark e = 0") (simp_all add: live_simps)
  qed
qed (simp add: live_simps)

lemma findLoop_split:
  assumes "0 \<notin> set w" and "\<forall>x \<in> set xs. mark x \<noteq> 0 \<and> (mark x \<noteq> 1 \<longrightarrow> named x \<and> name_of x \<noteq> w)"
    and "mark e \<noteq> 0" "mark e \<noteq> 1" "named e" "name_of e = w"
  shows "findLoop (Some w) i (xs @ e # ys) = Some (Some (i + length xs, e))"
  using assms(2)
proof (induction xs arbitrary: i)
  case Nil
  then show ?case using assms strcmp0_name [of w "FileName e"] by (simp add: named_def name_of_def)
next
  case (Cons x xs)
  then show ?case using assms(1) strcmp0_name [of w "FileName x"] by (auto simp: named_def name_of_def)
qed

lemma findLoop_some:
  assumes "findLoop (Some w) i D = Some (Some (k, e))" and "0 \<notin> set w" and "\<forall>e \<in> set (live D). named e"
  shows "\<exists>xs ys. D = xs @ e # ys \<and> k = i + length xs \<and> (\<forall>x \<in> set xs. mark x \<noteq> 0 \<and> (mark x \<noteq> 1 \<longrightarrow> named x \<and> name_of x \<noteq> w))
    \<and> mark e \<noteq> 0 \<and> mark e \<noteq> 1 \<and> named e \<and> name_of e = w"
  using assms
proof (induction D arbitrary: i)
  case (Cons d D)
  let ?R = "\<lambda>i D xs ys. D = xs @ e # ys \<and> k = i + length xs \<and> (\<forall>x \<in> set xs. mark x \<noteq> 0 \<and> (mark x \<noteq> 1 \<longrightarrow> named x \<and> name_of x \<noteq> w))
    \<and> mark e \<noteq> 0 \<and> mark e \<noteq> 1 \<and> named e \<and> name_of e = w"
  have push: "\<exists>xs ys. ?R i (d # D) xs ys" if r: "\<exists>xs ys. ?R (i + 1) D xs ys" and m: "mark d \<noteq> 0 \<and> (mark d \<noteq> 1 \<longrightarrow> named d \<and> name_of d \<noteq> w)"
  proof -
    obtain xs ys where "?R (i + 1) D xs ys" using r by blast
    then have "?R i (d # D) (d # xs) ys" using m by simp
    then show ?thesis by blast
  qed
  consider "mark d = 0" | "mark d = 1" | "mark d \<noteq> 0" "mark d \<noteq> 1" by blast
  then show ?case
  proof cases
    case 2
    then show ?thesis using Cons.prems by (intro push [OF Cons.IH]) (simp_all add: live_simps)
  next
    case 3
    then have d: "named d" "strcmp0 w (FileName d) = Some (w = name_of d)"
      using Cons.prems strcmp0_name [of w "FileName d"] by (simp_all add: live_simps named_def name_of_def)
    show ?thesis
    proof (cases "w = name_of d")
      case True
      then have "?R i (d # D) [] D" using Cons.prems(1) d 3 by simp
      then show ?thesis by blast
    next
      case False
      then show ?thesis using Cons.prems d 3 by (intro push [OF Cons.IH]) (simp_all add: live_simps)
    qed
  qed (use Cons in simp)
qed simp

subsection \<open>Counting\<close>

lemma countEntries_prefix:
  "\<forall>x \<in> set xs. mark x \<noteq> 0 \<and> mark x \<noteq> 1 \<Longrightarrow> countEntries t f (xs @ ys) = countEntries (t + int (length xs)) f ys"
  by (induction xs arbitrary: t) (simp_all add: algebra_simps)

lemma countEntries_used:
  "\<exists>x \<in> set D. mark x = 0 \<Longrightarrow> 0 \<le> f \<Longrightarrow> countEntries t f D = (t + int (length (used D)), f)"
proof (induction D arbitrary: t)
  case (Cons e D)
  then show ?case using Cons.IH [of "t + 1"] by (cases "mark e = 0") auto
qed simp

lemma countEntries_full: "\<forall>x \<in> set D. mark x \<noteq> 0 \<Longrightarrow> 0 \<le> f \<Longrightarrow> countEntries t f D = (0, f)"
  by (induction D arbitrary: t) auto

lemma directory_split:
  assumes "\<exists>x \<in> set D. mark x = 0 \<or> mark x = 1"
  obtains xs e ys where "D = xs @ e # ys" and "\<forall>x \<in> set xs. mark x \<noteq> 0 \<and> mark x \<noteq> 1" and "mark e = 0 \<or> mark e = 1"
  using split_list_first_prop [OF assms] by blast

lemma countEntries_split:
  assumes "D = xs @ e # ys" and "\<forall>x \<in> set xs. mark x \<noteq> 0 \<and> mark x \<noteq> 1" and "mark e = 0 \<or> mark e = 1" and "\<exists>x \<in> set D. mark x = 0"
  shows "countEntries 0 (- 1) D = (int (length (used D)), int (length xs))"
proof (cases "mark e = 0")
  case True
  then show ?thesis using assms by (simp add: countEntries_prefix used_append)
next
  case False
  then have "\<exists>x \<in> set ys. mark x = 0" "mark e = 1" using assms by auto
  then show ?thesis using assms by (simp add: countEntries_prefix used_append countEntries_used)
qed

subsection \<open>Well formed directories\<close>

definition dir_ok :: "nat \<Rightarrow> BMFSEntry list \<Rightarrow> bool" where
  "dir_ok lst D \<longleftrightarrow> typed_dir D \<and> (\<forall>e \<in> set (live D). in_disk lst e \<and> named e) \<and> disjoint_files (live D)
     \<and> inj_on name_of (set (live D))"

definition last_block :: "bmfs \<Rightarrow> nat" where
  "last_block s = unat (num_blocks s) - 1"

definition bmfs_ok :: "bmfs \<Rightarrow> bool" where
  \<comment> \<open>the disk has at least two blocks; files lie between the first and the last block and meet neither\<close>
  "bmfs_ok s \<longleftrightarrow> 4 \<le> unat (disksize s) \<and> dir_ok (last_block s) (Directory s)"

definition ends :: "BMFSEntry list \<Rightarrow> bool" where
  "ends D \<longleftrightarrow> (\<exists>e \<in> set D. mark e = 0)"

definition on_disk :: "bmfs \<Rightarrow> bool" where
  \<comment> \<open>the disk has the directory that is in memory\<close>
  "on_disk s \<longleftrightarrow> take 4096 (drop 4096 (contents (disk s))) = dir_bytes (Directory s)"

definition file_name :: "byte list \<Rightarrow> bool" where
  "file_name w \<longleftrightarrow> w \<noteq> [] \<and> hd w \<noteq> 1 \<and> 0 \<notin> set w \<and> length w < 32"

lemma last_block:
  assumes "4 \<le> unat (disksize s)"
  shows "unat (num_blocks s - 1) = last_block s" "last_block s < 2 ^ 31" "1 \<le> last_block s"
proof -
  have n: "unat (num_blocks s) = unat (disksize s) div 2"
  proof -
    have "unat (disksize s div 2) < 2 ^ 64" using unsigned_less [of "disksize s div 2", where ?'a = nat] by simp
    then show ?thesis by (simp add: num_blocks_def unsigned_ucast_eq take_bit_nat_eq_self unat_div)
  qed
  then have "1 \<le> num_blocks s" using assms by (simp add: word_le_nat_alt)
  then show "unat (num_blocks s - 1) = last_block s" by (simp add: last_block_def unat_sub)
  show "last_block s < 2 ^ 31" "1 \<le> last_block s"
    using assms unsigned_less [of "disksize s", where ?'a = nat] by (simp_all add: last_block_def n)
qed

lemma blocks_requested:
  fixes maxsize :: "64 word"
  assumes "unat maxsize < 2 ^ 64 - 1"
  shows "unat ((if maxsize mod 2 \<noteq> 0 then maxsize + 1 else maxsize) div 2) = (unat maxsize + 1) div 2"
proof -
  have odd: "maxsize mod 2 \<noteq> 0 \<longleftrightarrow> odd (unat maxsize)" by (simp add: word_eq_iff_unsigned [where ?'a = nat] unat_mod odd_iff_mod_2_eq_one)
  have "unat (maxsize + 1) = unat maxsize + 1" using assms unat_add_lem [of maxsize 1] by simp
  then show ?thesis using odd by (auto simp: unat_div)
qed

lemma flush_on_disk: "typed_dir (Directory s) \<Longrightarrow> 8192 \<le> room h \<Longrightarrow> on_disk (flush_directory h s)"
  using overwrite_slice [of "dir_bytes (Directory s)" 4096 "contents (disk s)"] typed_dirD(3) [of "Directory s"]
  by (simp add: on_disk_def flush_directory_def fwrite_def fseek_def)

lemma flush_select [simp]:
  "Directory (flush_directory h s) = Directory s" "disksize (flush_directory h s) = disksize s"
  "Directory (say ps s) = Directory s" "disksize (say ps s) = disksize s" "disk (say ps s) = disk s" "files (say ps s) = files s"
  by (simp_all add: flush_directory_def say_def)

subsection \<open>A new entry\<close>

definition add_entry :: "nat \<Rightarrow> int \<Rightarrow> BMFSEntry \<Rightarrow> BMFSEntry list \<Rightarrow> BMFSEntry list" where
  \<comment> \<open>the directory after \<open>bmfs_create\<close> stored \<open>e\<close> in the entry \<open>i\<close>\<close>
  "add_entry i n e D = (let D = D[i := e] in if int i = n \<and> n + 1 < 64 then D[nat n + 1 := set_mark 0 (D ! (nat n + 1))] else D)"

lemma add_entry:
  assumes "typed_dir D" and D: "D = xs @ d # ys" and xs: "\<forall>x \<in> set xs. mark x \<noteq> 0 \<and> mark x \<noteq> 1" and d: "mark d = 0 \<or> mark d = 1"
    and e: "typed_entry e" "mark e \<noteq> 0" "mark e \<noteq> 1"
  shows "\<exists>zs. add_entry (length xs) (int (length (used D))) e D = xs @ e # zs \<and> typed_dir (xs @ e # zs)
    \<and> live (xs @ e # zs) = xs @ e # live zs \<and> live D = xs @ live zs"
proof -
  have len: "length xs + 1 + length ys = 64" using assms(1) D by (simp add: typed_dir_def)
  have upd: "D[length xs := e] = xs @ e # ys" by (simp add: D)
  have typed: "typed_dir (xs @ e # ys)" using typed_dir_update [OF assms(1) e(1), of "length xs"] by (simp add: upd)
  have live: "live (xs @ e # zs) = xs @ e # live zs" for zs
    using xs e(2,3) by (simp add: live_append live_simps filter_id_conv)
  have liveD: "live D = xs @ live (d # ys)" unfolding D using xs by (simp add: live_append filter_id_conv)
  show ?thesis
  proof (cases "mark d = 0")
    case True
    then have u: "length (used D) = length xs" using xs by (simp add: D used_append)
    show ?thesis
    proof (cases ys)
      case Nil
      then show ?thesis using typed live [of "[]"] liveD True u len upd by (auto simp: add_entry_def live_simps)
    next
      case (Cons y zs)
      have "length (FileName y) = 32" using assms(1) by (simp add: D Cons typed_dir_def typed_entry_def)
      then have y: "mark (set_mark 0 y) = 0" "typed_entry (set_mark 0 y)" by (auto simp: mark_def set_mark_def typed_entry_def)
      have "typed_dir (xs @ e # set_mark 0 y # zs)"
        using typed_dir_update [OF typed y(2), of "length xs + 1"] by (simp add: Cons list_update_append)
      moreover have "add_entry (length xs) (int (length (used D))) e D = xs @ e # set_mark 0 y # zs"
        using len by (simp add: add_entry_def upd u Cons nth_append list_update_append nat_add_distrib)
      ultimately show ?thesis using live [of "set_mark 0 y # zs"] liveD True y(1) by (auto simp: live_simps)
    qed
  next
    case False
    then have "length (used D) \<noteq> length xs" "mark d = 1" using d xs by (simp_all add: D used_append)
    then show ?thesis using typed live [of ys] liveD upd by (auto simp: add_entry_def live_simps)
  qed
qed

lemma strcpy_name_ok:
  assumes "file_name w" and "typed_entry e"
  obtains e' where "strcpy_name w e = Some e'" "typed_entry e'" "named e'" "name_of e' = w" "mark e' \<noteq> 0" "mark e' \<noteq> 1"
    "StartingBlock e' = StartingBlock e" "ReservedBlocks e' = ReservedBlocks e" "FileSize e' = FileSize e"
proof -
  let ?e = "e\<lparr>FileName := w @ 0 # drop (length w + 1) (FileName e)\<rparr>"
  have w: "w \<noteq> []" "hd w \<noteq> 1" "hd w \<noteq> 0" "0 \<notin> set w" "length w < 32" using assms(1) by (auto simp: file_name_def dest: hd_in_set)
  have "takeWhile (\<lambda>c. c \<noteq> 0) (w @ 0 # drop (length w + 1) (FileName e)) = w" using w(4) by (subst takeWhile_append2) auto
  moreover have "mark ?e = hd w" using w(1) by (simp add: mark_def nth_append hd_conv_nth)
  ultimately show ?thesis using that [of ?e] w assms(2) by (simp add: strcpy_name_def typed_entry_def named_def name_of_def)
qed

lemma dir_ok_add:
  assumes ok: "dir_ok lst D" and live: "live D' = xs @ e # zs" "live D = xs @ zs" and t: "typed_dir D'"
    and e: "in_disk lst e" "named e" "free_run (live D) (first_block e) (unat (ReservedBlocks e))" "\<forall>d \<in> set (live D). name_of d \<noteq> name_of e"
  shows "dir_ok lst D'"
proof -
  have set: "set (live D') = insert e (set (live D))" using live by auto
  have ap: "apart e d" "apart d e" if "d \<in> set (live D)" for d
    using e(3) that by (auto simp: free_run_def apart_def end_block_def first_block_def)
  have "e \<notin> set (live D)" using e(4) by blast
  then have "distinct (live D')" using ok live by (auto simp: dir_ok_def disjoint_files_def)
  then have "disjoint_files (live D')" using ok ap by (auto simp: disjoint_files_def set dir_ok_def)
  moreover have "inj_on name_of (set (live D'))" using ok e(4) by (auto simp: set dir_ok_def)
  ultimately show ?thesis using ok t e(1,2) by (auto simp: dir_ok_def set)
qed

lemma create_runs:
  assumes ok: "bmfs_ok s" and w: "file_name w" "\<forall>e \<in> set (live (Directory s)). name_of e \<noteq> w"
    and split: "Directory s = xs @ d # ys" "\<forall>x \<in> set xs. mark x \<noteq> 0 \<and> mark x \<noteq> 1" "mark d = 0 \<or> mark d = 1"
    and n: "countEntries 0 (- 1) (Directory s) = (n, int (length xs))"
    and b: "b = (if maxsize mod 2 \<noteq> 0 then maxsize + 1 else maxsize) div 2"
    and x: "placeLoop (num_blocks s - 1) b 1 (qs StartingBlockCmp (take (nat n) (Directory s))) = x" "x \<noteq> 0"
  obtains e s' where "bmfs_create h qs w maxsize s = Some s'" "Directory s' = add_entry (length xs) n e (Directory s)"
    "typed_entry e" "named e" "name_of e = w" "mark e \<noteq> 0" "mark e \<noteq> 1" "StartingBlock e = x" "ReservedBlocks e = b" "FileSize e = 0"
    "disksize s' = disksize s" "typed_dir (Directory s') \<Longrightarrow> 8192 \<le> room h \<Longrightarrow> on_disk s'"
proof -
  let ?D = "Directory s"
  have D: "typed_dir ?D" "\<forall>e \<in> set (live ?D). named e" using ok by (simp_all add: bmfs_ok_def dir_ok_def)
  have "0 \<notin> set w" using w(1) by (simp add: file_name_def)
  then have none: "findfile (Some w) s = Some None" using findLoop_none [OF _ D(2)] w(2) by (simp add: findfile_def)
  have "typed_entry d" using D(1) by (simp add: split(1) typed_dir_def)
  then have "typed_entry (d\<lparr>StartingBlock := x, ReservedBlocks := b, FileSize := 0\<rparr>)" by (simp add: typed_entry_def)
  from strcpy_name_ok [OF w(1) this] obtain e where e: "strcpy_name w (d\<lparr>StartingBlock := x, ReservedBlocks := b, FileSize := 0\<rparr>) = Some e"
      "typed_entry e" "named e" "name_of e = w" "mark e \<noteq> 0" "mark e \<noteq> 1" "StartingBlock e = x" "ReservedBlocks e = b" "FileSize e = 0" by auto
  let ?s = "say [Txt ''Creating new file...\<newline>''] s"
  let ?t = "?s\<lparr>Directory := add_entry (length xs) n e ?D\<rparr>"
  have "bmfs_create h qs w maxsize s = Some (say [Txt ''Complete\<newline>''] (flush_directory h ?t))"
    using none n x e(1) b by (simp add: bmfs_create_def Let_def num_blocks_def split(1) add_entry_def)
  then show ?thesis by (rule that) (use e flush_on_disk [of ?t h] in \<open>simp_all add: on_disk_def\<close>)
qed

definition first_fit :: "bmfs \<Rightarrow> 64 word \<Rightarrow> 64 word \<Rightarrow> bool" where
  \<comment> \<open>\<open>x\<close> is the lowest run of \<open>b\<close> free blocks, or 0 and there is none\<close>
  "first_fit s b x \<longleftrightarrow>
     (if x = 0 then \<forall>y. 1 \<le> y \<and> y + unat b \<le> last_block s \<longrightarrow> \<not> free_run (live (Directory s)) y (unat b)
      else 1 \<le> unat x \<and> unat x + unat b \<le> last_block s \<and> free_run (live (Directory s)) (unat x) (unat b)
        \<and> (\<forall>y. 1 \<le> y \<and> free_run (live (Directory s)) y (unat b) \<longrightarrow> unat x \<le> y))"

lemma scanned:
  assumes "bmfs_ok s" and "sorting qs" and "0 < b" and "length (deleted (Directory s)) \<le> 1"
  obtains L X where "qs StartingBlockCmp (used (Directory s)) = L @ X" "set L = set (live (Directory s))"
    "mset X = mset (filter (\<lambda>e. mark e = 1) (used (Directory s)))" "first_fit s b (placeLoop (num_blocks s - 1) b 1 L)"
proof -
  let ?D = "Directory s" and ?l = "num_blocks s - 1"
  have d: "4 \<le> unat (disksize s)" and ok: "dir_ok (last_block s) ?D" using assms(1) by (simp_all add: bmfs_ok_def)
  note last = last_block [OF d]
  have U: "\<forall>e \<in> set (used ?D). mark e \<noteq> 1 \<longrightarrow> in_disk (last_block s) e" "disjoint_files (filter (\<lambda>e. mark e \<noteq> 1) (used ?D))"
    using ok by (auto simp: dir_ok_def live_def)
  obtain L X where q: "qs StartingBlockCmp (used ?D) = L @ X" "mset L = mset (live ?D)"
      "mset X = mset (filter (\<lambda>e. mark e = 1) (used ?D))" "sorted_wrt (\<lambda>a b. end_block a \<le> first_block b) L"
    using sorted_directory [OF assms(2) U(1) last(2) U(2)] assms(4) by (auto simp: live_def deleted_def)
  have L: "set L = set (live ?D)" "\<forall>e \<in> set L. mark e \<noteq> 1 \<and> in_disk (unat ?l) e"
    using mset_eq_setD [OF q(2)] ok live_mark by (auto simp: dir_ok_def last(1))
  have fr: "free_run L = free_run (live ?D)" by (simp add: free_run_def L(1) fun_eq_iff)
  have "\<forall>e \<in> set L. unat (1 :: 64 word) \<le> first_block e" "1 \<le> ?l" using L(2) last by (auto simp: in_disk_def word_le_nat_alt)
  from placeLoop_live [OF L(2) q(4) this(1) _ this(2) assms(3)]
  have "first_fit s b (placeLoop ?l b 1 L)" by (simp add: first_fit_def Let_def fr last(1) word_le_nat_alt split: if_splits)
  then show ?thesis by (rule that [OF q(1) L(1) q(3)])
qed

lemma used_take: "take (length (used D)) D = used D"
  by (simp add: used_def takeWhile_eq_take [symmetric])

lemma typed_dir_ok: "bmfs_ok s \<Longrightarrow> typed_dir (Directory s)"
  by (simp add: bmfs_ok_def dir_ok_def)

text \<open>C28. In a directory that has an end mark and at most one deleted entry, creating a file gives it the lowest run of
  free blocks that is long enough, if there is one: the directory gains exactly this file, of no bytes and of the size
  asked for rounded up to whole blocks, keeps its invariant (files disjoint and on the disk, names different), finds the
  new name, and is written to the disk.  The two conditions are those of the code: without an end mark it takes the
  directory for an empty one (\<open>full_directory_is_ignored\<close>), and with two deleted entries \<open>StartingBlockCmp\<close> calls each of
  them greater than the other, for which the C library promises nothing of \<open>qsort\<close>.\<close>

theorem create_first_fit:
  assumes "bmfs_ok s" and "ends (Directory s)" and "sorting qs" and "8192 \<le> room h"
    and "file_name w" and "\<forall>e \<in> set (live (Directory s)). name_of e \<noteq> w" and "0 < maxsize" and "unat maxsize < 2 ^ 64 - 1"
    and "1 \<le> y" and "free_run (live (Directory s)) y ((unat maxsize + 1) div 2)" and "y + (unat maxsize + 1) div 2 \<le> last_block s"
    and "length (deleted (Directory s)) \<le> 1"
  shows "\<exists>s' k e. bmfs_create h qs w maxsize s = Some s' \<and> bmfs_ok s' \<and> on_disk s'
    \<and> mset (live (Directory s')) = add_mset e (mset (live (Directory s)))
    \<and> name_of e = w \<and> FileSize e = 0 \<and> unat (ReservedBlocks e) = (unat maxsize + 1) div 2
    \<and> first_block e = (LEAST x. 1 \<le> x \<and> free_run (live (Directory s)) x ((unat maxsize + 1) div 2))
    \<and> findfile (Some w) s' = Some (Some (k, e))"
proof -
  let ?D = "Directory s" and ?n = "(unat maxsize + 1) div 2" and ?l = "num_blocks s - 1"
  define b where "b = (if maxsize mod 2 \<noteq> 0 then maxsize + 1 else maxsize) div 2"
  have b: "unat b = ?n" "0 < b" using blocks_requested [OF assms(8)] assms(7) by (simp_all add: b_def word_less_nat_alt)
  have ex: "\<exists>x \<in> set ?D. mark x = 0" "\<exists>x \<in> set ?D. mark x = 0 \<or> mark x = 1" using assms(2) by (auto simp: ends_def)
  obtain xs d ys where D: "?D = xs @ d # ys" "\<forall>x \<in> set xs. mark x \<noteq> 0 \<and> mark x \<noteq> 1" "mark d = 0 \<or> mark d = 1"
    using directory_split [OF ex(2)] by blast
  note count = countEntries_split [OF D ex(1)]
  obtain L X where q: "qs StartingBlockCmp (used ?D) = L @ X" "mset X = mset (filter (\<lambda>e. mark e = 1) (used ?D))"
      and fit: "first_fit s b (placeLoop ?l b 1 L)" using scanned [OF assms(1,3) b(2) assms(12)] by metis
  define x where "x = placeLoop ?l b 1 L"
  have x0: "x \<noteq> 0" using fit assms(9-11) b(1) by (auto simp: x_def first_fit_def)
  have x: "1 \<le> unat x" "unat x + ?n \<le> last_block s" "free_run (live ?D) (unat x) ?n"
      "\<And>y. 1 \<le> y \<Longrightarrow> free_run (live ?D) y ?n \<Longrightarrow> unat x \<le> y"
    using fit x0 unfolding x_def [symmetric] b(1) first_fit_def by auto
  have X: "\<forall>e \<in> set X. mark e = 1" using mset_eq_setD [OF q(2)] by auto
  have "placeLoop ?l b 1 (qs StartingBlockCmp (take (nat (int (length (used ?D)))) ?D)) = x"
    using placeLoop_found [of ?l b 1 L X] x0 X by (simp add: used_take q(1) x_def)
  from create_runs [where s = s and x = x and b = b and maxsize = maxsize and qs = qs and h = h,
      OF assms(1,5,6) D count b_def this x0] obtain e s' where
    s': "bmfs_create h qs w maxsize s = Some s'" "Directory s' = add_entry (length xs) (int (length (used ?D))) e ?D"
    "typed_entry e" "named e" "name_of e = w" "mark e \<noteq> 0" "mark e \<noteq> 1" "StartingBlock e = x" "ReservedBlocks e = b" "FileSize e = 0"
    "disksize s' = disksize s" "typed_dir (Directory s') \<Longrightarrow> 8192 \<le> room h \<Longrightarrow> on_disk s'" by blast
  from add_entry [OF typed_dir_ok [OF assms(1)] D s'(3,6,7)] obtain zs where zs: "Directory s' = xs @ e # zs" "typed_dir (xs @ e # zs)"
      "live (xs @ e # zs) = xs @ e # live zs" "live ?D = xs @ live zs" using s'(2) by auto
  have e: "first_block e = unat x" "in_disk (last_block s) e" using x(1,2) s'(8,9) b
    by (auto simp: first_block_def in_disk_def end_block_def word_less_nat_alt)
  have ok: "dir_ok (last_block s) ?D" "4 \<le> unat (disksize s)" using assms(1) by (simp_all add: bmfs_ok_def)
  then have "dir_ok (last_block s) (xs @ e # zs)"
    using dir_ok_add [OF ok(1) zs(3,4,2) e(2) s'(4)] x(3) assms(6) s'(5,9) b(1) by (simp add: e(1))
  then have "bmfs_ok s'" using ok(2) s'(11) by (simp add: bmfs_ok_def zs(1) last_block_def num_blocks_def)
  moreover have "(LEAST x. 1 \<le> x \<and> free_run (live ?D) x ?n) = unat x"
    by (rule Least_equality) (use x in auto)
  moreover have "findfile (Some w) s' = Some (Some (length xs, e))"
  proof -
    have "\<forall>x \<in> set xs. mark x \<noteq> 0 \<and> (mark x \<noteq> 1 \<longrightarrow> named x \<and> name_of x \<noteq> w)"
      using D(2) assms(6) ok(1) by (auto simp: zs(4) dir_ok_def)
    then show ?thesis
      using findLoop_split [of w xs e 0 zs] assms(5) s'(4-7) by (simp add: findfile_def zs(1) file_name_def)
  qed
  moreover have "on_disk s'" "mset (live (Directory s')) = add_mset e (mset (live ?D))" using s'(12) zs assms(4) by simp_all
  ultimately show ?thesis using s'(1,5,9,10) b(1) e(1)
    by (intro exI [of _ s'] exI [of _ "length xs"] exI [of _ e]) simp
qed

subsection \<open>A directory to try the commands on\<close>

fun insert_by :: "('a \<Rightarrow> 'a \<Rightarrow> int) \<Rightarrow> 'a \<Rightarrow> 'a list \<Rightarrow> 'a list" where
  "insert_by cmp x [] = [x]"
| "insert_by cmp x (y # ys) = (if cmp y x < 0 then y # insert_by cmp x ys else x # y # ys)"

definition insertion_sort :: qsort where
  "insertion_sort cmp xs = foldr (insert_by cmp) xs []"

lemma insert_by_insort:
  fixes key :: "BMFSEntry \<Rightarrow> nat"
  shows "\<forall>y \<in> set ys. cmp y x < 0 \<longleftrightarrow> key y < key x \<Longrightarrow> insert_by cmp x ys = insort_key key x ys"
  by (induction ys) (auto simp: not_le)

lemma sorted_wrt_insort:
  fixes key :: "BMFSEntry \<Rightarrow> nat"
  assumes "sorted_wrt R ys" and "sorted (map key ys)"
    and "\<forall>y \<in> set ys. (key y < key x \<longrightarrow> R y x) \<and> (key x \<le> key y \<longrightarrow> R x y)"
  shows "sorted_wrt R (insort_key key x ys)"
  using assms
proof (induction ys)
  case (Cons y ys)
  then show ?case by (auto simp: set_insort_key)
qed simp

lemma consistent_Cons:
  assumes "consistent cmp key (x # xs)"
  shows "consistent cmp key xs" and "\<forall>y \<in> set xs. (cmp y x < 0 \<longleftrightarrow> key y < key x) \<and> (cmp x y < 0 \<longleftrightarrow> key x < key y)"
proof -
  note c = assms [unfolded consistent_def, rule_format]
  show "consistent cmp key xs" unfolding consistent_def
    using c [of "Suc _" "Suc _"] by simp
  show "\<forall>y \<in> set xs. (cmp y x < 0 \<longleftrightarrow> key y < key x) \<and> (cmp x y < 0 \<longleftrightarrow> key x < key y)"
    using c [of 0 "Suc _"] c [of "Suc _" 0] by (auto simp: in_set_conv_nth)
qed

lemma insertion_sort_sorts: "sorting insertion_sort"
  unfolding sorting_def insertion_sort_def
proof (intro allI impI, elim exE)
  fix cmp :: "BMFSEntry \<Rightarrow> BMFSEntry \<Rightarrow> int" and xs and key :: "BMFSEntry \<Rightarrow> nat"
  assume "consistent cmp key xs"
  then have "foldr (insert_by cmp) xs [] = sort_key key xs \<and> sorted_wrt (\<lambda>a b. \<not> cmp b a < 0) (sort_key key xs)"
  proof (induction xs)
    case (Cons x xs)
    note c = consistent_Cons [OF Cons.prems]
    have ih: "foldr (insert_by cmp) xs [] = sort_key key xs" "sorted_wrt (\<lambda>a b. \<not> cmp b a < 0) (sort_key key xs)"
      using Cons.IH [OF c(1)] by simp_all
    have "insert_by cmp x (sort_key key xs) = insort_key key x (sort_key key xs)"
      using c(2) by (intro insert_by_insort) simp
    moreover have "sorted_wrt (\<lambda>a b. \<not> cmp b a < 0) (insort_key key x (sort_key key xs))"
      using c(2) ih(2) sorted_sort_key [of key xs] by (intro sorted_wrt_insort) auto
    ultimately show ?case using ih(1) by simp
  qed simp
  then show "mset (foldr (insert_by cmp) xs []) = mset xs \<and> sorted_wrt (\<lambda>a b. \<not> cmp b a < 0) (foldr (insert_by cmp) xs [])" by simp
qed

definition zero_entry :: BMFSEntry where
  "zero_entry = \<lparr>FileName = replicate 32 0, StartingBlock = 0, ReservedBlocks = 0, FileSize = 0, Unused = 0\<rparr>"

definition demo_entry :: "byte \<Rightarrow> 64 word \<Rightarrow> 64 word \<Rightarrow> BMFSEntry" where
  "demo_entry c start n = \<lparr>FileName = c # replicate 31 0, StartingBlock = start, ReservedBlocks = n, FileSize = 0, Unused = 0\<rparr>"

definition demo_disk :: "BMFSEntry list \<Rightarrow> bmfs" where
  \<comment> \<open>a disk of 16 MiB with these entries\<close>
  "demo_disk es = \<lparr>diskname = [100], disk = fopen [], DiskInfo = ascii ''BMFS'' @ replicate 508 0,
     Directory = es @ replicate (64 - length es) zero_entry, disksize = 16, files = (\<lambda>_. None), printed = []\<rparr>"

definition demo_host :: host where
  "demo_host = \<lparr>room = 0x1000000, creatable = (\<lambda>_. True), typed_line = [], has_memory = True\<rparr>"

lemma demo_marks [simp]: "mark zero_entry = 0" "mark (demo_entry c x n) = c" "typed_entry zero_entry" "typed_entry (demo_entry c x n)"
    "named (demo_entry c x n)" "first_block (demo_entry c x n) = unat x" "end_block (demo_entry c x n) = unat x + unat n"
    "ReservedBlocks (demo_entry c x n) = n" "StartingBlock (demo_entry c x n) = x" "c \<noteq> 0 \<Longrightarrow> name_of (demo_entry c x n) = [c]"
  by (simp_all add: mark_def zero_entry_def demo_entry_def typed_entry_def named_def first_block_def end_block_def name_of_def)

lemma live_zero: "live (replicate n zero_entry) = []" "used (replicate n zero_entry) = []"
  by (cases n; simp add: live_def used_def)+

lemma demo_last: "last_block (demo_disk es) = 7" "disksize (demo_disk es) = 16"
    "Directory (demo_disk es) = es @ replicate (64 - length es) zero_entry"
proof -
  have "(16 :: 32 word) div 2 = 8" by (simp add: word_div_def)
  then show "last_block (demo_disk es) = 7" by (simp add: last_block_def num_blocks_def demo_disk_def)
qed (simp_all add: demo_disk_def)

lemma demo_ok:
  assumes "length es \<le> 64" and "\<forall>e \<in> set es. typed_entry e \<and> mark e \<noteq> 0" and "\<forall>e \<in> set es. mark e \<noteq> 1 \<longrightarrow> in_disk 7 e \<and> named e"
    and "disjoint_files (filter (\<lambda>e. mark e \<noteq> 1) es)" and "inj_on name_of (set (filter (\<lambda>e. mark e \<noteq> 1) es))"
  shows "bmfs_ok (demo_disk es)" and "live (Directory (demo_disk es)) = filter (\<lambda>e. mark e \<noteq> 1) es"
    and "used (Directory (demo_disk es)) = es"
  using assms by (auto simp: bmfs_ok_def demo_last dir_ok_def live_append used_append live_zero typed_dir_def)

theorem create_first_fit_witness:
  "\<exists>s' k e. bmfs_create demo_host insertion_sort [97] 3 (demo_disk [demo_entry 98 1 2]) = Some s'
    \<and> first_block e = (LEAST x. 1 \<le> x \<and> free_run [demo_entry 98 1 2] x 2) \<and> findfile (Some [97]) s' = Some (Some (k, e))"
proof -
  let ?e = "demo_entry 98 1 2"
  have demo: "bmfs_ok (demo_disk [?e])" "live (Directory (demo_disk [?e])) = [?e]" "used (Directory (demo_disk [?e])) = [?e]"
    using demo_ok [of "[?e]"] by (simp_all add: in_disk_def disjoint_files_def)
  have "ends (Directory (demo_disk [?e]))" by (simp add: ends_def demo_last)
  moreover have "file_name [97]" by (simp add: file_name_def)
  moreover have "free_run [?e] 3 ((unat (3 :: 64 word) + 1) div 2)" by (simp add: free_run_def)
  ultimately show ?thesis
    using create_first_fit [OF demo(1) _ insertion_sort_sorts, of demo_host "[97]" 3 3] by (simp add: demo(2,3) demo_last(1) demo_host_def deleted_def) blast
qed

subsection \<open>Where creating a file goes wrong\<close>

lemma placeLoop_end:
  assumes "unat x + unat b \<le> unat l"
  shows "placeLoop l b x [] = x"
proof -
  have "x \<le> l" using assms by (simp add: word_le_nat_alt)
  then have "unat (l - x) = unat l - unat x" by (simp add: unat_sub)
  moreover have "unat b \<le> unat l - unat x" using assms by linarith
  ultimately show ?thesis by (simp add: word_le_nat_alt)
qed

text \<open>C30. The scan for free blocks goes on behind a deleted entry at the end of the file that was deleted.  When the
  directory has exactly one deleted entry (and an end mark), no free run is long enough, and the request would fit
  between the end of the deleted entry and the end of the disk, it is not refused: the new file starts where the deleted
  one ended and overlaps another file.\<close>

theorem create_overlaps_after_delete:
  assumes "bmfs_ok s" and "ends (Directory s)" and "sorting qs"
    and "file_name w" and "\<forall>e \<in> set (live (Directory s)). name_of e \<noteq> w" and "0 < maxsize" and "unat maxsize < 2 ^ 64 - 1"
    and "deleted (Directory s) = [d]" and "1 \<le> end_block d" and "end_block d + (unat maxsize + 1) div 2 \<le> last_block s"
    and "\<forall>y. 1 \<le> y \<and> y + (unat maxsize + 1) div 2 \<le> last_block s \<longrightarrow> \<not> free_run (live (Directory s)) y ((unat maxsize + 1) div 2)"
  shows "\<exists>s' e f. bmfs_create h qs w maxsize s = Some s' \<and> mset (live (Directory s')) = add_mset e (mset (live (Directory s)))
    \<and> name_of e = w \<and> first_block e = end_block d \<and> unat (ReservedBlocks e) = (unat maxsize + 1) div 2
    \<and> f \<in> set (live (Directory s)) \<and> f \<noteq> e \<and> \<not> apart f e"
proof -
  let ?D = "Directory s" and ?n = "(unat maxsize + 1) div 2" and ?l = "num_blocks s - 1"
  define b where "b = (if maxsize mod 2 \<noteq> 0 then maxsize + 1 else maxsize) div 2"
  have b: "unat b = ?n" "0 < b" using blocks_requested [OF assms(7)] assms(6) by (simp_all add: b_def word_less_nat_alt)
  have ok: "dir_ok (last_block s) ?D" "4 \<le> unat (disksize s)" using assms(1) by (simp_all add: bmfs_ok_def)
  note last = last_block [OF ok(2)]
  have ex: "\<exists>x \<in> set ?D. mark x = 0" "\<exists>x \<in> set ?D. mark x = 0 \<or> mark x = 1" using assms(2) by (auto simp: ends_def)
  obtain xs c ys where D: "?D = xs @ c # ys" "\<forall>x \<in> set xs. mark x \<noteq> 0 \<and> mark x \<noteq> 1" "mark c = 0 \<or> mark c = 1"
    using directory_split [OF ex(2)] by blast
  note count = countEntries_split [OF D ex(1)]
  obtain L X where q: "qs StartingBlockCmp (used ?D) = L @ X" "set L = set (live ?D)" "mset X = mset (filter (\<lambda>e. mark e = 1) (used ?D))"
      and fit: "first_fit s b (placeLoop ?l b 1 L)" using scanned [OF assms(1,3) b(2)] assms(8) by (metis One_nat_def length_Cons list.size(3) order_refl)
  have "mset X = mset [d]" by (simp only: q(3) assms(8) [unfolded deleted_def])
  then have X: "X = [d]" by simp
  have none: "placeLoop ?l b 1 L = 0" using fit assms(11) b(1) by (auto simp: first_fit_def split: if_splits)
  define x where "x = StartingBlock d + ReservedBlocks d"
  have sum: "unat (StartingBlock e + ReservedBlocks e) = end_block e" if "end_block e \<le> last_block s" for e
    using that last(2) unfolding end_block_def by (intro unat_add_lem [THEN iffD1]) simp
  have x: "unat x = end_block d" using sum [of d] assms(10) by (simp add: x_def)
  then have x0: "x \<noteq> 0" using assms(9) by auto
  have "\<forall>e \<in> set L. StartingBlock e + ReservedBlocks e \<noteq> 0"
  proof
    fix e assume "e \<in> set L"
    then have "in_disk (last_block s) e" using ok(1) q(2) by (simp add: dir_ok_def)
    then have "0 < unat (StartingBlock e + ReservedBlocks e)" using sum [of e] by (simp add: in_disk_def end_block_def)
    then show "StartingBlock e + ReservedBlocks e \<noteq> 0" by auto
  qed
  moreover have "mark d = 1" using arg_cong [OF assms(8), of set] by (auto simp: deleted_def)
  ultimately have "placeLoop ?l b 1 (L @ [d]) = placeLoop ?l b x []" using placeLoop_stale [OF none] by (simp add: x_def)
  also have "\<dots> = x" using assms(10) by (intro placeLoop_end) (simp add: last(1) x b(1))
  finally have "placeLoop ?l b 1 (qs StartingBlockCmp (take (nat (int (length (used ?D)))) ?D)) = x" by (simp add: used_take q(1) X)
  from create_runs [where s = s and x = x and b = b and maxsize = maxsize and qs = qs and h = h,
      OF assms(1,4,5) D count b_def this x0] obtain e s' where
    s': "bmfs_create h qs w maxsize s = Some s'" "Directory s' = add_entry (length xs) (int (length (used ?D))) e ?D"
    "typed_entry e" "name_of e = w" "mark e \<noteq> 0" "mark e \<noteq> 1" "StartingBlock e = x" "ReservedBlocks e = b" by blast
  from add_entry [OF typed_dir_ok [OF assms(1)] D s'(3,5,6)] obtain zs where zs: "Directory s' = xs @ e # zs"
      "live (xs @ e # zs) = xs @ e # live zs" "live ?D = xs @ live zs" using s'(2) by auto
  have "\<not> free_run (live ?D) (unat x) (unat b)" using assms(9-11) by (simp add: x b(1))
  then obtain f where f: "f \<in> set (live ?D)" "\<not> (end_block f \<le> unat x \<or> unat x + unat b \<le> first_block f)"
    by (auto simp: free_run_def)
  then have "\<not> apart f e" "f \<noteq> e" using assms(5) s'(4,7,8) by (auto simp: apart_def end_block_def first_block_def)
  moreover have "mset (live (Directory s')) = add_mset e (mset (live ?D))" using zs by simp
  ultimately show ?thesis using s'(1,4,7,8) f(1) x b(1)
    by (intro exI [of _ s'] exI [of _ e] exI [of _ f]) (simp add: first_block_def)
qed

theorem create_overlaps_after_delete_witness:
  "\<exists>s' e. bmfs_create demo_host insertion_sort [97] 3 (demo_disk [demo_entry 98 1 6, demo_entry 1 1 2]) = Some s'
    \<and> e \<in> set (live (Directory s')) \<and> first_block e = 3 \<and> \<not> apart (demo_entry 98 1 6) e"
proof -
  let ?es = "[demo_entry 98 1 6, demo_entry 1 1 2]"
  have demo: "bmfs_ok (demo_disk ?es)" "live (Directory (demo_disk ?es)) = [demo_entry 98 1 6]" "used (Directory (demo_disk ?es)) = ?es"
    using demo_ok [of ?es] by (simp_all add: in_disk_def disjoint_files_def)
  have "ends (Directory (demo_disk ?es))" by (simp add: ends_def demo_last)
  moreover have "file_name [97]" by (simp add: file_name_def)
  moreover have "\<forall>y. 1 \<le> y \<and> y + 2 \<le> (7 :: nat) \<longrightarrow> \<not> free_run [demo_entry 98 1 6] y 2" by (auto simp: free_run_def)
  ultimately obtain s' e where "bmfs_create demo_host insertion_sort [97] 3 (demo_disk ?es) = Some s'"
      "mset (live (Directory s')) = add_mset e {#demo_entry 98 1 6#}" "first_block e = Suc (Suc (Suc 0))" "\<not> apart (demo_entry 98 1 6) e"
    using create_overlaps_after_delete [OF demo(1) _ insertion_sort_sorts, of "[97]" 3 "demo_entry 1 1 2" demo_host]
    by (simp add: demo(2,3) demo_last(1) deleted_def) metis
  moreover from this have "e \<in> set (live (Directory s'))" by (metis set_mset_mset union_single_eq_member)
  moreover have "Suc (Suc (Suc 0)) = 3" by simp
  ultimately show ?thesis by metis
qed

text \<open>In a directory without an end mark, full but for deleted entries, the number of entries in use stays 0: the new file
  starts at block 1, wherever the other files are, and when the first entry is the deleted one every other file is lost.\<close>

theorem full_directory_is_ignored:
  assumes "bmfs_ok s" and "\<not> ends (Directory s)" and "\<exists>e \<in> set (Directory s). mark e = 1" and "sorting qs"
    and "file_name w" and "\<forall>e \<in> set (live (Directory s)). name_of e \<noteq> w" and "0 < maxsize" and "unat maxsize < 2 ^ 64 - 1"
    and "(unat maxsize + 1) div 2 < last_block s"
  shows "\<exists>s' e. bmfs_create h qs w maxsize s = Some s' \<and> name_of e = w \<and> first_block e = 1
    \<and> (if mark (Directory s ! 0) = 1 then live (Directory s') = [e]
       else mset (live (Directory s')) = add_mset e (mset (live (Directory s))))"
proof -
  let ?D = "Directory s" and ?n = "(unat maxsize + 1) div 2" and ?l = "num_blocks s - 1"
  define b where "b = (if maxsize mod 2 \<noteq> 0 then maxsize + 1 else maxsize) div 2"
  have b: "unat b = ?n" using blocks_requested [OF assms(8)] by (simp add: b_def)
  have "4 \<le> unat (disksize s)" using assms(1) by (simp add: bmfs_ok_def)
  note last = last_block [OF this]
  have all: "\<forall>x \<in> set ?D. mark x \<noteq> 0" using assms(2) by (simp add: ends_def)
  obtain xs d ys where D: "?D = xs @ d # ys" "\<forall>x \<in> set xs. mark x \<noteq> 0 \<and> mark x \<noteq> 1" "mark d = 0 \<or> mark d = 1"
    using directory_split [of ?D] assms(3) by metis
  have d: "mark d = 1" using D(1,3) all by auto
  have count: "countEntries 0 (- 1) ?D = (0, int (length xs))"
    using D(1,2) d all by (simp add: countEntries_prefix countEntries_full)
  have "consistent StartingBlockCmp (\<lambda>_. 0) []" by (simp add: consistent_def)
  then have "mset (qs StartingBlockCmp []) = mset []" using assms(4) unfolding sorting_def by blast
  then have "qs StartingBlockCmp [] = []" by simp
  moreover have "placeLoop ?l b 1 [] = 1" using assms(9) by (intro placeLoop_end) (simp only: last(1) b, simp)
  moreover define x :: "64 word" where "x = 1"
  ultimately have x: "placeLoop ?l b 1 (qs StartingBlockCmp (take (nat 0) ?D)) = x" "x \<noteq> 0" by simp_all
  obtain e s' where
    s': "bmfs_create h qs w maxsize s = Some s'" "Directory s' = add_entry (length xs) 0 e ?D"
    "typed_entry e" "name_of e = w" "mark e \<noteq> 0" "mark e \<noteq> 1" "StartingBlock e = x"
    by (rule create_runs [where s = s and x = x and b = b and maxsize = maxsize and qs = qs and h = h,
          OF assms(1,5,6) D count b_def x], rule that)
  have "length ?D = 64" using typed_dir_ok [OF assms(1)] by (rule typed_dirD(1))
  then have len: "length xs + length ys = 63" by (simp add: D(1))
  have "if mark (?D ! 0) = 1 then live (Directory s') = [e] else mset (live (Directory s')) = add_mset e (mset (live ?D))"
  proof (cases xs)
    case Nil
    then obtain y zs where y: "ys = y # zs" using len by (cases ys) auto
    have "typed_entry y" using typed_dir_ok [OF assms(1)] by (simp add: D(1) y typed_dir_def)
    then have "mark (set_mark 0 y) = 0" by (auto simp: mark_def set_mark_def typed_entry_def)
    then show ?thesis using d s'(2,5,6) by (simp add: D(1) Nil y add_entry_def live_simps)
  next
    case (Cons z zs)
    then have "Directory s' = xs @ e # ys" "mark (?D ! 0) \<noteq> 1" using s'(2) D(1,2) by (simp_all add: add_entry_def)
    moreover have "live (xs @ e # ys) = xs @ e # live ys" "live ?D = xs @ live ys"
      unfolding D(1) using D(2) d s'(5,6) by (simp_all add: live_append live_simps filter_id_conv)
    ultimately show ?thesis by simp
  qed
  then show ?thesis using s'(1,4,7) by (auto simp: first_block_def x_def)
qed

theorem full_directory_is_ignored_witness:
  "\<exists>s' e. bmfs_create demo_host insertion_sort [97] 3 (demo_disk (demo_entry 1 1 2 # demo_entry 98 1 6 # replicate 62 (demo_entry 1 3 2))) = Some s'
    \<and> live (Directory s') = [e] \<and> name_of e = [97]"
proof -
  let ?es = "demo_entry 1 1 2 # demo_entry 98 1 6 # replicate 62 (demo_entry 1 3 2)"
  have demo: "bmfs_ok (demo_disk ?es)" "live (Directory (demo_disk ?es)) = [demo_entry 98 1 6]"
    using demo_ok [of ?es] by (simp_all add: in_disk_def disjoint_files_def)
  have D: "Directory (demo_disk ?es) = ?es" by (simp add: demo_last)
  then have "\<not> ends (Directory (demo_disk ?es))" "\<exists>e \<in> set (Directory (demo_disk ?es)). mark e = 1" "mark (Directory (demo_disk ?es) ! 0) = 1"
    by (auto simp: ends_def)
  moreover have "file_name [97]" by (simp add: file_name_def)
  ultimately show ?thesis
    using full_directory_is_ignored [OF demo(1) _ _ insertion_sort_sorts, of "[97]" 3 demo_host] by (auto simp: demo(2) demo_last(1))
qed

subsection \<open>Files in the directory\<close>

lemma findLoop_total: "0 \<notin> set w \<Longrightarrow> \<forall>e \<in> set (live D). named e \<Longrightarrow> findLoop (Some w) i D \<noteq> None"
proof (induction D arbitrary: i)
  case (Cons e D)
  show ?case
  proof (cases "mark e \<noteq> 0 \<and> mark e \<noteq> 1")
    case True
    then show ?thesis using Cons strcmp0_name [of w "FileName e"] by (simp add: live_simps named_def)
  next
    case False
    then show ?thesis using Cons by (cases "mark e = 0") (simp_all add: live_simps)
  qed
qed simp

lemma file_found:
  assumes "bmfs_ok s" and "file_name w" and "e \<in> set (live (Directory s))" and "name_of e = w"
  obtains xs ys where "Directory s = xs @ e # ys" "findfile (Some w) s = Some (Some (length xs, e))" "length xs < 64"
    "\<forall>x \<in> set xs. mark x \<noteq> 0 \<and> (mark x \<noteq> 1 \<longrightarrow> named x \<and> name_of x \<noteq> w)" "mark e \<noteq> 0" "mark e \<noteq> 1" "named e"
    "live (Directory s) = filter (\<lambda>x. mark x \<noteq> 1) xs @ e # live ys"
proof -
  have D: "\<forall>e \<in> set (live (Directory s)). named e" "inj_on name_of (set (live (Directory s)))" "length (Directory s) = 64"
    using assms(1) typed_dirD(1) [OF typed_dir_ok [OF assms(1)]] by (simp_all add: bmfs_ok_def dir_ok_def)
  have w: "0 \<notin> set w" using assms(2) by (simp add: file_name_def)
  obtain k d where f: "findLoop (Some w) 0 (Directory s) = Some (Some (k, d))"
    using findLoop_total [OF w D(1), of 0] findLoop_none [OF w D(1), of 0] assms(3,4) by (metis not_None_eq old.prod.exhaust)
  from findLoop_some [OF f w D(1)] obtain xs ys where x: "Directory s = xs @ d # ys" "k = length xs"
      "\<forall>x \<in> set xs. mark x \<noteq> 0 \<and> (mark x \<noteq> 1 \<longrightarrow> named x \<and> name_of x \<noteq> w)" "mark d \<noteq> 0" "mark d \<noteq> 1" "named d" "name_of d = w"
    by auto
  then have l: "live (Directory s) = filter (\<lambda>x. mark x \<noteq> 1) xs @ d # live ys" by (simp add: live_append live_simps)
  then have "d = e" using D(2) assms(3,4) x(7) by (auto dest: inj_onD)
  moreover have "length xs < 64" using D(3) by (simp add: x(1))
  ultimately show ?thesis using that [of xs ys] x l f by (simp add: findfile_def)
qed

lemma dir_ok_others:
  assumes "dir_ok lst D" and "live D = xs @ e # zs" and "x \<in> set xs \<union> set zs"
  shows "x \<noteq> e" "name_of x \<noteq> name_of e" "named x"
proof -
  have d: "distinct (xs @ e # zs)" "inj_on name_of (set (xs @ e # zs))" "\<forall>x \<in> set (xs @ e # zs). named x"
    using assms(1) unfolding dir_ok_def disjoint_files_def assms(2) by blast+
  then show "x \<noteq> e" using assms(3) by auto
  then show "name_of x \<noteq> name_of e" using inj_onD [OF d(2), of x e] assms(3) by auto
  show "named x" using d(3) assms(3) by auto
qed

lemma dir_ok_replace:
  assumes ok: "dir_ok lst D" and live: "live D = xs @ e # zs" "live D' = xs @ e' # zs" and t: "typed_dir D'"
    and e: "StartingBlock e' = StartingBlock e" "ReservedBlocks e' = ReservedBlocks e" "name_of e' = name_of e" "named e'"
  shows "dir_ok lst D'"
proof -
  have d: "distinct (xs @ e # zs)" "inj_on name_of (set (xs @ e # zs))"
    and ap: "\<forall>a \<in> set (xs @ e # zs). \<forall>b \<in> set (xs @ e # zs). a \<noteq> b \<longrightarrow> apart a b"
    using ok unfolding dir_ok_def disjoint_files_def live(1) by blast+
  have bl: "first_block e' = first_block e" "end_block e' = end_block e" using e(1,2) by (simp_all add: first_block_def end_block_def)
  then have ap': "apart e' b = apart e b" "apart b e' = apart b e" for b by (simp_all add: apart_def)
  have ne: "x \<noteq> e'" "name_of x \<noteq> name_of e'" if "x \<in> set xs \<union> set zs" for x
    using dir_ok_others [OF ok live(1) that] e(3) by auto
  have "distinct (live D')" using d(1) ne(1) live(2) by auto
  moreover have "\<forall>a \<in> set (live D'). \<forall>b \<in> set (live D'). a \<noteq> b \<longrightarrow> apart a b" using ap d(1) by (auto simp: live(2) ap')
  moreover have "inj_on name_of (set (live D'))"
  proof -
    have "inj_on name_of (insert e' (set xs \<union> set zs))"
      by (rule inj_on_fresh, rule inj_on_subset [OF d(2)]) (use ne(2) in auto)
    then show ?thesis by (simp add: live(2))
  qed
  moreover have "\<forall>d \<in> set (live D'). in_disk lst d \<and> named d"
    using ok bl e(2,4) by (auto simp: dir_ok_def live in_disk_def)
  ultimately show ?thesis using t by (simp add: dir_ok_def disjoint_files_def)
qed

text \<open>Deleting a file removes exactly its entry: the other files and their blocks are as before, the name is not
  found any more, the invariant is kept and the directory is written to the disk.\<close>

theorem delete_removes:
  assumes "bmfs_ok s" and "file_name w" and "e \<in> set (live (Directory s))" and "name_of e = w" and "8192 \<le> room h"
  shows "\<exists>s'. bmfs_delete h (Some w) s = Some s' \<and> bmfs_ok s' \<and> on_disk s' \<and> findfile (Some w) s' = Some None
    \<and> live (Directory s') = remove1 e (live (Directory s)) \<and> drop 8192 (contents (disk s')) = drop 8192 (contents (disk s))"
proof -
  let ?D = "Directory s"
  obtain xs ys where f: "?D = xs @ e # ys" "findfile (Some w) s = Some (Some (length xs, e))" "length xs < 64"
    "\<forall>x \<in> set xs. mark x \<noteq> 0 \<and> (mark x \<noteq> 1 \<longrightarrow> named x \<and> name_of x \<noteq> w)" "mark e \<noteq> 0" "mark e \<noteq> 1" "named e"
    "live ?D = filter (\<lambda>x. mark x \<noteq> 1) xs @ e # live ys" by (rule file_found [OF assms(1-4)])
  note typed = typed_dir_ok [OF assms(1)]
  define e1 where "e1 = e\<lparr>FileName := (FileName e)[0 := 1]\<rparr>"
  have l: "length (FileName e) = 32" using typed by (simp add: f(1) typed_dir_def typed_entry_def)
  then have e1: "mark e1 = 1" "typed_entry e1" by (auto simp: e1_def mark_def typed_entry_def)
  have "patch (length xs * 64) [1] ?D = xs @ e1 # ys" using patch_mark [OF typed f(3), of 1] by (simp add: f(1) e1_def)
  moreover have typed': "typed_dir (xs @ e1 # ys)" using typed_dir_update [OF typed e1(2), of "length xs"] by (simp add: f(1))
  define t where "t = say [Txt ''Deleting file '', Quoted w, Txt '' from BMFS... ''] s\<lparr>Directory := xs @ e1 # ys\<rparr>"
  ultimately have run: "bmfs_delete h (Some w) s = Some (say [Txt ''Complete\<newline>''] (flush_directory h t))"
    using f(2) by (simp add: bmfs_delete_def Let_def t_def say_def)
  have live: "live (xs @ e1 # ys) = filter (\<lambda>x. mark x \<noteq> 1) xs @ live ys" using f(4) e1(1) by (simp add: live_append live_simps)
  have ok: "dir_ok (last_block s) ?D" using assms(1) by (simp add: bmfs_ok_def)
  then have e: "e \<notin> set (filter (\<lambda>x. mark x \<noteq> 1) xs)" "\<forall>x \<in> set (live (xs @ e1 # ys)). name_of x \<noteq> w \<and> named x"
    using dir_ok_others [OF ok f(8)] assms(4) by (auto simp: live)
  have "dir_ok (last_block s) (xs @ e1 # ys)"
    using ok typed' by (auto simp: dir_ok_def disjoint_files_def f(8) live inj_on_def)
  then have "bmfs_ok (flush_directory h t)" using assms(1)
    by (simp add: bmfs_ok_def t_def say_def last_block_def num_blocks_def)
  moreover have "findLoop (Some w) 0 (xs @ e1 # ys) = Some None"
    using findLoop_none [of w "xs @ e1 # ys" 0] e(2) assms(2) by (simp add: file_name_def)
  moreover have "on_disk (flush_directory h t)" by (rule flush_on_disk) (simp_all add: t_def typed' assms(5))
  moreover have "drop 8192 (contents (disk (flush_directory h t))) = drop 8192 (contents (disk s))"
    using typed_dirD(3) [OF typed'] assms(5) by (auto simp: flush_directory_def fwrite_def fseek_def t_def say_def overwrite_def)
  ultimately show ?thesis unfolding run using e(1)
    by (simp add: bmfs_ok_def on_disk_def findfile_def t_def live f(8) remove1_append last_block_def num_blocks_def)
qed

theorem delete_removes_witness:
  "\<exists>s'. bmfs_delete demo_host (Some [98]) (demo_disk [demo_entry 97 1 2, demo_entry 98 3 1]) = Some s'
    \<and> live (Directory s') = [demo_entry 97 1 2] \<and> findfile (Some [98]) s' = Some None"
proof -
  let ?es = "[demo_entry 97 1 2, demo_entry 98 3 1]"
  have "disjoint_files ?es" by (auto simp: disjoint_files_def apart_def demo_entry_def first_block_def end_block_def)
  then have demo: "bmfs_ok (demo_disk ?es)" "live (Directory (demo_disk ?es)) = ?es"
    by (intro demo_ok(1); auto simp: in_disk_def) (subst demo_ok(2); auto simp: in_disk_def \<open>disjoint_files ?es\<close>)
  have "file_name [98]" by (simp add: file_name_def)
  moreover have "demo_entry 97 1 2 \<noteq> demo_entry 98 3 1" by (simp add: demo_entry_def)
  ultimately show ?thesis
    using delete_removes [OF demo(1), of "[98]" "demo_entry 98 3 1" demo_host] by (auto simp: demo(2) demo_host_def)
qed

end
