(* ===== verification/BmfsFiles.thy ===== *)
theory BmfsFiles
  imports BmfsProps
begin

section \<open>What is written to a file is read back\<close>

text \<open>
  The loops that copy character by character store a run of bytes; blocks of other files and the directory are
  elsewhere on the disk.
\<close>

lemma copyChars_eq:
  assumes "position src + n \<le> length (contents src)" and "position dst + n \<le> cap"
  shows "copyChars cap n src dst = (src\<lparr>position := position src + n\<rparr>,
    dst\<lparr>contents := overwrite (position dst) (take n (drop (position src) (contents src))) (contents dst), position := position dst + n\<rparr>)"
  using assms
proof (induction n arbitrary: src dst)
  case 0
  then show ?case by (simp add: overwrite_def)
next
  case (Suc n)
  let ?b = "contents src ! position src"
  have get: "getc src = (Some ?b, src\<lparr>position := position src + 1\<rparr>)" using Suc.prems by (simp add: getc_def)
  have put: "fputc cap (Some ?b) dst = dst\<lparr>contents := overwrite (position dst) [?b] (contents dst), position := position dst + 1\<rparr>"
    using Suc.prems by (simp add: fputc_def fwrite_def)
  have cons: "take (Suc n) (drop (position src) (contents src)) = ?b # take n (drop (Suc (position src)) (contents src))"
    using Suc.prems by (simp flip: Cons_nth_drop_Suc)
  show ?case
    using Suc.IH [of "src\<lparr>position := position src + 1\<rparr>" "fputc cap (Some ?b) dst"] Suc.prems
    by (simp add: get put cons overwrite_step)
qed

lemma block_offset:
  assumes "first_block e < 2 ^ 31"
  shows "fseek (StartingBlock e * 2097152) f = f\<lparr>position := first_block e * 2097152\<rparr>"
proof -
  have u: "unat (StartingBlock e * 2097152) = first_block e * 2097152"
    using assms unat_mult_lem [of "StartingBlock e" 2097152] by (simp add: first_block_def)
  have "uint (StartingBlock e * 2097152) = int (unat (StartingBlock e * 2097152))" by simp
  then have "uint (StartingBlock e * 2097152) = int (first_block e) * 2097152" by (simp add: u)
  then have "0 \<le> sint (StartingBlock e * 2097152)"
    using assms by (simp add: sint_uint signed_take_bit_int_eq_self)
  then show ?thesis using u by (simp add: fseek_def)
qed

lemma reserved_bytes:
  assumes "unat (ReservedBlocks e) < 2 ^ 31" and "n < 2 ^ 63"
  shows "ReservedBlocks e * 2097152 < (of_nat n :: 64 word) \<longleftrightarrow> unat (ReservedBlocks e) * 2097152 < n"
  using assms unat_mult_lem [of "ReservedBlocks e" 2097152] by (simp add: word_less_nat_alt unat_of_nat64)

lemma read_back:
  assumes found: "findfile (Some w) t = Some (Some (slot, e))" and name: "name_of e = w" "creatable h w"
    and size: "FileSize e = of_nat (length bs)" "length bs < 2 ^ 31" "length bs \<le> room h" and first: "first_block e < 2 ^ 31"
    and stored: "take (length bs) (drop (first_block e * 2097152) (contents (disk t))) = bs"
      "bs \<noteq> [] \<Longrightarrow> first_block e * 2097152 + length bs \<le> length (contents (disk t))"
  shows "\<exists>u. bmfs_read h (Some w) t = Some u \<and> files u = (files t)(w \<mapsto> bs)"
proof -
  let ?n = "length bs" and ?p = "first_block e * 2097152"
  have n: "unat (of_nat ?n :: 64 word) = ?n" using size(2) by (simp add: unat_of_nat64)
  have small: "(of_nat ?n :: 64 word) < 2147483648" using size(2) by (simp add: word_less_nat_alt n)
  have "copyChars (room h) ?n (fseek (StartingBlock e * 2097152) (disk t)) (fopen []) =
      ((disk t)\<lparr>position := ?p + ?n\<rparr>, \<lparr>contents = bs, position = ?n, failed = False\<rparr>)"
  proof (cases "bs = []")
    case True
    then show ?thesis using first by (simp add: block_offset fopen_def)
  next
    case False
    then show ?thesis using first stored size(3) by (simp add: block_offset copyChars_eq fopen_def overwrite_def)
  qed
  then show ?thesis using found small n name size(1) by (simp add: bmfs_read_def Let_def say_def counts_to_def name_of_def)
qed

definition sized :: "nat \<Rightarrow> BMFSEntry \<Rightarrow> BMFSEntry" where
  "sized n e = e\<lparr>FileSize := of_nat n\<rparr>"

lemma sized_select [simp]:
  "FileSize (sized n e) = of_nat n" "StartingBlock (sized n e) = StartingBlock e" "ReservedBlocks (sized n e) = ReservedBlocks e"
  "mark (sized n e) = mark e" "name_of (sized n e) = name_of e" "named (sized n e) = named e" "first_block (sized n e) = first_block e"
  "typed_entry (sized n e) = typed_entry e"
  by (simp_all add: sized_def mark_def name_of_def named_def first_block_def typed_entry_def)

lemma file_area:
  assumes "bmfs_ok s" and "e \<in> set (live (Directory s))"
  shows "1 \<le> first_block e" "end_block e < 2 ^ 31" "end_block e = first_block e + unat (ReservedBlocks e)" "1 < end_block e"
  using assms last_block(2) [of s] by (auto simp: bmfs_ok_def dir_ok_def in_disk_def end_block_def first_block_def)

lemma write_runs:
  assumes "bmfs_ok s" and "file_name w" and "e \<in> set (live (Directory s))" and "name_of e = w"
    and "files s w = Some bs" and "length bs \<le> unat (ReservedBlocks e) * 2097152" and "length bs < 2 ^ 31"
    and "end_block e * 2097152 \<le> room h"
  obtains s' xs ys where "bmfs_write h (Some w) s = Some s'" "Directory s = xs @ e # ys" "Directory s' = xs @ sized (length bs) e # ys"
    "live (Directory s) = filter (\<lambda>x. mark x \<noteq> 1) xs @ e # live ys"
    "live (Directory s') = filter (\<lambda>x. mark x \<noteq> 1) xs @ sized (length bs) e # live ys"
    "findLoop (Some w) 0 (Directory s') = Some (Some (length xs, sized (length bs) e))" "disksize s' = disksize s"
    "typed_dir (Directory s')" "named e" "on_disk s'"
    "contents (disk s') = overwrite 4096 (dir_bytes (Directory s')) (overwrite (first_block e * 2097152) bs (contents (disk s)))"
proof -
  let ?n = "length bs" and ?p = "first_block e * 2097152"
  obtain xs ys where f: "Directory s = xs @ e # ys" "findfile (Some w) s = Some (Some (length xs, e))" "length xs < 64"
    "\<forall>x \<in> set xs. mark x \<noteq> 0 \<and> (mark x \<noteq> 1 \<longrightarrow> named x \<and> name_of x \<noteq> w)" "mark e \<noteq> 0" "mark e \<noteq> 1" "named e"
    "live (Directory s) = filter (\<lambda>x. mark x \<noteq> 1) xs @ e # live ys" by (rule file_found [OF assms(1-4)])
  note typed = typed_dir_ok [OF assms(1)] and e = file_area [OF assms(1,3)]
  let ?D = "xs @ sized ?n e # ys"
  define d where "d = (disk s)\<lparr>contents := overwrite ?p bs (contents (disk s)), position := ?p + ?n\<rparr>"
  define t where "t = say [Txt ''Writing local file '', Quoted w, Txt '' to BMFS... ''] s\<lparr>disk := d, Directory := ?D\<rparr>"
  define s' where "s' = say [Txt ''Complete\<newline>''] (flush_directory h t)"
  have typed': "typed_dir ?D"
    using typed_dir_update [OF typed, of "sized ?n e" "length xs"] typed by (simp add: f(1) typed_dir_def)
  have copy: "copyChars (room h) ?n (fopen bs) (fseek (StartingBlock e * 2097152) (disk s)) = ((fopen bs)\<lparr>position := ?n\<rparr>, d)"
    using e assms(6,8) by (simp add: block_offset copyChars_eq fopen_def d_def)
  have n: "unat (of_nat ?n :: 64 word) = ?n" using assms(7) by (simp add: unat_of_nat64)
  have small: "(of_nat ?n :: 64 word) < 2147483648" using assms(7) by (simp add: word_less_nat_alt n)
  have "patch (length xs * 64 + 48) (le64 (of_nat ?n)) (Directory s) = ?D"
    using patch_FileSize [OF typed f(3), of "of_nat ?n"] by (simp add: f(1) sized_def)
  moreover have "\<not> ReservedBlocks e * 2097152 < (of_nat ?n :: 64 word)"
    using reserved_bytes [of e ?n] e(2,3) assms(6,7) by simp
  ultimately have run: "bmfs_write h (Some w) s = Some s'"
    using f(2) small copy n by (simp add: bmfs_write_def Let_def say_def assms(5) counts_to_def s'_def t_def)
  have room: "8192 \<le> room h" using assms(8) e(4) by simp
  have "contents (disk s') = overwrite 4096 (dir_bytes ?D) (overwrite ?p bs (contents (disk s)))"
    using typed_dirD(3) [OF typed'] room by (simp add: s'_def t_def flush_directory_def fwrite_def fseek_def d_def)
  moreover have "live ?D = filter (\<lambda>x. mark x \<noteq> 1) xs @ sized ?n e # live ys"
    using f(4-6) by (simp add: live_append live_simps)
  moreover have "findLoop (Some w) 0 ?D = Some (Some (length xs, sized ?n e))"
    using findLoop_split [OF _ f(4), of "sized ?n e" 0 ys] f(5-7) assms(2,4) by (simp add: file_name_def)
  moreover have "on_disk s'" using flush_on_disk [of t h] typed' room by (simp add: s'_def t_def on_disk_def)
  moreover have "Directory s' = ?D" "disksize s' = disksize s" by (simp_all add: s'_def t_def)
  ultimately show ?thesis using that [of s' xs ys] run f(1,7,8) typed' by simp
qed

text \<open>C29. A local file of less than 2 GiB that fits into the blocks of its file on the disk is written there byte for byte,
  and read back it gives the same bytes, whatever happened to the local files in between.  The invariant is kept, the
  directory is written, and the bytes of no other file change.  From 2 GiB on the claim fails, although the format
  allows files up to 64 TiB: both loops count the bytes in an \<open>int\<close>, which overflows.\<close>

theorem write_then_read:
  assumes "bmfs_ok s" and "file_name w" and "e \<in> set (live (Directory s))" and "name_of e = w"
    and "files s w = Some bs" and "length bs \<le> unat (ReservedBlocks e) * 2097152" and "length bs < 2 ^ 31"
    and "end_block e * 2097152 \<le> room h" and "creatable h w"
  shows "\<exists>s'. bmfs_write h (Some w) s = Some s' \<and> bmfs_ok s' \<and> on_disk s'
    \<and> (\<forall>f \<in> set (live (Directory s)). f \<noteq> e \<longrightarrow> f \<in> set (live (Directory s'))
        \<and> (\<forall>i. first_block f * 2097152 \<le> i \<and> i < end_block f * 2097152 \<and> i < length (contents (disk s))
              \<longrightarrow> contents (disk s') ! i = contents (disk s) ! i))
    \<and> (\<forall>fs. \<exists>t. bmfs_read h (Some w) (s'\<lparr>files := fs\<rparr>) = Some t \<and> files t = fs(w \<mapsto> bs))"
proof -
  let ?n = "length bs" and ?p = "first_block e * 2097152"
  obtain s' xs ys where run: "bmfs_write h (Some w) s = Some s'" "Directory s = xs @ e # ys" "Directory s' = xs @ sized ?n e # ys"
    and live: "live (Directory s) = filter (\<lambda>x. mark x \<noteq> 1) xs @ e # live ys"
      "live (Directory s') = filter (\<lambda>x. mark x \<noteq> 1) xs @ sized ?n e # live ys"
    and found: "findLoop (Some w) 0 (Directory s') = Some (Some (length xs, sized ?n e))"
    and dir: "disksize s' = disksize s" "typed_dir (Directory s')" "named e" "on_disk s'"
    and cont: "contents (disk s') = overwrite 4096 (dir_bytes (Directory s')) (overwrite ?p bs (contents (disk s)))"
    by (rule write_runs [OF assms(1-8)])
  note e = file_area [OF assms(1,3)]
  have ok: "dir_ok (last_block s) (Directory s)" "4 \<le> unat (disksize s)" using assms(1) by (simp_all add: bmfs_ok_def)
  have "dir_ok (last_block s) (Directory s')" using dir_ok_replace [OF ok(1) live dir(2)] dir(3) by simp
  then have ok': "bmfs_ok s'" using ok(2) by (simp add: bmfs_ok_def last_block_def num_blocks_def dir(1))
  have len: "length (dir_bytes (Directory s')) = 4096" by (rule typed_dirD(3) [OF dir(2)])
  then have ne: "dir_bytes (Directory s') \<noteq> []" by auto
  have other: "contents (disk s') ! i = contents (disk s) ! i" if g: "g \<in> set (live (Directory s))" "g \<noteq> e"
      and i: "first_block g * 2097152 \<le> i" "i < end_block g * 2097152" "i < length (contents (disk s))" for g i
  proof -
    have "apart g e" "1 \<le> first_block g" using ok(1) g assms(3) by (auto simp: dir_ok_def disjoint_files_def in_disk_def)
    then have "8192 \<le> i" "i < ?p \<or> ?p + ?n \<le> i" using i assms(6) e(3) by (auto simp: apart_def)
    then show ?thesis using i(3) ne len by (cases "bs = []") (auto simp: cont nth_overwrite length_overwrite overwrite_def [of _ "[]"])
  qed
  have same: "g \<in> set (live (Directory s'))" if "g \<in> set (live (Directory s))" "g \<noteq> e" for g using that by (auto simp: live)
  have "take ?n (drop ?p (contents (disk s'))) = bs \<and> (bs \<noteq> [] \<longrightarrow> ?p + ?n \<le> length (contents (disk s')))"
  proof (cases "bs = []")
    case False
    have "take ?n (drop ?p (contents (disk s'))) = take ?n (drop ?p (overwrite ?p bs (contents (disk s))))"
      using e(1) ne len False by (intro slice_eqI) (auto simp: cont nth_overwrite length_overwrite)
    then show ?thesis using overwrite_slice [of bs ?p] ne len False by (simp add: cont length_overwrite)
  qed simp
  then have "\<exists>t. bmfs_read h (Some w) (s'\<lparr>files := fs\<rparr>) = Some t \<and> files t = fs(w \<mapsto> bs)" for fs
    using read_back [of w "s'\<lparr>files := fs\<rparr>" "length xs" "sized ?n e" h bs] found assms(4,6-9) e(2,3) by (simp add: findfile_def)
  then show ?thesis using run(1) ok' dir(4) same other by (intro exI [of _ s']) simp
qed

theorem write_then_read_witness:
  "\<exists>s'. bmfs_write demo_host (Some [97]) ((demo_disk [demo_entry 97 1 2])\<lparr>files := [[97] \<mapsto> [1, 2, 3]]\<rparr>) = Some s'
    \<and> (\<exists>t. bmfs_read demo_host (Some [97]) (s'\<lparr>files := Map.empty\<rparr>) = Some t \<and> files t = [[97] \<mapsto> [1, 2, 3]])"
proof -
  let ?e = "demo_entry 97 1 2"
  have demo: "bmfs_ok (demo_disk [?e])" "live (Directory (demo_disk [?e])) = [?e]"
    using demo_ok [of "[?e]"] by (simp_all add: in_disk_def disjoint_files_def)
  let ?s = "(demo_disk [?e])\<lparr>files := [[97] \<mapsto> [1, 2, 3]]\<rparr>"
  have "bmfs_ok ?s" using demo(1) by (simp add: bmfs_ok_def last_block_def num_blocks_def)
  moreover have "file_name [97]" by (simp add: file_name_def)
  ultimately show ?thesis
    using write_then_read [of ?s "[97]" ?e "[1, 2, 3]" demo_host] demo(2) by (simp add: demo_host_def) blast
qed

subsection \<open>A new disk\<close>

lemma fillLoop_zeros:
  assumes "contents (disk s) = replicate (unat w) 0" and "position (disk s) = unat w" and "w \<le> d" and "unat d \<le> room h"
  shows "\<exists>ps f. fillLoop h d w s = Some (0, d, s\<lparr>printed := ps, disk := f\<rparr>) \<and> contents f = replicate (unat d) 0 \<and> failed f = failed (disk s)"
  using assms
proof (induction "unat d - unat w" arbitrary: w s rule: less_induct)
  case less
  show ?case
  proof (cases "w < d")
    case False
    then have "w = d" using less.prems(3) by simp
    then show ?thesis using less.prems(1)
      by (subst fillLoop.simps, intro exI [of _ "printed s"] exI [of _ "disk s"]) simp
  next
    case True
    define c where "c = (if 51200 > d - w then d - w else 51200)"
    have dw: "unat (d - w) = unat d - unat w" "unat w < unat d" using True unat_sub [OF less.prems(3)] by (simp_all add: word_less_nat_alt)
    have c: "0 < unat c" "unat c \<le> unat d - unat w" by (auto simp: c_def dw word_less_nat_alt not_less word_le_nat_alt)
    have wc: "unat (w + c) = unat w + unat c"
      using c(2) dw(2) unsigned_less [of d, where ?'a = nat] by (intro unat_add_lem [THEN iffD1]) simp
    define t where "t = say [Txt ''Formatting disk: '', Num (uint w), Txt '' of '', Num (uint d), Txt '' bytes ('', Percent, Txt '')...'', Str [13]] s"
    let ?f = "(disk s)\<lparr>contents := replicate (unat (w + c)) 0, position := unat (w + c)\<rparr>"
    have "overwrite (unat w) (replicate (unat c) 0) (replicate (unat w) 0) = replicate (unat (w + c)) (0 :: byte)"
      using c(1) by (simp add: overwrite_def wc replicate_add)
    then have "disk_fwrite h (replicate (unat c) 0) (0, t) = (0, t\<lparr>disk := ?f\<rparr>)"
      using less.prems(1,2,4) c(2) dw(2) by (simp add: disk_fwrite_def fwrite_def t_def say_def wc)
    then have "fillLoop h d w s = fillLoop h d (w + c) (t\<lparr>disk := ?f\<rparr>)"
      using True by (subst fillLoop.simps) (simp add: Let_def t_def [symmetric] c_def [symmetric])
    moreover have "\<exists>ps f. fillLoop h d (w + c) (t\<lparr>disk := ?f\<rparr>) = Some (0, d, (t\<lparr>disk := ?f\<rparr>)\<lparr>printed := ps, disk := f\<rparr>)
        \<and> contents f = replicate (unat d) 0 \<and> failed f = failed (disk (t\<lparr>disk := ?f\<rparr>))"
      by (rule less.hyps) (use c dw wc less.prems(4) in \<open>auto simp: word_le_nat_alt\<close>)
    ultimately show ?thesis by (auto simp: t_def say_def)
  qed
qed

lemma dir_of_zeros: "dir_of_bytes (replicate 4096 0) = replicate 64 zero_entry"
proof (rule nth_equalityI)
  have "load64 (replicate n 0) = 0" if "8 \<le> n" for n
  proof (rule bit_word_eqI)
    fix i assume "i < LENGTH(64)"
    then have "i div 8 < n" using that by simp
    then show "bit (load64 (replicate n 0)) i = bit 0 i" by (simp add: load64_def bit_load64)
  qed
  then have "entry_of_bytes (replicate 64 0) = zero_entry" by (simp add: entry_of_bytes_def zero_entry_def min_def)
  then show "dir_of_bytes (replicate 4096 0) ! i = replicate 64 zero_entry ! i" if "i < length (dir_of_bytes (replicate 4096 0))" for i
    using that by (simp add: dir_of_bytes_def min_def)
qed (simp add: dir_of_bytes_def)

lemma diskSizeOf_minimum: "diskSizeOf sz = (0, d, out) \<Longrightarrow> minimumDiskSize \<le> d"
  by (auto simp: diskSizeOf_def Let_def split: prod.splits if_splits)

subsection \<open>The size of a new disk\<close>

definition decimal :: "nat \<Rightarrow> byte list \<Rightarrow> nat" where
  "decimal n w = foldl (\<lambda>n c. 10 * n + (unat c - 48)) n w"

definition unit_factor :: "byte list \<Rightarrow> nat option" where
  \<comment> \<open>no unit, or one of K, M, G, T, P in either case\<close>
  "unit_factor u = (case u of [] \<Rightarrow> Some 0
     | [c] \<Rightarrow> map_of [(75, 1), (77, 2), (71, 3), (84, 4), (80, 5)] (toupper c) | _ \<Rightarrow> None)"

lemma decimal_simps [simp]: "decimal n [] = n" "decimal n (c # w) = decimal (10 * n + (unat c - 48)) w"
  by (simp_all add: decimal_def)

lemma decimal_grows: "n \<le> decimal n w"
proof (induction w arbitrary: n)
  case (Cons c w)
  show ?case using Cons [of "10 * n + (unat c - 48)"] by simp
qed simp

lemma parseSize_digits:
  assumes "\<forall>c \<in> set w. isdigit c" and "decimal n w < 2 ^ 64"
  shows "parseSize i whole (w @ u) (of_nat n) f = parseSize (i + length w) whole u (of_nat (decimal n w)) f"
  using assms
proof (induction w arbitrary: n i)
  case (Cons c w)
  have c: "isdigit c" "48 \<le> c" "unat c \<le> 57" using Cons.prems(1) by (simp_all add: isdigit_def word_le_nat_alt)
  let ?n = "10 * n + (unat c - 48)"
  have le: "?n < 2 ^ 64" using decimal_grows [of ?n w] Cons.prems(2) by simp
  have "unat (c - 48) = unat c - 48" using unat_sub [OF c(2)] by simp
  then have sub: "ucast (c - 48) = (of_nat (unat c - 48) :: 64 word)" by (metis of_nat_unat)
  have ten: "unat (of_nat n * 10 :: 64 word) = 10 * n" "unat (of_nat n :: 64 word) = n"
    using le unat_of_nat64 [of "10 * n"] by (simp_all add: unat_of_nat64 mult.commute)
  have eq: "(of_nat n * 10 + ucast (c - 48) :: 64 word) = of_nat ?n" by (simp add: sub mult.commute)
  have "parseSize i whole ((c # w) @ u) (of_nat n) f = parseSize (i + 1) whole (w @ u) (of_nat ?n) f"
  proof (cases "n = 0")
    case True
    then show ?thesis using c(1) sub by (simp add: Let_def)
  next
    case False
    then have "(of_nat n :: 64 word) * 10 > of_nat n" by (simp add: word_less_nat_alt ten)
    then have "parseSize i whole ((c # w) @ u) (of_nat n) f = parseSize (i + 1) whole (w @ u) (of_nat n * 10 + ucast (c - 48)) f"
      using c(1) by (simp add: Let_def)
    then show ?thesis by (simp only: eq)
  qed
  also have "\<dots> = parseSize (i + length (c # w)) whole u (of_nat (decimal n (c # w))) f"
    using Cons.IH [of ?n "i + 1"] Cons.prems by simp
  finally show ?case .
qed simp

lemma le_scaled: "n \<le> n * 1024 ^ k" for n :: nat
  by simp

lemma scaleLoop_value: "0 < n \<Longrightarrow> n * 1024 ^ k < 2 ^ 64 \<Longrightarrow> scaleLoop k 0 (of_nat n) = (0, of_nat (n * 1024 ^ k), [])"
proof (induction k arbitrary: n)
  case (Suc k)
  have le: "n * 1024 < 2 ^ 64" using le_less_trans [OF le_scaled [of "n * 1024" k], of "2 ^ 64"] Suc.prems(2) by (simp add: mult.assoc)
  then have "unat (of_nat n * 1024 :: 64 word) = n * 1024" "unat (of_nat n :: 64 word) = n"
    using unat_of_nat64 [of "n * 1024"] by (simp_all add: unat_of_nat64)
  then have "(of_nat n :: 64 word) * 1024 > of_nat n" using Suc.prems(1) by (simp add: word_less_nat_alt)
  moreover have "scaleLoop k 0 (of_nat (n * 1024)) = (0, of_nat (n * 1024 * 1024 ^ k), [])"
    using Suc.IH [of "n * 1024"] Suc.prems by (simp add: mult.assoc)
  ultimately show ?case by (simp add: mult.assoc)
qed simp

lemma parseSize_unit:
  assumes "unit_factor u = Some k" and "0 < i"
  shows "parseSize i whole u d 0 = (0, d, k, [])"
proof (cases u)
  case (Cons c v)
  then have c: "v = []" "map_of [(75, 1), (77, 2), (71, 3), (84, 4), (80, 5)] (toupper c) = Some k"
    using assms(1) unfolding unit_factor_def Cons by (cases v; simp only: list.case option.distinct; fail)+
  from map_of_SomeD [OF c(2)] have t: "toupper c = 75 \<and> k = 1 \<or> toupper c = 77 \<and> k = 2 \<or> toupper c = 71 \<and> k = 3
      \<or> toupper c = 84 \<and> k = 4 \<or> toupper c = 80 \<and> k = 5" by auto
  then have "\<not> isdigit c" by (auto simp: isdigit_def toupper_def word_le_nat_alt word_less_nat_alt split: if_splits)
  then show ?thesis using t c(1) assms(2) by (elim disjE) (simp_all add: Cons Let_def)
qed (use assms in \<open>simp add: unit_factor_def\<close>)

lemma diskSizeOf_value:
  assumes "\<forall>c \<in> set w. isdigit c" "w \<noteq> []" and "unit_factor u = Some k"
    and "decimal 0 w * 1024 ^ k < 2 ^ 64" and "6291456 \<le> decimal 0 w * 1024 ^ k"
  shows "diskSizeOf (w @ u) = (0, of_nat (decimal 0 w * 1024 ^ k), [])"
proof -
  let ?v = "decimal 0 w"
  have v: "0 < ?v" "?v < 2 ^ 64" using le_less_trans [OF le_scaled assms(4)] assms(5) by (auto intro: gr0I)
  have p: "parseSize 0 (w @ u) (w @ u) 0 0 = (0, of_nat ?v, k, [])"
    using parseSize_digits [of w 0 0 "w @ u" u 0] parseSize_unit [OF assms(3), of "length w"] assms(1,2) v(2) by simp
  have pos: "0 < (of_nat ?v :: 64 word)" using v by (simp add: word_less_nat_alt unat_of_nat64)
  have big: "\<not> (of_nat (?v * 1024 ^ k) :: 64 word) < minimumDiskSize"
    using assms(4,5) unat_of_nat64 [of "?v * 1024 ^ k"] by (simp add: word_less_nat_alt minimumDiskSize_def del: of_nat_mult of_nat_power)
  show ?thesis
  proof (cases "k = 0")
    case True
    then show ?thesis using p big by (simp add: diskSizeOf_def)
  next
    case False
    then show ?thesis using p big pos scaleLoop_value [OF v(1) assms(4)]
      by (simp add: diskSizeOf_def del: of_nat_mult of_nat_power)
  qed
qed

text \<open>The overflow test misses an overflow: a product that wraps may still be greater.\<close>

lemma oversized_disk_accepted: "diskSizeOf (ascii ''30000000000000000000'') = (0, 11553255926290448384, [])"
  by code_simp

subsection \<open>A disk that was initialised\<close>

lemma dir_zeros: "dir_bytes (replicate 64 zero_entry) = replicate 4096 0" "typed_dir (replicate 64 zero_entry)"
proof -
  have z: "entry_bytes zero_entry = replicate 64 0"
    by (simp add: entry_bytes_def zero_entry_def le64_def map_replicate_trivial flip: replicate_add)
  have "dir_bytes (replicate n zero_entry) = replicate (n * 64) 0" for n
    by (induction n) (simp_all add: z replicate_add)
  then show "dir_bytes (replicate 64 zero_entry) = replicate 4096 0" by simp
  show "typed_dir (replicate 64 zero_entry)" by (simp add: typed_dir_def)
qed

abbreviation (input) info_block :: "byte list" where
  "info_block \<equiv> ascii ''BMFS'' @ replicate 508 0"

lemma bmfs_format_runs:
  assumes "8192 \<le> length (contents (disk s))" and "8192 \<le> room h"
  shows "\<exists>C f. disk (bmfs_format h s) = f \<and> contents f = C \<and> files (bmfs_format h s) = files s \<and> diskname (bmfs_format h s) = diskname s
    \<and> length C = length (contents (disk s)) \<and> take 512 (drop 1024 C) = info_block \<and> take 4096 (drop 4096 C) = replicate 4096 0"
proof -
  let ?X = "contents (disk s)"
  let ?C = "overwrite 4096 (replicate 4096 0) (overwrite 1024 info_block ?X)"
  have c: "contents (disk (bmfs_format h s)) = ?C"
    using assms(2) by (simp add: bmfs_format_def Let_def say_def flush_directory_def fwrite_def fseek_def dir_of_zeros dir_zeros)
  have l: "length info_block = 512" by simp
  have "take 512 (drop 1024 ?C) = take 512 (drop 1024 (overwrite 1024 info_block ?X))"
    using assms(1) by (intro slice_eqI) (simp_all add: nth_overwrite length_overwrite del: overwrite_def)
  then have "take 512 (drop 1024 ?C) = info_block" using overwrite_slice [of info_block 1024 ?X] by (simp only: l)
  moreover have "take 4096 (drop 4096 ?C) = replicate 4096 0" using overwrite_slice [of "replicate 4096 0" 4096] by simp
  moreover have "length ?C = length ?X" using assms(1) by (simp add: length_overwrite)
  moreover have "files (bmfs_format h s) = files s" "diskname (bmfs_format h s) = diskname s"
    by (simp_all add: bmfs_format_def Let_def say_def flush_directory_def)
  ultimately show ?thesis using c by blast
qed

lemma open_formatted:
  assumes "take 512 (drop 1024 C) = info_block" and "take 4096 (drop 4096 C) = replicate 4096 0"
    and "length C div 1048576 < 2 ^ 32" "4 \<le> length C div 1048576" and "typed_dir (Directory t)" "length (DiskInfo t) = 512"
  shows "bmfs_ok (open_disk C t) \<and> live (Directory (open_disk C t)) = [] \<and> ends (Directory (open_disk C t)) \<and> on_disk (open_disk C t)
    \<and> strcasecmp0 (ascii ''BMFS'') (DiskInfo (open_disk C t)) = Some True \<and> unat (disksize (open_disk C t)) = length C div 1048576"
proof -
  let ?u = "open_disk C t"
  have "4 * 1048576 \<le> length C" using assms(4) less_eq_div_iff_mult_less_eq [of 1048576 4 "length C"] by simp
  then have len: "min (length C - 4096) 4096 = 4096" "512 \<le> length C - 1024" by simp_all
  have u: "Directory ?u = replicate 64 zero_entry" "DiskInfo ?u = info_block" "contents (disk ?u) = C" "disksize ?u = of_nat (length C div 1048576)"
    using assms(1,2) typed_dirD(3) [OF assms(5)] assms(6)
    by (simp_all add: open_disk_def Let_def fread_def fseek_def fopen_def fill_buffer_def dir_of_zeros len)
  have size: "unat (disksize ?u) = length C div 1048576" using assms(3) by (simp add: u(4) unat_of_nat take_bit_nat_eq_self)
  have "dir_ok (last_block ?u) (replicate 64 zero_entry)"
    using dir_zeros(2) by (simp add: dir_ok_def live_zero disjoint_files_def)
  then have "bmfs_ok ?u" using size assms(4) by (simp add: bmfs_ok_def u(1))
  moreover have "strcasecmp0 (ascii ''BMFS'') info_block = Some True"
  proof -
    have "replicate 508 (0 :: byte) = 0 # replicate 507 0" using replicate_Suc [of 507 "0 :: byte"] by simp
    then show ?thesis by (simp add: strcasecmp0_def tolower_def)
  qed
  moreover have "on_disk ?u" using assms(2) by (simp add: on_disk_def u(1,3) dir_zeros(1))
  ultimately show ?thesis using size by (simp add: u(1,2) live_zero ends_def)
qed

text \<open>C31. \<open>initialize\<close> with a size in digits and a unit, from the 6 MiB that the code demands to below \<open>2 ^ 52\<close> bytes, makes a
  disk of exactly that many bytes which, opened again, is a BMFS disk in its invariant, with an empty directory.\<close>

theorem initialize_makes_empty_disk:
  assumes "\<forall>c \<in> set w. isdigit c" "w \<noteq> []" and "unit_factor u = Some k"
    and "decimal 0 w * 1024 ^ k < 2 ^ 52" and "6291456 \<le> decimal 0 w * 1024 ^ k" and "decimal 0 w * 1024 ^ k \<le> room h"
    and "has_memory h" and "creatable h (diskname s)" and "typed_dir (Directory t)" "length (DiskInfo t) = 512"
  shows "\<exists>s' C. bmfs_initialize h (w @ u) None None None s = Some (0, s') \<and> files s' = (files s)(diskname s \<mapsto> C)
    \<and> length C = decimal 0 w * 1024 ^ k
    \<and> bmfs_ok (open_disk C t) \<and> on_disk (open_disk C t) \<and> live (Directory (open_disk C t)) = [] \<and> ends (Directory (open_disk C t))
    \<and> strcasecmp0 (ascii ''BMFS'') (DiskInfo (open_disk C t)) = Some True
    \<and> unat (disksize (open_disk C t)) = length C div 1048576"
proof -
  define v where "v = decimal 0 w * 1024 ^ k"
  let ?d = "of_nat v :: 64 word"
  have v: "v < 2 ^ 52" "6291456 \<le> v" "v \<le> room h" using assms(4-6) by (simp_all add: v_def)
  have d: "unat ?d = v" using v(1) by (simp add: unat_of_nat64)
  have size: "diskSizeOf (w @ u) = (0, ?d, [])" unfolding v_def by (rule diskSizeOf_value [OF assms(1-3)]) (use assms(4,5) in simp_all)
  define s0 where "s0 = s\<lparr>disk := fopen []\<rparr>"
  obtain ps f where f: "fillLoop h ?d 0 s0 = Some (0, ?d, s0\<lparr>printed := ps, disk := f\<rparr>)" "contents f = replicate v 0"
    using fillLoop_zeros [of s0 0 ?d h] v(3) by (auto simp: s0_def fopen_def d)
  define s1 where "s1 = say [Txt ''Formatting disk: '', Num (uint ?d), Txt '' of '', Num (uint ?d), Txt '' bytes (100%)         \<newline>'']
    (s0\<lparr>printed := ps, disk := f\<rparr>)"
  define s2 where "s2 = s1\<lparr>disk := fseek 0 (disk s1)\<rparr>"
  have "length (contents (disk s2)) = v" by (simp add: s2_def s1_def say_def fseek_def f(2))
  then obtain C g where C: "disk (bmfs_format h s2) = g" "contents g = C" "files (bmfs_format h s2) = files s2"
      "diskname (bmfs_format h s2) = diskname s2" "length C = v"
      "take 512 (drop 1024 C) = info_block" "take 4096 (drop 4096 C) = replicate 4096 0"
    using bmfs_format_runs [of s2 h] v(2,3) by auto
  have s2: "files s2 = files s" "diskname s2 = diskname s" by (simp_all add: s2_def s1_def s0_def say_def)
  have run: "bmfs_initialize h (w @ u) None None None s = Some (0, say [Txt ''Disk initialization complete.\<newline>'']
      ((bmfs_format h s2)\<lparr>files := (files s)(diskname s \<mapsto> C)\<rparr>))"
    using assms(7,8) f(1) C s2
    by (simp add: bmfs_initialize_def size open_optional_def say_def [of "[]"] s0_def [symmetric] s1_def [symmetric] s2_def [symmetric])
  have "length C div 1048576 < 2 ^ 32" "4 \<le> length C div 1048576" using v(1,2) C(5) by (simp_all add: div_less_iff_less_mult less_eq_div_iff_mult_less_eq)
  from open_formatted [OF C(6,7) this assms(9,10)] show ?thesis
    using run C(5) unfolding v_def by (intro exI [of _ "say [Txt ''Disk initialization complete.\<newline>'']
      ((bmfs_format h s2)\<lparr>files := (files s)(diskname s \<mapsto> C)\<rparr>)"] exI [of _ C]) simp
qed

theorem initialize_makes_empty_disk_witness:
  "\<exists>s' C. bmfs_initialize demo_host (ascii ''6M'') None None None (demo_disk []) = Some (0, s') \<and> length C = 6291456
    \<and> files s' = [[100] \<mapsto> C] \<and> bmfs_ok (open_disk C (demo_disk [])) \<and> live (Directory (open_disk C (demo_disk []))) = []"
proof -
  have u: "unit_factor [77] = Some 2" by (simp add: unit_factor_def toupper_def)
  have t: "typed_dir (Directory (demo_disk []))" "length (DiskInfo (demo_disk [])) = 512" "diskname (demo_disk []) = [100]"
      "files (demo_disk []) = Map.empty"
    by (simp_all add: demo_disk_def dir_zeros)
  show ?thesis
    using initialize_makes_empty_disk [OF _ _ u, of "[54]" demo_host "demo_disk []" "demo_disk []"] t
    by (simp add: isdigit_def demo_host_def) blast
qed

end
