(* ===== verification/Spec2Isabelle.thy ===== *)
theory Spec2Isabelle
  imports SchedProps KernelSteps Shell PipeTalk Drivers ProdCons BmfsFiles
begin

text \<open>
  A verification of \<^verbatim>\<open>x64barebones\<close>: a small kernel for one x86-64 processor, the user programs it starts, and the
  two host tools that build its image.  Paths below are relative to \<^verbatim>\<open>src/x64barebones\<close>; \<^verbatim>\<open>Kernel/\<close> is left out.

  \<^bold>\<open>The program.\<close>  \<^verbatim>\<open>initializeKernelBinary\<close> copies the packed modules to their places and clears \<^verbatim>\<open>bss\<close>; \<^verbatim>\<open>main\<close> sets up
  the interrupt table, the network card, the page allocator and the scheduler, adds the processes \<^verbatim>\<open>init\<close> and \<^verbatim>\<open>shell\<close> and
  jumps into the first.  From then on the kernel is entered by interrupts only: the timer (\<^verbatim>\<open>runScheduler\<close>), the
  keyboard, the network card, \<^verbatim>\<open>int 80h\<close> (system calls) and \<^verbatim>\<open>int 71h\<close> (\<^verbatim>\<open>yield\<close>).  Interrupts are off inside
  the kernel, so every entry is one step.  Every node that the kernel keeps (process, thread, queue node, mutex, semaphore, pipe,
  screen, heap block) is a page of the page allocator.

  \<^bold>\<open>Theories and code.\<close>
  \<^item> \<open>KPrelude\<close>: addresses, pages, C \<open>int\<close> at 32 bits, undefined results, shared rules.  \<open>LinkedNodes\<close>: the
    interfaces (locales) of searching, appending to and removing from a linked list and of walking a ring; \<open>RingBuffer\<close>: a
    ring in which zero marks a free place; \<open>Waiters\<close>, \<open>WaitObjs\<close>: lists of blocked threads.
  \<^item> Memory: \<open>BitMap\<close> (\<^verbatim>\<open>bitmap.c\<close>), \<open>MemoryManager\<close> (\<^verbatim>\<open>memoryManager.c\<close>), \<open>KLib\<close> (\<^verbatim>\<open>lib.c\<close>), \<open>CharMem\<close> (memory as characters).
  \<^item> Processes: \<open>ProcTypes\<close> (the records of \<^verbatim>\<open>process.h\<close>, \<^verbatim>\<open>threads.h\<close>, \<^verbatim>\<open>scheduler.h\<close>), \<open>SchedQuery\<close>, \<open>Threads\<close> (\<^verbatim>\<open>threads.c\<close>),
    \<open>Process\<close> (\<^verbatim>\<open>process.c\<close>), \<open>Scheduler\<close> (\<^verbatim>\<open>scheduler.c\<close>), \<open>SchedSteps\<close> and \<open>SchedProps\<close> (their invariant and properties),
    \<open>NewProcess\<close> (\<^verbatim>\<open>addProcess\<close>), \<open>Ps\<close> (the listing).
  \<^item> Communication: \<open>Mutex\<close>, \<open>Semaphores\<close>, \<open>PipeFs\<close>.
  \<^item> Devices: \<open>PortIO\<close> (\<^verbatim>\<open>asm/sysIO.asm\<close>), \<open>VideoDriver\<close>, \<open>NaiveConsole\<close>, \<open>ScreenLoader\<close>, \<open>Keyboard\<close> (\<^verbatim>\<open>keyBoadDriver.c\<close>),
    \<open>Pci\<close>, \<open>Rtl8139\<close>, \<open>Interruptions\<close>; \<open>KStdLib\<close> (\<^verbatim>\<open>myStdLib.c\<close>).
  \<^item> The whole kernel: \<open>SystemCalls\<close> (\<^verbatim>\<open>systemCalls.c\<close>), \<open>ModuleLoader\<close> (\<^verbatim>\<open>moduleLoader.c\<close> and
    \<^verbatim>\<open>Toolchain/ModulePacker/main.c\<close>), \<open>KernelMain\<close> (\<^verbatim>\<open>kernel.c\<close>), \<open>Geometry\<close> and \<open>KernelSteps\<close> (every entry keeps the
    data well formed).
  \<^item> User programs (\<^verbatim>\<open>Userland/SampleCodeModule\<close>): \<open>UString\<close>, \<open>UStdio\<close>, \<open>UCalls\<close>, \<open>Shell\<close>, \<open>Philosophers\<close>, \<open>ProdCons\<close>,
    \<open>PipeTalk\<close>, \<open>Drivers\<close> (the rest of \<^verbatim>\<open>shell.c\<close>, \<^verbatim>\<open>_loader.c\<close>, \<^verbatim>\<open>sampleCodeModule.c\<close>).
  \<^item> The disk utility (\<^verbatim>\<open>Bootloader/BMFS/bmfs.c\<close>): \<open>BmfsDisk\<close>, \<open>Bmfs\<close>, \<open>BmfsProps\<close>, \<open>BmfsFiles\<close>.

  \<^bold>\<open>State.\<close>  The static variables of the kernel are the fields of one record that grows along the imports:
  \<open>mm_state\<close> (page allocator), \<open>sched\<close> (scheduler and the nodes), \<open>cstate\<close> (memory as characters), \<open>vstate\<close>
  (cursor), \<open>console\<close>; operations are polymorphic in what is added later.  \<open>kernel\<close> puts it together with
  the screens, keyboard, mutexes, semaphores, pipes and the network driver.  Nodes are kept in one store per type, a
  function from addresses; characters (names, buffers, the screen at \<open>0xB8000\<close>) are in one flat memory.  So writing
  a character into a node, or a node over another of a different type, is outside the model, except where a theorem speaks of
  the page itself: a page that is freed and allocated again keeps the node that was in it, and the recycling theorems show
  what that does.  C \<open>int\<close>s are \<open>int\<close> with explicit wrap-around or with \<open>None\<close> on overflow, unsigned
  values are words; addresses are \<open>nat\<close>, and the pages of the allocator lie where no sum wraps.

  \<^bold>\<open>None.\<close>  An operation returns \<open>None\<close> exactly when the code has no defined result there: a null pointer or an index out of
  range is used, an \<open>int\<close> overflows, a loop does not end, or a user program waits for a key that nobody types.  Loops over
  linked structures are \<open>partial_function (option)\<close>; no fuel is used, and where the code
  is meant to return the theorems say that the result is \<open>Some\<close>.  What an uninitialised variable holds, what a device
  answers and what \<^verbatim>\<open>malloc\<close> returns unclean are parameters (\<open>uninit\<close>, \<open>device\<close>, \<open>locals\<close>, \<open>junk\<close>).

  \<^bold>\<open>What the lemmas show.\<close>
  \<^item> Page allocator: first fit, blocks that live at the same time never overlap, freeing undoes allocating, and the size test that
    takes words for bytes.  The interface is the locale \<open>page_allocator\<close>.
  \<^item> Scheduler: \<open>sched_inv\<close> (ring of processes, ring of threads in each, one that runs) is kept by ticks, yields, blocking,
    waking and new processes; the switch is round robin, returns exactly when something is ready, and gives every process its turn.
  \<^item> Mutexes and semaphores: one invariant for both through \<open>wait_list\<close>, who is woken, and that a woken thread does
    not own the mutex it waited for.
  \<^item> Pipes and keyboard refine queues through the locale \<open>zero_ring\<close>; printing refines an abstract terminal, and
    a change of focus keeps the terminals.  The network driver hands messages out in order and is deaf after a hundred.
  \<^item> \<open>kernel_boots\<close>: start-up as a whole; \<open>background_tabs_escape_video\<close>: what a tabulator written in the background does to
    the screen on focus; \<open>kernel_stays_typed\<close>: any sequence of entries that return keeps the lengths of the tables and the ranges
    of the indices (user pointers cannot reach the typed stores of the model, so it says nothing of a program that
    overwrites the kernel's nodes).
  \<^item> User programs: \<^verbatim>\<open>printf\<close> and the shell on the terminal of the process on focus (locale \<open>terminal_io\<close>, interpreted on the
    system calls of the kernel); the philosophers, producer and consumer and the conversation through pipes as interleavings.  There
    mutexes, semaphores and pipes are small models of what the lemmas of the kernel say of them, a thread is the list of its
    calls, and any thread that is awake may take the next step.  The pipes are tied to \<open>writeToPipe\<close> and \<open>readFromPipe\<close> by lemmas of
    \<open>PipeTalk\<close>; the mutexes are the kernel's, which do not exclude: the philosophers never get stuck, but two neighbours may eat
    at once.
  \<^item> Disk utility: where a new file is put and when it overlaps another, what is written is read back, what a new disk holds.
    Streams of the host are byte lists; \<^verbatim>\<open>qsort\<close>, the room of the host and its files are parameters, and \<^verbatim>\<open>qsort\<close> is assumed to
    sort only where its comparison is consistent.

  \<^bold>\<open>Not modelled.\<close>  The boot loader Pure64 and the assembly stubs that save registers, load the interrupt table
  and switch the stack (their effect on the kernel's data is in the handlers); the processes \<^verbatim>\<open>init\<close>, \<^verbatim>\<open>acaEstoy\<close> and the
  waiting loops, which only pass time; of endless loops one round; \<^verbatim>\<open>philosophers.c\<close> and \<^verbatim>\<open>stdlib.c\<close> of the user programs
  and a third of \<^verbatim>\<open>kernel.c\<close>, which are comments; \<^verbatim>\<open>myGameBack.h\<close>, whose game is not in the repository; the host programs
  under \<^verbatim>\<open>src/tests\<close>.  The headers are covered as far as they define types and constants; prototypes have no model.
\<close>

end
